(* ===== verification/Prelude.thy ===== *)
theory Prelude
  imports Main "HOL-Library.Char_ord" "HOL-Library.List_Lexorder"
begin

text \<open>
  Vocabulary shared by every component: results as sums, the \<open>?\<close> operator as
  \<open>rbind\<close>, first-error loops, Rust's string operations on UTF-8 byte lists, and
  \<open>BTreeMap\<close> as an association list sorted by key.
\<close>

section \<open>Results\<close>

text \<open>Rust's \<open>Result<T, E>\<close>: \<open>Inl\<close> is \<open>Err\<close>, \<open>Inr\<close> is \<open>Ok\<close>.\<close>

type_synonym ('e, 'a) result = "'e + 'a"

named_theorems result_simps \<open>equations that run a result pipeline\<close>

definition rbind :: "('e, 'a) result \<Rightarrow> ('a \<Rightarrow> ('e, 'b) result) \<Rightarrow> ('e, 'b) result" where
  "rbind r k = (case r of Inl e \<Rightarrow> Inl e | Inr a \<Rightarrow> k a)"

lemma rbind_Inl [simp, result_simps]: "rbind (Inl e) k = Inl e"
  by (simp add: rbind_def)

lemma rbind_Inr [simp, result_simps]: "rbind (Inr a) k = k a"
  by (simp add: rbind_def)

lemma rbind_Inr_right [simp]: "rbind r Inr = r"
  by (cases r) auto

lemma rbind_eq_Inr: "rbind r k = Inr b \<longleftrightarrow> (\<exists>a. r = Inr a \<and> k a = Inr b)"
  by (cases r) auto

lemma rbind_eq_Inl: "rbind r k = Inl e \<longleftrightarrow> r = Inl e \<or> (\<exists>a. r = Inr a \<and> k a = Inl e)"
  by (cases r) auto

lemma rbind_unit_eq_Inr: "rbind r (\<lambda>_. s) = Inr b \<longleftrightarrow> r = Inr () \<and> s = Inr b"
  by (cases r) auto

text \<open>\<open>Result::map_err\<close>\<close>

definition map_err :: "('e \<Rightarrow> 'f) \<Rightarrow> ('e, 'a) result \<Rightarrow> ('f, 'a) result" where
  "map_err f r = map_sum f id r"

lemma map_err_simps [simp, result_simps]:
  "map_err f (Inl e) = Inl (f e)" "map_err f (Inr a) = Inr a"
  by (simp_all add: map_err_def)

lemma map_err_Inr_iff [simp]: "map_err f r = Inr a \<longleftrightarrow> r = Inr a"
  by (cases r) auto

text \<open>A guard clause: \<open>if cond { return Err(e) }\<close>.\<close>

definition refuse_if :: "bool \<Rightarrow> 'e \<Rightarrow> ('e, unit) result" where
  "refuse_if c e = (if c then Inl e else Inr ())"

lemma refuse_if_eq_Inr [simp]: "refuse_if c e = Inr u \<longleftrightarrow> \<not> c"
  by (simp add: refuse_if_def)

lemma refuse_if_eq_Inl [simp]: "refuse_if c e = Inl e' \<longleftrightarrow> c \<and> e = e'"
  by (simp add: refuse_if_def)

text \<open>A \<open>for\<close> loop whose body may return early with an error.\<close>

fun each :: "('a \<Rightarrow> ('e, unit) result) \<Rightarrow> 'a list \<Rightarrow> ('e, unit) result" where
  "each f [] = Inr ()"
| "each f (x # xs) = rbind (f x) (\<lambda>_. each f xs)"

lemma each_eq_Inr: "each f xs = Inr u \<longleftrightarrow> (\<forall>x \<in> set xs. f x = Inr ())"
  by (induction xs) (auto simp: rbind_unit_eq_Inr)

lemma each_eq_Inl: "each f xs = Inl e \<Longrightarrow> \<exists>x \<in> set xs. f x = Inl e"
  by (induction xs) (auto simp: rbind_eq_Inl)

text \<open>\<open>iter().map(f).collect::<Option<Vec<_>>>()\<close> and its \<open>Result\<close> sibling.\<close>

fun opt_traverse :: "('a \<Rightarrow> 'b option) \<Rightarrow> 'a list \<Rightarrow> 'b list option" where
  "opt_traverse f [] = Some []"
| "opt_traverse f (x # xs) =
     (case f x of None \<Rightarrow> None | Some y \<Rightarrow> map_option ((#) y) (opt_traverse f xs))"

lemma opt_traverse_cong [fundef_cong]:
  "xs = ys \<Longrightarrow> (\<And>x. x \<in> set ys \<Longrightarrow> f x = g x) \<Longrightarrow> opt_traverse f xs = opt_traverse g ys"
  by (induction ys arbitrary: xs) (auto split: option.splits)

fun traverse :: "('a \<Rightarrow> ('e, 'b) result) \<Rightarrow> 'a list \<Rightarrow> ('e, 'b list) result" where
  "traverse f [] = Inr []"
| "traverse f (x # xs) = rbind (f x) (\<lambda>y. rbind (traverse f xs) (\<lambda>ys. Inr (y # ys)))"

lemma traverse_cong [fundef_cong]:
  "xs = ys \<Longrightarrow> (\<And>x. x \<in> set ys \<Longrightarrow> f x = g x) \<Longrightarrow> traverse f xs = traverse g ys"
  by (induction ys arbitrary: xs) (auto simp: rbind_def split: sum.splits)

lemma traverse_total: "(\<And>x. x \<in> set xs \<Longrightarrow> \<exists>y. f x = Inr y) \<Longrightarrow> \<exists>ys. traverse f xs = Inr ys"
  by (induction xs) fastforce+

section \<open>Actions\<close>

text \<open>
  A fallible operation on shared state: the state is returned on error too, because an
  early return leaves whatever the operations before it did.
\<close>

type_synonym ('s, 'e, 'a) action = "'s \<Rightarrow> ('e, 'a) result \<times> 's"

definition aret :: "'a \<Rightarrow> ('s, 'e, 'a) action" where
  "aret a s = (Inr a, s)"

definition afail :: "'e \<Rightarrow> ('s, 'e, 'a) action" where
  "afail e s = (Inl e, s)"

definition alift :: "('e, 'a) result \<Rightarrow> ('s, 'e, 'a) action" where
  "alift r s = (r, s)"

definition abind :: "('s, 'e, 'a) action \<Rightarrow> ('a \<Rightarrow> ('s, 'e, 'b) action) \<Rightarrow> ('s, 'e, 'b) action" where
  "abind m k s = (case m s of (Inl e, s') \<Rightarrow> (Inl e, s') | (Inr a, s') \<Rightarrow> k a s')"

text \<open>\<open>map_err\<close>\<close>

definition amap_err :: "('e \<Rightarrow> 'f) \<Rightarrow> ('s, 'e, 'a) action \<Rightarrow> ('s, 'f, 'a) action" where
  "amap_err f m s = (case m s of (Inl e, s') \<Rightarrow> (Inl (f e), s') | (Inr a, s') \<Rightarrow> (Inr a, s'))"

fun aeach :: "('a \<Rightarrow> ('s, 'e, unit) action) \<Rightarrow> 'a list \<Rightarrow> ('s, 'e, unit) action" where
  "aeach f [] = aret ()"
| "aeach f (x # xs) = abind (f x) (\<lambda>_. aeach f xs)"

lemma aret_run [simp, result_simps]: "aret a s = (Inr a, s)"
  by (simp add: aret_def)

lemma afail_run [simp, result_simps]: "afail e s = (Inl e, s)"
  by (simp add: afail_def)

lemma alift_run [simp, result_simps]: "alift r s = (r, s)"
  by (simp add: alift_def)

lemma abind_Inr: "abind m k s = (Inr b, s'') \<longleftrightarrow> (\<exists>a s'. m s = (Inr a, s') \<and> k a s' = (Inr b, s''))"
  by (auto simp: abind_def split: prod.splits sum.splits)

lemma abind_Inl: "abind m k s = (Inl e, s'') \<longleftrightarrow>
    m s = (Inl e, s'') \<or> (\<exists>a s'. m s = (Inr a, s') \<and> k a s' = (Inl e, s''))"
  by (auto simp: abind_def split: prod.splits sum.splits)

lemma amap_err_Inr [simp]: "amap_err f m s = (Inr a, s') \<longleftrightarrow> m s = (Inr a, s')"
  by (auto simp: amap_err_def split: prod.splits sum.splits)

text \<open>
  \<open>always I m\<close>: from a state satisfying \<open>I\<close>, the action ends in one, whatever it
  returns.
\<close>

definition always :: "('s \<Rightarrow> bool) \<Rightarrow> ('s, 'e, 'a) action \<Rightarrow> bool" where
  "always I m \<longleftrightarrow> (\<forall>s. I s \<longrightarrow> I (snd (m s)))"

named_theorems always_intros \<open>actions that keep an invariant\<close>

lemma alwaysD: "always I m \<Longrightarrow> I s \<Longrightarrow> m s = (r, s') \<Longrightarrow> I s'"
  by (auto simp: always_def)

lemma always_aret [always_intros]: "always I (aret a)"
  by (simp add: always_def)

lemma always_afail [always_intros]: "always I (afail e)"
  by (simp add: always_def)

lemma always_alift [always_intros]: "always I (alift r)"
  by (simp add: always_def)

lemma always_abind [always_intros]: "always I m \<Longrightarrow> (\<And>a. always I (k a)) \<Longrightarrow> always I (abind m k)"
  by (auto simp: always_def abind_def split: prod.splits sum.splits)

lemma always_amap_err [always_intros]: "always I m \<Longrightarrow> always I (amap_err f m)"
  by (auto simp: always_def amap_err_def split: prod.splits sum.splits)

lemma always_aeach [always_intros]: "(\<And>x. x \<in> set xs \<Longrightarrow> always I (f x)) \<Longrightarrow> always I (aeach f xs)"
  by (induction xs) (auto intro: always_intros)

text \<open>\<open>on_ok P m Q\<close>: a successful run of the action from \<open>P\<close> ends in \<open>Q\<close> of its value.\<close>

definition on_ok :: "('s \<Rightarrow> bool) \<Rightarrow> ('s, 'e, 'a) action \<Rightarrow> ('a \<Rightarrow> 's \<Rightarrow> bool) \<Rightarrow> bool" where
  "on_ok P m Q \<longleftrightarrow> (\<forall>s a s'. P s \<longrightarrow> m s = (Inr a, s') \<longrightarrow> Q a s')"

named_theorems ok_intros \<open>rules for successful runs\<close>

lemma on_okD: "on_ok P m Q \<Longrightarrow> P s \<Longrightarrow> m s = (Inr a, s') \<Longrightarrow> Q a s'"
  by (auto simp: on_ok_def)

lemma on_ok_abind [ok_intros]: "on_ok P m Q \<Longrightarrow> (\<And>a. on_ok (Q a) (k a) R) \<Longrightarrow> on_ok P (abind m k) R"
  unfolding on_ok_def abind_Inr by blast

lemma on_ok_amap_err [ok_intros]: "on_ok P m Q \<Longrightarrow> on_ok P (amap_err f m) Q"
  by (auto simp: on_ok_def amap_err_def split: prod.splits sum.splits)

lemma on_ok_alift: "(\<And>a s. P s \<Longrightarrow> r = Inr a \<Longrightarrow> Q a s) \<Longrightarrow> on_ok P (alift r) Q"
  by (simp add: on_ok_def)

lemma on_ok_aret: "(\<And>s. P s \<Longrightarrow> Q a s) \<Longrightarrow> on_ok P (aret a) Q"
  by (simp add: on_ok_def)

lemma on_ok_weaken: "on_ok P m Q \<Longrightarrow> (\<And>s. P' s \<Longrightarrow> P s) \<Longrightarrow> (\<And>a s. Q a s \<Longrightarrow> Q' a s) \<Longrightarrow> on_ok P' m Q'"
  unfolding on_ok_def by blast

lemma on_ok_aeach: "(\<And>x. x \<in> set xs \<Longrightarrow> on_ok P (f x) (\<lambda>_. P)) \<Longrightarrow> on_ok P (aeach f xs) (\<lambda>_. P)"
proof (induction xs)
  case (Cons x xs)
  then show ?case unfolding aeach.simps by (intro on_ok_abind [where Q = "\<lambda>_. P"]) auto
qed (simp add: on_ok_def)

lemma aeach_append: "aeach f (xs @ ys) = abind (aeach f xs) (\<lambda>_. aeach f ys)"
  by (induction xs) (auto simp: fun_eq_iff abind_def split: prod.splits sum.splits)

text \<open>
  \<open>hoare P m Q E\<close>: from \<open>P\<close>, the action ends in \<open>Q\<close> of its value, or fails in \<open>E\<close>. \<open>leaps R m\<close>:
  whatever it returns, the states before and after it are related by \<open>R\<close>.
\<close>

definition hoare :: "('s \<Rightarrow> bool) \<Rightarrow> ('s, 'e, 'a) action \<Rightarrow> ('a \<Rightarrow> 's \<Rightarrow> bool) \<Rightarrow> ('s \<Rightarrow> bool) \<Rightarrow> bool" where
  "hoare P m Q E \<longleftrightarrow> (\<forall>s. P s \<longrightarrow> (case m s of (Inl _, s') \<Rightarrow> E s' | (Inr a, s') \<Rightarrow> Q a s'))"

named_theorems hoare_intros \<open>rules for actions built from smaller ones\<close>

lemma hoareI:
  "(\<And>s r s'. P s \<Longrightarrow> m s = (r, s') \<Longrightarrow> case r of Inl _ \<Rightarrow> E s' | Inr a \<Rightarrow> Q a s') \<Longrightarrow> hoare P m Q E"
  unfolding hoare_def by (fastforce split: prod.splits sum.splits)

lemma hoareD: "hoare P m Q E \<Longrightarrow> P s \<Longrightarrow> m s = (r, s') \<Longrightarrow> case r of Inl _ \<Rightarrow> E s' | Inr a \<Rightarrow> Q a s'"
  unfolding hoare_def by (fastforce split: prod.splits sum.splits)

lemma hoare_abind [hoare_intros]:
  assumes "hoare P m Q E" and "\<And>a. hoare (Q a) (k a) R E"
  shows "hoare P (abind m k) R E"
proof (rule hoareI)
  fix s r s' assume s: "P s" "abind m k s = (r, s')"
  obtain r1 s1 where m: "m s = (r1, s1)" by (cases "m s")
  note 1 = hoareD [OF assms(1) s(1) m]
  show "case r of Inl _ \<Rightarrow> E s' | Inr a \<Rightarrow> R a s'"
  proof (cases r1)
    case (Inr a)
    with s(2) m have "k a s1 = (r, s')" by (simp add: abind_def)
    with hoareD [OF assms(2) _ this] 1 Inr show ?thesis by simp
  qed (use 1 s(2) m in \<open>auto simp: abind_def\<close>)
qed

lemma hoare_weaken:
  "hoare P m Q E \<Longrightarrow> (\<And>s. P' s \<Longrightarrow> P s) \<Longrightarrow> (\<And>a s. Q a s \<Longrightarrow> Q' a s) \<Longrightarrow> (\<And>s. E s \<Longrightarrow> E' s) \<Longrightarrow> hoare P' m Q' E'"
  unfolding hoare_def by (fastforce split: prod.splits sum.splits)

lemma hoare_aret: "(\<And>s. P s \<Longrightarrow> Q a s) \<Longrightarrow> hoare P (aret a) Q E"
  by (simp add: hoare_def)

lemma hoare_afail: "(\<And>s. P s \<Longrightarrow> E s) \<Longrightarrow> hoare P (afail e) Q E"
  by (simp add: hoare_def)

lemma hoare_alift: "(\<And>a s. P s \<Longrightarrow> r = Inr a \<Longrightarrow> Q a s) \<Longrightarrow> (\<And>s. P s \<Longrightarrow> E s) \<Longrightarrow> hoare P (alift r) Q E"
  by (auto simp: hoare_def split: sum.splits)

lemma hoare_aeach:
  "(\<And>x. x \<in> set xs \<Longrightarrow> hoare P (f x) (\<lambda>_. P) E) \<Longrightarrow> hoare P (aeach f xs) (\<lambda>_. P) E"
proof (induction xs)
  case (Cons x xs)
  then show ?case unfolding aeach.simps by (intro hoare_abind [where Q = "\<lambda>_. P"]) auto
qed (simp add: hoare_def)

text \<open>A loop whose assertion depends on how far it has come.\<close>

lemma hoare_aeach_nth:
  assumes "\<And>i. i < length xs \<Longrightarrow> hoare (P i) (f (xs ! i)) (\<lambda>_. P (Suc i)) E"
  shows "hoare (P 0) (aeach f xs) (\<lambda>_. P (length xs)) E"
  using assms
proof (induction xs arbitrary: P)
  case (Cons x xs)
  have "hoare (P 0) (f x) (\<lambda>_. P (Suc 0)) E" using Cons.prems [of 0] by simp
  moreover have "hoare (P (Suc 0)) (aeach f xs) (\<lambda>_. P (Suc (length xs))) E"
    by (rule Cons.IH [of "\<lambda>i. P (Suc i)"]) (use Cons.prems [of "Suc _"] in simp)
  ultimately show ?case by (simp add: hoare_abind)
qed (simp add: hoare_def)

lemma hoare_conj:
  "hoare P m Q E \<Longrightarrow> hoare P' m Q' E' \<Longrightarrow> hoare (\<lambda>s. P s \<and> P' s) m (\<lambda>a s. Q a s \<and> Q' a s) (\<lambda>s. E s \<and> E' s)"
  unfolding hoare_def by (fastforce split: prod.splits sum.splits)

definition leaps :: "('s \<Rightarrow> 's \<Rightarrow> bool) \<Rightarrow> ('s, 'e, 'a) action \<Rightarrow> bool" where
  "leaps R m \<longleftrightarrow> (\<forall>s. R s (snd (m s)))"

named_theorems leaps_intros \<open>rules for actions built from smaller ones\<close>

lemma leapsD: "leaps R m \<Longrightarrow> m s = (r, s') \<Longrightarrow> R s s'"
  unfolding leaps_def by (metis snd_conv)

lemma leaps_abind:
  assumes "transp R" and "leaps R m" and "\<And>a. leaps R (k a)"
  shows "leaps R (abind m k)"
  unfolding leaps_def
proof
  fix s
  obtain r s1 where m: "m s = (r, s1)" by (cases "m s")
  have 1: "R s s1" by (rule leapsD [OF assms(2) m])
  have 2: "R s1 (snd (k a s1))" for a using assms(3) [of a] by (simp add: leaps_def)
  show "R s (snd (abind m k s))"
    using m 1 transpD [OF assms(1) 1 2] by (cases r) (simp_all add: abind_def)
qed

lemma leaps_pure: "reflp R \<Longrightarrow> leaps R (aret a) \<and> leaps R (afail e) \<and> leaps R (alift r)"
  by (simp add: leaps_def reflpD)

lemma leaps_aeach: "reflp R \<Longrightarrow> transp R \<Longrightarrow> (\<And>x. x \<in> set xs \<Longrightarrow> leaps R (f x)) \<Longrightarrow> leaps R (aeach f xs)"
  by (induction xs) (auto simp: leaps_pure intro: leaps_abind)

lemma leaps_hoare: "leaps R m \<Longrightarrow> (\<And>s s'. P s \<Longrightarrow> R s s' \<Longrightarrow> Q s') \<Longrightarrow> hoare P m (\<lambda>_. Q) Q"
  by (rule hoareI) (auto dest!: leapsD split: sum.splits)

section \<open>Strings\<close>

text \<open>
  A Rust \<open>String\<close> is its UTF-8 byte sequence, a \<open>char list\<close> here. \<open>str::len\<close> is
  \<open>length\<close>, the byte-wise \<open>Ord\<close> is the lexicographic order of \<open>List_Lexorder\<close>.
\<close>

abbreviation dquote :: char where
  "dquote \<equiv> CHR 0x22"

abbreviation squote :: char where
  "squote \<equiv> CHR 0x27"

text \<open>The em dash of the source's messages, in UTF-8.\<close>

definition em_dash :: string where
  "em_dash = [CHR 0xE2, CHR 0x80, CHR 0x94]"

fun join :: "string \<Rightarrow> string list \<Rightarrow> string" where
  "join sep [] = []"
| "join sep [x] = x"
| "join sep (x # y # ys) = x @ sep @ join sep (y # ys)"

lemma join_eq_Nil: "sep \<noteq> [] \<Longrightarrow> join sep xs = [] \<longleftrightarrow> xs = [] \<or> xs = [[]]"
  by (cases "(sep, xs)" rule: join.cases) auto

lemma join_map_eq_Nil: "(\<And>x. f x \<noteq> []) \<Longrightarrow> join sep (map f xs) = [] \<longleftrightarrow> xs = []"
  by (cases "(sep, map f xs)" rule: join.cases) auto

definition starts_with :: "string \<Rightarrow> string \<Rightarrow> bool" where
  "starts_with p s \<longleftrightarrow> take (length p) s = p"

fun contains :: "string \<Rightarrow> string \<Rightarrow> bool" where
  "contains p [] \<longleftrightarrow> p = []"
| "contains p (c # cs) \<longleftrightarrow> starts_with p (c # cs) \<or> contains p cs"

text \<open>\<open>s.replace(c, with)\<close> for a single ASCII character.\<close>

fun replace_char :: "char \<Rightarrow> string \<Rightarrow> string \<Rightarrow> string" where
  "replace_char c r [] = []"
| "replace_char c r (x # xs) = (if x = c then r @ replace_char c r xs else x # replace_char c r xs)"

lemma replace_char_append: "replace_char c r (xs @ ys) = replace_char c r xs @ replace_char c r ys"
  by (induction xs) auto

lemma replace_char_id: "c \<notin> set xs \<Longrightarrow> replace_char c r xs = xs"
  by (induction xs) auto

text \<open>\<open>str::strip_prefix\<close> and \<open>str::strip_suffix\<close>.\<close>

definition strip_prefix :: "string \<Rightarrow> string \<Rightarrow> string option" where
  "strip_prefix p s = (if take (length p) s = p then Some (drop (length p) s) else None)"

definition strip_suffix :: "string \<Rightarrow> string \<Rightarrow> string option" where
  "strip_suffix p s =
     (if length p \<le> length s \<and> drop (length s - length p) s = p then Some (take (length s - length p) s) else None)"

lemma strip_prefix_Some: "strip_prefix p s = Some r \<longleftrightarrow> s = p @ r"
  by (auto simp: strip_prefix_def) (metis append_take_drop_id)

lemma strip_suffix_Some: "strip_suffix p s = Some r \<longleftrightarrow> s = r @ p"
proof
  assume "strip_suffix p s = Some r"
  then show "s = r @ p"
    by (auto simp: strip_suffix_def split: if_splits) (metis append_take_drop_id)
qed (auto simp: strip_suffix_def)

text \<open>\<open>str::split_once\<close>: around the first occurrence of a character.\<close>

fun split_once :: "char \<Rightarrow> string \<Rightarrow> (string \<times> string) option" where
  "split_once c [] = None"
| "split_once c (x # xs) = (if x = c then Some ([], xs) else map_option (apfst ((#) x)) (split_once c xs))"

lemma split_once_append: "c \<notin> set xs \<Longrightarrow> split_once c (xs @ c # ys) = Some (xs, ys)"
  by (induction xs) auto

lemma split_once_Some: "split_once c s = Some (xs, ys) \<Longrightarrow> s = xs @ c # ys \<and> c \<notin> set xs"
  by (induction s arbitrary: xs) (auto split: if_splits)

lemma split_once_None: "split_once c s = None \<longleftrightarrow> c \<notin> set s"
  by (induction s) auto

lemma split_once_shorter: "split_once c s = Some (xs, ys) \<Longrightarrow> length xs < length s \<and> length ys < length s"
  by (auto dest: split_once_Some)

text \<open>\<open>str::rsplit_once\<close>: around the last occurrence.\<close>

definition rsplit_once :: "char \<Rightarrow> string \<Rightarrow> (string \<times> string) option" where
  "rsplit_once c s = map_option (\<lambda>(a, b). (rev b, rev a)) (split_once c (rev s))"

lemma rsplit_once_append: "c \<notin> set ys \<Longrightarrow> rsplit_once c (xs @ c # ys) = Some (xs, ys)"
  by (simp add: rsplit_once_def split_once_append)

lemma rsplit_once_Some: "rsplit_once c s = Some (xs, ys) \<Longrightarrow> s = xs @ c # ys \<and> c \<notin> set ys"
proof -
  assume "rsplit_once c s = Some (xs, ys)"
  then obtain a b where "split_once c (rev s) = Some (a, b)" "xs = rev b" "ys = rev a"
    by (auto simp: rsplit_once_def)
  then have "rev s = rev ys @ c # rev xs" "c \<notin> set ys" using split_once_Some [of c "rev s" a b] by auto
  then show ?thesis by (metis append.assoc append_Cons append_Nil rev.simps(2) rev_append rev_rev_ident)
qed

text \<open>\<open>str::split\<close> at every occurrence of a character.\<close>

fun split_on :: "char \<Rightarrow> string \<Rightarrow> string list" where
  "split_on c [] = [[]]"
| "split_on c (x # xs) = (if x = c then [] # split_on c xs else
     (case split_on c xs of [] \<Rightarrow> [[x]] | p # ps \<Rightarrow> (x # p) # ps))"

lemma split_on_nonempty [simp]: "split_on c s \<noteq> []"
  by (induction s) (auto split: list.splits)

lemma split_on_fresh: "c \<notin> set s \<Longrightarrow> split_on c s = [s]"
  by (induction s) auto

lemma split_on_append: "c \<notin> set xs \<Longrightarrow> split_on c (xs @ c # ys) = xs # split_on c ys"
  by (induction xs) auto

lemma split_on_parts: "p \<in> set (split_on c s) \<Longrightarrow> c \<notin> set p"
  by (induction s arbitrary: p) (auto split: if_splits list.splits)

lemma split_on_join: "xs \<noteq> [] \<Longrightarrow> (\<And>x. x \<in> set xs \<Longrightarrow> c \<notin> set x) \<Longrightarrow> split_on c (join [c] xs) = xs"
proof (induction "[c]" xs rule: join.induct)
  case (3 x y ys)
  then show ?case by (simp add: split_on_append)
qed (auto simp: split_on_fresh)

text \<open>
  One UTF-8 encoded character with the Unicode property \<open>White_Space\<close> (there are 25),
  and \<open>str::trim\<close>, which removes them at both ends.
\<close>

definition ws_char :: "string \<Rightarrow> bool" where
  "ws_char s \<longleftrightarrow> (case map of_char s :: nat list of
       [b] \<Rightarrow> (9 \<le> b \<and> b \<le> 13) \<or> b = 32
     | [b, b2] \<Rightarrow> b = 0xC2 \<and> (b2 = 0x85 \<or> b2 = 0xA0)
     | [b, b2, b3] \<Rightarrow>
         (b = 0xE1 \<and> b2 = 0x9A \<and> b3 = 0x80)
         \<or> (b = 0xE2 \<and> b2 = 0x80 \<and> (0x80 \<le> b3 \<and> b3 \<le> 0x8A \<or> b3 = 0xA8 \<or> b3 = 0xA9 \<or> b3 = 0xAF))
         \<or> (b = 0xE2 \<and> b2 = 0x81 \<and> b3 = 0x9F)
         \<or> (b = 0xE3 \<and> b2 = 0x80 \<and> b3 = 0x80)
     | _ \<Rightarrow> False)"

definition ws_prefix :: "string \<Rightarrow> nat" where
  "ws_prefix s = (if length s \<ge> 1 \<and> ws_char (take 1 s) then 1
     else if length s \<ge> 2 \<and> ws_char (take 2 s) then 2
     else if length s \<ge> 3 \<and> ws_char (take 3 s) then 3 else 0)"

definition ws_suffix :: "string \<Rightarrow> nat" where
  "ws_suffix s = (if length s \<ge> 1 \<and> ws_char (drop (length s - 1) s) then 1
     else if length s \<ge> 2 \<and> ws_char (drop (length s - 2) s) then 2
     else if length s \<ge> 3 \<and> ws_char (drop (length s - 3) s) then 3 else 0)"

lemma ws_prefix_le: "ws_prefix s \<le> length s"
  by (auto simp: ws_prefix_def)

lemma ws_suffix_le: "ws_suffix s \<le> length s"
  by (auto simp: ws_suffix_def)

function trim_start :: "string \<Rightarrow> string" where
  "trim_start s = (if ws_prefix s = 0 then s else trim_start (drop (ws_prefix s) s))"
  by pat_completeness auto
termination
proof (relation "measure length")
  fix s assume "ws_prefix s \<noteq> 0"
  then show "(drop (ws_prefix s) s, s) \<in> measure length"
    using ws_prefix_le [of s] by simp
qed simp

function trim_end :: "string \<Rightarrow> string" where
  "trim_end s = (if ws_suffix s = 0 then s else trim_end (take (length s - ws_suffix s) s))"
  by pat_completeness auto
termination
proof (relation "measure length")
  fix s assume "ws_suffix s \<noteq> 0"
  then show "(take (length s - ws_suffix s) s, s) \<in> measure length"
    using ws_suffix_le [of s] by simp
qed simp

declare trim_start.simps [simp del] trim_end.simps [simp del]

definition trim :: "string \<Rightarrow> string" where
  "trim s = trim_end (trim_start s)"

lemma trim_start_length: "length (trim_start s) \<le> length s"
  by (induction s rule: trim_start.induct) (subst trim_start.simps, force)

lemma trim_end_length: "length (trim_end s) \<le> length s"
  by (induction s rule: trim_end.induct) (subst trim_end.simps, force)

lemma trim_length: "length (trim s) \<le> length s"
  using trim_start_length trim_end_length by (fastforce simp: trim_def intro: order_trans)

text \<open>A byte that cannot be part of a whitespace character.\<close>

definition solid :: "char \<Rightarrow> bool" where
  "solid c \<longleftrightarrow> (33 :: nat) \<le> of_char c \<and> of_char c < (128 :: nat)"

lemma ws_char_solid: "ws_char s \<Longrightarrow> c \<in> set s \<Longrightarrow> \<not> solid c"
  by (auto simp: ws_char_def solid_def split: list.splits)

lemma take_not_ws: "solid c \<Longrightarrow> k > 0 \<Longrightarrow> \<not> ws_char (take k (c # s))"
  using ws_char_solid [of "take k (c # s)" c] by (cases k) auto

lemma trim_start_solid [simp]: "solid c \<Longrightarrow> trim_start (c # s) = c # s"
  using take_not_ws [of c 1 s] take_not_ws [of c 2 s] take_not_ws [of c 3 s]
  by (subst trim_start.simps) (auto simp: ws_prefix_def simp del: take_Suc_Cons)

lemma ws_suffix_solid:
  assumes "solid c" and "c \<in> set (drop (length s - k) s)"
  shows "\<not> ws_char (drop (length s - k) s)"
  using assms ws_char_solid by blast

lemma trim_end_solid [simp]:
  assumes "solid c"
  shows "trim_end (s @ [c]) = s @ [c]"
proof -
  let ?s = "s @ [c]"
  have "\<not> ws_char (drop (length ?s - k) ?s)" if "k > 0" for k
    by (rule ws_suffix_solid [OF assms]) (use that in simp)
  from this [of 1] this [of 2] this [of 3] have "ws_suffix ?s = 0"
    by (auto simp: ws_suffix_def)
  then show ?thesis by (subst trim_end.simps) simp
qed

lemma trim_end_keeps: "solid c \<Longrightarrow> c \<in> set s \<Longrightarrow> c \<in> set (trim_end s)"
proof (induction s rule: trim_end.induct)
  case (1 s)
  show ?case
  proof (cases "ws_suffix s = 0")
    case True
    with "1.prems" show ?thesis by (subst trim_end.simps) simp
  next
    case False
    let ?n = "length s - ws_suffix s"
    have "ws_char (drop ?n s)" using False by (auto simp: ws_suffix_def split: if_splits)
    then have "c \<notin> set (drop ?n s)" using ws_char_solid "1.prems"(1) by blast
    moreover have "c \<in> set (take ?n s @ drop ?n s)" using "1.prems"(2) by simp
    ultimately have "c \<in> set (take ?n s)" unfolding set_append by blast
    with False "1.IH" [OF False "1.prems"(1)] show ?thesis by (subst trim_end.simps) simp
  qed
qed

text \<open>\<open>s.trim().is_empty()\<close>\<close>

definition is_blank :: "string \<Rightarrow> bool" where
  "is_blank s \<longleftrightarrow> trim s = []"

lemma is_blank_solid [simp]: "solid c \<Longrightarrow> \<not> is_blank (c # s)"
  using trim_end_keeps [of c "c # s"] by (auto simp: is_blank_def trim_def)

text \<open>Decimal rendering of an unsigned integer, as \<open>{n}\<close> prints it.\<close>

fun show_nat :: "nat \<Rightarrow> string" where
  "show_nat n = (if n < 10 then [char_of (48 + n)] else show_nat (n div 10) @ [char_of (48 + n mod 10)])"

declare show_nat.simps [simp del]

text \<open>
  \<open>str::parse\<close> of an unsigned integer type: an optional plus sign and one or more digits,
  at most \<open>bound\<close>.
\<close>

definition digit_value :: "char \<Rightarrow> nat option" where
  "digit_value c = (let b = of_char c :: nat in if 48 \<le> b \<and> b \<le> 57 then Some (b - 48) else None)"

fun parse_digits :: "nat \<Rightarrow> nat \<Rightarrow> string \<Rightarrow> nat option" where
  "parse_digits bound acc [] = Some acc"
| "parse_digits bound acc (c # cs) =
     (case digit_value c of
        None \<Rightarrow> None
      | Some d \<Rightarrow> if acc * 10 + d > bound then None else parse_digits bound (acc * 10 + d) cs)"

definition parse_unsigned :: "nat \<Rightarrow> string \<Rightarrow> nat option" where
  "parse_unsigned bound s =
     (let ds = (case s of c # cs \<Rightarrow> if c = CHR ''+'' then cs else s | [] \<Rightarrow> s) in
      if ds = [] then None else parse_digits bound 0 ds)"

definition digit :: "char \<Rightarrow> bool" where
  "digit c \<longleftrightarrow> (48 :: nat) \<le> of_char c \<and> of_char c \<le> (57 :: nat)"

lemma digit_char: "d < 10 \<Longrightarrow> digit (char_of (48 + d :: nat)) \<and> digit_value (char_of (48 + d :: nat)) = Some d"
  by (simp add: digit_def digit_value_def Let_def of_char_of)

lemma show_nat_digits: "\<forall>c \<in> set (show_nat n). digit c"
proof (induction n rule: show_nat.induct)
  case (1 n)
  then show ?case
    using digit_char [of n] digit_char [of "n mod 10"] by (subst show_nat.simps) (auto simp del: of_char_of)
qed

lemma show_nat_nonempty [simp]: "show_nat n \<noteq> []"
  by (subst show_nat.simps) simp

lemma digit_solid: "digit c \<Longrightarrow> solid c"
  by (simp add: digit_def solid_def)

lemma parse_digits_append: "parse_digits b acc (xs @ ys) =
    Option.bind (parse_digits b acc xs) (\<lambda>a. parse_digits b a ys)"
  by (induction xs arbitrary: acc) (auto split: option.splits)

lemma parse_show_nat: "n \<le> b \<Longrightarrow> parse_digits b 0 (show_nat n) = Some n"
proof (induction n rule: show_nat.induct)
  case (1 n)
  show ?case
  proof (cases "n < 10")
    case True
    with "1.prems" digit_char [of n] show ?thesis by (subst show_nat.simps) simp
  next
    case False
    with "1.IH" "1.prems" have "parse_digits b 0 (show_nat (n div 10)) = Some (n div 10)" by simp
    with False "1.prems" digit_char [of "n mod 10"] show ?thesis
      by (subst show_nat.simps) (simp add: parse_digits_append)
  qed
qed

lemma parse_unsigned_show: "n \<le> b \<Longrightarrow> parse_unsigned b (show_nat n) = Some n"
proof -
  assume "n \<le> b"
  have "digit (hd (show_nat n))" using show_nat_digits [of n] hd_in_set [OF show_nat_nonempty] by blast
  then have "hd (show_nat n) \<noteq> CHR ''+''" by (auto simp: digit_def)
  then show ?thesis
    using parse_show_nat [OF \<open>n \<le> b\<close>] show_nat_nonempty [of n]
    by (cases "show_nat n") (auto simp: parse_unsigned_def Let_def)
qed

section \<open>Hexadecimal digits\<close>

text \<open>A digit as \<open>{:X}\<close> and as \<open>{:x}\<close> print it, and \<open>char::to_digit(16)\<close>.\<close>

definition hex_digit :: "nat \<Rightarrow> char" where
  "hex_digit n = char_of (if n < 10 then 48 + n else 55 + n)"

definition hex_digit_lower :: "nat \<Rightarrow> char" where
  "hex_digit_lower n = char_of (if n < 10 then 48 + n else 87 + n)"

definition hex_value :: "char \<Rightarrow> nat option" where
  "hex_value c =
     (let b = of_char c :: nat in
      if 48 \<le> b \<and> b \<le> 57 then Some (b - 48)
      else if 65 \<le> b \<and> b \<le> 70 then Some (b - 55)
      else if 97 \<le> b \<and> b \<le> 102 then Some (b - 87)
      else None)"

lemma hex_value_digit: "n < 16 \<Longrightarrow> hex_value (hex_digit n) = Some n"
  by (auto simp: hex_value_def hex_digit_def Let_def)

lemma hex_value_lower: "n < 16 \<Longrightarrow> hex_value (hex_digit_lower n) = Some n"
  by (auto simp: hex_value_def hex_digit_lower_def Let_def)

lemma hex_value_less: "hex_value c = Some n \<Longrightarrow> n < 16"
  by (auto simp: hex_value_def Let_def split: if_splits)

text \<open>\<open>format!("%{byte:02X}")\<close>\<close>

definition percent :: "char \<Rightarrow> string" where
  "percent c = [CHR ''%'', hex_digit (of_char c div 16), hex_digit (of_char c mod 16)]"

text \<open>Percent-decoding, as a server or a reader of a partition directory does it.\<close>

fun percent_decode :: "string \<Rightarrow> string" where
  "percent_decode [] = []"
| "percent_decode (c # cs) =
     (if c = CHR ''%'' then
        (case cs of
           h # l # rest \<Rightarrow>
             (case (hex_value h, hex_value l) of
                (Some a, Some b) \<Rightarrow> char_of (16 * a + b) # percent_decode rest
              | _ \<Rightarrow> c # percent_decode cs)
         | _ \<Rightarrow> c # percent_decode cs)
      else c # percent_decode cs)"

lemma byte_halves: "(of_char c :: nat) div 16 < 16 \<and> (of_char c :: nat) mod 16 < 16"
proof -
  have "(of_char c :: nat) < 256" by (rule nat_of_char_less_256)
  then show ?thesis by (simp add: less_mult_imp_div_less)
qed

lemma percent_decode_percent: "percent_decode (percent c @ s) = c # percent_decode s"
proof -
  have "16 * (of_char c div 16) + of_char c mod 16 = (of_char c :: nat)" by simp
  with byte_halves [of c] show ?thesis
    by (simp add: percent_def hex_value_digit del: mult_div_mod_eq)
qed

section \<open>ASCII case\<close>

definition to_ascii_lowercase :: "string \<Rightarrow> string" where
  "to_ascii_lowercase s = map (\<lambda>c. if 65 \<le> (of_char c :: nat) \<and> of_char c \<le> (90 :: nat) then char_of (of_char c + 32 :: nat) else c) s"

definition eq_ignore_ascii_case :: "string \<Rightarrow> string \<Rightarrow> bool" where
  "eq_ignore_ascii_case s t \<longleftrightarrow> to_ascii_lowercase s = to_ascii_lowercase t"

section \<open>Ordered maps\<close>

text \<open>
  A \<open>BTreeMap<K, V>\<close> is the list of its entries in key order: iteration is the list,
  \<open>get\<close> is \<open>map_of\<close>, and \<open>btree\<close> states the order.
\<close>

definition btree :: "('k :: linorder \<times> 'v) list \<Rightarrow> bool" where
  "btree m \<longleftrightarrow> sorted_wrt (<) (map fst m)"

lemma btree_Cons [simp]: "btree ((k, v) # m) \<longleftrightarrow> (\<forall>k' \<in> fst ` set m. k < k') \<and> btree m"
  by (auto simp: btree_def)

lemma btree_Nil [simp]: "btree []"
  by (simp add: btree_def)

lemma btree_distinct: "btree m \<Longrightarrow> distinct (map fst m)"
  by (auto simp: btree_def strict_sorted_iff)

lemma btree_lookup: "btree m \<Longrightarrow> (k, v) \<in> set m \<longleftrightarrow> map_of m k = Some v"
  by (simp add: btree_distinct)

fun btree_insert :: "'k :: linorder \<Rightarrow> 'v \<Rightarrow> ('k \<times> 'v) list \<Rightarrow> ('k \<times> 'v) list" where
  "btree_insert k v [] = [(k, v)]"
| "btree_insert k v ((k', v') # m) =
     (if k < k' then (k, v) # (k', v') # m
      else if k = k' then (k, v) # m
      else (k', v') # btree_insert k v m)"

lemma btree_insert_keys: "fst ` set (btree_insert k v m) = insert k (fst ` set m)"
  by (induction k v m rule: btree_insert.induct) auto

lemma btree_insert_btree: "btree m \<Longrightarrow> btree (btree_insert k v m)"
  by (induction k v m rule: btree_insert.induct) (auto simp: btree_insert_keys)

lemma btree_insert_lookup: "btree m \<Longrightarrow> map_of (btree_insert k v m) = (map_of m)(k \<mapsto> v)"
proof (induction k v m rule: btree_insert.induct)
  case (2 k v k' v' m)
  then show ?case by (auto simp: fun_eq_iff)
qed auto

end
