(* ===== verification/Sql_Options.thy ===== *)
theory Sql_Options
  imports Prelude
begin

text \<open>
  \<^verbatim>\<open>crates/rdlt-connector-sqlcore/src/options.rs\<close>: the destination options
  vocabulary, the per-table lookups the planners consult, and the parse-layer validation
  with its frozen messages. The RFC 3339 parser is the \<open>chrono\<close> crate's and is the
  parameter \<open>rfc3339\<close> of the validation.
\<close>

section \<open>Vocabulary\<close>

datatype merge_strategy = DeleteInsert | Upsert | Scd2

datatype absent_policy = Keep | Retire

datatype sort_order = Asc | Desc

record scd2_options =
  valid_from :: string
  valid_to :: string
  absent :: absent_policy
  active_record_timestamp :: "string option"
  boundary_timestamp :: "string option"

record dedup_sort =
  ds_column :: string
  ds_order :: sort_order

record table_options =
  t_merge_strategy :: "merge_strategy option"
  t_hard_delete :: "string option"
  t_scd2 :: "scd2_options option"
  t_dedup_sort :: "dedup_sort option"
  t_merge_scope :: "string list option"

record destination_options =
  merge_strategy :: "merge_strategy option"
  tables :: "(string \<times> table_options) list"

definition default_valid_from :: string where
  "default_valid_from = ''_rdlt_valid_from''"

definition default_valid_to :: string where
  "default_valid_to = ''_rdlt_valid_to''"

definition scd2_default :: scd2_options where
  "scd2_default = \<lparr>valid_from = default_valid_from, valid_to = default_valid_to,
     absent = Keep, active_record_timestamp = None, boundary_timestamp = None\<rparr>"

definition table_default :: table_options where
  "table_default = \<lparr>t_merge_strategy = None, t_hard_delete = None, t_scd2 = None,
     t_dedup_sort = None, t_merge_scope = None\<rparr>"

definition options_default :: destination_options where
  "options_default = \<lparr>merge_strategy = None, tables = []\<rparr>"

text \<open>\<open>Option::or\<close>, \<open>Option::unwrap_or\<close> and \<open>Option::and_then\<close>.\<close>

fun opt_or :: "'a option \<Rightarrow> 'a option \<Rightarrow> 'a option" where
  "opt_or (Some x) _ = Some x"
| "opt_or None y = y"

fun unwrap_or :: "'a option \<Rightarrow> 'a \<Rightarrow> 'a" where
  "unwrap_or (Some x) _ = x"
| "unwrap_or None d = d"

section \<open>Lookups\<close>

definition explicit_strategy_for :: "destination_options \<Rightarrow> string \<Rightarrow> merge_strategy option" where
  "explicit_strategy_for o' table =
     opt_or (Option.bind (map_of (tables o') table) t_merge_strategy) (merge_strategy o')"

definition strategy_for :: "destination_options \<Rightarrow> string \<Rightarrow> merge_strategy" where
  "strategy_for o' table = unwrap_or (explicit_strategy_for o' table) DeleteInsert"

definition hard_delete_for :: "destination_options \<Rightarrow> string \<Rightarrow> string option" where
  "hard_delete_for o' table = Option.bind (map_of (tables o') table) t_hard_delete"

definition scd2_for :: "destination_options \<Rightarrow> string \<Rightarrow> scd2_options" where
  "scd2_for o' table = unwrap_or (Option.bind (map_of (tables o') table) t_scd2) scd2_default"

definition dedup_sort_for :: "destination_options \<Rightarrow> string \<Rightarrow> dedup_sort option" where
  "dedup_sort_for o' table = Option.bind (map_of (tables o') table) t_dedup_sort"

definition merge_scope_for :: "destination_options \<Rightarrow> string \<Rightarrow> string list option" where
  "merge_scope_for o' table = Option.bind (map_of (tables o') table) t_merge_scope"

section \<open>Validation\<close>

definition table_field :: "string \<Rightarrow> string \<Rightarrow> string" where
  "table_field table rest = ''tables.'' @ table @ ''.'' @ rest"

fun debug_strategy :: "merge_strategy \<Rightarrow> string" where
  "debug_strategy DeleteInsert = ''DeleteInsert''"
| "debug_strategy Upsert = ''Upsert''"
| "debug_strategy Scd2 = ''Scd2''"

definition check_hard_delete ::
    "string \<Rightarrow> table_options \<Rightarrow> merge_strategy \<Rightarrow> (string, unit) result" where
  "check_hard_delete table opts strategy =
     (case t_hard_delete opts of
        None \<Rightarrow> Inr ()
      | Some col \<Rightarrow>
          if is_blank col then Inl (table_field table ''hard_delete: empty column name'')
          else if strategy = Scd2
          then Inl (table_field table
            (''hard_delete: not valid with merge_strategy scd2 '' @
             ''(deletion-as-retirement is future work)''))
          else Inr ())"

definition check_dedup_sort :: "string \<Rightarrow> table_options \<Rightarrow> (string, unit) result" where
  "check_dedup_sort table opts =
     (case t_dedup_sort opts of
        None \<Rightarrow> Inr ()
      | Some dedup \<Rightarrow> refuse_if (is_blank (ds_column dedup))
          (table_field table ''dedup_sort: empty column name''))"

text \<open>
  \<open>scope.iter().find(|c| !seen.insert(c))\<close>: the first column already in the growing
  set \<open>seen\<close>.
\<close>

fun find_dup :: "string set \<Rightarrow> string list \<Rightarrow> string option" where
  "find_dup seen [] = None"
| "find_dup seen (c # cs) = (if c \<in> seen then Some c else find_dup (insert c seen) cs)"

definition check_merge_scope ::
    "string \<Rightarrow> table_options \<Rightarrow> merge_strategy \<Rightarrow> (string, unit) result" where
  "check_merge_scope table opts strategy =
     (case t_merge_scope opts of
        None \<Rightarrow> Inr ()
      | Some scope \<Rightarrow>
          if scope = [] then Inl (table_field table ''merge_scope: empty column list'')
          else if \<exists>c \<in> set scope. is_blank c
          then Inl (table_field table ''merge_scope: empty column name'')
          else (case find_dup {} scope of
              Some dup \<Rightarrow> Inl (table_field table
                (''merge_scope: column `'' @ dup @ ''` listed twice''))
            | None \<Rightarrow>
                if strategy = Scd2 \<and>
                   unwrap_or (map_option absent (t_scd2 opts)) Keep \<noteq> Retire
                then Inl (table_field table
                  (''merge_scope: with merge_strategy scd2 this '' @
                   ''scopes RETIREMENT and requires scd2 {absent: retire} '' @
                   em_dash @ '' under `keep` it would be silently inert''))
                else Inr ()))"

definition check_timestamp ::
    "(string \<Rightarrow> bool) \<Rightarrow> string \<Rightarrow> string \<times> string option \<Rightarrow> (string, unit) result" where
  "check_timestamp rfc3339 table fv =
     (case fv of (field, value) \<Rightarrow>
       case value of
         None \<Rightarrow> Inr ()
       | Some v \<Rightarrow> refuse_if (\<not> rfc3339 v) (table_field table
           (''scd2.'' @ field @ '': `'' @ v @ ''` is not a '' @
            ''zone-explicit timestamp (RFC3339 with offset, '' @
            ''e.g. `9999-12-31T00:00:00Z` '' @ em_dash @ '' zone-less '' @
            ''literals resolve per session TimeZone)'')))"

definition check_scd2 ::
    "(string \<Rightarrow> bool) \<Rightarrow> string \<Rightarrow> table_options \<Rightarrow> merge_strategy \<Rightarrow> (string, unit) result" where
  "check_scd2 rfc3339 table opts strategy =
     (case t_scd2 opts of
        None \<Rightarrow> Inr ()
      | Some scd2 \<Rightarrow>
          if strategy \<noteq> Scd2 then Inl (table_field table
            (''scd2: options present but merge_strategy is '' @ debug_strategy strategy @
             '' '' @ em_dash @ '' set merge_strategy: scd2''))
          else if is_blank (valid_from scd2) \<or> is_blank (valid_to scd2)
          then Inl (table_field table ''scd2: validity column names must not be empty'')
          else if valid_from scd2 = valid_to scd2
          then Inl (table_field table ''scd2: valid_from and valid_to must differ'')
          else rbind
            (each (check_timestamp rfc3339 table)
              [(''active_record_timestamp'', active_record_timestamp scd2),
               (''boundary_timestamp'', boundary_timestamp scd2)])
            (\<lambda>_. case (active_record_timestamp scd2, boundary_timestamp scd2) of
               (Some marker, Some boundary) \<Rightarrow>
                 refuse_if (marker = boundary) (table_field table
                   (''scd2: boundary_timestamp equals '' @
                    ''active_record_timestamp '' @ em_dash @ '' closed versions would '' @
                    ''read as ACTIVE; pick a marker outside the data's '' @
                    ''time range (e.g. 9999-12-31T00:00:00Z)''))
             | _ \<Rightarrow> Inr ()))"

definition check_table ::
    "(string \<Rightarrow> bool) \<Rightarrow> destination_options \<Rightarrow> string \<times> table_options \<Rightarrow> (string, unit) result" where
  "check_table rfc3339 o' entry =
     (case entry of (table, opts) \<Rightarrow>
       let strategy = unwrap_or (opt_or (t_merge_strategy opts) (merge_strategy o')) DeleteInsert in
       rbind (check_hard_delete table opts strategy) (\<lambda>_.
       rbind (check_dedup_sort table opts) (\<lambda>_.
       rbind (check_merge_scope table opts strategy) (\<lambda>_.
       check_scd2 rfc3339 table opts strategy))))"

definition validate :: "(string \<Rightarrow> bool) \<Rightarrow> destination_options \<Rightarrow> (string, unit) result" where
  "validate rfc3339 o' = each (check_table rfc3339 o') (tables o')"

text \<open>\<open>from_value\<close>: the serde parse is a parameter, validation follows it.\<close>

definition from_value ::
    "('v \<Rightarrow> (string, destination_options) result) \<Rightarrow> (string \<Rightarrow> bool) \<Rightarrow> 'v \<Rightarrow> (string, destination_options) result" where
  "from_value parse rfc3339 v =
     rbind (parse v) (\<lambda>o'. rbind (validate rfc3339 o') (\<lambda>_. Inr o'))"

section \<open>What validation promises\<close>

lemma unwrap_or_eq_iff: "unwrap_or x d = v \<longleftrightarrow> (case x of None \<Rightarrow> d = v | Some y \<Rightarrow> y = v)"
  by (cases x) auto

lemma find_dup_None: "find_dup seen cs = None \<longleftrightarrow> distinct cs \<and> set cs \<inter> seen = {}"
  by (induction seen cs rule: find_dup.induct) auto

lemma find_dup_Some: "find_dup seen cs = Some d \<Longrightarrow> d \<in> set cs"
  by (induction seen cs rule: find_dup.induct) (auto split: if_splits)

text \<open>The rules of one table, stated on the table's resolved strategy.\<close>

definition hard_delete_wf :: "table_options \<Rightarrow> merge_strategy \<Rightarrow> bool" where
  "hard_delete_wf opts strategy \<longleftrightarrow>
     (\<forall>col. t_hard_delete opts = Some col \<longrightarrow> \<not> is_blank col \<and> strategy \<noteq> Scd2)"

definition merge_scope_wf :: "table_options \<Rightarrow> merge_strategy \<Rightarrow> bool" where
  "merge_scope_wf opts strategy \<longleftrightarrow>
     (\<forall>scope. t_merge_scope opts = Some scope \<longrightarrow>
        scope \<noteq> [] \<and> distinct scope \<and> (\<forall>c \<in> set scope. \<not> is_blank c) \<and>
        (strategy = Scd2 \<longrightarrow> (\<exists>s. t_scd2 opts = Some s \<and> absent s = Retire)))"

definition scd2_wf :: "(string \<Rightarrow> bool) \<Rightarrow> scd2_options \<Rightarrow> bool" where
  "scd2_wf rfc3339 s \<longleftrightarrow>
     \<not> is_blank (valid_from s) \<and> \<not> is_blank (valid_to s) \<and> valid_from s \<noteq> valid_to s \<and>
     (\<forall>m. active_record_timestamp s = Some m \<longrightarrow> rfc3339 m \<and> boundary_timestamp s \<noteq> Some m) \<and>
     (\<forall>b. boundary_timestamp s = Some b \<longrightarrow> rfc3339 b)"

definition table_wf :: "(string \<Rightarrow> bool) \<Rightarrow> table_options \<Rightarrow> merge_strategy \<Rightarrow> bool" where
  "table_wf rfc3339 opts strategy \<longleftrightarrow>
     hard_delete_wf opts strategy \<and>
     (\<forall>d. t_dedup_sort opts = Some d \<longrightarrow> \<not> is_blank (ds_column d)) \<and>
     merge_scope_wf opts strategy \<and>
     (\<forall>s. t_scd2 opts = Some s \<longrightarrow> strategy = Scd2 \<and> scd2_wf rfc3339 s)"

lemma check_hard_delete_ok: "check_hard_delete t opts st = Inr u \<longleftrightarrow> hard_delete_wf opts st"
  by (auto simp: check_hard_delete_def hard_delete_wf_def split: option.splits)

lemma check_merge_scope_ok: "check_merge_scope t opts st = Inr u \<longleftrightarrow> merge_scope_wf opts st"
proof (cases "t_merge_scope opts")
  case None
  then show ?thesis by (simp add: check_merge_scope_def merge_scope_wf_def)
next
  case (Some scope)
  have "unwrap_or (map_option absent (t_scd2 opts)) Keep = Retire \<longleftrightarrow>
      (\<exists>s. t_scd2 opts = Some s \<and> absent s = Retire)"
    by (cases "t_scd2 opts") auto
  moreover have "find_dup {} scope = None \<longleftrightarrow> distinct scope"
    by (simp add: find_dup_None)
  ultimately show ?thesis
    using Some by (cases "find_dup {} scope") (auto simp: check_merge_scope_def merge_scope_wf_def)
qed

lemma check_scd2_ok: "check_scd2 rfc3339 t opts st = Inr u \<longleftrightarrow>
    (\<forall>s. t_scd2 opts = Some s \<longrightarrow> st = Scd2 \<and> scd2_wf rfc3339 s)"
proof (cases "t_scd2 opts")
  case None
  then show ?thesis by (simp add: check_scd2_def)
next
  case (Some s)
  then show ?thesis
    by (cases "active_record_timestamp s"; cases "boundary_timestamp s")
      (auto simp: check_scd2_def scd2_wf_def check_timestamp_def each_eq_Inr rbind_unit_eq_Inr
        simp del: each.simps)
qed

lemma check_table_ok: "check_table rfc3339 o' (t, opts) = Inr u \<longleftrightarrow>
    table_wf rfc3339 opts (unwrap_or (opt_or (t_merge_strategy opts) (merge_strategy o')) DeleteInsert)"
  by (simp add: check_table_def Let_def rbind_unit_eq_Inr check_hard_delete_ok check_merge_scope_ok
      check_scd2_ok table_wf_def check_dedup_sort_def split: option.splits)

text \<open>
  The strategy \<open>validate\<close> resolves for an entry is the one \<open>strategy_for\<close> gives the
  planners for that table.
\<close>

lemma strategy_for_entry:
  assumes "btree (tables o')" and "(t, opts) \<in> set (tables o')"
  shows "strategy_for o' t = unwrap_or (opt_or (t_merge_strategy opts) (merge_strategy o')) DeleteInsert"
  using assms by (simp add: strategy_for_def explicit_strategy_for_def btree_lookup)

text \<open>
  C36. Validation accepts exactly the options whose every table obeys the rules. Among them: a
  scope with the scd2 strategy is accepted when it retires absent keys (\<open>scoped_scd2_accepted\<close>),
  as the comment of \<^verbatim>\<open>check_merge_scope\<close> says and the doc of the \<^verbatim>\<open>merge_scope\<close> field, not valid
  with scd2, denies.
\<close>

theorem validate_ok_iff:
  assumes "btree (tables o')"
  shows "validate rfc3339 o' = Inr () \<longleftrightarrow>
    (\<forall>(t, opts) \<in> set (tables o'). table_wf rfc3339 opts (strategy_for o' t))"
  using assms by (force simp: validate_def each_eq_Inr check_table_ok strategy_for_entry)

theorem validate_ok_iff_witness:
  "btree (tables (options_default\<lparr>tables := [(''t'', table_default\<lparr>t_merge_scope := Some [''day'']\<rparr>)]\<rparr>)) \<and>
   validate (\<lambda>_. True) (options_default\<lparr>tables := [(''t'', table_default\<lparr>t_merge_scope := Some [''day'']\<rparr>)]\<rparr>) = Inr ()"
proof -
  let ?o = "options_default\<lparr>tables := [(''t'', table_default\<lparr>t_merge_scope := Some [''day'']\<rparr>)]\<rparr>"
  have b: "btree (tables ?o)" by simp
  have "\<forall>(t, opts) \<in> set (tables ?o). table_wf (\<lambda>_. True) opts (strategy_for ?o t)"
    by (simp add: options_default_def table_default_def table_wf_def hard_delete_wf_def
        merge_scope_wf_def strategy_for_def explicit_strategy_for_def solid_def)
  with b show ?thesis using validate_ok_iff [OF b] by blast
qed

lemma scoped_scd2_accepted:
  "validate (\<lambda>_. True) (options_default\<lparr>tables := [(''t'', table_default\<lparr>t_merge_strategy := Some Scd2,
      t_merge_scope := Some [''day''], t_scd2 := Some (scd2_default\<lparr>absent := Retire\<rparr>)\<rparr>)]\<rparr>) = Inr ()"
  by code_simp

text \<open>
  What the planners inherit: under validated options, a table whose \<open>merge_scope\<close>
  meets the scd2 strategy always has \<open>absent: retire\<close>, so the scope is never inert.
\<close>

lemma validated_entry:
  assumes "validate rfc3339 o' = Inr ()" "btree (tables o')" "map_of (tables o') t = Some opts"
  shows "table_wf rfc3339 opts (strategy_for o' t)"
proof -
  have "(t, opts) \<in> set (tables o')" using assms(3) by (rule map_of_SomeD)
  then have "check_table rfc3339 o' (t, opts) = Inr ()"
    using assms(1) by (auto simp: validate_def each_eq_Inr)
  with strategy_for_entry [OF assms(2) \<open>(t, opts) \<in> set (tables o')\<close>]
  show ?thesis by (simp add: check_table_ok)
qed

lemma validated_scope:
  assumes "validate rfc3339 o' = Inr ()" "btree (tables o')" "merge_scope_for o' t = Some scope"
  shows "scope \<noteq> [] \<and> distinct scope"
    and "strategy_for o' t = Scd2 \<Longrightarrow> absent (scd2_for o' t) = Retire"
proof -
  from assms(3) obtain opts where m: "map_of (tables o') t = Some opts" and s: "t_merge_scope opts = Some scope"
    by (auto simp: merge_scope_for_def bind_eq_Some_conv)
  have wf: "merge_scope_wf opts (strategy_for o' t)"
    using validated_entry [OF assms(1,2) m] by (simp add: table_wf_def)
  then show "scope \<noteq> [] \<and> distinct scope" using s by (simp add: merge_scope_wf_def)
  assume "strategy_for o' t = Scd2"
  with wf s obtain sc where "t_scd2 opts = Some sc" "absent sc = Retire"
    by (auto simp: merge_scope_wf_def)
  with m show "absent (scd2_for o' t) = Retire" by (simp add: scd2_for_def)
qed

lemma validated_hard_delete:
  assumes "validate rfc3339 o' = Inr ()" "btree (tables o')" "hard_delete_for o' t = Some col"
  shows "strategy_for o' t \<noteq> Scd2"
proof -
  from assms(3) obtain opts where m: "map_of (tables o') t = Some opts" and "t_hard_delete opts = Some col"
    by (auto simp: hard_delete_for_def bind_eq_Some_conv)
  then show ?thesis
    using validated_entry [OF assms(1,2) m] by (simp add: table_wf_def hard_delete_wf_def)
qed

lemma validated_scd2:
  assumes "validate rfc3339 o' = Inr ()" "btree (tables o')" "map_of (tables o') t = Some opts" "t_scd2 opts = Some s"
  shows "scd2_wf rfc3339 (scd2_for o' t)" and "strategy_for o' t = Scd2"
  using validated_entry [OF assms(1-3)] assms(3,4) by (auto simp: table_wf_def scd2_for_def)

end
