(* ===== verification/Core_Types.thy ===== *)
theory Core_Types
  imports Prelude "HOL-Library.Word"
begin

text \<open>
  The vocabulary of the \<open>rdlt_connector::core\<close> crate that every connector exchanges
  with the engine: schemas, write modes, column types. The crate itself is a git
  dependency and not in this repository; the constructors and fields here are those the
  connectors construct and match exhaustively
  (e.g. \<^verbatim>\<open>crates/rdlt-connector-duckdb/src/destination/schema.rs\<close> for the types).
  Its FUNCTIONS are parameters, the fields of \<open>core_env\<close>, with \<open>core_ok\<close> stating
  what their documentation promises.
\<close>

datatype logical_type =
    LBool
  | LInt64
  | LFloat64
  | LDecimal nat nat
  | LJson
  | LUtf8
  | LUuid
  | LBinary
  | LTimestampTz
  | LTimestampNaive
  | LDate
  | LTime

datatype column_type =
    Scalar logical_type
  | Struct "column list"
  | ScalarList logical_type
and column = Column (col_name: string) (col_type: column_type) (nullable: bool)

record parent_link =
  link_parent :: string
  link_depth :: nat

record table_schema =
  sch_table :: string
  sch_parent :: "parent_link option"
  sch_columns :: "column list"

datatype write_mode = Append | Replace | Merge (merge_key: "string list")

text \<open>A destination's error, or its panic.\<close>

datatype dest_error = Fatal string | Transient string | Panicked

text \<open>A session's tables: \<open>BTreeMap<TableName, (TableSchema, V)>\<close>.\<close>

type_synonym 'v session_tables = "(string \<times> (table_schema \<times> 'v)) list"

text \<open>A statement's parameters.\<close>

datatype sql_value = VText string | VInt int

text \<open>\<open>CommitMeta\<close>; \<open>meta_doc\<close> is what \<open>serde_json\<close> makes of the state document.\<close>

record commit_meta =
  meta_load :: string
  meta_seq :: "64 word"
  meta_pipeline :: string
  meta_doc :: "(string, string) result"

record core_env =
  sys_id :: string
  sys_root_id :: string
  sys_load_id :: string
  ident_hash :: "string \<Rightarrow> nat \<Rightarrow> string"
  schema_column :: "table_schema \<Rightarrow> string \<Rightarrow> column option"

definition find_column :: "table_schema \<Rightarrow> string \<Rightarrow> column option" where
  "find_column s name = find (\<lambda>c. col_name c = name) (sch_columns s)"

text \<open>\<open>TableSchema::column\<close> finds the column of that name; the hash is bounded by its width.\<close>

definition core_ok :: "'x core_env_scheme \<Rightarrow> bool" where
  "core_ok env \<longleftrightarrow>
     (\<forall>s name. schema_column env s name = find_column s name) \<and>
     (\<forall>text n. length (ident_hash env text n) \<le> n)"

lemma core_column: "core_ok env \<Longrightarrow> schema_column env s name = find_column s name"
  by (simp add: core_ok_def)

lemma core_hash: "core_ok env \<Longrightarrow> length (ident_hash env text n) \<le> n"
  by (simp add: core_ok_def)

lemma find_column_None: "find_column s name = None \<longleftrightarrow> name \<notin> col_name ` set (sch_columns s)"
  by (auto simp: find_column_def find_None_iff)

lemma find_column_Some: "find_column s name = Some c \<Longrightarrow> c \<in> set (sch_columns s) \<and> col_name c = name"
  by (auto simp: find_column_def find_Some_iff)

text \<open>
  A concrete core for witnesses: the column lookup by name and a truncating "hash".
\<close>

definition demo_env :: core_env where
  "demo_env = \<lparr>sys_id = ''_rdlt_id'', sys_root_id = ''_rdlt_root_id'', sys_load_id = ''_rdlt_load_id'',
     ident_hash = (\<lambda>text n. take n text), schema_column = find_column\<rparr>"

lemma demo_env_ok: "core_ok demo_env"
  by (simp add: core_ok_def demo_env_def)

end
