(* ===== verification/Sql_Text.thy ===== *)
theory Sql_Text
  imports Core_Types
begin

text \<open>
  SQL text: \<^verbatim>\<open>sqlcore/src/names.rs\<close> (the persisted \<open>_rdlt_\<close> names and the
  index statements), \<^verbatim>\<open>sqlcore/src/dialect.rs\<close> (the \<open>MergeDialect\<close> trait as a
  record of hooks with its default bodies) and the three dialects that implement it
  (postgres, duckdb, snowflake \<^verbatim>\<open>src/destination/dialect.rs\<close>).
  \<open>ident_hash\<close> is the core crate's and comes from the parameter record \<open>core_env\<close>.
\<close>

section \<open>Quoting\<close>

text \<open>Wrap in a delimiter and double every embedded delimiter.\<close>

definition enclose :: "char \<Rightarrow> string \<Rightarrow> string" where
  "enclose q s = q # replace_char q [q, q] s @ [q]"

definition quote_identifier :: "string \<Rightarrow> string" where
  "quote_identifier ident = enclose dquote ident"

definition sql_literal :: "string \<Rightarrow> string" where
  "sql_literal value = enclose squote value"

text \<open>
  How SQL reads a delimited token: after the opening delimiter, a doubled delimiter is
  one character of the token and a single one ends it. \<open>None\<close> is an unterminated token.
\<close>

fun scan_body :: "char \<Rightarrow> string \<Rightarrow> (string \<times> string) option" where
  "scan_body q [] = None"
| "scan_body q [c] = (if c = q then Some ([], []) else None)"
| "scan_body q (c # d # cs) =
     (if c = q
      then (if d = q then map_option (apfst ((#) q)) (scan_body q cs) else Some ([], d # cs))
      else map_option (apfst ((#) c)) (scan_body q (d # cs)))"

fun scan_delimited :: "char \<Rightarrow> string \<Rightarrow> (string \<times> string) option" where
  "scan_delimited q [] = None"
| "scan_delimited q (c # cs) = (if c = q then scan_body q cs else None)"

lemma scan_body_replace:
  assumes "\<forall>c cs. rest = c # cs \<longrightarrow> c \<noteq> q"
  shows "scan_body q (replace_char q [q, q] s @ q # rest) = Some (s, rest)"
proof (induction s)
  case Nil
  with assms show ?case by (cases rest) auto
next
  case (Cons c s)
  show ?case
  proof (cases "c = q")
    case True
    with Cons show ?thesis by simp
  next
    case False
    then have "scan_body q (c # replace_char q [q, q] s @ q # rest) =
        map_option (apfst ((#) c)) (scan_body q (replace_char q [q, q] s @ q # rest))"
      by (cases "replace_char q [q, q] s @ q # rest") auto
    with False Cons show ?thesis by simp
  qed
qed

lemma scan_enclose:
  assumes "\<forall>c cs. rest = c # cs \<longrightarrow> c \<noteq> q"
  shows "scan_delimited q (enclose q s @ rest) = Some (s, rest)"
  using scan_body_replace [OF assms] by (simp add: enclose_def)

lemma enclose_inject: "enclose q s = enclose q t \<longleftrightarrow> s = t"
proof
  assume eq: "enclose q s = enclose q t"
  have "scan_delimited q (enclose q x @ []) = Some (x, [])" for x
    by (rule scan_enclose) simp
  from this [of s] this [of t] eq show "s = t" by simp
qed simp

lemma scan_body_shorter: "scan_body q cs = Some (t, rest) \<Longrightarrow> length rest < length cs"
proof (induction q cs arbitrary: t rest rule: scan_body.induct)
  case (3 q c d cs)
  show ?case
  proof (cases "c = q \<and> d \<noteq> q")
    case True
    with "3.prems" show ?thesis by auto
  next
    case False
    with "3.prems" "3.IH" show ?thesis by (auto split: if_splits simp: less_SucI)
  qed
qed (auto split: if_splits)

text \<open>Reading a comma-separated list of delimited identifiers.\<close>

function scan_idents :: "string \<Rightarrow> string list option" where
  "scan_idents s =
     (case scan_delimited dquote s of
        None \<Rightarrow> None
      | Some (x, []) \<Rightarrow> Some [x]
      | Some (x, [_]) \<Rightarrow> None
      | Some (x, c # d # rest) \<Rightarrow>
          if c = CHR '','' \<and> d = CHR '' '' then map_option ((#) x) (scan_idents rest) else None)"
  by pat_completeness auto
termination
proof (relation "measure length")
  fix s p x rs c rs' d rest
  assume "scan_delimited dquote s = Some p" "(x, rs) = p" "rs = c # rs'" "rs' = d # rest"
  then have "scan_delimited dquote s = Some (x, c # d # rest)" by simp
  then obtain cs where "s = dquote # cs" "scan_body dquote cs = Some (x, c # d # rest)"
    by (cases s) (auto split: if_splits)
  then show "(rest, s) \<in> measure length"
    using scan_body_shorter by fastforce
qed simp

declare scan_idents.simps [simp del]

text \<open>
  What a destination promises of its identifier quoting: the quoted text is a delimited
  token of some name \<open>ident s\<close>, whatever bytes \<open>s\<close> holds.
\<close>

locale quoting =
  fixes quo :: "string \<Rightarrow> string" and ident :: "string \<Rightarrow> string"
  assumes delimited: "quo s = enclose dquote (ident s)"
begin

lemma reads_back: "\<forall>c cs. rest = c # cs \<longrightarrow> c \<noteq> dquote \<Longrightarrow>
    scan_delimited dquote (quo s @ rest) = Some (ident s, rest)"
  by (simp only: delimited scan_enclose)

lemma list_reads_back: "scan_idents (join '', '' (map quo (c # cs))) = Some (map ident (c # cs))"
proof (induction cs arbitrary: c)
  case Nil
  have "scan_delimited dquote (quo c @ []) = Some (ident c, [])" by (rule reads_back) simp
  then show ?case by (simp add: scan_idents.simps [of "quo c"])
next
  case (Cons d ds)
  let ?rest = "'', '' @ join '', '' (map quo (d # ds))"
  have "scan_delimited dquote (quo c @ ?rest) = Some (ident c, ?rest)" by (rule reads_back) simp
  then show ?case
    using Cons.IH [of d] by (simp add: scan_idents.simps [of "quo c @ _"])
qed

lemma same_text_same_ident: "quo s = quo t \<longleftrightarrow> ident s = ident t"
  by (simp add: delimited enclose_inject)

end

section \<open>Persisted names\<close>

definition STATE_TABLE :: string where "STATE_TABLE = ''_rdlt_state''"
definition COMMITS_TABLE :: string where "COMMITS_TABLE = ''_rdlt_commits''"
definition CLEARED_TABLE :: string where "CLEARED_TABLE = ''_rdlt_cleared''"
definition STAGE_PREFIX :: string where "STAGE_PREFIX = ''_rdlt_stage_''"
definition ARRIVAL_COL :: string where "ARRIVAL_COL = ''__rdlt_arrival''"
definition INDEX_PREFIX :: string where "INDEX_PREFIX = ''rdlt_ix''"
definition UNIQUE_INDEX_PREFIX :: string where "UNIQUE_INDEX_PREFIX = ''rdlt_ux''"

definition stage_table :: "'x core_env_scheme \<Rightarrow> string \<Rightarrow> string \<Rightarrow> string" where
  "stage_table env pipeline table =
     STAGE_PREFIX @ ident_hash env pipeline 8 @ ''_'' @ ident_hash env table 16"

definition index_name :: "'x core_env_scheme \<Rightarrow> bool \<Rightarrow> string \<Rightarrow> string list \<Rightarrow> string" where
  "index_name env unique table columns =
     (if unique then UNIQUE_INDEX_PREFIX else INDEX_PREFIX) @ ''_'' @
     ident_hash env (table @ '':'' @ join '','' columns) 16"

definition create_index_sql ::
    "'x core_env_scheme \<Rightarrow> bool \<Rightarrow> string \<Rightarrow> string list \<Rightarrow> (string \<Rightarrow> string) \<Rightarrow> string" where
  "create_index_sql env unique table columns quo =
     (let name = index_name env unique table columns;
          cols = join '', '' (map quo columns) in
      ''CREATE '' @ (if unique then ''UNIQUE '' else '''') @ ''INDEX IF NOT EXISTS '' @ quo name @
      '' ON '' @ quo table @ '' ('' @ cols @ '')'')"

definition drop_index_sql ::
    "'x core_env_scheme \<Rightarrow> bool \<Rightarrow> string \<Rightarrow> string list \<Rightarrow> (string \<Rightarrow> string) \<Rightarrow> string" where
  "drop_index_sql env unique table columns quo =
     ''DROP INDEX IF EXISTS '' @ quo (index_name env unique table columns)"

definition duplicate_merge_key_diagnosis :: "string \<Rightarrow> string list \<Rightarrow> string \<Rightarrow> string" where
  "duplicate_merge_key_diagnosis table columns cause =
     ''table `'' @ table @ ''`: cannot create the unique index the upsert strategy '' @
     ''requires '' @ em_dash @ '' existing rows duplicate the merge key ('' @ join '', '' columns @
     ''); deduplicate the table or use delete_insert: '' @ cause"

section \<open>The dialect seam\<close>

datatype upsert_action = Update (action_set: string) | Nothing

record upsert =
  u_target :: string
  u_columns :: "string list"
  u_cols_sql :: string
  u_source :: string
  u_keep :: string
  u_keys :: "string list"
  u_key_list :: string
  u_action :: upsert_action

record merge_dialect =
  quote :: "string \<Rightarrow> string"
  arrival_order :: string
  tx_timestamp :: string
  clear_table :: "string \<Rightarrow> string"
  materialize_dedup :: "string \<Rightarrow> string \<Rightarrow> string option"
  dedup_subquery :: "string \<Rightarrow> string \<Rightarrow> string \<Rightarrow> string"
  flag_set :: "string \<Rightarrow> string"
  flag_unset :: "string \<Rightarrow> string"
  incoming_ref :: string
  upsert_stmt :: "upsert \<Rightarrow> string"

definition default_dedup_subquery :: "string \<Rightarrow> string \<Rightarrow> string \<Rightarrow> string \<Rightarrow> string" where
  "default_dedup_subquery arrival identity sort_prefix stage =
     ''(SELECT DISTINCT ON ('' @ identity @ '') * FROM '' @ stage @ '' ORDER BY '' @ identity @
     '', '' @ sort_prefix @ arrival @ '' DESC)''"

definition default_upsert_stmt :: "upsert \<Rightarrow> string" where
  "default_upsert_stmt u =
     (let action = (case u_action u of
          Nothing \<Rightarrow> ''DO NOTHING''
        | Update st \<Rightarrow> ''DO UPDATE SET '' @ st) in
      ''INSERT INTO '' @ u_target u @ '' ('' @ u_cols_sql u @ '') SELECT '' @ u_cols_sql u @
      '' FROM '' @ u_source u @ '' deduped'' @ u_keep u @
      '' ON CONFLICT ('' @ u_key_list u @ '') '' @ action)"

text \<open>The trait's provided bodies, over the two required hooks.\<close>

definition default_dialect :: "string \<Rightarrow> (string \<Rightarrow> string) \<Rightarrow> merge_dialect" where
  "default_dialect arrival clear =
     \<lparr>quote = quote_identifier,
      arrival_order = arrival,
      tx_timestamp = ''now()'',
      clear_table = clear,
      materialize_dedup = (\<lambda>_ _. None),
      dedup_subquery = default_dedup_subquery arrival,
      flag_set = (\<lambda>column. column @ '' IS TRUE''),
      flag_unset = (\<lambda>column. column @ '' IS NOT TRUE''),
      incoming_ref = ''EXCLUDED'',
      upsert_stmt = default_upsert_stmt\<rparr>"

section \<open>The three dialects\<close>

definition duck_dialect :: merge_dialect where
  "duck_dialect = default_dialect ''rowid'' (\<lambda>table. ''DELETE FROM '' @ table)"

definition postgres_dialect :: merge_dialect where
  "postgres_dialect =
     (default_dialect (quote_identifier ARRIVAL_COL) (\<lambda>table. ''TRUNCATE TABLE '' @ table))
       \<lparr>materialize_dedup := (\<lambda>name subquery. Some
          (''CREATE TEMP TABLE '' @ name @ '' ON COMMIT DROP AS SELECT * FROM '' @ subquery @ '' deduped''))\<rparr>"

text \<open>\<open>str::to_uppercase\<close> is the Unicode mapping and is the parameter \<open>upper\<close>.\<close>

definition snowflake_quote :: "(string \<Rightarrow> string) \<Rightarrow> string \<Rightarrow> string" where
  "snowflake_quote upper name = enclose dquote (upper name)"

definition INCOMING :: string where "INCOMING = ''SRC''"

definition snowflake_upsert_stmt :: "upsert \<Rightarrow> string" where
  "snowflake_upsert_stmt u =
     (let on = join '' AND '' (map (\<lambda>key. ''TGT.'' @ key @ '' = '' @ INCOMING @ ''.'' @ key) (u_keys u));
          values = join '', '' (map (\<lambda>column. INCOMING @ ''.'' @ column) (u_columns u));
          matched = (case u_action u of
              Update st \<Rightarrow> '' WHEN MATCHED THEN UPDATE SET '' @ st
            | Nothing \<Rightarrow> '''') in
      ''MERGE INTO '' @ u_target u @ '' TGT USING '' @
      ''(SELECT '' @ u_cols_sql u @ '' FROM '' @ u_source u @ '' deduped'' @ u_keep u @ '') '' @ INCOMING @
      '' ON '' @ on @ matched @
      '' WHEN NOT MATCHED THEN INSERT ('' @ u_cols_sql u @ '') VALUES ('' @ values @ '')'')"

definition snowflake_dedup_subquery :: "string \<Rightarrow> string \<Rightarrow> string \<Rightarrow> string \<Rightarrow> string" where
  "snowflake_dedup_subquery arrival identity sort_prefix stage =
     ''(SELECT * FROM '' @ stage @ '' QUALIFY ROW_NUMBER() OVER '' @
     ''(PARTITION BY '' @ identity @ '' ORDER BY '' @ sort_prefix @ arrival @ '' DESC) = 1)''"

definition snowflake_dialect :: "(string \<Rightarrow> string) \<Rightarrow> merge_dialect" where
  "snowflake_dialect upper =
     (default_dialect (snowflake_quote upper ARRIVAL_COL) (\<lambda>table. ''DELETE FROM '' @ table))
       \<lparr>quote := snowflake_quote upper,
        tx_timestamp := ''$rdlt_tx_ts'',
        dedup_subquery := snowflake_dedup_subquery (snowflake_quote upper ARRIVAL_COL),
        flag_set := (\<lambda>column. column @ '' = TRUE''),
        flag_unset := (\<lambda>column. column @ '' IS DISTINCT FROM TRUE''),
        incoming_ref := INCOMING,
        upsert_stmt := snowflake_upsert_stmt\<rparr>"

section \<open>The quoting contract, on the code's dialects\<close>

interpretation std_quoting: quoting quote_identifier "\<lambda>s. s"
  by unfold_locales (simp add: quote_identifier_def)

interpretation duck_quoting: quoting "quote duck_dialect" "\<lambda>s. s"
  by unfold_locales (simp add: duck_dialect_def default_dialect_def quote_identifier_def)

interpretation postgres_quoting: quoting "quote postgres_dialect" "\<lambda>s. s"
  by unfold_locales (simp add: postgres_dialect_def default_dialect_def quote_identifier_def)

interpretation snowflake_quoting: quoting "quote (snowflake_dialect upper)" upper for upper
  by unfold_locales (simp add: snowflake_dialect_def default_dialect_def snowflake_quote_def)

end
