(* ===== verification/Sql_Plan.thy ===== *)
theory Sql_Plan
  imports Sql_Options Sql_Text
begin

text \<open>
  \<^verbatim>\<open>sqlcore/src/plan/table.rs\<close>, \<^verbatim>\<open>index.rs\<close> and \<^verbatim>\<open>validate.rs\<close>: the shred
  root, the publish column list, the resolved merge context, the supporting-index plan
  and the open-time validation with its typed errors.
\<close>

section \<open>table.rs\<close>

definition ROOT_DEPTH_BOUND :: nat where "ROOT_DEPTH_BOUND = 64"

definition parent_of :: "'v session_tables \<Rightarrow> string \<Rightarrow> string option" where
  "parent_of tabs t = Option.bind (map_of tabs t) (\<lambda>(s, _). map_option link_parent (sch_parent s))"

text \<open>\<open>for _ in 0..n\<close> with \<open>break\<close> when there is no parent link.\<close>

fun root_walk :: "nat \<Rightarrow> 'v session_tables \<Rightarrow> string \<Rightarrow> string" where
  "root_walk 0 tabs current = current"
| "root_walk (Suc n) tabs current =
     (case parent_of tabs current of
        Some p \<Rightarrow> root_walk n tabs p
      | None \<Rightarrow> current)"

definition root_of :: "'v session_tables \<Rightarrow> string \<Rightarrow> string" where
  "root_of tabs t = root_walk ROOT_DEPTH_BOUND tabs t"

definition column_list_with :: "table_schema \<Rightarrow> (string \<Rightarrow> string) \<Rightarrow> string" where
  "column_list_with schema quo = join '', '' (map (\<lambda>c. quo (col_name c)) (sch_columns schema))"

definition column_list :: "table_schema \<Rightarrow> string" where
  "column_list schema = column_list_with schema quote_identifier"

record merge_context =
  mc_strategy :: merge_strategy
  mc_scoped :: "string list option"
  mc_scd2 :: "scd2_options option"
  mc_retire :: bool

definition resolve :: "destination_options \<Rightarrow> string \<Rightarrow> merge_context" where
  "resolve o' t =
     (let strategy = strategy_for o' t;
          scd2 = (if strategy = Scd2 then Some (scd2_for o' t) else None) in
      \<lparr>mc_strategy = strategy,
       mc_scoped = merge_scope_for o' t,
       mc_scd2 = scd2,
       mc_retire = (case scd2 of None \<Rightarrow> False | Some s \<Rightarrow> absent s = Retire)\<rparr>)"

definition full_feed :: "merge_context \<Rightarrow> bool" where
  "full_feed mc \<longleftrightarrow> mc_scoped mc \<noteq> None \<or> mc_retire mc"

section \<open>index.rs\<close>

record index_spec =
  unique :: bool
  ix_columns :: "string list"

definition plain_index :: "string list \<Rightarrow> index_spec" where
  "plain_index cols = \<lparr>unique = False, ix_columns = cols\<rparr>"

definition unique_index :: "string list \<Rightarrow> index_spec" where
  "unique_index cols = \<lparr>unique = True, ix_columns = cols\<rparr>"

definition index_plan ::
    "'x core_env_scheme \<Rightarrow> destination_options \<Rightarrow> string \<Rightarrow> string list \<Rightarrow> bool \<Rightarrow> bool \<Rightarrow> index_spec list" where
  "index_plan env o' t key has_identity is_child =
     (if has_identity
      then plain_index [sys_id env] # (if is_child then [plain_index [sys_root_id env]] else [])
      else
        (case strategy_for o' t of
           Upsert \<Rightarrow> [unique_index key]
         | DeleteInsert \<Rightarrow> [plain_index key]
         | Scd2 \<Rightarrow> [plain_index (key @ [valid_to (scd2_for o' t)])]) @
        (case merge_scope_for o' t of
           Some scope \<Rightarrow> [plain_index scope]
         | None \<Rightarrow> []))"

section \<open>validate.rs\<close>

record table_facts =
  tf_schema :: table_schema
  has_identity :: bool
  is_child :: bool

definition facts_of :: "'x core_env_scheme \<Rightarrow> table_schema \<Rightarrow> table_facts" where
  "facts_of env schema =
     \<lparr>tf_schema = schema,
      has_identity = (\<exists>c \<in> set (sch_columns schema). col_name c = sys_id env),
      is_child = (sch_parent schema \<noteq> None)\<rparr>"

datatype validate_error =
    OptionRequiresMerge string string
  | HardDeleteOnChild string
  | HardDeleteColMissing string string
  | DedupSortNeedsKeyed string
  | DedupSortColMissing string string
  | DedupSortIsHardDelete string string
  | DedupSortInKey string string
  | KeyColMissing string string
  | MergeKeyNeedsKeyed string
  | MergeKeyScd2NeedsRetire string
  | MergeKeyColMissing string string
  | MergeKeyColIsHardDelete string string
  | UpsertNeedsKeyed string
  | Scd2NeedsKeyed string
  | Scd2ValidityCollides string string

definition bq :: "string \<Rightarrow> string" where
  "bq s = ''`'' @ s @ ''`''"

primrec display_validate_error :: "validate_error \<Rightarrow> string" where
  "display_validate_error (OptionRequiresMerge t opt) =
     ''table '' @ bq t @ '': '' @ opt @ '' requires the merge write mode '' @
     em_dash @ '' under append/replace it would be silently inert''"
| "display_validate_error (HardDeleteOnChild t) =
     ''table '' @ bq t @ '': hard_delete applies to the ROOT table of a '' @
     ''shredded stream '' @ em_dash @ '' configure it on the root, not the child''"
| "display_validate_error (HardDeleteColMissing t col) =
     ''hard_delete column '' @ bq col @ '' is not a column of table '' @ bq t"
| "display_validate_error (DedupSortNeedsKeyed t) =
     ''table '' @ bq t @ '': dedup_sort requires a KEYED structured '' @
     ''stream '' @ em_dash @ '' a shredded stream's identity is a content hash, '' @
     ''ordered survivors are meaningless there''"
| "display_validate_error (DedupSortColMissing t col) =
     ''dedup_sort column '' @ bq col @ '' is not a column of table '' @ bq t"
| "display_validate_error (DedupSortIsHardDelete t col) =
     ''table '' @ bq t @ '': dedup_sort column '' @ bq col @ '' is the hard_delete '' @
     ''flag '' @ em_dash @ '' use a distinct ordering column''"
| "display_validate_error (DedupSortInKey t col) =
     ''table '' @ bq t @ '': dedup_sort column '' @ bq col @ '' is part of the '' @
     ''merge key '' @ em_dash @ '' constant within each identity group, it can '' @
     ''never order survivors''"
| "display_validate_error (KeyColMissing t col) =
     ''merge key column '' @ bq col @ '' is not a column of table '' @ bq t"
| "display_validate_error (MergeKeyNeedsKeyed t) =
     ''table '' @ bq t @ '': merge_scope requires a KEYED structured '' @
     ''stream '' @ em_dash @ '' shredded streams replace by root subtree''"
| "display_validate_error (MergeKeyScd2NeedsRetire t) =
     ''table '' @ bq t @ '': merge_scope with scd2 scopes RETIREMENT and '' @
     ''requires scd2 {absent: retire}''"
| "display_validate_error (MergeKeyColMissing t col) =
     ''merge_scope column '' @ bq col @ '' is not a column of table '' @ bq t"
| "display_validate_error (MergeKeyColIsHardDelete t col) =
     ''table '' @ bq t @ '': merge_scope column '' @ bq col @ '' is the '' @
     ''hard_delete flag '' @ em_dash @ '' a deletion flag is not a scope''"
| "display_validate_error (UpsertNeedsKeyed t) =
     ''table '' @ bq t @ '': the upsert strategy requires a KEYED '' @
     ''structured stream '' @ em_dash @ '' shredded streams use delete_insert''"
| "display_validate_error (Scd2NeedsKeyed t) =
     ''table '' @ bq t @ '': scd2 requires a KEYED structured stream '' @
     em_dash @ '' shredded streams have no declared key''"
| "display_validate_error (Scd2ValidityCollides t name) =
     ''table '' @ bq t @ '': scd2 validity column '' @ bq name @ '' collides '' @
     ''with a stream column '' @ em_dash @ '' configure different names''"

definition validate_non_merge :: "destination_options \<Rightarrow> string \<Rightarrow> (validate_error, unit) result" where
  "validate_non_merge o' t =
     each (\<lambda>(declared, opt). refuse_if declared (OptionRequiresMerge t opt))
       [(explicit_strategy_for o' t \<noteq> None, ''merge_strategy''),
        (dedup_sort_for o' t \<noteq> None, ''dedup_sort''),
        (merge_scope_for o' t \<noteq> None, ''merge_scope'')]"

definition check_key ::
    "'x core_env_scheme \<Rightarrow> string \<Rightarrow> string list \<Rightarrow> table_facts \<Rightarrow> (validate_error, unit) result" where
  "check_key env t key facts =
     (if has_identity facts \<or> is_child facts then Inr ()
      else each (\<lambda>col. refuse_if (schema_column env (tf_schema facts) col = None) (KeyColMissing t col)) key)"

definition check_hard_delete ::
    "'x core_env_scheme \<Rightarrow> destination_options \<Rightarrow> string \<Rightarrow> table_facts \<Rightarrow> (validate_error, unit) result" where
  "check_hard_delete env o' t facts =
     (case hard_delete_for o' t of
        None \<Rightarrow> Inr ()
      | Some col \<Rightarrow>
          if is_child facts then Inl (HardDeleteOnChild t)
          else refuse_if (schema_column env (tf_schema facts) col = None) (HardDeleteColMissing t col))"

definition check_dedup_sort ::
    "'x core_env_scheme \<Rightarrow> destination_options \<Rightarrow> string \<Rightarrow> string list \<Rightarrow> table_facts \<Rightarrow> (validate_error, unit) result" where
  "check_dedup_sort env o' t key facts =
     (case dedup_sort_for o' t of
        None \<Rightarrow> Inr ()
      | Some dedup \<Rightarrow>
          if has_identity facts then Inl (DedupSortNeedsKeyed t)
          else if schema_column env (tf_schema facts) (ds_column dedup) = None
          then Inl (DedupSortColMissing t (ds_column dedup))
          else if hard_delete_for o' t = Some (ds_column dedup)
          then Inl (DedupSortIsHardDelete t (ds_column dedup))
          else refuse_if (ds_column dedup \<in> set key) (DedupSortInKey t (ds_column dedup)))"

definition check_merge_scope ::
    "'x core_env_scheme \<Rightarrow> destination_options \<Rightarrow> string \<Rightarrow> table_facts \<Rightarrow> merge_strategy \<Rightarrow> (validate_error, unit) result" where
  "check_merge_scope env o' t facts strategy =
     (case merge_scope_for o' t of
        None \<Rightarrow> Inr ()
      | Some scope \<Rightarrow>
          if has_identity facts then Inl (MergeKeyNeedsKeyed t)
          else if strategy = Scd2 \<and> absent (scd2_for o' t) \<noteq> Retire
          then Inl (MergeKeyScd2NeedsRetire t)
          else each (\<lambda>col.
              if schema_column env (tf_schema facts) col = None then Inl (MergeKeyColMissing t col)
              else refuse_if (hard_delete_for o' t = Some col) (MergeKeyColIsHardDelete t col)) scope)"

definition check_upsert :: "merge_strategy \<Rightarrow> bool \<Rightarrow> string \<Rightarrow> (validate_error, unit) result" where
  "check_upsert strategy identity t = refuse_if (strategy = Upsert \<and> identity) (UpsertNeedsKeyed t)"

definition check_scd2 ::
    "'x core_env_scheme \<Rightarrow> destination_options \<Rightarrow> string \<Rightarrow> table_facts \<Rightarrow> merge_strategy \<Rightarrow> (validate_error, unit) result" where
  "check_scd2 env o' t facts strategy =
     (if strategy \<noteq> Scd2 then Inr ()
      else if has_identity facts then Inl (Scd2NeedsKeyed t)
      else (let scd2 = scd2_for o' t in
        each (\<lambda>name. refuse_if (schema_column env (tf_schema facts) name \<noteq> None) (Scd2ValidityCollides t name))
          [valid_from scd2, valid_to scd2]))"

definition validate_merge ::
    "'x core_env_scheme \<Rightarrow> destination_options \<Rightarrow> string \<Rightarrow> string list \<Rightarrow> table_facts \<Rightarrow> (validate_error, unit) result" where
  "validate_merge env o' t key facts =
     (let strategy = strategy_for o' t in
      rbind (check_key env t key facts) (\<lambda>_.
      rbind (check_hard_delete env o' t facts) (\<lambda>_.
      rbind (check_dedup_sort env o' t key facts) (\<lambda>_.
      rbind (check_merge_scope env o' t facts strategy) (\<lambda>_.
      rbind (check_upsert strategy (has_identity facts) t) (\<lambda>_.
      check_scd2 env o' t facts strategy))))))"

section \<open>The shred root\<close>

text \<open>Following exactly \<open>n\<close> parent links.\<close>

fun hops :: "nat \<Rightarrow> 'v session_tables \<Rightarrow> string \<Rightarrow> string option" where
  "hops 0 tabs t = Some t"
| "hops (Suc n) tabs t = Option.bind (parent_of tabs t) (hops n tabs)"

lemma root_walk_reached: "\<exists>m \<le> n. hops m tabs t = Some (root_walk n tabs t)"
proof (induction n arbitrary: t)
  case 0
  show ?case by simp
next
  case (Suc n)
  show ?case
  proof (cases "parent_of tabs t")
    case None
    then show ?thesis by (intro exI [of _ 0]) simp
  next
    case (Some p)
    from Suc.IH [of p] obtain m where "m \<le> n" "hops m tabs p = Some (root_walk n tabs p)" by blast
    with Some show ?thesis by (intro exI [of _ "Suc m"]) simp
  qed
qed

lemma root_walk_root:
  "hops m tabs t = Some r \<Longrightarrow> parent_of tabs r = None \<Longrightarrow> m \<le> n \<Longrightarrow> root_walk n tabs t = r"
proof (induction m arbitrary: n t)
  case 0
  then show ?case by (cases n) auto
next
  case (Suc m)
  then obtain p where p: "parent_of tabs t = Some p" "hops m tabs p = Some r"
    by (auto simp: bind_eq_Some_conv)
  from Suc.prems(3) obtain k where k: "n = Suc k" "m \<le> k" by (cases n) auto
  with p Suc.IH [OF p(2) Suc.prems(2) k(2)] show ?case by simp
qed

text \<open>
  A parent chain that ends within 64 links is followed to its end, and that end is its own
  root; a longer or cyclic chain still returns, with a table at most 64 links away.
\<close>

theorem root_of_spec:
  "(\<exists>m \<le> 64. hops m tabs t = Some (root_of tabs t)) \<and>
   (\<forall>m r. m \<le> 64 \<and> hops m tabs t = Some r \<and> parent_of tabs r = None \<longrightarrow>
      root_of tabs t = r \<and> root_of tabs r = r)"
proof (intro conjI allI impI; (elim conjE)?)
  show "\<exists>m \<le> 64. hops m tabs t = Some (root_of tabs t)"
    unfolding root_of_def ROOT_DEPTH_BOUND_def by (rule root_walk_reached)
next
  fix m r
  assume "m \<le> 64" "hops m tabs t = Some r" "parent_of tabs r = None"
  then show "root_of tabs t = r" by (simp add: root_of_def ROOT_DEPTH_BOUND_def root_walk_root)
  have "hops 0 tabs r = Some r" by simp
  then show "root_of tabs r = r"
    unfolding root_of_def ROOT_DEPTH_BOUND_def
    by (rule root_walk_root) (use \<open>parent_of tabs r = None\<close> in auto)
qed

definition demo_linked :: "write_mode session_tables" where
  "demo_linked =
     [(''a'', (\<lparr>sch_table = ''a'', sch_parent = None, sch_columns = []\<rparr>, Append)),
      (''a__b'', (\<lparr>sch_table = ''a__b'', sch_parent = Some \<lparr>link_parent = ''a'', link_depth = 1\<rparr>, sch_columns = []\<rparr>, Append))]"

theorem root_of_spec_witness: "root_of demo_linked ''a__b'' = ''a''"
proof -
  have h: "(1::nat) \<le> 64 \<and> hops 1 demo_linked ''a__b'' = Some ''a'' \<and> parent_of demo_linked ''a'' = None"
    by (simp add: demo_linked_def parent_of_def eval_nat_numeral)
  show ?thesis using root_of_spec [of demo_linked "''a__b''"] h by blast
qed

section \<open>What open-time validation accepts\<close>

definition column_names :: "table_schema \<Rightarrow> string set" where
  "column_names s = col_name ` set (sch_columns s)"

lemma schema_column_None: "core_ok env \<Longrightarrow> schema_column env s name = None \<longleftrightarrow> name \<notin> column_names s"
  by (simp add: core_column find_column_None column_names_def)

definition merge_config_ok ::
    "destination_options \<Rightarrow> string \<Rightarrow> string list \<Rightarrow> table_facts \<Rightarrow> bool" where
  "merge_config_ok o' t key facts \<longleftrightarrow>
     (let cols = column_names (tf_schema facts); hid = has_identity facts; child = is_child facts;
          strategy = strategy_for o' t in
      (\<not> hid \<and> \<not> child \<longrightarrow> set key \<subseteq> cols) \<and>
      (\<forall>col. hard_delete_for o' t = Some col \<longrightarrow> \<not> child \<and> col \<in> cols) \<and>
      (\<forall>d. dedup_sort_for o' t = Some d \<longrightarrow> \<not> hid \<and> ds_column d \<in> cols \<and>
         hard_delete_for o' t \<noteq> Some (ds_column d) \<and> ds_column d \<notin> set key) \<and>
      (\<forall>scope. merge_scope_for o' t = Some scope \<longrightarrow> \<not> hid \<and> set scope \<subseteq> cols \<and>
         (strategy = Scd2 \<longrightarrow> absent (scd2_for o' t) = Retire) \<and>
         (\<forall>col. hard_delete_for o' t = Some col \<longrightarrow> col \<notin> set scope)) \<and>
      (strategy \<noteq> DeleteInsert \<longrightarrow> \<not> hid) \<and>
      (strategy = Scd2 \<longrightarrow> valid_from (scd2_for o' t) \<notin> cols \<and> valid_to (scd2_for o' t) \<notin> cols))"

lemma check_key_ok: "core_ok env \<Longrightarrow> check_key env t key facts = Inr u \<longleftrightarrow>
    (\<not> has_identity facts \<and> \<not> is_child facts \<longrightarrow> set key \<subseteq> column_names (tf_schema facts))"
  by (auto simp: check_key_def each_eq_Inr schema_column_None)

lemma check_hard_delete_ok': "core_ok env \<Longrightarrow> check_hard_delete env o' t facts = Inr u \<longleftrightarrow>
    (\<forall>col. hard_delete_for o' t = Some col \<longrightarrow> \<not> is_child facts \<and> col \<in> column_names (tf_schema facts))"
  by (auto simp: check_hard_delete_def schema_column_None split: option.splits)

lemma check_dedup_sort_ok: "core_ok env \<Longrightarrow> check_dedup_sort env o' t key facts = Inr u \<longleftrightarrow>
    (\<forall>d. dedup_sort_for o' t = Some d \<longrightarrow> \<not> has_identity facts \<and> ds_column d \<in> column_names (tf_schema facts) \<and>
         hard_delete_for o' t \<noteq> Some (ds_column d) \<and> ds_column d \<notin> set key)"
  by (auto simp: check_dedup_sort_def schema_column_None split: option.splits)

lemma check_merge_scope_ok': "core_ok env \<Longrightarrow> check_merge_scope env o' t facts st = Inr u \<longleftrightarrow>
    (\<forall>scope. merge_scope_for o' t = Some scope \<longrightarrow> \<not> has_identity facts \<and> set scope \<subseteq> column_names (tf_schema facts) \<and>
         (st = Scd2 \<longrightarrow> absent (scd2_for o' t) = Retire) \<and>
         (\<forall>col. hard_delete_for o' t = Some col \<longrightarrow> col \<notin> set scope))"
  by (auto simp: check_merge_scope_def schema_column_None each_eq_Inr split: option.splits if_splits)

lemma check_scd2_ok': "core_ok env \<Longrightarrow> check_scd2 env o' t facts st = Inr u \<longleftrightarrow>
    (st = Scd2 \<longrightarrow> \<not> has_identity facts \<and> valid_from (scd2_for o' t) \<notin> column_names (tf_schema facts)
       \<and> valid_to (scd2_for o' t) \<notin> column_names (tf_schema facts))"
  by (simp add: check_scd2_def Let_def rbind_unit_eq_Inr schema_column_None)

lemma validate_merge_ok_iff:
  assumes "core_ok env"
  shows "validate_merge env o' t key facts = Inr () \<longleftrightarrow> merge_config_ok o' t key facts"
  using assms
  by (cases "strategy_for o' t")
    (auto simp: validate_merge_def Let_def rbind_unit_eq_Inr check_key_ok check_hard_delete_ok'
      check_dedup_sort_ok check_merge_scope_ok' check_scd2_ok' check_upsert_def merge_config_ok_def)

text \<open>
  The six rule groups together accept exactly the configurations of
  \<open>merge_config_ok\<close>, in particular nothing is rejected by order or by an
  earlier group's side effect.
\<close>

theorem validate_merge_iff:
  assumes "core_ok env"
  shows "validate_merge env o' t key facts = Inr () \<longleftrightarrow> merge_config_ok o' t key facts"
  using assms by (rule validate_merge_ok_iff)

theorem validate_merge_iff_witness:
  "validate_merge demo_env options_default ''t'' [''id'']
     (facts_of demo_env \<lparr>sch_table = ''t'', sch_parent = None, sch_columns = [Column ''id'' (Scalar LInt64) False]\<rparr>) = Inr ()"
  by (subst validate_merge_iff [OF demo_env_ok])
    (simp add: merge_config_ok_def facts_of_def options_default_def column_names_def demo_env_def
      hard_delete_for_def dedup_sort_for_def merge_scope_for_def strategy_for_def explicit_strategy_for_def)

lemma validate_non_merge_ok: "validate_non_merge o' t = Inr u \<longleftrightarrow>
    explicit_strategy_for o' t = None \<and> dedup_sort_for o' t = None \<and> merge_scope_for o' t = None"
  by (simp add: validate_non_merge_def rbind_unit_eq_Inr)

text \<open>Under an accepted configuration no index names a column a root table will not have.\<close>

lemma index_plan_columns:
  assumes "merge_config_ok o' t key facts" and "\<not> is_child facts" and "spec \<in> set (index_plan env o' t key (has_identity facts) False)"
    and "has_identity facts \<Longrightarrow> sys_id env \<in> column_names (tf_schema facts)"
  shows "set (ix_columns spec) \<subseteq> column_names (tf_schema facts) \<union>
    (if strategy_for o' t = Scd2 then {valid_to (scd2_for o' t)} else {})"
  using assms
  by (cases "merge_scope_for o' t")
    (auto simp: index_plan_def merge_config_ok_def Let_def plain_index_def unique_index_def
      split: if_splits merge_strategy.splits)

lemma facts_identity: "has_identity (facts_of env s) \<longleftrightarrow> sys_id env \<in> column_names s"
  by (force simp: facts_of_def column_names_def)

lemma facts_schema [simp]: "tf_schema (facts_of env s) = s"
  by (simp add: facts_of_def)

lemma facts_child [simp]: "is_child (facts_of env s) \<longleftrightarrow> sch_parent s \<noteq> None"
  by (simp add: facts_of_def)

section \<open>The merge context\<close>

lemma resolve_simps [simp]:
  "mc_strategy (resolve o' t) = strategy_for o' t"
  "mc_scoped (resolve o' t) = merge_scope_for o' t"
  "mc_retire (resolve o' t) \<longleftrightarrow> strategy_for o' t = Scd2 \<and> absent (scd2_for o' t) = Retire"
  by (simp_all add: resolve_def Let_def)

lemma full_feed_iff: "full_feed (resolve o' t) \<longleftrightarrow>
    merge_scope_for o' t \<noteq> None \<or> strategy_for o' t = Scd2 \<and> absent (scd2_for o' t) = Retire"
  by (simp add: full_feed_def)

end
