(* ===== verification/Sql_Ensure.thy ===== *)
theory Sql_Ensure
  imports Sql_Plan
begin

text \<open>
  \<^verbatim>\<open>sqlcore/src/ensure.rs\<close>: what must be true of a table before rows are written to
  it, as ordered steps: the relations and columns (phase 1), then validation, the scd2
  validity columns and the indexes (phase 2). \<open>FullLoadPublish\<close> is from
  \<^verbatim>\<open>sqlcore/src/protocol/step.rs\<close>.
\<close>

datatype full_load_publish = Staged | DirectToTarget

datatype leg = Target | Stage

datatype validity = From | To

datatype ensure_step =
    EnsureTable leg
  | EnsureColumn leg nat
  | EnsureWiden leg nat
  | EnsureValidity validity
  | EnsureIndex index_spec

definition is_merge :: "write_mode \<Rightarrow> bool" where
  "is_merge mode = (case mode of Merge _ \<Rightarrow> True | _ \<Rightarrow> False)"

text \<open>What a lowering of the steps can fail with: \<open>unreachable!\<close> and slice indexing are \<open>Panic\<close>.\<close>

datatype ddl_error = Panic | Invalid validate_error

definition index_column :: "table_schema \<Rightarrow> nat \<Rightarrow> (ddl_error, column) result" where
  "index_column schema i =
     (if i < length (sch_columns schema) then Inr (sch_columns schema ! i) else Inl Panic)"

lemma is_merge_simps [simp]:
  "is_merge (Merge k)" "\<not> is_merge Append" "\<not> is_merge Replace"
  by (simp_all add: is_merge_def)

definition uses_stage :: "write_mode \<Rightarrow> full_load_publish \<Rightarrow> bool" where
  "uses_stage mode publish \<longleftrightarrow> is_merge mode \<or> publish = Staged"

text \<open>The body of the column loop for column number \<open>i\<close> with definition \<open>d\<close>.\<close>

definition column_steps ::
    "'x core_env_scheme \<Rightarrow> table_schema option \<Rightarrow> leg \<Rightarrow> nat \<times> column \<Rightarrow> ensure_step list" where
  "column_steps env previous l entry =
     (case entry of (i, d) \<Rightarrow>
       EnsureColumn l i #
       (case previous of
          None \<Rightarrow> []
        | Some prev \<Rightarrow>
            (case schema_column env prev (col_name d) of
               None \<Rightarrow> []
             | Some old \<Rightarrow> if col_type old \<noteq> col_type d then [EnsureWiden l i] else [])))"

definition leg_steps :: "'x core_env_scheme \<Rightarrow> table_schema \<Rightarrow> table_schema option \<Rightarrow> leg \<Rightarrow> ensure_step list" where
  "leg_steps env schema previous l =
     EnsureTable l # concat (map (column_steps env previous l) (enumerate 0 (sch_columns schema)))"

definition schema_steps ::
    "'x core_env_scheme \<Rightarrow> table_schema \<Rightarrow> write_mode \<Rightarrow> full_load_publish \<Rightarrow> table_schema option \<Rightarrow> ensure_step list" where
  "schema_steps env schema mode publish previous =
     (let legs = [Target] @ (if uses_stage mode publish then [Stage] else []) in
      concat (map (leg_steps env schema previous) legs))"

definition merge_steps ::
    "'x core_env_scheme \<Rightarrow> destination_options \<Rightarrow> table_schema \<Rightarrow> write_mode \<Rightarrow> (validate_error, ensure_step list) result" where
  "merge_steps env o' schema mode =
     (let t = sch_table schema in
      case mode of
        Merge key \<Rightarrow>
          (let facts = facts_of env schema in
           rbind (validate_merge env o' t key facts) (\<lambda>_.
             Inr ((if strategy_for o' t = Scd2 then [EnsureValidity From, EnsureValidity To] else []) @
                  map EnsureIndex (index_plan env o' t key (has_identity facts) (is_child facts)))))
      | _ \<Rightarrow> rbind (validate_non_merge o' t) (\<lambda>_. Inr []))"

section \<open>Phase 1\<close>

fun step_leg :: "ensure_step \<Rightarrow> leg option" where
  "step_leg (EnsureTable l) = Some l"
| "step_leg (EnsureColumn l _) = Some l"
| "step_leg (EnsureWiden l _) = Some l"
| "step_leg (EnsureValidity _) = None"
| "step_leg (EnsureIndex _) = None"

fun step_column :: "ensure_step \<Rightarrow> nat option" where
  "step_column (EnsureColumn _ i) = Some i"
| "step_column (EnsureWiden _ i) = Some i"
| "step_column _ = None"

text \<open>A column whose type differs from the session's previous schema.\<close>

definition widened :: "table_schema option \<Rightarrow> column \<Rightarrow> bool" where
  "widened previous d \<longleftrightarrow>
     (\<exists>prev old. previous = Some prev \<and> find_column prev (col_name d) = Some old \<and> col_type old \<noteq> col_type d)"

lemma column_steps_eq: "core_ok env \<Longrightarrow> column_steps env previous l (i, d) =
    EnsureColumn l i # (if widened previous d then [EnsureWiden l i] else [])"
  by (auto simp: column_steps_def widened_def core_column split: option.splits)

lemma leg_steps_set:
  assumes "core_ok env"
  shows "set (leg_steps env schema previous l) =
    {EnsureTable l} \<union> {EnsureColumn l i | i. i < length (sch_columns schema)} \<union>
    {EnsureWiden l i | i. i < length (sch_columns schema) \<and> widened previous (sch_columns schema ! i)}"
proof -
  have "set (enumerate 0 (sch_columns schema)) = {(i, sch_columns schema ! i) | i. i < length (sch_columns schema)}"
    by (auto simp: in_set_enumerate_eq)
  then show ?thesis
    by (auto simp: leg_steps_def column_steps_eq [OF assms] split: if_splits)
qed

lemma leg_steps_leg: "s \<in> set (leg_steps env schema previous l) \<Longrightarrow> step_leg s = Some l"
  by (auto simp: leg_steps_def column_steps_def split: option.splits if_splits)

lemma schema_steps_table: "core_ok env \<Longrightarrow>
    EnsureTable l \<in> set (schema_steps env schema mode publish previous) \<longleftrightarrow> l = Target \<or> uses_stage mode publish"
  by (cases l) (auto simp: schema_steps_def leg_steps_set)

lemma schema_steps_relation_first:
  assumes "schema_steps env schema mode publish previous = pre @ EnsureColumn l i # post"
  shows "EnsureTable l \<in> set pre"
proof -
  obtain ts where ts: "leg_steps env schema previous Target = EnsureTable Target # ts"
      "\<forall>s \<in> set ts. step_leg s = Some Target"
    using leg_steps_leg [of _ env schema previous Target] by (auto simp: leg_steps_def)
  obtain ss where ss: "leg_steps env schema previous Stage = EnsureTable Stage # ss"
      "\<forall>s \<in> set ss. step_leg s = Some Stage"
    using leg_steps_leg [of _ env schema previous Stage] by (auto simp: leg_steps_def)
  show ?thesis
    using assms ts ss
    by (cases l) (auto simp: schema_steps_def Let_def Cons_eq_append_conv append_eq_append_conv2
        append_eq_Cons_conv split: if_splits)
qed

text \<open>
  Phase 1 plans exactly: the target relation and, iff the table stages, its stage
  relation; on each, every column of the schema, plus a widening for the columns whose
  type moved since the session last ensured the table. No step indexes past the schema,
  and the relation comes before its columns.
\<close>

theorem schema_steps_spec:
  assumes "core_ok env"
  shows "set (schema_steps env schema mode publish previous) =
    (\<Union>l \<in> (if uses_stage mode publish then {Target, Stage} else {Target}).
       {EnsureTable l} \<union> {EnsureColumn l i | i. i < length (sch_columns schema)} \<union>
       {EnsureWiden l i | i. i < length (sch_columns schema) \<and> widened previous (sch_columns schema ! i)}) \<and>
    (\<forall>pre l i post. schema_steps env schema mode publish previous = pre @ EnsureColumn l i # post \<longrightarrow>
       EnsureTable l \<in> set pre)"
proof (intro conjI allI impI)
  show "set (schema_steps env schema mode publish previous) =
    (\<Union>l \<in> (if uses_stage mode publish then {Target, Stage} else {Target}).
       {EnsureTable l} \<union> {EnsureColumn l i | i. i < length (sch_columns schema)} \<union>
       {EnsureWiden l i | i. i < length (sch_columns schema) \<and> widened previous (sch_columns schema ! i)})"
    by (cases "uses_stage mode publish")
      (simp_all add: schema_steps_def leg_steps_set [OF assms] Un_ac insert_commute)
qed (rule schema_steps_relation_first)

definition demo_schema :: table_schema where
  "demo_schema = \<lparr>sch_table = ''events'', sch_parent = None,
     sch_columns = [Column ''id'' (Scalar LInt64) False, Column ''day'' (Scalar LInt64) True]\<rparr>"

definition demo_schema_old :: table_schema where
  "demo_schema_old = \<lparr>sch_table = ''events'', sch_parent = None,
     sch_columns = [Column ''day'' (Scalar LUtf8) True]\<rparr>"

theorem schema_steps_spec_witness:
  "EnsureWiden Stage 1 \<in> set (schema_steps demo_env demo_schema (Merge [''id'']) DirectToTarget (Some demo_schema_old))"
  using schema_steps_spec [OF demo_env_ok, of demo_schema "Merge [''id'']" DirectToTarget "Some demo_schema_old"]
  by (simp add: uses_stage_def widened_def demo_schema_def demo_schema_old_def find_column_def)

section \<open>Phase 2\<close>

lemma merge_steps_Merge: "core_ok env \<Longrightarrow> merge_steps env o' schema (Merge key) = Inr steps \<longleftrightarrow>
    merge_config_ok o' (sch_table schema) key (facts_of env schema) \<and>
    steps = (if strategy_for o' (sch_table schema) = Scd2 then [EnsureValidity From, EnsureValidity To] else []) @
      map EnsureIndex (index_plan env o' (sch_table schema) key
        (has_identity (facts_of env schema)) (sch_parent schema \<noteq> None))"
  by (auto simp: merge_steps_def Let_def rbind_unit_eq_Inr validate_merge_ok_iff)

lemma merge_steps_other: "\<not> is_merge mode \<Longrightarrow> merge_steps env o' schema mode = Inr steps \<longleftrightarrow>
    steps = [] \<and> explicit_strategy_for o' (sch_table schema) = None \<and>
    dedup_sort_for o' (sch_table schema) = None \<and> merge_scope_for o' (sch_table schema) = None"
  by (cases mode) (auto simp: merge_steps_def Let_def rbind_unit_eq_Inr validate_non_merge_ok)

text \<open>The columns a table has once phase 1 and phase 2's validity steps have run.\<close>

definition ensured_columns :: "destination_options \<Rightarrow> table_schema \<Rightarrow> string set" where
  "ensured_columns o' schema = column_names schema \<union>
     (if strategy_for o' (sch_table schema) = Scd2
      then {valid_from (scd2_for o' (sch_table schema)), valid_to (scd2_for o' (sch_table schema))} else {})"


definition demo_upsert :: destination_options where
  "demo_upsert = options_default\<lparr>merge_strategy := Some Upsert\<rparr>"

lemma demo_merge_steps:
  "merge_steps demo_env demo_upsert demo_schema (Merge [''id'']) = Inr [EnsureIndex (unique_index [''id''])]"
  unfolding merge_steps_Merge [OF demo_env_ok]
  by (simp add: merge_config_ok_def demo_upsert_def options_default_def
      strategy_for_def explicit_strategy_for_def hard_delete_for_def dedup_sort_for_def merge_scope_for_def
      demo_schema_def column_names_def facts_of_def demo_env_def index_plan_def Let_def)


end
