(* ===== verification/Sql_Commit.thy ===== *)
theory Sql_Commit
  imports Sql_Ensure
begin

text \<open>
  The commit planner: \<^verbatim>\<open>sqlcore/src/protocol/step.rs\<close> (the step vocabulary),
  \<^verbatim>\<open>script.rs\<close> (\<open>plan_commit\<close>, \<open>prepare_target\<close>, \<open>staged_probe_targets\<close>) and
  \<^verbatim>\<open>unit.rs\<close> (the decisions every executor shares).
\<close>

section \<open>Steps\<close>

datatype merge_arm =
    KeyedDeleteInsert
  | KeyedUpsert
  | IdentityDeleteInsert
  | Scd2Arm scd2_options

datatype step =
    ClearTarget string
  | InsertSelect string
  | ScopeReplace string "string list"
  | MergeArm string merge_arm
  | TruncateStage string
  | UpsertState
  | InsertReceipt

record commit_context =
  replayed :: bool
  load_committed_before :: bool
  single_unit_done :: "string set"
  staged_nonempty :: "string set"
  full_load :: full_load_publish
  cleared_targets :: "string set"

definition ctx_uses_stage :: "commit_context \<Rightarrow> write_mode \<Rightarrow> bool" where
  "ctx_uses_stage ctx mode = uses_stage mode (full_load ctx)"

record commit_script =
  steps :: "step list"
  marks :: "string list"

datatype commit_error =
    SingleUnit string bool
  | ArmUnsupported string string

definition single_unit_violation :: "string \<Rightarrow> bool \<Rightarrow> string" where
  "single_unit_violation t scoped =
     (let what = (if scoped then ''merge_scope replacement'' else ''scd2 `absent: retire`'') in
      ''table '' @ bq t @ '': '' @ what @ '' requires the table's full '' @
      ''feed in a SINGLE commit unit '' @ em_dash @ '' '' @
      ''raise the engine commit thresholds and re-run; the '' @
      ''fixed configuration re-delivers the full feed and converges'')"

fun display_commit_error :: "commit_error \<Rightarrow> string" where
  "display_commit_error (SingleUnit t scoped) = single_unit_violation t scoped"
| "display_commit_error (ArmUnsupported t what) = ''table '' @ bq t @ '': '' @ what"

section \<open>Writing before the commit\<close>

definition prepare_target :: "write_mode session_tables \<Rightarrow> commit_context \<Rightarrow> string \<Rightarrow> step list" where
  "prepare_target tabs ctx t =
     (case map_of tabs t of
        None \<Rightarrow> []
      | Some (_, mode) \<Rightarrow>
          if ctx_uses_stage ctx mode \<or> mode \<noteq> Replace then []
          else if t \<in> cleared_targets ctx then []
          else [ClearTarget t])"

definition staged_probe_targets :: "write_mode session_tables \<Rightarrow> destination_options \<Rightarrow> string list" where
  "staged_probe_targets tabs o' =
     map fst (filter (\<lambda>(t, (_, mode)). is_merge mode \<and> full_feed (resolve o' t)) tabs)"

section \<open>The planner\<close>

datatype single_unit = SkipEmpty | Violation | Mark

definition check_single_unit :: "bool \<Rightarrow> bool \<Rightarrow> single_unit" where
  "check_single_unit already_done staged =
     (if \<not> staged then SkipEmpty else if already_done then Violation else Mark)"

fun select_arm ::
    "string \<Rightarrow> bool \<Rightarrow> merge_strategy \<Rightarrow> destination_options \<Rightarrow> (commit_error, merge_arm) result" where
  "select_arm t False DeleteInsert o' = Inr KeyedDeleteInsert"
| "select_arm t False Upsert o' = Inr KeyedUpsert"
| "select_arm t True DeleteInsert o' = Inr IdentityDeleteInsert"
| "select_arm t False Scd2 o' = Inr (Scd2Arm (scd2_for o' t))"
| "select_arm t True Upsert o' = Inl (ArmUnsupported t ''upsert on a shredded stream'')"
| "select_arm t True Scd2 o' = Inl (ArmUnsupported t ''scd2 on a shredded stream'')"

text \<open>The merge branch of the publish loop: the steps and marks one merge table adds.\<close>

definition publish_merge ::
    "destination_options \<Rightarrow> commit_context \<Rightarrow> string \<Rightarrow> bool \<Rightarrow> (commit_error, step list \<times> string list) result" where
  "publish_merge o' ctx t identity =
     (let mc = resolve o' t;
          arm_steps = (\<lambda>ms.
            rbind (select_arm t identity (mc_strategy mc) o') (\<lambda>arm.
              Inr ((case mc_scoped mc of
                      Some scope \<Rightarrow> if mc_strategy mc \<noteq> Scd2 then [ScopeReplace t scope] else []
                    | None \<Rightarrow> []) @ [MergeArm t arm], ms))) in
      if full_feed mc
      then (case check_single_unit (t \<in> single_unit_done ctx) (t \<in> staged_nonempty ctx) of
              SkipEmpty \<Rightarrow> Inr ([], [])
            | Violation \<Rightarrow> Inl (SingleUnit t (mc_scoped mc \<noteq> None \<and> \<not> mc_retire mc))
            | Mark \<Rightarrow> arm_steps [t])
      else arm_steps [])"

text \<open>One iteration of the publish loop.\<close>

definition publish_table ::
    "'x core_env_scheme \<Rightarrow> destination_options \<Rightarrow> commit_context \<Rightarrow> string \<times> table_schema \<times> write_mode \<Rightarrow>
     (commit_error, step list \<times> string list) result" where
  "publish_table env o' ctx entry =
     (case entry of (t, schema, mode) \<Rightarrow>
       let identity = has_identity (facts_of env schema) in
       case mode of
         Append \<Rightarrow> Inr (if \<not> ctx_uses_stage ctx mode then [] else [InsertSelect t], [])
       | Replace \<Rightarrow>
           Inr (if \<not> ctx_uses_stage ctx mode then []
                else (if \<not> load_committed_before ctx then [ClearTarget t] else []) @ [InsertSelect t], [])
       | Merge _ \<Rightarrow> publish_merge o' ctx t identity)"

fun publish_loop ::
    "'x core_env_scheme \<Rightarrow> destination_options \<Rightarrow> commit_context \<Rightarrow> write_mode session_tables \<Rightarrow>
     (commit_error, step list \<times> string list) result" where
  "publish_loop env o' ctx [] = Inr ([], [])"
| "publish_loop env o' ctx (e # es) =
     rbind (publish_table env o' ctx e) (\<lambda>(ss, ms).
     rbind (publish_loop env o' ctx es) (\<lambda>(ss', ms').
       Inr (ss @ ss', ms @ ms')))"

definition truncate_steps :: "commit_context \<Rightarrow> write_mode session_tables \<Rightarrow> step list" where
  "truncate_steps ctx tabs =
     map (\<lambda>(t, _). TruncateStage t) (filter (\<lambda>(_, (_, mode)). ctx_uses_stage ctx mode) tabs)"

definition replay_marks :: "destination_options \<Rightarrow> commit_context \<Rightarrow> write_mode session_tables \<Rightarrow> string list" where
  "replay_marks o' ctx tabs =
     map fst (filter (\<lambda>(t, (_, mode)). is_merge mode \<and> full_feed (resolve o' t) \<and>
       t \<notin> single_unit_done ctx \<and> t \<in> staged_nonempty ctx) tabs)"

definition plan_commit ::
    "'x core_env_scheme \<Rightarrow> write_mode session_tables \<Rightarrow> destination_options \<Rightarrow> commit_context \<Rightarrow>
     (commit_error, commit_script) result" where
  "plan_commit env tabs o' ctx =
     (if replayed ctx
      then Inr \<lparr>steps = truncate_steps ctx tabs, marks = replay_marks o' ctx tabs\<rparr>
      else rbind (publish_loop env o' ctx tabs) (\<lambda>(ss, ms).
        Inr \<lparr>steps = ss @ truncate_steps ctx tabs @ [UpsertState, InsertReceipt], marks = ms\<rparr>))"

section \<open>unit.rs\<close>

datatype replay_outcome = DiscardUnit | RunScript

fun replay_disposition :: "full_load_publish \<Rightarrow> replay_outcome" where
  "replay_disposition DirectToTarget = DiscardUnit"
| "replay_disposition Staged = RunScript"

definition receipt_exists_sql :: "(nat \<Rightarrow> string) \<Rightarrow> string" where
  "receipt_exists_sql ph =
     ''SELECT count(*) FROM '' @ COMMITS_TABLE @ '' WHERE load_id = '' @ ph 1 @ '' AND commit_seq = '' @ ph 2"

definition load_committed_sql :: "(nat \<Rightarrow> string) \<Rightarrow> string" where
  "load_committed_sql ph = ''SELECT count(*) FROM '' @ COMMITS_TABLE @ '' WHERE load_id = '' @ ph 1"

definition stage_nonempty_sql :: "string \<Rightarrow> string" where
  "stage_nonempty_sql quoted_stage = ''SELECT EXISTS (SELECT 1 FROM '' @ quoted_stage @ '')''"

definition roots_of :: "'v session_tables \<Rightarrow> (string \<times> string) list" where
  "roots_of tabs = map (\<lambda>(t, _). (t, root_of tabs t)) tabs"

definition load_mismatch :: "string \<Rightarrow> string \<Rightarrow> string option" where
  "load_mismatch session meta =
     (if session \<noteq> meta
      then Some (''session was opened for load '' @ bq session @ '' but is committing load '' @ bq meta)
      else None)"

section \<open>Shape of the script\<close>

fun step_target :: "step \<Rightarrow> string option" where
  "step_target (ClearTarget t) = Some t"
| "step_target (InsertSelect t) = Some t"
| "step_target (ScopeReplace t _) = Some t"
| "step_target (MergeArm t _) = Some t"
| "step_target (TruncateStage t) = None"
| "step_target UpsertState = None"
| "step_target InsertReceipt = None"

text \<open>
  The stages a step reads: the table's own and, for an identity arm, the one of the root the
  table hangs off (\<^verbatim>\<open>root_stage_sql\<close> of \<^verbatim>\<open>render.rs\<close>; \<open>Sql_Arms.render_arm_root_stage\<close> shows
  that no other arm's text mentions it).
\<close>

fun step_reads :: "'v session_tables \<Rightarrow> step \<Rightarrow> string set" where
  "step_reads tabs (InsertSelect t) = {t}"
| "step_reads tabs (ScopeReplace t _) = {t}"
| "step_reads tabs (MergeArm t arm) = (if arm = IdentityDeleteInsert then {t, root_of tabs t} else {t})"
| "step_reads tabs _ = {}"

text \<open>
  The engine ensures a stream's tables together: the root of every merge table is a table of
  the session, and one with a stage.
\<close>

definition rooted :: "commit_context \<Rightarrow> write_mode session_tables \<Rightarrow> bool" where
  "rooted ctx tabs \<longleftrightarrow> (\<forall>(t, _, mode) \<in> set tabs. is_merge mode \<longrightarrow>
     (\<exists>schema' mode'. (root_of tabs t, schema', mode') \<in> set tabs \<and> ctx_uses_stage ctx mode'))"

lemma publish_merge_steps:
  assumes "publish_merge o' ctx t i = Inr (ss, ms)"
  shows "\<forall>s \<in> set ss. (\<exists>arm. s = MergeArm t arm) \<or> (\<exists>scope. s = ScopeReplace t scope)"
    and "set ms \<subseteq> {t}"
  using assms
  by (auto simp: publish_merge_def Let_def rbind_eq_Inr split: if_splits single_unit.splits option.splits)

lemma publish_table_steps:
  assumes "publish_table env o' ctx (t, schema, mode) = Inr (ss, ms)" and "s \<in> set ss"
  shows "step_target s = Some t" and "ctx_uses_stage ctx mode"
    and "s = ClearTarget t \<Longrightarrow> mode = Replace \<and> \<not> load_committed_before ctx"
    and "s = MergeArm t arm \<or> s = ScopeReplace t scope \<Longrightarrow> is_merge mode"
  using assms publish_merge_steps(1) [of o' ctx t]
  by (auto simp: publish_table_def Let_def ctx_uses_stage_def uses_stage_def
      split: write_mode.splits if_splits; fastforce)+

lemma publish_loop_in:
  assumes "publish_loop env o' ctx tabs = Inr (ss, ms)"
  shows "s \<in> set ss \<longleftrightarrow> (\<exists>e \<in> set tabs. \<exists>ss' ms'. publish_table env o' ctx e = Inr (ss', ms') \<and> s \<in> set ss')"
    and "t \<in> set ms \<longleftrightarrow> (\<exists>e \<in> set tabs. \<exists>ss' ms'. publish_table env o' ctx e = Inr (ss', ms') \<and> t \<in> set ms')"
  using assms
  by (induction tabs arbitrary: ss ms) (fastforce simp: rbind_eq_Inr)+

lemma truncate_steps_iff: "s \<in> set (truncate_steps ctx tabs) \<longleftrightarrow>
    (\<exists>t schema mode. (t, schema, mode) \<in> set tabs \<and> ctx_uses_stage ctx mode \<and> s = TruncateStage t)"
  by (force simp: truncate_steps_def)

lemma plan_commit_fresh:
  assumes "\<not> replayed ctx"
  shows "plan_commit env tabs o' ctx = Inr script \<longleftrightarrow>
    (\<exists>ss. publish_loop env o' ctx tabs = Inr (ss, marks script) \<and>
       script = \<lparr>steps = ss @ truncate_steps ctx tabs @ [UpsertState, InsertReceipt], marks = marks script\<rparr>)"
  using assms by (cases script) (auto simp: plan_commit_def rbind_eq_Inr)

lemma publish_loop_step:
  assumes "publish_loop env o' ctx tabs = Inr (ss, ms)" and "s \<in> set ss"
  obtains t schema mode ss' ms' where
    "(t, schema, mode) \<in> set tabs" "publish_table env o' ctx (t, schema, mode) = Inr (ss', ms')" "s \<in> set ss'"
  using assms publish_loop_in(1) [OF assms(1), of s] by auto

lemma publish_loop_all:
  "publish_loop env o' ctx tabs = Inr r \<Longrightarrow> e \<in> set tabs \<Longrightarrow> \<exists>p. publish_table env o' ctx e = Inr p"
  by (induction tabs arbitrary: r) (auto simp: rbind_eq_Inr)

lemma fresh_shape:
  assumes "\<not> replayed ctx" and "plan_commit env tabs o' ctx = Inr script"
  shows "\<exists>pub. steps script = pub @ truncate_steps ctx tabs @ [UpsertState, InsertReceipt] \<and>
    (\<forall>s \<in> set pub. \<exists>t schema mode. step_target s = Some t \<and> (t, schema, mode) \<in> set tabs \<and>
       ctx_uses_stage ctx mode \<and> (\<forall>arm. s = MergeArm t arm \<longrightarrow> is_merge mode))"
proof -
  from assms obtain ss ms where ss: "publish_loop env o' ctx tabs = Inr (ss, ms)"
    and st: "steps script = ss @ truncate_steps ctx tabs @ [UpsertState, InsertReceipt]"
    by (auto simp: plan_commit_def rbind_eq_Inr)
  have "\<exists>t schema mode. step_target s = Some t \<and> (t, schema, mode) \<in> set tabs \<and>
       ctx_uses_stage ctx mode \<and> (\<forall>arm. s = MergeArm t arm \<longrightarrow> is_merge mode)" if in_ss: "s \<in> set ss" for s
  proof -
    obtain t schema mode ss' ms' where e: "(t, schema, mode) \<in> set tabs"
      "publish_table env o' ctx (t, schema, mode) = Inr (ss', ms')" "s \<in> set ss'"
      by (rule publish_loop_step [OF ss in_ss])
    with publish_table_steps [OF e(2,3)] show ?thesis by blast
  qed
  with st show ?thesis by auto
qed

text \<open>A stage a publishing step reads belongs to a staged table of the session.\<close>

lemma reads_staged:
  assumes "rooted ctx tabs" and "(t, schema, mode) \<in> set tabs" and "ctx_uses_stage ctx mode"
    and "step_target s = Some t" and "\<forall>arm. s = MergeArm t arm \<longrightarrow> is_merge mode" and "r \<in> step_reads tabs s"
  shows "\<exists>schema' mode'. (r, schema', mode') \<in> set tabs \<and> ctx_uses_stage ctx mode'"
  using assms by (cases s) (fastforce simp: rooted_def split: if_splits)+

lemma truncate_not_published: "step_target s = Some t \<Longrightarrow> s \<notin> set (truncate_steps ctx tabs) \<and> s \<noteq> UpsertState \<and> s \<noteq> InsertReceipt"
  by (auto simp: truncate_steps_iff)

lemma ends_split:
  "xs @ [a, b] = pre @ s # post \<Longrightarrow> a \<notin> set xs \<Longrightarrow> b \<notin> set xs \<Longrightarrow> a \<noteq> b \<Longrightarrow>
   (s = a \<longrightarrow> post = [b]) \<and> (s = b \<longrightarrow> post = [])"
proof (induction pre arbitrary: xs)
  case Nil
  then show ?case by (cases xs) auto
next
  case (Cons x pre)
  then show ?case by (cases xs; cases pre) auto
qed

lemma split_front: "xs @ ys = pre @ s # post \<Longrightarrow> s \<notin> set ys \<Longrightarrow> \<exists>xs'. xs = pre @ s # xs' \<and> post = xs' @ ys"
proof (induction pre arbitrary: xs)
  case Nil
  then show ?case by (cases xs) auto
next
  case (Cons x pre)
  then show ?case by (cases xs) auto
qed

lemma split_back: "xs @ ys = pre @ s # post \<Longrightarrow> s \<notin> set xs \<Longrightarrow> \<exists>pre'. pre = xs @ pre' \<and> ys = pre' @ s # post"
proof (induction xs arbitrary: pre)
  case (Cons x xs)
  then show ?case by (cases pre) auto
qed simp

text \<open>
  C10. Ordering of a fresh unit's script. At every position of it: a step that reads a stage (a
  child's identity arm reads the ROOT's stage beside its own) finds it not yet truncated,
  and its truncation follows; after a truncation nothing is published any more; the state
  row is the last step but one and the receipt the last. Both are there. Every child's root
  is taken to be a staged table of the session.
\<close>

theorem plan_commit_fresh_shape:
  assumes "\<not> replayed ctx" and "plan_commit env tabs o' ctx = Inr script" and "rooted ctx tabs"
  shows "{UpsertState, InsertReceipt} \<subseteq> set (steps script) \<and>
    (\<forall>pre s post. steps script = pre @ s # post \<longrightarrow>
      (\<forall>r \<in> step_reads tabs s. TruncateStage r \<notin> set pre \<and> TruncateStage r \<in> set post) \<and>
      (\<forall>t. s = TruncateStage t \<longrightarrow> (\<forall>s' \<in> set post. step_target s' = None)) \<and>
      (s = UpsertState \<longrightarrow> post = [InsertReceipt]) \<and> (s = InsertReceipt \<longrightarrow> post = []))"
proof -
  let ?tail = "truncate_steps ctx tabs @ [UpsertState, InsertReceipt]"
  obtain pub where st: "steps script = pub @ ?tail"
    and pub: "\<forall>s \<in> set pub. \<exists>t schema mode. step_target s = Some t \<and> (t, schema, mode) \<in> set tabs \<and>
       ctx_uses_stage ctx mode \<and> (\<forall>arm. s = MergeArm t arm \<longrightarrow> is_merge mode)"
    using fresh_shape [OF assms(1,2)] by blast
  have tail_ends: "(s = UpsertState \<longrightarrow> post = [InsertReceipt]) \<and> (s = InsertReceipt \<longrightarrow> post = [])"
    if "?tail = pre @ s # post" for pre s post
    by (rule ends_split [OF that]) (auto simp: truncate_steps_iff)
  have tail: "s' \<in> set ?tail \<Longrightarrow> step_target s' = None \<and> step_reads tabs s' = {}" for s'
    by (auto simp: truncate_steps_iff)
  have "(\<forall>r \<in> step_reads tabs s. TruncateStage r \<notin> set pre \<and> TruncateStage r \<in> set post) \<and>
      (\<forall>t. s = TruncateStage t \<longrightarrow> (\<forall>s' \<in> set post. step_target s' = None)) \<and>
      (s = UpsertState \<longrightarrow> post = [InsertReceipt]) \<and> (s = InsertReceipt \<longrightarrow> post = [])"
    if at: "steps script = pre @ s # post" for pre s post
  proof (cases "s \<in> set pub")
    case True
    then obtain t schema mode where t: "step_target s = Some t" "(t, schema, mode) \<in> set tabs" "ctx_uses_stage ctx mode"
      "\<forall>arm. s = MergeArm t arm \<longrightarrow> is_merge mode"
      using pub by blast
    then have "s \<notin> set ?tail" using truncate_not_published by fastforce
    with at st obtain pub' where split: "pub = pre @ s # pub'" "post = pub' @ ?tail"
      using split_front [of pub ?tail pre s post] by auto
    have "TruncateStage r \<notin> set pre" for r
      using pub split(1) by (metis Un_iff option.distinct(1) set_append step_target.simps(5))
    moreover have "TruncateStage r \<in> set post" if "r \<in> step_reads tabs s" for r
      using reads_staged [OF assms(3) t(2,3,1,4) that] split(2) by (auto simp: truncate_steps_iff)
    ultimately show ?thesis using t(1) by (cases s) auto
  next
    case False
    then have "s \<in> set ?tail" using at st by (metis in_set_conv_decomp set_append UnE)
    from False at st obtain pre' where split: "pre = pub @ pre'" "?tail = pre' @ s # post"
      using split_back [of pub ?tail pre s post] by auto
    have "\<forall>s' \<in> set post. step_target s' = None" using tail split(2) by (metis UnCI list.set_intros(2) set_append)
    moreover have "step_reads tabs s = {}" using tail \<open>s \<in> set ?tail\<close> by blast
    moreover have "(s = UpsertState \<longrightarrow> post = [InsertReceipt]) \<and> (s = InsertReceipt \<longrightarrow> post = [])"
      using tail_ends split(2) by blast
    ultimately show ?thesis by blast
  qed
  with st show ?thesis by auto
qed

definition demo_ctx :: commit_context where
  "demo_ctx = \<lparr>replayed = False, load_committed_before = False, single_unit_done = {},
     staged_nonempty = {}, full_load = Staged, cleared_targets = {}\<rparr>"

definition demo_tables :: "write_mode session_tables" where
  "demo_tables = [(''events'', (demo_schema, Replace))]"

lemma demo_plan: "plan_commit demo_env demo_tables options_default demo_ctx =
    Inr \<lparr>steps = [ClearTarget ''events'', InsertSelect ''events'', TruncateStage ''events'', UpsertState, InsertReceipt],
         marks = []\<rparr>"
  by (simp add: plan_commit_def demo_tables_def demo_ctx_def publish_table_def ctx_uses_stage_def
      uses_stage_def truncate_steps_def)

definition demo_family :: "write_mode session_tables" where
  "demo_family =
     [(''a'', (demo_schema\<lparr>sch_table := ''a'', sch_columns := [Column ''_rdlt_id'' (Scalar LUtf8) True]\<rparr>, Merge [])),
      (''a__b'', (\<lparr>sch_table = ''a__b'', sch_parent = Some \<lparr>link_parent = ''a'', link_depth = 1\<rparr>,
         sch_columns = [Column ''_rdlt_id'' (Scalar LUtf8) True]\<rparr>, Merge []))]"

lemma demo_family_roots [simp]: "root_of demo_family ''a'' = ''a''" "root_of demo_family ''a__b'' = ''a''"
  by (simp_all add: root_of_def ROOT_DEPTH_BOUND_def eval_nat_numeral demo_family_def demo_schema_def parent_of_def)

lemma demo_family_plan: "plan_commit demo_env demo_family options_default demo_ctx =
    Inr \<lparr>steps = [MergeArm ''a'' IdentityDeleteInsert, MergeArm ''a__b'' IdentityDeleteInsert,
       TruncateStage ''a'', TruncateStage ''a__b'', UpsertState, InsertReceipt], marks = []\<rparr>"
  by (simp add: plan_commit_def demo_family_def demo_ctx_def publish_table_def publish_merge_def Let_def full_feed_def
      resolve_def options_default_def strategy_for_def explicit_strategy_for_def merge_scope_for_def scd2_for_def
      ctx_uses_stage_def uses_stage_def truncate_steps_def facts_of_def demo_env_def)

lemma demo_family_rooted: "rooted demo_ctx demo_family"
proof -
  have "root_of demo_family t = ''a''" if "(t, s, m) \<in> set demo_family" for t s m
  proof -
    have "t = ''a'' \<or> t = ''a__b''" using that by (auto simp: demo_family_def)
    then show ?thesis by auto
  qed
  moreover have "\<exists>s. (''a'', s, Merge []) \<in> set demo_family" by (simp add: demo_family_def)
  ultimately show ?thesis by (fastforce simp: rooted_def ctx_uses_stage_def uses_stage_def)
qed

theorem plan_commit_fresh_shape_witness:
  "step_reads demo_family (MergeArm ''a__b'' IdentityDeleteInsert) = {''a'', ''a__b''} \<and>
   TruncateStage ''a'' \<in> set [TruncateStage ''a'', TruncateStage ''a__b'', UpsertState, InsertReceipt]"
proof -
  have fresh: "\<not> replayed demo_ctx" by (simp add: demo_ctx_def)
  have at: "steps \<lparr>steps = [MergeArm ''a'' IdentityDeleteInsert, MergeArm ''a__b'' IdentityDeleteInsert,
       TruncateStage ''a'', TruncateStage ''a__b'', UpsertState, InsertReceipt], marks = []\<rparr> =
      [MergeArm ''a'' IdentityDeleteInsert] @ MergeArm ''a__b'' IdentityDeleteInsert #
      [TruncateStage ''a'', TruncateStage ''a__b'', UpsertState, InsertReceipt]" by simp
  from plan_commit_fresh_shape [OF fresh demo_family_plan demo_family_rooted, THEN conjunct2, rule_format, OF at]
  show ?thesis by auto
qed

text \<open>
  A redelivered unit plans without error, and its program is the truncation of exactly the
  staged tables: no target, state or receipt step. It marks exactly the full-feed tables
  the first delivery published, provided their redelivered stage is non-empty.
\<close>

theorem plan_commit_replay:
  assumes "replayed ctx"
  shows "\<exists>script. plan_commit env tabs o' ctx = Inr script \<and>
    steps script = map TruncateStage (map fst (filter (\<lambda>(_, (_, mode)). ctx_uses_stage ctx mode) tabs)) \<and>
    (\<forall>t. t \<in> set (marks script) \<longleftrightarrow>
       t \<in> set (staged_probe_targets tabs o') \<and> t \<in> staged_nonempty ctx \<and> t \<notin> single_unit_done ctx)"
  using assms
  by (force simp: plan_commit_def truncate_steps_def replay_marks_def staged_probe_targets_def)

theorem plan_commit_replay_witness:
  "\<exists>script. plan_commit demo_env demo_tables options_default (demo_ctx\<lparr>replayed := True\<rparr>) = Inr script \<and>
     steps script = [TruncateStage ''events'']"
  using plan_commit_replay [of "demo_ctx\<lparr>replayed := True\<rparr>" demo_env demo_tables options_default]
  by (auto simp: demo_tables_def ctx_uses_stage_def uses_stage_def demo_ctx_def)

section \<open>The single-unit discipline\<close>

lemma publish_table_full_feed:
  assumes "publish_table env o' ctx (t, schema, Merge key) = Inr (ss, ms)" and "full_feed (resolve o' t)"
  shows "ss \<noteq> [] \<Longrightarrow> ms = [t] \<and> t \<in> staged_nonempty ctx \<and> t \<notin> single_unit_done ctx"
    and "ss = [] \<Longrightarrow> ms = [] \<and> t \<notin> staged_nonempty ctx"
  using assms
  by (auto simp: publish_table_def publish_merge_def Let_def check_single_unit_def rbind_eq_Inr split: if_splits)

text \<open>
  What one script says of a full-feed merge table: it is merged only from a non-empty stage,
  only if no earlier unit of the session has marked it, and then the script marks it.
\<close>

definition merges :: "string \<Rightarrow> commit_script \<Rightarrow> bool" where
  "merges t script \<longleftrightarrow> (\<exists>s \<in> set (steps script). (\<exists>arm. s = MergeArm t arm) \<or> (\<exists>scope. s = ScopeReplace t scope))"

lemma full_feed_merged:
  assumes "plan_commit env tabs o' ctx = Inr script" and "merges t script" and "full_feed (resolve o' t)"
  shows "t \<in> staged_nonempty ctx \<and> t \<notin> single_unit_done ctx \<and> t \<in> set (marks script)"
proof -
  obtain s where s: "s \<in> set (steps script)" "(\<exists>arm. s = MergeArm t arm) \<or> (\<exists>scope. s = ScopeReplace t scope)"
    using assms(2) unfolding merges_def by blast
  have "\<not> replayed ctx" using assms(1) s by (auto simp: plan_commit_def truncate_steps_iff)
  then obtain ss where ss: "publish_loop env o' ctx tabs = Inr (ss, marks script)"
    and st: "steps script = ss @ truncate_steps ctx tabs @ [UpsertState, InsertReceipt]"
    using assms(1) by (auto simp: plan_commit_def rbind_eq_Inr)
  have "s \<in> set ss" using s by (auto simp: st truncate_steps_iff)
  then obtain u schema mode ss' ms' where e: "(u, schema, mode) \<in> set tabs"
    "publish_table env o' ctx (u, schema, mode) = Inr (ss', ms')" "s \<in> set ss'"
    by (rule publish_loop_step [OF ss])
  have "u = t" using publish_table_steps(1) [OF e(2,3)] s(2) by auto
  then have "is_merge mode" using publish_table_steps(4) [OF e(2,3)] s(2) by blast
  then obtain key where mode: "mode = Merge key" by (cases mode) auto
  have "ss' \<noteq> []" using e(3) by auto
  with e(2) assms(3) mode \<open>u = t\<close> have full: "ms' = [t] \<and> t \<in> staged_nonempty ctx \<and> t \<notin> single_unit_done ctx"
    by (intro publish_table_full_feed(1) [of env o' ctx t schema key ss' ms']) simp_all
  moreover have "t \<in> set (marks script)"
    unfolding publish_loop_in(2) [OF ss] using e full by force
  ultimately show ?thesis using full by blast
qed

definition demo_scope :: destination_options where
  "demo_scope = options_default\<lparr>tables := [(''events'', table_default\<lparr>t_merge_scope := Some [''day'']\<rparr>)]\<rparr>"

definition demo_merge_tables :: "write_mode session_tables" where
  "demo_merge_tables = [(''events'', (demo_schema, Merge [''id'']))]"

lemma demo_scope_simps [simp]:
  "strategy_for demo_scope ''events'' = DeleteInsert"
  "merge_scope_for demo_scope ''events'' = Some [''day'']"
  "hard_delete_for demo_scope ''events'' = None"
  "dedup_sort_for demo_scope ''events'' = None"
  by (simp_all add: demo_scope_def options_default_def table_default_def strategy_for_def
      explicit_strategy_for_def merge_scope_for_def hard_delete_for_def dedup_sort_for_def)

lemma demo_identity [simp]: "\<not> has_identity (facts_of demo_env demo_schema)"
  by (simp add: facts_of_def demo_schema_def demo_env_def)

lemma demo_scope_plan:
  "plan_commit demo_env demo_merge_tables demo_scope (demo_ctx\<lparr>staged_nonempty := {''events''}\<rparr>) =
   Inr \<lparr>steps = [ScopeReplace ''events'' [''day''], MergeArm ''events'' KeyedDeleteInsert,
                   TruncateStage ''events'', UpsertState, InsertReceipt],
        marks = [''events'']\<rparr>"
  by (simp add: plan_commit_def demo_merge_tables_def demo_ctx_def publish_table_def publish_merge_def Let_def
      full_feed_def check_single_unit_def ctx_uses_stage_def uses_stage_def truncate_steps_def)

section \<open>What a validated session can still fail with\<close>

lemma publish_loop_error:
  "publish_loop env o' ctx tabs = Inl e \<Longrightarrow> \<exists>x \<in> set tabs. publish_table env o' ctx x = Inl e"
  by (induction tabs) (auto simp: rbind_eq_Inl)

text \<open>
  C37. When every table passed \<open>ensure\<close>, planning can fail in one way only: a full-feed
  table staging rows again in a load that has already published it. The error names the
  rule that fired: the scope replacement unless the strategy is scd2.
\<close>

theorem ensured_plan_fails_only_single_unit:
  assumes "core_ok env"
    and "\<forall>(t, schema, mode) \<in> set tabs. t = sch_table schema \<and> (\<exists>ss. merge_steps env o' schema mode = Inr ss)"
    and "plan_commit env tabs o' ctx = Inl e"
  shows "\<exists>t. e = SingleUnit t (strategy_for o' t \<noteq> Scd2) \<and> full_feed (resolve o' t) \<and>
    t \<in> single_unit_done ctx \<and> t \<in> staged_nonempty ctx"
proof -
  have "\<not> replayed ctx" and "publish_loop env o' ctx tabs = Inl e"
    using assms(3) by (auto simp: plan_commit_def rbind_eq_Inl split: if_splits)
  then obtain t schema mode where x: "(t, schema, mode) \<in> set tabs"
    and err: "publish_table env o' ctx (t, schema, mode) = Inl e"
    using publish_loop_error by (metis prod_cases3)
  from err obtain key where mode: "mode = Merge key"
    and pm: "publish_merge o' ctx t (has_identity (facts_of env schema)) = Inl e"
    by (auto simp: publish_table_def Let_def split: write_mode.splits)
  from x assms(2) mode obtain ss where "t = sch_table schema" "merge_steps env o' schema (Merge key) = Inr ss"
    by auto
  then have ok: "merge_config_ok o' t key (facts_of env schema)"
    using merge_steps_Merge [OF assms(1)] by auto
  then have arm: "\<exists>arm. select_arm t (has_identity (facts_of env schema)) (strategy_for o' t) o' = Inr arm"
    by (cases "has_identity (facts_of env schema)"; cases "strategy_for o' t")
      (auto simp: merge_config_ok_def)
  have scoped: "merge_scope_for o' t \<noteq> None \<and> \<not> (strategy_for o' t = Scd2 \<and> absent (scd2_for o' t) = Retire)
      \<longleftrightarrow> strategy_for o' t \<noteq> Scd2" if "full_feed (resolve o' t)"
    using that ok by (auto simp: full_feed_iff merge_config_ok_def)
  show ?thesis
    using pm arm scoped
    by (auto simp: publish_merge_def check_single_unit_def Let_def rbind_eq_Inl split: if_splits)
qed

theorem ensured_plan_fails_only_single_unit_witness:
  "plan_commit demo_env demo_merge_tables demo_scope
     (demo_ctx\<lparr>staged_nonempty := {''events''}, single_unit_done := {''events''}\<rparr>) = Inl (SingleUnit ''events'' True) \<and>
   full_feed (resolve demo_scope ''events'')"
proof -
  let ?ctx = "demo_ctx\<lparr>staged_nonempty := {''events''}, single_unit_done := {''events''}\<rparr>"
  have p: "plan_commit demo_env demo_merge_tables demo_scope ?ctx = Inl (SingleUnit ''events'' True)"
    by (simp add: plan_commit_def demo_merge_tables_def demo_ctx_def publish_table_def publish_merge_def Let_def
      full_feed_def check_single_unit_def)
  have v: "\<forall>(t, schema, mode) \<in> set demo_merge_tables. t = sch_table schema \<and>
      (\<exists>ss. merge_steps demo_env demo_scope schema mode = Inr ss)"
    unfolding demo_merge_tables_def
    by (simp add: merge_steps_Merge [OF demo_env_ok] merge_config_ok_def Let_def)
      (simp add: demo_schema_def column_names_def)
  show ?thesis using ensured_plan_fails_only_single_unit [OF demo_env_ok v p] p by auto
qed

section \<open>Agreement with the ensure planner\<close>

text \<open>
  C38. The two planners agree on which tables have a stage. The commit script of a fresh unit
  truncates the stage of a table iff phase 1 of ensure creates one for it; and every stage a
  step reads, a child's root's included, is one that phase 1 creates for a table of the
  session, whatever that table's previous schema. Every child's root is taken to be a
  staged table of the session.
\<close>

theorem plan_and_ensure_agree:
  assumes "core_ok env" and "distinct (map fst tabs)" and "\<not> replayed ctx" and "rooted ctx tabs"
    and "plan_commit env tabs o' ctx = Inr script"
  shows "((t, schema, mode) \<in> set tabs \<longrightarrow> (TruncateStage t \<in> set (steps script) \<longleftrightarrow>
      EnsureTable Stage \<in> set (schema_steps env schema mode (full_load ctx) previous))) \<and>
    (s \<in> set (steps script) \<and> r \<in> step_reads tabs s \<longrightarrow> (\<exists>schema' mode'. (r, schema', mode') \<in> set tabs \<and>
      (\<forall>previous'. EnsureTable Stage \<in> set (schema_steps env schema' mode' (full_load ctx) previous'))))"
proof -
  have stage: "EnsureTable Stage \<in> set (schema_steps env schema mode (full_load ctx) previous) \<longleftrightarrow>
      ctx_uses_stage ctx mode" for schema mode previous
    using schema_steps_table [OF assms(1), of Stage schema mode "full_load ctx" previous] by (auto simp: ctx_uses_stage_def)
  obtain pub where st: "steps script = pub @ truncate_steps ctx tabs @ [UpsertState, InsertReceipt]"
    and pub: "\<forall>s \<in> set pub. \<exists>t schema mode. step_target s = Some t \<and> (t, schema, mode) \<in> set tabs \<and>
       ctx_uses_stage ctx mode \<and> (\<forall>arm. s = MergeArm t arm \<longrightarrow> is_merge mode)"
    using fresh_shape [OF assms(3,5)] by blast
  have "TruncateStage t \<in> set (steps script) \<longleftrightarrow> ctx_uses_stage ctx mode" if "(t, schema, mode) \<in> set tabs"
  proof -
    have uniq: "(t, schema', mode') \<in> set tabs \<Longrightarrow> mode' = mode" for schema' mode'
      using assms(2) that by (metis eq_key_imp_eq_value prod.inject)
    have "TruncateStage t \<notin> set pub" using pub by (metis step_target.simps(5) option.distinct(1))
    then have "TruncateStage t \<in> set (steps script) \<longleftrightarrow> TruncateStage t \<in> set (truncate_steps ctx tabs)"
      by (simp add: st)
    also have "\<dots> \<longleftrightarrow> ctx_uses_stage ctx mode"
      unfolding truncate_steps_iff using that uniq by blast
    finally show ?thesis .
  qed
  moreover have "\<exists>schema' mode'. (r, schema', mode') \<in> set tabs \<and> ctx_uses_stage ctx mode'"
    if s: "s \<in> set (steps script)" "r \<in> step_reads tabs s"
  proof -
    have "s \<in> set pub" using s by (auto simp: st truncate_steps_iff)
    with pub obtain t schema mode where "step_target s = Some t" "(t, schema, mode) \<in> set tabs"
      "ctx_uses_stage ctx mode" "\<forall>arm. s = MergeArm t arm \<longrightarrow> is_merge mode" by blast
    with reads_staged [OF assms(4) this(2,3,1,4) s(2)] show ?thesis by blast
  qed
  ultimately show ?thesis using stage by blast
qed

theorem plan_and_ensure_agree_witness:
  "\<exists>schema' mode'. (''a'', schema', mode') \<in> set demo_family \<and>
     EnsureTable Stage \<in> set (schema_steps demo_env schema' mode' Staged None)"
proof -
  have d: "distinct (map fst demo_family)" and f: "\<not> replayed demo_ctx"
    by (simp_all add: demo_family_def demo_ctx_def)
  have s: "MergeArm ''a__b'' IdentityDeleteInsert \<in> set (steps \<lparr>steps = [MergeArm ''a'' IdentityDeleteInsert,
      MergeArm ''a__b'' IdentityDeleteInsert, TruncateStage ''a'', TruncateStage ''a__b'', UpsertState, InsertReceipt],
      marks = []\<rparr>) \<and> ''a'' \<in> step_reads demo_family (MergeArm ''a__b'' IdentityDeleteInsert)" by simp
  from plan_and_ensure_agree [OF demo_env_ok d f demo_family_rooted demo_family_plan, THEN conjunct2, rule_format, OF s]
  show ?thesis by (auto simp: demo_ctx_def)
qed

section \<open>The probes\<close>

lemma publish_table_probes:
  assumes "e \<in> set tabs"
  shows "publish_table env o' (ctx\<lparr>staged_nonempty := staged_nonempty ctx \<inter> set (staged_probe_targets tabs o')\<rparr>) e =
    publish_table env o' ctx e"
proof -
  obtain t schema mode where e: "e = (t, schema, mode)" by (metis prod_cases3)
  show ?thesis
  proof (cases "is_merge mode \<and> full_feed (resolve o' t)")
    case True
    then have "t \<in> set (staged_probe_targets tabs o')"
      using assms e by (force simp: staged_probe_targets_def)
    then show ?thesis
      by (simp add: e publish_table_def publish_merge_def Let_def ctx_uses_stage_def split: write_mode.splits)
  next
    case False
    then show ?thesis
      by (cases mode) (simp_all add: e publish_table_def publish_merge_def Let_def ctx_uses_stage_def)
  qed
qed

lemma publish_loop_cong:
  "(\<And>e. e \<in> set tabs \<Longrightarrow> publish_table env o' ctx' e = publish_table env o' ctx e) \<Longrightarrow>
   publish_loop env o' ctx' tabs = publish_loop env o' ctx tabs"
  by (induction tabs) (auto simp: rbind_def split: sum.splits)

text \<open>
  C35. The executor may probe only \<open>staged_probe_targets\<close>: no other table's stage count can
  change the plan.
\<close>

theorem probes_suffice:
  "plan_commit env tabs o' (ctx\<lparr>staged_nonempty := staged_nonempty ctx \<inter> set (staged_probe_targets tabs o')\<rparr>) =
   plan_commit env tabs o' ctx"
proof -
  let ?ctx = "ctx\<lparr>staged_nonempty := staged_nonempty ctx \<inter> set (staged_probe_targets tabs o')\<rparr>"
  have "publish_loop env o' ?ctx tabs = publish_loop env o' ctx tabs"
    by (rule publish_loop_cong) (rule publish_table_probes)
  moreover have "truncate_steps ?ctx tabs = truncate_steps ctx tabs"
    by (simp add: truncate_steps_def ctx_uses_stage_def)
  moreover have "replay_marks o' ?ctx tabs = replay_marks o' ctx tabs"
    by (force simp: replay_marks_def staged_probe_targets_def intro!: arg_cong [where f = "map fst"] filter_cong)
  ultimately show ?thesis by (simp add: plan_commit_def)
qed

section \<open>Clearing Replace targets\<close>

text \<open>
  On the direct path the clear is owed exactly at the first write into an uncleared
  Replace target; no other fact of the transaction matters.
\<close>

lemma prepare_target_direct:
  "full_load ctx = DirectToTarget \<Longrightarrow> prepare_target tabs ctx t =
    (if (\<exists>schema. map_of tabs t = Some (schema, Replace)) \<and> t \<notin> cleared_targets ctx then [ClearTarget t] else [])"
  by (auto simp: prepare_target_def ctx_uses_stage_def uses_stage_def split: option.splits)

lemma prepare_target_staged: "full_load ctx = Staged \<Longrightarrow> prepare_target tabs ctx t = []"
  by (auto simp: prepare_target_def ctx_uses_stage_def uses_stage_def split: option.splits)

text \<open>The steps of a loop that write a given table, its entry being the only one of that name.\<close>

lemma publish_loop_split:
  assumes "publish_loop env o' ctx tabs = Inr (ss, ms)" and "distinct (map fst tabs)"
    and "(t, schema, mode) \<in> set tabs" and "publish_table env o' ctx (t, schema, mode) = Inr (ss', ms')"
  shows "\<exists>pre post. ss = pre @ ss' @ post \<and> (\<forall>s \<in> set pre \<union> set post. step_target s \<noteq> Some t)"
  using assms(1-3)
proof (induction tabs arbitrary: ss ms)
  case (Cons e es)
  obtain se me so mo where e: "publish_table env o' ctx e = Inr (se, me)"
    and es: "publish_loop env o' ctx es = Inr (so, mo)" and ss: "ss = se @ so"
    using Cons.prems(1) by (auto simp: rbind_eq_Inr)
  have other: "step_target s \<noteq> Some t" if "s \<in> set so" "t \<notin> fst ` set es" for s
  proof -
    obtain u sch mo' ss2 ms2 where "(u, sch, mo') \<in> set es" "publish_table env o' ctx (u, sch, mo') = Inr (ss2, ms2)" "s \<in> set ss2"
      by (rule publish_loop_step [OF es \<open>s \<in> set so\<close>])
    with publish_table_steps(1) [OF this(2,3)] that(2) show ?thesis by force
  qed
  show ?case
  proof (cases "e = (t, schema, mode)")
    case True
    then have "se = ss'" using e assms(4) by simp
    moreover have "t \<notin> fst ` set es" using Cons.prems(2) True by simp
    ultimately have "ss = [] @ ss' @ so \<and> (\<forall>s \<in> set [] \<union> set so. step_target s \<noteq> Some t)" using ss other by auto
    then show ?thesis by blast
  next
    case False
    with Cons.prems(3) have tail: "(t, schema, mode) \<in> set es" by simp
    obtain pre post where ih: "so = pre @ ss' @ post" "\<forall>s \<in> set pre \<union> set post. step_target s \<noteq> Some t"
      using Cons.IH [OF es _ tail] Cons.prems(2) by auto
    have "t \<in> fst ` set es" using tail by force
    with Cons.prems(2) have "fst e \<noteq> t" by auto
    then have "\<forall>s \<in> set se. step_target s \<noteq> Some t"
      using publish_table_steps(1) [of env o' ctx "fst e" "fst (snd e)" "snd (snd e)" se me] e by auto
    with ih ss have "ss = (se @ pre) @ ss' @ post \<and> (\<forall>s \<in> set (se @ pre) \<union> set post. step_target s \<noteq> Some t)" by auto
    then show ?thesis by blast
  qed
qed simp

text \<open>
  C39. What a fresh staged unit does to a Replace target of the session, in order: unless the
  load has committed a unit before, one clear and, right after it, one insert from the stage;
  otherwise the insert alone. No other step of the script writes the target. The clear is
  owed per load and not per table.
\<close>

theorem staged_replace_clears_with_first_unit:
  assumes "distinct (map fst tabs)" and "\<not> replayed ctx" and "full_load ctx = Staged"
    and "plan_commit env tabs o' ctx = Inr script" and "(t, schema, Replace) \<in> set tabs"
  shows "\<exists>pre post.
    steps script = pre @ (if load_committed_before ctx then [] else [ClearTarget t]) @ [InsertSelect t] @ post \<and>
    (\<forall>s \<in> set pre \<union> set post. step_target s \<noteq> Some t)"
proof -
  obtain ss where ss: "publish_loop env o' ctx tabs = Inr (ss, marks script)"
    and st: "steps script = ss @ truncate_steps ctx tabs @ [UpsertState, InsertReceipt]"
    using assms(2,4) by (auto simp: plan_commit_def rbind_eq_Inr)
  have "publish_table env o' ctx (t, schema, Replace) =
      Inr ((if load_committed_before ctx then [] else [ClearTarget t]) @ [InsertSelect t], [])"
    using assms(3) by (simp add: publish_table_def ctx_uses_stage_def uses_stage_def)
  from publish_loop_split [OF ss assms(1,5) this] obtain pre post where
    "ss = pre @ ((if load_committed_before ctx then [] else [ClearTarget t]) @ [InsertSelect t]) @ post"
    "\<forall>s \<in> set pre \<union> set post. step_target s \<noteq> Some t" by blast
  then show ?thesis
    by (intro exI [of _ pre] exI [of _ "post @ truncate_steps ctx tabs @ [UpsertState, InsertReceipt]"])
      (auto simp: st truncate_steps_iff)
qed

theorem staged_replace_clears_with_first_unit_witness:
  "\<exists>pre post. [ClearTarget ''events'', InsertSelect ''events'', TruncateStage ''events'', UpsertState, InsertReceipt] =
     pre @ [ClearTarget ''events''] @ [InsertSelect ''events''] @ post"
proof -
  have "distinct (map fst demo_tables)" "\<not> replayed demo_ctx" "full_load demo_ctx = Staged"
    "(''events'', demo_schema, Replace) \<in> set demo_tables" "\<not> load_committed_before demo_ctx"
    by (simp_all add: demo_tables_def demo_ctx_def)
  from staged_replace_clears_with_first_unit [OF this(1-3) demo_plan this(4)] this(5) show ?thesis by auto
qed

end
