(* ===== verification/Sql_Arms.thy ===== *)
theory Sql_Arms
  imports Sql_Commit
begin

text \<open>
  \<^verbatim>\<open>sqlcore/src/plan/arms.rs\<close> and \<^verbatim>\<open>sqlcore/src/protocol/render.rs\<close>: the text of
  the merge arms, produced through the \<open>merge_dialect\<close> hooks. The pins at the end are the
  golden statements of the repository's own suites.
\<close>

section \<open>Hard delete and the merge plan\<close>

record hard_delete =
  flagged :: string
  keep :: string

definition hard_delete_new :: "'x core_env_scheme \<Rightarrow> string \<Rightarrow> table_schema \<Rightarrow> merge_dialect \<Rightarrow> hard_delete" where
  "hard_delete_new env column root_schema dialect =
     (let is_bool = (case schema_column env root_schema column of
            Some c \<Rightarrow> col_type c = Scalar LBool
          | None \<Rightarrow> False);
          col = quote dialect column in
      if is_bool
      then \<lparr>flagged = flag_set dialect col, keep = flag_unset dialect col\<rparr>
      else \<lparr>flagged = col @ '' IS NOT NULL'', keep = col @ '' IS NULL''\<rparr>)"

record merge_plan =
  mp_dialect :: merge_dialect
  target_sql :: string
  stage_sql :: string
  cols_sql :: string
  mp_schema :: table_schema
  mp_key :: "string list"
  root_stage_sql :: string
  mp_is_child :: bool
  mp_hard_delete :: "hard_delete option"
  mp_dedup_sort :: "dedup_sort option"
  mp_merge_scope :: "string list option"

definition keep_clause :: "merge_plan \<Rightarrow> string" where
  "keep_clause p = (case mp_hard_delete p of Some h \<Rightarrow> '' WHERE '' @ keep h | None \<Rightarrow> '''')"

definition key_list :: "merge_plan \<Rightarrow> string" where
  "key_list p = join '', '' (map (quote (mp_dialect p)) (mp_key p))"

fun sort_dir :: "sort_order \<Rightarrow> string" where
  "sort_dir Asc = ''ASC''"
| "sort_dir Desc = ''DESC''"

definition deduped :: "merge_plan \<Rightarrow> string \<Rightarrow> string" where
  "deduped p identity =
     (let sort = (case mp_dedup_sort p of
          Some d \<Rightarrow> quote (mp_dialect p) (ds_column d) @ '' '' @ sort_dir (ds_order d) @ '' NULLS LAST, ''
        | None \<Rightarrow> '''') in
      dedup_subquery (mp_dialect p) identity sort (stage_sql p))"

definition dedup_once :: "'x core_env_scheme \<Rightarrow> merge_plan \<Rightarrow> string \<Rightarrow> string list \<times> string" where
  "dedup_once env p identity =
     (let subquery = deduped p identity;
          name = ''rdlt_dd_'' @ ident_hash env (stage_sql p) 16 in
      case materialize_dedup (mp_dialect p) name subquery of
        Some statement \<Rightarrow> ([statement], name)
      | None \<Rightarrow> ([], subquery))"

definition update_set :: "merge_plan \<Rightarrow> string list \<Rightarrow> string" where
  "update_set p identity =
     join '', '' (map (\<lambda>c. (let q = quote (mp_dialect p) (col_name c) in
         q @ '' = '' @ incoming_ref (mp_dialect p) @ ''.'' @ q))
       (filter (\<lambda>c. col_name c \<notin> set identity) (sch_columns (mp_schema p))))"

definition flagged_roots :: "'x core_env_scheme \<Rightarrow> merge_plan \<Rightarrow> hard_delete \<Rightarrow> string" where
  "flagged_roots env p h =
     (let i = quote (mp_dialect p) (sys_id env);
          dd = dedup_subquery (mp_dialect p) i '''' (root_stage_sql p) in
      ''(SELECT '' @ i @ '' FROM '' @ dd @ '' d WHERE '' @ flagged h @ '')'')"

section \<open>Scopes\<close>

definition scope_predicate :: "string list \<Rightarrow> (string \<Rightarrow> string) \<Rightarrow> string \<times> string" where
  "scope_predicate scope quo =
     (join '', '' (map quo scope),
      join '' AND '' (map (\<lambda>c. quo c @ '' IS NOT NULL'') scope))"

text \<open>The statement's line break and its indentation are part of the pinned text.\<close>

definition line_indent :: string where
  "line_indent = CHR 0x0A # replicate 13 (CHR '' '')"

definition scope_replace_sql :: "merge_dialect \<Rightarrow> string \<Rightarrow> string \<Rightarrow> string list \<Rightarrow> string" where
  "scope_replace_sql dialect target stage scope =
     (case scope_predicate scope (quote dialect) of (cols, not_null) \<Rightarrow>
       ''DELETE FROM '' @ target @ '' WHERE ('' @ cols @ '') IN ('' @ line_indent @
       ''SELECT '' @ cols @ '' FROM '' @ stage @ '' WHERE '' @ not_null @ '')'')"

section \<open>The arms\<close>

definition keyed_delete_insert_sql :: "merge_plan \<Rightarrow> string list" where
  "keyed_delete_insert_sql p =
     (let kl = key_list p in
      [''DELETE FROM '' @ target_sql p @ '' WHERE ('' @ kl @ '') IN (SELECT '' @ kl @ '' FROM '' @ stage_sql p @ '')'',
       ''INSERT INTO '' @ target_sql p @ '' ('' @ cols_sql p @ '') SELECT '' @ cols_sql p @ '' FROM '' @
         deduped p kl @ '' deduped'' @ keep_clause p])"

text \<open>The \<open>Upsert\<close> the keyed arm hands to its dialect; \<open>dd\<close> is the survivors' relation.\<close>

definition plan_upsert :: "merge_plan \<Rightarrow> string \<Rightarrow> upsert" where
  "plan_upsert p dd =
     (let st = update_set p (mp_key p);
          action = (if st = [] then Nothing else Update st) in
      \<lparr>u_target = target_sql p,
       u_columns = map (\<lambda>c. quote (mp_dialect p) (col_name c)) (sch_columns (mp_schema p)),
       u_cols_sql = cols_sql p, u_source = dd, u_keep = keep_clause p,
       u_keys = map (quote (mp_dialect p)) (mp_key p), u_key_list = key_list p, u_action = action\<rparr>)"

definition keyed_upsert_sql :: "'x core_env_scheme \<Rightarrow> merge_plan \<Rightarrow> string list" where
  "keyed_upsert_sql env p =
     (let kl = key_list p;
          (out, dd) = (if mp_hard_delete p \<noteq> None then dedup_once env p kl else ([], deduped p kl));
          del = (case mp_hard_delete p of
              Some h \<Rightarrow> [''DELETE FROM '' @ target_sql p @ '' WHERE ('' @ kl @ '') IN '' @
                ''(SELECT '' @ kl @ '' FROM '' @ dd @ '' d WHERE '' @ flagged h @ '')'']
            | None \<Rightarrow> []) in
      out @ del @ [upsert_stmt (mp_dialect p) (plan_upsert p dd)])"

definition identity_delete_insert_sql :: "'x core_env_scheme \<Rightarrow> merge_plan \<Rightarrow> string list" where
  "identity_delete_insert_sql env p =
     (let i = quote (mp_dialect p) (sys_id env);
          id_col = (if mp_is_child p then quote (mp_dialect p) (sys_root_id env) else i);
          kp = (case (mp_hard_delete p, mp_is_child p) of
              (Some h, False) \<Rightarrow> '' WHERE '' @ keep h
            | (Some h, True) \<Rightarrow> '' WHERE '' @ quote (mp_dialect p) (sys_root_id env) @ '' NOT IN '' @ flagged_roots env p h
            | (None, _) \<Rightarrow> '''') in
      [''DELETE FROM '' @ target_sql p @ '' WHERE '' @ id_col @ '' IN (SELECT '' @ i @ '' FROM '' @ root_stage_sql p @ '')'',
       ''INSERT INTO '' @ target_sql p @ '' ('' @ cols_sql p @ '') SELECT '' @ cols_sql p @ '' FROM '' @
         deduped p i @ '' deduped'' @ kp])"

definition scd2_changed :: "'x core_env_scheme \<Rightarrow> merge_plan \<Rightarrow> string" where
  "scd2_changed env p =
     join '' OR '' (map (\<lambda>c. (let q = quote (mp_dialect p) (col_name c) in ''t.'' @ q @ '' IS DISTINCT FROM d.'' @ q))
       (filter (\<lambda>c. col_name c \<notin> set (mp_key p) \<and> col_name c \<noteq> sys_load_id env) (sch_columns (mp_schema p))))"

definition scd2_merge_sql :: "'x core_env_scheme \<Rightarrow> merge_plan \<Rightarrow> scd2_options \<Rightarrow> string list" where
  "scd2_merge_sql env p scd2 =
     (let now = (case boundary_timestamp scd2 of
            Some boundary \<Rightarrow> sql_literal boundary
          | None \<Rightarrow> tx_timestamp (mp_dialect p));
          kl = key_list p;
          (out, dd) = dedup_once env p kl;
          vf = quote (mp_dialect p) (valid_from scd2);
          vt = quote (mp_dialect p) (valid_to scd2);
          (open_value, is_active) = (case active_record_timestamp scd2 of
            Some marker \<Rightarrow>
              (sql_literal marker, ''(t.'' @ vt @ '' IS NULL OR t.'' @ vt @ '' = '' @ sql_literal marker @ '')'')
          | None \<Rightarrow> (''NULL'', ''t.'' @ vt @ '' IS NULL''));
          key_match = join '' AND '' (map (\<lambda>k. (let q = quote (mp_dialect p) k in ''t.'' @ q @ '' = d.'' @ q)) (mp_key p));
          changed = scd2_changed env p;
          scope_clause = (case mp_merge_scope p of
            Some scope \<Rightarrow>
              if scope \<noteq> []
              then (case scope_predicate scope (quote (mp_dialect p)) of (cols, not_null) \<Rightarrow>
                '' AND ('' @ cols @ '') IN (SELECT '' @ cols @ '' FROM '' @ stage_sql p @ '' WHERE '' @ not_null @ '')'')
              else ''''
          | None \<Rightarrow> '''') in
      out @
      (if changed \<noteq> []
       then [''UPDATE '' @ target_sql p @ '' t SET '' @ vt @ '' = '' @ now @ '' '' @
             ''FROM '' @ dd @ '' d WHERE '' @ is_active @ '' AND '' @ key_match @ '' AND ('' @ changed @ '')'']
       else []) @
      [''INSERT INTO '' @ target_sql p @ '' ('' @ cols_sql p @ '', '' @ vf @ '', '' @ vt @ '') '' @
       ''SELECT '' @ cols_sql p @ '', '' @ now @ '', '' @ open_value @ '' FROM '' @ dd @ '' d '' @
       ''WHERE NOT EXISTS ( '' @
       ''SELECT 1 FROM '' @ target_sql p @ '' t WHERE '' @ is_active @ '' AND '' @ key_match @ '')''] @
      (if absent scd2 = Retire
       then [''UPDATE '' @ target_sql p @ '' t SET '' @ vt @ '' = '' @ now @ '' '' @
             ''WHERE '' @ is_active @ '' AND ('' @ kl @ '') NOT IN '' @
             ''(SELECT '' @ kl @ '' FROM '' @ dd @ '' d)'' @ scope_clause]
       else []))"

section \<open>render.rs\<close>

definition insert_select_sql :: "string \<Rightarrow> string \<Rightarrow> string \<Rightarrow> string" where
  "insert_select_sql target cols stage =
     ''INSERT INTO '' @ target @ '' ('' @ cols @ '') SELECT '' @ cols @ '' FROM '' @ stage"

definition build_merge_plan ::
    "'x core_env_scheme \<Rightarrow> merge_dialect \<Rightarrow> destination_options \<Rightarrow> string \<Rightarrow> table_schema \<Rightarrow> string list \<Rightarrow>
     string \<Rightarrow> string \<Rightarrow> string \<Rightarrow> string \<Rightarrow> string \<Rightarrow> table_schema option \<Rightarrow> merge_plan" where
  "build_merge_plan env dialect o' t schema key target stage cols root root_stage root_schema =
     \<lparr>mp_dialect = dialect, target_sql = target, stage_sql = stage, cols_sql = cols, mp_schema = schema,
      mp_key = key, root_stage_sql = root_stage, mp_is_child = (t \<noteq> root),
      mp_hard_delete = Option.bind (hard_delete_for o' root)
        (\<lambda>col. map_option (\<lambda>rs. hard_delete_new env col rs dialect) root_schema),
      mp_dedup_sort = dedup_sort_for o' t,
      mp_merge_scope = merge_scope_for o' t\<rparr>"

definition render_arm :: "'x core_env_scheme \<Rightarrow> merge_plan \<Rightarrow> merge_arm \<Rightarrow> string list" where
  "render_arm env p arm =
     (case arm of
        KeyedDeleteInsert \<Rightarrow> keyed_delete_insert_sql p
      | KeyedUpsert \<Rightarrow> keyed_upsert_sql env p
      | IdentityDeleteInsert \<Rightarrow> identity_delete_insert_sql env p
      | Scd2Arm scd2 \<Rightarrow> scd2_merge_sql env p scd2)"

text \<open>Only the identity arm's text mentions the root's stage.\<close>

lemma render_arm_root_stage:
  "arm \<noteq> IdentityDeleteInsert \<Longrightarrow> render_arm env (p\<lparr>root_stage_sql := x\<rparr>) arm = render_arm env p arm"
proof (cases arm)
  case (Scd2Arm scd2)
  have "dedup_once env (p\<lparr>root_stage_sql := x\<rparr>) i = dedup_once env p i" for i
    by (simp add: dedup_once_def deduped_def cong: option.case_cong)
  moreover have "scd2_changed env (p\<lparr>root_stage_sql := x\<rparr>) = scd2_changed env p" by (simp add: scd2_changed_def)
  ultimately show ?thesis by (simp add: Scd2Arm render_arm_def scd2_merge_sql_def key_list_def cong: option.case_cong if_cong)
qed (simp_all add: render_arm_def keyed_delete_insert_sql_def keyed_upsert_sql_def plan_upsert_def key_list_def
    keep_clause_def deduped_def dedup_once_def update_set_def cong: option.case_cong if_cong)

section \<open>Empty lists never reach the text\<close>

lemma update_set_eq_Nil: "update_set p identity = [] \<longleftrightarrow> column_names (mp_schema p) \<subseteq> set identity"
  by (auto simp: update_set_def Let_def join_map_eq_Nil filter_empty_conv column_names_def)

lemma scd2_changed_eq_Nil: "scd2_changed env p = [] \<longleftrightarrow>
    column_names (mp_schema p) \<subseteq> insert (sys_load_id env) (set (mp_key p))"
  by (auto simp: scd2_changed_def Let_def join_map_eq_Nil filter_empty_conv column_names_def)

definition materializes :: "'x core_env_scheme \<Rightarrow> merge_plan \<Rightarrow> string \<Rightarrow> bool" where
  "materializes env p identity \<longleftrightarrow> fst (dedup_once env p identity) \<noteq> []"

lemma dedup_once_length: "length (fst (dedup_once env p i)) = (if materializes env p i then 1 else 0)"
  by (auto simp: materializes_def dedup_once_def Let_def split: option.splits)

lemma plan_upsert_simps [simp]:
  "u_keys (plan_upsert p dd) = map (quote (mp_dialect p)) (mp_key p)"
  "u_source (plan_upsert p dd) = dd"
  "u_action (plan_upsert p dd) = Nothing \<longleftrightarrow> column_names (mp_schema p) \<subseteq> set (mp_key p)"
  "u_action (plan_upsert p dd) = Update st \<longleftrightarrow>
     st = update_set p (mp_key p) \<and> \<not> column_names (mp_schema p) \<subseteq> set (mp_key p)"
  by (auto simp: plan_upsert_def Let_def update_set_eq_Nil [symmetric])

text \<open>
  The upsert ends in one dialect statement over the merge key. It keeps the existing row
  exactly when every column is part of the key, and never carries an empty assignment
  list; the flagged-row delete and the materialized survivors come before it, and only
  under hard delete.
\<close>

theorem keyed_upsert_spec:
  "\<exists>pre u. keyed_upsert_sql env p = pre @ [upsert_stmt (mp_dialect p) u] \<and>
     u_keys u = map (quote (mp_dialect p)) (mp_key p) \<and>
     (case u_action u of
        Nothing \<Rightarrow> column_names (mp_schema p) \<subseteq> set (mp_key p)
      | Update st \<Rightarrow> st = update_set p (mp_key p) \<and> st \<noteq> []) \<and>
     length pre = (if mp_hard_delete p = None then 0 else if materializes env p (key_list p) then 2 else 1)"
proof -
  obtain out dd where once: "dedup_once env p (key_list p) = (out, dd)" by fastforce
  let ?u = "plan_upsert p (if mp_hard_delete p = None then deduped p (key_list p) else dd)"
  obtain pre where "keyed_upsert_sql env p = pre @ [upsert_stmt (mp_dialect p) ?u]"
    and "length pre = (if mp_hard_delete p = None then 0 else if materializes env p (key_list p) then 2 else 1)"
    using once dedup_once_length [of env p "key_list p"]
    by (cases "mp_hard_delete p") (auto simp: keyed_upsert_sql_def Let_def)
  then show ?thesis
    by (intro exI [of _ pre] exI [of _ ?u]) (simp add: update_set_eq_Nil split: upsert_action.split)
qed

text \<open>
  The scd2 arm compares exactly the data columns: it retires a changed version only when a
  column outside the key and the load id exists to have changed, and retires absent keys
  only under \<open>absent: retire\<close>.
\<close>

lemma scd2_merge_length:
  "length (scd2_merge_sql env p scd2) =
     (if materializes env p (key_list p) then 1 else 0) +
     (if column_names (mp_schema p) \<subseteq> insert (sys_load_id env) (set (mp_key p)) then 0 else 1) + 1 +
     (if absent scd2 = Retire then 1 else 0)"
  using dedup_once_length [of env p "key_list p"]
  by (cases "dedup_once env p (key_list p)")
    (simp add: scd2_merge_sql_def Let_def split_beta scd2_changed_eq_Nil [symmetric])

section \<open>The golden statements\<close>

text \<open>
  The plans and statements of \<^verbatim>\<open>crates/rdlt-connector-postgres/tests/cases/test_golden_sql.rs\<close>;
  the hash of the stage name is the one pinned there.
\<close>

definition pin_env :: core_env where
  "pin_env = demo_env\<lparr>ident_hash := (\<lambda>_ _. ''949c09887f1d4674'')\<rparr>"

definition pin_schema :: table_schema where
  "pin_schema = \<lparr>sch_table = ''events'', sch_parent = None,
     sch_columns = [Column ''id'' (Scalar LInt64) True, Column ''day'' (Scalar LInt64) True,
       Column ''name'' (Scalar LUtf8) True, Column ''seq'' (Scalar LInt64) True,
       Column ''deleted'' (Scalar LBool) True, Column ''_rdlt_load_id'' (Scalar LUtf8) True]\<rparr>"

definition pin_plan :: "string list \<Rightarrow> string option \<Rightarrow> dedup_sort option \<Rightarrow> merge_plan" where
  "pin_plan key flag dedup =
     \<lparr>mp_dialect = postgres_dialect, target_sql = quote_identifier ''events'',
      stage_sql = quote_identifier ''_rdlt_stage_feedcafe'', cols_sql = column_list pin_schema,
      mp_schema = pin_schema, mp_key = key, root_stage_sql = quote_identifier ''_rdlt_stage_feedcafe'',
      mp_is_child = False, mp_hard_delete = map_option (\<lambda>f. hard_delete_new pin_env f pin_schema postgres_dialect) flag,
      mp_dedup_sort = dedup, mp_merge_scope = None\<rparr>"

lemmas pin_defs = pin_plan_def pin_schema_def pin_env_def demo_env_def postgres_dialect_def default_dialect_def
  hard_delete_new_def find_column_def quote_identifier_def enclose_def column_list_def column_list_with_def
  keyed_delete_insert_sql_def keyed_upsert_sql_def plan_upsert_def identity_delete_insert_sql_def scd2_merge_sql_def
  scope_replace_sql_def scope_predicate_def scd2_changed_def key_list_def keep_clause_def deduped_def
  dedup_once_def update_set_def default_dedup_subquery_def default_upsert_stmt_def sql_literal_def
  scd2_default_def default_valid_from_def default_valid_to_def ARRIVAL_COL_def line_indent_def Let_def eval_nat_numeral

lemma pin_keyed_delete_insert: "keyed_delete_insert_sql (pin_plan [''id''] (Some ''deleted'') (Some \<lparr>ds_column = ''seq'', ds_order = Desc\<rparr>)) =
    [''DELETE FROM \"events\" WHERE (\"id\") IN (SELECT \"id\" FROM \"_rdlt_stage_feedcafe\")'',
     ''INSERT INTO \"events\" (\"id\", \"day\", \"name\", \"seq\", \"deleted\", \"_rdlt_load_id\") SELECT \"id\", \"day\", \"name\", \"seq\", \"deleted\", \"_rdlt_load_id\" FROM (SELECT DISTINCT ON (\"id\") * FROM \"_rdlt_stage_feedcafe\" ORDER BY \"id\", \"seq\" DESC NULLS LAST, \"__rdlt_arrival\" DESC) deduped WHERE \"deleted\" IS NOT TRUE'']"
  by (simp add: pin_defs)

lemma pin_keyed_upsert: "keyed_upsert_sql pin_env (pin_plan [''id''] (Some ''deleted'') (Some \<lparr>ds_column = ''seq'', ds_order = Asc\<rparr>)) =
    [''CREATE TEMP TABLE rdlt_dd_949c09887f1d4674 ON COMMIT DROP AS SELECT * FROM (SELECT DISTINCT ON (\"id\") * FROM \"_rdlt_stage_feedcafe\" ORDER BY \"id\", \"seq\" ASC NULLS LAST, \"__rdlt_arrival\" DESC) deduped'',
     ''DELETE FROM \"events\" WHERE (\"id\") IN (SELECT \"id\" FROM rdlt_dd_949c09887f1d4674 d WHERE \"deleted\" IS TRUE)'',
     ''INSERT INTO \"events\" (\"id\", \"day\", \"name\", \"seq\", \"deleted\", \"_rdlt_load_id\") SELECT \"id\", \"day\", \"name\", \"seq\", \"deleted\", \"_rdlt_load_id\" FROM rdlt_dd_949c09887f1d4674 deduped WHERE \"deleted\" IS NOT TRUE ON CONFLICT (\"id\") DO UPDATE SET \"day\" = EXCLUDED.\"day\", \"name\" = EXCLUDED.\"name\", \"seq\" = EXCLUDED.\"seq\", \"deleted\" = EXCLUDED.\"deleted\", \"_rdlt_load_id\" = EXCLUDED.\"_rdlt_load_id\"'']"
  by (simp add: pin_defs)

lemma pin_keyed_upsert_plain: "keyed_upsert_sql pin_env (pin_plan [''id'', ''day''] None None) =
    [''INSERT INTO \"events\" (\"id\", \"day\", \"name\", \"seq\", \"deleted\", \"_rdlt_load_id\") SELECT \"id\", \"day\", \"name\", \"seq\", \"deleted\", \"_rdlt_load_id\" FROM (SELECT DISTINCT ON (\"id\", \"day\") * FROM \"_rdlt_stage_feedcafe\" ORDER BY \"id\", \"day\", \"__rdlt_arrival\" DESC) deduped ON CONFLICT (\"id\", \"day\") DO UPDATE SET \"name\" = EXCLUDED.\"name\", \"seq\" = EXCLUDED.\"seq\", \"deleted\" = EXCLUDED.\"deleted\", \"_rdlt_load_id\" = EXCLUDED.\"_rdlt_load_id\"'']"
  by (simp add: pin_defs)

lemma pin_identity_delete_insert: "identity_delete_insert_sql pin_env (pin_plan [] (Some ''deleted'') None) =
    [''DELETE FROM \"events\" WHERE \"_rdlt_id\" IN (SELECT \"_rdlt_id\" FROM \"_rdlt_stage_feedcafe\")'',
     ''INSERT INTO \"events\" (\"id\", \"day\", \"name\", \"seq\", \"deleted\", \"_rdlt_load_id\") SELECT \"id\", \"day\", \"name\", \"seq\", \"deleted\", \"_rdlt_load_id\" FROM (SELECT DISTINCT ON (\"_rdlt_id\") * FROM \"_rdlt_stage_feedcafe\" ORDER BY \"_rdlt_id\", \"__rdlt_arrival\" DESC) deduped WHERE \"deleted\" IS NOT TRUE'']"
  by (simp add: pin_defs)

lemma pin_scd2: "scd2_merge_sql pin_env (pin_plan [''id''] None None) scd2_default =
    [''CREATE TEMP TABLE rdlt_dd_949c09887f1d4674 ON COMMIT DROP AS SELECT * FROM (SELECT DISTINCT ON (\"id\") * FROM \"_rdlt_stage_feedcafe\" ORDER BY \"id\", \"__rdlt_arrival\" DESC) deduped'',
     ''UPDATE \"events\" t SET \"_rdlt_valid_to\" = now() FROM rdlt_dd_949c09887f1d4674 d WHERE t.\"_rdlt_valid_to\" IS NULL AND t.\"id\" = d.\"id\" AND (t.\"day\" IS DISTINCT FROM d.\"day\" OR t.\"name\" IS DISTINCT FROM d.\"name\" OR t.\"seq\" IS DISTINCT FROM d.\"seq\" OR t.\"deleted\" IS DISTINCT FROM d.\"deleted\")'',
     ''INSERT INTO \"events\" (\"id\", \"day\", \"name\", \"seq\", \"deleted\", \"_rdlt_load_id\", \"_rdlt_valid_from\", \"_rdlt_valid_to\") SELECT \"id\", \"day\", \"name\", \"seq\", \"deleted\", \"_rdlt_load_id\", now(), NULL FROM rdlt_dd_949c09887f1d4674 d WHERE NOT EXISTS ( SELECT 1 FROM \"events\" t WHERE t.\"_rdlt_valid_to\" IS NULL AND t.\"id\" = d.\"id\")'']"
  by (simp add: pin_defs)

definition pin_small_plan :: merge_plan where
  "pin_small_plan = (let s = pin_schema\<lparr>sch_columns := [Column ''id'' (Scalar LInt64) True,
       Column ''day'' (Scalar LInt64) True, Column ''name'' (Scalar LUtf8) True, Column ''_rdlt_load_id'' (Scalar LUtf8) True]\<rparr>
     in (pin_plan [''id''] None None)\<lparr>mp_schema := s, cols_sql := column_list s\<rparr>)"

lemma pin_scd2_markers: "scd2_merge_sql pin_env pin_small_plan
     (scd2_default\<lparr>absent := Retire, active_record_timestamp := Some ''9999-12-31T00:00:00Z'',
       boundary_timestamp := Some ''2026-07-22T00:00:00Z''\<rparr>) =
    [''CREATE TEMP TABLE rdlt_dd_949c09887f1d4674 ON COMMIT DROP AS SELECT * FROM (SELECT DISTINCT ON (\"id\") * FROM \"_rdlt_stage_feedcafe\" ORDER BY \"id\", \"__rdlt_arrival\" DESC) deduped'',
     ''UPDATE \"events\" t SET \"_rdlt_valid_to\" = '' @ [squote] @ ''2026-07-22T00:00:00Z'' @ [squote] @ '' FROM rdlt_dd_949c09887f1d4674 d WHERE (t.\"_rdlt_valid_to\" IS NULL OR t.\"_rdlt_valid_to\" = '' @ [squote] @ ''9999-12-31T00:00:00Z'' @ [squote] @ '') AND t.\"id\" = d.\"id\" AND (t.\"day\" IS DISTINCT FROM d.\"day\" OR t.\"name\" IS DISTINCT FROM d.\"name\")'',
     ''INSERT INTO \"events\" (\"id\", \"day\", \"name\", \"_rdlt_load_id\", \"_rdlt_valid_from\", \"_rdlt_valid_to\") SELECT \"id\", \"day\", \"name\", \"_rdlt_load_id\", '' @ [squote] @ ''2026-07-22T00:00:00Z'' @ [squote] @ '', '' @ [squote] @ ''9999-12-31T00:00:00Z'' @ [squote] @ '' FROM rdlt_dd_949c09887f1d4674 d WHERE NOT EXISTS ( SELECT 1 FROM \"events\" t WHERE (t.\"_rdlt_valid_to\" IS NULL OR t.\"_rdlt_valid_to\" = '' @ [squote] @ ''9999-12-31T00:00:00Z'' @ [squote] @ '') AND t.\"id\" = d.\"id\")'',
     ''UPDATE \"events\" t SET \"_rdlt_valid_to\" = '' @ [squote] @ ''2026-07-22T00:00:00Z'' @ [squote] @ '' WHERE (t.\"_rdlt_valid_to\" IS NULL OR t.\"_rdlt_valid_to\" = '' @ [squote] @ ''9999-12-31T00:00:00Z'' @ [squote] @ '') AND (\"id\") NOT IN (SELECT \"id\" FROM rdlt_dd_949c09887f1d4674 d)'']"
  by (simp add: pin_defs pin_small_plan_def)

lemma pin_scd2_scoped: "last (scd2_merge_sql pin_env (pin_small_plan\<lparr>mp_merge_scope := Some [''day'']\<rparr>)
     (scd2_default\<lparr>absent := Retire\<rparr>)) =
    ''UPDATE \"events\" t SET \"_rdlt_valid_to\" = now() WHERE t.\"_rdlt_valid_to\" IS NULL AND (\"id\") NOT IN (SELECT \"id\" FROM rdlt_dd_949c09887f1d4674 d) AND (\"day\") IN (SELECT \"day\" FROM \"_rdlt_stage_feedcafe\" WHERE \"day\" IS NOT NULL)''"
  by (simp add: pin_defs pin_small_plan_def)

lemma pin_scope_replace: "scope_replace_sql postgres_dialect (quote_identifier ''events'')
     (quote_identifier ''_rdlt_stage_feedcafe'') [''day'', ''tenant''] =
    ''DELETE FROM \"events\" WHERE (\"day\", \"tenant\") IN ('' @ [CHR 0x0A] @ ''             SELECT \"day\", \"tenant\" FROM \"_rdlt_stage_feedcafe\" WHERE \"day\" IS NOT NULL AND \"tenant\" IS NOT NULL)''"
  by (simp add: pin_defs)

end
