(* ===== verification/Duck_Schema.thy ===== *)
theory Duck_Schema
  imports Sql_Arms
begin

text \<open>
  \<^verbatim>\<open>crates/rdlt-connector-duckdb/src/destination/schema.rs\<close> (the DDL the DuckDB
  destination lowers the ensure steps to) and \<^verbatim>\<open>catalog.rs\<close> (reading a live table's
  types back, the cross-run prefilter and the widening lattice). \<open>unreachable!\<close> and slice
  indexing are the value \<open>Panic\<close>.
\<close>

section \<open>schema.rs\<close>

definition duck_stage_name :: "'x core_env_scheme \<Rightarrow> string \<Rightarrow> string" where
  "duck_stage_name env t = STAGE_PREFIX @ ident_hash env t 16"

primrec scalar_type :: "logical_type \<Rightarrow> bool \<Rightarrow> string" where
  "scalar_type LBool is_stage = ''BOOLEAN''"
| "scalar_type LInt64 is_stage = ''BIGINT''"
| "scalar_type LFloat64 is_stage = ''DOUBLE''"
| "scalar_type (LDecimal precision scale) is_stage =
     ''DECIMAL('' @ show_nat precision @ '','' @ show_nat scale @ '')''"
| "scalar_type LJson is_stage = (if is_stage then ''VARCHAR'' else ''JSON'')"
| "scalar_type LUtf8 is_stage = ''VARCHAR''"
| "scalar_type LUuid is_stage = ''VARCHAR''"
| "scalar_type LBinary is_stage = ''BLOB''"
| "scalar_type LTimestampTz is_stage = ''TIMESTAMP WITH TIME ZONE''"
| "scalar_type LTimestampNaive is_stage = ''TIMESTAMP''"
| "scalar_type LDate is_stage = ''DATE''"
| "scalar_type LTime is_stage = ''TIME''"

primrec sql_type :: "column_type \<Rightarrow> bool \<Rightarrow> string"
  and sql_field :: "column \<Rightarrow> bool \<Rightarrow> string" where
  "sql_type (Scalar s) is_stage = scalar_type s is_stage"
| "sql_type (Struct fs) is_stage =
     ''STRUCT('' @ join '', '' (map (\<lambda>f. f is_stage) (map sql_field fs)) @ '')''"
| "sql_type (ScalarList item) is_stage = scalar_type item is_stage @ ''[]''"
| "sql_field (Column n t nl) is_stage = quote_identifier n @ '' '' @ sql_type t is_stage"

definition create_table_sql :: "string \<Rightarrow> table_schema \<Rightarrow> bool \<Rightarrow> string" where
  "create_table_sql name schema temp =
     ''CREATE '' @ (if temp then ''TEMP '' else '''') @ ''TABLE IF NOT EXISTS '' @ quote_identifier name @
     '' ('' @ join '', '' (map (\<lambda>c. quote_identifier (col_name c) @ '' '' @ sql_type (col_type c) temp)
       (sch_columns schema)) @ '')''"

definition leg_name :: "'x core_env_scheme \<Rightarrow> leg \<Rightarrow> table_schema \<Rightarrow> string \<times> bool" where
  "leg_name env l schema =
     (case l of
        Target \<Rightarrow> (sch_table schema, False)
      | Stage \<Rightarrow> (duck_stage_name env (sch_table schema), True))"

fun table_statement :: "'x core_env_scheme \<Rightarrow> table_schema \<Rightarrow> ensure_step \<Rightarrow> (ddl_error, string) result" where
  "table_statement env schema (EnsureTable l) =
     (case leg_name env l schema of (name, temp) \<Rightarrow> Inr (create_table_sql name schema temp))"
| "table_statement env schema (EnsureColumn l i) =
     (case leg_name env l schema of (name, temp) \<Rightarrow>
       rbind (index_column schema i) (\<lambda>col. Inr
         (''ALTER TABLE '' @ quote_identifier name @ '' ADD COLUMN IF NOT EXISTS '' @
          quote_identifier (col_name col) @ '' '' @ sql_type (col_type col) temp)))"
| "table_statement env schema (EnsureWiden l i) =
     (case leg_name env l schema of (name, temp) \<Rightarrow>
       rbind (index_column schema i) (\<lambda>col. Inr
         (''ALTER TABLE '' @ quote_identifier name @ '' ALTER COLUMN '' @
          quote_identifier (col_name col) @ '' SET DATA TYPE '' @ sql_type (col_type col) temp)))"
| "table_statement env schema _ = Inl Panic"

definition table_ddl ::
    "'x core_env_scheme \<Rightarrow> table_schema \<Rightarrow> table_schema option \<Rightarrow> (ddl_error, string list) result" where
  "table_ddl env schema previous =
     traverse (table_statement env schema) (schema_steps env schema Append Staged previous)"

type_synonym ensure_statement = "string \<times> string list option"

fun merge_statement ::
    "'x core_env_scheme \<Rightarrow> string \<Rightarrow> scd2_options \<Rightarrow> ensure_step \<Rightarrow> (ddl_error, ensure_statement list) result" where
  "merge_statement env t scd2 (EnsureValidity v) =
     (let (column, tail) = (case v of
          From \<Rightarrow> (valid_from scd2, ''TIMESTAMPTZ DEFAULT now()'')
        | To \<Rightarrow> (valid_to scd2, ''TIMESTAMPTZ'')) in
      Inr [(''ALTER TABLE '' @ quote_identifier t @ '' ADD COLUMN IF NOT EXISTS '' @
            quote_identifier column @ '' '' @ tail, None)])"
| "merge_statement env t scd2 (EnsureIndex spec) =
     Inr ((if unique spec then [(drop_index_sql env False t (ix_columns spec) quote_identifier, None)] else []) @
          [(create_index_sql env (unique spec) t (ix_columns spec) quote_identifier,
            if unique spec then Some (ix_columns spec) else None)])"
| "merge_statement env t scd2 _ = Inl Panic"

definition merge_ddl ::
    "'x core_env_scheme \<Rightarrow> destination_options \<Rightarrow> table_schema \<Rightarrow> write_mode \<Rightarrow> (ddl_error, ensure_statement list) result" where
  "merge_ddl env o' schema mode =
     (let t = sch_table schema; scd2 = scd2_for o' t in
      case merge_steps env o' schema mode of
        Inl e \<Rightarrow> Inl (Invalid e)
      | Inr ss \<Rightarrow> rbind (traverse (merge_statement env t scd2) ss) (\<lambda>sss. Inr (concat sss)))"

section \<open>catalog.rs\<close>

primrec has_binary :: "column_type \<Rightarrow> bool"
  and has_binary_field :: "column \<Rightarrow> bool" where
  "has_binary (Scalar s) \<longleftrightarrow> s = LBinary"
| "has_binary (ScalarList item) \<longleftrightarrow> item = LBinary"
| "has_binary (Struct fs) \<longleftrightarrow> list_ex (\<lambda>b. b) (map has_binary_field fs)"
| "has_binary_field (Column n t nl) \<longleftrightarrow> has_binary t"

text \<open>\<open>u8::saturating_sub\<close> is subtraction on \<open>nat\<close>.\<close>

definition is_widening :: "column_type \<Rightarrow> column_type \<Rightarrow> bool" where
  "is_widening from to \<longleftrightarrow>
     (if has_binary from then False
      else if to = Scalar LUtf8 \<or> to = Scalar LJson then True
      else (case (from, to) of
          (Scalar LInt64, Scalar (LDecimal precision scale)) \<Rightarrow> precision - scale \<ge> 19
        | (Scalar (LDecimal from_p from_s), Scalar (LDecimal to_p to_s)) \<Rightarrow>
            to_s \<ge> from_s \<and> to_p - to_s \<ge> from_p - from_s
        | _ \<Rightarrow> False))"

text \<open>Rewriting the first image column of a given name.\<close>

fun set_column_type :: "string \<Rightarrow> column_type \<Rightarrow> column list \<Rightarrow> column list" where
  "set_column_type n ty [] = []"
| "set_column_type n ty (c # cs) =
     (if col_name c = n then Column n ty (nullable c) # cs else c # set_column_type n ty cs)"

definition prefilter_column :: "table_schema \<Rightarrow> column \<Rightarrow> table_schema" where
  "prefilter_column img d =
     (case find_column img (col_name d) of
        None \<Rightarrow> img
      | Some i \<Rightarrow>
          (let physically_same = (sql_type (col_type i) False = sql_type (col_type d) False);
               genuine_widen = (\<not> physically_same \<and> is_widening (col_type i) (col_type d)) in
           if \<not> genuine_widen
           then img\<lparr>sch_columns := set_column_type (col_name d) (col_type d) (sch_columns img)\<rparr>
           else img))"

definition prefilter :: "table_schema \<Rightarrow> table_schema \<Rightarrow> table_schema" where
  "prefilter img def = foldl prefilter_column img (sch_columns def)"

definition pre_alter_index_drops ::
    "'x core_env_scheme \<Rightarrow> table_schema option \<Rightarrow> table_schema \<Rightarrow> ensure_statement list \<Rightarrow> string list" where
  "pre_alter_index_drops env planning_previous def merge_statements =
     (case planning_previous of
        None \<Rightarrow> []
      | Some prev \<Rightarrow>
          (let widened = map col_name (filter (\<lambda>d.
               case schema_column env prev (col_name d) of
                 None \<Rightarrow> False | Some old \<Rightarrow> col_type old \<noteq> col_type d) (sch_columns def)) in
           if widened = [] then []
           else concat (map (\<lambda>(_, unique_index).
             case unique_index of
               Some cols \<Rightarrow>
                 if \<exists>c \<in> set cols. c \<in> set widened
                 then [drop_index_sql env True (sch_table def) cols quote_identifier,
                       drop_index_sql env False (sch_table def) cols quote_identifier]
                 else []
             | None \<Rightarrow> []) merge_statements)))"

text \<open>Parsing a catalog type back.\<close>

definition scalar_type_of :: "string \<Rightarrow> logical_type option" where
  "scalar_type_of s =
     (if s = ''BOOLEAN'' then Some LBool
      else if s = ''BIGINT'' then Some LInt64
      else if s = ''DOUBLE'' then Some LFloat64
      else if s = ''VARCHAR'' then Some LUtf8
      else if s = ''BLOB'' then Some LBinary
      else if s = ''TIMESTAMP WITH TIME ZONE'' then Some LTimestampTz
      else if s = ''TIMESTAMP'' then Some LTimestampNaive
      else if s = ''DATE'' then Some LDate
      else if s = ''TIME'' then Some LTime
      else if s = ''JSON'' then Some LJson
      else None)"

text \<open>\<open>str::parse::<u8>\<close>\<close>

definition parse_u8 :: "string \<Rightarrow> nat option" where
  "parse_u8 = parse_unsigned 255"

definition decimal_type_of :: "string \<Rightarrow> logical_type option" where
  "decimal_type_of s =
     Option.bind (Option.bind (strip_prefix ''DECIMAL('' s) (strip_suffix '')'')) (\<lambda>body.
     Option.bind (split_once (CHR '','') body) (\<lambda>(precision, scale).
     Option.bind (parse_u8 (trim precision)) (\<lambda>p.
     Option.bind (parse_u8 (trim scale)) (\<lambda>sc. Some (LDecimal p sc)))))"

text \<open>
  The scan of \<open>split_top_level\<close>: \<open>acc\<close> is the current part, reversed. The code's \<open>i32\<close>
  depth would need \<open>2^31\<close> open parentheses to wrap and is an \<open>int\<close> here.
\<close>

fun split_go :: "int \<Rightarrow> bool \<Rightarrow> string \<Rightarrow> string \<Rightarrow> string list" where
  "split_go depth in_quotes acc [] = [rev acc]"
| "split_go depth in_quotes acc (c # cs) =
     (if c = dquote then split_go depth (\<not> in_quotes) (c # acc) cs
      else if c = CHR ''('' \<and> \<not> in_quotes then split_go (depth + 1) in_quotes (c # acc) cs
      else if c = CHR '')'' \<and> \<not> in_quotes then split_go (depth - 1) in_quotes (c # acc) cs
      else if c = CHR '','' \<and> \<not> in_quotes \<and> depth = 0 then rev acc # split_go depth in_quotes [] cs
      else split_go depth in_quotes (c # acc) cs)"

definition split_top_level :: "string \<Rightarrow> string list" where
  "split_top_level body = split_go 0 False [] body"

text \<open>The first whitespace character of a field, for an unquoted name.\<close>

fun find_ws :: "string \<Rightarrow> string \<Rightarrow> (string \<times> string) option" where
  "find_ws acc [] = None"
| "find_ws acc (c # cs) =
     (if ws_prefix (c # cs) \<noteq> 0 then Some (rev acc, c # cs) else find_ws (c # acc) cs)"

definition split_identifier :: "string \<Rightarrow> (string \<times> string) option" where
  "split_identifier field =
     (case strip_prefix [dquote] field of
        Some rest \<Rightarrow> map_option (apsnd trim_start) (scan_body dquote rest)
      | None \<Rightarrow> map_option (apsnd trim_start) (find_ws [] field))"

lemma split_go_length: "x \<in> set (split_go d q acc s) \<Longrightarrow> length x \<le> length acc + length s"
proof (induction s arbitrary: d q acc)
  case (Cons c cs)
  from Cons.prems have "x = rev acc \<or> x \<in> set (split_go d q [] cs) \<or> (\<exists>d' q'. x \<in> set (split_go d' q' (c # acc) cs))"
    by (simp split: if_splits; blast)
  then show ?case using Cons.IH by fastforce
qed simp

lemma find_ws_length: "find_ws acc s = Some (n, r) \<Longrightarrow> length r \<le> length s"
  by (induction acc s rule: find_ws.induct) (auto split: if_splits)

lemma split_identifier_length:
  assumes "split_identifier field = Some (n, r)"
  shows "length r \<le> length field"
proof (cases "strip_prefix [dquote] field")
  case (Some rest)
  with assms obtain r' where "scan_body dquote rest = Some (n, r')" "r = trim_start r'"
    by (auto simp: split_identifier_def)
  with Some scan_body_shorter [of dquote rest n r'] trim_start_length [of r'] show ?thesis
    by (auto simp: strip_prefix_Some)
next
  case None
  with assms obtain r' where "find_ws [] field = Some (n, r')" "r = trim_start r'"
    by (auto simp: split_identifier_def)
  with find_ws_length [of "[]" field n r'] trim_start_length [of r'] show ?thesis by simp
qed

text \<open>The two substrings a type text recurses into.\<close>

definition struct_body :: "string \<Rightarrow> string option" where
  "struct_body s = Option.bind (strip_prefix ''STRUCT('' s) (strip_suffix '')'')"

lemma struct_body_Some: "struct_body s = Some b \<longleftrightarrow> s = ''STRUCT('' @ b @ '')''"
proof
  assume "struct_body s = Some b"
  then obtain m where "strip_prefix ''STRUCT('' s = Some m" "strip_suffix '')'' m = Some b"
    by (auto simp: struct_body_def bind_eq_Some_conv)
  then show "s = ''STRUCT('' @ b @ '')''" unfolding strip_prefix_Some strip_suffix_Some by simp
next
  assume "s = ''STRUCT('' @ b @ '')''"
  then have "strip_prefix ''STRUCT('' s = Some (b @ '')'')" unfolding strip_prefix_Some by simp
  then show "struct_body s = Some b"
    unfolding struct_body_def by (simp add: strip_suffix_Some)
qed

function column_type_of :: "string \<Rightarrow> column_type option" where
  "column_type_of s =
     (case strip_suffix ''[]'' s of
        Some item \<Rightarrow> map_option ScalarList (scalar_type_of item)
      | None \<Rightarrow>
          (case struct_body s of
             Some body \<Rightarrow>
               map_option Struct (opt_traverse (\<lambda>field.
                 case split_identifier (trim field) of
                   None \<Rightarrow> None
                 | Some (name, rest) \<Rightarrow>
                     map_option (\<lambda>ty. Column name ty True) (column_type_of (trim rest)))
                 (split_top_level body))
           | None \<Rightarrow>
               (case scalar_type_of s of
                  Some t \<Rightarrow> Some (Scalar t)
                | None \<Rightarrow> map_option Scalar (decimal_type_of s))))"
  by pat_completeness auto
termination
proof (relation "measure length")
  fix s body field p name rest
  assume "struct_body s = Some body" and field: "field \<in> set (split_top_level body)"
    and "split_identifier (trim field) = Some p" "(name, rest) = p"
  then have "length (trim rest) \<le> length field"
    by (metis order_trans split_identifier_length trim_length)
  also have "\<dots> \<le> length body"
    using split_go_length field by (fastforce simp: split_top_level_def)
  also have "\<dots> < length s"
    using \<open>struct_body s = Some body\<close> by (simp add: struct_body_Some)
  finally show "(trim rest, s) \<in> measure length" by simp
qed simp

declare column_type_of.simps [simp del]

text \<open>
  \<open>live_schema\<close> over the rows \<open>(column_name, data_type)\<close> of \<open>information_schema\<close>: an
  unmapped spelling omits its column, and an image with no column is no image.
\<close>

definition live_columns :: "(string \<times> string) list \<Rightarrow> column list" where
  "live_columns rows = concat (map (\<lambda>(n, ty).
     case column_type_of ty of None \<Rightarrow> [] | Some t \<Rightarrow> [Column n t True]) rows)"

definition live_schema :: "(string \<times> string) list \<Rightarrow> table_schema \<Rightarrow> table_schema option" where
  "live_schema rows t =
     (if live_columns rows = [] then None
      else Some \<lparr>sch_table = sch_table t, sch_parent = sch_parent t, sch_columns = live_columns rows\<rparr>)"

end
