(* ===== verification/Duck_Catalog.thy ===== *)
theory Duck_Catalog
  imports Duck_Schema Complex_Main
begin

text \<open>
  Facts about the DuckDB DDL and catalog: the lowering never reaches its \<open>unreachable!\<close>
  arms, the catalog parser inverts the type renderer, the cross-run prefilter lets exactly
  the genuine widenings through, and a numeric widening loses no value.
\<close>

section \<open>The lowering is total\<close>

lemma table_ddl_total:
  assumes "core_ok env"
  shows "\<exists>ss. table_ddl env schema previous = Inr ss"
  unfolding table_ddl_def
proof (rule traverse_total)
  fix s assume "s \<in> set (schema_steps env schema Append Staged previous)"
  then obtain l where "s \<in> set (leg_steps env schema previous l)"
    by (auto simp: schema_steps_def Let_def split: if_splits)
  then show "\<exists>y. table_statement env schema s = Inr y"
    unfolding leg_steps_set [OF assms] by (auto simp: index_column_def split: prod.splits)
qed

lemma merge_ddl_total:
  assumes "merge_steps env o' schema mode = Inr ss"
  shows "\<exists>ms. merge_ddl env o' schema mode = Inr ms"
proof -
  have "\<exists>y. merge_statement env t scd2 s = Inr y" if "s \<in> set ss" for s t scd2
  proof -
    have "(\<exists>v. s = EnsureValidity v) \<or> (\<exists>spec. s = EnsureIndex spec)"
      using assms that
      by (cases mode) (auto simp: merge_steps_def Let_def rbind_eq_Inr split: if_splits)
    then show ?thesis by (auto simp: Let_def split: validity.splits)
  qed
  then obtain sss where "traverse (merge_statement env (sch_table schema) (scd2_for o' (sch_table schema))) ss = Inr sss"
    using traverse_total by metis
  with assms show ?thesis by (simp add: merge_ddl_def Let_def)
qed

lemma merge_ddl_no_panic: "merge_ddl env o' schema mode \<noteq> Inl Panic"
proof (cases "merge_steps env o' schema mode")
  case (Inr ss)
  from merge_ddl_total [OF this] show ?thesis by auto
qed (simp add: merge_ddl_def Let_def)

text \<open>
  Neither lowering can hit an \<open>unreachable!\<close> arm or index past the schema: phase 1
  always yields statements, and phase 2 fails only with a validation error.
\<close>

theorem duck_ddl_never_panics:
  assumes "core_ok env"
  shows "(\<exists>ss. table_ddl env schema previous = Inr ss) \<and> merge_ddl env o' schema mode \<noteq> Inl Panic"
  using table_ddl_total [OF assms] merge_ddl_no_panic by blast

theorem duck_ddl_never_panics_witness:
  "(\<exists>ss. table_ddl demo_env demo_schema (Some demo_schema_old) = Inr ss)"
  using duck_ddl_never_panics [OF demo_env_ok] by blast

section \<open>Trimming rendered text\<close>

definition solid_ends :: "string \<Rightarrow> bool" where
  "solid_ends s \<longleftrightarrow> s \<noteq> [] \<and> solid (hd s) \<and> solid (last s)"

lemma trim_start_ends [simp]: "solid_ends s \<Longrightarrow> trim_start s = s"
  by (cases s) (auto simp: solid_ends_def)

lemma trim_end_ends [simp]: "solid_ends s \<Longrightarrow> trim_end s = s"
  by (cases s rule: rev_cases) (auto simp: solid_ends_def)

lemma trim_ends [simp]: "solid_ends s \<Longrightarrow> trim s = s"
  by (simp add: trim_def)

lemma ws_prefix_space: "ws_prefix (CHR '' '' # s) = 1"
  by (simp add: ws_prefix_def ws_char_def)

lemma trim_start_space [simp]: "trim_start (CHR '' '' # s) = trim_start s"
  by (subst trim_start.simps) (simp add: ws_prefix_space)

lemma trim_space [simp]: "trim (CHR '' '' # s) = trim s"
  by (simp add: trim_def)

lemma solid_simps [simp]:
  "solid dquote" "solid (CHR '')'')" "solid (CHR '']'')" "\<not> solid (CHR '' '')"
  by (simp_all add: solid_def)

section \<open>Numbers\<close>

lemma show_nat_ends [simp]: "solid_ends (show_nat n)"
  using show_nat_digits [of n] by (simp add: solid_ends_def digit_solid)

lemma parse_u8_show: "n \<le> 255 \<Longrightarrow> parse_u8 (show_nat n) = Some n"
  by (simp add: parse_u8_def parse_unsigned_show)

lemma decimal_type_of_render: "p \<le> 255 \<Longrightarrow> s \<le> 255 \<Longrightarrow>
    decimal_type_of (''DECIMAL('' @ show_nat p @ '','' @ show_nat s @ '')'') = Some (LDecimal p s)"
proof -
  assume le: "p \<le> 255" "s \<le> 255"
  have comma: "CHR '','' \<notin> set (show_nat p)"
    using show_nat_digits [of p] by (auto simp: digit_def)
  have "strip_prefix ''DECIMAL('' (''DECIMAL('' @ show_nat p @ '','' @ show_nat s @ '')'') =
      Some ((show_nat p @ CHR '','' # show_nat s) @ '')'')"
    unfolding strip_prefix_Some by simp
  moreover have "strip_suffix '')'' ((show_nat p @ CHR '','' # show_nat s) @ '')'') = Some (show_nat p @ CHR '','' # show_nat s)"
    unfolding strip_suffix_Some by simp
  ultimately show ?thesis
    using le by (simp add: decimal_type_of_def split_once_append [OF comma] parse_u8_show)
qed

section \<open>The parser inverts the renderer\<close>

text \<open>
  What a rendered target column reads back as: text for a UUID, and every field of a
  struct nullable, because the DDL carries neither.
\<close>

definition physical_scalar :: "logical_type \<Rightarrow> logical_type" where
  "physical_scalar t = (if t = LUuid then LUtf8 else t)"

primrec physical :: "column_type \<Rightarrow> column_type"
  and physical_field :: "column \<Rightarrow> column" where
  "physical (Scalar t) = Scalar (physical_scalar t)"
| "physical (ScalarList t) = ScalarList (physical_scalar t)"
| "physical (Struct fs) = Struct (map physical_field fs)"
| "physical_field (Column n t nl) = Column n (physical t) True"

text \<open>
  The types the catalog can express: \<open>u8\<close> decimals, no empty struct, and no list of
  decimals (\<open>column_type_of\<close> reads a list item with \<open>scalar_type_of\<close>, which knows none).
\<close>

definition u8_scalar :: "logical_type \<Rightarrow> bool" where
  "u8_scalar t \<longleftrightarrow> (case t of LDecimal p s \<Rightarrow> p \<le> 255 \<and> s \<le> 255 | _ \<Rightarrow> True)"

definition is_decimal :: "logical_type \<Rightarrow> bool" where
  "is_decimal t \<longleftrightarrow> (case t of LDecimal p s \<Rightarrow> True | _ \<Rightarrow> False)"

primrec catalog_ok :: "column_type \<Rightarrow> bool"
  and catalog_ok_field :: "column \<Rightarrow> bool" where
  "catalog_ok (Scalar t) \<longleftrightarrow> u8_scalar t"
| "catalog_ok (ScalarList t) \<longleftrightarrow> \<not> is_decimal t"
| "catalog_ok (Struct fs) \<longleftrightarrow> fs \<noteq> [] \<and> list_all id (map catalog_ok_field fs)"
| "catalog_ok_field (Column n t nl) \<longleftrightarrow> catalog_ok t"

text \<open>\<open>skips d s\<close>: from depth \<open>d\<close> the field splitter passes over \<open>s\<close> without a cut.\<close>

definition skips :: "int \<Rightarrow> string \<Rightarrow> bool" where
  "skips d s \<longleftrightarrow> (\<forall>acc rest. split_go d False acc (s @ rest) = split_go d False (rev s @ acc) rest)"

lemma skipsD: "skips d s \<Longrightarrow> split_go d False acc (s @ rest) = split_go d False (rev s @ acc) rest"
  by (simp add: skips_def)

lemma skips_Nil [simp]: "skips d []"
  by (simp add: skips_def)

lemma skips_append: "skips d a \<Longrightarrow> skips d b \<Longrightarrow> skips d (a @ b)"
  by (simp add: skips_def)

definition plain :: "char \<Rightarrow> bool" where
  "plain c \<longleftrightarrow> c \<notin> {dquote, CHR ''('', CHR '')'', CHR '',''}"

lemma skips_plain: "\<forall>c \<in> set s. plain c \<Longrightarrow> skips d s"
  by (induction s) (auto simp: skips_def plain_def)

lemma skips_comma: "d \<noteq> 0 \<Longrightarrow> skips d '',''"
  by (simp add: skips_def)

lemma skips_parens: "skips (d + 1) s \<Longrightarrow> skips d (''('' @ s @ '')'')"
  by (simp add: skips_def)

lemma skips_call: "\<forall>c \<in> set f. plain c \<Longrightarrow> skips (d + 1) s \<Longrightarrow> skips d (f @ ''('' @ s @ '')'')"
  by (rule skips_append [OF skips_plain skips_parens])

lemma skips_quoted_body:
  "split_go d True acc (replace_char dquote [dquote, dquote] n @ rest) =
   split_go d True (rev (replace_char dquote [dquote, dquote] n) @ acc) rest"
  by (induction n arbitrary: acc) auto

lemma skips_quoted: "skips d (quote_identifier n)"
  by (simp add: skips_def quote_identifier_def enclose_def skips_quoted_body)

lemma skips_join: "(\<And>s. s \<in> set ss \<Longrightarrow> skips d s) \<Longrightarrow> d \<noteq> 0 \<Longrightarrow> skips d (join '', '' ss)"
proof (induction "'', ''" ss rule: join.induct)
  case (3 x y ys)
  have "skips d ('','' @ '' '' @ join '', '' (y # ys))"
    using 3 by (intro skips_append skips_comma) (auto intro: skips_plain simp: plain_def)
  with 3 show ?case by (simp add: skips_append)
qed auto

lemma digit_plain: "digit c \<Longrightarrow> plain c"
  by (auto simp: digit_def plain_def)

lemma skips_nat: "skips d (show_nat n)"
  using show_nat_digits digit_plain by (blast intro: skips_plain)

lemma skips_decimal:
  assumes "d \<ge> 0"
  shows "skips d (''DECIMAL('' @ show_nat p @ '','' @ show_nat s @ '')'')"
proof -
  have "skips (d + 1) (show_nat p @ '','' @ show_nat s)"
    using assms by (intro skips_append skips_nat skips_comma) simp
  then show ?thesis using skips_call [of "''DECIMAL''" d "show_nat p @ '','' @ show_nat s"] by (simp add: plain_def)
qed

lemma skips_scalar: "d \<ge> 0 \<Longrightarrow> skips d (scalar_type t False)"
  using skips_decimal by (cases t) (auto intro!: skips_plain simp: plain_def)

lemma skips_type:
  shows "d \<ge> 0 \<Longrightarrow> skips d (sql_type t False)" and "d \<ge> 0 \<Longrightarrow> skips d (sql_field f False)"
proof (induction t and f arbitrary: d and d)
  case (Struct fs)
  have "skips (d + 1) (join '', '' (map (\<lambda>f. f False) (map sql_field fs)))"
    using Struct by (intro skips_join) auto
  then show ?case using skips_call [of "''STRUCT''"] by (simp add: plain_def)
next
  case (ScalarList t)
  then have "skips d (scalar_type t False @ ''[]'')"
    by (intro skips_append skips_scalar) (auto intro: skips_plain simp: plain_def)
  then show ?case by simp
next
  case (Column n t nl)
  then have "skips d (quote_identifier n @ '' '' @ sql_type t False)"
    by (intro skips_append skips_quoted) (auto intro: skips_plain simp: plain_def)
  then show ?case by simp
qed (auto intro: skips_scalar)

text \<open>Splitting a joined field list gives the fields back, a space before each but the first.\<close>

lemma split_go_join: "(\<And>s. s \<in> set (x # xs) \<Longrightarrow> skips 0 s) \<Longrightarrow>
    split_go 0 False acc (join '', '' (x # xs)) = (rev acc @ x) # map ((#) CHR '' '') xs"
proof (induction xs arbitrary: x acc)
  case Nil
  then have "split_go 0 False acc (x @ []) = split_go 0 False (rev x @ acc) []" by (intro skipsD) simp
  then show ?case by simp
next
  case (Cons y ys)
  have "split_go 0 False acc (x @ '', '' @ join '', '' (y # ys)) =
      split_go 0 False (rev x @ acc) ('', '' @ join '', '' (y # ys))"
    using Cons.prems by (intro skipsD) simp
  moreover have "split_go 0 False '' '' (join '', '' (y # ys)) = ('' '' @ y) # map ((#) CHR '' '') ys"
    using Cons.IH [of y "'' ''"] Cons.prems by simp
  ultimately show ?case by simp
qed

lemma split_top_level_join:
  assumes "\<And>s. s \<in> set ss \<Longrightarrow> skips 0 s" and "ss \<noteq> []"
  shows "map trim (split_top_level (join '', '' ss)) = map trim ss"
proof (cases ss)
  case (Cons x xs)
  with assms have "split_top_level (join '', '' ss) = x # map ((#) CHR '' '') xs"
    using split_go_join [of x xs "[]"] by (simp add: split_top_level_def)
  with Cons show ?thesis by simp
qed (use assms in simp)


lemma sql_type_ends: "solid_ends (sql_type t False)"
proof (cases t)
  case (Scalar s)
  then show ?thesis by (cases s) (auto simp: solid_ends_def solid_def)
next
  case (ScalarList s)
  then show ?thesis by (cases s) (auto simp: solid_ends_def solid_def)
qed (auto simp: solid_ends_def solid_def)

lemma sql_field_ends: "solid_ends (sql_field f False)"
proof (cases f)
  case (Column n t nl)
  with sql_type_ends [of t] show ?thesis
    by (auto simp: solid_ends_def quote_identifier_def enclose_def)
qed

lemma split_identifier_field: "split_identifier (quote_identifier n @ CHR '' '' # sql_type t False) = Some (n, sql_type t False)"
proof -
  have "strip_prefix [dquote] (quote_identifier n @ CHR '' '' # sql_type t False) =
      Some (replace_char dquote [dquote, dquote] n @ dquote # CHR '' '' # sql_type t False)"
    by (simp add: strip_prefix_Some quote_identifier_def enclose_def)
  moreover have "scan_body dquote (replace_char dquote [dquote, dquote] n @ dquote # CHR '' '' # sql_type t False) =
      Some (n, CHR '' '' # sql_type t False)"
    by (rule scan_body_replace) auto
  ultimately show ?thesis
    using sql_type_ends by (simp add: split_identifier_def)
qed

lemma scalar_type_of_render: "\<not> is_decimal t \<Longrightarrow> scalar_type_of (scalar_type t False) = Some (physical_scalar t)"
  by (cases t) (auto simp: scalar_type_of_def physical_scalar_def is_decimal_def)

lemma scalar_no_list: "strip_suffix ''[]'' (scalar_type t False) = None"
proof -
  have "last (scalar_type t False) \<noteq> CHR '']''" by (cases t) auto
  then show ?thesis
    by (cases "strip_suffix ''[]'' (scalar_type t False)") (auto simp: strip_suffix_Some)
qed

lemma scalar_no_struct: "struct_body (scalar_type t False) = None"
proof (cases "struct_body (scalar_type t False)")
  case (Some b)
  then have "scalar_type t False = ''STRUCT('' @ b @ '')''" by (simp add: struct_body_Some)
  then have "take 1 (scalar_type t False) = ''S''" by simp
  then show ?thesis by (cases t) auto
qed

lemma column_type_of_scalar:
  assumes "u8_scalar t"
  shows "column_type_of (scalar_type t False) = Some (Scalar (physical_scalar t))"
proof (cases "is_decimal t")
  case True
  then obtain p s where t: "t = LDecimal p s" by (auto simp: is_decimal_def split: logical_type.splits)
  have "scalar_type_of (scalar_type t False) = None" by (simp add: t scalar_type_of_def)
  moreover have "decimal_type_of (scalar_type t False) = Some (physical_scalar t)"
    using assms decimal_type_of_render [of p s] by (simp add: t u8_scalar_def physical_scalar_def)
  ultimately show ?thesis
    by (subst column_type_of.simps) (simp add: scalar_no_list scalar_no_struct)
next
  case False
  then show ?thesis
    by (subst column_type_of.simps) (simp add: scalar_no_list scalar_no_struct scalar_type_of_render)
qed

lemma opt_traverse_map: "opt_traverse f (map g xs) = opt_traverse (\<lambda>x. f (g x)) xs"
  by (induction xs) (auto split: option.splits)

lemma opt_traverse_Some: "(\<And>x. x \<in> set xs \<Longrightarrow> f x = Some (g x)) \<Longrightarrow> opt_traverse f xs = Some (map g xs)"
  by (induction xs) auto

lemma column_type_of_struct:
  assumes body: "struct_body s = Some body"
  shows "column_type_of s = map_option Struct (opt_traverse (\<lambda>field.
      case split_identifier field of None \<Rightarrow> None
      | Some (name, rest) \<Rightarrow> map_option (\<lambda>ty. Column name ty True) (column_type_of (trim rest)))
    (map trim (split_top_level body)))"
proof -
  have "strip_suffix ''[]'' s = None"
    using body by (cases "strip_suffix ''[]'' s") (auto simp: struct_body_Some strip_suffix_Some append_eq_append_conv2 Cons_eq_append_conv)
  with body show ?thesis by (subst column_type_of.simps) (simp add: opt_traverse_map)
qed

lemma column_type_of_fields:
  assumes "fs \<noteq> []" and fields: "\<And>f. f \<in> set fs \<Longrightarrow> column_type_of (sql_type (col_type f) False) = Some (physical (col_type f))"
  shows "column_type_of (sql_type (Struct fs) False) = Some (physical (Struct fs))"
proof -
  let ?ss = "map (\<lambda>f. sql_field f False) fs"
  have body: "struct_body (sql_type (Struct fs) False) = Some (join '', '' ?ss)"
    by (simp add: struct_body_Some comp_def)
  have trims: "map trim (split_top_level (join '', '' ?ss)) = ?ss"
    using assms(1) by (subst split_top_level_join) (auto intro: skips_type(2) simp: sql_field_ends)
  have "opt_traverse (\<lambda>field. case split_identifier field of None \<Rightarrow> None
      | Some (name, rest) \<Rightarrow> map_option (\<lambda>ty. Column name ty True) (column_type_of (trim rest))) ?ss =
      Some (map physical_field fs)"
    unfolding opt_traverse_map
  proof (rule opt_traverse_Some)
    fix f assume f: "f \<in> set fs"
    obtain n ty nl where "f = Column n ty nl" by (cases f) blast
    with fields [OF f] show "(case split_identifier (sql_field f False) of None \<Rightarrow> None
        | Some (name, rest) \<Rightarrow> map_option (\<lambda>ty. Column name ty True) (column_type_of (trim rest))) =
        Some (physical_field f)"
      by (simp add: split_identifier_field sql_type_ends)
  qed
  then show ?thesis unfolding column_type_of_struct [OF body] trims by simp
qed

lemma column_type_of_render:
  shows "catalog_ok t \<Longrightarrow> column_type_of (sql_type t False) = Some (physical t)"
    and "catalog_ok_field f \<Longrightarrow> column_type_of (sql_type (col_type f) False) = Some (physical (col_type f))"
proof (induction t and f)
  case (Struct fs)
  then have "fs \<noteq> []" by simp
  moreover have "column_type_of (sql_type (col_type f) False) = Some (physical (col_type f))" if "f \<in> set fs" for f
    using Struct that by (auto simp: list_all_iff)
  ultimately show ?case by (rule column_type_of_fields)
next
  case (ScalarList t)
  have "strip_suffix ''[]'' (scalar_type t False @ ''[]'') = Some (scalar_type t False)"
    by (simp add: strip_suffix_Some)
  with ScalarList show ?case by (subst column_type_of.simps) (simp add: scalar_type_of_render)
qed (simp_all add: column_type_of_scalar)

text \<open>
  C31. Parsing the type text that the DDL renders for a target relation gives the column type
  back, for nested structs and field names with any character, quoted as the DDL quotes them. It is
  the physical type that comes back: every field nullable, and a UUID as the text it is stored in.
  The types are those the catalog can express (\<open>catalog_ok\<close>): structs with a field, decimals of
  \<open>u8\<close> precision and scale, and no list of decimals, which renders to a type the parser refuses
  (\<open>decimal_list_lost\<close>).
\<close>

theorem column_type_roundtrip:
  assumes "catalog_ok t"
  shows "column_type_of (sql_type t False) = Some (physical t)"
  using assms by (rule column_type_of_render(1))

definition demo_struct :: column_type where
  "demo_struct = Struct [Column ''a, b'' (Scalar (LDecimal 38 9)) False,
     Column [dquote] (Struct [Column ''c'' (ScalarList LUuid) True]) True]"

theorem column_type_roundtrip_witness: "column_type_of (sql_type demo_struct False) = Some (physical demo_struct)"
  by (rule column_type_roundtrip) (simp add: demo_struct_def u8_scalar_def is_decimal_def)

text \<open>A list of decimals renders to a type the parser refuses.\<close>

lemma decimal_list_lost: "column_type_of (sql_type (ScalarList (LDecimal p s)) False) = None"
proof -
  have "strip_suffix ''[]'' (sql_type (ScalarList (LDecimal p s)) False) = Some (scalar_type (LDecimal p s) False)"
    by (simp add: strip_suffix_Some)
  moreover have "scalar_type_of (scalar_type (LDecimal p s) False) = None" by (simp add: scalar_type_of_def)
  ultimately show ?thesis by (subst column_type_of.simps) simp
qed

section \<open>The cross-run prefilter\<close>

lemma find_set_column: "find (\<lambda>c. col_name c = m) (set_column_type n ty cs) =
    (if m = n then map_option (\<lambda>c. Column n ty (nullable c)) (find (\<lambda>c. col_name c = n) cs)
     else find (\<lambda>c. col_name c = m) cs)"
  by (induction n ty cs rule: set_column_type.induct) auto

text \<open>A live column of another physical type that the lattice lets the DDL rebuild.\<close>

definition genuine_widen :: "column \<Rightarrow> column \<Rightarrow> bool" where
  "genuine_widen old d \<longleftrightarrow>
     sql_type (col_type old) False \<noteq> sql_type (col_type d) False \<and> is_widening (col_type old) (col_type d)"

lemma prefilter_column_find: "find_column (prefilter_column img e) m =
    (if m = col_name e
     then map_option (\<lambda>old. if genuine_widen old e then old else Column (col_name e) (col_type e) (nullable old))
       (find_column img m)
     else find_column img m)"
  by (auto simp: prefilter_column_def genuine_widen_def find_column_def find_set_column Let_def split: option.splits)

lemma prefilter_fold_find:
  assumes "distinct (map col_name ds)"
  shows "find_column (foldl prefilter_column img ds) m =
    (case find (\<lambda>d. col_name d = m) ds of
       None \<Rightarrow> find_column img m
     | Some e \<Rightarrow> map_option (\<lambda>old. if genuine_widen old e then old else Column (col_name e) (col_type e) (nullable old))
         (find_column img m))"
  using assms
proof (induction ds arbitrary: img)
  case (Cons e ds)
  have "find (\<lambda>d. col_name d = col_name e) ds = None"
    using Cons.prems by (simp add: find_None_iff image_iff) metis
  with Cons show ?case by (auto simp: prefilter_column_find split: option.splits)
qed simp

lemma find_distinct: "distinct (map col_name ds) \<Longrightarrow> d \<in> set ds \<Longrightarrow> find (\<lambda>c. col_name c = col_name d) ds = Some d"
  by (induction ds) (auto simp: image_iff)

lemma prefilter_find:
  assumes "distinct (map col_name (sch_columns def))" and "d \<in> set (sch_columns def)"
  shows "find_column (prefilter img def) (col_name d) =
    map_option (\<lambda>old. if genuine_widen old d then old else Column (col_name d) (col_type d) (nullable old))
      (find_column img (col_name d))"
  using prefilter_fold_find [OF assms(1)] find_distinct [OF assms] by (simp add: prefilter_def)

lemma genuine_differs: "genuine_widen old d \<Longrightarrow> col_type old \<noteq> col_type d"
  by (auto simp: genuine_widen_def)

text \<open>
  Against a catalog image, the DDL alters a column on a relation exactly when the live
  column has another physical type the lattice widens from: a column the image agrees
  with physically, and every narrowing or incompatible drift, plans no ALTER.
\<close>

theorem cross_run_widen_iff:
  assumes "core_ok env" and "distinct (map col_name (sch_columns def))" and "i < length (sch_columns def)"
  shows "EnsureWiden l i \<in> set (schema_steps env def Append Staged (Some (prefilter img def))) \<longleftrightarrow>
    (\<exists>old. find_column img (col_name (sch_columns def ! i)) = Some old \<and> genuine_widen old (sch_columns def ! i))"
proof -
  let ?d = "sch_columns def ! i"
  have "find_column (prefilter img def) (col_name ?d) =
      map_option (\<lambda>old. if genuine_widen old ?d then old else Column (col_name ?d) (col_type ?d) (nullable old))
        (find_column img (col_name ?d))"
    using assms(2,3) by (intro prefilter_find) auto
  then have "widened (Some (prefilter img def)) ?d \<longleftrightarrow>
      (\<exists>old. find_column img (col_name ?d) = Some old \<and> genuine_widen old ?d)"
    using genuine_differs by (cases "find_column img (col_name ?d)") (simp_all add: widened_def)
  moreover have "EnsureWiden l i \<in> set (schema_steps env def Append Staged (Some (prefilter img def))) \<longleftrightarrow>
      widened (Some (prefilter img def)) ?d"
    using assms(3) by (cases l) (auto simp: schema_steps_def uses_stage_def leg_steps_set [OF assms(1)])
  ultimately show ?thesis by simp
qed

theorem cross_run_widen_iff_witness:
  "EnsureWiden Target 0 \<in> set (schema_steps demo_env demo_schema_old Append Staged (Some (prefilter demo_schema demo_schema_old)))"
  by (subst cross_run_widen_iff [OF demo_env_ok])
    (simp_all add: demo_schema_def demo_schema_old_def find_column_def genuine_widen_def is_widening_def)

section \<open>A numeric widening loses no value\<close>

text \<open>The numbers a column of an exact numeric type can hold.\<close>

definition stores :: "logical_type \<Rightarrow> rat \<Rightarrow> bool" where
  "stores t v \<longleftrightarrow> (case t of
       LInt64 \<Rightarrow> \<exists>i. v = of_int i \<and> - (2 ^ 63) \<le> i \<and> i < 2 ^ 63
     | LDecimal p s \<Rightarrow> \<exists>m. v = of_int m / 10 ^ s \<and> \<bar>m\<bar> < 10 ^ p
     | _ \<Rightarrow> False)"

lemma rescale: "s \<le> s' \<Longrightarrow> (of_int m / 10 ^ s :: rat) = of_int (m * 10 ^ (s' - s)) / 10 ^ s'"
  by (simp add: field_simps flip: power_add)

lemma of_int_pow: "(of_int (10 ^ n) :: rat) = 10 ^ n"
  by simp

lemma same_value: "(of_int m / 10 ^ s :: rat) = of_int m' / 10 ^ s' \<longleftrightarrow> m * 10 ^ s' = m' * 10 ^ s"
proof -
  have "(of_int m / 10 ^ s :: rat) = of_int m' / 10 ^ s' \<longleftrightarrow> (of_int (m * 10 ^ s') :: rat) = of_int (m' * 10 ^ s)"
    by (simp add: field_simps)
  also have "\<dots> \<longleftrightarrow> m * 10 ^ s' = m' * 10 ^ s" by (simp only: of_int_eq_iff)
  finally show ?thesis .
qed

lemma decimal_fits:
  assumes "s \<le> s'" "p - s \<le> p' - s'" "s \<le> p" "s' \<le> p'" "\<bar>m\<bar> < 10 ^ p"
  shows "\<bar>m * 10 ^ (s' - s)\<bar> < (10 :: int) ^ p'"
proof -
  have "\<bar>m * 10 ^ (s' - s)\<bar> < 10 ^ p * 10 ^ (s' - s)"
    using assms(5) by (simp add: abs_mult)
  also have "\<dots> = 10 ^ (p + (s' - s))" by (simp add: power_add)
  also have "\<dots> \<le> 10 ^ p'" using assms(1-4) by (intro power_increasing) auto
  finally show ?thesis .
qed

lemma big_decimal: "1 \<le> p \<Longrightarrow> (10 :: int) ^ (p - 1) \<le> 10 ^ p - 1"
  by (cases p) auto

lemma needs_precision:
  assumes "N * 10 ^ k < (10 :: int) ^ p" and "10 ^ n \<le> N"
  shows "n + k < p"
proof (rule ccontr)
  assume "\<not> n + k < p"
  then have "(10 :: int) ^ p \<le> 10 ^ n * 10 ^ k" by (simp flip: power_add)
  also have "\<dots> \<le> N * 10 ^ k" using assms(2) by simp
  finally show False using assms(1) by simp
qed

lemma decimal_widening_exact:
  assumes "1 \<le> p" "s \<le> p" "s' \<le> p'"
  shows "(\<forall>v. stores (LDecimal p s) v \<longrightarrow> stores (LDecimal p' s') v) \<longleftrightarrow> s \<le> s' \<and> p - s \<le> p' - s'"
proof
  assume all: "\<forall>v. stores (LDecimal p s) v \<longrightarrow> stores (LDecimal p' s') v"
  have keep: "\<exists>m'. m * 10 ^ s' = m' * 10 ^ s \<and> \<bar>m'\<bar> < 10 ^ p'" if "\<bar>m\<bar> < 10 ^ p" for m :: int
    using all that by (auto simp: stores_def same_value)
  have "(1 :: int) < 10 ^ p" using assms(1) by simp
  with keep [of 1] obtain m' :: int where "10 ^ s' = m' * 10 ^ s" by auto
  then have "(10 :: int) ^ s dvd 10 ^ s'" by simp
  then have s: "s \<le> s'" using zdvd_imp_le [of "10 ^ s" "10 ^ s'"] by simp
  obtain m' :: int where m': "(10 ^ p - 1) * 10 ^ s' = m' * 10 ^ s" "\<bar>m'\<bar> < 10 ^ p'"
    using keep [of "10 ^ p - 1"] assms(1) by auto
  have "(10 :: int) ^ s' = 10 ^ (s' - s) * 10 ^ s" using s by (simp flip: power_add)
  with m' have "m' = (10 ^ p - 1) * 10 ^ (s' - s)" by simp
  with m'(2) have "(10 ^ p - 1) * 10 ^ (s' - s) < (10 :: int) ^ p'" by simp
  then have "p - 1 + (s' - s) < p'" using big_decimal [OF assms(1)] by (rule needs_precision)
  with s assms show "s \<le> s' \<and> p - s \<le> p' - s'" by auto
next
  assume "s \<le> s' \<and> p - s \<le> p' - s'"
  then show "\<forall>v. stores (LDecimal p s) v \<longrightarrow> stores (LDecimal p' s') v"
    using assms decimal_fits [of s s' p p'] rescale [of s s']
    unfolding stores_def logical_type.case by metis
qed

lemma int64_widening_exact:
  assumes "s' \<le> p'"
  shows "(\<forall>v. stores LInt64 v \<longrightarrow> stores (LDecimal p' s') v) \<longleftrightarrow> 19 \<le> p' - s'"
proof
  assume all: "\<forall>v. stores LInt64 v \<longrightarrow> stores (LDecimal p' s') v"
  have "stores LInt64 (of_int (2 ^ 63 - 1))" unfolding stores_def by simp
  with all have "stores (LDecimal p' s') (of_int (2 ^ 63 - 1))" by blast
  then obtain m' :: int where "of_int (2 ^ 63 - 1) / 10 ^ 0 = (of_int m' / 10 ^ s' :: rat)" "\<bar>m'\<bar> < 10 ^ p'"
    unfolding stores_def logical_type.case by (metis div_by_1 power_0)
  then have "(2 ^ 63 - 1) * 10 ^ s' < (10 :: int) ^ p'" unfolding same_value by simp
  then have "18 + s' < p'" by (rule needs_precision) simp
  then show "19 \<le> p' - s'" by simp
next
  assume le: "19 \<le> p' - s'"
  show "\<forall>v. stores LInt64 v \<longrightarrow> stores (LDecimal p' s') v"
  proof (intro allI impI)
    fix v assume "stores LInt64 v"
    then obtain i :: int where i: "v = of_int i" "\<bar>i\<bar> < 10 ^ 19" by (auto simp: stores_def)
    have "\<bar>i * 10 ^ (s' - 0)\<bar> < 10 ^ p'"
      using decimal_fits [of 0 s' 19 p' i] i(2) le assms by simp
    moreover have "v = of_int (i * 10 ^ (s' - 0)) / 10 ^ s'"
      using rescale [of 0 s' i] i(1) by simp
    ultimately show "stores (LDecimal p' s') v" unfolding stores_def logical_type.case by blast
  qed
qed

text \<open>
  C33. From an exact numeric column to a decimal, the widening lattice is exact: it lets an
  ALTER through precisely when every number the old column can hold is representable
  in the new one.
\<close>

theorem numeric_widening_exact:
  assumes "a = LInt64 \<or> (\<exists>p s. a = LDecimal p s \<and> 1 \<le> p \<and> s \<le> p)" and "s' \<le> p'"
  shows "is_widening (Scalar a) (Scalar (LDecimal p' s')) \<longleftrightarrow> (\<forall>v. stores a v \<longrightarrow> stores (LDecimal p' s') v)"
proof (cases "a = LInt64")
  case True
  with int64_widening_exact [OF assms(2)] show ?thesis by (simp add: is_widening_def)
next
  case False
  with assms obtain p s where "a = LDecimal p s" "1 \<le> p" "s \<le> p" by blast
  with decimal_widening_exact [OF this(2,3) assms(2)] show ?thesis by (simp add: is_widening_def)
qed

theorem numeric_widening_exact_witness:
  "\<not> (\<forall>v. stores (LDecimal 10 2) v \<longrightarrow> stores (LDecimal 18 11) v)"
proof -
  have "\<not> is_widening (Scalar (LDecimal 10 2)) (Scalar (LDecimal 18 11))" by (simp add: is_widening_def)
  then show ?thesis by (subst (asm) numeric_widening_exact) auto
qed

end
