(* ===== verification/Duck_Session.thy ===== *)
theory Duck_Session
  imports Duck_Catalog "HOL-Library.Word"
begin

text \<open>
  \<^verbatim>\<open>crates/rdlt-connector-duckdb/src/destination/client.rs\<close> (the error rulebook and the
  in-process open registry) and \<^verbatim>\<open>load.rs\<close> (one load session: ensure, write, the
  one-transaction commit, replay). The DuckDB library is a parameter: a record of its
  calls on a database state \<open>'d\<close>.
\<close>

section \<open>client.rs\<close>

text \<open>\<open>duckdb::Error\<close>: the variants the code looks at; \<open>err_text\<close> is its \<open>Display\<close>.\<close>

datatype duckdb_error =
    DuckDBFailure (err_text: string) "string option"
  | QueryReturnedNoRows (err_text: string)
  | OtherError (err_text: string)

definition OPEN_TEMPLATE :: string where "OPEN_TEMPLATE = ''Cannot open file''"
definition MEASURED_SUFFIXES :: "string list" where
  "MEASURED_SUFFIXES = [''No such file or directory'', ''Permission denied'']"
definition LOCK_TEMPLATE :: string where "LOCK_TEMPLATE = ''Could not set lock on file''"

definition classify :: "duckdb_error \<Rightarrow> dest_error" where
  "classify e =
     (case e of
        DuckDBFailure _ (Some message) \<Rightarrow>
          if starts_with ''IO Error'' message
          then (if contains OPEN_TEMPLATE message \<and> (\<exists>s \<in> set MEASURED_SUFFIXES. contains s message)
                then Fatal (err_text e)
                else if contains LOCK_TEMPLATE message then Fatal (err_text e)
                else Transient (err_text e))
          else Fatal (err_text e)
      | _ \<Rightarrow> Fatal (err_text e))"

definition is_constraint_violation :: "duckdb_error \<Rightarrow> bool" where
  "is_constraint_violation e \<longleftrightarrow>
     (case e of DuckDBFailure _ (Some message) \<Rightarrow> starts_with ''Constraint Error'' message | _ \<Rightarrow> False)"

definition is_index_dependency_error :: "duckdb_error \<Rightarrow> bool" where
  "is_index_dependency_error e \<longleftrightarrow>
     (case e of DuckDBFailure _ (Some message) \<Rightarrow> contains ''an index depends on it!'' message | _ \<Rightarrow> False)"

definition index_dependency_diagnosis :: "string \<Rightarrow> string \<Rightarrow> string" where
  "index_dependency_diagnosis statement cause =
     ''a cross-run widen is blocked by an index: '' @ bq statement @ '' '' @ em_dash @
     '' an index still depends on this column (a plain identity/merge-key/scope index, not the '' @
     ''upsert arbiter, which this destination already clears itself); drop the '' @
     ''index manually and re-run so ensure recreates it after the widen, or leave '' @
     ''the column's type as it was if the index is load-bearing: '' @ cause"

datatype setup_stmt = Setting string string | Extension string

fun setup_render :: "setup_stmt \<Rightarrow> string" where
  "setup_render (Setting key value) =
     ''SET '' @ key @ ''='' @ [squote] @ replace_char squote [squote, squote] value @ [squote]"
| "setup_render (Extension name) = ''LOAD '' @ name"

fun setup_describe :: "setup_stmt \<Rightarrow> string" where
  "setup_describe (Setting key value) = ''duckdb setting '' @ bq key"
| "setup_describe (Extension name) = ''duckdb extension '' @ bq name"

definition double_open_refusal :: "string \<Rightarrow> dest_error" where
  "double_open_refusal path =
     Fatal (''duckdb database '' @ bq path @ '' is already open in this process '' @ em_dash @ '' a second '' @
       ''instance cannot see the first's writes and a read-write open '' @
       ''would truncate its WAL; share the one destination'')"

text \<open>
  \<open>Db::connect\<close> on the process registry \<open>open_paths\<close>, whose mutex is taken not to be poisoned. The file system and the library
  answer through the arguments: the canonical spelling before the open (\<open>None\<close> when the
  file is not there yet), the result of \<open>Connection::open\<close>, the canonical spelling after
  it, and the results of the setup statements. The boolean of the outcome says whether
  \<open>Connection::open\<close> was performed.
\<close>

record open_env =
  canon_before :: "string option"
  open_result :: "(duckdb_error, unit) result"
  canon_after :: "(string, string) result"
  setup_result :: "setup_stmt \<Rightarrow> (duckdb_error, unit) result"

definition claim_path ::
    "open_env \<Rightarrow> string \<Rightarrow> string set \<Rightarrow> (dest_error, string) result \<times> string set \<times> bool" where
  "claim_path fs path reg =
     (if (case canon_before fs of Some c \<Rightarrow> c \<in> reg | None \<Rightarrow> False)
      then (Inl (double_open_refusal path), reg, False)
      else
        (case open_result fs of
           Inl e \<Rightarrow> (Inl (classify e), reg, True)
         | Inr _ \<Rightarrow>
             (case canon_after fs of
                Inl e \<Rightarrow> (Inl (Fatal (''cannot canonicalize '' @ bq path @ '': '' @ e)), reg, True)
              | Inr c \<Rightarrow>
                  if c \<in> reg then (Inl (double_open_refusal path), reg, True)
                  else (Inr c, insert c reg, True))))"

text \<open>A failed setup statement drops the claim, whose \<open>Drop\<close> frees the path.\<close>

definition run_setup :: "open_env \<Rightarrow> setup_stmt \<Rightarrow> (dest_error, unit) result" where
  "run_setup fs s =
     (case setup_result fs s of
        Inl e \<Rightarrow> Inl (Fatal (setup_describe s @ '': '' @ err_text e))
      | Inr _ \<Rightarrow> Inr ())"

definition db_connect ::
    "open_env \<Rightarrow> string \<Rightarrow> (string \<times> string) list \<Rightarrow> string list \<Rightarrow> string set \<Rightarrow>
     (dest_error, string) result \<times> string set \<times> bool" where
  "db_connect fs path settings extensions reg =
     (case claim_path fs path reg of
        (Inl e, reg', opened) \<Rightarrow> (Inl e, reg', opened)
      | (Inr c, reg', opened) \<Rightarrow>
          (case each (run_setup fs) (map (\<lambda>(k, v). Setting k v) settings @ map Extension extensions) of
             Inl e \<Rightarrow> (Inl e, reg' - {c}, opened)
           | Inr _ \<Rightarrow> (Inr c, reg', opened)))"

section \<open>The library\<close>

record ('d, 'r) duckdb =
  execute_batch :: "string \<Rightarrow> ('d, duckdb_error, unit) action"
  execute :: "string \<Rightarrow> sql_value list \<Rightarrow> ('d, duckdb_error, unit) action"
  query_int :: "string \<Rightarrow> sql_value list \<Rightarrow> ('d, duckdb_error, int) action"
  query_text :: "string \<Rightarrow> sql_value list \<Rightarrow> ('d, duckdb_error, string) action"
  query_pairs :: "string \<Rightarrow> sql_value list \<Rightarrow> ('d, duckdb_error, (string \<times> string) list) action"
  append_batch :: "string \<Rightarrow> 'r \<Rightarrow> ('d, duckdb_error, unit) action"

definition batch_sql :: "('d, 'r) duckdb \<Rightarrow> string \<Rightarrow> ('d, dest_error, unit) action" where
  "batch_sql db sql = amap_err classify (execute_batch db sql)"

section \<open>load.rs: the session\<close>

record duck_load =
  ld_options :: destination_options
  ld_tables :: "write_mode session_tables"
  ld_previous :: "(string \<times> table_schema) list"
  ld_single_unit_done :: "string set"

definition META_DDL :: string where
  "META_DDL =
     ''CREATE TABLE IF NOT EXISTS _rdlt_state (pipeline VARCHAR PRIMARY KEY, doc VARCHAR);'' @ [CHR 0x0A] @
     ''CREATE TABLE IF NOT EXISTS _rdlt_commits ('' @ [CHR 0x0A] @
     ''    load_id VARCHAR, commit_seq BIGINT, PRIMARY KEY (load_id, commit_seq));''"

text \<open>
  \<open>Db::session\<close> of \<^verbatim>\<open>client.rs\<close>: the setup statements on the session's own handle. Cloning the
  handle is taken to succeed, and its mutex (like the registry's) not to be poisoned.
\<close>

definition db_session :: "('d, 'r) duckdb \<Rightarrow> setup_stmt list \<Rightarrow> ('d, dest_error, unit) action" where
  "db_session db setup_stmts =
     aeach (\<lambda>s. amap_err (\<lambda>e. Fatal (setup_describe s @ '': '' @ err_text e)) (execute_batch db (setup_render s)))
       setup_stmts"

definition load_open ::
    "('d, 'r) duckdb \<Rightarrow> setup_stmt list \<Rightarrow> destination_options \<Rightarrow> ('d, dest_error, duck_load) action" where
  "load_open db setup_stmts o' =
     abind (db_session db setup_stmts) (\<lambda>_.
     abind (batch_sql db META_DDL) (\<lambda>_.
     aret \<lparr>ld_options = o', ld_tables = [], ld_previous = [], ld_single_unit_done = {}\<rparr>))"

text \<open>\<open>i64::try_from\<close> on a \<open>u64\<close>.\<close>

definition ledger_seq :: "64 word \<Rightarrow> (dest_error, int) result" where
  "ledger_seq seq =
     (if uint seq < 2 ^ 63 then Inr (uint seq)
      else Inl (Fatal (''commit_seq '' @ show_nat (unat seq) @ '' exceeds the receipt ledger's BIGINT range'')))"

definition qmark :: "nat \<Rightarrow> string" where
  "qmark i = ''?''"

definition receipt_recorded ::
    "('d, 'r) duckdb \<Rightarrow> string \<Rightarrow> 64 word \<Rightarrow> ('d, dest_error, bool) action" where
  "receipt_recorded db load seq =
     abind (alift (ledger_seq seq)) (\<lambda>n.
     abind (amap_err classify (query_int db (receipt_exists_sql qmark) [VText load, VInt n])) (\<lambda>count.
     aret (count > 0)))"

fun probe_stages ::
    "('d, 'r) duckdb \<Rightarrow> (string \<Rightarrow> string) \<Rightarrow> string list \<Rightarrow> ('d, dest_error, string set) action" where
  "probe_stages db stage [] = aret {}"
| "probe_stages db stage (t # ts) =
     abind (amap_err classify (query_int db (stage_nonempty_sql (quote_identifier (stage t))) [])) (\<lambda>filled.
     abind (probe_stages db stage ts) (\<lambda>rest.
     aret (if filled \<noteq> 0 then insert t rest else rest)))"

definition staged_nonempty_probe ::
    "core_env \<Rightarrow> ('d, 'r) duckdb \<Rightarrow> duck_load \<Rightarrow> ('d, dest_error, string set) action" where
  "staged_nonempty_probe env db ld =
     probe_stages db (duck_stage_name env) (staged_probe_targets (ld_tables ld) (ld_options ld))"

text \<open>The statements of a step that only runs SQL text; indexing an unknown table panics.\<close>

definition insert_sql :: "core_env \<Rightarrow> duck_load \<Rightarrow> string \<Rightarrow> (dest_error, string list) result" where
  "insert_sql env ld t =
     (case map_of (ld_tables ld) t of
        None \<Rightarrow> Inl Panicked
      | Some (schema, _) \<Rightarrow>
          Inr [insert_select_sql (quote_identifier t) (column_list schema) (quote_identifier (duck_stage_name env t))])"

definition merge_sql :: "core_env \<Rightarrow> duck_load \<Rightarrow> string \<Rightarrow> merge_arm \<Rightarrow> (dest_error, string list) result" where
  "merge_sql env ld t arm =
     (case map_of (ld_tables ld) t of
        None \<Rightarrow> Inl Panicked
      | Some (schema, mode) \<Rightarrow>
          (case mode of
             Merge key \<Rightarrow>
               (let root = root_of (ld_tables ld) t;
                    root_schema = map_option fst (map_of (ld_tables ld) root) in
                Inr (render_arm env
                  (build_merge_plan env duck_dialect (ld_options ld) t schema key (quote_identifier t)
                    (quote_identifier (duck_stage_name env t)) (column_list schema) root
                    (quote_identifier (duck_stage_name env root)) root_schema) arm))
           | _ \<Rightarrow> Inl (Fatal (''internal: merge arm planned for non-merge table '' @ bq t))))"

fun step_sql :: "core_env \<Rightarrow> duck_load \<Rightarrow> step \<Rightarrow> (dest_error, string list) result" where
  "step_sql env ld (ClearTarget t) = Inr [clear_table duck_dialect (quote_identifier t)]"
| "step_sql env ld (InsertSelect t) = insert_sql env ld t"
| "step_sql env ld (ScopeReplace t scope) =
     Inr [scope_replace_sql duck_dialect (quote_identifier t) (quote_identifier (duck_stage_name env t)) scope]"
| "step_sql env ld (MergeArm t arm) = merge_sql env ld t arm"
| "step_sql env ld (TruncateStage t) = Inr [clear_table duck_dialect (quote_identifier (duck_stage_name env t))]"
| "step_sql env ld _ = Inr []"

definition upsert_state_sql :: string where
  "upsert_state_sql = ''INSERT OR REPLACE INTO '' @ STATE_TABLE @ '' VALUES (?, ?)''"

definition insert_receipt_sql :: string where
  "insert_receipt_sql = ''INSERT INTO '' @ COMMITS_TABLE @ '' VALUES (?, ?)''"

fun run_step ::
    "core_env \<Rightarrow> ('d, 'r) duckdb \<Rightarrow> duck_load \<Rightarrow> commit_meta \<Rightarrow> step \<Rightarrow> ('d, dest_error, unit) action" where
  "run_step env db ld meta UpsertState =
     abind (alift (case meta_doc meta of Inl e \<Rightarrow> Inl (Fatal e) | Inr doc \<Rightarrow> Inr doc)) (\<lambda>doc.
     amap_err classify (execute db upsert_state_sql [VText (meta_pipeline meta), VText doc]))"
| "run_step env db ld meta InsertReceipt =
     abind (alift (ledger_seq (meta_seq meta))) (\<lambda>n.
     amap_err classify (execute db insert_receipt_sql [VText (meta_load meta), VInt n]))"
| "run_step env db ld meta s =
     abind (alift (step_sql env ld s)) (\<lambda>sqls. aeach (batch_sql db) sqls)"

text \<open>
  \<open>commit_in_tx\<close>: the facts read inside the transaction and the script planned from them, then
  the steps of the script.
\<close>

definition planned_script ::
    "core_env \<Rightarrow> ('d, 'r) duckdb \<Rightarrow> duck_load \<Rightarrow> commit_meta \<Rightarrow> ('d, dest_error, commit_script) action" where
  "planned_script env db ld meta =
     abind (receipt_recorded db (meta_load meta) (meta_seq meta)) (\<lambda>replayed.
     abind (amap_err classify (query_int db (load_committed_sql qmark) [VText (meta_load meta)])) (\<lambda>count.
     abind (staged_nonempty_probe env db ld) (\<lambda>staged.
     alift (case plan_commit env (ld_tables ld) (ld_options ld)
         \<lparr>replayed = replayed, load_committed_before = (count > 0),
          single_unit_done = ld_single_unit_done ld, staged_nonempty = staged,
          full_load = Staged, cleared_targets = {}\<rparr> of
         Inl e \<Rightarrow> Inl (Fatal (display_commit_error e)) | Inr script \<Rightarrow> Inr script))))"

definition commit_in_tx ::
    "core_env \<Rightarrow> ('d, 'r) duckdb \<Rightarrow> duck_load \<Rightarrow> commit_meta \<Rightarrow> ('d, dest_error, string list) action" where
  "commit_in_tx env db ld meta =
     abind (planned_script env db ld meta) (\<lambda>script.
     abind (aeach (run_step env db ld meta) (steps script)) (\<lambda>_.
     aret (marks script)))"

definition run_commit ::
    "core_env \<Rightarrow> ('d, 'r) duckdb \<Rightarrow> commit_meta \<Rightarrow> duck_load \<times> 'd \<Rightarrow> (dest_error, unit) result \<times> duck_load \<times> 'd" where
  "run_commit env db meta s =
     (case s of (ld, d) \<Rightarrow>
       (case batch_sql db ''BEGIN'' d of
          (Inl e, d1) \<Rightarrow> (Inl e, ld, d1)
        | (Inr _, d1) \<Rightarrow>
            (case commit_in_tx env db ld meta d1 of
               (Inl e, d2) \<Rightarrow> (Inl e, ld, snd (execute_batch db ''ROLLBACK'' d2))
             | (Inr ms, d2) \<Rightarrow>
                 (case batch_sql db ''COMMIT'' d2 of
                    (Inl e, d3) \<Rightarrow> (Inl e, ld, d3)
                  | (Inr _, d3) \<Rightarrow>
                      (Inr (), ld\<lparr>ld_single_unit_done := ld_single_unit_done ld \<union> set ms\<rparr>, d3)))))"

section \<open>load.rs: the backend\<close>

text \<open>Within a session a re-ensure may only append columns.\<close>

definition dropped_columns :: "core_env \<Rightarrow> table_schema \<Rightarrow> table_schema \<Rightarrow> string list" where
  "dropped_columns env previous schema =
     map col_name (filter (\<lambda>c. schema_column env schema (col_name c) = None) (sch_columns previous))"

definition column_name_at :: "table_schema \<Rightarrow> nat \<Rightarrow> string option" where
  "column_name_at schema i = (if i < length (sch_columns schema) then Some (col_name (sch_columns schema ! i)) else None)"

definition check_position :: "table_schema \<Rightarrow> nat \<times> column \<Rightarrow> (dest_error, unit) result" where
  "check_position schema entry =
     (case entry of (i, was) \<Rightarrow>
       refuse_if (column_name_at schema i \<noteq> Some (col_name was))
         (Fatal (''table '' @ bq (sch_table schema) @ '': re-ensure reorders previously ensured columns '' @
            ''(position '' @ show_nat i @ '' was '' @ bq (col_name was) @ '', now '' @
            bq (unwrap_or (column_name_at schema i) ''nothing'') @ '') '' @ em_dash @
            '' the stage is positional and its physical order is fixed at creation; engine evolution only appends'')))"

definition ensure_guard :: "core_env \<Rightarrow> table_schema option \<Rightarrow> table_schema \<Rightarrow> (dest_error, unit) result" where
  "ensure_guard env previous schema =
     (case previous of
        None \<Rightarrow> Inr ()
      | Some prev \<Rightarrow>
          rbind (refuse_if (dropped_columns env prev schema \<noteq> [])
            (Fatal (''table '' @ bq (sch_table schema) @ '': re-ensure drops previously ensured columns ('' @
               join '', '' (dropped_columns env prev schema) @ '') '' @ em_dash @
               '' engine evolution is append-only, so this is two streams colliding on one table or a harness defect'')))
            (\<lambda>_. each (check_position schema) (enumerate 0 (sch_columns prev))))"

definition LIVE_SCHEMA_SQL :: string where
  "LIVE_SCHEMA_SQL =
     ''SELECT column_name, data_type FROM information_schema.columns '' @
     ''WHERE table_catalog = current_database() AND table_schema = 'main' '' @
     ''AND table_name = ? ORDER BY ordinal_position''"

definition read_live_schema ::
    "('d, 'r) duckdb \<Rightarrow> table_schema \<Rightarrow> ('d, dest_error, table_schema option) action" where
  "read_live_schema db t =
     abind (amap_err classify (query_pairs db LIVE_SCHEMA_SQL [VText (sch_table t)])) (\<lambda>rows.
     aret (live_schema rows t))"

definition cross_run_image ::
    "('d, 'r) duckdb \<Rightarrow> duck_load \<Rightarrow> table_schema \<Rightarrow> ('d, dest_error, table_schema option) action" where
  "cross_run_image db ld schema =
     (case map_of (ld_previous ld) (sch_table schema) of
        Some _ \<Rightarrow> aret None
      | None \<Rightarrow> abind (read_live_schema db schema) (\<lambda>image. aret (map_option (\<lambda>i. prefilter i schema) image)))"

definition run_table_ddl :: "('d, 'r) duckdb \<Rightarrow> string \<Rightarrow> ('d, dest_error, unit) action" where
  "run_table_ddl db sql =
     amap_err (\<lambda>e. if is_index_dependency_error e then Fatal (index_dependency_diagnosis sql (err_text e)) else classify e)
       (execute_batch db sql)"

definition run_merge_ddl :: "('d, 'r) duckdb \<Rightarrow> string \<Rightarrow> ensure_statement \<Rightarrow> ('d, dest_error, unit) action" where
  "run_merge_ddl db t st =
     (case st of (sql, uix) \<Rightarrow>
       amap_err (\<lambda>e.
         (case uix of
            Some columns \<Rightarrow>
              if is_constraint_violation e then Fatal (duplicate_merge_key_diagnosis t columns (err_text e)) else classify e
          | None \<Rightarrow> classify e))
       (execute_batch db sql))"

definition ddl_failure :: "ddl_error \<Rightarrow> dest_error" where
  "ddl_failure e = (case e of Panic \<Rightarrow> Panicked | Invalid v \<Rightarrow> Fatal (display_validate_error v))"

definition ensure_table ::
    "core_env \<Rightarrow> ('d, 'r) duckdb \<Rightarrow> table_schema \<Rightarrow> write_mode \<Rightarrow> duck_load \<Rightarrow> ('d, dest_error, duck_load) action" where
  "ensure_table env db schema mode ld =
     (let t = sch_table schema; previous = map_of (ld_previous ld) t;
          merge_statements = merge_ddl env (ld_options ld) schema mode in
      abind (alift (ensure_guard env previous schema)) (\<lambda>_.
      abind (cross_run_image db ld schema) (\<lambda>image.
      let planning_previous = opt_or previous image in
      abind (case merge_statements of
               Inr statements \<Rightarrow> aeach (batch_sql db) (pre_alter_index_drops env planning_previous schema statements)
             | Inl Panic \<Rightarrow> afail Panicked
             | Inl (Invalid _) \<Rightarrow> aret ()) (\<lambda>_.
      abind (case table_ddl env schema planning_previous of
               Inl e \<Rightarrow> afail (ddl_failure e)
             | Inr sqls \<Rightarrow> aeach (run_table_ddl db) sqls) (\<lambda>_.
      abind (alift (case merge_statements of Inl e \<Rightarrow> Inl (ddl_failure e) | Inr st \<Rightarrow> Inr st)) (\<lambda>statements.
      abind (aeach (run_merge_ddl db t) statements) (\<lambda>_.
      aret (ld\<lparr>ld_previous := btree_insert t schema (ld_previous ld),
               ld_tables := btree_insert t (schema, mode) (ld_tables ld)\<rparr>))))))))"

text \<open>A batch is its column names and its rows; the appender is positional.\<close>

definition check_batch_column :: "string \<Rightarrow> table_schema \<Rightarrow> nat \<times> string \<Rightarrow> (dest_error, unit) result" where
  "check_batch_column t ensured entry =
     (case entry of (i, name) \<Rightarrow>
       refuse_if (column_name_at ensured i \<noteq> Some name)
         (Fatal (''table '' @ bq t @ '': batch column '' @ show_nat i @ '' is '' @ bq name @ '' but the ensured '' @
            ''schema has '' @ bq (unwrap_or (column_name_at ensured i) ''no column at that position'') @ '' '' @ em_dash @
            '' the stage append is positional; refusing to land values in the wrong columns'')))"

definition write_guard :: "string \<Rightarrow> table_schema option \<Rightarrow> string list \<Rightarrow> (dest_error, unit) result" where
  "write_guard t previous names =
     (case previous of
        None \<Rightarrow> Inr ()
      | Some ensured \<Rightarrow>
          rbind (each (check_batch_column t ensured) (enumerate 0 names)) (\<lambda>_.
          refuse_if (length names \<noteq> length (sch_columns ensured))
            (Fatal (''table '' @ bq t @ '': the batch carries '' @ show_nat (length names) @ '' columns but the ensured '' @
               ''schema has '' @ show_nat (length (sch_columns ensured)) @ '' '' @ em_dash @
               '' the stage append is positional and exact; re-ensure before writing a changed shape''))))"

definition load_write ::
    "core_env \<Rightarrow> ('d, 'r) duckdb \<Rightarrow> string \<Rightarrow> string list \<Rightarrow> 'r \<Rightarrow> duck_load \<Rightarrow> ('d, dest_error, unit) action" where
  "load_write env db t names rows ld =
     abind (alift (write_guard t (map_of (ld_previous ld) t) names)) (\<lambda>_.
     amap_err classify (append_batch db (duck_stage_name env t) rows))"

definition existing_receipt ::
    "('d, 'r) duckdb \<Rightarrow> string \<Rightarrow> 64 word \<Rightarrow> ('d, dest_error, (string \<times> 64 word) option) action" where
  "existing_receipt db load seq =
     abind (receipt_recorded db load seq) (\<lambda>found. aret (if found then Some (load, seq) else None))"

definition load_replay ::
    "core_env \<Rightarrow> ('d, 'r) duckdb \<Rightarrow> commit_meta \<Rightarrow> duck_load \<times> 'd \<Rightarrow> (dest_error, unit) result \<times> duck_load \<times> 'd" where
  "load_replay env db meta s = run_commit env db meta s"

definition load_publish ::
    "core_env \<Rightarrow> ('d, 'r) duckdb \<Rightarrow> commit_meta \<Rightarrow> duck_load \<times> 'd \<Rightarrow>
     (dest_error, string \<times> 64 word) result \<times> duck_load \<times> 'd" where
  "load_publish env db meta s =
     (case run_commit env db meta s of (r, s') \<Rightarrow> (rbind r (\<lambda>_. Inr (meta_load meta, meta_seq meta)), s'))"

text \<open>\<open>serde_json::from_str\<close> is the argument \<open>parse\<close>.\<close>

definition read_state ::
    "('d, 'r) duckdb \<Rightarrow> (string \<Rightarrow> (string, 's) result) \<Rightarrow> string \<Rightarrow> 'd \<Rightarrow> (dest_error, 's option) result \<times> 'd" where
  "read_state db parse pipeline d =
     (case query_text db (''SELECT doc FROM '' @ STATE_TABLE @ '' WHERE pipeline = ?'') [VText pipeline] d of
        (Inr doc, d') \<Rightarrow> (case parse doc of Inr v \<Rightarrow> Inr (Some v) | Inl e \<Rightarrow> Inl (Fatal e), d')
      | (Inl (QueryReturnedNoRows _), d') \<Rightarrow> (Inr None, d')
      | (Inl e, d') \<Rightarrow> (Inl (classify e), d'))"

section \<open>The positional stage\<close>

lemma check_position_ok: "check_position schema (i, was) = Inr () \<longleftrightarrow> column_name_at schema i = Some (col_name was)"
  by (simp add: check_position_def)

lemma names_prefix_iff:
  "(\<forall>i < length ns. column_name_at schema i = Some (ns ! i)) \<longleftrightarrow>
   length ns \<le> length (sch_columns schema) \<and> take (length ns) (map col_name (sch_columns schema)) = ns"
proof -
  have "length ns \<le> length (sch_columns schema)" if "\<forall>i < length ns. column_name_at schema i = Some (ns ! i)"
    using that [rule_format, of "length ns - 1"] by (cases ns) (auto simp: column_name_at_def split: if_splits)
  then show ?thesis
    by (auto simp: column_name_at_def list_eq_iff_nth_eq split: if_splits)
qed

lemma ball_enumerate: "(\<forall>e \<in> set (enumerate 0 xs). P e) \<longleftrightarrow> (\<forall>i < length xs. P (i, xs ! i))"
  by (force simp: in_set_enumerate_eq)

text \<open>
  The re-ensure guard accepts exactly the schemas that append to the one this session
  ensured before.
\<close>

lemma ensure_guard_iff:
  assumes "core_ok env"
  shows "ensure_guard env (Some prev) schema = Inr () \<longleftrightarrow>
    length (sch_columns prev) \<le> length (sch_columns schema) \<and>
    take (length (sch_columns prev)) (map col_name (sch_columns schema)) = map col_name (sch_columns prev)"
    (is "_ \<longleftrightarrow> ?prefix")
proof -
  have pos: "(\<forall>e \<in> set (enumerate 0 (sch_columns prev)). check_position schema e = Inr ()) \<longleftrightarrow> ?prefix"
    using names_prefix_iff [of "map col_name (sch_columns prev)" schema]
    by (simp add: ball_enumerate check_position_ok)
  have "dropped_columns env prev schema = []" if ?prefix
  proof -
    have "set (map col_name (sch_columns prev)) \<subseteq> col_name ` set (sch_columns schema)"
      using that by (metis set_map set_take_subset)
    then show ?thesis
      by (auto simp: dropped_columns_def core_column [OF assms] find_column_None filter_empty_conv)
  qed
  with pos show ?thesis by (auto simp: ensure_guard_def rbind_unit_eq_Inr each_eq_Inr)
qed

lemma write_guard_iff: "write_guard t (Some ensured) names = Inr () \<longleftrightarrow> names = map col_name (sch_columns ensured)"
proof -
  have "(\<forall>e \<in> set (enumerate 0 names). check_batch_column t ensured e = Inr ()) \<longleftrightarrow>
      (\<forall>i < length names. column_name_at ensured i = Some (names ! i))"
    by (simp add: ball_enumerate check_batch_column_def)
  with names_prefix_iff [of names ensured] show ?thesis
    by (auto simp: write_guard_def rbind_unit_eq_Inr each_eq_Inr)
qed

section \<open>A session\<close>

text \<open>
  What the engine may do with one session, in any order and with any outcome: ensure a table,
  write a batch, commit a unit; \<open>outside\<close> is whatever else changes the database. The list
  holds the scripts of the units whose commit returned.
\<close>

definition unit_script ::
    "core_env \<Rightarrow> ('d, 'r) duckdb \<Rightarrow> commit_meta \<Rightarrow> duck_load \<times> 'd \<Rightarrow> commit_script option" where
  "unit_script env db meta s =
     (case s of (ld, d) \<Rightarrow>
       (case abind (batch_sql db ''BEGIN'') (\<lambda>_. planned_script env db ld meta) d of
          (Inr script, _) \<Rightarrow> Some script
        | (Inl _, _) \<Rightarrow> None))"

inductive session_run ::
    "core_env \<Rightarrow> ('d, 'r) duckdb \<Rightarrow> duck_load \<times> 'd \<Rightarrow> commit_script list \<Rightarrow> duck_load \<times> 'd \<Rightarrow> bool"
  for env :: core_env and db :: "('d, 'r) duckdb" and s0 :: "duck_load \<times> 'd" where
  opened: "session_run env db s0 [] s0"
| ensured: "session_run env db s0 us (ld, d) \<Longrightarrow> ensure_table env db schema mode ld d = (Inr ld', d') \<Longrightarrow>
    session_run env db s0 us (ld', d')"
| refused: "session_run env db s0 us (ld, d) \<Longrightarrow> ensure_table env db schema mode ld d = (Inl e, d') \<Longrightarrow>
    session_run env db s0 us (ld, d')"
| written: "session_run env db s0 us (ld, d) \<Longrightarrow> load_write env db t names rows ld d = (r, d') \<Longrightarrow>
    session_run env db s0 us (ld, d')"
| committed_unit: "session_run env db s0 us (ld, d) \<Longrightarrow> run_commit env db meta (ld, d) = (Inr u, s') \<Longrightarrow>
    unit_script env db meta (ld, d) = Some script \<Longrightarrow> session_run env db s0 (us @ [script]) s'"
| failed_unit: "session_run env db s0 us (ld, d) \<Longrightarrow> run_commit env db meta (ld, d) = (Inl e, s') \<Longrightarrow>
    session_run env db s0 us s'"
| outside: "session_run env db s0 us (ld, d) \<Longrightarrow> session_run env db s0 us (ld, d')"

lemma run_commit_cases:
  obtains rb d1 rt d2 rc d3 where "batch_sql db ''BEGIN'' d = (rb, d1)" "commit_in_tx env db ld meta d1 = (rt, d2)"
    "batch_sql db ''COMMIT'' d2 = (rc, d3)"
    "run_commit env db meta (ld, d) =
      (case rb of
         Inl e \<Rightarrow> (Inl e, ld, d1)
       | Inr _ \<Rightarrow>
           (case rt of
              Inl e \<Rightarrow> (Inl e, ld, snd (execute_batch db ''ROLLBACK'' d2))
            | Inr ms \<Rightarrow>
                (case rc of
                   Inl e \<Rightarrow> (Inl e, ld, d3)
                 | Inr _ \<Rightarrow> (Inr (), ld\<lparr>ld_single_unit_done := ld_single_unit_done ld \<union> set ms\<rparr>, d3))))"
proof -
  obtain rb d1 where b: "batch_sql db ''BEGIN'' d = (rb, d1)" by force
  obtain rt d2 where t: "commit_in_tx env db ld meta d1 = (rt, d2)" by force
  obtain rc d3 where c: "batch_sql db ''COMMIT'' d2 = (rc, d3)" by force
  show ?thesis
    by (rule that [OF b t c]) (simp add: run_commit_def b t c split: sum.split)
qed

lemma run_commit_Inl: "run_commit env db meta (ld, d) = (Inl e, ld', d') \<Longrightarrow> ld' = ld"
  by (rule run_commit_cases [of db d env ld meta]) (simp split: sum.splits)

lemma map_Inl_eq_Inr: "(case r of Inl e \<Rightarrow> Inl (f e) | Inr a \<Rightarrow> Inr a) = Inr x \<longleftrightarrow> r = Inr x"
  by (cases r) auto

lemma planned_script_Inr:
  assumes "planned_script env db ld meta d = (Inr script, d')"
  obtains ctx where "plan_commit env (ld_tables ld) (ld_options ld) ctx = Inr script"
    and "single_unit_done ctx = ld_single_unit_done ld" and "full_load ctx = Staged"
proof -
  obtain found staged and count :: int where "plan_commit env (ld_tables ld) (ld_options ld)
         \<lparr>replayed = found, load_committed_before = (count > 0),
          single_unit_done = ld_single_unit_done ld, staged_nonempty = staged,
          full_load = Staged, cleared_targets = {}\<rparr> = Inr script"
    using assms by (simp add: planned_script_def abind_Inr map_Inl_eq_Inr) blast
  from that [OF this] show ?thesis by simp
qed

text \<open>A commit that returns ran a script planned with the session's marks, and recorded the script's own.\<close>

lemma run_commit_Inr:
  assumes "run_commit env db meta (ld, d) = (Inr u, ld', d')"
  obtains ctx script where "unit_script env db meta (ld, d) = Some script"
    and "plan_commit env (ld_tables ld) (ld_options ld) ctx = Inr script"
    and "single_unit_done ctx = ld_single_unit_done ld"
    and "ld' = ld\<lparr>ld_single_unit_done := ld_single_unit_done ld \<union> set (marks script)\<rparr>"
proof -
  obtain d1 ms d2 where b: "batch_sql db ''BEGIN'' d = (Inr (), d1)"
    and tx: "commit_in_tx env db ld meta d1 = (Inr ms, d2)"
    and ld': "ld' = ld\<lparr>ld_single_unit_done := ld_single_unit_done ld \<union> set ms\<rparr>"
    using assms by (rule_tac run_commit_cases [of db d env ld meta]) (auto split: sum.splits)
  from tx obtain script d3 where ps: "planned_script env db ld meta d1 = (Inr script, d3)" and ms: "ms = marks script"
    by (auto simp: commit_in_tx_def abind_Inr)
  have us: "unit_script env db meta (ld, d) = Some script"
    using b ps by (simp add: unit_script_def abind_def)
  from ps obtain ctx where "plan_commit env (ld_tables ld) (ld_options ld) ctx = Inr script"
    "single_unit_done ctx = ld_single_unit_done ld"
    by (rule planned_script_Inr)
  with us ld' ms that show ?thesis by blast
qed

lemma ensure_table_Inr:
  assumes "ensure_table env db schema mode ld d = (Inr ld', d')"
  shows "ensure_guard env (map_of (ld_previous ld) (sch_table schema)) schema = Inr () \<and>
    ld' = ld\<lparr>ld_previous := btree_insert (sch_table schema) schema (ld_previous ld),
             ld_tables := btree_insert (sch_table schema) (schema, mode) (ld_tables ld)\<rparr>"
  using assms by (auto simp: ensure_table_def Let_def abind_Inr)

lemma session_options: "session_run env db s0 us s \<Longrightarrow> ld_options (fst s) = ld_options (fst s0)"
  by (induction rule: session_run.induct)
    (auto dest!: ensure_table_Inr run_commit_Inl elim!: run_commit_Inr)

lemma run_marks:
  assumes "session_run env db s0 us s" and "full_feed (resolve (ld_options (fst s0)) t)"
  shows "length (filter (merges t) us) \<le> 1 \<and> (\<forall>u \<in> set us. merges t u \<longrightarrow> t \<in> ld_single_unit_done (fst s)) \<and>
    ld_single_unit_done (fst s0) \<subseteq> ld_single_unit_done (fst s) \<and>
    (t \<in> ld_single_unit_done (fst s0) \<longrightarrow> filter (merges t) us = [])"
  using assms
proof (induction rule: session_run.induct)
  case (committed_unit us ld d meta u s' script)
  obtain ld' d' where s': "s' = (ld', d')" by force
  obtain ctx where plan: "plan_commit env (ld_tables ld) (ld_options ld) ctx = Inr script"
    and marked: "single_unit_done ctx = ld_single_unit_done ld"
    and ld': "ld' = ld\<lparr>ld_single_unit_done := ld_single_unit_done ld \<union> set (marks script)\<rparr>"
    using run_commit_Inr [OF committed_unit.hyps(2) [unfolded s']] committed_unit.hyps(3) by (metis option.inject)
  have "ld_options ld = ld_options (fst s0)" using session_options [OF committed_unit.hyps(1)] by simp
  then have once: "merges t script \<Longrightarrow> t \<notin> ld_single_unit_done ld \<and> t \<in> set (marks script)"
    using full_feed_merged [OF plan] committed_unit.prems marked by auto
  note ih = committed_unit.IH [OF committed_unit.prems]
  show ?case
  proof (cases "merges t script")
    case True
    with once have out: "t \<notin> ld_single_unit_done ld" by blast
    then have "filter (merges t) us = []" using ih by (auto simp: filter_empty_conv)
    with True once ih out s' ld' show ?thesis by (auto simp: filter_empty_conv)
  next
    case False
    with ih s' ld' show ?thesis by auto
  qed
qed (auto dest!: ensure_table_Inr run_commit_Inl)

text \<open>
  C11. Over a whole session of a load - any ensures, writes and commits, repeated, replayed or
  failing, in any order, on any library - at most one unit whose commit returned has merged
  or scope-replaced a full-feed table, and once one has, the session remembers the table.
\<close>

theorem full_feed_publishes_once:
  assumes "load_open db setup_stmts o' d = (Inr ld0, d0)" and "session_run env db (ld0, d0) us (ld, d')"
    and "full_feed (resolve o' t)"
  shows "length (filter (merges t) us) \<le> 1 \<and> (\<forall>u \<in> set us. merges t u \<longrightarrow> t \<in> ld_single_unit_done ld)"
proof -
  have "ld_options ld0 = o'" using assms(1) by (auto simp: load_open_def abind_Inr)
  with run_marks [OF assms(2), of t] assms(3) show ?thesis by simp
qed

definition schema_names :: "table_schema \<Rightarrow> string list" where
  "schema_names s = map col_name (sch_columns s)"

lemma run_previous:
  assumes "core_ok env" and "session_run env db s0 us s" and "btree (ld_previous (fst s0))"
    and "map_of (ld_previous (fst s0)) t = Some s1"
  shows "btree (ld_previous (fst s)) \<and> (\<exists>s2. map_of (ld_previous (fst s)) t = Some s2 \<and>
    take (length (schema_names s1)) (schema_names s2) = schema_names s1)"
  using assms(2-)
proof (induction rule: session_run.induct)
  case (ensured us ld d schema mode ld' d')
  then obtain s2 where bt: "btree (ld_previous ld)" and s2: "map_of (ld_previous ld) t = Some s2"
    "take (length (schema_names s1)) (schema_names s2) = schema_names s1" by auto
  note e = ensure_table_Inr [OF ensured.hyps(2)]
  have bt': "btree (ld_previous ld')" using e bt by (simp add: btree_insert_btree)
  show ?case
  proof (cases "sch_table schema = t")
    case True
    with e s2(1) have g: "take (length (schema_names s2)) (schema_names schema) = schema_names s2"
      by (simp add: ensure_guard_iff [OF assms(1)] schema_names_def)
    have "length (schema_names s1) \<le> length (schema_names s2)" using s2(2) by (metis length_take min.cobounded1)
    then have "take (length (schema_names s1)) (schema_names schema) =
        take (length (schema_names s1)) (take (length (schema_names s2)) (schema_names schema))" by simp
    with g s2(2) have "take (length (schema_names s1)) (schema_names schema) = schema_names s1" by simp
    with e True bt bt' show ?thesis by (simp add: btree_insert_lookup)
  next
    case False
    with e s2 bt bt' show ?thesis by (simp add: btree_insert_lookup)
  qed
qed (auto dest!: run_commit_Inl elim!: run_commit_Inr)


section \<open>What the library promises of a transaction\<close>

text \<open>
  The view a connection reads: the receipt ledger, the state documents by pipeline, and
  everything else published (\<open>'p\<close>; the stages are no part of it). A database state has a last
  committed view, a current view, and may be in a transaction. \<open>txn_ok\<close> states DuckDB's
  documented behaviour for the statements every commit issues: a transaction starts from the
  committed view and moves only the current one; \<open>COMMIT\<close> publishes it or, failing, drops it
  like \<open>ROLLBACK\<close>; the two ledger probes read the current ledger; the receipt table has a
  primary key; the state upsert replaces one pipeline's document.
\<close>

type_synonym 'p view = "(string \<times> int) set \<times> (string \<rightharpoonup> string) \<times> 'p"

abbreviation ledger :: "'p view \<Rightarrow> (string \<times> int) set" where "ledger c \<equiv> fst c"
abbreviation docs :: "'p view \<Rightarrow> (string \<rightharpoonup> string)" where "docs c \<equiv> fst (snd c)"

record ('d, 'p) txn_view =
  in_tx :: "'d \<Rightarrow> bool"
  committed :: "'d \<Rightarrow> 'p view"
  current :: "'d \<Rightarrow> 'p view"

definition txn_at :: "('d, 'p) txn_view \<Rightarrow> 'p view \<Rightarrow> 'd \<Rightarrow> bool" where
  "txn_at w v d \<longleftrightarrow> in_tx w d \<and> committed w d = v"

definition reads :: "('d, 'p) txn_view \<Rightarrow> 'p view \<Rightarrow> 'd \<Rightarrow> bool" where
  "reads w c d \<longleftrightarrow> in_tx w d \<and> current w d = c"

text \<open>A transaction whose ledger and state documents are given; the published data may be anything.\<close>

definition books :: "('d, 'p) txn_view \<Rightarrow> (string \<times> int) set \<times> (string \<rightharpoonup> string) \<Rightarrow> 'd \<Rightarrow> bool" where
  "books w g d \<longleftrightarrow> in_tx w d \<and> (ledger (current w d), docs (current w d)) = g"

definition begin_ok :: "('d, 'r) duckdb \<Rightarrow> ('d, 'p) txn_view \<Rightarrow> bool" where
  "begin_ok db w \<longleftrightarrow> (\<forall>d. \<not> in_tx w d \<longrightarrow>
     (case execute_batch db ''BEGIN'' d of (r, d') \<Rightarrow>
        committed w d' = committed w d \<and> in_tx w d' = (r = Inr ()) \<and> (r = Inr () \<longrightarrow> current w d' = committed w d)))"

definition end_ok :: "('d, 'r) duckdb \<Rightarrow> ('d, 'p) txn_view \<Rightarrow> bool" where
  "end_ok db w \<longleftrightarrow> (\<forall>d. in_tx w d \<longrightarrow>
     (case execute_batch db ''ROLLBACK'' d of (_, d') \<Rightarrow> \<not> in_tx w d' \<and> committed w d' = committed w d) \<and>
     (case execute_batch db ''COMMIT'' d of (r, d') \<Rightarrow> \<not> in_tx w d' \<and>
        committed w d' = (if r = Inr () then current w d else committed w d)))"

definition probes_ok :: "('d, 'r) duckdb \<Rightarrow> ('d, 'p) txn_view \<Rightarrow> bool" where
  "probes_ok db w \<longleftrightarrow> (\<forall>v c load n.
     always (txn_at w v) (query_int db (receipt_exists_sql qmark) [VText load, VInt n]) \<and>
     always (txn_at w v) (query_int db (load_committed_sql qmark) [VText load]) \<and>
     on_ok (reads w c) (query_int db (receipt_exists_sql qmark) [VText load, VInt n])
       (\<lambda>count d. reads w c d \<and> (count > 0 \<longleftrightarrow> (load, n) \<in> ledger c)) \<and>
     on_ok (reads w c) (query_int db (load_committed_sql qmark) [VText load])
       (\<lambda>count d. reads w c d \<and> (count > 0 \<longleftrightarrow> (\<exists>n. (load, n) \<in> ledger c))))"

definition meta_ok :: "('d, 'r) duckdb \<Rightarrow> ('d, 'p) txn_view \<Rightarrow> bool" where
  "meta_ok db w \<longleftrightarrow> (\<forall>v c load n pipeline doc.
     always (txn_at w v) (execute db insert_receipt_sql [VText load, VInt n]) \<and>
     always (txn_at w v) (execute db upsert_state_sql [VText pipeline, VText doc]) \<and>
     on_ok (reads w c) (execute db insert_receipt_sql [VText load, VInt n])
       (\<lambda>_ d. (load, n) \<notin> ledger c \<and> reads w (insert (load, n) (ledger c), snd c) d) \<and>
     on_ok (reads w c) (execute db upsert_state_sql [VText pipeline, VText doc])
       (\<lambda>_. reads w (ledger c, (docs c)(pipeline \<mapsto> doc), snd (snd c))))"

definition txn_ok :: "('d, 'r) duckdb \<Rightarrow> ('d, 'p) txn_view \<Rightarrow> bool" where
  "txn_ok db w \<longleftrightarrow> begin_ok db w \<and> end_ok db w \<and> probes_ok db w \<and> meta_ok db w"

text \<open>
  The statements one session adds, over its own tables and options: the data statements of the
  scripts it can plan, the clears and probes of its stages, the appends to them.
  \<open>session_ok\<close>: inside a transaction they leave the committed view alone; a data statement
  that succeeds moves neither ledger nor state documents, a stage's clear or probe moves
  nothing of the view; outside one an append publishes nothing. (A session over a table NAMED
  like the ledger, or with free SQL in an option, is not of this kind.)
\<close>

definition planned_steps :: "core_env \<Rightarrow> duck_load \<Rightarrow> step set" where
  "planned_steps env ld = {s. \<exists>ctx script. full_load ctx = Staged \<and>
     plan_commit env (ld_tables ld) (ld_options ld) ctx = Inr script \<and> s \<in> set (steps script)}"

definition session_sql :: "core_env \<Rightarrow> duck_load \<Rightarrow> string set" where
  "session_sql env ld = {sql. \<exists>s sqls. s \<in> planned_steps env ld \<and> step_sql env ld s = Inr sqls \<and> sql \<in> set sqls}"

definition session_names :: "duck_load \<Rightarrow> string set" where
  "session_names ld = fst ` set (ld_tables ld)"

definition stage_clear :: "core_env \<Rightarrow> string \<Rightarrow> string" where
  "stage_clear env t = clear_table duck_dialect (quote_identifier (duck_stage_name env t))"

definition stage_probe :: "core_env \<Rightarrow> string \<Rightarrow> string" where
  "stage_probe env t = stage_nonempty_sql (quote_identifier (duck_stage_name env t))"

definition session_ok :: "core_env \<Rightarrow> ('d, 'r) duckdb \<Rightarrow> ('d, 'p) txn_view \<Rightarrow> duck_load \<Rightarrow> bool" where
  "session_ok env db w ld \<longleftrightarrow>
     (\<forall>sql \<in> session_sql env ld. \<forall>v g. always (txn_at w v) (execute_batch db sql) \<and>
        on_ok (books w g) (execute_batch db sql) (\<lambda>_. books w g)) \<and>
     (\<forall>t \<in> session_names ld. \<forall>v c rows.
        on_ok (reads w c) (execute_batch db (stage_clear env t)) (\<lambda>_. reads w c) \<and>
        always (txn_at w v) (query_int db (stage_probe env t) []) \<and>
        on_ok (reads w c) (query_int db (stage_probe env t) []) (\<lambda>_. reads w c) \<and>
        always (\<lambda>d. \<not> in_tx w d \<and> committed w d = v) (append_batch db (duck_stage_name env t) rows))"

lemma session_okD:
  assumes "session_ok env db w ld"
  shows "sql \<in> session_sql env ld \<Longrightarrow> always (txn_at w v) (execute_batch db sql)"
    and "sql \<in> session_sql env ld \<Longrightarrow> on_ok (books w g) (execute_batch db sql) (\<lambda>_. books w g)"
    and "t \<in> session_names ld \<Longrightarrow> on_ok (reads w c) (execute_batch db (stage_clear env t)) (\<lambda>_. reads w c)"
    and "t \<in> session_names ld \<Longrightarrow> always (txn_at w v) (query_int db (stage_probe env t) [])"
    and "t \<in> session_names ld \<Longrightarrow> on_ok (reads w c) (query_int db (stage_probe env t) []) (\<lambda>_. reads w c)"
    and "t \<in> session_names ld \<Longrightarrow> always (\<lambda>d. \<not> in_tx w d \<and> committed w d = v) (append_batch db (duck_stage_name env t) rows)"
  using assms unfolding session_ok_def by blast+

section \<open>The commit\<close>

lemma probe_targets_names: "set (staged_probe_targets (ld_tables ld) (ld_options ld)) \<subseteq> session_names ld"
  by (auto simp: staged_probe_targets_def session_names_def)

lemma probe_isolated:
  assumes "session_ok env db w ld" and "set ts \<subseteq> session_names ld"
  shows "always (txn_at w v) (probe_stages db (duck_stage_name env) ts)"
  using assms(2)
proof (induction ts)
  case (Cons t ts)
  then have "always (txn_at w v) (query_int db (stage_probe env t) [])"
    by (intro session_okD(4) [OF assms(1)]) simp
  with Cons show ?case
    unfolding probe_stages.simps stage_probe_def by (intro always_intros) auto
qed (simp add: always_aret)

lemma step_isolated:
  assumes "txn_ok db w" and "session_ok env db w ld" and "s \<in> planned_steps env ld"
  shows "always (txn_at w v) (run_step env db ld meta s)"
proof -
  have meta: "always (txn_at w v) (execute db insert_receipt_sql [VText l, VInt i])"
    "always (txn_at w v) (execute db upsert_state_sql [VText p, VText doc])" for l i p doc
    using assms(1) unfolding txn_ok_def meta_ok_def by blast+
  have "always (txn_at w v) (abind (alift (step_sql env ld s)) (\<lambda>sqls. aeach (batch_sql db) sqls))"
  proof (cases "step_sql env ld s")
    case (Inr sqls)
    have "always (txn_at w v) (batch_sql db sql)" if "sql \<in> set sqls" for sql
    proof -
      have "sql \<in> session_sql env ld" using assms(3) Inr that by (auto simp: session_sql_def)
      from session_okD(1) [OF assms(2) this] show ?thesis unfolding batch_sql_def by (rule always_amap_err)
    qed
    then have "always (txn_at w v) (aeach (batch_sql db) sqls)" by (rule always_aeach)
    with Inr show ?thesis by (simp add: always_def abind_def)
  qed (simp add: always_def abind_def)
  then show ?thesis
    using meta by (cases s) (auto intro!: always_intros)
qed

lemma planned_isolated:
  assumes "txn_ok db w" and "session_ok env db w ld"
  shows "always (txn_at w v) (planned_script env db ld meta)"
proof -
  have "always (txn_at w v) (query_int db (receipt_exists_sql qmark) [VText l, VInt i])"
    "always (txn_at w v) (query_int db (load_committed_sql qmark) [VText l])" for l i
    using assms(1) unfolding txn_ok_def probes_ok_def by blast+
  then show ?thesis
    unfolding planned_script_def receipt_recorded_def staged_nonempty_probe_def
    by (intro always_intros probe_isolated [OF assms(2) probe_targets_names]) auto
qed

lemma planned_script_plan:
  assumes "planned_script env db ld meta d = (Inr script, d')"
  shows "set (steps script) \<subseteq> planned_steps env ld"
proof -
  obtain ctx where "full_load ctx = Staged" "plan_commit env (ld_tables ld) (ld_options ld) ctx = Inr script"
    using assms by (rule planned_script_Inr)
  then show ?thesis by (auto simp: planned_steps_def)
qed

lemma commit_isolated:
  assumes "txn_ok db w" and "session_ok env db w ld"
  shows "always (txn_at w v) (commit_in_tx env db ld meta)"
  unfolding always_def
proof (intro allI impI)
  fix d assume d: "txn_at w v d"
  obtain r d1 where p: "planned_script env db ld meta d = (r, d1)" by force
  have d1: "txn_at w v d1" by (rule alwaysD [OF planned_isolated [OF assms] d p])
  show "txn_at w v (snd (commit_in_tx env db ld meta d))"
  proof (cases r)
    case (Inr script)
    have "always (txn_at w v) (aeach (run_step env db ld meta) (steps script))"
    proof (rule always_aeach)
      fix s assume "s \<in> set (steps script)"
      moreover have "set (steps script) \<subseteq> planned_steps env ld"
        by (rule planned_script_plan [of env db ld meta d script d1]) (simp add: p Inr)
      ultimately show "always (txn_at w v) (run_step env db ld meta s)" by (intro step_isolated [OF assms]) auto
    qed
    then have "always (txn_at w v) (abind (aeach (run_step env db ld meta) (steps script)) (\<lambda>_. aret (marks script)))"
      by (rule always_abind) (rule always_aret)
    with d1 p Inr show ?thesis by (simp add: commit_in_tx_def abind_def always_def)
  qed (use d1 p in \<open>simp add: commit_in_tx_def abind_def\<close>)
qed

lemma probe_reads:
  assumes "session_ok env db w ld" and "set ts \<subseteq> session_names ld"
  shows "on_ok (reads w c) (probe_stages db (duck_stage_name env) ts) (\<lambda>_. reads w c)"
  using assms(2)
proof (induction ts)
  case (Cons t ts)
  then have "on_ok (reads w c) (query_int db (stage_probe env t) []) (\<lambda>_. reads w c)"
    by (intro session_okD(5) [OF assms(1)]) simp
  with Cons show ?case
    unfolding probe_stages.simps stage_probe_def
    by (intro on_ok_abind [where Q = "\<lambda>_. reads w c"] on_ok_aret on_ok_amap_err) auto
qed (simp add: on_ok_def)

text \<open>The commit's successful runs, from a view \<open>c\<close>: what the planner was told, and what became of the view.\<close>

lemma receipt_probe:
  assumes "probes_ok db w"
  shows "on_ok (reads w c) (receipt_recorded db load seq)
    (\<lambda>found d. reads w c d \<and> ledger_seq seq = Inr (uint seq) \<and> (found \<longleftrightarrow> (load, uint seq) \<in> ledger c))"
proof -
  have q: "on_ok (reads w c) (query_int db (receipt_exists_sql qmark) [VText load, VInt n])
      (\<lambda>count d. reads w c d \<and> (count > 0 \<longleftrightarrow> (load, n) \<in> ledger c))" for n
    using assms unfolding probes_ok_def by blast
  have seq: "ledger_seq seq = Inr n \<longleftrightarrow> uint seq < 2 ^ 63 \<and> n = uint seq" for n
    by (auto simp: ledger_seq_def)
  show ?thesis
    using q unfolding on_ok_def receipt_recorded_def abind_Inr amap_err_Inr by (auto simp: seq)
qed

lemma steps_books:
  assumes "session_ok env db w ld" and "set ss \<subseteq> planned_steps env ld"
    and "\<forall>s \<in> set ss. s \<noteq> UpsertState \<and> s \<noteq> InsertReceipt"
  shows "on_ok (books w g) (aeach (run_step env db ld meta) ss) (\<lambda>_. books w g)"
proof (rule on_ok_aeach)
  fix s assume s_in: "s \<in> set ss"
  with assms(3) have "s \<noteq> UpsertState" "s \<noteq> InsertReceipt" by blast+
  then have s: "run_step env db ld meta s = abind (alift (step_sql env ld s)) (\<lambda>sqls. aeach (batch_sql db) sqls)"
    by (cases s rule: step.exhaust) auto
  have "on_ok (books w g) (aeach (batch_sql db) sqls) (\<lambda>_. books w g)" if "step_sql env ld s = Inr sqls" for sqls
  proof (rule on_ok_aeach)
    fix sql assume "sql \<in> set sqls"
    with that s_in assms(2) have "sql \<in> session_sql env ld" by (auto simp: session_sql_def)
    from session_okD(2) [OF assms(1) this] show "on_ok (books w g) (batch_sql db sql) (\<lambda>_. books w g)"
      unfolding batch_sql_def by (rule on_ok_amap_err)
  qed
  then show "on_ok (books w g) (run_step env db ld meta s) (\<lambda>_. books w g)"
    unfolding s on_ok_def abind_Inr by auto
qed

lemma truncates_reads:
  assumes "session_ok env db w ld" and "\<forall>s \<in> set ss. \<exists>t \<in> session_names ld. s = TruncateStage t"
  shows "on_ok (reads w c) (aeach (run_step env db ld meta) ss) (\<lambda>_. reads w c)"
proof (rule on_ok_aeach)
  fix s assume "s \<in> set ss"
  with assms(2) obtain t where s: "s = TruncateStage t" "t \<in> session_names ld" by blast
  have "on_ok (reads w c) (execute_batch db (stage_clear env t)) (\<lambda>_. reads w c)"
    by (rule session_okD(3) [OF assms(1) s(2)])
  then show "on_ok (reads w c) (run_step env db ld meta s) (\<lambda>_. reads w c)"
    unfolding s on_ok_def by (auto simp: abind_Inr batch_sql_def stage_clear_def)
qed

text \<open>The last two steps: the pipeline's document and the receipt, together.\<close>

lemma finish_books:
  assumes "txn_ok db w" and "ledger_seq (meta_seq meta) = Inr n"
  shows "on_ok (books w (g, m)) (aeach (run_step env db ld meta) [UpsertState, InsertReceipt])
    (\<lambda>_ d. (meta_load meta, n) \<notin> g \<and> (\<exists>doc. meta_doc meta = Inr doc \<and>
       books w (insert (meta_load meta, n) g, m(meta_pipeline meta \<mapsto> doc)) d))"
proof -
  have "on_ok (reads w c) (execute db insert_receipt_sql [VText l, VInt i])
      (\<lambda>_ d. (l, i) \<notin> ledger c \<and> reads w (insert (l, i) (ledger c), snd c) d)"
    "on_ok (reads w c) (execute db upsert_state_sql [VText p, VText doc])
      (\<lambda>_. reads w (ledger c, (docs c)(p \<mapsto> doc), snd (snd c)))" for c l i p doc
    using assms(1) unfolding txn_ok_def meta_ok_def by blast+
  note laws = this
  show ?thesis
    unfolding on_ok_def
  proof (intro allI impI)
    fix d u d'
    assume d: "books w (g, m) d"
      and run: "aeach (run_step env db ld meta) [UpsertState, InsertReceipt] d = (Inr u, d')"
    obtain doc d1 where doc: "meta_doc meta = Inr doc"
      and up: "execute db upsert_state_sql [VText (meta_pipeline meta), VText doc] d = (Inr (), d1)"
      and ins: "execute db insert_receipt_sql [VText (meta_load meta), VInt n] d1 = (Inr (), d')"
      using run assms(2) by (auto simp: abind_Inr split: sum.splits)
    have "reads w (current w d) d" using d by (simp add: reads_def books_def)
    from on_okD [OF laws(1) on_okD [OF laws(2) this up] ins] d doc
    show "(meta_load meta, n) \<notin> g \<and> (\<exists>doc. meta_doc meta = Inr doc \<and>
       books w (insert (meta_load meta, n) g, m(meta_pipeline meta \<mapsto> doc)) d')"
      by (auto simp: reads_def books_def)
  qed
qed

text \<open>
  What a successful commit does to the view: a receipt already there moves nothing; otherwise
  the receipt is added and the pipeline's document set, together.
\<close>

definition commit_effect :: "commit_meta \<Rightarrow> 'p view \<Rightarrow> 'p view \<Rightarrow> bool" where
  "commit_effect meta c c' \<longleftrightarrow>
     (let k = (meta_load meta, uint (meta_seq meta)) in
      if k \<in> ledger c then c' = c
      else ledger c' = insert k (ledger c) \<and>
        (\<exists>doc. meta_doc meta = Inr doc \<and> docs c' = (docs c)(meta_pipeline meta \<mapsto> doc)))"

lemma script_effect:
  assumes "txn_ok db w" and "session_ok env db w ld" and "full_load ctx = Staged"
    and plan: "plan_commit env (ld_tables ld) (ld_options ld) ctx = Inr script"
    and "replayed ctx \<longleftrightarrow> (meta_load meta, uint (meta_seq meta)) \<in> ledger c"
    and seq: "ledger_seq (meta_seq meta) = Inr (uint (meta_seq meta))"
  shows "on_ok (reads w c) (aeach (run_step env db ld meta) (steps script))
    (\<lambda>_ d. in_tx w d \<and> commit_effect meta c (current w d))"
proof (cases "replayed ctx")
  case True
  then have "\<forall>s \<in> set (steps script). \<exists>t \<in> session_names ld. s = TruncateStage t"
    using plan by (auto simp: plan_commit_def truncate_steps_iff session_names_def) force
  note trunc = truncates_reads [OF assms(2) this]
  have "commit_effect meta c c" using True assms(5) by (simp add: commit_effect_def Let_def)
  then show ?thesis
    using on_okD [OF trunc] unfolding on_ok_def [of "reads w c" _ "\<lambda>_ d. in_tx w d \<and> _ d"]
    by (metis reads_def)
next
  case False
  let ?g = "(ledger c, docs c)"
  from fresh_shape [OF False plan] obtain pub where
    shape: "steps script = (pub @ truncate_steps ctx (ld_tables ld)) @ [UpsertState, InsertReceipt]"
    and pub: "\<forall>s \<in> set pub. \<exists>t schema mode. step_target s = Some t \<and> (t, schema, mode) \<in> set (ld_tables ld) \<and>
       ctx_uses_stage ctx mode \<and> (\<forall>arm. s = MergeArm t arm \<longrightarrow> is_merge mode)" by auto
  have "s \<noteq> UpsertState \<and> s \<noteq> InsertReceipt" if "s \<in> set pub" for s
    using bspec [OF pub that] by auto
  then have data: "\<forall>s \<in> set (pub @ truncate_steps ctx (ld_tables ld)). s \<noteq> UpsertState \<and> s \<noteq> InsertReceipt"
    by (auto simp: truncate_steps_iff)
  have "set (steps script) \<subseteq> planned_steps env ld" using plan assms(3) by (auto simp: planned_steps_def)
  then have planned: "set (pub @ truncate_steps ctx (ld_tables ld)) \<subseteq> planned_steps env ld" by (simp add: shape)
  have main: "on_ok (books w ?g) (aeach (run_step env db ld meta) (steps script))
      (\<lambda>_ d. (meta_load meta, uint (meta_seq meta)) \<notin> ledger c \<and> (\<exists>doc. meta_doc meta = Inr doc \<and>
         books w (insert (meta_load meta, uint (meta_seq meta)) (ledger c), (docs c)(meta_pipeline meta \<mapsto> doc)) d))"
    unfolding shape aeach_append [of "run_step env db ld meta" "pub @ truncate_steps ctx (ld_tables ld)"]
    by (rule on_ok_abind [OF steps_books [OF assms(2) planned data] finish_books [OF assms(1) seq]])
  show ?thesis
    unfolding on_ok_def [of "reads w c"]
  proof (intro allI impI)
    fix d u d'
    assume "reads w c d" and run: "aeach (run_step env db ld meta) (steps script) d = (Inr u, d')"
    then have "books w ?g d" by (simp add: reads_def books_def)
    from on_okD [OF main this run] show "in_tx w d' \<and> commit_effect meta c (current w d')"
      by (auto simp: commit_effect_def Let_def books_def)
  qed
qed

lemma commit_tx_effect:
  assumes "txn_ok db w" and "session_ok env db w ld"
    and "reads w c d" and run: "commit_in_tx env db ld meta d = (Inr ms, d')"
  shows "in_tx w d' \<and> ledger_seq (meta_seq meta) = Inr (uint (meta_seq meta)) \<and> commit_effect meta c (current w d')"
proof -
  have probes: "probes_ok db w" using assms(1) by (simp add: txn_ok_def)
  obtain found d1 count d2 staged d3 script where
    found: "receipt_recorded db (meta_load meta) (meta_seq meta) d = (Inr found, d1)"
    and count: "query_int db (load_committed_sql qmark) [VText (meta_load meta)] d1 = (Inr count, d2)"
    and staged: "staged_nonempty_probe env db ld d2 = (Inr staged, d3)"
    and plan: "plan_commit env (ld_tables ld) (ld_options ld)
         \<lparr>replayed = found, load_committed_before = (count > 0),
          single_unit_done = ld_single_unit_done ld, staged_nonempty = staged,
          full_load = Staged, cleared_targets = {}\<rparr> = Inr script"
    and steps: "aeach (run_step env db ld meta) (steps script) d3 = (Inr (), d')"
    using run by (auto simp: commit_in_tx_def planned_script_def abind_Inr map_Inl_eq_Inr)
  have 1: "reads w c d1" "ledger_seq (meta_seq meta) = Inr (uint (meta_seq meta))"
      "found \<longleftrightarrow> (meta_load meta, uint (meta_seq meta)) \<in> ledger c"
    using on_okD [OF receipt_probe [OF probes] assms(3) found] by auto
  have "reads w c d2" using probes 1(1) count unfolding probes_ok_def on_ok_def by blast
  then have "reads w c d3"
    using on_okD [OF probe_reads [OF assms(2) probe_targets_names]] staged unfolding staged_nonempty_probe_def by blast
  from on_okD [OF script_effect [OF assms(1,2) _ plan _ 1(2)] this steps] 1 show ?thesis by simp
qed

lemma run_commit_effect:
  assumes "txn_ok db w" and "session_ok env db w ld" and "\<not> in_tx w d"
    and "run_commit env db meta (ld, d) = (r, ld', d')"
  shows "\<not> in_tx w d' \<and>
    (case r of
       Inl e \<Rightarrow> committed w d' = committed w d \<and> ld' = ld
     | Inr _ \<Rightarrow> uint (meta_seq meta) < 2 ^ 63 \<and> commit_effect meta (committed w d) (committed w d'))"
proof -
  have laws: "begin_ok db w" "end_ok db w" using assms(1) by (auto simp: txn_ok_def)
  obtain rb d1 where b: "execute_batch db ''BEGIN'' d = (rb, d1)" by force
  have started: "committed w d1 = committed w d" "in_tx w d1 = (rb = Inr ())" "rb = Inr () \<longrightarrow> current w d1 = committed w d"
    using laws(1) [unfolded begin_ok_def, rule_format, OF assms(3)] by (simp_all add: b)
  show ?thesis
  proof (cases rb)
    case (Inl e)
    with assms(4) b have "r = Inl (classify e)" "ld' = ld" "d' = d1"
      by (simp_all add: run_commit_def batch_sql_def amap_err_def)
    with Inl started show ?thesis by simp
  next
    case (Inr u)
    then have start: "reads w (committed w d) d1" "txn_at w (committed w d) d1"
      using started by (simp_all add: reads_def txn_at_def)
    obtain rt d2 where t: "commit_in_tx env db ld meta d1 = (rt, d2)" by force
    have tx: "in_tx w d2" "committed w d2 = committed w d"
      using alwaysD [OF commit_isolated [OF assms(1,2)] start(2) t] by (auto simp: txn_at_def)
    have rollback: "\<not> in_tx w (snd (execute_batch db ''ROLLBACK'' d2))"
        "committed w (snd (execute_batch db ''ROLLBACK'' d2)) = committed w d"
      using laws(2) [unfolded end_ok_def, rule_format, OF tx(1)] tx(2) by (simp_all add: case_prod_unfold)
    obtain rc d3 where c: "execute_batch db ''COMMIT'' d2 = (rc, d3)" by force
    have commit: "\<not> in_tx w d3" "committed w d3 = (if rc = Inr () then current w d2 else committed w d)"
      using laws(2) [unfolded end_ok_def, rule_format, OF tx(1)] tx(2) by (simp_all add: c)
    show ?thesis
    proof (cases rt)
      case (Inl e)
      with assms(4) b \<open>rb = Inr u\<close> t have "r = Inl e" "ld' = ld" "d' = snd (execute_batch db ''ROLLBACK'' d2)"
        by (simp_all add: run_commit_def batch_sql_def amap_err_def)
      with rollback show ?thesis by simp
    next
      case (Inr ms)
      have effect: "ledger_seq (meta_seq meta) = Inr (uint (meta_seq meta))"
        "commit_effect meta (committed w d) (current w d2)"
        using commit_tx_effect [OF assms(1,2) start(1)] t Inr by auto
      show ?thesis
      proof (cases rc)
        case (Inl e)
        with assms(4) b \<open>rb = Inr u\<close> t Inr c have "r = Inl (classify e)" "ld' = ld" "d' = d3"
          by (simp_all add: run_commit_def batch_sql_def amap_err_def)
        with commit Inl show ?thesis by simp
      next
        case rc: (Inr _)
        with assms(4) b \<open>rb = Inr u\<close> t Inr c have "r = Inr ()" "d' = d3"
          by (simp_all add: run_commit_def batch_sql_def amap_err_def)
        with commit rc effect show ?thesis by (simp add: ledger_seq_def split: if_splits)
      qed
    qed
  qed
qed

text \<open>
  C2. A commit is atomic and idempotent. Whatever fails, the committed view - ledger, state
  documents and data - and the session are as before. After a commit that returns: if the
  unit's receipt was in the committed ledger already, the committed view has not moved at
  all; otherwise the ledger has gained exactly that receipt and, in the same step, the
  pipeline's state document is the unit's. No transaction stays open. The database is taken
  to keep the transaction promises of \<open>txn_ok\<close>, and the session's own statements those of
  \<open>session_ok\<close>.
\<close>

theorem commit_atomic:
  assumes "txn_ok db w" and "session_ok env db w ld" and "\<not> in_tx w d"
    and "run_commit env db meta (ld, d) = (r, ld', d')"
  defines "k \<equiv> (meta_load meta, uint (meta_seq meta))"
  shows "\<not> in_tx w d' \<and>
    (case r of
       Inl e \<Rightarrow> committed w d' = committed w d \<and> ld' = ld
     | Inr _ \<Rightarrow> uint (meta_seq meta) < 2 ^ 63 \<and>
         (if k \<in> ledger (committed w d) then committed w d' = committed w d
          else ledger (committed w d') = insert k (ledger (committed w d)) \<and>
            (\<exists>doc. meta_doc meta = Inr doc \<and>
               docs (committed w d') = (docs (committed w d))(meta_pipeline meta \<mapsto> doc))))"
  using run_commit_effect [OF assms(1-4)] by (simp add: commit_effect_def Let_def k_def split: sum.splits)

text \<open>
  Deliveries, by whatever sessions, one after another: each writes batches into the stages of
  its tables and then tries to commit a unit. The outcome: the units that moved the committed
  view, in order; the keys of those that returned a receipt; the database.
\<close>

type_synonym 'r delivery = "duck_load \<times> (string \<times> string list \<times> 'r) list \<times> commit_meta"

fun write_all ::
    "core_env \<Rightarrow> ('d, 'r) duckdb \<Rightarrow> duck_load \<Rightarrow> (string \<times> string list \<times> 'r) list \<Rightarrow> 'd \<Rightarrow> 'd" where
  "write_all env db ld [] d = d"
| "write_all env db ld ((t, names, rows) # ws) d = write_all env db ld ws (snd (load_write env db t names rows ld d))"

fun attempts ::
    "core_env \<Rightarrow> ('d, 'r) duckdb \<Rightarrow> ('d, 'p) txn_view \<Rightarrow> 'r delivery list \<Rightarrow> 'd \<Rightarrow>
     commit_meta list \<times> (string \<times> int) set \<times> 'd" where
  "attempts env db w [] d = ([], {}, d)"
| "attempts env db w ((ld, ws, meta) # rest) d =
     (case load_publish env db meta (ld, write_all env db ld ws d) of (r, _, d') \<Rightarrow>
      case attempts env db w rest d' of (ms, acks, d'') \<Rightarrow>
        (if committed w d' \<noteq> committed w d then meta # ms else ms,
         (case r of Inr (l, n) \<Rightarrow> insert (l, uint n) acks | Inl _ \<Rightarrow> acks), d''))"

definition unit_key :: "commit_meta \<Rightarrow> string \<times> int" where
  "unit_key meta = (meta_load meta, uint (meta_seq meta))"

text \<open>The state documents after the units of a list, each setting its pipeline's.\<close>

definition put_doc :: "(string \<rightharpoonup> string) \<Rightarrow> commit_meta \<Rightarrow> (string \<rightharpoonup> string)" where
  "put_doc m meta = (case meta_doc meta of Inr doc \<Rightarrow> m(meta_pipeline meta \<mapsto> doc) | Inl _ \<Rightarrow> m)"

definition delivery_ok :: "core_env \<Rightarrow> ('d, 'r) duckdb \<Rightarrow> ('d, 'p) txn_view \<Rightarrow> 'r delivery \<Rightarrow> bool" where
  "delivery_ok env db w a \<longleftrightarrow> (case a of (ld, ws, _) \<Rightarrow>
     session_ok env db w ld \<and> fst ` set ws \<subseteq> session_names ld)"

lemma write_all_outside:
  assumes "session_ok env db w ld" and "fst ` set ws \<subseteq> session_names ld" and "\<not> in_tx w d"
  shows "\<not> in_tx w (write_all env db ld ws d) \<and> committed w (write_all env db ld ws d) = committed w d"
  using assms(2,3)
proof (induction ws arbitrary: d)
  case (Cons x ws)
  obtain t names rows where x: "x = (t, names, rows)" by (metis prod_cases3)
  with Cons.prems(1) have "always (\<lambda>d'. \<not> in_tx w d' \<and> committed w d' = committed w d) (append_batch db (duck_stage_name env t) rows)"
    by (intro session_okD(6) [OF assms(1)]) simp
  then have "always (\<lambda>d'. \<not> in_tx w d' \<and> committed w d' = committed w d) (load_write env db t names rows ld)"
    unfolding load_write_def by (intro always_intros)
  with Cons.prems(2) have "\<not> in_tx w (snd (load_write env db t names rows ld d)) \<and>
      committed w (snd (load_write env db t names rows ld d)) = committed w d"
    by (simp add: always_def)
  with Cons x show ?case by simp
qed simp

lemma attempt_step:
  assumes "txn_ok db w" and "delivery_ok env db w (ld, ws, meta)" and "\<not> in_tx w d"
    and run: "load_publish env db meta (ld, write_all env db ld ws d) = (r, ld', d')"
  shows "\<not> in_tx w d'"
    and "committed w d' = committed w d \<or> unit_key meta \<notin> ledger (committed w d) \<and>
      ledger (committed w d') = insert (unit_key meta) (ledger (committed w d)) \<and>
      docs (committed w d') = put_doc (docs (committed w d)) meta"
    and "r = Inr (l, n) \<Longrightarrow> (l, uint n) = unit_key meta \<and> unit_key meta \<in> ledger (committed w d')"
proof -
  obtain r0 where c: "run_commit env db meta (ld, write_all env db ld ws d) = (r0, ld', d')"
    and r: "r = rbind r0 (\<lambda>_. Inr (meta_load meta, meta_seq meta))"
    using run by (auto simp: load_publish_def split: prod.splits)
  have ok: "session_ok env db w ld" using assms(2) by (simp add: delivery_ok_def)
  have w: "\<not> in_tx w (write_all env db ld ws d)" "committed w (write_all env db ld ws d) = committed w d"
    using write_all_outside [OF ok _ assms(3)] assms(2) by (auto simp: delivery_ok_def)
  note atomic = run_commit_effect [OF assms(1) ok w(1) c, unfolded w(2)]
  show "\<not> in_tx w d'" using atomic by simp
  show "committed w d' = committed w d \<or> unit_key meta \<notin> ledger (committed w d) \<and>
      ledger (committed w d') = insert (unit_key meta) (ledger (committed w d)) \<and>
      docs (committed w d') = put_doc (docs (committed w d)) meta"
    using atomic by (cases r0) (auto simp: commit_effect_def unit_key_def put_doc_def Let_def split: if_splits)
  show "(l, uint n) = unit_key meta \<and> unit_key meta \<in> ledger (committed w d')" if "r = Inr (l, n)"
    using atomic that r by (cases r0) (auto simp: commit_effect_def unit_key_def Let_def split: if_splits)
qed

text \<open>
  C1. Exactly once: over any sequence of deliveries by any sessions, failed, repeated and
  redelivered ones included, no unit moves the committed view twice, and a unit whose receipt
  is there never moves it again. At the end the ledger has gained exactly the units that
  moved the view, the state documents are those these units set, in their order, and every
  unit acknowledged to the engine is in the ledger. The database is taken to keep the
  promises of \<open>txn_ok\<close>, each session's statements those of \<open>session_ok\<close>, and the batches
  written to be of the session's tables.
\<close>

theorem exactly_once:
  assumes "txn_ok db w" and "\<forall>a \<in> set as. delivery_ok env db w a" and "\<not> in_tx w d"
    and "attempts env db w as d = (ms, acks, d')"
  shows "distinct (map unit_key ms) \<and> unit_key ` set ms \<inter> ledger (committed w d) = {} \<and>
    ledger (committed w d') = unit_key ` set ms \<union> ledger (committed w d) \<and>
    docs (committed w d') = foldl put_doc (docs (committed w d)) ms \<and>
    acks \<subseteq> ledger (committed w d')"
  using assms(2-)
proof (induction as arbitrary: d ms acks)
  case (Cons a as)
  obtain ld ws meta where a: "a = (ld, ws, meta)" by (metis prod_cases3)
  obtain r ld1 d1 where run: "load_publish env db meta (ld, write_all env db ld ws d) = (r, ld1, d1)" by (metis prod_cases3)
  obtain ms1 acks1 where rest: "attempts env db w as d1 = (ms1, acks1, d')"
    and ms: "ms = (if committed w d1 \<noteq> committed w d then meta # ms1 else ms1)"
    and acks: "acks = (case r of Inr (l, n) \<Rightarrow> insert (l, uint n) acks1 | Inl _ \<Rightarrow> acks1)"
    using Cons.prems(3) a run by (auto split: prod.splits)
  have ok: "delivery_ok env db w (ld, ws, meta)" using Cons.prems(1) a by simp
  note step = attempt_step [OF assms(1) ok Cons.prems(2) run]
  have ih: "distinct (map unit_key ms1) \<and> unit_key ` set ms1 \<inter> ledger (committed w d1) = {} \<and>
      ledger (committed w d') = unit_key ` set ms1 \<union> ledger (committed w d1) \<and>
      docs (committed w d') = foldl put_doc (docs (committed w d1)) ms1 \<and> acks1 \<subseteq> ledger (committed w d')"
    using Cons.prems(1) by (intro Cons.IH [OF _ step(1) rest]) simp
  have "acks \<subseteq> ledger (committed w d')"
  proof (cases r)
    case (Inr p)
    obtain l n where "p = (l, n)" by force
    with Inr step(3) [of l n] acks ih show ?thesis by auto
  qed (use acks ih in auto)
  moreover from step(2) have "distinct (map unit_key ms) \<and> unit_key ` set ms \<inter> ledger (committed w d) = {} \<and>
    ledger (committed w d') = unit_key ` set ms \<union> ledger (committed w d) \<and>
    docs (committed w d') = foldl put_doc (docs (committed w d)) ms"
  proof
    assume "committed w d1 = committed w d"
    with ih ms show ?thesis by simp
  next
    assume new: "unit_key meta \<notin> ledger (committed w d) \<and>
      ledger (committed w d1) = insert (unit_key meta) (ledger (committed w d)) \<and>
      docs (committed w d1) = put_doc (docs (committed w d)) meta"
    then have "ms = meta # ms1" using ms by auto
    with ih new show ?thesis by auto
  qed
  ultimately show ?case by blast
qed simp

section \<open>A database that keeps the promises\<close>

text \<open>
  A small database for the witnesses: a ledger with a primary key, the state documents, the
  log of the statements that publish, and snapshot transactions.
\<close>

record toy_db =
  toy_in :: bool
  toy_done :: "string list view"
  toy_cur :: "string list view"

definition toy_batch :: "string \<Rightarrow> (toy_db, duckdb_error, unit) action" where
  "toy_batch sql d =
     (if sql = ''BEGIN'' then (Inr (), d\<lparr>toy_in := True, toy_cur := toy_done d\<rparr>)
      else if sql = ''COMMIT'' then (Inr (), d\<lparr>toy_in := False, toy_done := toy_cur d\<rparr>)
      else if sql = ''ROLLBACK'' then (Inr (), d\<lparr>toy_in := False\<rparr>)
      else if starts_with (''DELETE FROM '' @ [dquote] @ STAGE_PREFIX) sql then (Inr (), d)
      else (Inr (), d\<lparr>toy_cur := (ledger (toy_cur d), docs (toy_cur d), snd (snd (toy_cur d)) @ [sql])\<rparr>))"

definition toy_execute :: "string \<Rightarrow> sql_value list \<Rightarrow> (toy_db, duckdb_error, unit) action" where
  "toy_execute sql ps d =
     (case ps of
        [VText l, VInt n] \<Rightarrow>
          if (l, n) \<in> ledger (toy_cur d) then (Inl (DuckDBFailure ''dup'' (Some ''Constraint Error: dup'')), d)
          else (Inr (), d\<lparr>toy_cur := (insert (l, n) (ledger (toy_cur d)), snd (toy_cur d))\<rparr>)
      | [VText p, VText doc] \<Rightarrow>
          (Inr (), d\<lparr>toy_cur := (ledger (toy_cur d), (docs (toy_cur d))(p \<mapsto> doc), snd (snd (toy_cur d)))\<rparr>)
      | _ \<Rightarrow> (Inr (), d))"

definition toy_query :: "string \<Rightarrow> sql_value list \<Rightarrow> (toy_db, duckdb_error, int) action" where
  "toy_query sql ps d =
     (Inr (case ps of
        [VText l, VInt n] \<Rightarrow> if (l, n) \<in> ledger (toy_cur d) then 1 else 0
      | [VText l] \<Rightarrow> if l \<in> fst ` ledger (toy_cur d) then 1 else 0
      | _ \<Rightarrow> 1), d)"

definition toy :: "(toy_db, unit) duckdb" where
  "toy = \<lparr>execute_batch = toy_batch, execute = toy_execute, query_int = toy_query,
     query_text = (\<lambda>_ _. afail (QueryReturnedNoRows ''no rows'')), query_pairs = (\<lambda>_ _. aret []),
     append_batch = (\<lambda>_ _. aret ())\<rparr>"

definition toy_view :: "(toy_db, string list) txn_view" where
  "toy_view = \<lparr>in_tx = toy_in, committed = toy_done, current = toy_cur\<rparr>"

lemma toy_txn_ok: "txn_ok toy toy_view"
proof -
  have "begin_ok toy toy_view" "end_ok toy toy_view"
    by (auto simp: begin_ok_def end_ok_def toy_def toy_batch_def toy_view_def)
  moreover have "probes_ok toy toy_view"
    by (force simp: probes_ok_def always_def txn_at_def on_ok_def reads_def toy_def toy_view_def toy_query_def)
  moreover have "meta_ok toy toy_view"
    by (auto simp: meta_ok_def always_def txn_at_def on_ok_def reads_def toy_def toy_view_def toy_execute_def
        split: if_splits)
  ultimately show ?thesis by (simp add: txn_ok_def)
qed

text \<open>The data statements of a session over the table \<^verbatim>\<open>events\<close>, appended to.\<close>

definition demo_load :: duck_load where
  "demo_load = \<lparr>ld_options = options_default, ld_tables = [(''events'', demo_schema, Append)],
     ld_previous = [(''events'', demo_schema)], ld_single_unit_done = {}\<rparr>"

lemma toy_stage_clear: "starts_with (''DELETE FROM '' @ [dquote] @ STAGE_PREFIX) (stage_clear demo_env t)"
  by (simp add: starts_with_def STAGE_PREFIX_def stage_clear_def duck_dialect_def default_dialect_def duck_stage_name_def
      quote_identifier_def enclose_def)

lemma toy_session_sql: "sql \<in> session_sql demo_env demo_load \<Longrightarrow> sql \<notin> {''BEGIN'', ''COMMIT'', ''ROLLBACK''}"
  unfolding session_sql_def
proof (clarify)
  fix s sqls assume "step_sql demo_env demo_load s = Inr sqls" "sql \<in> set sqls" "sql \<in> {''BEGIN'', ''COMMIT'', ''ROLLBACK''}"
  then show False
    by (cases s) (auto simp: insert_sql_def merge_sql_def demo_load_def
        duck_dialect_def default_dialect_def scope_replace_sql_def insert_select_sql_def Let_def
        split: if_splits prod.splits)
qed

lemma toy_session_ok: "session_ok demo_env toy toy_view demo_load"
proof -
  have data: "always (txn_at toy_view v) (toy_batch sql)" "on_ok (books toy_view g) (toy_batch sql) (\<lambda>_. books toy_view g)"
    if "sql \<in> session_sql demo_env demo_load" for sql v g
    using toy_session_sql [OF that]
    by (auto simp: always_def txn_at_def on_ok_def books_def toy_view_def toy_batch_def split: if_splits)
  have clear: "toy_batch (stage_clear demo_env t) d = (Inr (), d)" for t d
    using toy_stage_clear [of t] by (auto simp: toy_batch_def starts_with_def)
  show ?thesis
    using data by (auto simp: session_ok_def on_ok_def always_def toy_def clear toy_query_def)
qed

definition demo_meta :: commit_meta where
  "demo_meta = \<lparr>meta_load = ''L1'', meta_seq = 7, meta_pipeline = ''p'', meta_doc = Inr ''{}''\<rparr>"

definition toy_start :: toy_db where
  "toy_start = \<lparr>toy_in = False, toy_done = ({}, Map.empty, []), toy_cur = ({}, Map.empty, [])\<rparr>"

theorem commit_atomic_witness:
  "case run_commit demo_env toy demo_meta (demo_load, toy_start) of
     (Inr _, _, d') \<Rightarrow> docs (toy_done d') = [''p'' \<mapsto> ''{}''] \<and> ledger (toy_done d') = {(''L1'', 7)}
   | (Inl _, _, d') \<Rightarrow> toy_done d' = toy_done toy_start"
proof -
  obtain r ld' d' where run: "run_commit demo_env toy demo_meta (demo_load, toy_start) = (r, ld', d')"
    by (metis prod_cases3)
  have "\<not> in_tx toy_view toy_start" by (simp add: toy_view_def toy_start_def)
  from commit_atomic [OF toy_txn_ok toy_session_ok this run] run show ?thesis
    by (auto simp: toy_view_def toy_start_def demo_meta_def split: sum.splits)
qed

theorem exactly_once_witness:
  "case attempts demo_env toy toy_view [(demo_load, [], demo_meta), (demo_load, [], demo_meta)] toy_start of
     (ms, _, d') \<Rightarrow> distinct (map unit_key ms) \<and> ledger (toy_done d') = unit_key ` set ms"
proof -
  obtain ms acks d' where run:
    "attempts demo_env toy toy_view [(demo_load, [], demo_meta), (demo_load, [], demo_meta)] toy_start = (ms, acks, d')"
    by (metis prod_cases3)
  have "\<not> in_tx toy_view toy_start" by (simp add: toy_view_def toy_start_def)
  moreover have "\<forall>a \<in> set [(demo_load, [], demo_meta), (demo_load, [], demo_meta)]. delivery_ok demo_env toy toy_view a"
    by (simp add: delivery_ok_def toy_session_ok)
  ultimately show ?thesis using exactly_once [OF toy_txn_ok _ _ run] run by (simp add: toy_view_def toy_start_def)
qed


text \<open>A library on which everything succeeds, the ledger is empty and every stage holds rows.\<close>

definition quiet :: "(unit, unit) duckdb" where
  "quiet = \<lparr>execute_batch = (\<lambda>_. aret ()), execute = (\<lambda>_ _. aret ()),
     query_int = (\<lambda>_ ps. aret (if ps = [] then 1 else 0)),
     query_text = (\<lambda>_ _. afail (QueryReturnedNoRows ''no rows'')), query_pairs = (\<lambda>_ _. aret []),
     append_batch = (\<lambda>_ _. aret ())\<rparr>"

lemma quiet_run [simp]:
  "batch_sql quiet sql s = (Inr (), ())" "execute_batch quiet sql s = (Inr (), ())" "execute quiet sql ps s = (Inr (), ())"
  "query_int quiet sql ps s = (Inr (if ps = [] then 1 else 0), ())" "query_pairs quiet sql ps s = (Inr [], ())"
  by (simp_all add: quiet_def batch_sql_def amap_err_def)

lemma quiet_each: "(\<And>x. x \<in> set xs \<Longrightarrow> f x () = (Inr (), ())) \<Longrightarrow> aeach f xs () = (Inr (), ())"
  by (induction xs) (simp_all add: abind_def)

definition quiet_load :: "string set \<Rightarrow> duck_load" where
  "quiet_load marked = \<lparr>ld_options = demo_scope, ld_tables = demo_merge_tables,
     ld_previous = [(''events'', demo_schema)], ld_single_unit_done = marked\<rparr>"

lemma quiet_open: "load_open quiet [] demo_scope () =
    (Inr \<lparr>ld_options = demo_scope, ld_tables = [], ld_previous = [], ld_single_unit_done = {}\<rparr>, ())"
  by (simp add: load_open_def db_session_def abind_def)

lemma quiet_ensure: "ensure_table demo_env quiet demo_schema (Merge [''id''])
    \<lparr>ld_options = demo_scope, ld_tables = [], ld_previous = [], ld_single_unit_done = {}\<rparr> () = (Inr (quiet_load {}), ())"
proof -
  obtain ss where t: "table_ddl demo_env demo_schema None = Inr ss"
    using table_ddl_total [OF demo_env_ok] by blast
  have "\<exists>ss. merge_steps demo_env demo_scope demo_schema (Merge [''id'']) = Inr ss"
    by (simp add: merge_steps_Merge [OF demo_env_ok] merge_config_ok_def Let_def)
      (simp add: demo_schema_def column_names_def)
  then obtain ms where m: "merge_ddl demo_env demo_scope demo_schema (Merge [''id'']) = Inr ms"
    using merge_ddl_total by blast
  have tab: "sch_table demo_schema = ''events''" by (simp add: demo_schema_def)
  have "aeach (run_table_ddl quiet) ss () = (Inr (), ())" "aeach (run_merge_ddl quiet ''events'') ms () = (Inr (), ())"
    by (rule quiet_each, simp add: run_table_ddl_def run_merge_ddl_def amap_err_def split: prod.split)+
  moreover have "cross_run_image quiet \<lparr>ld_options = demo_scope, ld_tables = [], ld_previous = [], ld_single_unit_done = {}\<rparr>
      demo_schema () = (Inr None, ())"
    by (simp add: cross_run_image_def read_live_schema_def amap_err_def abind_def live_schema_def live_columns_def)
  ultimately show ?thesis
    using t m
    by (simp add: ensure_table_def Let_def abind_def tab ensure_guard_def pre_alter_index_drops_def quiet_load_def
        demo_merge_tables_def)
qed

lemma quiet_commit:
  "unit_script demo_env quiet demo_meta (quiet_load {}, ()) = Some
     \<lparr>steps = [ScopeReplace ''events'' [''day''], MergeArm ''events'' KeyedDeleteInsert, TruncateStage ''events'',
        UpsertState, InsertReceipt], marks = [''events'']\<rparr>"
  "run_commit demo_env quiet demo_meta (quiet_load {}, ()) = (Inr (), quiet_load {''events''}, ())"
proof -
  let ?script = "\<lparr>steps = [ScopeReplace ''events'' [''day''], MergeArm ''events'' KeyedDeleteInsert, TruncateStage ''events'',
        UpsertState, InsertReceipt], marks = [''events'']\<rparr>"
  have "staged_probe_targets demo_merge_tables demo_scope = [''events'']"
    by (simp add: staged_probe_targets_def demo_merge_tables_def full_feed_def)
  then have ps: "planned_script demo_env quiet (quiet_load {}) demo_meta () = (Inr ?script, ())"
    using demo_scope_plan
    by (simp add: planned_script_def receipt_recorded_def ledger_seq_def demo_meta_def abind_def amap_err_def
        staged_nonempty_probe_def quiet_load_def demo_ctx_def)
  then show "unit_script demo_env quiet demo_meta (quiet_load {}, ()) = Some ?script"
    by (simp add: unit_script_def abind_def)
  have "aeach (run_step demo_env quiet (quiet_load {}) demo_meta) (steps ?script) () = (Inr (), ())"
    by (simp add: abind_def amap_err_def quiet_load_def merge_sql_def demo_merge_tables_def Let_def quiet_each
        ledger_seq_def demo_meta_def)
  with ps have "commit_in_tx demo_env quiet (quiet_load {}) demo_meta () = (Inr [''events''], ())"
    by (simp add: commit_in_tx_def abind_def)
  then show "run_commit demo_env quiet demo_meta (quiet_load {}, ()) = (Inr (), quiet_load {''events''}, ())"
    by (simp add: run_commit_def quiet_load_def)
qed

theorem full_feed_publishes_once_witness:
  "\<exists>us ld. session_run demo_env quiet (\<lparr>ld_options = demo_scope, ld_tables = [], ld_previous = [],
       ld_single_unit_done = {}\<rparr>, ()) us (ld, ()) \<and>
     length (filter (merges ''events'') us) = 1 \<and> ''events'' \<in> ld_single_unit_done ld"
proof -
  let ?ld0 = "\<lparr>ld_options = demo_scope, ld_tables = [], ld_previous = [], ld_single_unit_done = {}\<rparr>"
  obtain script where script: "unit_script demo_env quiet demo_meta (quiet_load {}, ()) = Some script"
    and m: "merges ''events'' script"
    using quiet_commit(1) by (auto simp: merges_def)
  have run: "session_run demo_env quiet (?ld0, ()) ([] @ [script]) (quiet_load {''events''}, ())"
    by (rule session_run.committed_unit [OF session_run.ensured [OF session_run.opened quiet_ensure] quiet_commit(2) script])
  have ff: "full_feed (resolve demo_scope ''events'')" by (simp add: full_feed_def)
  from full_feed_publishes_once [OF quiet_open run ff] m run show ?thesis by (intro exI conjI) auto
qed

section \<open>The open registry\<close>

text \<open>
  C40. A process opens a database file for writing once: a connect that succeeds claims a path
  nobody held, one that fails for any reason leaves the registry as it was, and a path
  known to be held is refused before the library opens (and truncates) anything.
\<close>

theorem connect_claims:
  assumes "db_connect fs path settings extensions reg = (r, reg', opened)"
  shows "(case r of Inr c \<Rightarrow> c \<notin> reg \<and> reg' = insert c reg | Inl _ \<Rightarrow> reg' = reg) \<and>
    ((\<exists>c \<in> reg. canon_before fs = Some c) \<longrightarrow> r = Inl (double_open_refusal path) \<and> \<not> opened)"
proof -
  obtain rc regc oc where c: "claim_path fs path reg = (rc, regc, oc)" by (metis prod_cases3)
  have "(case rc of Inr c \<Rightarrow> c \<notin> reg \<and> regc = insert c reg | Inl _ \<Rightarrow> regc = reg) \<and>
    ((\<exists>c \<in> reg. canon_before fs = Some c) \<longrightarrow> rc = Inl (double_open_refusal path) \<and> \<not> oc)"
    using c by (auto simp: claim_path_def split: if_splits option.splits sum.splits)
  with assms c show ?thesis by (auto simp: db_connect_def split: sum.splits)
qed

theorem connect_claims_witness:
  "snd (snd (db_connect \<lparr>canon_before = Some ''/a'', open_result = Inr (), canon_after = Inr ''/a'',
      setup_result = (\<lambda>_. Inr ())\<rparr> ''a'' [] [] {''/a''})) = False"
proof -
  let ?fs = "\<lparr>canon_before = Some ''/a'', open_result = Inr (), canon_after = Inr ''/a'', setup_result = (\<lambda>_. Inr ())\<rparr>"
  obtain r reg' opened where "db_connect ?fs ''a'' [] [] {''/a''} = (r, reg', opened)" by (metis prod_cases3)
  from connect_claims [OF this] this show ?thesis by simp
qed

end
