(* ===== verification/File_Docs.thy ===== *)
theory File_Docs
  imports Prelude
begin

text \<open>
  \<^verbatim>\<open>crates/rdlt-connector-file/src/location/kind.rs\<close> and \<^verbatim>\<open>location/s3.rs\<close>: the
  conditional document verbs the session lease is built on, on both storage arms. The
  storage is a map from document names to bytes \<open>'b\<close>; the operating system and
  \<^verbatim>\<open>object_store\<close> are their documented behaviour on it: \<open>O_EXCL\<close> and \<open>PutMode::Create\<close>
  succeed on an absent name only, \<open>unlink\<close> tells its one winner, \<open>PutMode::Update\<close>
  succeeds only on the version that was read.
\<close>

datatype dest_failure = FatalFailure string | TransientFailure string

datatype location_arm = LocalArm | S3Arm

text \<open>
  \<open>DocVersion\<close>. Of the store's version identity the protocol relies only on this: two
  reads with the same version have the same bytes, so the bytes stand for it.
\<close>

datatype 'b doc_version = LocalVersion | S3Version 'b

datatype 'b create_doc = Created "'b doc_version" | AlreadyExists

text \<open>\<open>StaleDocVersion\<close> is the typed marker of a lost compare-and-swap.\<close>

datatype doc_error = StaleDocVersion string | DocFailure dest_failure

definition is_stale_version :: "doc_error \<Rightarrow> bool" where
  "is_stale_version e \<longleftrightarrow> (case e of StaleDocVersion _ \<Rightarrow> True | DocFailure _ \<Rightarrow> False)"

definition stale_text :: "string \<Rightarrow> string" where
  "stale_text name = ''document version is stale (CAS replace lost) for `'' @ name @ ''`''"

text \<open>
  What the disk or the network may do to a call: nothing, lose the request, or lose the
  reply after the storage took it.
\<close>

datatype io_fault = NoFault | LostRequest dest_failure | LostReply dest_failure

type_synonym 'b docs = "string \<rightharpoonup> 'b"

definition faulty ::
    "io_fault \<Rightarrow> ('b docs \<Rightarrow> (doc_error, 'a) result \<times> 'b docs) \<Rightarrow> 'b docs \<Rightarrow> (doc_error, 'a) result \<times> 'b docs" where
  "faulty f call m =
     (case f of
        NoFault \<Rightarrow> call m
      | LostRequest e \<Rightarrow> (Inl (DocFailure e), m)
      | LostReply e \<Rightarrow> (Inl (DocFailure e), snd (call m)))"

definition version_of :: "location_arm \<Rightarrow> 'b \<Rightarrow> 'b doc_version" where
  "version_of arm b = (case arm of LocalArm \<Rightarrow> LocalVersion | S3Arm \<Rightarrow> S3Version b)"

definition create_doc_exclusive ::
    "location_arm \<Rightarrow> io_fault \<Rightarrow> string \<Rightarrow> 'b \<Rightarrow> 'b docs \<Rightarrow> (doc_error, 'b create_doc) result \<times> 'b docs" where
  "create_doc_exclusive arm f name b =
     faulty f (\<lambda>m. case m name of
       None \<Rightarrow> (Inr (Created (version_of arm b)), m(name \<mapsto> b))
     | Some _ \<Rightarrow> (Inr AlreadyExists, m))"

definition read_doc_versioned ::
    "location_arm \<Rightarrow> io_fault \<Rightarrow> string \<Rightarrow> 'b docs \<Rightarrow> (doc_error, ('b \<times> 'b doc_version) option) result \<times> 'b docs" where
  "read_doc_versioned arm f name =
     faulty f (\<lambda>m. (Inr (map_option (\<lambda>b. (b, version_of arm b)) (m name)), m))"

definition replace_doc_if ::
    "location_arm \<Rightarrow> io_fault \<Rightarrow> string \<Rightarrow> 'b \<Rightarrow> 'b doc_version \<Rightarrow> 'b docs \<Rightarrow>
     (doc_error, 'b doc_version) result \<times> 'b docs" where
  "replace_doc_if arm f name b version =
     (case arm of
        LocalArm \<Rightarrow> faulty f (\<lambda>m. (Inr LocalVersion, m(name \<mapsto> b)))
      | S3Arm \<Rightarrow>
          (case version of
             LocalVersion \<Rightarrow> (\<lambda>m. (Inl (DocFailure (FatalFailure
               ''replace_doc_if: an S3 location needs an S3 version handle, not a local one'')), m))
           | S3Version v \<Rightarrow>
               faulty f (\<lambda>m. if m name = Some v then (Inr (S3Version b), m(name \<mapsto> b))
                 else (Inl (StaleDocVersion name), m))))"

definition delete_doc :: "io_fault \<Rightarrow> string \<Rightarrow> 'b docs \<Rightarrow> (doc_error, unit) result \<times> 'b docs" where
  "delete_doc f name = faulty f (\<lambda>m. (Inr (), m(name := None)))"

definition delete_doc_exclusive ::
    "location_arm \<Rightarrow> io_fault \<Rightarrow> string \<Rightarrow> 'b docs \<Rightarrow> (doc_error, bool) result \<times> 'b docs" where
  "delete_doc_exclusive arm f name =
     (case arm of
        LocalArm \<Rightarrow> faulty f (\<lambda>m. (Inr (m name \<noteq> None), m(name := None)))
      | S3Arm \<Rightarrow> (\<lambda>m. case delete_doc f name m of (r, m') \<Rightarrow> (rbind r (\<lambda>_. Inr True), m')))"

text \<open>What a call may leave in the storage, whatever the fault.\<close>

lemma faulty_snd: "snd (faulty f call m) = m \<or> snd (faulty f call m) = snd (call m)"
  by (cases f) (auto simp: faulty_def)

lemma faulty_Inr: "faulty f call m = (Inr r, m') \<longleftrightarrow> f = NoFault \<and> call m = (Inr r, m')"
  by (cases f) (auto simp: faulty_def)

lemma create_doc_effect: "snd (create_doc_exclusive arm f name b m) = m \<or>
    m name = None \<and> snd (create_doc_exclusive arm f name b m) = m(name \<mapsto> b)"
  by (cases f; cases "m name") (auto simp: create_doc_exclusive_def faulty_def)

lemma create_doc_Created: "create_doc_exclusive arm f name b m = (Inr (Created v), m') \<Longrightarrow>
    m name = None \<and> m' = m(name \<mapsto> b)"
  by (auto simp: create_doc_exclusive_def faulty_Inr split: option.splits)

lemma read_doc_same [simp]: "snd (read_doc_versioned arm f name m) = m"
  by (cases f) (auto simp: read_doc_versioned_def faulty_def)

lemma read_doc_Inr: "read_doc_versioned arm f name m = (Inr r, m') \<longleftrightarrow>
    f = NoFault \<and> m' = m \<and> r = map_option (\<lambda>b. (b, version_of arm b)) (m name)"
  by (auto simp: read_doc_versioned_def faulty_Inr)

lemma replace_s3_effect: "snd (replace_doc_if S3Arm f name b v m) = m \<or>
    (\<exists>old. v = S3Version old \<and> m name = Some old \<and> snd (replace_doc_if S3Arm f name b v m) = m(name \<mapsto> b))"
  by (cases v; cases f) (auto simp: replace_doc_if_def faulty_def)

lemma replace_s3_Inr: "replace_doc_if S3Arm f name b v m = (Inr r, m') \<Longrightarrow>
    \<exists>old. v = S3Version old \<and> m name = Some old \<and> m' = m(name \<mapsto> b)"
  by (cases v; cases f) (auto simp: replace_doc_if_def faulty_def split: if_splits)

lemma delete_doc_effect: "snd (delete_doc f name m) = m \<or> snd (delete_doc f name m) = m(name := None)"
  by (cases f) (auto simp: delete_doc_def faulty_def)

end
