(* ===== verification/File_Lease.thy ===== *)
theory File_Lease
  imports File_Docs
begin

text \<open>
  \<^verbatim>\<open>crates/rdlt-connector-file/src/destination/lease.rs\<close>: the session lease. An async
  function is a state machine whose states are its suspension points: each step performs
  the one storage call the code awaits there and runs on to the next. Times are
  milliseconds.
\<close>

section \<open>The document\<close>

definition LEASE_FORMAT_VERSION :: nat where "LEASE_FORMAT_VERSION = 1"
definition HEARTBEAT_SECS :: nat where "HEARTBEAT_SECS = 15"
definition TTL_SECS :: nat where "TTL_SECS = 300"
definition SELF_EXPIRY_SECS :: nat where "SELF_EXPIRY_SECS = TTL_SECS - 2 * HEARTBEAT_SECS"

record lease_doc =
  format_version :: nat
  doc_pipeline :: string
  doc_owner :: string
  acquired_at_ms :: nat
  renewed_at_ms :: nat

text \<open>\<open>serde_json\<close> on lease documents.\<close>

record 'b lease_json =
  parse_json :: "'b \<Rightarrow> (string, lease_doc) result"
  to_json :: "lease_doc \<Rightarrow> (string, 'b) result"

definition json_ok :: "'b lease_json \<Rightarrow> bool" where
  "json_ok js \<longleftrightarrow> (\<forall>d. \<exists>b. to_json js d = Inr b \<and> parse_json js b = Inr d)"

definition fresh_doc :: "string \<Rightarrow> string \<Rightarrow> nat \<Rightarrow> lease_doc" where
  "fresh_doc pipeline owner now =
     \<lparr>format_version = LEASE_FORMAT_VERSION, doc_pipeline = pipeline, doc_owner = owner,
      acquired_at_ms = now, renewed_at_ms = now\<rparr>"

definition encode :: "'b lease_json \<Rightarrow> lease_doc \<Rightarrow> (dest_failure, 'b) result" where
  "encode js d =
     (case to_json js d of
        Inl e \<Rightarrow> Inl (FatalFailure (''encoding the destination lease: '' @ e))
      | Inr b \<Rightarrow> Inr b)"

datatype decode_failure = Unparseable string | NewerVersion nat

definition into_destination_error :: "decode_failure \<Rightarrow> string \<Rightarrow> dest_failure" where
  "into_destination_error e path =
     (case e of
        Unparseable msg \<Rightarrow> FatalFailure (''unreadable destination lease `'' @ path @ ''`: '' @ msg)
      | NewerVersion found \<Rightarrow>
          FatalFailure (''destination lease `'' @ path @ ''` format v'' @ show_nat found @
            '' is newer than this build supports (v'' @ show_nat LEASE_FORMAT_VERSION @ ''); upgrade rdlt''))"

definition decode :: "'b lease_json \<Rightarrow> 'b \<Rightarrow> (decode_failure, lease_doc) result" where
  "decode js b =
     (case parse_json js b of
        Inl e \<Rightarrow> Inl (Unparseable e)
      | Inr d \<Rightarrow> if format_version d > LEASE_FORMAT_VERSION then Inl (NewerVersion (format_version d)) else Inr d)"

definition lease_file :: "string \<Rightarrow> string" where
  "lease_file scope = ''_rdlt_lease.'' @ scope @ ''.json''"

section \<open>Acquire\<close>

text \<open>Whose lease: the arm, the document, the pipeline and the owner token.\<close>

record 'b lease_wiring =
  lw_arm :: location_arm
  lw_doc :: string
  lw_pipeline :: string
  lw_owner :: string
  lw_json :: "'b lease_json"

text \<open>
  The suspension points of \<open>acquire_with_wait\<close>, the awaits of \<open>takeover\<close> included.
  \<open>now\<close> is the stamp the loop body took, \<open>b\<close> the bytes of the fresh document.
\<close>

datatype 'b expected = Stale lease_doc | StillUndecodable

datatype 'b acquire =
    Creating nat 'b
  | Reading nat 'b
  | Waiting nat 'b
  | Rereading nat 'b
  | Rechecking "'b expected" nat 'b
  | Unlinking nat 'b
  | Replacing nat 'b "'b doc_version"
  | Reacquiring nat 'b "'b doc_version"
  | Held nat
  | Refused dest_failure

text \<open>The head of the loop: stamp, encode, and await the exclusive create.\<close>

definition acquire_loop :: "'b lease_wiring \<Rightarrow> nat \<Rightarrow> 'b acquire" where
  "acquire_loop w now =
     (case encode (lw_json w) (fresh_doc (lw_pipeline w) (lw_owner w) now) of
        Inl e \<Rightarrow> Refused e
      | Inr b \<Rightarrow> Creating now b)"

text \<open>\<open>takeover\<close> up to its first await: the local arm rechecks, S3 goes for the replace.\<close>

definition begin_takeover ::
    "'b lease_wiring \<Rightarrow> 'b expected \<Rightarrow> nat \<Rightarrow> 'b \<Rightarrow> 'b doc_version \<Rightarrow> 'b acquire" where
  "begin_takeover w expected now b version =
     (case lw_arm w of LocalArm \<Rightarrow> Rechecking expected now b | S3Arm \<Rightarrow> Replacing now b version)"

text \<open>A decoded holder: our own document, a stale one, or a refusal.\<close>

definition age_secs :: "nat \<Rightarrow> lease_doc \<Rightarrow> nat" where
  "age_secs now holder = (now - renewed_at_ms holder) div 1000"

definition held_by_other :: "'b lease_wiring \<Rightarrow> nat \<Rightarrow> lease_doc \<Rightarrow> dest_failure" where
  "held_by_other w now holder =
     FatalFailure (''another session of pipeline `'' @ lw_pipeline w @ ''` holds the destination lease (owner '' @
       doc_owner holder @ '', renewed '' @ show_nat (age_secs now holder) @
       ''s ago); if that session is dead the lease expires in '' @ show_nat (TTL_SECS - age_secs now holder) @ ''s'')"

definition judge_holder ::
    "'b lease_wiring \<Rightarrow> nat \<Rightarrow> 'b \<Rightarrow> lease_doc \<Rightarrow> 'b doc_version \<Rightarrow> 'b acquire" where
  "judge_holder w now b holder version =
     (if doc_owner holder = lw_owner w then Reacquiring now b version
      else if age_secs now holder > TTL_SECS then begin_takeover w (Stale holder) now b version
      else Refused (held_by_other w now holder))"

text \<open>The debris branch stamps and encodes afresh, because the wait just happened.\<close>

definition begin_reclaim :: "'b lease_wiring \<Rightarrow> nat \<Rightarrow> 'b doc_version \<Rightarrow> 'b acquire" where
  "begin_reclaim w clk version =
     (case encode (lw_json w) (fresh_doc (lw_pipeline w) (lw_owner w) clk) of
        Inl e \<Rightarrow> Refused e
      | Inr b \<Rightarrow> begin_takeover w StillUndecodable clk b version)"

definition recheck_unchanged :: "'b lease_wiring \<Rightarrow> 'b expected \<Rightarrow> 'b \<Rightarrow> bool" where
  "recheck_unchanged w expected b =
     (case expected of
        Stale stale \<Rightarrow>
          (case decode (lw_json w) b of
             Inr d \<Rightarrow> doc_owner d = doc_owner stale \<and> renewed_at_ms d = renewed_at_ms stale
           | Inl _ \<Rightarrow> False)
      | StillUndecodable \<Rightarrow>
          (case decode (lw_json w) b of Inl (Unparseable _) \<Rightarrow> True | _ \<Rightarrow> False))"

definition failure_of :: "doc_error \<Rightarrow> dest_failure" where
  "failure_of e = (case e of DocFailure d \<Rightarrow> d | StaleDocVersion name \<Rightarrow> FatalFailure (stale_text name))"

text \<open>
  What each await's answer leads to; \<open>clk\<close> is the clock when the answer arrives, read
  by whatever stamps next.
\<close>

definition after_create ::
    "'b lease_wiring \<Rightarrow> nat \<Rightarrow> 'b \<Rightarrow> (doc_error, 'b create_doc) result \<Rightarrow> 'b acquire" where
  "after_create w now b r =
     (case r of
        Inl e \<Rightarrow> Refused (failure_of e)
      | Inr (Created _) \<Rightarrow> Held now
      | Inr AlreadyExists \<Rightarrow> Reading now b)"

definition after_read ::
    "'b lease_wiring \<Rightarrow> nat \<Rightarrow> nat \<Rightarrow> 'b \<Rightarrow> (doc_error, ('b \<times> 'b doc_version) option) result \<Rightarrow> 'b acquire" where
  "after_read w clk now b r =
     (case r of
        Inl e \<Rightarrow> Refused (failure_of e)
      | Inr None \<Rightarrow> acquire_loop w clk
      | Inr (Some (bytes, version)) \<Rightarrow>
          (case decode (lw_json w) bytes of
             Inr holder \<Rightarrow> judge_holder w now b holder version
           | Inl (NewerVersion found) \<Rightarrow> Refused (into_destination_error (NewerVersion found) (lw_doc w))
           | Inl (Unparseable _) \<Rightarrow> Waiting now b))"

definition after_reread ::
    "'b lease_wiring \<Rightarrow> nat \<Rightarrow> nat \<Rightarrow> 'b \<Rightarrow> (doc_error, ('b \<times> 'b doc_version) option) result \<Rightarrow> 'b acquire" where
  "after_reread w clk now b r =
     (case r of
        Inl e \<Rightarrow> Refused (failure_of e)
      | Inr None \<Rightarrow> acquire_loop w clk
      | Inr (Some (bytes, version)) \<Rightarrow>
          (case decode (lw_json w) bytes of
             Inr holder \<Rightarrow> judge_holder w now b holder version
           | Inl (NewerVersion found) \<Rightarrow> Refused (into_destination_error (NewerVersion found) (lw_doc w))
           | Inl (Unparseable _) \<Rightarrow> begin_reclaim w clk version))"

definition after_recheck ::
    "'b lease_wiring \<Rightarrow> nat \<Rightarrow> 'b expected \<Rightarrow> nat \<Rightarrow> 'b \<Rightarrow>
     (doc_error, ('b \<times> 'b doc_version) option) result \<Rightarrow> 'b acquire" where
  "after_recheck w clk expected now b r =
     (case r of
        Inl e \<Rightarrow> Refused (failure_of e)
      | Inr None \<Rightarrow> acquire_loop w clk
      | Inr (Some (bytes, _)) \<Rightarrow>
          if recheck_unchanged w expected bytes then Unlinking now b else acquire_loop w clk)"

definition after_replace ::
    "'b lease_wiring \<Rightarrow> nat \<Rightarrow> nat \<Rightarrow> (doc_error, 'b doc_version) result \<Rightarrow> 'b acquire" where
  "after_replace w clk now r =
     (case r of
        Inr _ \<Rightarrow> Held now
      | Inl e \<Rightarrow> if is_stale_version e then acquire_loop w clk else Refused (failure_of e))"

text \<open>One await of \<open>acquire\<close> on the storage.\<close>

fun acquire_step ::
    "'b lease_wiring \<Rightarrow> nat \<Rightarrow> io_fault \<Rightarrow> 'b acquire \<Rightarrow> 'b docs \<Rightarrow> 'b acquire \<times> 'b docs" where
  "acquire_step w clk f (Creating now b) m =
     (case create_doc_exclusive (lw_arm w) f (lw_doc w) b m of (r, m') \<Rightarrow> (after_create w now b r, m'))"
| "acquire_step w clk f (Reading now b) m =
     (case read_doc_versioned (lw_arm w) f (lw_doc w) m of (r, m') \<Rightarrow> (after_read w clk now b r, m'))"
| "acquire_step w clk f (Waiting now b) m = (Rereading now b, m)"
| "acquire_step w clk f (Rereading now b) m =
     (case read_doc_versioned (lw_arm w) f (lw_doc w) m of (r, m') \<Rightarrow> (after_reread w clk now b r, m'))"
| "acquire_step w clk f (Rechecking expected now b) m =
     (case read_doc_versioned (lw_arm w) f (lw_doc w) m of (r, m') \<Rightarrow> (after_recheck w clk expected now b r, m'))"
| "acquire_step w clk f (Unlinking now b) m =
     (case delete_doc_exclusive (lw_arm w) f (lw_doc w) m of
        (Inl e, m') \<Rightarrow> (Refused (failure_of e), m')
      | (Inr _, m') \<Rightarrow> (acquire_loop w clk, m'))"
| "acquire_step w clk f (Replacing now b version) m =
     (case replace_doc_if (lw_arm w) f (lw_doc w) b version m of (r, m') \<Rightarrow> (after_replace w clk now r, m'))"
| "acquire_step w clk f (Reacquiring now b version) m =
     (case replace_doc_if (lw_arm w) f (lw_doc w) b version m of (r, m') \<Rightarrow> (after_replace w clk now r, m'))"
| "acquire_step w clk f (Held now) m = (Held now, m)"
| "acquire_step w clk f (Refused e) m = (Refused e, m)"

section \<open>Renew, check, release\<close>

text \<open>A heartbeat's two awaits; \<open>lost\<close> and \<open>last_ok_ms\<close> are the shared atomics.\<close>

datatype 'b beat = NoBeat | BeatReading | BeatReplacing nat 'b "'b doc_version"

record evidence =
  lost :: bool
  last_ok_ms :: nat

definition renew_read ::
    "'b lease_wiring \<Rightarrow> nat \<Rightarrow> (doc_error, ('b \<times> 'b doc_version) option) result \<Rightarrow> evidence \<Rightarrow> 'b beat \<times> evidence" where
  "renew_read w clk r ev =
     (case r of
        Inl _ \<Rightarrow> (NoBeat, ev)
      | Inr None \<Rightarrow> (NoBeat, ev\<lparr>lost := True\<rparr>)
      | Inr (Some (bytes, version)) \<Rightarrow>
          (case decode (lw_json w) bytes of
             Inl (NewerVersion _) \<Rightarrow> (NoBeat, ev\<lparr>lost := True\<rparr>)
           | Inl (Unparseable _) \<Rightarrow> (NoBeat, ev)
           | Inr d \<Rightarrow>
               if doc_owner d \<noteq> lw_owner w then (NoBeat, ev\<lparr>lost := True\<rparr>)
               else (case encode (lw_json w) (d\<lparr>renewed_at_ms := clk\<rparr>) of
                       Inl _ \<Rightarrow> (NoBeat, ev)
                     | Inr b \<Rightarrow> (BeatReplacing clk b version, ev))))"

definition renew_replace :: "nat \<Rightarrow> (doc_error, 'b doc_version) result \<Rightarrow> evidence \<Rightarrow> evidence" where
  "renew_replace stamp r ev =
     (case r of
        Inr _ \<Rightarrow> ev\<lparr>last_ok_ms := stamp\<rparr>
      | Inl e \<Rightarrow> if is_stale_version e then ev\<lparr>lost := True\<rparr> else ev)"

fun renew_step ::
    "'b lease_wiring \<Rightarrow> nat \<Rightarrow> io_fault \<Rightarrow> 'b beat \<Rightarrow> evidence \<Rightarrow> 'b docs \<Rightarrow> ('b beat \<times> evidence) \<times> 'b docs" where
  "renew_step w clk f NoBeat ev m = ((NoBeat, ev), m)"
| "renew_step w clk f BeatReading ev m =
     (case read_doc_versioned (lw_arm w) f (lw_doc w) m of (r, m') \<Rightarrow> (renew_read w clk r ev, m'))"
| "renew_step w clk f (BeatReplacing stamp b version) ev m =
     (case replace_doc_if (lw_arm w) f (lw_doc w) b version m of
        (r, m') \<Rightarrow> ((NoBeat, renew_replace stamp r ev), m'))"

definition check_still_held :: "'b lease_wiring \<Rightarrow> nat \<Rightarrow> evidence \<Rightarrow> (dest_failure, unit) result" where
  "check_still_held w clk ev =
     (if lost ev then Inl (FatalFailure
        (''the destination lease for pipeline `'' @ lw_pipeline w @ ''` was taken over by another session '' @
         ''(this session's heartbeat lost the race); aborting rather than corrupting the new holder's staging''))
      else if clk - last_ok_ms ev > SELF_EXPIRY_SECS * 1000 then Inl (FatalFailure
        (''the destination lease for pipeline `'' @ lw_pipeline w @ ''` has not been renewed within its TTL '' @
         ''(heartbeat starved or stopped); aborting rather than risking a takeover this session cannot see''))
      else Inr ())"

text \<open>\<open>release\<close>, after the heartbeat is fenced: the owner recheck, then the delete.\<close>

definition still_ours ::
    "'b lease_wiring \<Rightarrow> (doc_error, ('b \<times> 'b doc_version) option) result \<Rightarrow> bool" where
  "still_ours w r =
     (case r of
        Inr (Some (bytes, _)) \<Rightarrow> (case decode (lw_json w) bytes of Inr d \<Rightarrow> doc_owner d = lw_owner w | Inl _ \<Rightarrow> False)
      | _ \<Rightarrow> False)"

text \<open>A session's life around its lease; dropping it only stops the heartbeat.\<close>

datatype 'b phase = Closed | Acquiring "'b acquire" | Holding | ReleaseReading | ReleaseDeleting

record 'b session =
  phase :: "'b phase"
  evidence_of :: evidence
  beat :: "'b beat"

text \<open>\<open>Lease::new\<close> once acquire returns; a refusal ends the session.\<close>

definition settle :: "'b acquire \<Rightarrow> 'b session \<Rightarrow> 'b session" where
  "settle pc x =
     (case pc of
        Held now \<Rightarrow> \<lparr>phase = Holding, evidence_of = \<lparr>lost = False, last_ok_ms = now\<rparr>, beat = NoBeat\<rparr>
      | Refused _ \<Rightarrow> x\<lparr>phase := Closed\<rparr>
      | _ \<Rightarrow> x\<lparr>phase := Acquiring pc\<rparr>)"

definition release_start :: "'b session \<Rightarrow> 'b session" where
  "release_start x = x\<lparr>phase := (if lost (evidence_of x) then Closed else ReleaseReading), beat := NoBeat\<rparr>"

definition release_read ::
    "'b lease_wiring \<Rightarrow> (doc_error, ('b \<times> 'b doc_version) option) result \<Rightarrow> 'b session \<Rightarrow> 'b session" where
  "release_read w r x = x\<lparr>phase := (if still_ours w r then ReleaseDeleting else Closed)\<rparr>"

end
