(* ===== verification/File_Fleet.thy ===== *)
theory File_Fleet
  imports File_Lease
begin

text \<open>
  Any number of sessions over one lease document on the S3 arm: every interleaving of
  their storage calls, any delay, any lost request or reply. A session is named by its
  owner; its clock is the global time plus its own skew.
\<close>

section \<open>The fleet\<close>

record 'b fleet =
  wiring :: "nat \<Rightarrow> 'b lease_wiring"
  skew :: "nat \<Rightarrow> nat"

record 'b world =
  stored :: "'b docs"
  time :: nat
  sessions :: "nat \<Rightarrow> 'b session"

definition clock :: "'b fleet \<Rightarrow> 'b world \<Rightarrow> nat \<Rightarrow> nat" where
  "clock fl s i = time s + skew fl i"

definition put_session :: "nat \<Rightarrow> 'b session \<Rightarrow> 'b docs \<Rightarrow> 'b world \<Rightarrow> 'b world" where
  "put_session i x m s = s\<lparr>stored := m, sessions := (sessions s)(i := x)\<rparr>"

text \<open>
  \<open>prompt\<close>: whether a release's delete is known to land while the session could still
  write.
\<close>

inductive lease_step :: "bool \<Rightarrow> 'b fleet \<Rightarrow> 'b world \<Rightarrow> 'b world \<Rightarrow> bool" for prompt fl where
  tick: "lease_step prompt fl s (s\<lparr>time := time s + d\<rparr>)"
| start: "phase (sessions s i) = Closed \<Longrightarrow>
    lease_step prompt fl s (put_session i (settle (acquire_loop (wiring fl i) (clock fl s i)) (sessions s i)) (stored s) s)"
| acquire: "phase (sessions s i) = Acquiring pc \<Longrightarrow>
    acquire_step (wiring fl i) (clock fl s i) f pc (stored s) = (pc', m) \<Longrightarrow>
    lease_step prompt fl s (put_session i (settle pc' (sessions s i)) m s)"
| heartbeat: "phase (sessions s i) = Holding \<Longrightarrow> beat (sessions s i) = NoBeat \<Longrightarrow> \<not> lost (evidence_of (sessions s i)) \<Longrightarrow>
    lease_step prompt fl s (put_session i ((sessions s i)\<lparr>beat := BeatReading\<rparr>) (stored s) s)"
| renew: "phase (sessions s i) = Holding \<Longrightarrow>
    renew_step (wiring fl i) (clock fl s i) f (beat (sessions s i)) (evidence_of (sessions s i)) (stored s) = ((bt, ev), m) \<Longrightarrow>
    lease_step prompt fl s (put_session i ((sessions s i)\<lparr>beat := bt, evidence_of := ev\<rparr>) m s)"
| abandon: "lease_step prompt fl s (put_session i ((sessions s i)\<lparr>phase := Closed, beat := NoBeat\<rparr>) (stored s) s)"
| release: "phase (sessions s i) = Holding \<Longrightarrow>
    lease_step prompt fl s (put_session i (release_start (sessions s i)) (stored s) s)"
| release_reads: "phase (sessions s i) = ReleaseReading \<Longrightarrow>
    read_doc_versioned (lw_arm (wiring fl i)) f (lw_doc (wiring fl i)) (stored s) = (r, m) \<Longrightarrow>
    lease_step prompt fl s (put_session i (release_read (wiring fl i) r (sessions s i)) m s)"
| release_deletes: "phase (sessions s i) = ReleaseDeleting \<Longrightarrow>
    (prompt \<longrightarrow> check_still_held (wiring fl i) (clock fl s i) (evidence_of (sessions s i)) = Inr ()) \<Longrightarrow>
    delete_doc f (lw_doc (wiring fl i)) (stored s) = (r, m) \<Longrightarrow>
    lease_step prompt fl s (put_session i ((sessions s i)\<lparr>phase := Closed\<rparr>) m s)"

definition start_world :: "'b world \<Rightarrow> bool" where
  "start_world s \<longleftrightarrow> (\<forall>i. phase (sessions s i) = Closed)"

inductive lease_reach :: "bool \<Rightarrow> 'b fleet \<Rightarrow> 'b world \<Rightarrow> bool" for prompt fl where
  init: "start_world s \<Longrightarrow> lease_reach prompt fl s"
| step: "lease_reach prompt fl s \<Longrightarrow> lease_step prompt fl s s' \<Longrightarrow> lease_reach prompt fl s'"

definition may_write :: "'b fleet \<Rightarrow> 'b world \<Rightarrow> nat \<Rightarrow> bool" where
  "may_write fl s i \<longleftrightarrow> phase (sessions s i) = Holding \<and>
     check_still_held (wiring fl i) (clock fl s i) (evidence_of (sessions s i)) = Inr ()"

text \<open>
  One scope on S3: the sessions share the document and the format, their owner tokens
  differ, and no two clocks are more than thirty seconds apart.
\<close>

definition fleet_ok :: "string \<Rightarrow> 'b lease_json \<Rightarrow> 'b fleet \<Rightarrow> bool" where
  "fleet_ok D js fl \<longleftrightarrow> json_ok js \<and>
     (\<forall>i. lw_arm (wiring fl i) = S3Arm \<and> lw_doc (wiring fl i) = D \<and> lw_json (wiring fl i) = js) \<and>
     (\<forall>i j. lw_owner (wiring fl i) = lw_owner (wiring fl j) \<longrightarrow> i = j) \<and>
     (\<forall>i j. skew fl i \<le> skew fl j + 30000)"

section \<open>What a session may do to the document\<close>

abbreviation owner_of :: "'b fleet \<Rightarrow> nat \<Rightarrow> string" where
  "owner_of fl i \<equiv> lw_owner (wiring fl i)"

text \<open>The document is session \<open>i\<close>'s, renewed at \<open>r\<close> or later.\<close>

definition owned :: "'b lease_json \<Rightarrow> string \<Rightarrow> nat \<Rightarrow> 'b option \<Rightarrow> bool" where
  "owned js o' r x \<longleftrightarrow> (\<exists>b d. x = Some b \<and> decode js b = Inr d \<and> doc_owner d = o' \<and> r \<le> renewed_at_ms d)"

text \<open>
  Contents a session with owner \<open>o'\<close> and clock \<open>clk\<close> may overwrite: its own, debris, and
  a lease that is stale by a stamp it took.
\<close>

definition replaceable :: "'b lease_json \<Rightarrow> string \<Rightarrow> nat \<Rightarrow> 'b \<Rightarrow> bool" where
  "replaceable js o' clk b \<longleftrightarrow>
     (case decode js b of
        Inl (Unparseable _) \<Rightarrow> True
      | Inl (NewerVersion _) \<Rightarrow> False
      | Inr d \<Rightarrow> doc_owner d = o' \<or> (\<exists>now \<le> clk. age_secs now d > TTL_SECS))"

lemma replaceable_mono: "replaceable js o' clk b \<Longrightarrow> clk \<le> clk' \<Longrightarrow> replaceable js o' clk' b"
  by (auto simp: replaceable_def split: sum.splits decode_failure.splits)

definition expired :: "nat \<Rightarrow> evidence \<Rightarrow> bool" where
  "expired clk ev \<longleftrightarrow> clk - last_ok_ms ev > SELF_EXPIRY_SECS * 1000"

lemma check_iff: "check_still_held w clk ev = Inr () \<longleftrightarrow> \<not> lost ev \<and> \<not> expired clk ev"
  by (simp add: check_still_held_def expired_def)

text \<open>
  The heart of the protocol: whoever may overwrite a document another session owns finds
  that session past its own expiry, up to thirty seconds of skew.
\<close>

lemma overwritten_is_expired:
  assumes "replaceable js o' clk b" and "owned js o2 (last_ok_ms ev) (Some b)" and "o2 \<noteq> o'"
    and "clk \<le> clk2 + 30000"
  shows "expired clk2 ev"
proof -
  obtain d where d: "decode js b = Inr d" "doc_owner d = o2" "last_ok_ms ev \<le> renewed_at_ms d"
    using assms(2) by (auto simp: owned_def)
  with assms(1,3) obtain now where "now \<le> clk" "age_secs now d > TTL_SECS"
    by (auto simp: replaceable_def)
  then have "now - renewed_at_ms d \<ge> 301000"
    by (simp add: age_secs_def TTL_SECS_def)
  with d(3) \<open>now \<le> clk\<close> assms(4) show ?thesis
    by (simp add: expired_def SELF_EXPIRY_SECS_def TTL_SECS_def HEARTBEAT_SECS_def)
qed

text \<open>A session's own view of its stamps, versions and bytes while it acquires or renews.\<close>

definition claims :: "'b lease_json \<Rightarrow> string \<Rightarrow> nat \<Rightarrow> 'b \<Rightarrow> bool" where
  "claims js o' now b \<longleftrightarrow> owned js o' now (Some b)"

definition acquire_inv :: "'b lease_json \<Rightarrow> string \<Rightarrow> nat \<Rightarrow> 'b acquire \<Rightarrow> bool" where
  "acquire_inv js o' clk pc \<longleftrightarrow>
     (case pc of
        Creating now b \<Rightarrow> now \<le> clk \<and> claims js o' now b
      | Reading now b \<Rightarrow> now \<le> clk \<and> claims js o' now b
      | Waiting now b \<Rightarrow> now \<le> clk \<and> claims js o' now b
      | Rereading now b \<Rightarrow> now \<le> clk \<and> claims js o' now b
      | Rechecking _ _ _ \<Rightarrow> False
      | Unlinking _ _ \<Rightarrow> False
      | Replacing now b v \<Rightarrow> now \<le> clk \<and> claims js o' now b \<and> (\<forall>old. v = S3Version old \<longrightarrow> replaceable js o' clk old)
      | Reacquiring now b v \<Rightarrow> now \<le> clk \<and> claims js o' now b \<and> (\<forall>old. v = S3Version old \<longrightarrow> replaceable js o' clk old)
      | Held now \<Rightarrow> now \<le> clk
      | Refused _ \<Rightarrow> True)"

lemma acquire_inv_mono: "acquire_inv js o' clk pc \<Longrightarrow> clk \<le> clk' \<Longrightarrow> acquire_inv js o' clk' pc"
  by (cases pc) (auto simp: acquire_inv_def intro: replaceable_mono)

definition beat_inv :: "'b lease_json \<Rightarrow> string \<Rightarrow> nat \<Rightarrow> evidence \<Rightarrow> 'b beat \<Rightarrow> bool" where
  "beat_inv js o' clk ev bt \<longleftrightarrow>
     (case bt of
        BeatReplacing stamp b v \<Rightarrow> last_ok_ms ev \<le> stamp \<and> stamp \<le> clk \<and> claims js o' stamp b \<and>
          (\<forall>old. v = S3Version old \<longrightarrow> replaceable js o' clk old)
      | _ \<Rightarrow> True)"

text \<open>A step's guarantee on the document: unchanged, or lawfully overwritten by a claim.\<close>

definition lawful :: "'b lease_json \<Rightarrow> string \<Rightarrow> nat \<Rightarrow> string \<Rightarrow> 'b docs \<Rightarrow> 'b docs \<Rightarrow> bool" where
  "lawful js o' clk D m m' \<longleftrightarrow> m' = m \<or>
     (\<exists>b now. claims js o' now b \<and> m' = m(D \<mapsto> b) \<and> (\<forall>old. m D = Some old \<longrightarrow> replaceable js o' clk old))"

definition s3_wiring :: "'b lease_json \<Rightarrow> string \<Rightarrow> 'b lease_wiring \<Rightarrow> bool" where
  "s3_wiring js D w \<longleftrightarrow> lw_arm w = S3Arm \<and> lw_doc w = D \<and> lw_json w = js \<and> json_ok js"

lemma encode_decodes:
  assumes "json_ok js" and "encode js d = Inr b" and "format_version d \<le> LEASE_FORMAT_VERSION"
  shows "decode js b = Inr d"
proof -
  obtain b' where "to_json js d = Inr b'" "parse_json js b' = Inr d" using assms(1) by (auto simp: json_ok_def)
  with assms(2,3) show ?thesis by (simp add: encode_def decode_def)
qed

lemma fresh_claims: "json_ok js \<Longrightarrow> encode js (fresh_doc p o' now) = Inr b \<Longrightarrow> claims js o' now b"
  using encode_decodes [of js "fresh_doc p o' now" b] by (simp add: claims_def owned_def fresh_doc_def)

lemma acquire_loop_inv: "s3_wiring js D w \<Longrightarrow> acquire_inv js (lw_owner w) clk (acquire_loop w clk)"
  using fresh_claims by (auto simp: acquire_loop_def acquire_inv_def s3_wiring_def split: sum.splits)

lemma judge_inv:
  assumes "s3_wiring js D w" and "now \<le> clk" and "claims js (lw_owner w) now b" and "decode js bytes = Inr holder"
  shows "acquire_inv js (lw_owner w) clk (judge_holder w now b holder (version_of S3Arm bytes))"
  using assms by (auto simp: judge_holder_def begin_takeover_def acquire_inv_def s3_wiring_def replaceable_def version_of_def)

lemma reclaim_inv:
  assumes "s3_wiring js D w" and "decode js bytes = Inl (Unparseable e)"
  shows "acquire_inv js (lw_owner w) clk (begin_reclaim w clk (version_of S3Arm bytes))"
  using assms fresh_claims
  by (auto simp: begin_reclaim_def begin_takeover_def acquire_inv_def s3_wiring_def replaceable_def version_of_def
      split: sum.splits)

section \<open>Each step keeps its side\<close>

lemma create_ok:
  assumes "s3_wiring js D w" and "now \<le> clk" and "claims js (lw_owner w) now b"
    and "acquire_step w clk f (Creating now b) m = (pc', m')"
  shows "lawful js (lw_owner w) clk D m m' \<and> acquire_inv js (lw_owner w) clk pc' \<and>
    (\<forall>n. pc' = Held n \<longrightarrow> owned js (lw_owner w) n (m' D))"
proof -
  obtain r where r: "create_doc_exclusive S3Arm f D b m = (r, m')" and pc': "pc' = after_create w now b r"
    using assms(1,4) by (auto simp: s3_wiring_def split: prod.splits)
  have "lawful js (lw_owner w) clk D m m'"
    using create_doc_effect [of S3Arm f D b m] assms(3) r by (auto simp: lawful_def)
  moreover have "acquire_inv js (lw_owner w) clk pc'"
    using assms(2,3) pc' by (auto simp: after_create_def acquire_inv_def split: sum.splits create_doc.splits)
  moreover have "owned js (lw_owner w) n (m' D)" if "pc' = Held n" for n
    using that pc' assms(3) r create_doc_Created [of S3Arm f D b m]
    by (auto simp: after_create_def claims_def split: sum.splits create_doc.splits)
  ultimately show ?thesis by blast
qed

lemma read_ok:
  assumes "s3_wiring js D w" and "now \<le> clk" and "claims js (lw_owner w) now b"
    and "read_doc_versioned S3Arm f D m = (r, m')"
  shows "m' = m \<and> acquire_inv js (lw_owner w) clk (after_read w clk now b r) \<and>
    acquire_inv js (lw_owner w) clk (after_reread w clk now b r) \<and>
    (\<forall>n. after_read w clk now b r \<noteq> Held n \<and> after_reread w clk now b r \<noteq> Held n)"
proof -
  have "m' = m" using read_doc_same [of S3Arm f D m] assms(4) by simp
  have loop: "acquire_loop w clk \<noteq> Held n" for n by (simp add: acquire_loop_def split: sum.splits)
  show ?thesis
  proof (cases r)
    case (Inl e)
    with \<open>m' = m\<close> show ?thesis by (simp add: after_read_def after_reread_def acquire_inv_def)
  next
    case (Inr x)
    show ?thesis
    proof (cases x)
      case None
      with Inr \<open>m' = m\<close> loop acquire_loop_inv [OF assms(1)] show ?thesis by (simp add: after_read_def after_reread_def)
    next
      case (Some p)
      then obtain bytes where p: "p = (bytes, version_of S3Arm bytes)"
        using Inr assms(4) by (cases "m D") (auto simp: read_doc_Inr)
      have js: "lw_json w = js" using assms(1) by (simp add: s3_wiring_def)
      show ?thesis
        using Inr Some p \<open>m' = m\<close> js judge_inv [OF assms(1-3)] reclaim_inv [OF assms(1)] assms(2,3)
        by (auto simp: after_read_def after_reread_def acquire_inv_def judge_holder_def begin_reclaim_def begin_takeover_def
            split: sum.splits decode_failure.splits location_arm.splits)
    qed
  qed
qed

lemma replace_ok:
  assumes "s3_wiring js D w" and "now \<le> clk" and "claims js (lw_owner w) now b"
    and "\<forall>old. v = S3Version old \<longrightarrow> replaceable js (lw_owner w) clk old"
    and "replace_doc_if S3Arm f D b v m = (r, m')"
  shows "lawful js (lw_owner w) clk D m m' \<and> acquire_inv js (lw_owner w) clk (after_replace w clk now r) \<and>
    (\<forall>n. after_replace w clk now r = Held n \<longrightarrow> owned js (lw_owner w) n (m' D))"
proof -
  have loop: "acquire_loop w clk \<noteq> Held n" for n by (simp add: acquire_loop_def split: sum.splits)
  have "lawful js (lw_owner w) clk D m m'"
    using replace_s3_effect [of f D b v m] assms(3-5) by (auto simp: lawful_def)
  moreover have "acquire_inv js (lw_owner w) clk (after_replace w clk now r)"
    using acquire_loop_inv [OF assms(1)] assms(2) by (auto simp: after_replace_def acquire_inv_def split: sum.splits)
  moreover have "owned js (lw_owner w) n (m' D)" if "after_replace w clk now r = Held n" for n
    using that loop assms(3,5) replace_s3_Inr [of f D b v m]
    by (fastforce simp: after_replace_def claims_def split: sum.splits if_splits)
  ultimately show ?thesis by blast
qed

lemma acquire_step_ok:
  assumes "s3_wiring js D w" and "acquire_inv js (lw_owner w) clk pc"
    and step: "acquire_step w clk f pc m = (pc', m')"
  shows "lawful js (lw_owner w) clk D m m' \<and> acquire_inv js (lw_owner w) clk pc' \<and>
    (\<forall>n. pc' = Held n \<longrightarrow> pc = Held n \<or> owned js (lw_owner w) n (m' D))"
proof (cases pc)
  case (Creating now b)
  with assms(2) have "now \<le> clk" "claims js (lw_owner w) now b" by (simp_all add: acquire_inv_def)
  from create_ok [OF assms(1) this step [unfolded Creating]] show ?thesis by blast
next
  case (Reading now b)
  with assms(2) have inv: "now \<le> clk" "claims js (lw_owner w) now b" by (simp_all add: acquire_inv_def)
  obtain r where "read_doc_versioned S3Arm f D m = (r, m')" "pc' = after_read w clk now b r"
    using Reading step assms(1) by (auto simp: s3_wiring_def split: prod.splits)
  with read_ok [OF assms(1) inv] show ?thesis by (auto simp: lawful_def)
next
  case (Rereading now b)
  with assms(2) have inv: "now \<le> clk" "claims js (lw_owner w) now b" by (simp_all add: acquire_inv_def)
  obtain r where "read_doc_versioned S3Arm f D m = (r, m')" "pc' = after_reread w clk now b r"
    using Rereading step assms(1) by (auto simp: s3_wiring_def split: prod.splits)
  with read_ok [OF assms(1) inv] show ?thesis by (auto simp: lawful_def)
next
  case (Replacing now b v)
  with assms(2) have inv: "now \<le> clk" "claims js (lw_owner w) now b"
    "\<forall>old. v = S3Version old \<longrightarrow> replaceable js (lw_owner w) clk old" by (simp_all add: acquire_inv_def)
  obtain r where "replace_doc_if S3Arm f D b v m = (r, m')" "pc' = after_replace w clk now r"
    using Replacing step assms(1) by (auto simp: s3_wiring_def split: prod.splits)
  with replace_ok [OF assms(1) inv] show ?thesis by auto
next
  case (Reacquiring now b v)
  with assms(2) have inv: "now \<le> clk" "claims js (lw_owner w) now b"
    "\<forall>old. v = S3Version old \<longrightarrow> replaceable js (lw_owner w) clk old" by (simp_all add: acquire_inv_def)
  obtain r where "replace_doc_if S3Arm f D b v m = (r, m')" "pc' = after_replace w clk now r"
    using Reacquiring step assms(1) by (auto simp: s3_wiring_def split: prod.splits)
  with replace_ok [OF assms(1) inv] show ?thesis by auto
qed (use assms in \<open>auto simp: acquire_inv_def lawful_def\<close>)

text \<open>What a holder can rely on: lost, past its own expiry, or the document is its own.\<close>

definition evident :: "'b lease_json \<Rightarrow> string \<Rightarrow> nat \<Rightarrow> evidence \<Rightarrow> 'b option \<Rightarrow> bool" where
  "evident js o' clk ev x \<longleftrightarrow> last_ok_ms ev \<le> clk \<and> (lost ev \<or> expired clk ev \<or> owned js o' (last_ok_ms ev) x)"

lemma evident_mono: "evident js o' clk ev x \<Longrightarrow> clk \<le> clk' \<Longrightarrow> evident js o' clk' ev x"
  by (auto simp: evident_def expired_def)

lemma evident_rely:
  assumes "evident js o2 clk2 ev (m D)" and "lawful js o' clk D m m'" and "o2 \<noteq> o'" and "clk \<le> clk2 + 30000"
  shows "evident js o2 clk2 ev (m' D)"
proof (cases "m' = m \<or> lost ev \<or> expired clk2 ev")
  case False
  with assms(1) have "owned js o2 (last_ok_ms ev) (m D)" by (simp add: evident_def)
  moreover then obtain b where "m D = Some b" by (auto simp: owned_def)
  moreover have "replaceable js o' clk b"
    using False assms(2) \<open>m D = Some b\<close> by (auto simp: lawful_def)
  ultimately have "expired clk2 ev"
    using overwritten_is_expired [of js o' clk b o2 ev clk2] assms(3,4) by simp
  with False show ?thesis by simp
qed (use assms in \<open>auto simp: evident_def\<close>)

lemma renew_read_evidence: "renew_read w clk r ev = (bt', ev') \<Longrightarrow> ev' = ev \<or> ev' = ev\<lparr>lost := True\<rparr>"
  by (auto simp: renew_read_def split: sum.splits option.splits decode_failure.splits if_splits)

lemma renew_read_replacing: "renew_read w clk r ev = (BeatReplacing stamp b v, ev') \<Longrightarrow>
    \<exists>bytes d. r = Inr (Some (bytes, v)) \<and> decode (lw_json w) bytes = Inr d \<and> doc_owner d = lw_owner w \<and>
      encode (lw_json w) (d\<lparr>renewed_at_ms := clk\<rparr>) = Inr b \<and> stamp = clk \<and> ev' = ev"
  by (auto simp: renew_read_def split: sum.splits option.splits decode_failure.splits if_splits)

lemma renew_step_ok:
  assumes "s3_wiring js D w" and "beat_inv js (lw_owner w) clk ev bt" and "evident js (lw_owner w) clk ev (m D)"
    and "renew_step w clk f bt ev m = ((bt', ev'), m')"
  shows "lawful js (lw_owner w) clk D m m' \<and> beat_inv js (lw_owner w) clk ev' bt' \<and> evident js (lw_owner w) clk ev' (m' D)"
proof (cases bt)
  case NoBeat
  with assms show ?thesis by (auto simp: lawful_def)
next
  case BeatReading
  then obtain r where r: "read_doc_versioned S3Arm f D m = (r, m')" and n: "renew_read w clk r ev = (bt', ev')"
    using assms(1,4) by (auto simp: s3_wiring_def split: prod.splits)
  have m': "m' = m" using read_doc_same [of S3Arm f D m] r by simp
  have js: "lw_json w = js" "json_ok js" using assms(1) by (auto simp: s3_wiring_def)
  have ev': "evident js (lw_owner w) clk ev' (m D)"
    using renew_read_evidence [OF n] assms(3) by (auto simp: evident_def)
  have "beat_inv js (lw_owner w) clk ev' bt'"
  proof (cases bt')
    case (BeatReplacing stamp b v)
    with renew_read_replacing [of w clk r ev stamp b v ev'] n js(1)
    obtain bytes d where b: "r = Inr (Some (bytes, v))" "decode js bytes = Inr d" "doc_owner d = lw_owner w"
      "encode js (d\<lparr>renewed_at_ms := clk\<rparr>) = Inr b" "stamp = clk" "ev' = ev"
      by auto
    have v: "v = version_of S3Arm bytes" using r b(1) by (cases "m D") (auto simp: read_doc_Inr)
    have "format_version d \<le> LEASE_FORMAT_VERSION"
      using b(2) by (auto simp: decode_def split: sum.splits if_splits)
    then have "decode js b = Inr (d\<lparr>renewed_at_ms := clk\<rparr>)" using encode_decodes [OF js(2) b(4)] by simp
    with BeatReplacing b v assms(3) show ?thesis
      by (auto simp: beat_inv_def claims_def owned_def replaceable_def version_of_def evident_def)
  qed (simp_all add: beat_inv_def)
  with ev' m' show ?thesis by (simp add: lawful_def)
next
  case (BeatReplacing stamp b v)
  then have inv: "last_ok_ms ev \<le> stamp" "stamp \<le> clk" "claims js (lw_owner w) stamp b"
    "\<forall>old. v = S3Version old \<longrightarrow> replaceable js (lw_owner w) clk old"
    using assms(2) by (auto simp: beat_inv_def)
  obtain r where r: "replace_doc_if S3Arm f D b v m = (r, m')" and n: "bt' = NoBeat" "ev' = renew_replace stamp r ev"
    using BeatReplacing assms(1,4) by (auto simp: s3_wiring_def split: prod.splits)
  have law: "lawful js (lw_owner w) clk D m m'" and m': "m' = m \<or> m' D = Some b"
    using replace_s3_effect [of f D b v m] inv r by (auto simp: lawful_def)
  have "evident js (lw_owner w) clk ev (m' D)"
    using m' inv assms(3) by (auto simp: evident_def claims_def owned_def)
  moreover have "owned js (lw_owner w) stamp (m' D)" if "r = Inr q" for q
    using that r replace_s3_Inr [of f D b v m] inv(3) by (auto simp: claims_def)
  ultimately have "evident js (lw_owner w) clk ev' (m' D)"
    using n inv(2) by (auto simp: renew_replace_def evident_def split: sum.splits if_splits)
  with law n show ?thesis by (simp add: beat_inv_def)
qed

section \<open>The fleet's invariant\<close>

definition session_inv :: "'b lease_json \<Rightarrow> string \<Rightarrow> nat \<Rightarrow> 'b session \<Rightarrow> 'b option \<Rightarrow> bool" where
  "session_inv js o' clk x doc \<longleftrightarrow>
     (case phase x of
        Closed \<Rightarrow> True
      | Acquiring pc \<Rightarrow> acquire_inv js o' clk pc \<and> (\<forall>n. pc \<noteq> Held n)
      | Holding \<Rightarrow> evident js o' clk (evidence_of x) doc \<and> beat_inv js o' clk (evidence_of x) (beat x)
      | ReleaseReading \<Rightarrow> evident js o' clk (evidence_of x) doc
      | ReleaseDeleting \<Rightarrow> evident js o' clk (evidence_of x) doc)"

definition world_inv :: "string \<Rightarrow> 'b lease_json \<Rightarrow> 'b fleet \<Rightarrow> 'b world \<Rightarrow> bool" where
  "world_inv D js fl s \<longleftrightarrow> (\<forall>i. session_inv js (owner_of fl i) (clock fl s i) (sessions s i) (stored s D))"

lemma beat_inv_mono: "beat_inv js o' clk ev bt \<Longrightarrow> clk \<le> clk' \<Longrightarrow> beat_inv js o' clk' ev bt"
  by (cases bt) (auto simp: beat_inv_def intro: replaceable_mono)

lemma session_inv_mono: "session_inv js o' clk x doc \<Longrightarrow> clk \<le> clk' \<Longrightarrow> session_inv js o' clk' x doc"
  by (auto simp: session_inv_def split: phase.splits intro: acquire_inv_mono evident_mono beat_inv_mono)

lemma session_inv_rely:
  "session_inv js o2 clk2 x (m D) \<Longrightarrow> lawful js o' clk D m m' \<Longrightarrow> o2 \<noteq> o' \<Longrightarrow> clk \<le> clk2 + 30000 \<Longrightarrow>
   session_inv js o2 clk2 x (m' D)"
  using evident_rely by (fastforce simp: session_inv_def split: phase.splits)

lemma session_inv_deleted:
  assumes "session_inv js o2 clk2 x doc" and "owned js o' r doc" and "o2 \<noteq> o'"
  shows "session_inv js o2 clk2 x doc'"
proof -
  have "\<not> owned js o2 r' doc" for r' using assms(2,3) by (auto simp: owned_def)
  with assms(1) show ?thesis by (auto simp: session_inv_def evident_def split: phase.splits)
qed

lemma clock_put [simp]: "clock fl (put_session i x m s) j = clock fl s j"
  by (simp add: clock_def put_session_def)

lemma fleet_facts:
  assumes "fleet_ok D js fl"
  shows "s3_wiring js D (wiring fl i)" and "owner_of fl i = owner_of fl j \<longleftrightarrow> i = j"
    and "clock fl s i \<le> clock fl s j + 30000"
  using assms by (auto simp: fleet_ok_def s3_wiring_def clock_def)

lemma put_lawful:
  assumes "fleet_ok D js fl" and "world_inv D js fl s"
    and "lawful js (owner_of fl i) (clock fl s i) D (stored s) m"
    and "session_inv js (owner_of fl i) (clock fl s i) x (m D)"
  shows "world_inv D js fl (put_session i x m s)"
  unfolding world_inv_def
proof
  fix j
  show "session_inv js (owner_of fl j) (clock fl (put_session i x m s) j)
      (sessions (put_session i x m s) j) (stored (put_session i x m s) D)"
  proof (cases "j = i")
    case True
    with assms(4) show ?thesis unfolding clock_put by (simp add: put_session_def)
  next
    case False
    then have "owner_of fl j \<noteq> owner_of fl i" using fleet_facts(2) [OF assms(1)] by metis
    then have "session_inv js (owner_of fl j) (clock fl s j) (sessions s j) (m D)"
      using session_inv_rely [of js "owner_of fl j" "clock fl s j" "sessions s j" "stored s" D] assms(2,3)
        fleet_facts(3) [OF assms(1)] unfolding world_inv_def by blast
    with False show ?thesis unfolding clock_put by (simp add: put_session_def)
  qed
qed

lemma lawful_same [simp]: "lawful js o' clk D m m"
  by (simp add: lawful_def)

lemma settle_inv:
  assumes "acquire_inv js o' clk pc" and "\<forall>n. pc = Held n \<longrightarrow> owned js o' n doc"
  shows "session_inv js o' clk (settle pc x) doc"
  using assms by (cases pc) (auto simp: settle_def session_inv_def acquire_inv_def evident_def beat_inv_def)

lemma lease_step_inv:
  assumes "fleet_ok D js fl" and "world_inv D js fl s" and "lease_step True fl s s'"
  shows "world_inv D js fl s'"
  using assms(3)
proof cases
  case (tick d)
  with assms(2) show ?thesis
    by (auto simp: world_inv_def clock_def intro: session_inv_mono)
next
  case (start i)
  have "acquire_inv js (owner_of fl i) (clock fl s i) (acquire_loop (wiring fl i) (clock fl s i))"
    by (rule acquire_loop_inv [OF fleet_facts(1) [OF assms(1)]])
  moreover have "acquire_loop (wiring fl i) (clock fl s i) \<noteq> Held n" for n
    by (simp add: acquire_loop_def split: sum.splits)
  ultimately show ?thesis
    unfolding start(1) by (intro put_lawful [OF assms(1,2)] settle_inv) auto
next
  case (acquire i pc f pc' m)
  have "session_inv js (owner_of fl i) (clock fl s i) (sessions s i) (stored s D)"
    using assms(2) by (simp add: world_inv_def)
  with acquire(2) have inv: "acquire_inv js (owner_of fl i) (clock fl s i) pc" "\<forall>n. pc \<noteq> Held n"
    by (simp_all add: session_inv_def)
  from acquire_step_ok [OF fleet_facts(1) [OF assms(1)] inv(1) acquire(3)] inv(2)
  show ?thesis unfolding acquire(1) by (intro put_lawful [OF assms(1,2)] settle_inv) auto
next
  case (heartbeat i)
  have "session_inv js (owner_of fl i) (clock fl s i) (sessions s i) (stored s D)"
    using assms(2) by (simp add: world_inv_def)
  with heartbeat(2) have "session_inv js (owner_of fl i) (clock fl s i) ((sessions s i)\<lparr>beat := BeatReading\<rparr>) (stored s D)"
    by (simp add: session_inv_def beat_inv_def)
  then show ?thesis unfolding heartbeat(1) by (intro put_lawful [OF assms(1,2)]) auto
next
  case (renew i f bt ev m)
  have "session_inv js (owner_of fl i) (clock fl s i) (sessions s i) (stored s D)"
    using assms(2) by (simp add: world_inv_def)
  with renew(2) have inv: "evident js (owner_of fl i) (clock fl s i) (evidence_of (sessions s i)) (stored s D)"
    "beat_inv js (owner_of fl i) (clock fl s i) (evidence_of (sessions s i)) (beat (sessions s i))"
    by (simp_all add: session_inv_def)
  from renew_step_ok [OF fleet_facts(1) [OF assms(1)] inv(2,1) renew(3)] renew(2)
  show ?thesis unfolding renew(1) by (intro put_lawful [OF assms(1,2)]) (auto simp: session_inv_def)
next
  case (abandon i)
  show ?thesis unfolding abandon by (intro put_lawful [OF assms(1,2)]) (simp_all add: session_inv_def)
next
  case (release i)
  have "session_inv js (owner_of fl i) (clock fl s i) (sessions s i) (stored s D)"
    using assms(2) by (simp add: world_inv_def)
  with release(2) have "session_inv js (owner_of fl i) (clock fl s i) (release_start (sessions s i)) (stored s D)"
    by (simp add: session_inv_def release_start_def)
  then show ?thesis unfolding release(1) by (intro put_lawful [OF assms(1,2)]) auto
next
  case (release_reads i f r m)
  have "session_inv js (owner_of fl i) (clock fl s i) (sessions s i) (stored s D)"
    using assms(2) by (simp add: world_inv_def)
  moreover have "m = stored s" using read_doc_same release_reads(3) by (metis snd_conv)
  ultimately show ?thesis
    using release_reads(2) unfolding release_reads(1)
    by (intro put_lawful [OF assms(1,2)]) (auto simp: session_inv_def release_read_def)
next
  case (release_deletes i f r m)
  have "session_inv js (owner_of fl i) (clock fl s i) (sessions s i) (stored s D)"
    using assms(2) by (simp add: world_inv_def)
  with release_deletes(2,3) have owned: "owned js (owner_of fl i) (last_ok_ms (evidence_of (sessions s i))) (stored s D)"
    by (auto simp: session_inv_def evident_def check_iff)
  have "session_inv js (owner_of fl j) (clock fl s j) (sessions (put_session i ((sessions s i)\<lparr>phase := Closed\<rparr>) m s) j) (m D)" for j
  proof (cases "j = i")
    case False
    then have "owner_of fl j \<noteq> owner_of fl i" using fleet_facts(2) [OF assms(1)] by metis
    with assms(2) False session_inv_deleted [OF _ owned] show ?thesis
      by (auto simp: world_inv_def put_session_def)
  qed (simp add: put_session_def session_inv_def)
  then show ?thesis unfolding release_deletes(1) world_inv_def clock_put by (simp add: put_session_def)
qed

lemma lease_reach_inv: "lease_reach True fl s \<Longrightarrow> fleet_ok D js fl \<Longrightarrow> world_inv D js fl s"
proof (induction rule: lease_reach.induct)
  case (init s)
  then show ?case by (simp add: world_inv_def start_world_def session_inv_def)
next
  case (step s s')
  show ?case by (rule lease_step_inv [OF step.prems step.IH [OF step.prems] step.hyps(2)])
qed

section \<open>Mutual exclusion\<close>

text \<open>
  C4. At most one session may write, at any moment of any run: however calls interleave,
  stall or get lost, if two sessions pass the write guard they are the same session. The
  self-expiry margin covers clocks up to thirty seconds apart. Releases are assumed to
  delete while the session could still write.
\<close>

theorem one_writer:
  assumes "fleet_ok D js fl" and "lease_reach True fl s" and "may_write fl s i" and "may_write fl s j"
  shows "i = j"
proof -
  have "owned js (owner_of fl k) (last_ok_ms (evidence_of (sessions s k))) (stored s D)" if "may_write fl s k" for k
    using lease_reach_inv [OF assms(2,1)] that
    by (auto simp: world_inv_def may_write_def session_inv_def evident_def check_iff dest!: spec [of _ k])
  from this [OF assms(3)] this [OF assms(4)] have "owner_of fl i = owner_of fl j" by (auto simp: owned_def)
  with fleet_facts(2) [OF assms(1)] show ?thesis by simp
qed

lemma newer_not_replaceable: "decode js b = Inl (NewerVersion v) \<Longrightarrow> \<not> replaceable js o' clk b"
  by (simp add: replaceable_def)

lemma lawful_newer: "lawful js o' clk D m m' \<Longrightarrow> m D = Some b \<Longrightarrow> decode js b = Inl (NewerVersion v) \<Longrightarrow> m' = m"
  using newer_not_replaceable by (fastforce simp: lawful_def)

lemma newer_format_step:
  assumes "fleet_ok D js fl" and "lease_reach True fl s" and "lease_step True fl s s'"
    and "stored s D = Some b" and "decode js b = Inl (NewerVersion v)"
  shows "stored s' D = Some b"
proof -
  have inv: "session_inv js (owner_of fl i) (clock fl s i) (sessions s i) (stored s D)" for i
    using lease_reach_inv [OF assms(2,1)] by (simp add: world_inv_def)
  note wire = fleet_facts(1) [OF assms(1)]
  note keep = lawful_newer [of js _ _ D "stored s", OF _ assms(4,5)]
  from assms(3) show ?thesis
  proof cases
    case (acquire i pc f pc' m)
    from inv [of i] acquire(2) have "acquire_inv js (owner_of fl i) (clock fl s i) pc" by (simp add: session_inv_def)
    from acquire_step_ok [OF wire this acquire(3)] have "m = stored s" using keep by blast
    with acquire(1) assms(4) show ?thesis by (simp add: put_session_def)
  next
    case (renew i f bt ev m)
    from inv [of i] renew(2) have "evident js (owner_of fl i) (clock fl s i) (evidence_of (sessions s i)) (stored s D)"
      "beat_inv js (owner_of fl i) (clock fl s i) (evidence_of (sessions s i)) (beat (sessions s i))"
      by (simp_all add: session_inv_def)
    from renew_step_ok [OF wire this(2,1) renew(3)] have "m = stored s" using keep by blast
    with renew(1) assms(4) show ?thesis by (simp add: put_session_def)
  next
    case (release_reads i f r m)
    then have "m = stored s" using read_doc_same by (metis snd_conv)
    with release_reads(1) assms(4) show ?thesis by (simp add: put_session_def)
  next
    case (release_deletes i f r m)
    from inv [of i] release_deletes(2,3) have "owned js (owner_of fl i) (last_ok_ms (evidence_of (sessions s i))) (stored s D)"
      by (auto simp: session_inv_def evident_def check_iff)
    with assms(4,5) show ?thesis by (auto simp: owned_def)
  qed (use assms(4) in \<open>simp_all add: put_session_def\<close>)
qed

lemma reach_steps: "lease_reach p fl s \<Longrightarrow> (lease_step p fl)\<^sup>*\<^sup>* s s' \<Longrightarrow> lease_reach p fl s'"
  by (rotate_tac, induction rule: rtranclp_induct) (auto intro: lease_reach.step)

text \<open>
  C14. On S3 a document of a newer format is never touched. Let the releases of a run delete
  while their session could still write; once the lease object decodes as a newer format, every
  continuation of the run, whatever its calls do, leaves the object's bytes as they are and lets
  no session past the write guard.
\<close>

theorem newer_format_untouched:
  assumes "fleet_ok D js fl" and "lease_reach True fl s"
    and "stored s D = Some b" and "decode js b = Inl (NewerVersion v)"
    and "(lease_step True fl)\<^sup>*\<^sup>* s s'"
  shows "stored s' D = Some b \<and> (\<forall>i. \<not> may_write fl s' i)"
proof
  show stays: "stored s' D = Some b"
    using assms(5)
  proof (induction rule: rtranclp_induct)
    case (step u w)
    from reach_steps [OF assms(2) step.hyps(1)] show ?case
      using newer_format_step [OF assms(1) _ step.hyps(2) step.IH assms(4)] by blast
  qed (rule assms(3))
  show "\<forall>i. \<not> may_write fl s' i"
  proof (intro allI notI)
    fix i assume "may_write fl s' i"
    with lease_reach_inv [OF reach_steps [OF assms(2,5)] assms(1)]
    have "owned js (owner_of fl i) (last_ok_ms (evidence_of (sessions s' i))) (stored s' D)"
      by (auto simp: world_inv_def may_write_def session_inv_def evident_def check_iff dest!: spec [of _ i])
    with stays assms(4) show False by (auto simp: owned_def)
  qed
qed

section \<open>Runs\<close>

text \<open>Calls without a fault, as functions on worlds: each is a step of the fleet.\<close>

definition do_tick :: "nat \<Rightarrow> 'b world \<Rightarrow> 'b world" where
  "do_tick d s = s\<lparr>time := time s + d\<rparr>"

definition do_start :: "'b fleet \<Rightarrow> nat \<Rightarrow> 'b world \<Rightarrow> 'b world" where
  "do_start fl i s =
     (case phase (sessions s i) of
        Closed \<Rightarrow> put_session i (settle (acquire_loop (wiring fl i) (clock fl s i)) (sessions s i)) (stored s) s
      | _ \<Rightarrow> s)"

definition do_acquire :: "'b fleet \<Rightarrow> nat \<Rightarrow> 'b world \<Rightarrow> 'b world" where
  "do_acquire fl i s =
     (case phase (sessions s i) of
        Acquiring pc \<Rightarrow>
          (case acquire_step (wiring fl i) (clock fl s i) NoFault pc (stored s) of
             (pc', m) \<Rightarrow> put_session i (settle pc' (sessions s i)) m s)
      | _ \<Rightarrow> s)"

definition do_release :: "'b fleet \<Rightarrow> nat \<Rightarrow> 'b world \<Rightarrow> 'b world" where
  "do_release fl i s =
     (case phase (sessions s i) of
        Holding \<Rightarrow> put_session i (release_start (sessions s i)) (stored s) s
      | ReleaseReading \<Rightarrow>
          (case read_doc_versioned (lw_arm (wiring fl i)) NoFault (lw_doc (wiring fl i)) (stored s) of
             (r, m) \<Rightarrow> put_session i (release_read (wiring fl i) r (sessions s i)) m s)
      | ReleaseDeleting \<Rightarrow>
          (case delete_doc NoFault (lw_doc (wiring fl i)) (stored s) of
             (_, m) \<Rightarrow> put_session i ((sessions s i)\<lparr>phase := Closed\<rparr>) m s)
      | _ \<Rightarrow> s)"

lemma reach_tick: "lease_reach p fl s \<Longrightarrow> lease_reach p fl (do_tick d s)"
  unfolding do_tick_def by (rule lease_reach.step) (auto intro: lease_step.tick)

lemma reach_start: "lease_reach p fl s \<Longrightarrow> lease_reach p fl (do_start fl i s)"
  using lease_reach.step [OF _ lease_step.start]
  by (cases "phase (sessions s i)") (auto simp: do_start_def)

lemma reach_acquire: "lease_reach p fl s \<Longrightarrow> lease_reach p fl (do_acquire fl i s)"
  using lease_reach.step [OF _ lease_step.acquire]
  by (cases "phase (sessions s i)") (auto simp: do_acquire_def split: prod.splits)

lemma reach_release: "lease_reach False fl s \<Longrightarrow> lease_reach False fl (do_release fl i s)"
  using lease_reach.step [OF _ lease_step.release [of s i False fl]]
    lease_reach.step [OF _ lease_step.release_reads [of s i fl _ _ _ False]]
    lease_reach.step [OF _ lease_step.release_deletes [of s i False fl]]
  by (cases "phase (sessions s i)") (auto simp: do_release_def split: prod.splits)

section \<open>A concrete fleet\<close>

definition demo_json :: "(lease_doc + string) lease_json" where
  "demo_json = \<lparr>parse_json = (\<lambda>b. case b of Inl d \<Rightarrow> Inr d | Inr s \<Rightarrow> Inl s), to_json = (\<lambda>d. Inr (Inl d))\<rparr>"

definition demo_fleet :: "(lease_doc + string) fleet" where
  "demo_fleet = \<lparr>wiring = (\<lambda>i. \<lparr>lw_arm = S3Arm, lw_doc = ''lease'', lw_pipeline = ''p'',
     lw_owner = replicate i CHR ''a'', lw_json = demo_json\<rparr>), skew = (\<lambda>_. 0)\<rparr>"

lemma demo_fleet_ok: "fleet_ok ''lease'' demo_json demo_fleet"
proof -
  have "json_ok demo_json" by (simp add: json_ok_def demo_json_def)
  moreover have "replicate i CHR ''a'' = replicate j CHR ''a'' \<Longrightarrow> i = j" for i j
    by (metis length_replicate)
  ultimately show ?thesis by (auto simp: fleet_ok_def demo_fleet_def)
qed

definition demo_start :: "(lease_doc + string) world" where
  "demo_start = \<lparr>stored = (\<lambda>_. None), time = 0,
     sessions = (\<lambda>_. \<lparr>phase = Closed, evidence_of = \<lparr>lost = False, last_ok_ms = 0\<rparr>, beat = NoBeat\<rparr>)\<rparr>"

lemma demo_reach: "lease_reach p demo_fleet demo_start"
  by (rule lease_reach.init) (simp add: start_world_def demo_start_def)

definition demo_held :: "(lease_doc + string) world" where
  "demo_held = do_acquire demo_fleet 0 (do_start demo_fleet 0 demo_start)"

lemmas run_simps = do_tick_def do_start_def do_acquire_def do_release_def put_session_def clock_def settle_def
  acquire_loop_def encode_def fresh_doc_def create_doc_exclusive_def read_doc_versioned_def replace_doc_if_def
  delete_doc_def faulty_def version_of_def after_create_def after_read_def judge_holder_def begin_takeover_def
  after_replace_def decode_def age_secs_def TTL_SECS_def HEARTBEAT_SECS_def SELF_EXPIRY_SECS_def LEASE_FORMAT_VERSION_def
  release_start_def release_read_def still_ours_def demo_fleet_def demo_json_def demo_start_def

lemma demo_held_writes: "may_write demo_fleet demo_held 0"
  by (simp add: may_write_def check_still_held_def demo_held_def run_simps)

theorem one_writer_witness: "may_write demo_fleet demo_held 0 \<and> \<not> may_write demo_fleet demo_held 1"
proof -
  have "lease_reach True demo_fleet demo_held"
    unfolding demo_held_def by (intro reach_acquire reach_start demo_reach)
  with one_writer [OF demo_fleet_ok _ demo_held_writes, of 1] demo_held_writes show ?thesis by auto
qed

definition newer_bytes :: "lease_doc + string" where
  "newer_bytes = Inl \<lparr>format_version = 2, doc_pipeline = ''p'', doc_owner = ''x'', acquired_at_ms = 0, renewed_at_ms = 0\<rparr>"

definition demo_newer :: "(lease_doc + string) world" where
  "demo_newer = demo_start\<lparr>stored := [''lease'' \<mapsto> newer_bytes]\<rparr>"

definition demo_refused :: "(lease_doc + string) world" where
  "demo_refused = do_acquire demo_fleet 0 (do_acquire demo_fleet 0 (do_start demo_fleet 0 demo_newer))"

lemma steps_start: "(lease_step p fl)\<^sup>*\<^sup>* s (do_start fl i s)"
  using r_into_rtranclp [of "lease_step p fl", OF lease_step.start]
  by (cases "phase (sessions s i)") (auto simp: do_start_def)

lemma steps_acquire: "(lease_step p fl)\<^sup>*\<^sup>* s (do_acquire fl i s)"
  using r_into_rtranclp [of "lease_step p fl", OF lease_step.acquire]
  by (cases "phase (sessions s i)") (auto simp: do_acquire_def split: prod.splits)

text \<open>A session tries to acquire: the exclusive create fails and the read finds the newer format.\<close>

theorem newer_format_untouched_witness:
  "stored demo_refused ''lease'' = Some newer_bytes \<and> (\<forall>i. \<not> may_write demo_fleet demo_refused i)"
proof (rule newer_format_untouched [OF demo_fleet_ok])
  show "lease_reach True demo_fleet demo_newer"
    by (rule lease_reach.init) (simp add: start_world_def demo_newer_def demo_start_def)
  show "stored demo_newer ''lease'' = Some newer_bytes" by (simp add: demo_newer_def)
  show "decode demo_json newer_bytes = Inl (NewerVersion 2)"
    by (simp add: decode_def demo_json_def newer_bytes_def LEASE_FORMAT_VERSION_def)
  show "(lease_step True demo_fleet)\<^sup>*\<^sup>* demo_newer demo_refused"
    unfolding demo_refused_def by (meson rtranclp_trans steps_start steps_acquire)
qed

definition late_release :: "(lease_doc + string) world" where
  "late_release =
     do_acquire demo_fleet 2 (do_start demo_fleet 2 (
     do_release demo_fleet 0 (
     do_acquire demo_fleet 1 (do_acquire demo_fleet 1 (do_acquire demo_fleet 1 (do_start demo_fleet 1 (
     do_tick 301000 (
     do_release demo_fleet 0 (do_release demo_fleet 0 demo_held)))))))))"

text \<open>
  Without the promptness assumption the exclusion fails: a release that stalls between
  its owner check and its delete for longer than the TTL removes the lease of the session
  that took over meanwhile, a third session then creates its own, and two sessions pass
  the write guard at once.
\<close>

lemma late_release_two_writers:
  "lease_reach False demo_fleet late_release \<and> may_write demo_fleet late_release 1 \<and> may_write demo_fleet late_release 2"
proof (intro conjI)
  show "lease_reach False demo_fleet late_release"
    unfolding late_release_def demo_held_def
    by (intro reach_acquire reach_start reach_release reach_tick demo_reach)
  show "may_write demo_fleet late_release 1"
    by (simp add: may_write_def check_still_held_def late_release_def demo_held_def run_simps)
  show "may_write demo_fleet late_release 2"
    by (simp add: may_write_def check_still_held_def late_release_def demo_held_def run_simps)
qed

end
