(* ===== verification/File_Alone.thy ===== *)
theory File_Alone
  imports File_Lease
begin

text \<open>
  \<open>Lease::acquire\<close> undisturbed, on both storage arms: where the loop ends and what it
  leaves in the document.
\<close>

fun acquire_run :: "'b lease_wiring \<Rightarrow> nat \<Rightarrow> nat \<Rightarrow> 'b acquire \<times> 'b docs \<Rightarrow> 'b acquire \<times> 'b docs" where
  "acquire_run w clk 0 s = s"
| "acquire_run w clk (Suc n) (pc, m) = acquire_run w clk n (acquire_step w clk NoFault pc m)"

lemma acquire_run_Held [simp]: "acquire_run w clk n (Held now, m) = (Held now, m)"
  by (induction n) auto

lemma acquire_run_Refused [simp]: "acquire_run w clk n (Refused e, m) = (Refused e, m)"
  by (induction n) auto

text \<open>What the module comment's five-way order promises.\<close>

definition acquire_spec :: "'b lease_wiring \<Rightarrow> nat \<Rightarrow> 'b docs \<Rightarrow> 'b acquire \<Rightarrow> 'b docs \<Rightarrow> bool" where
  "acquire_spec w clk m pc m' \<longleftrightarrow>
     (let won = (pc = Held clk \<and> (\<exists>b. decode (lw_json w) b = Inr (fresh_doc (lw_pipeline w) (lw_owner w) clk) \<and>
            m' = m(lw_doc w \<mapsto> b))) in
      case m (lw_doc w) of
        None \<Rightarrow> won
      | Some b \<Rightarrow>
          (case decode (lw_json w) b of
             Inl (NewerVersion v) \<Rightarrow> pc = Refused (into_destination_error (NewerVersion v) (lw_doc w)) \<and> m' = m
           | Inl (Unparseable _) \<Rightarrow> won
           | Inr d \<Rightarrow>
               if doc_owner d = lw_owner w \<or> age_secs clk d > TTL_SECS then won
               else pc = Refused (held_by_other w clk d) \<and> m' = m))"

lemma fresh_bytes:
  assumes "json_ok (lw_json w)"
  obtains b where "encode (lw_json w) (fresh_doc (lw_pipeline w) (lw_owner w) clk) = Inr b"
    and "decode (lw_json w) b = Inr (fresh_doc (lw_pipeline w) (lw_owner w) clk)"
proof -
  obtain b where "to_json (lw_json w) (fresh_doc (lw_pipeline w) (lw_owner w) clk) = Inr b"
    "parse_json (lw_json w) b = Inr (fresh_doc (lw_pipeline w) (lw_owner w) clk)"
    using assms by (auto simp: json_ok_def)
  then show thesis by (intro that [of b]) (simp_all add: encode_def decode_def fresh_doc_def)
qed

lemmas call_simps = create_doc_exclusive_def read_doc_versioned_def replace_doc_if_def delete_doc_exclusive_def
  delete_doc_def faulty_def version_of_def after_create_def after_read_def after_reread_def after_recheck_def
  after_replace_def judge_holder_def begin_takeover_def begin_reclaim_def recheck_unchanged_def

text \<open>The takeover of a holder the arm may replace, from its first await to the held lease.\<close>

lemma takeover_run:
  assumes enc: "encode (lw_json w) (fresh_doc (lw_pipeline w) (lw_owner w) clk) = Inr b"
    and cur: "m (lw_doc w) = Some old" and same: "recheck_unchanged w expected old"
  shows "acquire_run w clk (Suc (Suc (Suc n))) (begin_takeover w expected clk b (version_of (lw_arm w) old), m) =
    (Held clk, m(lw_doc w \<mapsto> b))"
proof (cases "lw_arm w")
  case LocalArm
  with enc cur same show ?thesis
    by (simp add: begin_takeover_def read_doc_versioned_def faulty_def after_recheck_def delete_doc_exclusive_def
        acquire_loop_def create_doc_exclusive_def after_create_def)
next
  case S3Arm
  with enc cur show ?thesis
    by (simp add: begin_takeover_def replace_doc_if_def faulty_def version_of_def after_replace_def)
qed

text \<open>The exclusive create on a document that is there, then the first read.\<close>

lemma contended_run:
  assumes "encode (lw_json w) (fresh_doc (lw_pipeline w) (lw_owner w) clk) = Inr b" and "m (lw_doc w) = Some old"
  shows "acquire_run w clk (Suc (Suc n)) (acquire_loop w clk, m) =
    acquire_run w clk n (after_read w clk clk b (Inr (Some (old, version_of (lw_arm w) old))), m)"
  using assms
  by (simp add: acquire_loop_def create_doc_exclusive_def faulty_def after_create_def read_doc_versioned_def)

text \<open>
  C13. Undisturbed, \<open>acquire\<close> returns within seven storage calls on either arm: it wins an
  absent document, debris that stays debris, its own lease and one past the TTL, leaving
  its fresh document; it refuses a live foreign lease and a newer format and leaves them
  as they are.
\<close>

theorem acquire_alone:
  assumes "json_ok (lw_json w)"
  shows "\<exists>pc m'. acquire_run w clk 7 (acquire_loop w clk, m) = (pc, m') \<and> acquire_spec w clk m pc m'"
proof -
  obtain b where b: "encode (lw_json w) (fresh_doc (lw_pipeline w) (lw_owner w) clk) = Inr b"
    "decode (lw_json w) b = Inr (fresh_doc (lw_pipeline w) (lw_owner w) clk)"
    by (rule fresh_bytes [OF assms])
  have seven: "(7 :: nat) = Suc (Suc (Suc (Suc (Suc (Suc (Suc 0))))))" by simp
  show ?thesis
  proof (cases "m (lw_doc w)")
    case None
    with b show ?thesis
      unfolding seven
      by (simp add: acquire_loop_def create_doc_exclusive_def faulty_def after_create_def acquire_spec_def) blast
  next
    case (Some old)
    note run = contended_run [of w clk b m old, OF b(1) Some]
    show ?thesis
    proof (cases "decode (lw_json w) old")
      case (Inl e)
      show ?thesis
      proof (cases e)
        case (Unparseable msg)
        have same: "recheck_unchanged w StillUndecodable old"
          using Inl Unparseable by (simp add: recheck_unchanged_def)
        have "acquire_run w clk 7 (acquire_loop w clk, m) = (Held clk, m(lw_doc w \<mapsto> b))"
          unfolding seven run
          using Inl Unparseable Some b(1) takeover_run [of w clk b m old StillUndecodable 0, OF b(1) Some same]
          by (simp add: after_read_def after_reread_def read_doc_versioned_def faulty_def begin_reclaim_def)
        with Inl Unparseable Some b show ?thesis by (simp add: acquire_spec_def) blast
      next
        case (NewerVersion v)
        with Inl Some show ?thesis
          unfolding seven run by (simp add: after_read_def acquire_spec_def)
      qed
    next
      case (Inr d)
      consider "doc_owner d = lw_owner w" | "doc_owner d \<noteq> lw_owner w" "age_secs clk d > TTL_SECS"
        | "doc_owner d \<noteq> lw_owner w" "\<not> age_secs clk d > TTL_SECS" by blast
      then show ?thesis
      proof cases
        case 1
        have "acquire_run w clk 7 (acquire_loop w clk, m) = (Held clk, m(lw_doc w \<mapsto> b))"
          unfolding seven run using Inr 1 Some
          by (cases "lw_arm w") (simp_all add: after_read_def judge_holder_def replace_doc_if_def faulty_def version_of_def after_replace_def)
        with Inr 1 Some b show ?thesis by (simp add: acquire_spec_def) blast
      next
        case 2
        have same: "recheck_unchanged w (Stale d) old" using Inr by (simp add: recheck_unchanged_def)
        have "acquire_run w clk 7 (acquire_loop w clk, m) = (Held clk, m(lw_doc w \<mapsto> b))"
          unfolding seven run using Inr 2 takeover_run [of w clk b m old "Stale d" 2, OF b(1) Some same]
          by (simp add: after_read_def judge_holder_def eval_nat_numeral)
        with Inr 2 Some b show ?thesis by (simp add: acquire_spec_def) blast
      next
        case 3
        with Inr Some show ?thesis
          unfolding seven run by (simp add: after_read_def judge_holder_def acquire_spec_def)
      qed
    qed
  qed
qed

definition alone_json :: "(lease_doc + string) lease_json" where
  "alone_json = \<lparr>parse_json = (\<lambda>b. case b of Inl d \<Rightarrow> Inr d | Inr s \<Rightarrow> Inl s), to_json = (\<lambda>d. Inr (Inl d))\<rparr>"

definition alone_wiring :: "(lease_doc + string) lease_wiring" where
  "alone_wiring = \<lparr>lw_arm = LocalArm, lw_doc = ''lease'', lw_pipeline = ''p'', lw_owner = ''a'', lw_json = alone_json\<rparr>"

theorem acquire_alone_witness:
  "\<exists>m'. acquire_run alone_wiring 9 7 (acquire_loop alone_wiring 9, [''lease'' \<mapsto> Inr ''torn'']) = (Held 9, m')"
proof -
  have "json_ok (lw_json alone_wiring)" by (simp add: json_ok_def alone_wiring_def alone_json_def)
  from acquire_alone [OF this, of 9 "[''lease'' \<mapsto> Inr ''torn'']"] show ?thesis
    by (auto simp: acquire_spec_def alone_wiring_def alone_json_def decode_def)
qed

end
