(* ===== verification/File_Layout.thy ===== *)
theory File_Layout
  imports File_Docs Core_Types
begin

text \<open>
  The file destination's names and documents (\<^verbatim>\<open>crates/rdlt-connector-file/src/destination\<close>):
  \<^verbatim>\<open>layout.rs\<close>, the ownership rule of \<^verbatim>\<open>truncate.rs\<close>, \<^verbatim>\<open>parts.rs\<close>, when a part closes, and
  the formats of \<^verbatim>\<open>config.rs\<close>.
\<close>

section \<open>Formats and names\<close>

datatype dest_format = Parquet | Jsonl

definition ALL_FORMATS :: "dest_format list" where
  "ALL_FORMATS = [Parquet, Jsonl]"

definition extension :: "dest_format \<Rightarrow> string" where
  "extension f = (case f of Parquet \<Rightarrow> ''parquet'' | Jsonl \<Rightarrow> ''jsonl'')"

definition LAYOUT_FORMAT_VERSION :: nat where "LAYOUT_FORMAT_VERSION = 2"
definition STAGING_DIR :: string where "STAGING_DIR = ''.rdlt-staging''"
definition NULL_PARTITION :: string where "NULL_PARTITION = ''__null__''"

definition scope_of :: "core_env \<Rightarrow> string \<Rightarrow> string" where
  "scope_of env pipeline = ident_hash env pipeline 12"

definition state_file :: "string \<Rightarrow> string" where
  "state_file scope = ''_rdlt_state.'' @ scope @ ''.json''"

definition commits_file :: "string \<Rightarrow> string" where
  "commits_file scope = ''_rdlt_commits.'' @ scope @ ''.json''"

definition manifest_file :: "string \<Rightarrow> string" where
  "manifest_file scope = ''_rdlt_manifest.'' @ scope @ ''.json''"

definition staging_tail :: "string \<Rightarrow> string \<Rightarrow> string \<Rightarrow> string" where
  "staging_tail scope load name = STAGING_DIR @ ''/'' @ scope @ ''/'' @ load @ ''/'' @ name"

definition staged_name :: "string \<Rightarrow> string option \<Rightarrow> nat \<Rightarrow> string \<Rightarrow> string" where
  "staged_name t dir index ext =
     t @ ''/'' @ (case dir of Some p \<Rightarrow> p | None \<Rightarrow> ''all'') @ ''-'' @ show_nat index @ ''.'' @ ext"

definition part_name :: "string \<Rightarrow> 64 word \<Rightarrow> nat \<Rightarrow> string \<Rightarrow> string" where
  "part_name load seq index ext =
     ''part-'' @ load @ ''-'' @ show_nat (unat seq) @ ''-'' @ show_nat index @ ''.'' @ ext"

definition final_tail :: "string \<Rightarrow> string option \<Rightarrow> string \<Rightarrow> 64 word \<Rightarrow> nat \<Rightarrow> string \<Rightarrow> string" where
  "final_tail t dir load seq index ext =
     t @ ''/'' @ (case dir of Some p \<Rightarrow> p @ ''/'' | None \<Rightarrow> []) @ part_name load seq index ext"

section \<open>Partition values\<close>

definition alphanumeric :: "char \<Rightarrow> bool" where
  "alphanumeric c \<longleftrightarrow>
     (let b = of_char c :: nat in 65 \<le> b \<and> b \<le> 90 \<or> 97 \<le> b \<and> b \<le> 122 \<or> 48 \<le> b \<and> b \<le> 57)"

definition survivor :: "nat \<Rightarrow> char \<Rightarrow> bool" where
  "survivor position c \<longleftrightarrow>
     alphanumeric c \<or> c = CHR ''-'' \<or> position \<noteq> 0 \<and> (c = CHR ''_'' \<or> c = CHR ''.'')"

fun encode_bytes :: "nat \<Rightarrow> string \<Rightarrow> string" where
  "encode_bytes position [] = []"
| "encode_bytes position (c # cs) =
     (if survivor position c then [c] else percent c) @ encode_bytes (Suc position) cs"

definition WINDOWS_RESERVED_BASENAMES :: "string list" where
  "WINDOWS_RESERVED_BASENAMES =
     [''CON'', ''PRN'', ''AUX'', ''NUL'', ''COM1'', ''COM2'', ''COM3'', ''COM4'', ''COM5'', ''COM6'', ''COM7'', ''COM8'',
      ''COM9'', ''LPT1'', ''LPT2'', ''LPT3'', ''LPT4'', ''LPT5'', ''LPT6'', ''LPT7'', ''LPT8'', ''LPT9'']"

definition windows_reserved :: "string \<Rightarrow> bool" where
  "windows_reserved encoded \<longleftrightarrow>
     list_ex (eq_ignore_ascii_case (hd (split_on CHR ''.'' encoded))) WINDOWS_RESERVED_BASENAMES"

definition escape_if_windows_reserved :: "string \<Rightarrow> string" where
  "escape_if_windows_reserved encoded =
     (if windows_reserved encoded then percent (hd encoded) @ tl encoded else encoded)"

definition encode_partition_value :: "string \<Rightarrow> string" where
  "encode_partition_value v = (if v = [] then ''__empty__'' else escape_if_windows_reserved (encode_bytes 0 v))"

section \<open>Documents\<close>

record commit_log =
  cl_format_version :: nat
  cl_receipts :: "(string \<times> 64 word) list"

record manifest =
  mf_format_version :: nat
  mf_load :: string
  mf_seq :: "64 word"
  mf_names :: "string list"

definition empty_log :: commit_log where
  "empty_log = \<lparr>cl_format_version = 0, cl_receipts = []\<rparr>"

text \<open>\<open>serde_json\<close> on the documents; a state document is its JSON text.\<close>

record doc_json =
  log_parse :: "string \<Rightarrow> (string, commit_log) result"
  log_text :: "commit_log \<Rightarrow> (string, string) result"
  manifest_parse :: "string \<Rightarrow> (string, manifest) result"
  manifest_text :: "manifest \<Rightarrow> (string, string) result"

definition doc_json_ok :: "doc_json \<Rightarrow> bool" where
  "doc_json_ok js \<longleftrightarrow>
     (\<forall>l. \<exists>b. log_text js l = Inr b \<and> log_parse js b = Inr l) \<and>
     (\<forall>m. \<exists>b. manifest_text js m = Inr b \<and> manifest_parse js b = Inr m)"

definition version_gate :: "string \<Rightarrow> string \<Rightarrow> nat \<Rightarrow> (dest_failure, unit) result" where
  "version_gate doc file found =
     (if found > LAYOUT_FORMAT_VERSION then Inl (FatalFailure
        (doc @ '' `'' @ file @ ''` format v'' @ show_nat found @ '' is newer than this build supports (v''
         @ show_nat LAYOUT_FORMAT_VERSION @ ''); upgrade rdlt instead of resetting''))
      else if found < LAYOUT_FORMAT_VERSION then Inl (FatalFailure
        (doc @ '' `'' @ file @ ''` format v'' @ show_nat found @ '' predates this build (v''
         @ show_nat LAYOUT_FORMAT_VERSION @ ''): the partition-directory encoding changed; point the destination ''
         @ ''at a fresh path or delete the old output''))
      else Inr ())"

definition manifest_decode :: "doc_json \<Rightarrow> string option \<Rightarrow> string \<Rightarrow> (dest_failure, manifest option) result" where
  "manifest_decode js bytes file =
     (case bytes of
        None \<Rightarrow> Inr None
      | Some b \<Rightarrow>
          (case manifest_parse js b of
             Inl e \<Rightarrow> Inl (FatalFailure (''unreadable manifest `'' @ file @ ''`: '' @ e))
           | Inr m \<Rightarrow> rbind (version_gate ''manifest'' file (mf_format_version m)) (\<lambda>_. Inr (Some m))))"

definition log_decode :: "doc_json \<Rightarrow> string option \<Rightarrow> string \<Rightarrow> (dest_failure, commit_log) result" where
  "log_decode js bytes file =
     (case bytes of
        None \<Rightarrow> Inr empty_log
      | Some b \<Rightarrow>
          (case log_parse js b of
             Inl e \<Rightarrow> Inl (FatalFailure (''unreadable commit log `'' @ file @ ''`: '' @ e))
           | Inr l \<Rightarrow> rbind (version_gate ''commit log'' file (cl_format_version l)) (\<lambda>_. Inr l)))"

section \<open>What Replace owns\<close>

definition numeric :: "string \<Rightarrow> bool" where
  "numeric s \<longleftrightarrow> s \<noteq> [] \<and> list_all digit s"

fun strip_extension :: "dest_format list \<Rightarrow> string \<Rightarrow> string option" where
  "strip_extension [] stem = None"
| "strip_extension (f # fs) stem =
     (case strip_suffix (CHR ''.'' # extension f) stem of Some s \<Rightarrow> Some s | None \<Rightarrow> strip_extension fs stem)"

definition owned_name :: "string \<Rightarrow> bool" where
  "owned_name name \<longleftrightarrow>
     (case Option.bind (strip_prefix ''part-'' name) (strip_extension ALL_FORMATS) of
        None \<Rightarrow> False
      | Some stem \<Rightarrow>
          (case rsplit_once CHR ''-'' stem of
             None \<Rightarrow> False
           | Some (rest, index) \<Rightarrow>
               (case rsplit_once CHR ''-'' rest of
                  None \<Rightarrow> False
                | Some (load, seq) \<Rightarrow> numeric index \<and> numeric seq \<and> load \<noteq> [])))"

definition owns :: "string \<Rightarrow> bool" where
  "owns tail \<longleftrightarrow>
     (case split_on CHR ''/'' tail of
        [name] \<Rightarrow> owned_name name
      | [first, name] \<Rightarrow> first \<noteq> [] \<and> owned_name name
      | _ \<Rightarrow> False)"

definition plain_top_level_parquet :: "string \<Rightarrow> bool" where
  "plain_top_level_parquet tail \<longleftrightarrow>
     CHR ''/'' \<notin> set tail \<and> strip_suffix ''.parquet'' tail \<noteq> None \<and> tail \<noteq> ''.parquet''"

section \<open>When a part closes\<close>

record part_options =
  target_bytes :: "nat option"
  roll_after_seconds :: "nat option"
  max_open_bytes :: "nat option"

definition part_defaults :: part_options where
  "part_defaults =
     \<lparr>target_bytes = Some (128 * 1024 * 1024), roll_after_seconds = None, max_open_bytes = Some (512 * 1024 * 1024)\<rparr>"

datatype part_error = ZeroTargetBytes | ZeroRollSeconds | ZeroMaxOpenBytes | BudgetBelowTarget nat nat

definition part_error_text :: "part_error \<Rightarrow> string" where
  "part_error_text e =
     (case e of
        ZeroTargetBytes \<Rightarrow> ''`target_bytes` is 0 '' @ em_dash @ '' a part must hold something; remove the setting to use ''
          @ ''the 128 MiB default, or give a positive size''
      | ZeroRollSeconds \<Rightarrow> ''`roll_after_seconds` is 0 '' @ em_dash @ '' a part would close on every write; remove the ''
          @ ''setting, or give a positive number of seconds''
      | ZeroMaxOpenBytes \<Rightarrow> ''`max_open_bytes` is 0 '' @ em_dash @ '' open parts must be allowed some memory; remove the ''
          @ ''setting to use the 512 MiB default, or give a positive size''
      | BudgetBelowTarget budget target \<Rightarrow> ''`max_open_bytes` ('' @ show_nat budget @ '') is below `target_bytes` (''
          @ show_nat target @ '') '' @ em_dash @ '' no part could ever reach its target before the memory ceiling closed it; ''
          @ ''raise the ceiling, or lower the target'')"

definition validate_parts :: "part_options \<Rightarrow> (part_error, unit) result" where
  "validate_parts o' =
     (if target_bytes o' = Some 0 then Inl ZeroTargetBytes
      else if roll_after_seconds o' = Some 0 then Inl ZeroRollSeconds
      else
        case (max_open_bytes o', target_bytes o') of
          (Some budget, Some target) \<Rightarrow>
            if budget = 0 then Inl ZeroMaxOpenBytes
            else if budget < target then Inl (BudgetBelowTarget budget target) else Inr ()
        | (Some budget, None) \<Rightarrow> if budget = 0 then Inl ZeroMaxOpenBytes else Inr ()
        | (None, _) \<Rightarrow> Inr ())"

definition unbounded :: part_options where
  "unbounded = \<lparr>target_bytes = None, roll_after_seconds = None, max_open_bytes = None\<rparr>"

definition per_write :: part_options where
  "per_write = \<lparr>target_bytes = Some 1, roll_after_seconds = None, max_open_bytes = Some (512 * 1024 * 1024)\<rparr>"

definition rolls_on_time :: "part_options \<Rightarrow> nat \<Rightarrow> bool" where
  "rolls_on_time o' open_for = (case roll_after_seconds o' of Some secs \<Rightarrow> open_for \<ge> secs | None \<Rightarrow> False)"

definition over_budget :: "part_options \<Rightarrow> nat \<Rightarrow> bool" where
  "over_budget o' open_bytes = (case max_open_bytes o' of Some budget \<Rightarrow> open_bytes > max budget 1 | None \<Rightarrow> False)"

definition should_roll :: "part_options \<Rightarrow> nat \<Rightarrow> nat \<Rightarrow> bool" where
  "should_roll o' encoded open_for \<longleftrightarrow>
     (case target_bytes o' of Some target \<Rightarrow> encoded \<ge> max target 1 | None \<Rightarrow> False)
     \<or> encoded > 0 \<and> (case roll_after_seconds o' of Some secs \<Rightarrow> open_for \<ge> secs | None \<Rightarrow> False)"

section \<open>Partition directories\<close>

lemma alphanumeric_chars: "alphanumeric c \<Longrightarrow> c \<noteq> CHR ''%'' \<and> c \<noteq> CHR ''/'' \<and> c \<noteq> CHR ''_'' \<and> c \<noteq> CHR ''.''"
  by (auto simp: alphanumeric_def)

lemma survivor_not_percent: "survivor i c \<Longrightarrow> c \<noteq> CHR ''%''"
  using alphanumeric_chars [of c] by (auto simp: survivor_def)

lemma hex_digit_alphanumeric: "n < 16 \<Longrightarrow> alphanumeric (hex_digit n)"
  by (auto simp: hex_digit_def alphanumeric_def Let_def)

lemma percent_chars: "x \<in> set (percent c) \<Longrightarrow> x = CHR ''%'' \<or> alphanumeric x"
  using byte_halves [of c] by (auto simp: percent_def hex_digit_alphanumeric)

lemma decode_survivor: "c \<noteq> CHR ''%'' \<Longrightarrow> percent_decode (c # s) = c # percent_decode s"
  by simp

lemma encode_bytes_decodes: "percent_decode (encode_bytes i v) = v"
  by (induction v arbitrary: i) (auto simp: percent_decode_percent decode_survivor dest: survivor_not_percent simp del: percent_decode.simps(2))

lemma encode_bytes_chars: "x \<in> set (encode_bytes i v) \<Longrightarrow> x = CHR ''%'' \<or> alphanumeric x \<or> x = CHR ''-'' \<or> x = CHR ''_'' \<or> x = CHR ''.''"
  by (induction v arbitrary: i) (auto simp: survivor_def split: if_splits dest: percent_chars)

lemma encode_bytes_first:
  assumes "v \<noteq> []"
  obtains c s where "encode_bytes 0 v = c # s" and "c = CHR ''%'' \<or> alphanumeric c \<or> c = CHR ''-''"
proof (cases v)
  case (Cons a w)
  show thesis
  proof (cases "survivor 0 a")
    case True
    with Cons show thesis by (intro that) (auto simp: survivor_def)
  next
    case False
    with Cons have "encode_bytes 0 v = CHR ''%'' # tl (percent a) @ encode_bytes (Suc 0) w" by (simp add: percent_def)
    with that show thesis by blast
  qed
qed (use assms in simp)

lemma percent_shape: "percent c = CHR ''%'' # tl (percent c)"
  by (simp add: percent_def)

lemma reserved_first: "list_all (\<lambda>w. hd (to_ascii_lowercase w) \<noteq> CHR ''%'' \<and> to_ascii_lowercase w \<noteq> []) WINDOWS_RESERVED_BASENAMES"
  by code_simp

lemma windows_reserved_first:
  assumes "windows_reserved (c # s)"
  shows "c \<noteq> CHR ''%''"
proof
  assume c: "c = CHR ''%''"
  have "\<exists>r. hd (split_on CHR ''.'' (c # s)) = CHR ''%'' # r"
    using c by (auto split: list.splits)
  then obtain r where "hd (split_on CHR ''.'' (c # s)) = CHR ''%'' # r" ..
  with assms obtain w where w: "w \<in> set WINDOWS_RESERVED_BASENAMES" "to_ascii_lowercase (CHR ''%'' # r) = to_ascii_lowercase w"
    by (auto simp: windows_reserved_def list_ex_iff eq_ignore_ascii_case_def)
  have "hd (to_ascii_lowercase (CHR ''%'' # r)) = CHR ''%''" by (simp add: to_ascii_lowercase_def)
  with w reserved_first show False by (auto simp: list_all_iff)
qed

text \<open>The shape of an encoded value that is not empty.\<close>

lemma encode_partition_shape:
  assumes "v \<noteq> []"
  obtains c s where "encode_partition_value v = c # s" "c = CHR ''%'' \<or> alphanumeric c \<or> c = CHR ''-''"
    "\<not> windows_reserved (c # s)" "percent_decode (c # s) = v" "CHR ''/'' \<notin> set (c # s)"
proof -
  obtain c s where e: "encode_bytes 0 v = c # s" "c = CHR ''%'' \<or> alphanumeric c \<or> c = CHR ''-''"
    by (rule encode_bytes_first [OF assms])
  have dec: "percent_decode (c # s) = v" using encode_bytes_decodes [of 0 v] e(1) by simp
  have no_slash: "CHR ''/'' \<notin> set (c # s)"
    using encode_bytes_chars [of "CHR ''/''" 0 v] e(1) alphanumeric_chars [of "CHR ''/''"] by auto
  show thesis
  proof (cases "windows_reserved (c # s)")
    case False
    have "encode_partition_value v = c # s" using assms e(1) False by (simp add: encode_partition_value_def escape_if_windows_reserved_def)
    with that e(2) False dec no_slash show thesis by blast
  next
    case True
    let ?s = "tl (percent c) @ s"
    have "encode_partition_value v = percent c @ s"
      using assms e(1) True by (simp add: encode_partition_value_def escape_if_windows_reserved_def)
    then have enc: "encode_partition_value v = CHR ''%'' # ?s" using percent_shape [of c] by (metis append_Cons)
    have "percent_decode (percent c @ s) = v"
      using dec windows_reserved_first [OF True] by (simp add: percent_decode_percent)
    then have "percent_decode (CHR ''%'' # ?s) = v" using percent_shape [of c] by (metis append_Cons)
    moreover have "\<not> windows_reserved (CHR ''%'' # ?s)" using windows_reserved_first [of "CHR ''%''" ?s] by auto
    moreover have "CHR ''/'' \<notin> set (CHR ''%'' # ?s)"
      using no_slash percent_chars [of "CHR ''/''" c] alphanumeric_chars [of "CHR ''/''"] by (auto simp: percent_def)
    ultimately show thesis using that enc by blast
  qed
qed

text \<open>
  C26. A partition value names a directory of its own: different values have different
  directories, decoding the name gives the value back (the empty value has a name of its own), and the name is a single path segment
  that is neither a dot segment, nor the directory of null, nor a device name of Windows.
\<close>

theorem partition_directories:
  "(encode_partition_value v = encode_partition_value v') = (v = v')
    \<and> encode_partition_value v \<notin> {[], ''.'', ''..'', NULL_PARTITION}
    \<and> CHR ''/'' \<notin> set (encode_partition_value v) \<and> \<not> windows_reserved (encode_partition_value v)
    \<and> percent_decode (encode_partition_value v) = (if v = [] then ''__empty__'' else v)"
proof -
  have empty: "encode_partition_value [] = ''__empty__''" by (simp add: encode_partition_value_def)
  have apart: "encode_partition_value v \<noteq> ''__empty__''" if "v \<noteq> []" for v
    by (rule encode_partition_shape [OF that]) (auto simp: alphanumeric_def)
  have decoded: "percent_decode (encode_partition_value v) = v" if "v \<noteq> []" for v
    by (rule encode_partition_shape [OF that]) simp
  have same: "v = v'" if eq: "encode_partition_value v = encode_partition_value v'"
  proof (cases "v = [] \<or> v' = []")
    case True
    with eq empty apart [of v] apart [of v'] show ?thesis by metis
  next
    case False
    then show ?thesis using decoded [of v] decoded [of v'] unfolding eq by simp
  qed
  show ?thesis
  proof (cases "v = []")
    case True
    have "\<not> windows_reserved ''__empty__''" "percent_decode ''__empty__'' = ''__empty__''" by code_simp+
    moreover have "(encode_partition_value v = encode_partition_value v') = (v = v')" using same by blast
    ultimately show ?thesis using True empty by (simp add: NULL_PARTITION_def)
  next
    case False
    obtain c s where e: "encode_partition_value v = c # s" "c = CHR ''%'' \<or> alphanumeric c \<or> c = CHR ''-''"
      "\<not> windows_reserved (c # s)" "CHR ''/'' \<notin> set (c # s)"
      by (rule encode_partition_shape [OF False])
    have "c \<noteq> CHR ''.''" "c \<noteq> CHR ''_''" using e(2) alphanumeric_chars [of c] by auto
    then have "c # s \<notin> {[], ''.'', ''..'', NULL_PARTITION}" by (simp add: NULL_PARTITION_def)
    moreover have "(encode_partition_value v = encode_partition_value v') = (v = v')" using same by blast
    ultimately show ?thesis using e(3,4) decoded [OF False] False unfolding e(1) by simp
  qed
qed

text \<open>
  A value that is reserved on Windows has its first byte escaped.
\<close>

lemma reserved_value: "encode_partition_value ''Con.txt'' = ''%43on.txt''"
  by code_simp

section \<open>The ownership rule\<close>

lemma extension_no_dash: "CHR ''-'' \<notin> set (extension f) \<and> CHR ''.'' \<notin> set (extension f)"
  by (cases f) (simp_all add: extension_def)

lemma strip_extension_iff: "strip_extension ALL_FORMATS s = Some stem \<longleftrightarrow> (\<exists>f. s = stem @ CHR ''.'' # extension f)"
proof
  assume "strip_extension ALL_FORMATS s = Some stem"
  then show "\<exists>f. s = stem @ CHR ''.'' # extension f"
    by (auto simp: ALL_FORMATS_def strip_suffix_Some split: option.splits)
next
  assume "\<exists>f. s = stem @ CHR ''.'' # extension f"
  then obtain f where f: "s = stem @ CHR ''.'' # extension f" ..
  have other: "strip_suffix (CHR ''.'' # ''parquet'') (stem @ CHR ''.'' # ''jsonl'') = None"
  proof (rule ccontr)
    assume "strip_suffix (CHR ''.'' # ''parquet'') (stem @ CHR ''.'' # ''jsonl'') \<noteq> None"
    then obtain r where "stem @ CHR ''.'' # ''jsonl'' = r @ CHR ''.'' # ''parquet''" by (auto simp: strip_suffix_Some)
    then have "last (stem @ CHR ''.'' # ''jsonl'') = last (r @ CHR ''.'' # ''parquet'')" by simp
    then show False by simp
  qed
  have this': "strip_suffix (CHR ''.'' # extension f) s = Some stem" using f by (simp add: strip_suffix_Some)
  show "strip_extension ALL_FORMATS s = Some stem"
    using this' other f by (cases f) (auto simp: ALL_FORMATS_def extension_def split: option.splits)
qed

lemma numeric_no_dash: "numeric s \<Longrightarrow> CHR ''-'' \<notin> set s"
  by (auto simp: numeric_def list_all_iff digit_def)

lemma numeric_no_slash: "numeric s \<Longrightarrow> CHR ''/'' \<notin> set s"
  by (auto simp: numeric_def list_all_iff digit_def)

lemma owned_name_iff:
  "owned_name name \<longleftrightarrow>
     (\<exists>load seq index f. name = ''part-'' @ load @ CHR ''-'' # seq @ CHR ''-'' # index @ CHR ''.'' # extension f
       \<and> load \<noteq> [] \<and> numeric seq \<and> numeric index)"
proof
  assume "owned_name name"
  then obtain stem r rest index load seq where
    "strip_prefix ''part-'' name = Some r" "strip_extension ALL_FORMATS r = Some stem"
    "rsplit_once CHR ''-'' stem = Some (rest, index)" "rsplit_once CHR ''-'' rest = Some (load, seq)"
    "numeric index" "numeric seq" "load \<noteq> []"
    by (auto simp: owned_name_def bind_eq_Some_conv split: option.splits prod.splits)
  then show "\<exists>load seq index f. name = ''part-'' @ load @ CHR ''-'' # seq @ CHR ''-'' # index @ CHR ''.'' # extension f
       \<and> load \<noteq> [] \<and> numeric seq \<and> numeric index"
    by (auto simp: strip_prefix_Some strip_extension_iff dest!: rsplit_once_Some) blast
next
  assume "\<exists>load seq index f. name = ''part-'' @ load @ CHR ''-'' # seq @ CHR ''-'' # index @ CHR ''.'' # extension f
       \<and> load \<noteq> [] \<and> numeric seq \<and> numeric index"
  then obtain load seq index f where
    n: "name = ''part-'' @ ((load @ CHR ''-'' # seq) @ CHR ''-'' # index) @ CHR ''.'' # extension f"
    and ok: "load \<noteq> []" "numeric seq" "numeric index" by auto
  have "strip_prefix ''part-'' name = Some (((load @ CHR ''-'' # seq) @ CHR ''-'' # index) @ CHR ''.'' # extension f)"
    using n by (simp add: strip_prefix_Some)
  moreover have "strip_extension ALL_FORMATS (((load @ CHR ''-'' # seq) @ CHR ''-'' # index) @ CHR ''.'' # extension f)
      = Some ((load @ CHR ''-'' # seq) @ CHR ''-'' # index)"
    by (subst strip_extension_iff) blast
  moreover have "rsplit_once CHR ''-'' ((load @ CHR ''-'' # seq) @ CHR ''-'' # index) = Some (load @ CHR ''-'' # seq, index)"
    using ok(3) numeric_no_dash by (intro rsplit_once_append) blast
  moreover have "rsplit_once CHR ''-'' (load @ CHR ''-'' # seq) = Some (load, seq)"
    using ok(2) numeric_no_dash by (intro rsplit_once_append) blast
  ultimately show "owned_name name" using ok by (simp add: owned_name_def)
qed

lemma join_split_on: "join [c] (split_on c s) = s"
proof (induction s)
  case (Cons a s)
  obtain p ps where "split_on c s = p # ps" using split_on_nonempty [of c s] by (cases "split_on c s") auto
  with Cons show ?case by (cases ps) auto
qed simp

lemma split_on_one: "split_on c s = [x] \<longleftrightarrow> c \<notin> set s \<and> x = s"
proof
  assume e: "split_on c s = [x]"
  with join_split_on [of c s] split_on_parts [of x c s] show "c \<notin> set s \<and> x = s" by auto
qed (auto simp: split_on_fresh)

lemma split_on_two: "split_on c s = [x, y] \<longleftrightarrow> s = x @ c # y \<and> c \<notin> set x \<and> c \<notin> set y"
proof
  assume e: "split_on c s = [x, y]"
  with join_split_on [of c s] split_on_parts [of x c s] split_on_parts [of y c s]
  show "s = x @ c # y \<and> c \<notin> set x \<and> c \<notin> set y" by auto
qed (auto simp: split_on_append split_on_fresh)

lemma named_owned:
  assumes t: "tail = dir @ ''part-'' @ load @ CHR ''-'' # seq @ CHR ''-'' # index @ CHR ''.'' # extension f"
    and ok: "load \<noteq> []" "CHR ''/'' \<notin> set load" "numeric seq" "numeric index"
    and dir: "dir = [] \<or> (\<exists>p. dir = p @ ''/'' \<and> p \<noteq> [] \<and> CHR ''/'' \<notin> set p)"
  shows "owns tail"
proof -
  let ?name = "''part-'' @ load @ CHR ''-'' # seq @ CHR ''-'' # index @ CHR ''.'' # extension f"
  have "CHR ''/'' \<notin> set (extension f)" by (cases f) (simp_all add: extension_def)
  then have slash: "CHR ''/'' \<notin> set ?name"
    using ok numeric_no_slash by auto
  have owned: "owned_name ?name" using ok owned_name_iff by blast
  from dir show "owns tail"
  proof
    assume "dir = []"
    with t slash have "split_on CHR ''/'' tail = [?name]" by (simp only: split_on_one append_Nil simp_thms not_False_eq_True)
    with owned show ?thesis by (simp only: owns_def list.case)
  next
    assume "\<exists>p. dir = p @ ''/'' \<and> p \<noteq> [] \<and> CHR ''/'' \<notin> set p"
    then obtain p where p: "dir = p @ ''/''" "p \<noteq> []" "CHR ''/'' \<notin> set p" by blast
    then have "tail = p @ CHR ''/'' # ?name" using t by simp
    with p(3) slash have "split_on CHR ''/'' tail = [p, ?name]" by (simp only: split_on_two simp_thms not_False_eq_True)
    with owned p(2) show ?thesis by (simp only: owns_def list.case simp_thms)
  qed
qed

text \<open>
  C27. Replace deletes by shape, never by prefix: it owns exactly the names
  \<^verbatim>\<open>part-<load>-<seq>-<index>.<ext>\<close>, at the top of the table or in one directory, with a load
  that is not empty, two numbers and an extension of this destination.
\<close>

theorem owns_iff:
  "owns tail \<longleftrightarrow>
     (\<exists>dir load seq index f. tail = dir @ ''part-'' @ load @ CHR ''-'' # seq @ CHR ''-'' # index @ CHR ''.'' # extension f
       \<and> load \<noteq> [] \<and> CHR ''/'' \<notin> set load \<and> numeric seq \<and> numeric index
       \<and> (dir = [] \<or> (\<exists>p. dir = p @ ''/'' \<and> p \<noteq> [] \<and> CHR ''/'' \<notin> set p)))"
  (is "_ \<longleftrightarrow> ?named")
proof
  assume "owns tail"
  then consider name where "split_on CHR ''/'' tail = [name]" "owned_name name"
    | first name where "split_on CHR ''/'' tail = [first, name]" "first \<noteq> []" "owned_name name"
    by (auto simp: owns_def split: list.splits)
  then obtain dir name where t: "tail = dir @ name" "owned_name name" "CHR ''/'' \<notin> set name"
    and dir: "dir = [] \<or> (\<exists>p. dir = p @ ''/'' \<and> p \<noteq> [] \<and> CHR ''/'' \<notin> set p)"
  proof cases
    case 1
    with that [of "[]"] show ?thesis by (simp add: split_on_one)
  next
    case (2 first name)
    with that [of "first @ ''/''" name] show ?thesis by (simp add: split_on_two)
  qed
  from t(2) obtain load seq index f where
    "name = ''part-'' @ load @ CHR ''-'' # seq @ CHR ''-'' # index @ CHR ''.'' # extension f" "load \<noteq> []" "numeric seq" "numeric index"
    by (auto simp: owned_name_iff)
  with t dir show ?named by (intro exI [of _ dir] exI [of _ load] exI [of _ seq] exI [of _ index] exI [of _ f]) auto
next
  assume ?named
  then show "owns tail" using named_owned by blast
qed

lemma show_nat_numeric: "numeric (show_nat n)"
  by (simp add: numeric_def show_nat_digits list_all_iff)

lemma final_tail_owned:
  assumes "load \<noteq> []" and "CHR ''/'' \<notin> set load"
    and "\<And>p. dir = Some p \<Longrightarrow> p \<noteq> [] \<and> CHR ''/'' \<notin> set p"
  shows "\<exists>tail. final_tail t dir load seq index (extension f) = t @ ''/'' @ tail \<and> owns tail"
proof (intro exI conjI)
  let ?dir = "case dir of Some p \<Rightarrow> p @ ''/'' | None \<Rightarrow> []"
  let ?tail = "?dir @ ''part-'' @ load @ CHR ''-'' # show_nat (unat seq) @ CHR ''-'' # show_nat index @ CHR ''.'' # extension f"
  show "final_tail t dir load seq index (extension f) = t @ ''/'' @ ?tail"
    by (simp add: final_tail_def part_name_def)
  have "?dir = [] \<or> (\<exists>p. ?dir = p @ ''/'' \<and> p \<noteq> [] \<and> CHR ''/'' \<notin> set p)"
    using assms(3) by (cases dir) auto
  with assms(1,2) show_nat_numeric show "owns ?tail" using named_owned by blast
qed

lemma append_split_first:
  assumes "xs @ (c :: char) # ys = xs' @ c # ys'" and "c \<notin> set xs" and "c \<notin> set xs'"
  shows "xs = xs' \<and> ys = ys'"
proof -
  have "Some (xs, ys) = split_once c (xs @ c # ys)" using assms(2) by (rule split_once_append [symmetric])
  also have "\<dots> = Some (xs', ys')" unfolding assms(1) using assms(3) by (rule split_once_append)
  finally show ?thesis by simp
qed

lemma show_nat_inj:
  assumes "show_nat m = show_nat n"
  shows "m = n"
proof -
  have "Some m = parse_digits (m + n) 0 (show_nat m)" by (rule parse_show_nat [symmetric]) simp
  also have "\<dots> = Some n" unfolding assms by (rule parse_show_nat) simp
  finally show ?thesis by simp
qed

lemma part_name_index:
  assumes "part_name load seq index ext = part_name load seq index' ext"
  shows "index = index'"
proof -
  have "show_nat index @ ''.'' @ ext = show_nat index' @ ''.'' @ ext"
    using assms by (simp add: part_name_def)
  then show ?thesis by (intro show_nat_inj) simp
qed

lemma part_name_no_slash:
  assumes "CHR ''/'' \<notin> set load"
  shows "CHR ''/'' \<notin> set (part_name load seq index (extension f))"
proof -
  have "CHR ''/'' \<notin> set (extension f)" by (cases f) (simp_all add: extension_def)
  then show ?thesis using assms numeric_no_slash [OF show_nat_numeric] by (simp add: part_name_def)
qed

lemma final_tail_inj:
  assumes eq: "final_tail t dir load seq index (extension f) = final_tail t' dir' load seq index' (extension f)"
    and slash: "CHR ''/'' \<notin> set t" "CHR ''/'' \<notin> set t'" "CHR ''/'' \<notin> set load"
    and dirs: "\<And>p. dir = Some p \<Longrightarrow> CHR ''/'' \<notin> set p" "\<And>p. dir' = Some p \<Longrightarrow> CHR ''/'' \<notin> set p"
  shows "t = t' \<and> dir = dir' \<and> index = index'"
proof -
  let ?part = "\<lambda>i. part_name load seq i (extension f)"
  let ?rest = "\<lambda>d i. (case d of Some p \<Rightarrow> p @ ''/'' | None \<Rightarrow> []) @ ?part i"
  have "t @ CHR ''/'' # ?rest dir index = t' @ CHR ''/'' # ?rest dir' index'"
    using eq by (simp add: final_tail_def)
  from append_split_first [OF this slash(1,2)] have t: "t = t'" and rest: "?rest dir index = ?rest dir' index'" by auto
  have no: "CHR ''/'' \<notin> set (?part i)" for i by (rule part_name_no_slash [OF slash(3)])
  have some: "CHR ''/'' \<in> set (?rest (Some p) i)" for p i by simp
  have none: "CHR ''/'' \<notin> set (?rest None i)" for i using no by simp
  have "dir = dir' \<and> ?part index = ?part index'"
  proof (cases dir)
    case None
    with rest none [of index] some [of _ index'] have "dir' = None" by (cases dir') force+
    with None rest show ?thesis by simp
  next
    case (Some p)
    with rest none [of index'] some [of p index] obtain p' where p': "dir' = Some p'" by (cases dir') force+
    have "p @ CHR ''/'' # ?part index = p' @ CHR ''/'' # ?part index'" using rest Some p' by simp
    from append_split_first [OF this] dirs Some p' show ?thesis by simp
  qed
  with t part_name_index show ?thesis by blast
qed

end
