(* ===== verification/File_Load.thy ===== *)
theory File_Load
  imports File_Layout File_Lease "HOL-Library.Product_Lexorder" "HOL-Library.Option_ord"
begin

text \<open>
  \<^verbatim>\<open>crates/rdlt-connector-file/src/destination/load.rs\<close>, the file destination's load session, with
  \<^verbatim>\<open>stage.rs\<close> (partition groups and open parts), the truncation of \<^verbatim>\<open>truncate.rs\<close> and the storage
  verbs of \<^verbatim>\<open>location/kind.rs\<close> it uses, on a map from names to bytes. The Arrow and Parquet
  writers and the order in which a storage lists names are parameters. The session has its
  pipeline's names to itself (\<open>File_Fleet.one_writer\<close>); whether it still holds its lease is
  read at each check from what its heartbeat has recorded. A part's close event is not modelled.
\<close>

section \<open>The storage\<close>

text \<open>
  What the environment holds for the next call: a fault of the storage, the clock in seconds,
  and the lease's wall clock and evidence.
\<close>

record tick =
  tk_fault :: io_fault
  tk_clock :: nat
  tk_wall_ms :: nat
  tk_evidence :: evidence

record fs =
  fs_files :: "string docs"
  fs_env :: "nat \<Rightarrow> tick"
  fs_at :: nat

record fs_lib =
  list_under :: "string docs \<Rightarrow> string \<Rightarrow> string list"
  missing_text :: "string \<Rightarrow> string"

definition tick_of :: "(tick \<Rightarrow> 'a) \<Rightarrow> (fs, dest_failure, 'a) action" where
  "tick_of f s = (Inr (f (fs_env s (fs_at s))), s\<lparr>fs_at := Suc (fs_at s)\<rparr>)"

definition failure_of :: "doc_error \<Rightarrow> dest_failure" where
  "failure_of e = (case e of StaleDocVersion name \<Rightarrow> FatalFailure (stale_text name) | DocFailure f \<Rightarrow> f)"

definition io :: "(string docs \<Rightarrow> (doc_error, 'a) result \<times> string docs) \<Rightarrow> (fs, dest_failure, 'a) action" where
  "io call s =
     (case faulty (tk_fault (fs_env s (fs_at s))) call (fs_files s) of
        (r, m) \<Rightarrow> (map_err failure_of r, s\<lparr>fs_files := m, fs_at := Suc (fs_at s)\<rparr>))"

definition touch :: "(fs, dest_failure, unit) action" where
  "touch = io (\<lambda>m. (Inr (), m))"

definition put_file :: "string \<Rightarrow> string \<Rightarrow> (fs, dest_failure, unit) action" where
  "put_file name bytes = io (\<lambda>m. (Inr (), m(name \<mapsto> bytes)))"

definition get_file :: "string \<Rightarrow> (fs, dest_failure, string option) action" where
  "get_file name = io (\<lambda>m. (Inr (m name), m))"

definition remove_if_present :: "string \<Rightarrow> (fs, dest_failure, unit) action" where
  "remove_if_present name = io (\<lambda>m. (Inr (), m(name := None)))"

definition absent :: "fs_lib \<Rightarrow> string \<Rightarrow> doc_error" where
  "absent fl name = DocFailure (FatalFailure (missing_text fl name))"

definition remove_file :: "fs_lib \<Rightarrow> string \<Rightarrow> (fs, dest_failure, unit) action" where
  "remove_file fl name = io (\<lambda>m. if m name = None then (Inl (absent fl name), m) else (Inr (), m(name := None)))"

definition open_file :: "fs_lib \<Rightarrow> string \<Rightarrow> (fs, dest_failure, unit) action" where
  "open_file fl name = io (\<lambda>m. if m name = None then (Inl (absent fl name), m) else (Inr (), m))"

definition rename_file :: "fs_lib \<Rightarrow> string \<Rightarrow> string \<Rightarrow> (fs, dest_failure, unit) action" where
  "rename_file fl a b = io (\<lambda>m. case m a of
     None \<Rightarrow> (Inl (absent fl a), m) | Some bytes \<Rightarrow> (Inr (), (m(a := None))(b \<mapsto> bytes)))"

definition copy_file :: "fs_lib \<Rightarrow> string \<Rightarrow> string \<Rightarrow> (fs, dest_failure, unit) action" where
  "copy_file fl a b = io (\<lambda>m. case m a of
     None \<Rightarrow> (Inl (absent fl a), m) | Some bytes \<Rightarrow> (Inr (), m(b \<mapsto> bytes)))"

definition list_files :: "fs_lib \<Rightarrow> string \<Rightarrow> (fs, dest_failure, string list) action" where
  "list_files fl dir = io (\<lambda>m. (Inr (list_under fl m dir), m))"

section \<open>kind.rs\<close>

definition staging_root :: "string \<Rightarrow> string" where
  "staging_root scope = STAGING_DIR @ ''/'' @ scope"

text \<open>\<open>Path::exists\<close> is false on an error.\<close>

definition exists_dir :: "fs_lib \<Rightarrow> string \<Rightarrow> (fs, dest_failure, bool) action" where
  "exists_dir fl dir s =
     (case list_files fl dir s of (Inl _, s') \<Rightarrow> (Inr False, s') | (Inr names, s') \<Rightarrow> (Inr (names \<noteq> []), s'))"

definition prepare_staging :: "fs_lib \<Rightarrow> location_arm \<Rightarrow> string \<Rightarrow> (fs, dest_failure, unit) action" where
  "prepare_staging fl arm scope =
     (case arm of
        S3Arm \<Rightarrow> abind (list_files fl (staging_root scope)) (aeach remove_if_present)
      | LocalArm \<Rightarrow>
          abind (exists_dir fl (staging_root scope)) (\<lambda>there.
          abind (if there then abind (list_files fl (staging_root scope)) (aeach (remove_file fl)) else aret ()) (\<lambda>_.
          touch)))"

definition stage_put :: "location_arm \<Rightarrow> string \<Rightarrow> string \<Rightarrow> (fs, dest_failure, unit) action" where
  "stage_put arm tail bytes =
     (case arm of LocalArm \<Rightarrow> abind touch (\<lambda>_. put_file tail bytes) | S3Arm \<Rightarrow> put_file tail bytes)"

definition stage_remove :: "string \<Rightarrow> (fs, dest_failure, unit) action" where
  "stage_remove tail s = (Inr (), snd (remove_if_present tail s))"

definition publish_part :: "fs_lib \<Rightarrow> location_arm \<Rightarrow> string \<Rightarrow> string \<Rightarrow> (fs, dest_failure, unit) action" where
  "publish_part fl arm staged final =
     (case arm of
        LocalArm \<Rightarrow> abind touch (\<lambda>_. abind (open_file fl staged) (\<lambda>_. rename_file fl staged final))
      | S3Arm \<Rightarrow> abind (copy_file fl staged final) (\<lambda>_. remove_if_present staged))"

definition sync_dir :: "location_arm \<Rightarrow> (fs, dest_failure, unit) action" where
  "sync_dir arm = (case arm of S3Arm \<Rightarrow> aret () | LocalArm \<Rightarrow> touch)"

definition write_doc :: "fs_lib \<Rightarrow> location_arm \<Rightarrow> string \<Rightarrow> (string, string) result \<Rightarrow> (fs, dest_failure, unit) action" where
  "write_doc fl arm name text =
     abind (alift (map_err FatalFailure text)) (\<lambda>body.
     case arm of
       LocalArm \<Rightarrow>
         abind (put_file (name @ ''.tmp'') body) (\<lambda>_.
         abind (rename_file fl (name @ ''.tmp'') name) (\<lambda>_. touch))
     | S3Arm \<Rightarrow> put_file name body)"

fun trim_slashes :: "string \<Rightarrow> string" where
  "trim_slashes s = (if s \<noteq> [] \<and> last s = CHR ''/'' then trim_slashes (butlast s) else s)"

declare trim_slashes.simps [simp del]

definition tail_under_root :: "string \<Rightarrow> string \<Rightarrow> (dest_failure, string option) result" where
  "tail_under_root rt key =
     (case strip_prefix rt key of
        Some tail \<Rightarrow> Inr (Some tail)
      | None \<Rightarrow>
          if key = trim_slashes rt then Inr None
          else Inl (FatalFailure (''listing returned key `'' @ key @ ''`, which is not under the prefix `'' @ rt
            @ ''` it was listed by'')))"

text \<open>The local listing walks the table's directory, so its tails are relative already.\<close>

definition keys_of_table :: "fs_lib \<Rightarrow> location_arm \<Rightarrow> string \<Rightarrow> (fs, dest_failure, string list) action" where
  "keys_of_table fl arm t =
     abind (list_files fl t) (\<lambda>names.
       case arm of
         LocalArm \<Rightarrow> aret (map (drop (length t + 1)) names)
       | S3Arm \<Rightarrow> alift (rbind (traverse (tail_under_root (t @ ''/'')) names) (\<lambda>tails. Inr (List.map_filter id tails))))"

definition delete_table_file :: "fs_lib \<Rightarrow> location_arm \<Rightarrow> string \<Rightarrow> string \<Rightarrow> (fs, dest_failure, unit) action" where
  "delete_table_file fl arm t tail =
     (case arm of LocalArm \<Rightarrow> remove_file fl (t @ ''/'' @ tail) | S3Arm \<Rightarrow> remove_if_present (t @ ''/'' @ tail))"

definition truncated_tail :: "bool \<Rightarrow> string \<Rightarrow> bool" where
  "truncated_tail frozen tail \<longleftrightarrow> owns tail \<or> frozen \<and> plain_top_level_parquet tail"

definition truncate_table :: "fs_lib \<Rightarrow> location_arm \<Rightarrow> string \<Rightarrow> bool \<Rightarrow> (fs, dest_failure, nat) action" where
  "truncate_table fl arm t frozen =
     abind (keys_of_table fl arm t) (\<lambda>tails.
       let ours = filter (truncated_tail frozen) tails in
       abind (aeach (delete_table_file fl arm t) ours) (\<lambda>_. aret (length ours)))"

section \<open>stage.rs\<close>

text \<open>A record batch: its schema and rows.\<close>

record ('s, 'r) fbatch =
  fb_schema :: 's
  fb_rows :: "'r list"

text \<open>
  Arrow's and Parquet's part: the column names of a schema, a row's cell as text (\<open>None\<close> for
  null), the writer \<open>'w\<close> and the JSON lines of a batch. Selecting rows of a batch cannot fail.
\<close>

record ('w, 's, 'r) part_lib =
  column_names :: "'s \<Rightarrow> string list"
  debug_names :: "string list \<Rightarrow> string"
  formatter_new :: "'s \<Rightarrow> nat \<Rightarrow> (string, unit) result"
  cell_text :: "'s \<Rightarrow> nat \<Rightarrow> 'r \<Rightarrow> (string, string option) result"
  writer_new :: "'s \<Rightarrow> (string, 'w) result"
  writer_write :: "'w \<Rightarrow> 'r list \<Rightarrow> (string, 'w) result"
  writer_len :: "'w \<Rightarrow> nat"
  writer_into :: "'w \<Rightarrow> (string, string) result"
  json_lines :: "'s \<Rightarrow> 'r list \<Rightarrow> (string, string) result"

fun index_of :: "'a \<Rightarrow> 'a list \<Rightarrow> nat option" where
  "index_of x [] = None"
| "index_of x (y # ys) = (if y = x then Some 0 else map_option Suc (index_of x ys))"

definition partition_slug ::
    "('w, 's, 'r) part_lib \<Rightarrow> 's \<Rightarrow> nat \<Rightarrow> nat \<times> 'r \<Rightarrow> (dest_failure, string \<times> 'r) result" where
  "partition_slug pl schema column = (\<lambda>(row, cells).
     let at_row = (\<lambda>e. FatalFailure (''partition value at row '' @ show_nat row @ '': '' @ e)) in
     rbind (map_err at_row (cell_text pl schema column cells)) (\<lambda>text.
     if row \<ge> 2 ^ 32 then Inl (at_row ''out of range integral type conversion attempted'')
     else Inr (case text of None \<Rightarrow> NULL_PARTITION | Some v \<Rightarrow> encode_partition_value v, cells)))"

text \<open>\<open>groups.entry(slug).or_default().push(row)\<close>\<close>

definition group_rows :: "(string \<times> 'r) list \<Rightarrow> (string \<times> 'r list) list" where
  "group_rows rows =
     foldl (\<lambda>g (slug, r). btree_insert slug ((case map_of g slug of Some rs \<Rightarrow> rs | None \<Rightarrow> []) @ [r]) g) [] rows"

definition split_partitions ::
    "('w, 's, 'r) part_lib \<Rightarrow> string \<Rightarrow> ('s, 'r) fbatch \<Rightarrow> string option
      \<Rightarrow> (dest_failure, (string option \<times> ('s, 'r) fbatch) list) result" where
  "split_partitions pl t b partition_by =
     (case partition_by of
        None \<Rightarrow> Inr [(None, b)]
      | Some column \<Rightarrow>
          (case index_of column (column_names pl (fb_schema b)) of
             None \<Rightarrow> Inl (FatalFailure (''partition_by column `'' @ column @ ''` does not exist in stream `'' @ t
               @ ''` (columns: '' @ debug_names pl (column_names pl (fb_schema b)) @ '')''))
           | Some index \<Rightarrow>
               rbind (map_err (\<lambda>e. FatalFailure (''partition column `'' @ column @ ''`: '' @ e))
                 (formatter_new pl (fb_schema b) index)) (\<lambda>_.
               rbind (traverse (partition_slug pl (fb_schema b) index) (enumerate 0 (fb_rows b))) (\<lambda>slugs.
               Inr (map (\<lambda>(slug, rows). (Some slug, b\<lparr>fb_rows := rows\<rparr>)) (group_rows slugs))))))"

datatype ('w, 's) open_part = OpenParquet 'w 's | OpenJsonl string

definition encoded_len :: "('w, 's, 'r) part_lib \<Rightarrow> ('w, 's) open_part \<Rightarrow> nat" where
  "encoded_len pl p = (case p of OpenParquet w _ \<Rightarrow> writer_len pl w | OpenJsonl buffer \<Rightarrow> length buffer)"

definition parquet_failure :: "string \<Rightarrow> dest_failure" where
  "parquet_failure e = FatalFailure (''parquet encode: '' @ e)"

definition part_begin ::
    "('w, 's, 'r) part_lib \<Rightarrow> dest_format \<Rightarrow> ('s, 'r) fbatch \<Rightarrow> (dest_failure, ('w, 's) open_part) result" where
  "part_begin pl f b =
     (case f of
        Parquet \<Rightarrow> rbind (map_err parquet_failure (writer_new pl (fb_schema b))) (\<lambda>w. Inr (OpenParquet w (fb_schema b)))
      | Jsonl \<Rightarrow> Inr (OpenJsonl []))"

definition schema_differs :: "('w, 's) open_part \<Rightarrow> ('s, 'r) fbatch \<Rightarrow> bool" where
  "schema_differs p b = (case p of OpenParquet _ schema \<Rightarrow> schema \<noteq> fb_schema b | OpenJsonl _ \<Rightarrow> False)"

definition part_append ::
    "('w, 's, 'r) part_lib \<Rightarrow> ('w, 's) open_part \<Rightarrow> ('s, 'r) fbatch \<Rightarrow> (dest_failure, ('w, 's) open_part) result" where
  "part_append pl p b =
     (case p of
        OpenParquet w schema \<Rightarrow> rbind (map_err parquet_failure (writer_write pl w (fb_rows b))) (\<lambda>w'. Inr (OpenParquet w' schema))
      | OpenJsonl buffer \<Rightarrow>
          rbind (map_err (\<lambda>e. FatalFailure (''jsonl encode: '' @ e)) (json_lines pl (fb_schema b) (fb_rows b)))
            (\<lambda>text. Inr (OpenJsonl (buffer @ text))))"

definition part_finish :: "('w, 's, 'r) part_lib \<Rightarrow> ('w, 's) open_part \<Rightarrow> (dest_failure, string) result" where
  "part_finish pl p =
     (case p of
        OpenParquet w _ \<Rightarrow> map_err parquet_failure (writer_into pl w)
      | OpenJsonl buffer \<Rightarrow> Inr buffer)"

section \<open>load.rs\<close>

record staged_part =
  sp_table :: string
  sp_dir :: "string option"
  sp_index :: nat
  sp_tail :: string

type_synonym part_key = "string \<times> string option"

record ('w, 's) file_load =
  fl_arm :: location_arm
  fl_format :: dest_format
  fl_partition_by :: "string option"
  fl_scope :: string
  fl_load :: string
  fl_tables :: "(string \<times> write_mode) list"
  fl_staged :: "staged_part list"
  fl_parts :: part_options
  fl_open :: "(part_key \<times> (('w, 's) open_part \<times> nat)) list"
  fl_lease :: "string lease_wiring option"

type_synonym ('w, 's, 'a) file_action = "(('w, 's) file_load \<times> fs, dest_failure, 'a) action"

definition on_fs :: "(fs, dest_failure, 'a) action \<Rightarrow> ('w, 's, 'a) file_action" where
  "on_fs m s = (case m (snd s) of (r, d) \<Rightarrow> (r, (fst s, d)))"

definition on_load :: "(('w, 's) file_load \<Rightarrow> ('w, 's, 'a) file_action) \<Rightarrow> ('w, 's, 'a) file_action" where
  "on_load k s = k (fst s) s"

definition set_load :: "(('w, 's) file_load \<Rightarrow> ('w, 's) file_load) \<Rightarrow> ('w, 's, unit) file_action" where
  "set_load f s = (Inr (), (f (fst s), snd s))"

definition read_log :: "doc_json \<Rightarrow> string \<Rightarrow> (fs, dest_failure, commit_log) action" where
  "read_log js scope =
     abind (get_file (commits_file scope)) (\<lambda>bytes. alift (log_decode js bytes (commits_file scope)))"

definition check_lease_still_held :: "('w, 's, unit) file_action" where
  "check_lease_still_held = on_load (\<lambda>l.
     case fl_lease l of
       Some w \<Rightarrow> abind (on_fs (tick_of (\<lambda>t. (tk_wall_ms t, tk_evidence t)))) (\<lambda>(clk, ev). alift (check_still_held w clk ev))
     | None \<Rightarrow> afail (FatalFailure ''the destination session is closed; writes after close are a host defect''))"

definition is_staged_for :: "part_key \<Rightarrow> staged_part \<Rightarrow> bool" where
  "is_staged_for key p \<longleftrightarrow> (sp_table p, sp_dir p) = key"

definition close_part :: "('w, 's, 'r) part_lib \<Rightarrow> part_key \<Rightarrow> ('w, 's, unit) file_action" where
  "close_part pl key = on_load (\<lambda>l.
     case map_of (fl_open l) key of
       None \<Rightarrow> aret ()
     | Some (part, _) \<Rightarrow>
         abind (set_load (\<lambda>l. l\<lparr>fl_open := filter (\<lambda>e. fst e \<noteq> key) (fl_open l)\<rparr>)) (\<lambda>_.
         abind (alift (part_finish pl part)) (\<lambda>bytes.
         if bytes = [] then aret ()
         else
           let index = length (filter (is_staged_for key) (fl_staged l));
               tail = staging_tail (fl_scope l) (fl_load l) (staged_name (fst key) (snd key) index (extension (fl_format l))) in
           abind (on_fs (stage_put (fl_arm l) tail bytes)) (\<lambda>_.
           set_load (\<lambda>l. l\<lparr>fl_staged := fl_staged l @
             [\<lparr>sp_table = fst key, sp_dir = snd key, sp_index = index, sp_tail = tail\<rparr>]\<rparr>)))))"

definition open_bytes :: "('w, 's, 'r) part_lib \<Rightarrow> ('w, 's) file_load \<Rightarrow> nat" where
  "open_bytes pl l = sum_list (map (\<lambda>(_, part, _). encoded_len pl part) (fl_open l))"

text \<open>\<open>max_by_key\<close> takes the last of several greatest.\<close>

fun largest_open :: "('w, 's, 'r) part_lib \<Rightarrow> (part_key \<times> (('w, 's) open_part \<times> nat)) list \<Rightarrow> (part_key \<times> nat) option" where
  "largest_open pl [] = None"
| "largest_open pl ((key, part, _) # es) =
     (case largest_open pl es of
        Some (k, n) \<Rightarrow> Some (if n \<ge> encoded_len pl part then (k, n) else (key, encoded_len pl part))
      | None \<Rightarrow> Some (key, encoded_len pl part))"

fun enforce_open_budget :: "('w, 's, 'r) part_lib \<Rightarrow> nat \<Rightarrow> ('w, 's, unit) file_action" where
  "enforce_open_budget pl 0 = aret ()"
| "enforce_open_budget pl (Suc fuel) = on_load (\<lambda>l.
     if \<not> over_budget (fl_parts l) (open_bytes pl l) then aret ()
     else
       case largest_open pl (fl_open l) of
         None \<Rightarrow> aret ()
       | Some (key, _) \<Rightarrow> abind (close_part pl key) (\<lambda>_. enforce_open_budget pl fuel))"

definition close_all_parts :: "('w, 's, 'r) part_lib \<Rightarrow> ('w, 's, unit) file_action" where
  "close_all_parts pl = on_load (\<lambda>l. aeach (close_part pl) (map fst (fl_open l)))"

definition frozen_plain_parquet :: "('w, 's) file_load \<Rightarrow> bool" where
  "frozen_plain_parquet l \<longleftrightarrow> fl_arm l = LocalArm \<and> fl_format l = Parquet \<and> fl_partition_by l = None"

definition file_ensure_table :: "table_schema \<Rightarrow> write_mode \<Rightarrow> ('w, 's, unit) file_action" where
  "file_ensure_table schema mode =
     (case mode of
        Merge _ \<Rightarrow> afail (FatalFailure ''file destination does not support Merge (capabilities.merge = false)'')
      | _ \<Rightarrow> on_load (\<lambda>l.
          abind (if fl_arm l = LocalArm then amap_err (\<lambda>e. case e of
                   FatalFailure s \<Rightarrow> FatalFailure (''ensure_table: '' @ s) | TransientFailure s \<Rightarrow> FatalFailure (''ensure_table: '' @ s))
                   (on_fs touch)
                 else aret ()) (\<lambda>_.
          set_load (\<lambda>l. l\<lparr>fl_tables := btree_insert (sch_table schema) mode (fl_tables l)\<rparr>))))"

definition write_group ::
    "('w, 's, 'r) part_lib \<Rightarrow> string \<Rightarrow> string option \<times> ('s, 'r) fbatch \<Rightarrow> ('w, 's, unit) file_action" where
  "write_group pl t = (\<lambda>(dir, group).
     let key = (t, dir) in
     abind (on_load (\<lambda>l. case map_of (fl_open l) key of
         Some (part, _) \<Rightarrow> if schema_differs part group then close_part pl key else aret ()
       | None \<Rightarrow> aret ())) (\<lambda>_. on_load (\<lambda>l.
     abind (case map_of (fl_open l) key of
         Some existing \<Rightarrow> abind (set_load (\<lambda>l. l\<lparr>fl_open := filter (\<lambda>e. fst e \<noteq> key) (fl_open l)\<rparr>)) (\<lambda>_. aret existing)
       | None \<Rightarrow> abind (alift (part_begin pl (fl_format l) group)) (\<lambda>part.
           abind (on_fs (tick_of tk_clock)) (\<lambda>now. aret (part, now)))) (\<lambda>(part, opened_at).
     abind (alift (part_append pl part group)) (\<lambda>part.
     abind (set_load (\<lambda>l. l\<lparr>fl_open := btree_insert key (part, opened_at) (fl_open l)\<rparr>)) (\<lambda>_.
     abind (on_fs (tick_of tk_clock)) (\<lambda>now.
     if should_roll (fl_parts l) (encoded_len pl part) (now - opened_at) then close_part pl key else aret ())))))))"

definition file_write :: "('w, 's, 'r) part_lib \<Rightarrow> string \<Rightarrow> ('s, 'r) fbatch \<Rightarrow> ('w, 's, unit) file_action" where
  "file_write pl t b =
     abind check_lease_still_held (\<lambda>_. on_load (\<lambda>l.
     abind (alift (split_partitions pl t b (fl_partition_by l))) (\<lambda>groups.
     abind (aeach (write_group pl t) groups) (\<lambda>_. on_load (\<lambda>l.
     enforce_open_budget pl (Suc (length (fl_open l))))))))"

definition file_existing_receipt :: "doc_json \<Rightarrow> string \<Rightarrow> 64 word \<Rightarrow> ('w, 's, (string \<times> 64 word) option) file_action" where
  "file_existing_receipt js load seq = on_load (\<lambda>l.
     abind (on_fs (read_log js (fl_scope l))) (\<lambda>log.
     aret (if (load, seq) \<in> set (cl_receipts log) then Some (load, seq) else None)))"

definition file_replay :: "('w, 's, unit) file_action" where
  "file_replay =
     abind (set_load (\<lambda>l. l\<lparr>fl_open := []\<rparr>)) (\<lambda>_. on_load (\<lambda>l.
     abind (set_load (\<lambda>l. l\<lparr>fl_staged := []\<rparr>)) (\<lambda>_.
     aeach (\<lambda>p. on_fs (stage_remove (sp_tail p))) (fl_staged l))))"

definition final_of :: "('w, 's) file_load \<Rightarrow> commit_meta \<Rightarrow> staged_part \<Rightarrow> string" where
  "final_of l meta p = final_tail (sp_table p) (sp_dir p) (meta_load meta) (meta_seq meta) (sp_index p) (extension (fl_format l))"

text \<open>A \<open>BTreeSet<String>\<close> in its order.\<close>

definition btree_set :: "string list \<Rightarrow> string list" where
  "btree_set xs = sort (remdups xs)"

text \<open>The names an earlier attempt at this unit meant to publish and this one does not.\<close>

definition stale_names :: "commit_meta \<Rightarrow> string list \<Rightarrow> manifest option \<Rightarrow> string list" where
  "stale_names meta new prior =
     (case prior of
        Some m \<Rightarrow> if mf_load m = meta_load meta \<and> mf_seq m = meta_seq meta then filter (\<lambda>n. n \<notin> set new) (mf_names m) else []
      | None \<Rightarrow> [])"

definition truncate_replaced :: "fs_lib \<Rightarrow> ('w, 's, unit) file_action" where
  "truncate_replaced fl = on_load (\<lambda>l.
     aeach (\<lambda>t. abind (on_fs (truncate_table fl (fl_arm l) t (frozen_plain_parquet l))) (\<lambda>_. aret ()))
       (map fst (filter (\<lambda>(_, mode). mode = Replace) (fl_tables l))))"

definition publish_staged :: "fs_lib \<Rightarrow> commit_meta \<Rightarrow> ('w, 's, unit) file_action" where
  "publish_staged fl meta = on_load (\<lambda>l.
     abind (set_load (\<lambda>l. l\<lparr>fl_staged := []\<rparr>)) (\<lambda>_.
     aeach (\<lambda>p. on_fs (publish_part fl (fl_arm l) (sp_tail p) (final_of l meta p))) (fl_staged l)))"

definition parent_dir :: "string \<Rightarrow> string option" where
  "parent_dir name = map_option fst (rsplit_once CHR ''/'' name)"

definition touched_dirs :: "string list \<Rightarrow> staged_part list \<Rightarrow> string list" where
  "touched_dirs stale parts =
     btree_set (List.map_filter parent_dir stale
       @ concat (map (\<lambda>p. sp_table p # (case sp_dir p of Some d \<Rightarrow> [sp_table p @ ''/'' @ d] | None \<Rightarrow> [])) parts))"

text \<open>\<open>publish\<close> once the parts are closed and the receipts read.\<close>

definition publish_parts :: "fs_lib \<Rightarrow> doc_json \<Rightarrow> commit_meta \<Rightarrow> ('w, 's) file_load \<Rightarrow> commit_log \<Rightarrow> ('w, 's, string \<times> 64 word) file_action" where
  "publish_parts fl js meta l log =
     abind (if meta_load meta \<notin> fst ` set (cl_receipts log) then truncate_replaced fl else aret ()) (\<lambda>_.
     let new = btree_set (map (final_of l meta) (fl_staged l)); doc = manifest_file (fl_scope l) in
     abind (on_fs (get_file doc)) (\<lambda>bytes.
     abind (alift (manifest_decode js bytes doc)) (\<lambda>prior.
     let stale = stale_names meta new prior in
     abind (aeach (\<lambda>n. on_fs (remove_if_present n)) stale) (\<lambda>_.
     abind (on_fs (write_doc fl (fl_arm l) doc (manifest_text js
       \<lparr>mf_format_version = LAYOUT_FORMAT_VERSION, mf_load = meta_load meta, mf_seq = meta_seq meta, mf_names = new\<rparr>))) (\<lambda>_.
     abind (publish_staged fl meta) (\<lambda>_.
     abind (if fl_arm l = LocalArm then aeach (\<lambda>_. on_fs (sync_dir (fl_arm l))) (touched_dirs stale (fl_staged l)) else aret ()) (\<lambda>_.
     abind (on_fs (write_doc fl (fl_arm l) (state_file (fl_scope l)) (meta_doc meta))) (\<lambda>_.
     abind (on_fs (write_doc fl (fl_arm l) (commits_file (fl_scope l)) (log_text js
       \<lparr>cl_format_version = LAYOUT_FORMAT_VERSION, cl_receipts = cl_receipts log @ [(meta_load meta, meta_seq meta)]\<rparr>))) (\<lambda>_.
     aret (meta_load meta, meta_seq meta))))))))))"

definition file_publish :: "fs_lib \<Rightarrow> ('w, 's, 'r) part_lib \<Rightarrow> doc_json \<Rightarrow> commit_meta \<Rightarrow> ('w, 's, string \<times> 64 word) file_action" where
  "file_publish fl pl js meta =
     abind check_lease_still_held (\<lambda>_.
     abind (close_all_parts pl) (\<lambda>_. on_load (\<lambda>l.
     abind (on_fs (read_log js (fl_scope l))) (publish_parts fl js meta l))))"

text \<open>\<open>serde_json::from_slice\<close> of a state, with its pipeline, is the argument \<open>parse\<close>.\<close>

definition file_read_state ::
    "core_env \<Rightarrow> (string \<Rightarrow> (string, string \<times> 'x) result) \<Rightarrow> string \<Rightarrow> ('w, 's, 'x option) file_action" where
  "file_read_state env parse pipeline =
     (let file = state_file (scope_of env pipeline) in
      abind (on_fs (get_file file)) (\<lambda>bytes.
      case bytes of
        None \<Rightarrow> aret None
      | Some b \<Rightarrow>
          (case parse b of
             Inl e \<Rightarrow> afail (FatalFailure (''unreadable state `'' @ file @ ''`: '' @ e))
           | Inr (p, state) \<Rightarrow> aret (if p = pipeline then Some state else None))))"

text \<open>\<open>Load::open\<close> once its lease is acquired.\<close>

definition file_open ::
    "fs_lib \<Rightarrow> location_arm \<Rightarrow> dest_format \<Rightarrow> string option \<Rightarrow> string \<Rightarrow> string \<Rightarrow> part_options \<Rightarrow> string lease_wiring
      \<Rightarrow> (fs, dest_failure, ('w, 's) file_load) action" where
  "file_open fl arm f partition_by scope load parts lease =
     abind (prepare_staging fl arm scope) (\<lambda>_. aret
       \<lparr>fl_arm = arm, fl_format = f, fl_partition_by = partition_by, fl_scope = scope, fl_load = load, fl_tables = [],
        fl_staged = [], fl_parts = parts, fl_open = [], fl_lease = Some lease\<rparr>)"

end
