(* ===== verification/File_Parts.thy ===== *)
theory File_Parts
  imports File_Load "HOL-Library.Multiset"
begin

text \<open>
  What a file session holds: the rows of its staged and open parts are the rows written to it,
  whatever rolls, schema changes and memory ceilings divide them into; and before it publishes,
  it changes no name outside the staging directory.
\<close>

section \<open>Files and rows\<close>

text \<open>
  \<open>rd f bytes\<close>: the rows a file of format \<open>f\<close> holds, as their images \<open>img f\<close>; \<open>held\<close>: the
  rows a Parquet writer has taken.
\<close>

definition whole_lines :: "string \<Rightarrow> bool" where
  "whole_lines buffer \<longleftrightarrow> buffer = [] \<or> last buffer = CHR 0x0A"

definition part_ok ::
    "('w, 's, 'r) part_lib \<Rightarrow> (dest_format \<Rightarrow> string \<Rightarrow> 'x list) \<Rightarrow> (dest_format \<Rightarrow> 'r \<Rightarrow> 'x) \<Rightarrow> ('w \<Rightarrow> 'x list) \<Rightarrow> bool" where
  "part_ok pl rd img held \<longleftrightarrow>
     (\<forall>f. rd f [] = []) \<and>
     (\<forall>s w. writer_new pl s = Inr w \<longrightarrow> held w = []) \<and>
     (\<forall>w rows w'. writer_write pl w rows = Inr w' \<longrightarrow> held w' = held w @ map (img Parquet) rows) \<and>
     (\<forall>w b. writer_into pl w = Inr b \<longrightarrow> rd Parquet b = held w) \<and>
     (\<forall>s rows text buffer. json_lines pl s rows = Inr text \<longrightarrow> whole_lines buffer \<longrightarrow>
        whole_lines (buffer @ text) \<and> rd Jsonl (buffer @ text) = rd Jsonl buffer @ map (img Jsonl) rows)"

definition part_rows :: "(dest_format \<Rightarrow> string \<Rightarrow> 'x list) \<Rightarrow> ('w \<Rightarrow> 'x list) \<Rightarrow> ('w, 's) open_part \<Rightarrow> 'x multiset" where
  "part_rows rd held p = mset (case p of OpenParquet w _ \<Rightarrow> held w | OpenJsonl buffer \<Rightarrow> rd Jsonl buffer)"

definition part_format :: "('w, 's) open_part \<Rightarrow> dest_format" where
  "part_format p = (case p of OpenParquet _ _ \<Rightarrow> Parquet | OpenJsonl _ \<Rightarrow> Jsonl)"

definition part_whole :: "('w, 's) open_part \<Rightarrow> bool" where
  "part_whole p \<longleftrightarrow> (case p of OpenParquet _ _ \<Rightarrow> True | OpenJsonl buffer \<Rightarrow> whole_lines buffer)"

lemma part_okD:
  assumes "part_ok pl rd img held"
  shows "rd f [] = []" "writer_new pl s = Inr w \<Longrightarrow> held w = []"
    "writer_write pl w rows = Inr w' \<Longrightarrow> held w' = held w @ map (img Parquet) rows"
    "writer_into pl w = Inr b \<Longrightarrow> rd Parquet b = held w"
    "json_lines pl s rows = Inr text \<Longrightarrow> whole_lines buffer \<Longrightarrow>
      whole_lines (buffer @ text) \<and> rd Jsonl (buffer @ text) = rd Jsonl buffer @ map (img Jsonl) rows"
  using assms unfolding part_ok_def by blast+

lemma part_begin_rows:
  assumes "part_ok pl rd img held" and "part_begin pl f b = Inr p"
  shows "part_rows rd held p = {#} \<and> part_format p = f \<and> part_whole p"
proof (cases f)
  case Parquet
  with assms(2) obtain w where "writer_new pl (fb_schema b) = Inr w" "p = OpenParquet w (fb_schema b)"
    by (auto simp: part_begin_def rbind_eq_Inr)
  with Parquet part_okD(2) [OF assms(1)] show ?thesis by (simp add: part_rows_def part_format_def part_whole_def)
next
  case Jsonl
  with assms(2) part_okD(1) [OF assms(1)] show ?thesis
    by (auto simp: part_begin_def part_rows_def part_format_def part_whole_def whole_lines_def)
qed

lemma part_append_rows:
  assumes "part_ok pl rd img held" and "part_append pl p b = Inr p'" and "part_whole p"
  shows "part_rows rd held p' = part_rows rd held p + mset (map (img (part_format p)) (fb_rows b))
    \<and> part_format p' = part_format p \<and> part_whole p'"
proof (cases p)
  case (OpenParquet w schema)
  with assms(2) obtain w' where "writer_write pl w (fb_rows b) = Inr w'" "p' = OpenParquet w' schema"
    by (auto simp: part_append_def rbind_eq_Inr)
  with OpenParquet part_okD(3) [OF assms(1)] show ?thesis by (simp add: part_rows_def part_format_def part_whole_def)
next
  case (OpenJsonl buffer)
  with assms(2) obtain ls where "json_lines pl (fb_schema b) (fb_rows b) = Inr ls" "p' = OpenJsonl (buffer @ ls)"
    by (auto simp: part_append_def rbind_eq_Inr)
  with OpenJsonl assms(3) part_okD(5) [OF assms(1)] show ?thesis by (simp add: part_rows_def part_format_def part_whole_def)
qed

lemma part_finish_rows:
  assumes "part_ok pl rd img held" and "part_finish pl p = Inr bytes"
  shows "mset (rd (part_format p) bytes) = part_rows rd held p"
  using assms(2) part_okD(4) [OF assms(1)] by (cases p) (auto simp: part_finish_def part_rows_def part_format_def)

section \<open>Partition groups\<close>

definition group_step :: "(string \<times> 'r list) list \<Rightarrow> string \<times> 'r \<Rightarrow> (string \<times> 'r list) list" where
  "group_step g = (\<lambda>(slug, r). btree_insert slug ((case map_of g slug of Some rs \<Rightarrow> rs | None \<Rightarrow> []) @ [r]) g)"

lemma btree_insert_sum:
  fixes w :: "'k :: linorder \<Rightarrow> 'v \<Rightarrow> 'm :: comm_monoid_add"
  assumes "btree m" and "map_of m k = None"
  shows "sum_list (map (\<lambda>(k, v). w k v) (btree_insert k v m)) = w k v + sum_list (map (\<lambda>(k, v). w k v) m)"
  using assms by (induction k v m rule: btree_insert.induct) (auto simp: ac_simps split: if_splits)

lemma btree_update_sum:
  fixes w :: "'k :: linorder \<Rightarrow> 'v \<Rightarrow> 'm :: comm_monoid_add"
  assumes "btree m" and "map_of m k = Some u" and "w k v = w k u + d"
  shows "sum_list (map (\<lambda>(k, v). w k v) (btree_insert k v m)) = sum_list (map (\<lambda>(k, v). w k v) m) + d"
  using assms
proof (induction k v m rule: btree_insert.induct)
  case (2 k v k' v' m)
  show ?case
  proof (cases "k = k'")
    case True
    with 2 show ?thesis by (simp add: ac_simps)
  next
    case False
    with "2.prems" have "map_of m k = Some u" by simp
    then have "k \<in> fst ` set m" by (metis map_of_eq_None_iff option.distinct(1))
    with "2.prems"(1) have "k' < k" by auto
    then have "\<not> k < k'" by simp
    with False 2 \<open>map_of m k = Some u\<close> show ?thesis by (simp add: ac_simps)
  qed
qed simp

lemma group_rows_sum:
  assumes "btree g"
  shows "(let g' = foldl group_step g rows in btree g' \<and>
     sum_list (map (\<lambda>(_, rs). mset rs) g') = sum_list (map (\<lambda>(_, rs). mset rs) g) + mset (map snd rows)
     \<and> fst ` set g' \<subseteq> fst ` set g \<union> fst ` set rows)"
  using assms
proof (induction rows arbitrary: g)
  case (Cons row rows)
  obtain slug r where row: "row = (slug, r)" by (cases row)
  let ?g = "group_step g row"
  have b: "btree ?g" using Cons.prems row by (simp add: group_step_def btree_insert_btree)
  have keys: "fst ` set ?g = insert slug (fst ` set g)" using row by (simp add: group_step_def btree_insert_keys)
  have s: "sum_list (map (\<lambda>(_, rs). mset rs) ?g) = sum_list (map (\<lambda>(_, rs). mset rs) g) + {#r#}"
  proof (cases "map_of g slug")
    case None
    then show ?thesis using btree_insert_sum [OF Cons.prems None, of "\<lambda>_ rs. mset rs" "[r]"] row
      by (simp add: group_step_def)
  next
    case (Some rs)
    then show ?thesis using btree_update_sum [OF Cons.prems Some, of "\<lambda>_ rs. mset rs" "rs @ [r]" "{#r#}"] row
      by (simp add: group_step_def)
  qed
  let ?g' = "foldl group_step ?g rows"
  have IH: "btree ?g'" "sum_list (map (\<lambda>(_, rs). mset rs) ?g') = sum_list (map (\<lambda>(_, rs). mset rs) ?g) + mset (map snd rows)"
    "fst ` set ?g' \<subseteq> fst ` set ?g \<union> fst ` set rows"
    using Cons.IH [OF b] by (simp_all add: Let_def)
  have "fst ` set ?g' \<subseteq> fst ` set g \<union> fst ` set (row # rows)" using IH(3) keys row by auto
  with IH(1,2) s row show ?case by (simp add: Let_def)
qed simp

lemma group_rows_foldl: "group_rows rows = foldl group_step [] rows"
  by (simp add: group_rows_def group_step_def [abs_def])

definition dir_ok :: "string option \<Rightarrow> string option \<Rightarrow> bool" where
  "dir_ok partition_by dir \<longleftrightarrow> (dir = None \<longleftrightarrow> partition_by = None) \<and> (\<forall>p. dir = Some p \<longrightarrow> p \<noteq> [] \<and> CHR ''/'' \<notin> set p)"

lemma encode_partition_ok: "encode_partition_value v \<noteq> [] \<and> CHR ''/'' \<notin> set (encode_partition_value v)"
proof (cases "v = []")
  case False
  then show ?thesis by (rule encode_partition_shape) simp
qed (simp add: encode_partition_value_def)

lemma slug_ok:
  assumes "partition_slug pl schema column row = Inr (slug, r)"
  shows "slug \<noteq> [] \<and> CHR ''/'' \<notin> set slug \<and> r = snd row"
  using assms encode_partition_ok
  by (cases row) (auto simp: partition_slug_def Let_def rbind_eq_Inr NULL_PARTITION_def split: if_splits option.splits)

lemma traverse_list_all2: "traverse f xs = Inr ys \<Longrightarrow> list_all2 (\<lambda>x y. f x = Inr y) xs ys"
  by (induction xs arbitrary: ys) (auto simp: rbind_eq_Inr)

lemma split_partitions_rows:
  assumes "split_partitions pl t b partition_by = Inr groups"
  shows "sum_list (map (\<lambda>(_, group). mset (fb_rows group)) groups) = mset (fb_rows b)
    \<and> (\<forall>(dir, group) \<in> set groups. dir_ok partition_by dir)"
proof (cases partition_by)
  case None
  with assms show ?thesis by (auto simp: split_partitions_def dir_ok_def)
next
  case (Some column)
  with assms obtain index slugs where
    run: "traverse (partition_slug pl (fb_schema b) index) (enumerate 0 (fb_rows b)) = Inr slugs"
    and g: "groups = map (\<lambda>(slug, rows). (Some slug, b\<lparr>fb_rows := rows\<rparr>)) (group_rows slugs)"
    by (auto simp: split_partitions_def rbind_eq_Inr split: option.splits)
  note all = traverse_list_all2 [OF run]
  have rows: "map snd slugs = fb_rows b"
  proof (rule nth_equalityI)
    show "length (map snd slugs) = length (fb_rows b)" using all by (auto dest: list_all2_lengthD)
    fix i assume i: "i < length (map snd slugs)"
    with all have step: "partition_slug pl (fb_schema b) index (enumerate 0 (fb_rows b) ! i) = Inr (fst (slugs ! i), snd (slugs ! i))"
      and len: "i < length (fb_rows b)" by (auto simp: list_all2_conv_all_nth)
    from slug_ok [OF step] i len show "map snd slugs ! i = fb_rows b ! i" by (simp add: nth_enumerate_eq)
  qed
  have ok: "slug \<noteq> [] \<and> CHR ''/'' \<notin> set slug" if "slug \<in> fst ` set slugs" for slug
  proof -
    from that obtain i where i: "i < length slugs" "slug = fst (slugs ! i)" by (auto simp: in_set_conv_nth)
    with all have "partition_slug pl (fb_schema b) index (enumerate 0 (fb_rows b) ! i) = Inr (slugs ! i)"
      by (simp add: list_all2_conv_all_nth)
    with i(2) slug_ok [of pl "fb_schema b" index "enumerate 0 (fb_rows b) ! i" "fst (slugs ! i)" "snd (slugs ! i)"]
    show ?thesis by simp
  qed
  have "sum_list (map (\<lambda>(_, rs). mset rs) (group_rows slugs)) = mset (map snd slugs) \<and> fst ` set (group_rows slugs) \<subseteq> fst ` set slugs"
    using group_rows_sum [of "[]" slugs] by (simp add: Let_def group_rows_foldl)
  then have sum: "sum_list (map (\<lambda>(_, rs). mset rs) (group_rows slugs)) = mset (fb_rows b)"
    and keys: "fst ` set (group_rows slugs) \<subseteq> fst ` set slugs" using rows by auto
  have "dir_ok partition_by dir" if "(dir, group) \<in> set groups" for dir group
  proof -
    from that obtain slug rs where e: "dir = Some slug" "(slug, rs) \<in> set (group_rows slugs)" by (auto simp: g)
    then have "slug \<in> fst ` set slugs" using keys by force
    with ok e(1) Some show ?thesis by (auto simp: dir_ok_def)
  qed
  then have "\<forall>(dir, group) \<in> set groups. dir_ok partition_by dir" by blast
  moreover have "sum_list (map (\<lambda>(_, group). mset (fb_rows group)) groups) = mset (fb_rows b)"
    using sum by (simp add: g comp_def case_prod_unfold)
  ultimately show ?thesis by blast
qed

section \<open>A session's books\<close>

definition table_ok :: "string \<Rightarrow> bool" where
  "table_ok t \<longleftrightarrow> CHR ''/'' \<notin> set t \<and> t \<noteq> STAGING_DIR"

definition staging_name :: "string \<Rightarrow> bool" where
  "staging_name n \<longleftrightarrow> (\<exists>r. n = STAGING_DIR @ ''/'' @ r)"

definition same_load :: "('w, 's) file_load \<Rightarrow> ('w, 's) file_load \<Rightarrow> bool" where
  "same_load l0 l \<longleftrightarrow> fl_arm l = fl_arm l0 \<and> fl_format l = fl_format l0 \<and> fl_partition_by l = fl_partition_by l0
     \<and> fl_scope l = fl_scope l0 \<and> fl_load l = fl_load l0 \<and> fl_tables l = fl_tables l0"

definition part_id :: "staged_part \<Rightarrow> string \<times> string option \<times> nat" where
  "part_id p = (sp_table p, sp_dir p, sp_index p)"

definition staged_wf :: "('w, 's) file_load \<Rightarrow> staged_part \<Rightarrow> bool" where
  "staged_wf l p \<longleftrightarrow> table_ok (sp_table p) \<and> dir_ok (fl_partition_by l) (sp_dir p)
     \<and> sp_tail p = staging_tail (fl_scope l) (fl_load l) (staged_name (sp_table p) (sp_dir p) (sp_index p) (extension (fl_format l)))"

definition staged_ok :: "('w, 's) file_load \<Rightarrow> string docs \<Rightarrow> bool" where
  "staged_ok l m \<longleftrightarrow> distinct (map part_id (fl_staged l)) \<and>
     (\<forall>p \<in> set (fl_staged l). staged_wf l p \<and> m (sp_tail p) \<noteq> None
        \<and> sp_index p < length (filter (is_staged_for (sp_table p, sp_dir p)) (fl_staged l)))"

definition open_ok :: "('w, 's) file_load \<Rightarrow> bool" where
  "open_ok l \<longleftrightarrow> btree (fl_open l) \<and>
     (\<forall>((t, dir), (part, _)) \<in> set (fl_open l). table_ok t \<and> dir_ok (fl_partition_by l) dir
        \<and> part_format part = fl_format l \<and> part_whole part)"

definition staged_rows :: "(dest_format \<Rightarrow> string \<Rightarrow> 'x list) \<Rightarrow> ('w, 's) file_load \<Rightarrow> string docs \<Rightarrow> string \<Rightarrow> 'x multiset" where
  "staged_rows rd l m t =
     sum_list (map (\<lambda>p. if sp_table p = t then mset (rd (fl_format l) (the (m (sp_tail p)))) else {#}) (fl_staged l))"

definition open_rows :: "(dest_format \<Rightarrow> string \<Rightarrow> 'x list) \<Rightarrow> ('w \<Rightarrow> 'x list) \<Rightarrow> ('w, 's) file_load \<Rightarrow> string \<Rightarrow> 'x multiset" where
  "open_rows rd held l t =
     sum_list (map (\<lambda>(k, v). if fst k = t then part_rows rd held (fst v) else {#}) (fl_open l))"

definition books ::
    "(dest_format \<Rightarrow> string \<Rightarrow> 'x list) \<Rightarrow> ('w \<Rightarrow> 'x list) \<Rightarrow> ('w, 's) file_load \<Rightarrow> (string \<Rightarrow> 'x multiset)
      \<Rightarrow> ('w, 's) file_load \<times> fs \<Rightarrow> bool" where
  "books rd held l0 R = (\<lambda>(l, d). same_load l0 l \<and> staged_ok l (fs_files d) \<and> open_ok l
     \<and> (\<forall>t. staged_rows rd l (fs_files d) t + open_rows rd held l t = R t))"

lemma same_load_simps [simp]:
  "same_load l l" "same_load l0 (l\<lparr>fl_open := es\<rparr>) = same_load l0 l" "same_load l0 (l\<lparr>fl_staged := ps\<rparr>) = same_load l0 l"
  by (simp_all add: same_load_def)

lemma staged_wf_simps [simp]:
  "staged_wf (l\<lparr>fl_open := es\<rparr>) p = staged_wf l p" "staged_wf (l\<lparr>fl_staged := ps\<rparr>) p = staged_wf l p"
  by (simp_all add: staged_wf_def)

lemma staging_tail_staged [simp]: "staging_name (staging_tail scope load name)"
  by (simp add: staging_name_def staging_tail_def)

lemma staged_wf_inj:
  assumes "staged_wf l p" and "staged_wf l q" and "sp_tail p = sp_tail q"
  shows "part_id p = part_id q"
proof -
  let ?slug = "\<lambda>p. case sp_dir p of Some d \<Rightarrow> d | None \<Rightarrow> ''all''"
  let ?rest = "\<lambda>p. ?slug p @ CHR ''-'' # show_nat (sp_index p)"
  have "staged_name (sp_table p) (sp_dir p) (sp_index p) (extension (fl_format l))
      = staged_name (sp_table q) (sp_dir q) (sp_index q) (extension (fl_format l))"
    using assms by (simp add: staged_wf_def staging_tail_def)
  then have eq: "sp_table p @ CHR ''/'' # (?rest p @ ''.'' @ extension (fl_format l))
      = sp_table q @ CHR ''/'' # (?rest q @ ''.'' @ extension (fl_format l))"
    by (simp add: staged_name_def)
  have "CHR ''/'' \<notin> set (sp_table p)" "CHR ''/'' \<notin> set (sp_table q)"
    using assms by (simp_all add: staged_wf_def table_ok_def)
  from append_split_first [OF eq this] have t: "sp_table p = sp_table q" and rest: "?rest p = ?rest q"
    by simp_all
  have no: "CHR ''-'' \<notin> set (show_nat i)" for i using numeric_no_dash [OF show_nat_numeric] .
  have "Some (?slug p, show_nat (sp_index p)) = rsplit_once CHR ''-'' (?rest p)"
    by (rule rsplit_once_append [OF no, symmetric])
  also have "\<dots> = Some (?slug q, show_nat (sp_index q))" unfolding rest by (rule rsplit_once_append [OF no])
  finally have "?slug p = ?slug q" "sp_index p = sp_index q" by (auto dest: show_nat_inj)
  moreover have "(sp_dir p = None) = (sp_dir q = None)" using assms by (simp add: staged_wf_def dir_ok_def)
  ultimately show ?thesis using t by (auto simp: part_id_def split: option.splits)
qed

lemma io_Inr: "io call d = (Inr a, d') \<Longrightarrow>
    call (fs_files d) = (Inr a, fs_files d') \<and> fs_env d' = fs_env d"
  by (auto simp: io_def faulty_Inr split: prod.splits)

lemma io_effect: "fs_files (snd (io call d)) = fs_files d \<or> fs_files (snd (io call d)) = snd (call (fs_files d))"
  using faulty_snd [of "tk_fault (fs_env d (fs_at d))" call "fs_files d"] by (auto simp: io_def split: prod.splits)

lemma stage_put_Inr: "stage_put arm tail bytes d = (Inr u, d') \<Longrightarrow> fs_files d' = (fs_files d)(tail \<mapsto> bytes)"
  by (cases arm) (auto simp: stage_put_def touch_def put_file_def abind_Inr dest!: io_Inr)

lemma remove_sum:
  fixes w :: "'k \<Rightarrow> 'v \<Rightarrow> 'm :: comm_monoid_add"
  assumes "distinct (map fst es)" and "map_of es key = Some v"
  shows "sum_list (map (\<lambda>(k, v). w k v) es) = w key v + sum_list (map (\<lambda>(k, v). w k v) (filter (\<lambda>e. fst e \<noteq> key) es))"
  using assms
proof (induction es)
  case (Cons e es)
  show ?case
  proof (cases "fst e = key")
    case True
    with Cons.prems have "key \<notin> fst ` set es" by simp
    then have "filter (\<lambda>e. fst e \<noteq> key) es = es" by (intro filter_True) force
    with True Cons.prems(2) show ?thesis by (cases e) auto
  next
    case False
    with Cons show ?thesis by (cases e) (auto simp: ac_simps)
  qed
qed simp

lemma btree_filter: "btree es \<Longrightarrow> btree (filter P es)"
  by (induction es) auto

lemma close_part_books:
  assumes ok: "part_ok pl rd img held"
  shows "hoare (\<lambda>s. books rd held l0 R s \<and> fl_open (fst s) = es) (close_part pl key)
    (\<lambda>_ s. books rd held l0 R s \<and> fl_open (fst s) = filter (\<lambda>e. fst e \<noteq> key) es) (\<lambda>_. True)"
proof (rule hoareI)
  fix s r s' assume "books rd held l0 R s \<and> fl_open (fst s) = es" and run: "close_part pl key s = (r, s')"
  then obtain l d where s: "s = (l, d)" "books rd held l0 R (l, d)" and es: "fl_open l = es" by (cases s) auto
  show "case r of Inl _ \<Rightarrow> True | Inr _ \<Rightarrow> books rd held l0 R s' \<and> fl_open (fst s') = filter (\<lambda>e. fst e \<noteq> key) es"
  proof (cases "map_of es key")
    case None
    then have "filter (\<lambda>e. fst e \<noteq> key) es = es" by (auto simp: filter_id_conv map_of_eq_None_iff)
    with None run s es show ?thesis by (auto simp: close_part_def on_load_def)
  next
    case (Some v)
    obtain part at where v: "v = (part, at)" by (cases v)
    let ?l = "l\<lparr>fl_open := filter (\<lambda>e. fst e \<noteq> key) es\<rparr>"
    show ?thesis
    proof (cases "part_finish pl part")
      case (Inl e)
      with Some v run s es have "r = Inl e" by (auto simp: close_part_def on_load_def set_load_def abind_def)
      then show ?thesis by simp
    next
      case (Inr bytes)
      have b: "same_load l0 l" "staged_ok l (fs_files d)" "open_ok l"
        "\<And>t. staged_rows rd l (fs_files d) t + open_rows rd held l t = R t"
        using s(2) by (auto simp: books_def)
      have tree: "btree es" using b(3) es by (simp add: open_ok_def)
      have e: "(key, part, at) \<in> set es" using Some v by (simp add: map_of_SomeD)
      with b(3) es have part: "table_ok (fst key)" "dir_ok (fl_partition_by l) (snd key)" "part_format part = fl_format l"
        by (auto simp: open_ok_def)
      have rows: "open_rows rd held l t = (if fst key = t then part_rows rd held part else {#}) + open_rows rd held ?l t" for t
        using remove_sum [OF btree_distinct [OF tree] Some, of "\<lambda>k v. if fst k = t then part_rows rd held (fst v) else {#}"] v es
        by (simp add: open_rows_def)
      have fin: "mset (rd (fl_format l) bytes) = part_rows rd held part" using part_finish_rows [OF ok Inr] part(3) by simp
      have open': "open_ok ?l" using b(3) es btree_filter [OF tree] by (auto simp: open_ok_def)
      show ?thesis
      proof (cases "bytes = []")
        case True
        then have "part_rows rd held part = {#}" using fin part_okD(1) [OF ok] by simp
        moreover have "staged_rows rd ?l m t = staged_rows rd l m t" for m t by (simp add: staged_rows_def cong: if_cong)
        moreover have "staged_ok ?l (fs_files d)" using b(2) by (simp add: staged_ok_def)
        moreover have "s' = (?l, d)" "r = Inr ()"
          using True Some v run s es Inr by (auto simp: close_part_def on_load_def set_load_def abind_def)
        ultimately show ?thesis using b open' rows by (simp add: books_def cong: if_cong)
      next
        case False
        let ?index = "length (filter (is_staged_for key) (fl_staged l))"
        let ?tail = "staging_tail (fl_scope l) (fl_load l) (staged_name (fst key) (snd key) ?index (extension (fl_format l)))"
        let ?p = "\<lparr>sp_table = fst key, sp_dir = snd key, sp_index = ?index, sp_tail = ?tail\<rparr>"
        obtain r1 d1 where put: "stage_put (fl_arm l) ?tail bytes d = (r1, d1)" by (cases "stage_put (fl_arm l) ?tail bytes d")
        have res: "r = map_sum id (\<lambda>_. ()) r1" "r1 = Inr () \<Longrightarrow> s' = (?l\<lparr>fl_staged := fl_staged l @ [?p]\<rparr>, d1)"
          using False Some v run s es Inr put
          by (auto simp: close_part_def on_load_def set_load_def abind_def on_fs_def Let_def split: sum.splits)
        show ?thesis
        proof (cases r1)
          case (Inl e)
          with res show ?thesis by simp
        next
          case (Inr u)
          with put have files: "fs_files d1 = (fs_files d)(?tail \<mapsto> bytes)" by (auto dest: stage_put_Inr)
          have wf: "staged_wf l ?p" using part by (simp add: staged_wf_def)
          have fresh: "part_id p \<noteq> part_id ?p" if "p \<in> set (fl_staged l)" for p
            using that b(2) by (auto simp: staged_ok_def part_id_def)
          have apart: "sp_tail p \<noteq> ?tail" if "p \<in> set (fl_staged l)" for p
            using that b(2) fresh [OF that] staged_wf_inj [of l p ?p] wf by (auto simp: staged_ok_def)
          let ?l' = "?l\<lparr>fl_staged := fl_staged l @ [?p]\<rparr>"
          have "staged_rows rd ?l' (fs_files d1) t = staged_rows rd l (fs_files d) t + (if fst key = t then part_rows rd held part else {#})" for t
          proof -
            have "map (\<lambda>p. if sp_table p = t then mset (rd (fl_format l) (the (fs_files d1 (sp_tail p)))) else {#}) (fl_staged l)
                = map (\<lambda>p. if sp_table p = t then mset (rd (fl_format l) (the (fs_files d (sp_tail p)))) else {#}) (fl_staged l)"
              using apart files by (intro map_cong) auto
            from arg_cong [OF this, of sum_list] have same: "sum_list (map (\<lambda>p. if sp_table p = t then mset (rd (fl_format l) (the (fs_files d1 (sp_tail p)))) else {#}) (fl_staged l))
                = staged_rows rd l (fs_files d) t" by (simp add: staged_rows_def)
            have "fs_files d1 ?tail = Some bytes" using files by simp
            with same fin show ?thesis by (cases "fst key = t") (auto simp: staged_rows_def cong: if_cong)
          qed
          moreover have "open_rows rd held ?l' t = open_rows rd held ?l t" for t by (simp add: open_rows_def)
          ultimately have total: "staged_rows rd ?l' (fs_files d1) t + open_rows rd held ?l' t = R t" for t
            using b(4) [of t] rows [of t] by (simp add: ac_simps)
          have "staged_ok ?l' (fs_files d1)"
            unfolding staged_ok_def
          proof (intro conjI ballI)
            have "part_id ?p \<notin> part_id ` set (fl_staged l)" using fresh by (metis imageE)
            then show "distinct (map part_id (fl_staged ?l'))" using b(2) by (simp add: staged_ok_def)
            fix p assume p: "p \<in> set (fl_staged ?l')"
            show "staged_wf ?l' p" using p b(2) wf by (auto simp: staged_ok_def)
            show "fs_files d1 (sp_tail p) \<noteq> None" using p b(2) files by (auto simp: staged_ok_def)
            show "sp_index p < length (filter (is_staged_for (sp_table p, sp_dir p)) (fl_staged ?l'))"
            proof (cases "p = ?p")
              case True
              then show ?thesis by (simp add: is_staged_for_def)
            next
              case False
              with p have "p \<in> set (fl_staged l)" by auto
              with b(2) have "sp_index p < length (filter (is_staged_for (sp_table p, sp_dir p)) (fl_staged l))"
                by (simp add: staged_ok_def)
              then show ?thesis by simp
            qed
          qed
          moreover have "open_ok ?l'" using open' by (simp add: open_ok_def)
          ultimately have "books rd held l0 R (?l', d1)" using b(1) total by (simp add: books_def)
          with res Inr show ?thesis by simp
        qed
      qed
    qed
  qed
qed

text \<open>A part taken out of the open ones.\<close>

definition detached ::
    "(dest_format \<Rightarrow> string \<Rightarrow> 'x list) \<Rightarrow> ('w \<Rightarrow> 'x list) \<Rightarrow> ('w, 's) file_load \<Rightarrow> (string \<Rightarrow> 'x multiset) \<Rightarrow> part_key
      \<Rightarrow> ('w, 's) open_part \<Rightarrow> ('w, 's) file_load \<times> fs \<Rightarrow> bool" where
  "detached rd held l0 R key part = (\<lambda>(l, d). same_load l0 l \<and> staged_ok l (fs_files d) \<and> open_ok l
     \<and> map_of (fl_open l) key = None \<and> part_format part = fl_format l \<and> part_whole part
     \<and> (\<forall>t. staged_rows rd l (fs_files d) t + open_rows rd held l t + (if fst key = t then part_rows rd held part else {#}) = R t))"

lemma staged_open_simps [simp]:
  "staged_rows rd (l\<lparr>fl_open := es\<rparr>) m t = staged_rows rd l m t" "staged_ok (l\<lparr>fl_open := es\<rparr>) m = staged_ok l m"
  by (simp_all add: staged_rows_def staged_ok_def cong: if_cong)

lemma books_detach:
  assumes "books rd held l0 R (l, d)" and "map_of (fl_open l) key = Some (part, at)"
  shows "detached rd held l0 R key part (l\<lparr>fl_open := filter (\<lambda>e. fst e \<noteq> key) (fl_open l)\<rparr>, d)"
proof -
  let ?l = "l\<lparr>fl_open := filter (\<lambda>e. fst e \<noteq> key) (fl_open l)\<rparr>"
  have tree: "btree (fl_open l)" using assms(1) by (simp add: books_def open_ok_def)
  have "open_rows rd held l t = (if fst key = t then part_rows rd held part else {#}) + open_rows rd held ?l t" for t
    using remove_sum [OF btree_distinct [OF tree] assms(2), of "\<lambda>k v. if fst k = t then part_rows rd held (fst v) else {#}"]
    by (simp add: open_rows_def)
  moreover have "(key, part, at) \<in> set (fl_open l)" using assms(2) by (simp add: map_of_SomeD)
  moreover have "map_of (filter (\<lambda>e. fst e \<noteq> key) (fl_open l)) key = None" by (auto simp: map_of_eq_None_iff)
  moreover have "open_ok ?l" using assms(1) btree_filter [OF tree] by (auto simp: books_def open_ok_def)
  ultimately show ?thesis
    using assms(1) by (auto simp: books_def detached_def open_ok_def ac_simps cong: if_cong)
qed

lemma detached_append:
  assumes "part_ok pl rd img held" and "part_append pl part b = Inr part'" and "detached rd held l0 R key part s"
  shows "detached rd held l0 (R(fst key := R (fst key) + mset (map (img (fl_format l0)) (fb_rows b)))) key part' s"
proof -
  obtain l d where s: "s = (l, d)" by (cases s)
  have f: "fl_format l = fl_format l0" "part_format part = fl_format l" "part_whole part"
    using assms(3) s by (auto simp: detached_def same_load_def)
  have part': "part_rows rd held part' = part_rows rd held part + mset (map (img (fl_format l0)) (fb_rows b))"
    "part_format part' = part_format part" "part_whole part'"
    using part_append_rows [OF assms(1,2) f(3)] f by simp_all
  have "staged_rows rd l (fs_files d) t + open_rows rd held l t + (if fst key = t then part_rows rd held part' else {#})
      = (R(fst key := R (fst key) + mset (map (img (fl_format l0)) (fb_rows b)))) t" for t
  proof -
    have "staged_rows rd l (fs_files d) t + open_rows rd held l t + (if fst key = t then part_rows rd held part else {#}) = R t"
      using assms(3) s by (simp add: detached_def)
    then show ?thesis using part'(1) by (cases "fst key = t") (auto simp: ac_simps)
  qed
  with part'(2,3) f(2) assms(3) s show ?thesis by (simp add: detached_def)
qed

lemma btree_insert_set: "set (btree_insert k v m) \<subseteq> insert (k, v) (set m)"
  by (induction k v m rule: btree_insert.induct) auto

lemma detached_insert:
  assumes "detached rd held l0 R key part (l, d)" and "table_ok (fst key)" and "dir_ok (fl_partition_by l) (snd key)"
  shows "books rd held l0 R (l\<lparr>fl_open := btree_insert key (part, at) (fl_open l)\<rparr>, d)"
proof -
  let ?l = "l\<lparr>fl_open := btree_insert key (part, at) (fl_open l)\<rparr>"
  have d: "btree (fl_open l)" "map_of (fl_open l) key = None" "open_ok l" "part_format part = fl_format l" "part_whole part"
    using assms(1) by (auto simp: detached_def open_ok_def)
  have rows: "open_rows rd held ?l t = (if fst key = t then part_rows rd held part else {#}) + open_rows rd held l t" for t
    using btree_insert_sum [OF d(1,2), of "\<lambda>k v. if fst k = t then part_rows rd held (fst v) else {#}" "(part, at)"]
    by (simp add: open_rows_def)
  have "open_ok ?l"
    using d btree_insert_btree [OF d(1)] assms(2,3) btree_insert_set [of key "(part, at)" "fl_open l"]
    by (fastforce simp: open_ok_def)
  with assms(1) rows show ?thesis by (auto simp: detached_def books_def ac_simps cong: if_cong)
qed

lemma tick_of_files: "tick_of f d = (r, d') \<Longrightarrow> fs_files d' = fs_files d"
  by (auto simp: tick_of_def)

lemma books_files: "books rd held l0 R (l, d) \<Longrightarrow> fs_files d' = fs_files d \<Longrightarrow> books rd held l0 R (l, d')"
  by (simp add: books_def)

lemma hoare_on_load: "(\<And>l. hoare (\<lambda>s. P s \<and> fst s = l) (k l) Q E) \<Longrightarrow> hoare P (on_load k) Q E"
  by (auto simp: hoare_def on_load_def)

lemma hoare_set_load: "(\<And>l d. P (l, d) \<Longrightarrow> Q () (f l, d)) \<Longrightarrow> hoare P (set_load f) Q E"
  by (auto simp: hoare_def set_load_def)

lemma hoare_tick: "(\<And>l d d' a. P (l, d) \<Longrightarrow> fs_files d' = fs_files d \<Longrightarrow> Q a (l, d')) \<Longrightarrow> hoare P (on_fs (tick_of f)) Q E"
  by (auto simp: hoare_def on_fs_def tick_of_def)

lemma write_group_books:
  fixes pl :: "('w, 's, 'r) part_lib"
  assumes ok: "part_ok pl rd img held" and "table_ok t" and "dir_ok (fl_partition_by l0) dir"
  shows "hoare (books rd held l0 R) (write_group pl t (dir, grp))
    (\<lambda>_. books rd held l0 (R(t := R t + mset (map (img (fl_format l0)) (fb_rows grp))))) (\<lambda>_. True)"
proof -
  let ?B = "books rd held l0 R" and ?key = "(t, dir)"
  let ?R = "R(t := R t + mset (map (img (fl_format l0)) (fb_rows grp)))"
  have close: "hoare (books rd held l0 R') (close_part pl ?key) (\<lambda>_. books rd held l0 R') (\<lambda>_. True)" for R'
  proof (rule hoareI)
    fix s r s' assume "books rd held l0 R' s" "close_part pl ?key s = (r, s')"
    with hoareD [OF close_part_books [OF ok, of l0 R' "fl_open (fst s)" ?key], of s r s']
    show "case r of Inl _ \<Rightarrow> True | Inr _ \<Rightarrow> books rd held l0 R' s'" by (cases r) auto
  qed
  have 1: "hoare ?B (on_load (\<lambda>l. case map_of (fl_open l) ?key of
         Some (part, _) \<Rightarrow> if schema_differs part grp then close_part pl ?key else aret ()
       | None \<Rightarrow> aret ())) (\<lambda>_. ?B) (\<lambda>_. True)"
  proof (rule hoare_on_load)
    fix l
    have "hoare (\<lambda>s. ?B s \<and> fst s = l) (close_part pl ?key) (\<lambda>_. ?B) (\<lambda>_. True)"
      by (rule hoare_weaken [OF close]) auto
    then show "hoare (\<lambda>s. ?B s \<and> fst s = l) (case map_of (fl_open l) ?key of
         Some (part, _) \<Rightarrow> if schema_differs part grp then close_part pl ?key else aret ()
       | None \<Rightarrow> aret ()) (\<lambda>_. ?B) (\<lambda>_. True)"
      by (auto split: option.splits intro: hoare_aret)
  qed
  have 2: "hoare (\<lambda>s. ?B s \<and> fst s = l) (case map_of (fl_open l) ?key of
         Some existing \<Rightarrow> abind (set_load (\<lambda>l. l\<lparr>fl_open := filter (\<lambda>e. fst e \<noteq> ?key) (fl_open l)\<rparr>)) (\<lambda>_. aret existing)
       | None \<Rightarrow> abind (alift (part_begin pl (fl_format l) grp)) (\<lambda>part.
           abind (on_fs (tick_of tk_clock)) (\<lambda>now. aret (part, now))))
       (\<lambda>(part, at) s. detached rd held l0 R ?key part s) (\<lambda>_. True)" for l
  proof (cases "map_of (fl_open l) ?key")
    case None
    have "detached rd held l0 R ?key part (l, d)" if "?B (l, d)" "part_begin pl (fl_format l) grp = Inr part" for part d
      using part_begin_rows [OF ok that(2)] that(1) None by (auto simp: books_def detached_def cong: if_cong)
    then have "hoare (\<lambda>s. ?B s \<and> fst s = l) (alift (part_begin pl (fl_format l) grp))
        (\<lambda>part. detached rd held l0 R ?key part) (\<lambda>_. True)"
      by (intro hoare_alift) auto
    moreover have "hoare (detached rd held l0 R ?key part) (on_fs (tick_of tk_clock)) (\<lambda>_. detached rd held l0 R ?key part) (\<lambda>_. True)" for part
      by (rule hoare_tick) (simp add: detached_def)
    ultimately show ?thesis unfolding None option.case
      by (intro hoare_abind [where Q = "\<lambda>part. detached rd held l0 R ?key part"]
        hoare_abind [where Q = "\<lambda>_. detached rd held l0 R ?key _"] hoare_aret) auto
  next
    case (Some v)
    obtain part at where v: "v = (part, at)" by (cases v)
    show ?thesis unfolding Some option.case
    proof (rule hoare_abind [where Q = "\<lambda>_. detached rd held l0 R ?key part"])
      show "hoare (\<lambda>s. ?B s \<and> fst s = l) (set_load (\<lambda>l. l\<lparr>fl_open := filter (\<lambda>e. fst e \<noteq> ?key) (fl_open l)\<rparr>))
        (\<lambda>_. detached rd held l0 R ?key part) (\<lambda>_. True)"
        by (rule hoare_set_load) (use Some v books_detach in fastforce)
    qed (auto simp: v intro: hoare_aret)
  qed
  have 3: "hoare (detached rd held l0 R ?key part) (abind (alift (part_append pl part grp)) (\<lambda>part.
     abind (set_load (\<lambda>l. l\<lparr>fl_open := btree_insert ?key (part, at) (fl_open l)\<rparr>)) (\<lambda>_.
     abind (on_fs (tick_of tk_clock)) (\<lambda>now.
     if should_roll (fl_parts l) (encoded_len pl part) (now - at) then close_part pl ?key else aret ()))))
     (\<lambda>_. books rd held l0 ?R) (\<lambda>_. True)" for part at l
  proof (rule hoare_abind [where Q = "\<lambda>part'. detached rd held l0 ?R ?key part'"])
    show "hoare (detached rd held l0 R ?key part) (alift (part_append pl part grp))
      (\<lambda>part'. detached rd held l0 ?R ?key part') (\<lambda>_. True)"
      using detached_append [OF ok, of part grp _ l0 R ?key] by (intro hoare_alift) auto
    fix part'
    have "hoare (detached rd held l0 ?R ?key part') (set_load (\<lambda>l. l\<lparr>fl_open := btree_insert ?key (part', at) (fl_open l)\<rparr>))
      (\<lambda>_. books rd held l0 ?R) (\<lambda>_. True)"
    proof (rule hoare_set_load)
      fix l d assume det: "detached rd held l0 ?R ?key part' (l, d)"
      then have "fl_partition_by l = fl_partition_by l0" by (simp add: detached_def same_load_def)
      with assms(2,3) show "books rd held l0 ?R (l\<lparr>fl_open := btree_insert ?key (part', at) (fl_open l)\<rparr>, d)"
        by (intro detached_insert [OF det]) simp_all
    qed
    moreover have "hoare (books rd held l0 ?R) (on_fs (tick_of tk_clock)) (\<lambda>_. books rd held l0 ?R) (\<lambda>_. True)"
      by (rule hoare_tick) (rule books_files)
    moreover have "hoare (books rd held l0 ?R)
        (if should_roll (fl_parts l) (encoded_len pl part') (now - at) then close_part pl ?key else aret ())
        (\<lambda>_. books rd held l0 ?R) (\<lambda>_. True)" for now
      using close [of ?R] by (auto intro: hoare_aret)
    ultimately show "hoare (detached rd held l0 ?R ?key part')
      (abind (set_load (\<lambda>l. l\<lparr>fl_open := btree_insert ?key (part', at) (fl_open l)\<rparr>)) (\<lambda>_.
       abind (on_fs (tick_of tk_clock)) (\<lambda>now.
       if should_roll (fl_parts l) (encoded_len pl part') (now - at) then close_part pl ?key else aret ())))
      (\<lambda>_. books rd held l0 ?R) (\<lambda>_. True)"
      by (intro hoare_abind [where Q = "\<lambda>_. books rd held l0 ?R"])
  qed
  show ?thesis unfolding write_group_def prod.case Let_def
  proof (rule hoare_abind [OF 1], rule hoare_on_load, rule hoare_abind [OF 2])
    fix l and a :: "('w, 's) open_part \<times> nat"
    obtain part at where a: "a = (part, at)" by (cases a)
    show "hoare (case a of (part, at) \<Rightarrow> detached rd held l0 R ?key part)
      (case a of (part, opened_at) \<Rightarrow> abind (alift (part_append pl part grp)) (\<lambda>part.
        abind (set_load (\<lambda>l. l\<lparr>fl_open := btree_insert ?key (part, opened_at) (fl_open l)\<rparr>)) (\<lambda>_.
        abind (on_fs (tick_of tk_clock)) (\<lambda>now.
        if should_roll (fl_parts l) (encoded_len pl part) (now - opened_at) then close_part pl ?key else aret ()))))
      (\<lambda>_. books rd held l0 ?R) (\<lambda>_. True)"
      using 3 by (simp add: a)
  qed
qed

lemma hoare_case_pair: "(\<And>x y. a = (x, y) \<Longrightarrow> hoare P (f x y) Q E) \<Longrightarrow> hoare P (case a of (x, y) \<Rightarrow> f x y) Q E"
  by (cases a) simp

lemma close_part_keeps:
  assumes "part_ok pl rd img held"
  shows "hoare (books rd held l0 R) (close_part pl key) (\<lambda>_. books rd held l0 R) (\<lambda>_. True)"
proof (rule hoareI)
  fix s r s' assume "books rd held l0 R s" "close_part pl key s = (r, s')"
  with hoareD [OF close_part_books [OF assms, of l0 R "fl_open (fst s)" key], of s r s']
  show "case r of Inl _ \<Rightarrow> True | Inr _ \<Rightarrow> books rd held l0 R s'" by (cases r) auto
qed

lemma hoare_Pair: "(\<And>a s. P s \<Longrightarrow> r = Inr a \<Longrightarrow> Q a s) \<Longrightarrow> (\<And>s. P s \<Longrightarrow> E s) \<Longrightarrow> hoare P (Pair r) Q E"
  by (auto simp: hoare_def split: sum.splits)

lemma enforce_books:
  assumes "part_ok pl rd img held"
  shows "hoare (books rd held l0 R) (enforce_open_budget pl fuel) (\<lambda>_. books rd held l0 R) (\<lambda>_. True)"
proof (induction fuel)
  case (Suc fuel)
  have "hoare (\<lambda>s. books rd held l0 R s \<and> fst s = l) (abind (close_part pl key) (\<lambda>_. enforce_open_budget pl fuel))
      (\<lambda>_. books rd held l0 R) (\<lambda>_. True)" for l key
    by (rule hoare_abind [OF hoare_weaken [OF close_part_keeps [OF assms]] Suc.IH]) auto
  then show ?case
    by (auto intro!: hoare_on_load hoare_Pair hoare_aret split: option.splits)
qed (auto intro: hoare_Pair)

lemma close_all_books:
  fixes pl :: "('w, 's, 'r) part_lib"
  assumes "part_ok pl rd img held"
  shows "hoare (books rd held l0 R) (close_all_parts pl) (\<lambda>_ s. books rd held l0 R s \<and> fl_open (fst s) = []) (\<lambda>_. True)"
  unfolding close_all_parts_def
proof (rule hoare_on_load)
  fix l :: "('w, 's) file_load"
  let ?es = "fl_open l"
  let ?keys = "map fst ?es"
  let ?P = "\<lambda>i s. books rd held l0 R s \<and> fl_open (fst s) = filter (\<lambda>e. fst e \<notin> set (take i ?keys)) ?es"
  have "hoare (?P 0) (aeach (close_part pl) ?keys) (\<lambda>_. ?P (length ?keys)) (\<lambda>_. True)"
  proof (rule hoare_aeach_nth)
    fix i assume i: "i < length ?keys"
    have "filter (\<lambda>e. fst e \<noteq> ?keys ! i) (filter (\<lambda>e. fst e \<notin> set (take i ?keys)) ?es)
        = filter (\<lambda>e. fst e \<notin> set (take (Suc i) ?keys)) ?es"
      using i by (auto simp: take_Suc_conv_app_nth intro!: filter_cong)
    with close_part_books [OF assms, of l0 R "filter (\<lambda>e. fst e \<notin> set (take i ?keys)) ?es" "?keys ! i"]
    show "hoare (?P i) (close_part pl (?keys ! i)) (\<lambda>_. ?P (Suc i)) (\<lambda>_. True)" by simp
  qed
  then show "hoare (\<lambda>s. books rd held l0 R s \<and> fst s = l) (aeach (close_part pl) ?keys)
      (\<lambda>_ s. books rd held l0 R s \<and> fl_open (fst s) = []) (\<lambda>_. True)"
    by (rule hoare_weaken) (auto simp: filter_empty_conv)
qed

lemma check_lease_books:
  "hoare (books rd held l0 R) check_lease_still_held (\<lambda>_. books rd held l0 R) (\<lambda>_. True)"
proof -
  have "hoare (\<lambda>s. books rd held l0 R s \<and> fst s = l) (on_fs (tick_of f)) (\<lambda>_. books rd held l0 R) (\<lambda>_. True)" for f :: "tick \<Rightarrow> 'y" and l
    by (rule hoare_tick) (auto intro: books_files)
  then show ?thesis unfolding check_lease_still_held_def
    by (intro hoare_on_load) (auto split: option.splits intro!: hoare_afail hoare_abind hoare_case_pair hoare_alift)
qed

lemma file_write_books:
  fixes pl :: "('w, 's, 'r) part_lib"
  assumes ok: "part_ok pl rd img held" and t: "table_ok t"
  shows "hoare (books rd held l0 R) (file_write pl t b)
    (\<lambda>_. books rd held l0 (R(t := R t + mset (map (img (fl_format l0)) (fb_rows b))))) (\<lambda>_. True)"
  unfolding file_write_def
proof (rule hoare_abind [OF check_lease_books], rule hoare_on_load)
  fix u and l :: "('w, 's) file_load"
  let ?img = "\<lambda>g. mset (map (img (fl_format l0)) (fb_rows g))"
  let ?R = "R(t := R t + ?img b)"
  let ?rest = "\<lambda>groups. abind (aeach (write_group pl t) groups) (\<lambda>_. on_load (\<lambda>l. enforce_open_budget pl (Suc (length (fl_open l)))))"
  have groups: "hoare (\<lambda>s. books rd held l0 R s \<and> fst s = l) (?rest groups) (\<lambda>_. books rd held l0 ?R) (\<lambda>_. True)"
    if split: "split_partitions pl t b (fl_partition_by l) = Inr groups" for groups
  proof (cases "fl_partition_by l = fl_partition_by l0")
    case True
    note ok_groups = split_partitions_rows [OF split]
    let ?sum = "\<lambda>i. sum_list (map (\<lambda>(_, g). ?img g) (take i groups))"
    let ?P = "\<lambda>i. books rd held l0 (R(t := R t + ?sum i))"
    have "hoare (?P 0) (aeach (write_group pl t) groups) (\<lambda>_. ?P (length groups)) (\<lambda>_. True)"
    proof (rule hoare_aeach_nth)
      fix i assume i: "i < length groups"
      obtain dir g where g: "groups ! i = (dir, g)" by (cases "groups ! i")
      have "(dir, g) \<in> set groups" using i g by (metis nth_mem)
      with ok_groups True have "dir_ok (fl_partition_by l0) dir" by auto
      from write_group_books [OF ok t this, of "R(t := R t + ?sum i)" g] i g
      show "hoare (?P i) (write_group pl t (groups ! i)) (\<lambda>_. ?P (Suc i)) (\<lambda>_. True)"
        by (simp add: take_Suc_conv_app_nth ac_simps)
    qed
    moreover have "?sum (length groups) = ?img b"
    proof -
      have "(\<Sum>x\<leftarrow>groups. case x of (_, g) \<Rightarrow> image_mset (img (fl_format l0)) (mset (fb_rows g)))
          = image_mset (img (fl_format l0)) (\<Sum>x\<leftarrow>groups. case x of (_, g) \<Rightarrow> mset (fb_rows g))"
        by (induction groups) auto
      with ok_groups show ?thesis by simp
    qed
    moreover have "?P 0 = books rd held l0 R" by simp
    ultimately have "hoare (books rd held l0 R) (aeach (write_group pl t) groups) (\<lambda>_. books rd held l0 ?R) (\<lambda>_. True)"
      by simp
    then have "hoare (\<lambda>s. books rd held l0 R s \<and> fst s = l) (aeach (write_group pl t) groups) (\<lambda>_. books rd held l0 ?R) (\<lambda>_. True)"
      by (rule hoare_weaken) auto
    then show ?thesis
    proof (rule hoare_abind)
      fix u
      have "hoare (\<lambda>s. books rd held l0 ?R s \<and> fst s = l') (enforce_open_budget pl n) (\<lambda>_. books rd held l0 ?R) (\<lambda>_. True)" for l' n
        by (rule hoare_weaken [OF enforce_books [OF ok]]) auto
      then show "hoare (books rd held l0 ?R) (on_load (\<lambda>l. enforce_open_budget pl (Suc (length (fl_open l))))) (\<lambda>_. books rd held l0 ?R) (\<lambda>_. True)"
        by (intro hoare_on_load)
    qed
  next
    case False
    then have "\<not> (books rd held l0 R s \<and> fst s = l)" for s by (cases s) (auto simp: books_def same_load_def)
    then show ?thesis unfolding hoare_def by blast
  qed
  show "hoare (\<lambda>s. books rd held l0 R s \<and> fst s = l)
    (abind (alift (split_partitions pl t b (fl_partition_by l))) ?rest) (\<lambda>_. books rd held l0 ?R) (\<lambda>_. True)"
  proof (cases "split_partitions pl t b (fl_partition_by l)")
    case (Inl e)
    then show ?thesis by (simp add: hoare_def abind_def)
  next
    case (Inr gs)
    have run: "abind (alift (Inr gs)) ?rest = ?rest gs" by (simp add: fun_eq_iff abind_def)
    show ?thesis unfolding Inr run by (rule groups [OF Inr])
  qed
qed

section \<open>Writing stays in the staging directory\<close>

definition quiet :: "('w, 's) file_load \<times> fs \<Rightarrow> ('w, 's) file_load \<times> fs \<Rightarrow> bool" where
  "quiet s s' \<longleftrightarrow> (\<forall>n. \<not> staging_name n \<longrightarrow> fs_files (snd s') n = fs_files (snd s) n)
     \<and> (finite (dom (fs_files (snd s))) \<longrightarrow> finite (dom (fs_files (snd s'))))"

lemma quiet_order: "reflp quiet" "transp quiet"
  by (auto simp: quiet_def reflp_def transp_def)

lemma leaps_on_load: "(\<And>l. leaps R (k l)) \<Longrightarrow> leaps R (on_load k)"
  by (simp add: leaps_def on_load_def)

lemma quiet_set_load [leaps_intros]: "leaps quiet (set_load f)"
  by (simp add: leaps_def set_load_def quiet_def)

lemma quiet_tick [leaps_intros]: "leaps quiet (on_fs (tick_of f))"
  by (simp add: leaps_def on_fs_def tick_of_def quiet_def)

lemma quiet_abind [leaps_intros]: "leaps quiet m \<Longrightarrow> (\<And>a. leaps quiet (k a)) \<Longrightarrow> leaps quiet (abind m k)"
  by (rule leaps_abind [OF quiet_order(2)])

lemma quiet_pure [leaps_intros]: "leaps quiet (aret a)" "leaps quiet (afail e)" "leaps quiet (alift r)" "leaps quiet (Pair r)"
  by (simp_all add: leaps_def quiet_def)

lemma quiet_aeach [leaps_intros]: "(\<And>x. x \<in> set xs \<Longrightarrow> leaps quiet (f x)) \<Longrightarrow> leaps quiet (aeach f xs)"
  by (rule leaps_aeach [OF quiet_order])

text \<open>A call on the storage that touches names in \<open>A\<close> only.\<close>

definition within :: "string set \<Rightarrow> (fs, dest_failure, 'a) action \<Rightarrow> bool" where
  "within A m \<longleftrightarrow> leaps (\<lambda>d d'. \<forall>n. n \<notin> A \<longrightarrow> fs_files d' n = fs_files d n) m"

lemma within_io:
  assumes "\<And>m. \<forall>n. n \<notin> A \<longrightarrow> snd (call m) n = m n"
  shows "within A (io call)"
  unfolding within_def leaps_def
proof
  fix d
  show "\<forall>n. n \<notin> A \<longrightarrow> fs_files (snd (io call d)) n = fs_files d n"
    using io_effect [of call d] assms [of "fs_files d"] by auto
qed

lemma within_mono: "within A m \<Longrightarrow> A \<subseteq> B \<Longrightarrow> within B m"
  unfolding within_def leaps_def by blast

lemma within_abind: "within A m \<Longrightarrow> (\<And>a. within A (k a)) \<Longrightarrow> within A (abind m k)"
  unfolding within_def by (rule leaps_abind) (auto simp: transp_def)

lemma within_pure: "within A (aret a)" "within A (alift r)" "within A (afail e)"
  by (simp_all add: within_def leaps_def)

lemma within_aeach: "(\<And>x. x \<in> set xs \<Longrightarrow> within A (f x)) \<Longrightarrow> within A (aeach f xs)"
  unfolding within_def by (rule leaps_aeach) (auto simp: transp_def reflp_def)

lemma within_verbs:
  "within {} touch" "within {n} (put_file n bytes)" "within {} (get_file n)" "within {n} (remove_if_present n)"
  "within {n} (remove_file fl n)" "within {} (open_file fl n)" "within {n, n'} (rename_file fl n n')"
  "within {n'} (copy_file fl n n')" "within {} (list_files fl dir)"
  by (auto simp: touch_def put_file_def get_file_def remove_if_present_def remove_file_def open_file_def rename_file_def
      copy_file_def list_files_def intro!: within_io split: option.splits if_splits)

lemma within_finite:
  assumes "within A m" and "finite A" and "finite (dom (fs_files d))"
  shows "finite (dom (fs_files (snd (m d))))"
proof (rule finite_subset)
  show "dom (fs_files (snd (m d))) \<subseteq> dom (fs_files d) \<union> A"
    using assms(1) unfolding within_def leaps_def by (auto simp: dom_def)
qed (use assms in simp)

lemma quiet_on_fs:
  assumes "within A m" and "A \<subseteq> Collect staging_name" and "finite A"
  shows "leaps quiet (on_fs m)"
  unfolding leaps_def
proof
  fix s :: "('w, 's) file_load \<times> fs"
  have "\<forall>n. n \<notin> A \<longrightarrow> fs_files (snd (m (snd s))) n = fs_files (snd s) n"
    using assms(1) by (simp add: within_def leaps_def)
  with assms(2) within_finite [OF assms(1,3), of "snd s"] show "quiet s (snd (on_fs m s))"
    by (auto simp: quiet_def on_fs_def split: prod.splits)
qed

lemma stage_put_within: "within {tail} (stage_put arm tail bytes)"
  using within_mono [OF within_verbs(1)] within_verbs(2)
  by (cases arm) (auto simp: stage_put_def intro: within_abind)

lemma close_part_quiet [leaps_intros]: "leaps quiet (close_part pl key)"
proof -
  have "leaps quiet (on_fs (stage_put arm (staging_tail scope load name) bytes))" for arm scope load name bytes
    by (rule quiet_on_fs [OF stage_put_within]) simp_all
  then show ?thesis unfolding close_part_def
    by (intro leaps_on_load) (auto split: option.splits simp: Let_def intro!: leaps_intros)
qed

lemma enforce_quiet [leaps_intros]: "leaps quiet (enforce_open_budget pl fuel)"
  by (induction fuel) (auto intro!: leaps_on_load leaps_intros split: option.splits)

lemma close_all_quiet [leaps_intros]: "leaps quiet (close_all_parts pl)"
  unfolding close_all_parts_def by (intro leaps_on_load leaps_intros)

lemma check_lease_quiet [leaps_intros]: "leaps quiet check_lease_still_held"
  unfolding check_lease_still_held_def
  by (intro leaps_on_load) (auto split: option.splits intro!: leaps_intros)

lemma write_group_quiet [leaps_intros]: "leaps quiet (write_group pl t g)"
  unfolding write_group_def
  by (cases g) (auto simp: Let_def split: option.splits intro!: leaps_on_load leaps_intros)

lemma file_write_quiet [leaps_intros]: "leaps quiet (file_write pl t b)"
  unfolding file_write_def by (intro leaps_intros leaps_on_load)

end
