(* ===== verification/File_Unit.thy ===== *)
theory File_Unit
  imports File_Parts
begin

text \<open>
  A commit unit of the file destination, attempted any number of times. Each attempt is a
  session of its own that may stop at any call on the storage, divide the rows into parts in
  its own way, and leave what it had done; \<open>recorded\<close> is what all of them keep, \<open>landed\<close> what
  the one that wrote the receipt has made of the storage.
\<close>

section \<open>Names\<close>

definition doc_names :: "string \<Rightarrow> string set" where
  "doc_names scope = (\<Union>f \<in> {state_file scope, manifest_file scope, commits_file scope}. {f, f @ ''.tmp''})"

definition data_name :: "string \<Rightarrow> string \<Rightarrow> bool" where
  "data_name scope n \<longleftrightarrow> \<not> staging_name n \<and> n \<notin> doc_names scope"

definition unit_files :: "('w, 's) file_load \<Rightarrow> commit_meta \<Rightarrow> string \<Rightarrow> string set" where
  "unit_files l0 meta t =
     {final_tail t dir (meta_load meta) (meta_seq meta) i (extension (fl_format l0)) | dir i. dir_ok (fl_partition_by l0) dir}"

definition unit_names :: "('w, 's) file_load \<Rightarrow> commit_meta \<Rightarrow> string set" where
  "unit_names l0 meta = (\<Union>t \<in> Collect table_ok. unit_files l0 meta t)"

definition replaced_names :: "('w, 's) file_load \<Rightarrow> string set" where
  "replaced_names l0 =
     {t @ ''/'' @ tail | t tail. (t, Replace) \<in> set (fl_tables l0) \<and> truncated_tail (frozen_plain_parquet l0) tail}"

definition unit_wf :: "('w, 's) file_load \<Rightarrow> commit_meta \<Rightarrow> bool" where
  "unit_wf l0 meta \<longleftrightarrow> CHR ''/'' \<notin> set (fl_scope l0) \<and> CHR ''/'' \<notin> set (meta_load meta)
     \<and> (\<forall>t \<in> fst ` set (fl_tables l0). table_ok t)"

definition fs_lib_ok :: "fs_lib \<Rightarrow> bool" where
  "fs_lib_ok fl \<longleftrightarrow> (\<forall>m dir. let under = {n. m n \<noteq> None \<and> (\<exists>r. n = dir @ ''/'' @ r)} in
     set (list_under fl m dir) \<subseteq> under \<and> (finite (dom m) \<longrightarrow> under \<subseteq> set (list_under fl m dir)))"

lemma doc_no_slash: "CHR ''/'' \<notin> set scope \<Longrightarrow> n \<in> doc_names scope \<Longrightarrow> CHR ''/'' \<notin> set n"
  by (auto simp: doc_names_def state_file_def manifest_file_def commits_file_def)

lemma slash_data: "CHR ''/'' \<notin> set scope \<Longrightarrow> table_ok t \<Longrightarrow> data_name scope (t @ ''/'' @ r)"
proof -
  assume s: "CHR ''/'' \<notin> set scope" and t: "table_ok t"
  have "t @ ''/'' @ r \<notin> doc_names scope" using doc_no_slash [OF s, of "t @ ''/'' @ r"] by auto
  moreover have "\<not> staging_name (t @ ''/'' @ r)"
  proof
    assume "staging_name (t @ ''/'' @ r)"
    then obtain r' where eq: "t @ CHR ''/'' # r = STAGING_DIR @ CHR ''/'' # r'" by (auto simp: staging_name_def)
    have "CHR ''/'' \<notin> set STAGING_DIR" by (simp add: STAGING_DIR_def)
    with append_split_first [OF eq] t show False by (simp add: table_ok_def)
  qed
  ultimately show ?thesis by (simp add: data_name_def)
qed

lemma unit_files_slash: "n \<in> unit_files l0 meta t \<Longrightarrow> \<exists>r. n = t @ ''/'' @ r"
  by (auto simp: unit_files_def final_tail_def)

lemma unit_names_data:
  assumes "unit_wf l0 meta" and "n \<in> unit_names l0 meta"
  shows "data_name (fl_scope l0) n"
proof -
  from assms(2) obtain t where t: "table_ok t" "n \<in> unit_files l0 meta t" by (auto simp: unit_names_def)
  from unit_files_slash [OF t(2)] obtain r where "n = t @ ''/'' @ r" ..
  with slash_data [OF _ t(1)] assms(1) show ?thesis by (simp add: unit_wf_def)
qed

lemma replaced_names_data:
  assumes "unit_wf l0 meta" and "n \<in> replaced_names l0"
  shows "data_name (fl_scope l0) n"
proof -
  from assms(2) obtain t r where n: "n = t @ ''/'' @ r" and t: "(t, Replace) \<in> set (fl_tables l0)"
    by (auto simp: replaced_names_def)
  have "t \<in> fst ` set (fl_tables l0)" using imageI [OF t, of fst] by simp
  then have "table_ok t" using assms(1) unfolding unit_wf_def by blast
  with slash_data [OF _ this] assms(1) n show ?thesis by (simp add: unit_wf_def)
qed

lemma docs_apart:
  "manifest_file scope \<noteq> commits_file scope" "state_file scope \<noteq> commits_file scope" "state_file scope \<noteq> manifest_file scope"
  "manifest_file scope @ ''.tmp'' \<noteq> commits_file scope" "state_file scope @ ''.tmp'' \<noteq> commits_file scope"
  "state_file scope @ ''.tmp'' \<noteq> manifest_file scope" "commits_file scope @ ''.tmp'' \<noteq> manifest_file scope"
  "manifest_file scope @ ''.tmp'' \<noteq> manifest_file scope" "commits_file scope @ ''.tmp'' \<noteq> commits_file scope"
  by (auto simp: manifest_file_def commits_file_def state_file_def)

lemma docs_not_staging: "n \<in> doc_names scope \<Longrightarrow> \<not> staging_name n"
  by (auto simp: doc_names_def staging_name_def STAGING_DIR_def state_file_def manifest_file_def commits_file_def)

lemma docs_not_data [simp]:
  "\<not> data_name scope (manifest_file scope)" "\<not> data_name scope (commits_file scope)" "\<not> data_name scope (state_file scope)"
  "\<not> data_name scope (manifest_file scope @ ''.tmp'')" "\<not> data_name scope (commits_file scope @ ''.tmp'')"
  "\<not> data_name scope (state_file scope @ ''.tmp'')"
  by (simp_all add: data_name_def doc_names_def)

section \<open>What the attempts keep\<close>

text \<open>
  \<open>m0\<close> is the storage before the first attempt, \<open>receipts0\<close> its receipts, \<open>D\<close> the names Replace
  clears with the load's first unit.
\<close>

definition cleared_names :: "('w, 's) file_load \<Rightarrow> commit_meta \<Rightarrow> (string \<times> 64 word) list \<Rightarrow> string set" where
  "cleared_names l0 meta receipts0 = (if meta_load meta \<in> fst ` set receipts0 then {} else replaced_names l0)"

definition left_over :: "string \<Rightarrow> string set \<Rightarrow> string docs \<Rightarrow> string set \<Rightarrow> string docs \<Rightarrow> bool" where
  "left_over scope D m0 N m \<longleftrightarrow> (\<forall>n. data_name scope n \<longrightarrow> m n = m0 n \<or> m n = None \<and> n \<in> D \<or> n \<in> N)"

definition manifest_for :: "doc_json \<Rightarrow> string \<Rightarrow> commit_meta \<Rightarrow> string docs \<Rightarrow> string list \<Rightarrow> bool" where
  "manifest_for js scope meta m names \<longleftrightarrow>
     (\<exists>mf. manifest_decode js (m (manifest_file scope)) (manifest_file scope) = Inr (Some mf)
        \<and> mf_load mf = meta_load meta \<and> mf_seq mf = meta_seq meta \<and> mf_names mf = names)"

definition recorded ::
    "doc_json \<Rightarrow> ('w, 's) file_load \<Rightarrow> commit_meta \<Rightarrow> (string \<times> 64 word) list \<Rightarrow> string docs \<Rightarrow> string docs \<Rightarrow> bool" where
  "recorded js l0 meta receipts0 m0 m \<longleftrightarrow> finite (dom m)
     \<and> m (commits_file (fl_scope l0)) = m0 (commits_file (fl_scope l0))
     \<and> (\<forall>names. manifest_for js (fl_scope l0) meta m names \<longrightarrow> set names \<subseteq> unit_names l0 meta)
     \<and> (\<exists>N. left_over (fl_scope l0) (cleared_names l0 meta receipts0) m0 N m \<and> N \<subseteq> unit_names l0 meta
        \<and> (N = {} \<or> (\<exists>names. manifest_for js (fl_scope l0) meta m names \<and> N \<subseteq> set names)))"

definition unit_rows :: "(dest_format \<Rightarrow> string \<Rightarrow> 'x list) \<Rightarrow> ('w, 's) file_load \<Rightarrow> commit_meta \<Rightarrow> string docs \<Rightarrow> string \<Rightarrow> 'x multiset" where
  "unit_rows rd l0 meta m t = (\<Sum>n \<in> {n \<in> unit_files l0 meta t. m n \<noteq> None}. mset (rd (fl_format l0) (the (m n))))"

definition landed ::
    "doc_json \<Rightarrow> (dest_format \<Rightarrow> string \<Rightarrow> 'x list) \<Rightarrow> ('w, 's) file_load \<Rightarrow> commit_meta \<Rightarrow> (string \<times> 64 word) list
      \<Rightarrow> string docs \<Rightarrow> (string \<Rightarrow> 'x multiset) \<Rightarrow> string docs \<Rightarrow> bool" where
  "landed js rd l0 meta receipts0 m0 R m \<longleftrightarrow>
     (\<exists>log. log_decode js (m (commits_file (fl_scope l0))) (commits_file (fl_scope l0)) = Inr log
        \<and> cl_receipts log = receipts0 @ [(meta_load meta, meta_seq meta)])
     \<and> (\<forall>n. data_name (fl_scope l0) n \<longrightarrow> n \<notin> unit_names l0 meta \<longrightarrow>
          m n = (if n \<in> cleared_names l0 meta receipts0 then None else m0 n))
     \<and> (\<forall>t. table_ok t \<longrightarrow> unit_rows rd l0 meta m t = R t)"

text \<open>Both look at the data and at two documents only.\<close>

lemma recorded_cong:
  assumes "\<And>n. data_name (fl_scope l0) n \<Longrightarrow> m' n = m n" and "m' (manifest_file (fl_scope l0)) = m (manifest_file (fl_scope l0))"
    and "m' (commits_file (fl_scope l0)) = m (commits_file (fl_scope l0))" and "finite (dom m) \<Longrightarrow> finite (dom m')"
    and "recorded js l0 meta receipts0 m0 m"
  shows "recorded js l0 meta receipts0 m0 m'"
proof -
  have "left_over (fl_scope l0) D m0 N m' = left_over (fl_scope l0) D m0 N m" for D N
    using assms(1) by (auto simp: left_over_def)
  moreover have "manifest_for js (fl_scope l0) meta m' names = manifest_for js (fl_scope l0) meta m names" for names
    using assms(2) by (simp add: manifest_for_def)
  ultimately show ?thesis using assms(3-5) by (simp add: recorded_def)
qed

lemma unit_rows_cong:
  assumes "\<And>n. n \<in> unit_files l0 meta t \<Longrightarrow> m' n = m n"
  shows "unit_rows rd l0 meta m' t = unit_rows rd l0 meta m t"
proof -
  have eq: "{n \<in> unit_files l0 meta t. m' n \<noteq> None} = {n \<in> unit_files l0 meta t. m n \<noteq> None}"
    using assms by auto
  show ?thesis unfolding unit_rows_def eq by (rule sum.cong) (use assms in auto)
qed

lemma landed_cong:
  assumes "unit_wf l0 meta" and "\<And>n. data_name (fl_scope l0) n \<Longrightarrow> m' n = m n"
    and "m' (commits_file (fl_scope l0)) = m (commits_file (fl_scope l0))"
  shows "landed js rd l0 meta receipts0 m0 R m' = landed js rd l0 meta receipts0 m0 R m"
proof -
  have "unit_rows rd l0 meta m' t = unit_rows rd l0 meta m t" if "table_ok t" for t
  proof (rule unit_rows_cong)
    fix n assume "n \<in> unit_files l0 meta t"
    with that have "n \<in> unit_names l0 meta" by (auto simp: unit_names_def)
    then show "m' n = m n" by (intro assms(2) unit_names_data [OF assms(1)])
  qed
  then show ?thesis using assms(2,3) by (simp add: landed_def)
qed

lemma quiet_recorded:
  assumes "quiet s s'" and "recorded js l0 meta receipts0 m0 (fs_files (snd s))"
  shows "recorded js l0 meta receipts0 m0 (fs_files (snd s'))"
  using assms docs_not_staging [of "manifest_file (fl_scope l0)" "fl_scope l0"] docs_not_staging [of "commits_file (fl_scope l0)" "fl_scope l0"]
  by (intro recorded_cong [of l0 "fs_files (snd s')" "fs_files (snd s)"]) (auto simp: quiet_def data_name_def doc_names_def)

lemma quiet_landed:
  assumes "unit_wf l0 meta" and "quiet s s'"
  shows "landed js rd l0 meta receipts0 m0 R (fs_files (snd s')) = landed js rd l0 meta receipts0 m0 R (fs_files (snd s))"
  using assms docs_not_staging [of "commits_file (fl_scope l0)" "fl_scope l0"]
  by (intro landed_cong) (auto simp: quiet_def data_name_def doc_names_def)

section \<open>Steps of a publish\<close>

definition mem :: "('w, 's) file_load \<Rightarrow> (string docs \<Rightarrow> bool) \<Rightarrow> ('w, 's) file_load \<times> fs \<Rightarrow> bool" where
  "mem l P s \<longleftrightarrow> fst s = l \<and> P (fs_files (snd s))"

lemma hoare_io:
  assumes "\<And>m a m'. P m \<Longrightarrow> call m = (Inr a, m') \<Longrightarrow> Q a m'" and "\<And>m. P m \<Longrightarrow> E m \<and> E (snd (call m))"
  shows "hoare (mem l P) (on_fs (io call)) (\<lambda>a. mem l (Q a)) (mem l E)"
proof (rule hoareI)
  fix s r s' assume s: "mem l P s" and run: "on_fs (io call) s = (r, s')"
  obtain l' d where sd: "s = (l', d)" by (cases s)
  obtain r1 d' where io: "io call d = (r1, d')" by (cases "io call d")
  have res: "r = r1" "s' = (l, d')" "P (fs_files d)" using s run sd io by (simp_all add: mem_def on_fs_def)
  show "case r of Inl _ \<Rightarrow> mem l E s' | Inr a \<Rightarrow> mem l (Q a) s'"
  proof (cases r1)
    case (Inl e)
    have "fs_files d' = fs_files d \<or> fs_files d' = snd (call (fs_files d))" using io_effect [of call d] io by simp
    with assms(2) [OF res(3)] res Inl show ?thesis by (auto simp: mem_def)
  next
    case (Inr a)
    with io_Inr [of call d a d'] io assms(1) [OF res(3)] res show ?thesis by (auto simp: mem_def)
  qed
qed

lemma hoare_touch: "(\<And>m. P m \<Longrightarrow> E m) \<Longrightarrow> hoare (mem l P) (on_fs touch) (\<lambda>_. mem l P) (mem l E)"
  unfolding touch_def by (rule hoare_io) auto

lemma hoare_get: "(\<And>m. P m \<Longrightarrow> E m) \<Longrightarrow> hoare (mem l P) (on_fs (get_file n)) (\<lambda>b. mem l (\<lambda>m. P m \<and> b = m n)) (mem l E)"
  unfolding get_file_def by (rule hoare_io) auto

lemma hoare_list:
  "(\<And>m. P m \<Longrightarrow> E m) \<Longrightarrow> hoare (mem l P) (on_fs (list_files fl dir)) (\<lambda>ns. mem l (\<lambda>m. P m \<and> ns = list_under fl m dir)) (mem l E)"
  unfolding list_files_def by (rule hoare_io) auto

lemma hoare_put:
  "(\<And>m. P m \<Longrightarrow> Q (m(n \<mapsto> b)) \<and> E m \<and> E (m(n \<mapsto> b))) \<Longrightarrow> hoare (mem l P) (on_fs (put_file n b)) (\<lambda>_. mem l Q) (mem l E)"
  unfolding put_file_def by (rule hoare_io) auto

lemma hoare_remove:
  "(\<And>m. P m \<Longrightarrow> Q (m(n := None)) \<and> E m \<and> E (m(n := None))) \<Longrightarrow> hoare (mem l P) (on_fs (remove_if_present n)) (\<lambda>_. mem l Q) (mem l E)"
  unfolding remove_if_present_def by (rule hoare_io) auto

lemma hoare_remove_file:
  "(\<And>m. P m \<Longrightarrow> Q (m(n := None)) \<and> E m \<and> E (m(n := None))) \<Longrightarrow> hoare (mem l P) (on_fs (remove_file fl n)) (\<lambda>_. mem l Q) (mem l E)"
  unfolding remove_file_def by (rule hoare_io) (auto split: if_splits)

lemma hoare_open_file: "(\<And>m. P m \<Longrightarrow> E m) \<Longrightarrow> hoare (mem l P) (on_fs (open_file fl n)) (\<lambda>_. mem l P) (mem l E)"
  unfolding open_file_def by (rule hoare_io) (auto split: if_splits)

lemma hoare_rename:
  "(\<And>m b. P m \<Longrightarrow> m x = Some b \<Longrightarrow> Q ((m(x := None))(y \<mapsto> b)) \<and> E ((m(x := None))(y \<mapsto> b))) \<Longrightarrow> (\<And>m. P m \<Longrightarrow> E m) \<Longrightarrow>
    hoare (mem l P) (on_fs (rename_file fl x y)) (\<lambda>_. mem l Q) (mem l E)"
  unfolding rename_file_def by (rule hoare_io) (auto split: option.splits)

lemma hoare_copy:
  "(\<And>m b. P m \<Longrightarrow> m x = Some b \<Longrightarrow> Q (m(y \<mapsto> b)) \<and> E (m(y \<mapsto> b))) \<Longrightarrow> (\<And>m. P m \<Longrightarrow> E m) \<Longrightarrow>
    hoare (mem l P) (on_fs (copy_file fl x y)) (\<lambda>_. mem l Q) (mem l E)"
  unfolding copy_file_def by (rule hoare_io) (auto split: option.splits)

lemma on_fs_abind: "on_fs (abind m k) = abind (on_fs m) (\<lambda>a. on_fs (k a))"
  by (auto simp: fun_eq_iff on_fs_def abind_def split: prod.splits sum.splits)

lemma on_fs_pure: "on_fs (aret a) = aret a" "on_fs (alift r) = alift r" "on_fs (afail e) = afail e"
  by (auto simp: fun_eq_iff on_fs_def)

lemma on_fs_aeach: "on_fs (aeach f xs) = aeach (\<lambda>x. on_fs (f x)) xs"
proof (induction xs)
  case Nil
  show ?case by (simp only: aeach.simps on_fs_pure)
next
  case (Cons x xs)
  then show ?case by (simp only: aeach.simps on_fs_abind)
qed

text \<open>A document written, on either arm: its text under its own name or under the temporary one.\<close>

lemma hoare_write_doc:
  assumes tmp: "\<And>m b. P m \<Longrightarrow> P (m(name @ ''.tmp'' \<mapsto> b))"
    and written: "\<And>m b. P m \<Longrightarrow> body = Inr b \<Longrightarrow> Q (m(name \<mapsto> b))"
    and Q: "\<And>m. Q m \<Longrightarrow> Q (m(name @ ''.tmp'' := None))"
    and E: "\<And>m. P m \<Longrightarrow> E m" "\<And>m. Q m \<Longrightarrow> E m"
  shows "hoare (mem l P) (on_fs (write_doc fl arm name body)) (\<lambda>_. mem l Q) (mem l E)"
proof (cases body)
  case (Inl e)
  then show ?thesis by (auto simp: write_doc_def on_fs_abind on_fs_pure hoare_def abind_def mem_def E)
next
  case (Inr b)
  let ?tmp = "name @ ''.tmp''"
  have "hoare (mem l P) (on_fs (put_file ?tmp b)) (\<lambda>_. mem l (\<lambda>m. P m \<and> m ?tmp = Some b)) (mem l E)"
    by (rule hoare_put) (simp add: tmp E)
  moreover have "hoare (mem l (\<lambda>m. P m \<and> m ?tmp = Some b)) (on_fs (rename_file fl ?tmp name)) (\<lambda>_. mem l Q) (mem l E)"
  proof (rule hoare_rename)
    fix m c assume m: "P m \<and> m ?tmp = Some b" "m ?tmp = Some c"
    have "(m(?tmp := None))(name \<mapsto> c) = (m(name \<mapsto> b))(?tmp := None)" using m by (auto simp: fun_eq_iff)
    with Q [OF written [OF _ Inr, of m]] m(1) E(2)
    show "Q ((m(?tmp := None))(name \<mapsto> c)) \<and> E ((m(?tmp := None))(name \<mapsto> c))" by simp
  qed (simp add: E)
  moreover have "hoare (mem l P) (on_fs (put_file name b)) (\<lambda>_. mem l Q) (mem l E)"
    by (rule hoare_put) (simp add: written [OF _ Inr] E)
  moreover have "hoare (mem l Q) (on_fs touch) (\<lambda>_. mem l Q) (mem l E)" by (rule hoare_touch) (rule E(2))
  moreover have eq: "on_fs (write_doc fl arm name body) = (case arm of
       LocalArm \<Rightarrow> abind (on_fs (put_file ?tmp b)) (\<lambda>_. abind (on_fs (rename_file fl ?tmp name)) (\<lambda>_. on_fs touch))
     | S3Arm \<Rightarrow> on_fs (put_file name b))"
    by (cases arm) (simp_all add: write_doc_def Inr on_fs_abind [symmetric] fun_eq_iff on_fs_def abind_def)
  ultimately show ?thesis unfolding eq by (cases arm) (auto intro: hoare_abind)
qed

section \<open>Truncation\<close>

lemma hoare_pre: "(\<And>s. P' s \<Longrightarrow> P s) \<Longrightarrow> hoare P m Q E \<Longrightarrow> hoare P' m Q E"
  by (rule hoare_weaken)

lemma hoare_known:
  assumes "\<And>s. P s \<Longrightarrow> c" and "c \<Longrightarrow> hoare P m Q E"
  shows "hoare P m Q E"
proof (cases c)
  case False
  with assms(1) have "\<not> P s" for s by blast
  then show ?thesis by (simp add: hoare_def)
qed (rule assms(2))

lemma tail_under: "tail_under_root (t @ ''/'') (t @ CHR ''/'' # r) = Inr (Some r)"
proof -
  have "strip_prefix (t @ ''/'') (t @ CHR ''/'' # r) = Some r" by (simp add: strip_prefix_Some)
  then show ?thesis by (simp add: tail_under_root_def)
qed

lemma keys_S3:
  assumes "\<forall>n \<in> set names. \<exists>r. n = t @ CHR ''/'' # r"
  shows "traverse (tail_under_root (t @ ''/'')) names = Inr (map (\<lambda>n. Some (drop (length t + 1) n)) names)"
  using assms by (induction names) (auto simp: tail_under)

lemma hoare_keys:
  assumes "fs_lib_ok fl" and E: "\<And>m. P m \<Longrightarrow> E m" and fin: "\<And>m. P m \<Longrightarrow> finite (dom m)"
  shows "hoare (mem l P) (on_fs (keys_of_table fl arm t))
    (\<lambda>tails. mem l (\<lambda>m. P m \<and> (\<forall>r. m (t @ ''/'' @ r) \<noteq> None \<longrightarrow> r \<in> set tails))) (mem l E)"
  unfolding keys_of_table_def on_fs_abind
proof (rule hoare_abind [OF hoare_list], rule E, assumption)
  fix names :: "string list"
  let ?tails = "map (drop (length t + 1)) names"
  let ?Q = "\<lambda>tails. mem l (\<lambda>m. P m \<and> (\<forall>r. m (t @ ''/'' @ r) \<noteq> None \<longrightarrow> r \<in> set tails))"
  let ?k = "case arm of LocalArm \<Rightarrow> aret ?tails
    | S3Arm \<Rightarrow> alift (rbind (traverse (tail_under_root (t @ ''/'')) names) (\<lambda>tails. Inr (List.map_filter id tails)))"
  show "hoare (mem l (\<lambda>m. P m \<and> names = list_under fl m t)) (on_fs ?k) ?Q (mem l E)"
  proof (rule hoareI)
    fix s r s' assume s: "mem l (\<lambda>m. P m \<and> names = list_under fl m t) s" and run: "on_fs ?k s = (r, s')"
    have set: "set names = {n. fs_files (snd s) n \<noteq> None \<and> (\<exists>r. n = t @ ''/'' @ r)}"
    proof -
      have "finite (dom (fs_files (snd s)))" using s fin by (simp add: mem_def)
      with assms(1) have "set (list_under fl (fs_files (snd s)) t) = {n. fs_files (snd s) n \<noteq> None \<and> (\<exists>r. n = t @ ''/'' @ r)}"
        unfolding fs_lib_ok_def Let_def by blast
      with s show ?thesis by (simp add: mem_def)
    qed
    then have "\<forall>n \<in> set names. \<exists>r. n = t @ CHR ''/'' # r" by auto
    from keys_S3 [OF this] have "rbind (traverse (tail_under_root (t @ ''/'')) names) (\<lambda>tails. Inr (List.map_filter id tails)) = Inr ?tails"
      by (simp add: map_filter_simps(1) List.map_filter_def comp_def)
    then have "on_fs ?k = Pair (Inr ?tails)" by (cases arm) (simp_all add: fun_eq_iff on_fs_def)
    from fun_cong [OF this, of s] run have r: "r = Inr ?tails" "s' = s" by (simp_all only: prod.inject)
    have "q \<in> set ?tails" if "fs_files (snd s) (t @ ''/'' @ q) \<noteq> None" for q
    proof -
      from that set have "t @ ''/'' @ q \<in> set names" by auto
      then have "drop (length t + 1) (t @ ''/'' @ q) \<in> set ?tails" unfolding set_map by (rule imageI)
      then show ?thesis by simp
    qed
    with s r show "case r of Inl _ \<Rightarrow> mem l E s' | Inr a \<Rightarrow> ?Q a s'" by (simp add: mem_def)
  qed
qed

lemma hoare_delete:
  assumes "\<And>m. P m \<Longrightarrow> Q (m(t @ ''/'' @ r := None)) \<and> E m \<and> E (m(t @ ''/'' @ r := None))"
  shows "hoare (mem l P) (on_fs (delete_table_file fl arm t r)) (\<lambda>_. mem l Q) (mem l E)"
  using hoare_remove [of P Q "t @ ''/'' @ r" E l, OF assms] hoare_remove_file [of P Q "t @ ''/'' @ r" E l fl, OF assms]
  by (cases arm) (simp_all add: delete_table_file_def)

lemma hoare_truncate_table:
  assumes lib: "fs_lib_ok fl" and P: "\<And>m r. P m \<Longrightarrow> truncated_tail frozen r \<Longrightarrow> P (m(t @ ''/'' @ r := None))"
    and E: "\<And>m. P m \<Longrightarrow> E m" and fin: "\<And>m. P m \<Longrightarrow> finite (dom m)"
  shows "hoare (mem l P) (on_fs (truncate_table fl arm t frozen))
    (\<lambda>_. mem l (\<lambda>m. P m \<and> (\<forall>r. truncated_tail frozen r \<longrightarrow> m (t @ ''/'' @ r) = None))) (mem l E)"
  unfolding truncate_table_def on_fs_abind
proof (rule hoare_abind [OF hoare_keys [OF lib]], rule E, assumption, rule fin, assumption)
  fix tails
  let ?ours = "filter (truncated_tail frozen) tails"
  let ?listed = "\<lambda>m. P m \<and> (\<forall>r. m (t @ ''/'' @ r) \<noteq> None \<longrightarrow> r \<in> set tails)"
  let ?P = "\<lambda>i m. ?listed m \<and> (\<forall>j < i. m (t @ ''/'' @ ?ours ! j) = None)"
  let ?Q = "\<lambda>m. P m \<and> (\<forall>r. truncated_tail frozen r \<longrightarrow> m (t @ ''/'' @ r) = None)"
  have "hoare (mem l (?P 0)) (aeach (\<lambda>r. on_fs (delete_table_file fl arm t r)) ?ours) (\<lambda>_. mem l (?P (length ?ours))) (mem l E)"
  proof (rule hoare_aeach_nth, rule hoare_delete)
    fix i m assume i: "i < length ?ours" and m: "?P i m"
    from i have "truncated_tail frozen (?ours ! i)" using nth_mem by fastforce
    with P m have "P (m(t @ ''/'' @ ?ours ! i := None))" by blast
    with m E show "?P (Suc i) (m(t @ ''/'' @ ?ours ! i := None)) \<and> E m \<and> E (m(t @ ''/'' @ ?ours ! i := None))"
      by (auto simp: less_Suc_eq)
  qed
  moreover have "?Q m" if "?P (length ?ours) m" for m
  proof -
    have "m (t @ ''/'' @ r) = None" if r: "truncated_tail frozen r" for r
    proof (rule ccontr)
      assume "m (t @ ''/'' @ r) \<noteq> None"
      with \<open>?P (length ?ours) m\<close> r have "r \<in> set ?ours" by simp
      then obtain j where "j < length ?ours" "?ours ! j = r" unfolding in_set_conv_nth by blast
      with \<open>?P (length ?ours) m\<close> have "m (t @ ''/'' @ r) = None" by metis
      with \<open>m (t @ ''/'' @ r) \<noteq> None\<close> show False by (rule notE)
    qed
    with that show ?thesis by blast
  qed
  ultimately have "hoare (mem l ?listed) (on_fs (aeach (delete_table_file fl arm t) ?ours)) (\<lambda>_. mem l ?Q) (mem l E)"
    unfolding on_fs_aeach by (elim hoare_weaken) (auto simp: mem_def)
  then show "hoare (mem l ?listed) (on_fs (let ours = ?ours in abind (aeach (delete_table_file fl arm t) ours) (\<lambda>_. aret (length ours))))
      (\<lambda>_. mem l ?Q) (mem l E)"
    unfolding Let_def on_fs_abind on_fs_pure by (rule hoare_abind) (rule hoare_aret)
qed

end
