(* ===== verification/File_Publish.thy ===== *)
theory File_Publish
  imports File_Unit
begin

text \<open>
  \<open>file_publish\<close> against the two conditions of \<open>File_Unit\<close>: wherever it stops it leaves
  \<open>recorded\<close> or \<open>landed\<close>, and it returns a receipt only with the unit landed.
\<close>

definition unit_fresh ::
    "doc_json \<Rightarrow> ('w, 's) file_load \<Rightarrow> commit_meta \<Rightarrow> (string \<times> 64 word) list \<Rightarrow> string docs \<Rightarrow> bool" where
  "unit_fresh js l0 meta receipts0 m0 \<longleftrightarrow> unit_wf l0 meta
     \<and> (\<exists>log. log_decode js (m0 (commits_file (fl_scope l0))) (commits_file (fl_scope l0)) = Inr log \<and> cl_receipts log = receipts0)
     \<and> (meta_load meta, meta_seq meta) \<notin> set receipts0 \<and> (\<forall>n \<in> unit_names l0 meta. m0 n = None)"

text \<open>The staged parts and their contents.\<close>

definition holds :: "(staged_part \<Rightarrow> string) \<Rightarrow> staged_part list \<Rightarrow> string docs \<Rightarrow> bool" where
  "holds c ps m \<longleftrightarrow> (\<forall>p \<in> set ps. staging_name (sp_tail p) \<and> m (sp_tail p) = Some (c p))"

lemma holds_upd [simp]: "\<not> staging_name n \<Longrightarrow> holds c ps (m(n := b)) = holds c ps m"
  unfolding holds_def by (rule ball_cong) auto

lemma data_not_staging: "data_name scope n \<Longrightarrow> \<not> staging_name n"
  by (simp add: data_name_def)

lemma data_not_doc: "data_name scope n \<Longrightarrow> n \<noteq> manifest_file scope \<and> n \<noteq> commits_file scope"
  by (auto simp: data_name_def doc_names_def)

section \<open>Removing names\<close>

lemma manifest_for_upd: "n \<noteq> manifest_file scope \<Longrightarrow> manifest_for js scope meta (m(n := b)) = manifest_for js scope meta m"
  by (simp add: manifest_for_def fun_eq_iff)

lemma recorded_remove:
  assumes rec: "recorded js l0 meta receipts0 m0 m" and n: "data_name (fl_scope l0) n"
    and why: "n \<in> cleared_names l0 meta receipts0 \<or> (\<exists>names. manifest_for js (fl_scope l0) meta m names \<and> n \<in> set names)"
  shows "recorded js l0 meta receipts0 m0 (m(n := None))"
proof -
  let ?s = "fl_scope l0" and ?D = "cleared_names l0 meta receipts0"
  note doc = data_not_doc [OF n]
  have m': "manifest_for js ?s meta (m(n := None)) = manifest_for js ?s meta m" using doc by (intro manifest_for_upd) simp
  from rec obtain N where N: "left_over ?s ?D m0 N m" "N \<subseteq> unit_names l0 meta"
    "N = {} \<or> (\<exists>names. manifest_for js ?s meta m names \<and> N \<subseteq> set names)" and fin: "finite (dom m)"
    and c: "m (commits_file ?s) = m0 (commits_file ?s)"
      "\<And>names. manifest_for js ?s meta m names \<Longrightarrow> set names \<subseteq> unit_names l0 meta"
    unfolding recorded_def by blast
  have "\<exists>N. left_over ?s ?D m0 N (m(n := None)) \<and> N \<subseteq> unit_names l0 meta \<and> (N = {} \<or> (\<exists>names. manifest_for js ?s meta m names \<and> N \<subseteq> set names))"
    using why
  proof
    assume "n \<in> ?D"
    with N(1) have "left_over ?s ?D m0 N (m(n := None))" by (auto simp: left_over_def)
    with N show ?thesis by blast
  next
    assume "\<exists>names. manifest_for js ?s meta m names \<and> n \<in> set names"
    then obtain names where names: "manifest_for js ?s meta m names" "n \<in> set names" by blast
    have same: "names' = names" if "manifest_for js ?s meta m names'" for names'
      using that names(1) by (auto simp: manifest_for_def)
    have sub: "N \<subseteq> set names" using N(3) same by auto
    have "left_over ?s ?D m0 (set names) (m(n := None))" using N(1) sub names(2) by (auto simp: left_over_def)
    with names c(2) [OF names(1)] show ?thesis by blast
  qed
  moreover have "(m(n := None)) (commits_file ?s) = m0 (commits_file ?s)" using doc c(1) by auto
  moreover have "finite (dom (m(n := None)))" using fin by simp
  ultimately show ?thesis using c(2) unfolding recorded_def m' by blast
qed

section \<open>The phases\<close>

text \<open>
  Before the manifest is overwritten: \<open>gone\<close> names what has been removed so far.
\<close>

definition before_manifest ::
    "doc_json \<Rightarrow> ('w, 's) file_load \<Rightarrow> commit_meta \<Rightarrow> (string \<times> 64 word) list \<Rightarrow> string docs
      \<Rightarrow> (staged_part \<Rightarrow> string) \<Rightarrow> staged_part list \<Rightarrow> string set \<Rightarrow> string docs \<Rightarrow> bool" where
  "before_manifest js l0 meta receipts0 m0 c ps gone m \<longleftrightarrow>
     recorded js l0 meta receipts0 m0 m \<and> holds c ps m \<and> (\<forall>n \<in> gone. m n = None)"

definition unfinished ::
    "doc_json \<Rightarrow> (dest_format \<Rightarrow> string \<Rightarrow> 'x list) \<Rightarrow> ('w, 's) file_load \<Rightarrow> commit_meta \<Rightarrow> (string \<times> 64 word) list
      \<Rightarrow> string docs \<Rightarrow> (string \<Rightarrow> 'x multiset) \<Rightarrow> string docs \<Rightarrow> bool" where
  "unfinished js rd l0 meta receipts0 m0 R m \<longleftrightarrow>
     recorded js l0 meta receipts0 m0 m \<or> landed js rd l0 meta receipts0 m0 R m"

lemma before_remove:
  assumes "before_manifest js l0 meta receipts0 m0 c ps gone m" and "data_name (fl_scope l0) n"
    and "n \<in> cleared_names l0 meta receipts0 \<or> (\<exists>names. manifest_for js (fl_scope l0) meta m names \<and> n \<in> set names)"
  shows "before_manifest js l0 meta receipts0 m0 c ps (insert n gone) (m(n := None))"
  using assms recorded_remove [of js l0 meta receipts0 m0 m n] data_not_staging [of "fl_scope l0" n]
  by (auto simp: before_manifest_def)

lemma before_mono: "gone' \<subseteq> gone \<Longrightarrow> before_manifest js l0 meta receipts0 m0 c ps gone m \<Longrightarrow>
    before_manifest js l0 meta receipts0 m0 c ps gone' m"
  by (auto simp: before_manifest_def)

lemma before_unfinished: "before_manifest js l0 meta receipts0 m0 c ps gone m \<Longrightarrow> unfinished js rd l0 meta receipts0 m0 R m"
  by (simp add: before_manifest_def unfinished_def)

lemma same_frozen: "same_load l0 l \<Longrightarrow> frozen_plain_parquet l = frozen_plain_parquet l0"
  by (simp add: same_load_def frozen_plain_parquet_def)

definition table_names :: "('w, 's) file_load \<Rightarrow> string \<Rightarrow> string set" where
  "table_names l t = {t @ ''/'' @ r | r. truncated_tail (frozen_plain_parquet l) r}"

lemma replaced_tables: "replaced_names l = (\<Union>t \<in> set (map fst (filter (\<lambda>(_, mode). mode = Replace) (fl_tables l))). table_names l t)"
  by (force simp: replaced_names_def table_names_def)

lemma truncate_replaced_clears:
  assumes lib: "fs_lib_ok fl" and wf: "unit_wf l0 meta" and l: "same_load l0 l" and first: "meta_load meta \<notin> fst ` set receipts0"
  shows "hoare (mem l (before_manifest js l0 meta receipts0 m0 c ps {})) (truncate_replaced fl)
    (\<lambda>_. mem l (before_manifest js l0 meta receipts0 m0 c ps (replaced_names l0))) (mem l (unfinished js rd l0 meta receipts0 m0 R))"
proof -
  let ?ts = "map fst (filter (\<lambda>(_, mode). mode = Replace) (fl_tables l))"
  let ?B = "before_manifest js l0 meta receipts0 m0 c ps"
  let ?E = "unfinished js rd l0 meta receipts0 m0 R"
  let ?gone = "\<lambda>i. \<Union>t \<in> set (take i ?ts). table_names l0 t"
  have tabs: "fl_tables l = fl_tables l0" and frozen: "frozen_plain_parquet l = frozen_plain_parquet l0"
    using l same_frozen [OF l] by (simp_all only: same_load_def)
  have all: "?gone (length ?ts) = replaced_names l0"
    unfolding replaced_tables [of l0] tabs by (simp only: take_all order_refl)
  have step: "hoare (mem l (?B (?gone i))) (abind (on_fs (truncate_table fl (fl_arm l) (?ts ! i) (frozen_plain_parquet l))) (\<lambda>_. aret ()))
      (\<lambda>_. mem l (?B (?gone (Suc i)))) (mem l ?E)" if i: "i < length ?ts" for i
  proof (rule hoare_abind)
    have t: "(?ts ! i, Replace) \<in> set (fl_tables l0)" using nth_mem [OF i] tabs by auto
    show "hoare (mem l (?B (?gone i))) (on_fs (truncate_table fl (fl_arm l) (?ts ! i) (frozen_plain_parquet l)))
      (\<lambda>_. mem l (\<lambda>m. ?B (?gone i) m \<and> (\<forall>r. truncated_tail (frozen_plain_parquet l) r \<longrightarrow> m (?ts ! i @ ''/'' @ r) = None))) (mem l ?E)"
    proof (rule hoare_truncate_table [OF lib])
      fix m r assume m: "?B (?gone i) m" and r: "truncated_tail (frozen_plain_parquet l) r"
      let ?n = "?ts ! i @ ''/'' @ r"
      have n: "?n \<in> replaced_names l0" using t r frozen unfolding replaced_names_def by force
      then have "?n \<in> cleared_names l0 meta receipts0" using first by (simp add: cleared_names_def)
      from before_remove [OF m replaced_names_data [OF wf n] disjI1 [OF this]]
      show "?B (?gone i) (m(?n := None))" by (rule before_mono [rotated]) blast
    qed (auto simp: before_manifest_def recorded_def unfinished_def)
    show "hoare (mem l (\<lambda>m. ?B (?gone i) m \<and> (\<forall>r. truncated_tail (frozen_plain_parquet l) r \<longrightarrow> m (?ts ! i @ ''/'' @ r) = None)))
      (aret ()) (\<lambda>_. mem l (?B (?gone (Suc i)))) (mem l ?E)"
      using i frozen by (intro hoare_aret) (auto simp: mem_def before_manifest_def take_Suc_conv_app_nth table_names_def)
  qed
  have "hoare (mem l (?B (?gone 0))) (aeach (\<lambda>t. abind (on_fs (truncate_table fl (fl_arm l) t (frozen_plain_parquet l))) (\<lambda>_. aret ())) ?ts)
      (\<lambda>_. mem l (?B (?gone (length ?ts)))) (mem l ?E)"
    by (rule hoare_aeach_nth) (rule step)
  then have body: "hoare (mem l (?B {})) (aeach (\<lambda>t. abind (on_fs (truncate_table fl (fl_arm l) t (frozen_plain_parquet l))) (\<lambda>_. aret ())) ?ts)
      (\<lambda>_. mem l (?B (replaced_names l0))) (mem l ?E)"
    unfolding all by simp
  show ?thesis unfolding truncate_replaced_def
  proof (rule hoare_on_load)
    fix l'
    show "hoare (\<lambda>s. mem l (?B {}) s \<and> fst s = l') (aeach (\<lambda>t. abind (on_fs (truncate_table fl (fl_arm l') t (frozen_plain_parquet l'))) (\<lambda>_. aret ()))
        (map fst (filter (\<lambda>(_, mode). mode = Replace) (fl_tables l')))) (\<lambda>_. mem l (?B (replaced_names l0))) (mem l ?E)"
      by (rule hoare_known [of _ "l' = l"]) (auto simp: mem_def intro: hoare_pre [OF _ body])
  qed
qed

text \<open>
  Once no name is left that the new manifest would forget; and while the parts are published,
  the first \<open>i\<close> of them.
\<close>

definition swept ::
    "doc_json \<Rightarrow> ('w, 's) file_load \<Rightarrow> commit_meta \<Rightarrow> (string \<times> 64 word) list \<Rightarrow> string docs \<Rightarrow> string list \<Rightarrow> string docs \<Rightarrow> bool" where
  "swept js l0 meta receipts0 m0 new m \<longleftrightarrow> recorded js l0 meta receipts0 m0 m
     \<and> (\<forall>n \<in> cleared_names l0 meta receipts0. n \<notin> set new \<longrightarrow> m n = None)
     \<and> left_over (fl_scope l0) (cleared_names l0 meta receipts0) m0 (set new) m"

definition publishing ::
    "doc_json \<Rightarrow> ('w, 's) file_load \<Rightarrow> commit_meta \<Rightarrow> (string \<times> 64 word) list \<Rightarrow> string docs \<Rightarrow> ('w, 's) file_load
      \<Rightarrow> (staged_part \<Rightarrow> string) \<Rightarrow> staged_part list \<Rightarrow> nat \<Rightarrow> string docs \<Rightarrow> bool" where
  "publishing js l0 meta receipts0 m0 l c ps i m \<longleftrightarrow>
     swept js l0 meta receipts0 m0 (map (final_of l meta) ps) m
     \<and> manifest_for js (fl_scope l0) meta m (btree_set (map (final_of l meta) ps))
     \<and> holds c (drop i ps) m \<and> (\<forall>j < i. m (final_of l meta (ps ! j)) = Some (c (ps ! j)))"

lemma swept_cong: "set new = set new' \<Longrightarrow> swept js l0 meta receipts0 m0 new = swept js l0 meta receipts0 m0 new'"
  by (simp add: swept_def fun_eq_iff)

lemma set_btree_set [simp]: "set (btree_set xs) = set xs"
  by (simp add: btree_set_def)

lemma sweep:
  assumes fresh: "unit_fresh js l0 meta receipts0 m0"
    and "before_manifest js l0 meta receipts0 m0 c ps (cleared_names l0 meta receipts0 \<union> set (stale_names meta new prior)) m"
    and prior: "manifest_decode js (m (manifest_file (fl_scope l0))) (manifest_file (fl_scope l0)) = Inr prior"
  shows "swept js l0 meta receipts0 m0 new m"
proof -
  let ?s = "fl_scope l0" and ?D = "cleared_names l0 meta receipts0"
  have rec: "recorded js l0 meta receipts0 m0 m" and gone: "\<forall>n \<in> ?D \<union> set (stale_names meta new prior). m n = None"
    using assms(2) by (simp_all add: before_manifest_def)
  from rec obtain N where N: "left_over ?s ?D m0 N m" "N \<subseteq> unit_names l0 meta"
    "N = {} \<or> (\<exists>names. manifest_for js ?s meta m names \<and> N \<subseteq> set names)" unfolding recorded_def by blast
  have "n \<in> set new \<or> m n = None \<and> m0 n = None" if n: "n \<in> N" for n
  proof (cases "n \<in> set new")
    case False
    from N(3) n obtain mf where mf: "prior = Some mf" "mf_load mf = meta_load meta" "mf_seq mf = meta_seq meta" "n \<in> set (mf_names mf)"
      using prior by (auto simp: manifest_for_def)
    with False have "n \<in> set (stale_names meta new prior)" by (simp add: stale_names_def)
    with gone fresh N(2) n show ?thesis by (auto simp: unit_fresh_def)
  qed blast
  with N(1) have "left_over ?s ?D m0 (set new) m" unfolding left_over_def by metis
  with rec gone show ?thesis by (simp add: swept_def)
qed

lemma stale_removed:
  assumes fresh: "unit_fresh js l0 meta receipts0 m0"
    and P: "P = (\<lambda>m. before_manifest js l0 meta receipts0 m0 c ps (cleared_names l0 meta receipts0) m
      \<and> manifest_decode js (m (manifest_file (fl_scope l0))) (manifest_file (fl_scope l0)) = Inr prior)"
  shows "hoare (mem l P) (aeach (\<lambda>n. on_fs (remove_if_present n)) (stale_names meta new prior))
    (\<lambda>_. mem l (\<lambda>m. swept js l0 meta receipts0 m0 new m \<and> holds c ps m)) (mem l (unfinished js rd l0 meta receipts0 m0 R))"
proof -
  let ?s = "fl_scope l0" and ?D = "cleared_names l0 meta receipts0"
  let ?stale = "stale_names meta new prior"
  let ?B = "before_manifest js l0 meta receipts0 m0 c ps"
  let ?P = "\<lambda>i m. ?B (?D \<union> set (take i ?stale)) m \<and> manifest_decode js (m (manifest_file ?s)) (manifest_file ?s) = Inr prior"
  let ?E = "unfinished js rd l0 meta receipts0 m0 R"
  have "hoare (mem l (?P 0)) (aeach (\<lambda>n. on_fs (remove_if_present n)) ?stale) (\<lambda>_. mem l (?P (length ?stale))) (mem l ?E)"
  proof (rule hoare_aeach_nth, rule hoare_remove)
    fix i m assume i: "i < length ?stale" and m: "?P i m"
    let ?n = "?stale ! i"
    have "?n \<in> set ?stale" using i by (rule nth_mem)
    then obtain mf where mf: "prior = Some mf" "mf_load mf = meta_load meta" "mf_seq mf = meta_seq meta" "?n \<in> set (mf_names mf)"
      by (auto simp: stale_names_def split: option.splits if_splits)
    then have names: "manifest_for js ?s meta m (mf_names mf)" using m by (auto simp: manifest_for_def)
    have rec: "recorded js l0 meta receipts0 m0 m" using m by (simp add: before_manifest_def)
    with names mf(4) have "?n \<in> unit_names l0 meta" unfolding recorded_def by blast
    with fresh have data: "data_name ?s ?n" by (auto simp: unit_fresh_def intro: unit_names_data)
    have "?B (insert ?n (?D \<union> set (take i ?stale))) (m(?n := None))"
      using m names mf(4) by (intro before_remove [OF _ data] disjI2) blast+
    moreover have "insert ?n (?D \<union> set (take i ?stale)) = ?D \<union> set (take (Suc i) ?stale)"
      using i by (simp add: take_Suc_conv_app_nth)
    ultimately have B: "?B (?D \<union> set (take (Suc i) ?stale)) (m(?n := None))" by simp
    have same: "(m(?n := None)) (manifest_file ?s) = m (manifest_file ?s)" using data_not_doc [OF data] by auto
    show "?P (Suc i) (m(?n := None)) \<and> ?E m \<and> ?E (m(?n := None))"
      unfolding same using B conjunct2 [OF m] before_unfinished [OF B] before_unfinished [OF conjunct1 [OF m]] by blast
  qed
  then show ?thesis
  proof (rule hoare_weaken)
    fix s assume "mem l P s"
    then show "mem l (?P 0) s" by (simp add: P mem_def)
  next
    fix u s assume "mem l (?P (length ?stale)) s"
    with sweep [OF fresh, of c ps new prior "fs_files (snd s)"]
    show "mem l (\<lambda>m. swept js l0 meta receipts0 m0 new m \<and> holds c ps m) s"
      by (simp add: mem_def before_manifest_def)
  qed simp
qed

section \<open>The manifest and the parts\<close>

lemma manifest_written:
  assumes "doc_json_ok js" and "manifest_text js \<lparr>mf_format_version = LAYOUT_FORMAT_VERSION, mf_load = meta_load meta, mf_seq = meta_seq meta, mf_names = new\<rparr> = Inr b"
  shows "manifest_for js scope meta (m(manifest_file scope \<mapsto> b)) names \<longleftrightarrow> names = new"
proof -
  let ?mf = "\<lparr>mf_format_version = LAYOUT_FORMAT_VERSION, mf_load = meta_load meta, mf_seq = meta_seq meta, mf_names = new\<rparr>"
  obtain b' where "manifest_text js ?mf = Inr b'" "manifest_parse js b' = Inr ?mf"
    using assms(1) unfolding doc_json_ok_def by blast
  then have "manifest_parse js b = Inr ?mf" using assms(2) by simp
  then show ?thesis by (auto simp: manifest_for_def manifest_decode_def version_gate_def)
qed

lemma left_over_cong:
  "(\<And>n. data_name scope n \<Longrightarrow> m' n = m n) \<Longrightarrow> left_over scope D m0 N m' = left_over scope D m0 N m"
  by (auto simp: left_over_def)

lemma swept_doc:
  assumes wf: "unit_wf l0 meta" and sw: "swept js l0 meta receipts0 m0 new m" and sub: "set new \<subseteq> unit_names l0 meta"
    and same: "\<And>n. data_name (fl_scope l0) n \<Longrightarrow> m' n = m n" and c: "m' (commits_file (fl_scope l0)) = m (commits_file (fl_scope l0))"
    and mf: "m' (manifest_file (fl_scope l0)) = m (manifest_file (fl_scope l0)) \<or> (\<forall>names. manifest_for js (fl_scope l0) meta m' names \<longleftrightarrow> names = new')"
    and new': "set new' = set new" and fin: "finite (dom m) \<Longrightarrow> finite (dom m')"
  shows "swept js l0 meta receipts0 m0 new m'"
proof -
  let ?s = "fl_scope l0" and ?D = "cleared_names l0 meta receipts0"
  have rec: "recorded js l0 meta receipts0 m0 m" and D: "\<forall>n \<in> ?D. n \<notin> set new \<longrightarrow> m n = None"
    and left: "left_over ?s ?D m0 (set new) m" using sw by (simp_all add: swept_def)
  have left': "left_over ?s ?D m0 (set new) m'" using left left_over_cong [OF same] by simp
  have "?D \<subseteq> replaced_names l0" by (simp add: cleared_names_def)
  with replaced_names_data [OF wf] have Dd: "data_name ?s n" if "n \<in> ?D" for n using that by blast
  have "recorded js l0 meta receipts0 m0 m'" using mf
  proof
    assume "m' (manifest_file ?s) = m (manifest_file ?s)"
    with rec show ?thesis using recorded_cong [of l0 m' m js meta receipts0 m0] same c fin by simp
  next
    assume names: "\<forall>names. manifest_for js ?s meta m' names \<longleftrightarrow> names = new'"
    then show ?thesis unfolding recorded_def
      using rec c left' sub new' fin by (auto simp: recorded_def intro!: exI [of _ "set new"])
  qed
  with left' D same Dd show ?thesis by (simp add: swept_def)
qed

lemma manifest_step:
  assumes wf: "unit_wf l0 meta" and js: "doc_json_ok js" and sub: "set new \<subseteq> unit_names l0 meta" and new': "set new' = set new"
  shows "hoare (mem l (\<lambda>m. swept js l0 meta receipts0 m0 new m \<and> holds c ps m))
    (on_fs (write_doc fl arm (manifest_file (fl_scope l0)) (manifest_text js
       \<lparr>mf_format_version = LAYOUT_FORMAT_VERSION, mf_load = meta_load meta, mf_seq = meta_seq meta, mf_names = new'\<rparr>)))
    (\<lambda>_. mem l (\<lambda>m. swept js l0 meta receipts0 m0 new m \<and> manifest_for js (fl_scope l0) meta m new' \<and> holds c ps m))
    (mem l (unfinished js rd l0 meta receipts0 m0 R))"
proof (rule hoare_write_doc)
  let ?mf = "manifest_file (fl_scope l0)"
  have tmp: "\<not> staging_name (?mf @ ''.tmp'')" "\<not> staging_name ?mf" by (rule docs_not_staging [of _ "fl_scope l0"], simp add: doc_names_def)+
  show "swept js l0 meta receipts0 m0 new (m(?mf @ ''.tmp'' \<mapsto> b)) \<and> holds c ps (m(?mf @ ''.tmp'' \<mapsto> b))"
    if "swept js l0 meta receipts0 m0 new m \<and> holds c ps m" for m b
    using that tmp docs_apart [of "fl_scope l0"] by (auto intro!: swept_doc [OF wf _ sub, of js receipts0 m0 m _ new])
  show "swept js l0 meta receipts0 m0 new (m(?mf \<mapsto> b)) \<and> manifest_for js (fl_scope l0) meta (m(?mf \<mapsto> b)) new' \<and> holds c ps (m(?mf \<mapsto> b))"
    if "swept js l0 meta receipts0 m0 new m \<and> holds c ps m"
      "manifest_text js \<lparr>mf_format_version = LAYOUT_FORMAT_VERSION, mf_load = meta_load meta, mf_seq = meta_seq meta, mf_names = new'\<rparr> = Inr b" for m b
    using that(1) tmp manifest_written [OF js that(2)] docs_apart [of "fl_scope l0"] new'
    by (auto intro!: swept_doc [OF wf _ sub, of js receipts0 m0 m _ new'])
  show "swept js l0 meta receipts0 m0 new (m(?mf @ ''.tmp'' := None)) \<and> manifest_for js (fl_scope l0) meta (m(?mf @ ''.tmp'' := None)) new'
      \<and> holds c ps (m(?mf @ ''.tmp'' := None))"
    if "swept js l0 meta receipts0 m0 new m \<and> manifest_for js (fl_scope l0) meta m new' \<and> holds c ps m" for m
    using that tmp docs_apart [of "fl_scope l0"] manifest_for_upd [of "?mf @ ''.tmp''" "fl_scope l0"]
    by (auto intro!: swept_doc [OF wf _ sub, of js receipts0 m0 m _ new])
qed (auto simp: swept_def unfinished_def)

definition parts_wf :: "('w, 's) file_load \<Rightarrow> commit_meta \<Rightarrow> ('w, 's) file_load \<Rightarrow> staged_part list \<Rightarrow> bool" where
  "parts_wf l0 meta l ps \<longleftrightarrow> unit_wf l0 meta \<and> same_load l0 l \<and> distinct (map part_id ps) \<and> (\<forall>p \<in> set ps. staged_wf l p)"

lemma final_in:
  assumes "parts_wf l0 meta l ps" and "p \<in> set ps"
  shows "final_of l meta p \<in> unit_files l0 meta (sp_table p)" "final_of l meta p \<in> unit_names l0 meta"
proof -
  have wf: "table_ok (sp_table p)" "dir_ok (fl_partition_by l0) (sp_dir p)" "fl_format l = fl_format l0"
    using assms by (auto simp: parts_wf_def staged_wf_def same_load_def)
  then show 1: "final_of l meta p \<in> unit_files l0 meta (sp_table p)" by (auto simp: unit_files_def final_of_def)
  with wf(1) show "final_of l meta p \<in> unit_names l0 meta" by (auto simp: unit_names_def)
qed

lemma finals_sub: "parts_wf l0 meta l ps \<Longrightarrow> set (map (final_of l meta) ps) \<subseteq> unit_names l0 meta"
  using final_in(2) by auto

lemma final_data: "parts_wf l0 meta l ps \<Longrightarrow> p \<in> set ps \<Longrightarrow> data_name (fl_scope l0) (final_of l meta p)"
  using final_in(2) unit_names_data unfolding parts_wf_def by blast

lemma final_part_id:
  assumes wf: "parts_wf l0 meta l ps" and p: "p \<in> set ps" and q: "q \<in> set ps" and eq: "final_of l meta p = final_of l meta q"
  shows "part_id p = part_id q"
proof -
  have "CHR ''/'' \<notin> set (sp_table p)" "CHR ''/'' \<notin> set (sp_table q)" "CHR ''/'' \<notin> set (meta_load meta)"
    "\<And>d. sp_dir p = Some d \<Longrightarrow> CHR ''/'' \<notin> set d" "\<And>d. sp_dir q = Some d \<Longrightarrow> CHR ''/'' \<notin> set d"
    using wf p q by (auto simp: parts_wf_def staged_wf_def table_ok_def unit_wf_def dir_ok_def)
  from final_tail_inj [OF eq [unfolded final_of_def] this] show ?thesis by (simp add: part_id_def)
qed

lemma nth_apart:
  assumes wf: "parts_wf l0 meta l ps" and "i < length ps" and "j < length ps" and "i \<noteq> j"
  shows "final_of l meta (ps ! i) \<noteq> final_of l meta (ps ! j)" "sp_tail (ps ! i) \<noteq> sp_tail (ps ! j)"
proof -
  have ids: "part_id (ps ! i) \<noteq> part_id (ps ! j)"
    using wf assms(2-4) nth_eq_iff_index_eq [of "map part_id ps" i j] by (simp add: parts_wf_def)
  with final_part_id [OF wf nth_mem [OF assms(2)] nth_mem [OF assms(3)]]
  show "final_of l meta (ps ! i) \<noteq> final_of l meta (ps ! j)" by blast
  from ids wf assms(2,3) staged_wf_inj [of l "ps ! i" "ps ! j"]
  show "sp_tail (ps ! i) \<noteq> sp_tail (ps ! j)" by (auto simp: parts_wf_def)
qed

lemma publishing_place:
  assumes wf: "parts_wf l0 meta l ps" and i: "i < length ps" and P: "publishing js l0 meta receipts0 m0 l c ps i m"
  shows "publishing js l0 meta receipts0 m0 l c ps (Suc i) (m(final_of l meta (ps ! i) \<mapsto> c (ps ! i)))"
proof -
  let ?s = "fl_scope l0" and ?D = "cleared_names l0 meta receipts0" and ?new = "map (final_of l meta) ps"
  let ?n = "final_of l meta (ps ! i)"
  let ?m = "m(?n \<mapsto> c (ps ! i))"
  have n: "?n \<in> set ?new" using i by auto
  have data: "data_name ?s ?n" by (rule final_data [OF wf nth_mem [OF i]])
  note doc = data_not_doc [OF data]
  have sw: "swept js l0 meta receipts0 m0 ?new m" and mf: "manifest_for js ?s meta m (btree_set ?new)"
    and h: "holds c (drop i ps) m" and d: "\<And>j. j < i \<Longrightarrow> m (final_of l meta (ps ! j)) = Some (c (ps ! j))"
    using P by (simp_all add: publishing_def)
  have mf': "manifest_for js ?s meta ?m = manifest_for js ?s meta m" using doc by (intro manifest_for_upd) blast
  have left: "left_over ?s ?D m0 (set ?new) ?m" using sw n by (auto simp: swept_def left_over_def)
  have "m (commits_file ?s) = m0 (commits_file ?s)" "?m (commits_file ?s) = m (commits_file ?s)"
    "\<forall>names. manifest_for js ?s meta m names \<longrightarrow> set names \<subseteq> unit_names l0 meta"
    using sw doc by (auto simp: swept_def recorded_def)
  moreover have "finite (dom ?m)" using sw by (simp add: swept_def recorded_def)
  ultimately have "recorded js l0 meta receipts0 m0 ?m" unfolding recorded_def mf'
    using left finals_sub [OF wf] mf by (metis set_btree_set subset_refl)
  moreover have "\<forall>n \<in> ?D. n \<notin> set ?new \<longrightarrow> ?m n = None" using sw n by (auto simp: swept_def)
  ultimately have "swept js l0 meta receipts0 m0 ?new ?m" using left by (simp add: swept_def)
  moreover have "holds c (drop (Suc i) ps) ?m"
  proof -
    have "set (drop (Suc i) ps) \<subseteq> set (drop i ps)" by (rule set_drop_subset_set_drop) simp
    then have "holds c (drop (Suc i) ps) m" using h unfolding holds_def by blast
    then show ?thesis using data_not_staging [OF data] by simp
  qed
  moreover have "?m (final_of l meta (ps ! j)) = Some (c (ps ! j))" if "j < Suc i" for j
    using that d [of j] nth_apart(1) [OF wf, of j i] i by (cases "j = i") auto
  ultimately show ?thesis using mf mf' by (simp add: publishing_def)
qed

lemma publishing_tidy:
  assumes wf: "parts_wf l0 meta l ps" and n: "staging_name n" and "\<And>j. i \<le> j \<Longrightarrow> j < length ps \<Longrightarrow> sp_tail (ps ! j) \<noteq> n"
    and P: "publishing js l0 meta receipts0 m0 l c ps i m" and i: "i \<le> length ps"
  shows "publishing js l0 meta receipts0 m0 l c ps i (m(n := b))"
proof -
  let ?s = "fl_scope l0"
  have data: "data_name ?s k \<Longrightarrow> (m(n := b)) k = m k" for k using n data_not_staging [of ?s k] by auto
  have docs: "n \<noteq> manifest_file ?s" "n \<noteq> commits_file ?s"
    using n docs_not_staging [of "manifest_file ?s" ?s] docs_not_staging [of "commits_file ?s" ?s] by (auto simp: doc_names_def)
  have sw: "swept js l0 meta receipts0 m0 (map (final_of l meta) ps) (m(n := b))"
  proof (rule swept_doc [OF _ _ finals_sub [OF wf] data])
    show "unit_wf l0 meta" using wf by (simp add: parts_wf_def)
    show "swept js l0 meta receipts0 m0 (map (final_of l meta) ps) m" using P by (simp add: publishing_def)
    show "(m(n := b)) (manifest_file ?s) = m (manifest_file ?s)
      \<or> (\<forall>names. manifest_for js ?s meta (m(n := b)) names \<longleftrightarrow> names = map (final_of l meta) ps)" using docs by simp
    show "finite (dom (m(n := b)))" if "finite (dom m)" using that by (cases b) simp_all
  qed (use docs in auto)
  have "holds c (drop i ps) (m(n := b))" unfolding holds_def
  proof
    fix p assume p: "p \<in> set (drop i ps)"
    then obtain k where "k < length (drop i ps)" "drop i ps ! k = p" unfolding in_set_conv_nth by blast
    then have "sp_tail p \<noteq> n" using assms(3) [of "i + k"] i by auto
    with P p show "staging_name (sp_tail p) \<and> (m(n := b)) (sp_tail p) = Some (c p)" by (auto simp: publishing_def holds_def)
  qed
  moreover have "(m(n := b)) (final_of l meta (ps ! j)) = Some (c (ps ! j))" if j: "j < i" for j
  proof -
    have "ps ! j \<in> set ps" using j i by simp
    then have "(m(n := b)) (final_of l meta (ps ! j)) = m (final_of l meta (ps ! j))" by (intro data final_data [OF wf])
    with P j show ?thesis by (simp add: publishing_def)
  qed
  moreover have "manifest_for js ?s meta (m(n := b)) (btree_set (map (final_of l meta) ps))"
    using P manifest_for_upd [OF docs(1)] by (simp add: publishing_def)
  ultimately show ?thesis using sw by (simp add: publishing_def)
qed

lemma publishing_unfinished: "publishing js l0 meta receipts0 m0 l c ps i m \<Longrightarrow> unfinished js rd l0 meta receipts0 m0 R m"
  by (simp add: publishing_def swept_def unfinished_def)

lemma publishing_next:
  assumes "i < length ps" and "publishing js l0 meta receipts0 m0 l c ps i m"
  shows "staging_name (sp_tail (ps ! i)) \<and> m (sp_tail (ps ! i)) = Some (c (ps ! i))"
proof -
  have "ps ! i \<in> set (drop i ps)" using assms(1) by (metis Cons_nth_drop_Suc list.set_intros(1))
  with assms(2) show ?thesis by (simp add: publishing_def holds_def)
qed

lemma publish_part_step:
  assumes wf: "parts_wf l0 meta l ps" and i: "i < length ps"
  shows "hoare (mem l' (publishing js l0 meta receipts0 m0 l c ps i))
    (on_fs (publish_part fl arm (sp_tail (ps ! i)) (final_of l meta (ps ! i))))
    (\<lambda>_. mem l' (publishing js l0 meta receipts0 m0 l c ps (Suc i))) (mem l' (unfinished js rd l0 meta receipts0 m0 R))"
proof -
  let ?P = "publishing js l0 meta receipts0 m0 l c ps" and ?E = "unfinished js rd l0 meta receipts0 m0 R"
  let ?x = "sp_tail (ps ! i)" and ?y = "final_of l meta (ps ! i)"
  have y: "\<not> staging_name ?y" by (rule data_not_staging [OF final_data [OF wf nth_mem [OF i]]])
  have apart: "sp_tail (ps ! j) \<noteq> ?x" if "Suc i \<le> j" "j < length ps" for j
    using nth_apart(2) [OF wf that(2) i] that by simp
  have place: "?P (Suc i) (m(?y \<mapsto> b))" if "?P i m" "m ?x = Some b" for m b
    using publishing_place [OF wf i that(1)] publishing_next [OF i that(1)] that(2) by simp
  have tidy: "?P (Suc i) (m(?x := None))" if "?P (Suc i) m" "staging_name ?x" for m
    using publishing_tidy [OF wf that(2) apart that(1)] i by simp
  have move: "?P (Suc i) ((m(?x := None))(?y \<mapsto> b))" if "?P i m" "m ?x = Some b" for m b
  proof -
    have x: "staging_name ?x" using publishing_next [OF i that(1)] by blast
    then have "?x \<noteq> ?y" using y by metis
    then have "(m(?x := None))(?y \<mapsto> b) = (m(?y \<mapsto> b))(?x := None)" by (rule fun_upd_twist)
    with tidy [OF place [OF that] x] show ?thesis by simp
  qed
  have l: "hoare (mem l' (?P i)) (on_fs (rename_file fl ?x ?y)) (\<lambda>_. mem l' (?P (Suc i))) (mem l' ?E)"
    by (rule hoare_rename) (auto intro: move publishing_unfinished)
  have "hoare (mem l' (?P i)) (on_fs (copy_file fl ?x ?y)) (\<lambda>_. mem l' (\<lambda>m. ?P (Suc i) m \<and> staging_name ?x)) (mem l' ?E)"
    by (rule hoare_copy) (auto intro: place publishing_unfinished dest: publishing_next [OF i])
  moreover have "hoare (mem l' (\<lambda>m. ?P (Suc i) m \<and> staging_name ?x)) (on_fs (remove_if_present ?x)) (\<lambda>_. mem l' (?P (Suc i))) (mem l' ?E)"
    by (rule hoare_remove) (auto intro: tidy publishing_unfinished)
  ultimately have s3: "hoare (mem l' (?P i)) (abind (on_fs (copy_file fl ?x ?y)) (\<lambda>_. on_fs (remove_if_present ?x)))
      (\<lambda>_. mem l' (?P (Suc i))) (mem l' ?E)" by (rule hoare_abind)
  have "hoare (mem l' (?P i)) (on_fs touch) (\<lambda>_. mem l' (?P i)) (mem l' ?E)"
    "hoare (mem l' (?P i)) (on_fs (open_file fl ?x)) (\<lambda>_. mem l' (?P i)) (mem l' ?E)"
    by (rule hoare_touch hoare_open_file, rule publishing_unfinished, assumption)+
  with l have "hoare (mem l' (?P i)) (abind (on_fs touch) (\<lambda>_. abind (on_fs (open_file fl ?x)) (\<lambda>_. on_fs (rename_file fl ?x ?y))))
      (\<lambda>_. mem l' (?P (Suc i))) (mem l' ?E)" by (intro hoare_abind) assumption+
  with s3 show ?thesis by (cases arm) (simp_all add: publish_part_def on_fs_abind)
qed

lemma publish_staged_step:
  assumes wf: "parts_wf l0 meta l (fl_staged l)"
  shows "hoare (mem l (publishing js l0 meta receipts0 m0 l c (fl_staged l) 0)) (publish_staged fl meta)
    (\<lambda>_. mem (l\<lparr>fl_staged := []\<rparr>) (publishing js l0 meta receipts0 m0 l c (fl_staged l) (length (fl_staged l))))
    (\<lambda>s. unfinished js rd l0 meta receipts0 m0 R (fs_files (snd s)))"
proof -
  let ?l = "l\<lparr>fl_staged := []\<rparr>" and ?ps = "fl_staged l"
  let ?P = "publishing js l0 meta receipts0 m0 l c ?ps" and ?E = "unfinished js rd l0 meta receipts0 m0 R"
  have loop: "hoare (mem ?l (?P 0)) (aeach (\<lambda>p. on_fs (publish_part fl (fl_arm l) (sp_tail p) (final_of l meta p))) ?ps)
      (\<lambda>_. mem ?l (?P (length ?ps))) (mem ?l ?E)"
    by (rule hoare_aeach_nth) (rule publish_part_step [OF wf])
  show ?thesis unfolding publish_staged_def
  proof (rule hoare_on_load)
    fix l'
    show "hoare (\<lambda>s. mem l (?P 0) s \<and> fst s = l') (abind (set_load (\<lambda>l. l\<lparr>fl_staged := []\<rparr>)) (\<lambda>_.
        aeach (\<lambda>p. on_fs (publish_part fl (fl_arm l') (sp_tail p) (final_of l' meta p))) (fl_staged l')))
      (\<lambda>_. mem ?l (?P (length ?ps))) (\<lambda>s. ?E (fs_files (snd s)))"
    proof (rule hoare_known [of _ "l' = l"])
      assume l': "l' = l"
      have "hoare (\<lambda>s. mem l (?P 0) s \<and> fst s = l') (set_load (\<lambda>l. l\<lparr>fl_staged := []\<rparr>)) (\<lambda>_. mem ?l (?P 0)) (\<lambda>s. ?E (fs_files (snd s)))"
        by (rule hoare_set_load) (simp add: mem_def l')
      moreover have "hoare (mem ?l (?P 0)) (aeach (\<lambda>p. on_fs (publish_part fl (fl_arm l) (sp_tail p) (final_of l meta p))) ?ps)
          (\<lambda>_. mem ?l (?P (length ?ps))) (\<lambda>s. ?E (fs_files (snd s)))"
        by (rule hoare_weaken [OF loop]) (simp_all add: mem_def)
      ultimately show ?thesis unfolding l' by (rule hoare_abind)
    qed (auto simp: mem_def)
  qed
qed

section \<open>The receipt\<close>

lemma log_written:
  assumes "doc_json_ok js" and "log_text js \<lparr>cl_format_version = LAYOUT_FORMAT_VERSION, cl_receipts = rs\<rparr> = Inr b"
  shows "log_decode js (Some b) file = Inr \<lparr>cl_format_version = LAYOUT_FORMAT_VERSION, cl_receipts = rs\<rparr>"
proof -
  obtain b' where "log_text js \<lparr>cl_format_version = LAYOUT_FORMAT_VERSION, cl_receipts = rs\<rparr> = Inr b'"
      "log_parse js b' = Inr \<lparr>cl_format_version = LAYOUT_FORMAT_VERSION, cl_receipts = rs\<rparr>"
    using assms(1) unfolding doc_json_ok_def by blast
  with assms(2) show ?thesis by (simp add: log_decode_def version_gate_def)
qed

lemma unit_rows_published:
  assumes fresh: "unit_fresh js l0 meta receipts0 m0" and wf: "parts_wf l0 meta l ps" and t: "table_ok t"
    and P: "publishing js l0 meta receipts0 m0 l c ps (length ps) m"
  shows "unit_rows rd l0 meta m t = sum_list (map (\<lambda>p. if sp_table p = t then mset (rd (fl_format l) (c p)) else {#}) ps)"
proof -
  let ?f = "final_of l meta" and ?qs = "filter (\<lambda>p. sp_table p = t) ps"
  have placed: "m (?f p) = Some (c p)" if "p \<in> set ps" for p
    using that P by (auto simp: publishing_def in_set_conv_nth)
  have left: "left_over (fl_scope l0) (cleared_names l0 meta receipts0) m0 (set (map ?f ps)) m"
    using P by (simp add: publishing_def swept_def)
  have files: "{n \<in> unit_files l0 meta t. m n \<noteq> None} = ?f ` set ?qs"
  proof (intro equalityI subsetI)
    fix n assume n: "n \<in> {n \<in> unit_files l0 meta t. m n \<noteq> None}"
    then have u: "n \<in> unit_names l0 meta" using t by (auto simp: unit_names_def)
    with fresh have "data_name (fl_scope l0) n" "m0 n = None" by (auto simp: unit_fresh_def intro: unit_names_data)
    with left n have "n \<in> set (map ?f ps)" unfolding left_over_def by fastforce
    then obtain p where p: "p \<in> set ps" "n = ?f p" by auto
    obtain r where "n = t @ CHR ''/'' # r" using unit_files_slash [of n l0 meta t] n by auto
    moreover obtain r' where "n = sp_table p @ CHR ''/'' # r'" using unit_files_slash [OF final_in(1) [OF wf p(1)]] p(2) by auto
    ultimately have "t @ CHR ''/'' # r = sp_table p @ CHR ''/'' # r'" by simp
    moreover have "CHR ''/'' \<notin> set t" "CHR ''/'' \<notin> set (sp_table p)"
      using t wf p(1) by (auto simp: table_ok_def parts_wf_def staged_wf_def)
    ultimately have "sp_table p = t" using append_split_first by blast
    with p show "n \<in> ?f ` set ?qs" by simp
  next
    fix n assume "n \<in> ?f ` set ?qs"
    then obtain p where "p \<in> set ps" "sp_table p = t" "n = ?f p" by auto
    with placed final_in(1) [OF wf] show "n \<in> {n \<in> unit_files l0 meta t. m n \<noteq> None}" by fastforce
  qed
  have "distinct (map part_id ?qs)" using wf by (simp add: parts_wf_def distinct_map_filter)
  then have dist: "distinct ?qs" by (simp add: distinct_map)
  have ids: "distinct (map part_id ps)" using wf by (simp add: parts_wf_def)
  have inj: "inj_on ?f (set ?qs)"
  proof (rule inj_onI)
    fix p q assume p: "p \<in> set ?qs" and q: "q \<in> set ?qs" and "?f p = ?f q"
    then have "part_id p = part_id q" using final_part_id [OF wf, of p q] by simp
    with p q ids show "p = q" by (auto simp: distinct_map dest: inj_onD)
  qed
  have fmt: "fl_format l = fl_format l0" using wf by (simp add: parts_wf_def same_load_def)
  have "unit_rows rd l0 meta m t = (\<Sum>p \<in> set ?qs. mset (rd (fl_format l0) (the (m (?f p)))))"
    unfolding unit_rows_def files sum.reindex [OF inj] comp_def ..
  also have "\<dots> = (\<Sum>p \<in> set ?qs. mset (rd (fl_format l) (c p)))"
    by (rule sum.cong) (simp_all add: placed fmt)
  also have "\<dots> = sum_list (map (\<lambda>p. mset (rd (fl_format l) (c p))) ?qs)"
    by (rule sum_list_distinct_conv_sum_set [OF dist, symmetric])
  also have "\<dots> = sum_list (map (\<lambda>p. if sp_table p = t then mset (rd (fl_format l) (c p)) else {#}) ps)"
    by (rule sum_list_map_filter')
  finally show ?thesis .
qed

lemma commit_lands:
  assumes js: "doc_json_ok js" and fresh: "unit_fresh js l0 meta receipts0 m0" and wf: "parts_wf l0 meta l ps"
    and P: "publishing js l0 meta receipts0 m0 l c ps (length ps) m"
    and R: "\<And>t. table_ok t \<Longrightarrow> R t = sum_list (map (\<lambda>p. if sp_table p = t then mset (rd (fl_format l) (c p)) else {#}) ps)"
    and b: "log_text js \<lparr>cl_format_version = LAYOUT_FORMAT_VERSION, cl_receipts = receipts0 @ [(meta_load meta, meta_seq meta)]\<rparr> = Inr b"
  shows "landed js rd l0 meta receipts0 m0 R (m(commits_file (fl_scope l0) \<mapsto> b))"
proof -
  let ?s = "fl_scope l0" and ?D = "cleared_names l0 meta receipts0"
  let ?m = "m(commits_file ?s \<mapsto> b)"
  have uwf: "unit_wf l0 meta" using wf by (simp add: parts_wf_def)
  have data: "?m n = m n" if "data_name ?s n" for n using data_not_doc [OF that] by auto
  have "unit_rows rd l0 meta ?m t = R t" if t: "table_ok t" for t
  proof -
    have "unit_rows rd l0 meta ?m t = unit_rows rd l0 meta m t"
    proof (rule unit_rows_cong)
      fix n assume "n \<in> unit_files l0 meta t"
      with t have "n \<in> unit_names l0 meta" by (auto simp: unit_names_def)
      then show "?m n = m n" by (intro data unit_names_data [OF uwf])
    qed
    also have "\<dots> = R t" unfolding R [OF t] by (rule unit_rows_published [OF fresh wf t P])
    finally show ?thesis .
  qed
  moreover have "?m n = (if n \<in> ?D then None else m0 n)" if n: "data_name ?s n" "n \<notin> unit_names l0 meta" for n
  proof -
    have sw: "swept js l0 meta receipts0 m0 (map (final_of l meta) ps) m" using P by (simp add: publishing_def)
    have "n \<notin> set (map (final_of l meta) ps)" using finals_sub [OF wf] n(2) by blast
    with sw n(1) have "m n = (if n \<in> ?D then None else m0 n)" by (auto simp: swept_def left_over_def)
    then show ?thesis using data [OF n(1)] by simp
  qed
  ultimately show ?thesis unfolding landed_def using log_written [OF js b] by simp
qed

section \<open>The whole publish\<close>

lemma hoare_exists: "(\<And>x. hoare (P x) m Q E) \<Longrightarrow> hoare (\<lambda>s. \<exists>x. P x s) m Q E"
  unfolding hoare_def by metis

lemma read_log_step:
  assumes fresh: "unit_fresh js l0 meta receipts0 m0" and scope: "scope = fl_scope l0"
    and P: "\<And>m. P m \<Longrightarrow> recorded js l0 meta receipts0 m0 m" and E: "\<And>m. P m \<Longrightarrow> E m"
  shows "hoare (mem l P) (on_fs (read_log js scope)) (\<lambda>log. mem l (\<lambda>m. P m \<and> cl_receipts log = receipts0)) (mem l E)"
  unfolding read_log_def on_fs_abind on_fs_pure
proof (rule hoare_abind [OF hoare_get])
  fix bytes
  show "hoare (mem l (\<lambda>m. P m \<and> bytes = m (commits_file scope))) (alift (log_decode js bytes (commits_file scope)))
      (\<lambda>log. mem l (\<lambda>m. P m \<and> cl_receipts log = receipts0)) (mem l E)"
  proof (rule hoare_alift)
    fix log s assume s: "mem l (\<lambda>m. P m \<and> bytes = m (commits_file scope)) s" and log: "log_decode js bytes (commits_file scope) = Inr log"
    then have "recorded js l0 meta receipts0 m0 (fs_files (snd s))" by (auto simp: mem_def P)
    with s scope have "bytes = m0 (commits_file (fl_scope l0))" by (simp add: mem_def recorded_def)
    with fresh log scope have "cl_receipts log = receipts0" by (auto simp: unit_fresh_def)
    with s show "mem l (\<lambda>m. P m \<and> cl_receipts log = receipts0) s" by (simp add: mem_def)
  qed (auto simp: mem_def E)
qed (rule E)

lemma publishing_doc:
  assumes wf: "parts_wf l0 meta l ps" and P: "publishing js l0 meta receipts0 m0 l c ps (length ps) m"
    and n: "n \<in> doc_names (fl_scope l0)" "n \<noteq> manifest_file (fl_scope l0)" "n \<noteq> commits_file (fl_scope l0)"
  shows "publishing js l0 meta receipts0 m0 l c ps (length ps) (m(n := b))"
proof -
  let ?s = "fl_scope l0"
  have data: "(m(n := b)) k = m k" if "data_name ?s k" for k using that n(1) by (auto simp: data_name_def)
  have "swept js l0 meta receipts0 m0 (map (final_of l meta) ps) (m(n := b))"
  proof (rule swept_doc [OF _ _ finals_sub [OF wf] data])
    show "unit_wf l0 meta" using wf by (simp add: parts_wf_def)
    show "swept js l0 meta receipts0 m0 (map (final_of l meta) ps) m" using P by (simp add: publishing_def)
    show "(m(n := b)) (manifest_file ?s) = m (manifest_file ?s)
      \<or> (\<forall>names. manifest_for js ?s meta (m(n := b)) names \<longleftrightarrow> names = map (final_of l meta) ps)" using n by simp
    show "finite (dom (m(n := b)))" if "finite (dom m)" using that by (cases b) simp_all
  qed (use n in auto)
  moreover have "(m(n := b)) (final_of l meta (ps ! j)) = Some (c (ps ! j))" if j: "j < length ps" for j
  proof -
    have "(m(n := b)) (final_of l meta (ps ! j)) = m (final_of l meta (ps ! j))" by (intro data final_data [OF wf] nth_mem j)
    with P j show ?thesis by (simp add: publishing_def)
  qed
  ultimately show ?thesis using P manifest_for_upd [OF n(2)] by (simp add: publishing_def holds_def)
qed

lemma state_step:
  assumes wf: "parts_wf l0 meta l ps"
  shows "hoare (mem l' (publishing js l0 meta receipts0 m0 l c ps (length ps)))
    (on_fs (write_doc fl arm (state_file (fl_scope l0)) body))
    (\<lambda>_. mem l' (publishing js l0 meta receipts0 m0 l c ps (length ps))) (mem l' (unfinished js rd l0 meta receipts0 m0 R))"
  using docs_apart [of "fl_scope l0"]
  by (intro hoare_write_doc) (auto simp: doc_names_def intro: publishing_unfinished intro!: publishing_doc [OF wf])

lemma commits_step:
  assumes js: "doc_json_ok js" and fresh: "unit_fresh js l0 meta receipts0 m0" and wf: "parts_wf l0 meta l ps"
    and R: "\<And>t. table_ok t \<Longrightarrow> R t = sum_list (map (\<lambda>p. if sp_table p = t then mset (rd (fl_format l) (c p)) else {#}) ps)"
  shows "hoare (mem l' (publishing js l0 meta receipts0 m0 l c ps (length ps)))
    (on_fs (write_doc fl arm (commits_file (fl_scope l0)) (log_text js
       \<lparr>cl_format_version = LAYOUT_FORMAT_VERSION, cl_receipts = receipts0 @ [(meta_load meta, meta_seq meta)]\<rparr>)))
    (\<lambda>_. mem l' (landed js rd l0 meta receipts0 m0 R)) (mem l' (unfinished js rd l0 meta receipts0 m0 R))"
proof (rule hoare_write_doc)
  let ?n = "commits_file (fl_scope l0) @ ''.tmp''"
  have n: "?n \<in> doc_names (fl_scope l0)" by (auto simp: doc_names_def)
  have apart: "?n \<noteq> manifest_file (fl_scope l0)" "?n \<noteq> commits_file (fl_scope l0)" using docs_apart [of "fl_scope l0"] by auto
  show "publishing js l0 meta receipts0 m0 l c ps (length ps) (m(?n \<mapsto> b))"
    if "publishing js l0 meta receipts0 m0 l c ps (length ps) m" for m b
    by (rule publishing_doc [OF wf that n apart])
  show "landed js rd l0 meta receipts0 m0 R (m(?n := None))" if "landed js rd l0 meta receipts0 m0 R m" for m
  proof -
    have "landed js rd l0 meta receipts0 m0 R (m(?n := None)) = landed js rd l0 meta receipts0 m0 R m"
      using wf n apart by (intro landed_cong) (auto simp: parts_wf_def data_name_def)
    with that show ?thesis by simp
  qed
  show "landed js rd l0 meta receipts0 m0 R (m(commits_file (fl_scope l0) \<mapsto> b))"
    if "publishing js l0 meta receipts0 m0 l c ps (length ps) m"
      "log_text js \<lparr>cl_format_version = LAYOUT_FORMAT_VERSION, cl_receipts = receipts0 @ [(meta_load meta, meta_seq meta)]\<rparr> = Inr b" for m b
    using that R by (intro commit_lands [OF js fresh wf]) auto
  show "unfinished js rd l0 meta receipts0 m0 R m" if "publishing js l0 meta receipts0 m0 l c ps (length ps) m" for m
    by (rule publishing_unfinished [OF that])
qed (simp add: unfinished_def)

text \<open>Everything after the receipts are read, for the session \<open>l\<close> as its parts are all closed.\<close>

lemma publish_body:
  fixes l l0 :: "('w, 's) file_load"
  assumes lib: "fs_lib_ok fl" and js: "doc_json_ok js" and fresh: "unit_fresh js l0 meta receipts0 m0" and wf: "parts_wf l0 meta l (fl_staged l)"
    and R: "\<And>t. table_ok t \<Longrightarrow> R t = sum_list (map (\<lambda>p. if sp_table p = t then mset (rd (fl_format l) (c p)) else {#}) (fl_staged l))"
    and log: "cl_receipts log = receipts0"
  shows "hoare (mem l (before_manifest js l0 meta receipts0 m0 c (fl_staged l) {}))
    (publish_parts fl js meta l log)
    (\<lambda>_ s. landed js rd l0 meta receipts0 m0 R (fs_files (snd s))) (\<lambda>s. unfinished js rd l0 meta receipts0 m0 R (fs_files (snd s)))"
proof -
  let ?ps = "fl_staged l" and ?l = "l\<lparr>fl_staged := []\<rparr>"
  let ?new = "btree_set (map (final_of l meta) ?ps)" and ?doc = "manifest_file (fl_scope l0)"
  let ?B = "before_manifest js l0 meta receipts0 m0 c ?ps" and ?D = "cleared_names l0 meta receipts0"
  let ?U = "unfinished js rd l0 meta receipts0 m0 R"
  let ?E = "\<lambda>s. ?U (fs_files (snd s))"
  let ?S = "\<lambda>m. swept js l0 meta receipts0 m0 ?new m \<and> holds c ?ps m"
  let ?P = "publishing js l0 meta receipts0 m0 l c ?ps"
  have uwf: "unit_wf l0 meta" and load: "same_load l0 l" and scope: "fl_scope l = fl_scope l0"
    using wf by (simp_all add: parts_wf_def same_load_def)
  have sub: "set ?new \<subseteq> unit_names l0 meta" using finals_sub [OF wf] by simp
  have up: "hoare P m Q (mem l' ?U) \<Longrightarrow> hoare P m Q ?E" for P Q l' and m :: "('w, 's, 'y) file_action"
    by (erule hoare_weaken) (simp_all add: mem_def)
  have trunc: "hoare (mem l (?B {})) (if meta_load meta \<notin> fst ` set (cl_receipts log) then truncate_replaced fl else aret ())
      (\<lambda>_. mem l (?B ?D)) ?E"
    using up [OF truncate_replaced_clears [OF lib uwf load, of receipts0 js m0 c ?ps rd R]]
    by (auto simp: log cleared_names_def intro: hoare_aret)
  have get: "hoare (mem l (?B ?D)) (on_fs (get_file ?doc)) (\<lambda>bytes. mem l (\<lambda>m. ?B ?D m \<and> bytes = m ?doc)) ?E"
    by (rule up [OF hoare_get]) (rule before_unfinished)
  have decode: "hoare (mem l (\<lambda>m. ?B ?D m \<and> bytes = m ?doc)) (alift (manifest_decode js bytes ?doc))
      (\<lambda>prior. mem l (\<lambda>m. ?B ?D m \<and> manifest_decode js (m ?doc) ?doc = Inr prior)) ?E" for bytes
    by (rule hoare_alift) (auto simp: mem_def intro: before_unfinished)
  have stale: "hoare (mem l (\<lambda>m. ?B ?D m \<and> manifest_decode js (m ?doc) ?doc = Inr prior))
      (aeach (\<lambda>n. on_fs (remove_if_present n)) (stale_names meta ?new prior)) (\<lambda>_. mem l ?S) ?E" for prior
    by (rule up [OF stale_removed [OF fresh refl]])
  have manifest: "hoare (mem l ?S) (on_fs (write_doc fl (fl_arm l) ?doc (manifest_text js
       \<lparr>mf_format_version = LAYOUT_FORMAT_VERSION, mf_load = meta_load meta, mf_seq = meta_seq meta, mf_names = ?new\<rparr>)))
      (\<lambda>_. mem l (?P 0)) ?E"
    by (rule up [OF hoare_weaken [OF manifest_step [OF uwf js sub refl]]])
      (simp_all add: mem_def publishing_def swept_cong [of "map (final_of l meta) ?ps" ?new])
  have place: "hoare (mem l (?P 0)) (publish_staged fl meta) (\<lambda>_. mem ?l (?P (length ?ps))) ?E"
    by (rule publish_staged_step [OF wf])
  have keep: "hoare (mem ?l (?P (length ?ps))) (on_fs (sync_dir (fl_arm l))) (\<lambda>_. mem ?l (?P (length ?ps))) ?E"
  proof (cases "fl_arm l")
    case LocalArm
    have "hoare (mem ?l (?P (length ?ps))) (on_fs touch) (\<lambda>_. mem ?l (?P (length ?ps))) ?E"
      by (rule up [OF hoare_touch]) (rule publishing_unfinished)
    with LocalArm show ?thesis by (simp add: sync_dir_def)
  next
    case S3Arm
    have "hoare (mem ?l (?P (length ?ps))) (aret ()) (\<lambda>_. mem ?l (?P (length ?ps))) ?E" by (rule hoare_aret) assumption
    with S3Arm show ?thesis by (simp only: sync_dir_def location_arm.case on_fs_pure)
  qed
  have sync: "hoare (mem ?l (?P (length ?ps))) (if fl_arm l = LocalArm then aeach (\<lambda>_. on_fs (sync_dir (fl_arm l))) ds else aret ())
      (\<lambda>_. mem ?l (?P (length ?ps))) ?E" for ds :: "string list"
  proof (cases "fl_arm l = LocalArm")
    case True
    show ?thesis unfolding if_P [OF True] by (rule hoare_aeach [OF keep])
  next
    case False
    show ?thesis unfolding if_not_P [OF False] by (rule hoare_aret) assumption
  qed
  have state: "hoare (mem ?l (?P (length ?ps))) (on_fs (write_doc fl (fl_arm l) (state_file (fl_scope l0)) (meta_doc meta)))
      (\<lambda>_. mem ?l (?P (length ?ps))) ?E"
    by (rule up [OF state_step [OF wf]])
  have commits: "hoare (mem ?l (?P (length ?ps))) (on_fs (write_doc fl (fl_arm l) (commits_file (fl_scope l0)) (log_text js
       \<lparr>cl_format_version = LAYOUT_FORMAT_VERSION, cl_receipts = receipts0 @ [(meta_load meta, meta_seq meta)]\<rparr>)))
      (\<lambda>_. mem ?l (landed js rd l0 meta receipts0 m0 R)) ?E"
    using R by (intro up [OF commits_step [OF js fresh wf]]) blast
  have ack: "hoare (mem ?l (landed js rd l0 meta receipts0 m0 R)) (aret (meta_load meta, meta_seq meta))
      (\<lambda>_ s. landed js rd l0 meta receipts0 m0 R (fs_files (snd s))) ?E"
    by (rule hoare_aret) (simp add: mem_def)
  show ?thesis unfolding publish_parts_def Let_def scope
    apply (rule hoare_abind [OF trunc])
    apply (rule hoare_abind [OF get])
    apply (rule hoare_abind [OF decode])
    apply (rule hoare_abind [OF stale])
    apply (rule hoare_abind [OF manifest])
    apply (rule hoare_abind [OF place])
    apply (rule hoare_abind [OF sync])
    apply (rule hoare_abind [OF state])
    unfolding log
    apply (rule hoare_abind [OF commits])
    apply (rule ack)
    done
qed

lemma books_parts:
  assumes b: "books rd held l0 R s" and wf: "unit_wf l0 meta" and none: "fl_open (fst s) = []"
    and c: "c = (\<lambda>p. the (fs_files (snd s) (sp_tail p)))"
  shows "parts_wf l0 meta (fst s) (fl_staged (fst s))" "holds c (fl_staged (fst s)) (fs_files (snd s))"
    "R t = sum_list (map (\<lambda>p. if sp_table p = t then mset (rd (fl_format (fst s)) (c p)) else {#}) (fl_staged (fst s)))"
proof -
  obtain l d where s: "s = (l, d)" by (cases s)
  have ok: "same_load l0 l" "staged_ok l (fs_files d)" "staged_rows rd l (fs_files d) t + open_rows rd held l t = R t"
    using b s by (auto simp: books_def)
  then show "parts_wf l0 meta (fst s) (fl_staged (fst s))" using wf s by (simp add: parts_wf_def staged_ok_def)
  show "holds c (fl_staged (fst s)) (fs_files (snd s))" using ok(2) s c by (auto simp: holds_def staged_ok_def staged_wf_def)
  have "open_rows rd held l t = {#}" using none s by (simp add: open_rows_def)
  with ok(3) show "R t = sum_list (map (\<lambda>p. if sp_table p = t then mset (rd (fl_format (fst s)) (c p)) else {#}) (fl_staged (fst s)))"
    by (simp add: s c staged_rows_def cong: if_cong)
qed

lemma file_publish_lands:
  fixes l0 :: "('w, 's) file_load" and pl :: "('w, 's, 'r) part_lib"
  assumes lib: "fs_lib_ok fl" and part: "part_ok pl rd img held" and js: "doc_json_ok js" and fresh: "unit_fresh js l0 meta receipts0 m0"
  shows "hoare (\<lambda>s. books rd held l0 R s \<and> recorded js l0 meta receipts0 m0 (fs_files (snd s))) (file_publish fl pl js meta)
    (\<lambda>_ s. landed js rd l0 meta receipts0 m0 R (fs_files (snd s))) (\<lambda>s. unfinished js rd l0 meta receipts0 m0 R (fs_files (snd s)))"
proof -
  let ?rec = "\<lambda>s. recorded js l0 meta receipts0 m0 (fs_files (snd s))"
  let ?E = "\<lambda>s. unfinished js rd l0 meta receipts0 m0 R (fs_files (snd s))"
  have wf: "unit_wf l0 meta" using fresh by (simp add: unit_fresh_def)
  have quiet_rec: "leaps quiet m \<Longrightarrow> hoare ?rec m (\<lambda>_. ?rec) ?rec" for m :: "('w, 's, 'y) file_action"
    by (rule leaps_hoare [where R = quiet]) (auto dest: quiet_recorded)
  have check: "hoare (\<lambda>s. books rd held l0 R s \<and> ?rec s) check_lease_still_held (\<lambda>_ s. books rd held l0 R s \<and> ?rec s) ?E"
    by (rule hoare_weaken [OF hoare_conj [OF check_lease_books quiet_rec [OF check_lease_quiet]]]) (simp_all add: unfinished_def)
  have close: "hoare (\<lambda>s. books rd held l0 R s \<and> ?rec s) (close_all_parts pl)
      (\<lambda>_ s. (books rd held l0 R s \<and> fl_open (fst s) = []) \<and> ?rec s) ?E"
    by (rule hoare_weaken [OF hoare_conj [OF close_all_books [OF part] quiet_rec [OF close_all_quiet]]]) (simp_all add: unfinished_def)
  show ?thesis unfolding file_publish_def
  proof (rule hoare_abind [OF check], rule hoare_abind [OF close], rule hoare_on_load)
    fix l :: "('w, 's) file_load"
    let ?rows = "\<lambda>c t. sum_list (map (\<lambda>p. if sp_table p = t then mset (rd (fl_format l) (c p)) else {#}) (fl_staged l))"
    let ?B = "\<lambda>c. before_manifest js l0 meta receipts0 m0 c (fl_staged l) {}"
    let ?ok = "\<lambda>c. parts_wf l0 meta l (fl_staged l) \<and> (\<forall>t. R t = ?rows c t)"
    have start: "\<exists>c. mem l (?B c) s \<and> ?ok c"
      if "((books rd held l0 R s \<and> fl_open (fst s) = []) \<and> ?rec s) \<and> fst s = l" for s
    proof -
      define c :: "staged_part \<Rightarrow> string" where "c = (\<lambda>p. the (fs_files (snd s) (sp_tail p)))"
      have b: "books rd held l0 R s" "fl_open (fst s) = []" "?rec s" "fst s = l" using that by blast+
      have "mem l (?B c) s \<and> ?ok c"
        using books_parts [OF b(1) wf b(2) c_def] b(3) unfolding mem_def before_manifest_def b(4) by blast
      then show ?thesis by blast
    qed
    show "hoare (\<lambda>s. ((books rd held l0 R s \<and> fl_open (fst s) = []) \<and> ?rec s) \<and> fst s = l)
      (abind (on_fs (read_log js (fl_scope l))) (publish_parts fl js meta l)) (\<lambda>_ s. landed js rd l0 meta receipts0 m0 R (fs_files (snd s))) ?E"
    proof (rule hoare_pre [OF start], assumption, rule hoare_exists, rule hoare_known)
      fix c
      show "?ok c" if "mem l (?B c) s \<and> ?ok c" for s using that by blast
      assume ok: "?ok c"
      then have scope: "fl_scope l = fl_scope l0" by (simp add: parts_wf_def same_load_def)
      have read: "hoare (\<lambda>s. mem l (?B c) s \<and> ?ok c) (on_fs (read_log js (fl_scope l)))
          (\<lambda>log. mem l (\<lambda>m. ?B c m \<and> cl_receipts log = receipts0)) ?E"
        by (rule hoare_weaken [OF read_log_step [OF fresh scope, where P = "?B c" and E = "unfinished js rd l0 meta receipts0 m0 R"]])
          (auto simp: mem_def before_manifest_def unfinished_def)
      have rest: "hoare (mem l (\<lambda>m. ?B c m \<and> cl_receipts log = receipts0)) (publish_parts fl js meta l log)
          (\<lambda>_ s. landed js rd l0 meta receipts0 m0 R (fs_files (snd s))) ?E" for log
      proof (rule hoare_known [of _ "cl_receipts log = receipts0"])
        assume log: "cl_receipts log = receipts0"
        show ?thesis
          by (rule hoare_pre [OF _ publish_body [OF lib js fresh _ _ log, where c = c]]) (use ok in \<open>auto simp: mem_def\<close>)
      qed (simp add: mem_def)
      show "hoare (\<lambda>s. mem l (?B c) s \<and> ?ok c) (abind (on_fs (read_log js (fl_scope l))) (publish_parts fl js meta l))
          (\<lambda>_ s. landed js rd l0 meta receipts0 m0 R (fs_files (snd s))) ?E"
        by (rule hoare_abind [OF read rest])
    qed
  qed
qed

end
