(* ===== verification/File_Attempts.thy ===== *)
theory File_Attempts
  imports File_Publish
begin

text \<open>
  A unit attempted by any number of sessions: \<open>file_attempt\<close> is one of them, from its opening
  to the receipt. The rows land once, whatever stops the attempts that fail and however each
  divides the rows into parts.
\<close>

section \<open>Attempts\<close>

record file_target =
  ft_arm :: location_arm
  ft_format :: dest_format
  ft_partition_by :: "string option"
  ft_scope :: string

record ('s, 'r) attempt_input =
  ai_env :: "nat \<Rightarrow> tick"
  ai_parts :: part_options
  ai_lease :: "string lease_wiring"
  ai_batches :: "(string \<times> ('s, 'r) fbatch) list"

text \<open>
  The framework commits a unit by asking for its receipt first: a unit that has one is replayed,
  any other is published.
\<close>

definition file_deliver :: "fs_lib \<Rightarrow> ('w, 's, 'r) part_lib \<Rightarrow> doc_json \<Rightarrow> commit_meta \<Rightarrow> ('w, 's, string \<times> 64 word) file_action" where
  "file_deliver fl pl js meta =
     abind (file_existing_receipt js (meta_load meta) (meta_seq meta)) (\<lambda>found.
       case found of
         Some receipt \<Rightarrow> abind file_replay (\<lambda>_. aret receipt)
       | None \<Rightarrow> file_publish fl pl js meta)"

definition file_session ::
    "fs_lib \<Rightarrow> ('w, 's, 'r) part_lib \<Rightarrow> doc_json \<Rightarrow> (table_schema \<times> write_mode) list \<Rightarrow> commit_meta
      \<Rightarrow> (string \<times> ('s, 'r) fbatch) list \<Rightarrow> ('w, 's, string \<times> 64 word) file_action" where
  "file_session fl pl js tables_of meta batches =
     abind (aeach (\<lambda>(schema, mode). file_ensure_table schema mode) tables_of) (\<lambda>_.
     abind (aeach (\<lambda>(t, b). file_write pl t b) batches) (\<lambda>_.
     file_deliver fl pl js meta))"

definition file_attempt ::
    "fs_lib \<Rightarrow> ('w, 's, 'r) part_lib \<Rightarrow> doc_json \<Rightarrow> file_target \<Rightarrow> (table_schema \<times> write_mode) list \<Rightarrow> commit_meta
      \<Rightarrow> ('s, 'r) attempt_input \<Rightarrow> string docs \<Rightarrow> (dest_failure, string \<times> 64 word) result \<times> string docs" where
  "file_attempt fl pl js tg tables_of meta a m =
     (case file_open fl (ft_arm tg) (ft_format tg) (ft_partition_by tg) (ft_scope tg) (meta_load meta) (ai_parts a) (ai_lease a)
             \<lparr>fs_files = m, fs_env = ai_env a, fs_at = 0\<rparr> of
        (Inl e, d) \<Rightarrow> (Inl e, fs_files d)
      | (Inr l, d) \<Rightarrow> (case file_session fl pl js tables_of meta (ai_batches a) (l, d) of (r, s) \<Rightarrow> (r, fs_files (snd s))))"

fun file_attempts ::
    "fs_lib \<Rightarrow> ('w, 's, 'r) part_lib \<Rightarrow> doc_json \<Rightarrow> file_target \<Rightarrow> (table_schema \<times> write_mode) list \<Rightarrow> commit_meta
      \<Rightarrow> ('s, 'r) attempt_input list \<Rightarrow> string docs \<Rightarrow> (dest_failure, string \<times> 64 word) result list \<times> string docs" where
  "file_attempts fl pl js tg tables_of meta [] m = ([], m)"
| "file_attempts fl pl js tg tables_of meta (a # as) m =
     (case file_attempt fl pl js tg tables_of meta a m of (r, m1) \<Rightarrow>
      case file_attempts fl pl js tg tables_of meta as m1 of (rs, m2) \<Rightarrow> (r # rs, m2))"

text \<open>The unit's session as its tables are ensured; the fields an attempt chooses are left as they start.\<close>

definition unit_load :: "file_target \<Rightarrow> (table_schema \<times> write_mode) list \<Rightarrow> commit_meta \<Rightarrow> ('w, 's) file_load" where
  "unit_load tg tables_of meta =
     \<lparr>fl_arm = ft_arm tg, fl_format = ft_format tg, fl_partition_by = ft_partition_by tg, fl_scope = ft_scope tg,
      fl_load = meta_load meta, fl_tables = foldl (\<lambda>ts (schema, mode). btree_insert (sch_table schema) mode ts) [] tables_of,
      fl_staged = [], fl_parts = unbounded, fl_open = [], fl_lease = None\<rparr>"

definition batch_rows :: "(dest_format \<Rightarrow> 'r \<Rightarrow> 'x) \<Rightarrow> dest_format \<Rightarrow> (string \<times> ('s, 'r) fbatch) list \<Rightarrow> string \<Rightarrow> 'x multiset" where
  "batch_rows img f batches t = sum_list (map (\<lambda>(t', b). if t' = t then mset (map (img f) (fb_rows b)) else {#}) batches)"

section \<open>Opening a session\<close>

text \<open>Opening clears the staging directory and does nothing else.\<close>

definition clears :: "fs \<Rightarrow> fs \<Rightarrow> bool" where
  "clears d d' \<longleftrightarrow> (\<forall>n. \<not> staging_name n \<longrightarrow> fs_files d' n = fs_files d n) \<and> dom (fs_files d') \<subseteq> dom (fs_files d)"

lemma clears_order: "reflp clears" "transp clears"
  unfolding clears_def reflp_def transp_def by (simp, metis subset_trans)

lemma clears_io:
  assumes "\<And>m. (\<forall>n. \<not> staging_name n \<longrightarrow> snd (call m) n = m n) \<and> dom (snd (call m)) \<subseteq> dom m"
  shows "leaps clears (io call)"
  unfolding leaps_def
proof
  fix d
  show "clears d (snd (io call d))" using io_effect [of call d]
  proof
    assume "fs_files (snd (io call d)) = snd (call (fs_files d))"
    then show ?thesis using assms [of "fs_files d"] by (simp add: clears_def)
  qed (simp add: clears_def)
qed

lemma clears_verbs:
  "leaps clears touch" "leaps clears (list_files fl dir)"
  "staging_name n \<Longrightarrow> leaps clears (remove_if_present n)" "staging_name n \<Longrightarrow> leaps clears (remove_file fl n)"
  by (auto simp: touch_def list_files_def remove_if_present_def remove_file_def intro!: clears_io split: if_splits)

lemma list_files_Inr: "fs_lib_ok fl \<Longrightarrow> list_files fl dir d = (Inr names, d') \<Longrightarrow> \<forall>n \<in> set names. \<exists>r. n = dir @ ''/'' @ r"
proof -
  assume lib: "fs_lib_ok fl" and run: "list_files fl dir d = (Inr names, d')"
  have "names = list_under fl (fs_files d) dir" using run by (auto simp: list_files_def dest: io_Inr)
  moreover have "set (list_under fl (fs_files d) dir) \<subseteq> {n. fs_files d n \<noteq> None \<and> (\<exists>r. n = dir @ ''/'' @ r)}"
    using lib unfolding fs_lib_ok_def Let_def by blast
  ultimately show ?thesis by blast
qed

lemma clears_aret: "leaps clears (aret a)"
  by (rule conjunct1 [OF leaps_pure [OF clears_order(1)]])

lemma clears_listed:
  assumes lib: "fs_lib_ok fl" and k: "\<And>n. staging_name n \<Longrightarrow> leaps clears (rm n)"
  shows "leaps clears (abind (list_files fl (staging_root scope)) (aeach rm))"
  unfolding leaps_def
proof
  fix d
  obtain r d1 where run: "list_files fl (staging_root scope) d = (r, d1)" by (cases "list_files fl (staging_root scope) d")
  have 1: "clears d d1" by (rule leapsD [OF clears_verbs(2) run])
  show "clears d (snd (abind (list_files fl (staging_root scope)) (aeach rm) d))"
  proof (cases r)
    case (Inr names)
    have "leaps clears (aeach rm names)"
    proof (rule leaps_aeach [OF clears_order], rule k)
      fix n assume "n \<in> set names"
      with list_files_Inr [OF lib run [unfolded Inr]] show "staging_name n" by (auto simp: staging_name_def staging_root_def)
    qed
    then have "clears d1 (snd (aeach rm names d1))" by (simp add: leaps_def)
    with transpD [OF clears_order(2) 1] Inr run show ?thesis by (simp add: abind_def)
  qed (use 1 run in \<open>simp add: abind_def\<close>)
qed

lemma exists_dir_clears: "leaps clears (exists_dir fl dir)"
  unfolding leaps_def exists_dir_def using clears_verbs(2) [of fl dir]
  by (auto simp: leaps_def split: prod.splits sum.splits) (metis snd_conv)+

lemma prepare_staging_clears:
  assumes lib: "fs_lib_ok fl"
  shows "leaps clears (prepare_staging fl arm scope)"
proof -
  have "leaps clears (if there then abind (list_files fl (staging_root scope)) (aeach (remove_file fl)) else aret ())" for there
    by (cases there) (simp_all only: if_True if_False clears_aret clears_listed [OF lib clears_verbs(4)])
  then have "leaps clears (abind (exists_dir fl (staging_root scope)) (\<lambda>there.
      abind (if there then abind (list_files fl (staging_root scope)) (aeach (remove_file fl)) else aret ()) (\<lambda>_. touch)))"
    by (intro leaps_abind [OF clears_order(2)] exists_dir_clears clears_verbs(1))
  with clears_listed [OF lib clears_verbs(3)] show ?thesis by (cases arm) (simp_all add: prepare_staging_def)
qed

lemma file_open_quiet:
  fixes r :: "(dest_failure, ('w, 's) file_load) result"
  assumes "fs_lib_ok fl" and "file_open fl arm f pb scope load parts lease d = (r, d')"
  shows "clears d d'"
proof -
  have "leaps clears (file_open fl arm f pb scope load parts lease :: (fs, dest_failure, ('w, 's) file_load) action)"
    unfolding file_open_def by (intro leaps_abind [OF clears_order(2)] prepare_staging_clears [OF assms(1)] clears_aret)
  from leapsD [OF this assms(2)] show ?thesis .
qed

section \<open>Up to the delivery\<close>

text \<open>A condition on the storage that staging cannot disturb.\<close>

definition settled :: "(string docs \<Rightarrow> bool) \<Rightarrow> bool" where
  "settled X \<longleftrightarrow> (\<forall>m m'. (\<forall>n. \<not> staging_name n \<longrightarrow> m' n = m n) \<longrightarrow> (finite (dom m) \<longrightarrow> finite (dom m')) \<longrightarrow> X m \<longrightarrow> X m')"

lemma settled_quiet: "settled X \<Longrightarrow> leaps quiet m \<Longrightarrow> hoare (\<lambda>s. X (fs_files (snd s))) m (\<lambda>_ s. X (fs_files (snd s))) (\<lambda>s. X (fs_files (snd s)))"
  by (rule leaps_hoare [where R = quiet]) (auto simp: settled_def quiet_def)

lemma settled_recorded: "settled (recorded js l0 meta receipts0 m0)"
  unfolding settled_def
proof (intro allI impI)
  fix m m' :: "string docs" assume same: "\<forall>n. \<not> staging_name n \<longrightarrow> m' n = m n" "finite (dom m) \<longrightarrow> finite (dom m')" and rec: "recorded js l0 meta receipts0 m0 m"
  have "quiet (l0, \<lparr>fs_files = m, fs_env = e, fs_at = 0\<rparr>) (l0, \<lparr>fs_files = m', fs_env = e, fs_at = 0\<rparr>)" for e
    using same by (simp add: quiet_def)
  from quiet_recorded [OF this, of js l0 meta receipts0 m0] rec show "recorded js l0 meta receipts0 m0 m'" by simp
qed

lemma settled_landed: "unit_wf l0 meta \<Longrightarrow> settled (landed js rd l0 meta receipts0 m0 R)"
  unfolding settled_def
proof (intro allI impI)
  fix m m' :: "string docs"
  assume wf: "unit_wf l0 meta" and same: "\<forall>n. \<not> staging_name n \<longrightarrow> m' n = m n" "finite (dom m) \<longrightarrow> finite (dom m')" and rec: "landed js rd l0 meta receipts0 m0 R m"
  have "quiet (l0, \<lparr>fs_files = m, fs_env = e, fs_at = 0\<rparr>) (l0, \<lparr>fs_files = m', fs_env = e, fs_at = 0\<rparr>)" for e
    using same by (simp add: quiet_def)
  from quiet_landed [OF wf this, of js rd receipts0 m0 R] rec show "landed js rd l0 meta receipts0 m0 R m'" by simp
qed

lemma hoare_amap_err: "hoare P m Q E \<Longrightarrow> hoare P (amap_err f m) Q E"
  unfolding hoare_def amap_err_def by (fastforce split: prod.splits sum.splits)

definition with_table :: "('w, 's) file_load \<Rightarrow> table_schema \<times> write_mode \<Rightarrow> ('w, 's) file_load" where
  "with_table l = (\<lambda>(schema, mode). l\<lparr>fl_tables := btree_insert (sch_table schema) mode (fl_tables l)\<rparr>)"

lemma ensure_step:
  "hoare (mem l X) (file_ensure_table schema mode) (\<lambda>_. mem (with_table l (schema, mode)) X) (\<lambda>s. X (fs_files (snd s)))"
proof -
  let ?E = "\<lambda>s. X (fs_files (snd s))"
  have "hoare (mem l X) (on_fs touch) (\<lambda>_. mem l X) (mem l X)" by (rule hoare_touch)
  then have "hoare (mem l X) (on_fs touch) (\<lambda>_. mem l X) ?E" by (rule hoare_weaken) (simp_all add: mem_def)
  then have t: "hoare (mem l X) (if arm = LocalArm then amap_err f (on_fs touch) else aret ()) (\<lambda>_. mem l X) ?E" for arm f
    by (auto intro: hoare_amap_err hoare_aret)
  have set: "hoare (mem l X) (set_load (\<lambda>l. l\<lparr>fl_tables := btree_insert (sch_table schema) mode (fl_tables l)\<rparr>))
      (\<lambda>_. mem (with_table l (schema, mode)) X) ?E"
    by (rule hoare_set_load) (simp add: mem_def with_table_def)
  have both: "hoare (\<lambda>s. mem l X s \<and> fst s = l') (abind (if arm = LocalArm then amap_err f (on_fs touch) else aret ()) (\<lambda>_.
      set_load (\<lambda>l. l\<lparr>fl_tables := btree_insert (sch_table schema) mode (fl_tables l)\<rparr>))) (\<lambda>_. mem (with_table l (schema, mode)) X) ?E" for arm f l'
    by (rule hoare_pre [OF _ hoare_abind [OF t set]]) blast
  show ?thesis
  proof (cases mode)
    case (Merge keys)
    show ?thesis unfolding file_ensure_table_def Merge write_mode.case by (rule hoare_afail) (simp add: mem_def)
  next
    case Append
    show ?thesis unfolding file_ensure_table_def Append unfolding write_mode.case unfolding Append [symmetric] by (rule hoare_on_load) (rule both)
  next
    case Replace
    show ?thesis unfolding file_ensure_table_def Replace unfolding write_mode.case unfolding Replace [symmetric] by (rule hoare_on_load) (rule both)
  qed
qed

lemma ensures_step:
  "hoare (mem l X) (aeach (\<lambda>(schema, mode). file_ensure_table schema mode) tables_of)
    (\<lambda>_. mem (foldl with_table l tables_of) X) (\<lambda>s. X (fs_files (snd s)))"
proof -
  let ?P = "\<lambda>i. mem (foldl with_table l (take i tables_of)) X"
  have "hoare (?P 0) (aeach (\<lambda>(schema, mode). file_ensure_table schema mode) tables_of) (\<lambda>_. ?P (length tables_of)) (\<lambda>s. X (fs_files (snd s)))"
  proof (rule hoare_aeach_nth)
    fix i assume i: "i < length tables_of"
    obtain schema mode where x: "tables_of ! i = (schema, mode)" by (cases "tables_of ! i")
    show "hoare (?P i) (case tables_of ! i of (schema, mode) \<Rightarrow> file_ensure_table schema mode) (\<lambda>_. ?P (Suc i)) (\<lambda>s. X (fs_files (snd s)))"
      using ensure_step [of "foldl with_table l (take i tables_of)" X schema mode] i x by (simp add: take_Suc_conv_app_nth)
  qed
  then show ?thesis by simp
qed

lemma with_tables:
  "foldl with_table l tables_of = l\<lparr>fl_tables := foldl (\<lambda>ts (schema, mode). btree_insert (sch_table schema) mode ts) (fl_tables l) tables_of\<rparr>"
  by (induction tables_of arbitrary: l) (auto simp: with_table_def)

lemma writes_step:
  fixes pl :: "('w, 's, 'r) part_lib" and l0 :: "('w, 's) file_load"
  assumes part: "part_ok pl rd img held" and tabs: "\<forall>t \<in> fst ` set batches. table_ok t" and X: "settled X"
  shows "hoare (\<lambda>s. books rd held l0 (\<lambda>_. {#}) s \<and> X (fs_files (snd s))) (aeach (\<lambda>(t, b). file_write pl t b) batches)
    (\<lambda>_ s. books rd held l0 (batch_rows img (fl_format l0) batches) s \<and> X (fs_files (snd s))) (\<lambda>s. X (fs_files (snd s)))"
proof -
  let ?R = "\<lambda>i. batch_rows img (fl_format l0) (take i batches)"
  let ?P = "\<lambda>i s. books rd held l0 (?R i) s \<and> X (fs_files (snd s))"
  have "hoare (?P 0) (aeach (\<lambda>(t, b). file_write pl t b) batches) (\<lambda>_. ?P (length batches)) (\<lambda>s. X (fs_files (snd s)))"
  proof (rule hoare_aeach_nth)
    fix i assume i: "i < length batches"
    obtain t b where x: "batches ! i = (t, b)" by (cases "batches ! i")
    have "(t, b) \<in> set batches" using nth_mem [OF i] x by simp
    then have t: "table_ok t" using tabs by force
    have R: "(?R i)(t := ?R i t + mset (map (img (fl_format l0)) (fb_rows b))) = ?R (Suc i)"
      using i x by (auto simp: fun_eq_iff batch_rows_def take_Suc_conv_app_nth)
    have "hoare (?P i) (file_write pl t b) (\<lambda>_. ?P (Suc i)) (\<lambda>s. X (fs_files (snd s)))"
      by (rule hoare_weaken [OF hoare_conj [OF file_write_books [OF part t, of l0 "?R i" b, unfolded R] settled_quiet [OF X file_write_quiet]]])
        simp_all
    then show "hoare (?P i) (case batches ! i of (t, b) \<Rightarrow> file_write pl t b) (\<lambda>_. ?P (Suc i)) (\<lambda>s. X (fs_files (snd s)))"
      using x by simp
  qed
  moreover have "?R 0 = (\<lambda>_. {#})" "take (length batches) batches = batches" by (simp_all add: batch_rows_def fun_eq_iff)
  ultimately show ?thesis by simp
qed

section \<open>The delivery\<close>

lemma hoare_disj: "hoare P m Q E \<Longrightarrow> hoare P' m Q E \<Longrightarrow> hoare (\<lambda>s. P s \<or> P' s) m Q E"
  unfolding hoare_def by metis

lemma replay_step:
  assumes X: "settled X"
  shows "hoare (\<lambda>s. books rd held l0 R s \<and> X (fs_files (snd s))) file_replay (\<lambda>_ s. X (fs_files (snd s))) (\<lambda>s. X (fs_files (snd s)))"
proof -
  let ?X = "\<lambda>s. X (fs_files (snd s))" and ?tails = "\<lambda>s. \<forall>p \<in> set (fl_staged (fst s)). staging_name (sp_tail p)"
  have pre: "?tails s \<and> ?X s" if "books rd held l0 R s \<and> ?X s" for s
    using that by (cases s) (auto simp: books_def staged_ok_def staged_wf_def)
  have clear: "hoare (\<lambda>s. ?tails s \<and> ?X s) (set_load (\<lambda>l. l\<lparr>fl_open := []\<rparr>)) (\<lambda>_ s. ?tails s \<and> ?X s) ?X"
    by (rule hoare_set_load) simp
  have forget: "hoare (\<lambda>s. (?tails s \<and> ?X s) \<and> fst s = l) (set_load (\<lambda>l. l\<lparr>fl_staged := []\<rparr>)) (\<lambda>_ s. (\<forall>p \<in> set (fl_staged l). staging_name (sp_tail p)) \<and> ?X s) ?X" for l
    by (rule hoare_set_load) auto
  have one: "hoare (\<lambda>s. staging_name n \<and> ?X s) (on_fs (stage_remove n)) (\<lambda>_. ?X) ?X" for n
  proof (rule hoareI)
    fix s r s' assume s: "staging_name n \<and> ?X s" and run: "on_fs (stage_remove n) s = (r, s')"
    have "fs_files (snd (remove_if_present n (snd s))) k = fs_files (snd s) k" if "k \<noteq> n" for k
      using that within_verbs(4) [of n] by (simp add: within_def leaps_def)
    moreover have "s' = (fst s, snd (remove_if_present n (snd s)))" using run by (auto simp: on_fs_def stage_remove_def)
    moreover have "k \<noteq> n" if "\<not> staging_name k" for k using that s by metis
    ultimately have "\<forall>k. \<not> staging_name k \<longrightarrow> fs_files (snd s') k = fs_files (snd s) k" by simp
    moreover have "finite (dom (fs_files (snd s))) \<longrightarrow> finite (dom (fs_files (snd s')))"
      using within_finite [OF within_verbs(4) finite.intros(2) [OF finite.intros(1)], of "snd s" n]
        \<open>s' = (fst s, snd (remove_if_present n (snd s)))\<close> by simp
    ultimately have "?X s'" using X s unfolding settled_def by blast
    then show "case r of Inl _ \<Rightarrow> ?X s' | Inr _ \<Rightarrow> ?X s'" by (cases r) simp_all
  qed
  have loop: "hoare (\<lambda>s. (\<forall>p \<in> set ps. staging_name (sp_tail p)) \<and> ?X s) (aeach (\<lambda>p. on_fs (stage_remove (sp_tail p))) ps) (\<lambda>_. ?X) ?X" for ps
  proof (rule hoare_known [of _ "\<forall>p \<in> set ps. staging_name (sp_tail p)"])
    assume tails: "\<forall>p \<in> set ps. staging_name (sp_tail p)"
    have "hoare ?X (aeach (\<lambda>p. on_fs (stage_remove (sp_tail p))) ps) (\<lambda>_. ?X) ?X"
      by (rule hoare_aeach, rule hoare_pre [OF _ one]) (use tails in blast)
    then show ?thesis by (rule hoare_pre [rotated]) blast
  qed blast
  show ?thesis unfolding file_replay_def
    by (rule hoare_pre [OF pre], assumption, rule hoare_abind [OF clear], rule hoare_on_load, rule hoare_abind [OF forget], rule loop)
qed

lemma receipt_step:
  assumes P: "\<And>s. P s \<Longrightarrow> fl_scope (fst s) = scope \<and> X (fs_files (snd s))"
    and log: "\<And>m log. X m \<Longrightarrow> log_decode js (m (commits_file scope)) (commits_file scope) = Inr log \<Longrightarrow> cl_receipts log = rs"
    and files: "\<And>s d. P s \<Longrightarrow> fs_files d = fs_files (snd s) \<Longrightarrow> P (fst s, d)"
  shows "hoare P (file_existing_receipt js load seq)
    (\<lambda>found s. P s \<and> found = (if (load, seq) \<in> set rs then Some (load, seq) else None)) (\<lambda>s. X (fs_files (snd s)))"
  unfolding file_existing_receipt_def
proof (rule hoare_on_load)
  fix l
  let ?P = "\<lambda>s. P s \<and> fst s = l"
  let ?Q = "\<lambda>found s. P s \<and> found = (if (load, seq) \<in> set rs then Some (load, seq) else None)"
  have read: "hoare ?P (on_fs (read_log js (fl_scope l))) (\<lambda>log s. P s \<and> cl_receipts log = rs) (\<lambda>s. X (fs_files (snd s)))"
  proof (rule hoareI)
    fix s r s' assume s: "?P s" and run: "on_fs (read_log js (fl_scope l)) s = (r, s')"
    have scope: "fl_scope l = scope" and x: "X (fs_files (snd s))" using P [OF conjunct1 [OF s]] s by auto
    obtain g d where get: "get_file (commits_file scope) (snd s) = (g, d)" by (cases "get_file (commits_file scope) (snd s)")
    have same: "fs_files d = fs_files (snd s)"
      using get within_verbs(3) [of "commits_file scope"] by (auto simp: within_def leaps_def fun_eq_iff dest: spec [of _ "snd s"])
    show "case r of Inl _ \<Rightarrow> X (fs_files (snd s')) | Inr log \<Rightarrow> P s' \<and> cl_receipts log = rs"
    proof (cases g)
      case (Inl e)
      with run get scope have "r = Inl e" "s' = (fst s, d)" by (auto simp: on_fs_def read_log_def abind_def)
      then show ?thesis using same x by simp
    next
      case (Inr bytes)
      with get have b: "bytes = fs_files (snd s) (commits_file scope)" by (auto simp: get_file_def dest: io_Inr)
      have r: "r = log_decode js bytes (commits_file scope)" "s' = (fst s, d)"
        using run get scope Inr by (auto simp: on_fs_def read_log_def abind_def)
      then show ?thesis using log [OF x] b files [OF conjunct1 [OF s] same] same x by (auto split: sum.splits)
    qed
  qed
  show "hoare ?P (abind (on_fs (read_log js (fl_scope l))) (\<lambda>log. aret (if (load, seq) \<in> set (cl_receipts log) then Some (load, seq) else None)))
      ?Q (\<lambda>s. X (fs_files (snd s)))"
    by (rule hoare_abind [OF read], rule hoare_aret) simp
qed

lemma books_scope: "books rd held l0 R (l, d) \<Longrightarrow> fl_scope l = fl_scope l0"
  by (simp add: books_def same_load_def)

lemma books_same_files: "books rd held l0 R (l, d) \<Longrightarrow> fs_files d' = fs_files d \<Longrightarrow> books rd held l0 R (l, d')"
  by (simp add: books_def)

lemma deliver_recorded:
  fixes l0 :: "('w, 's) file_load" and pl :: "('w, 's, 'r) part_lib"
  assumes lib: "fs_lib_ok fl" and part: "part_ok pl rd img held" and js: "doc_json_ok js" and fresh: "unit_fresh js l0 meta receipts0 m0"
  shows "hoare (\<lambda>s. books rd held l0 R s \<and> recorded js l0 meta receipts0 m0 (fs_files (snd s))) (file_deliver fl pl js meta)
    (\<lambda>_ s. landed js rd l0 meta receipts0 m0 R (fs_files (snd s))) (\<lambda>s. unfinished js rd l0 meta receipts0 m0 R (fs_files (snd s)))"
proof -
  let ?P = "\<lambda>s. books rd held l0 R s \<and> recorded js l0 meta receipts0 m0 (fs_files (snd s))"
  have new: "(meta_load meta, meta_seq meta) \<notin> set receipts0" using fresh by (simp add: unit_fresh_def)
  have "hoare ?P (file_existing_receipt js (meta_load meta) (meta_seq meta))
    (\<lambda>found s. ?P s \<and> found = (if (meta_load meta, meta_seq meta) \<in> set receipts0 then Some (meta_load meta, meta_seq meta) else None))
    (\<lambda>s. recorded js l0 meta receipts0 m0 (fs_files (snd s)))"
  proof (rule receipt_step [where scope = "fl_scope l0"])
    fix m log assume "recorded js l0 meta receipts0 m0 m" "log_decode js (m (commits_file (fl_scope l0))) (commits_file (fl_scope l0)) = Inr log"
    with fresh show "cl_receipts log = receipts0" by (auto simp: recorded_def unit_fresh_def)
  qed (auto dest: books_scope books_same_files)
  then have probe: "hoare ?P (file_existing_receipt js (meta_load meta) (meta_seq meta)) (\<lambda>found s. ?P s \<and> found = None)
      (\<lambda>s. unfinished js rd l0 meta receipts0 m0 R (fs_files (snd s)))"
    by (rule hoare_weaken) (auto simp: new unfinished_def)
  show ?thesis unfolding file_deliver_def
  proof (rule hoare_abind [OF probe], rule hoare_known)
    fix found :: "(string \<times> 64 word) option"
    show "found = None" if "?P s \<and> found = None" for s using that by blast
    assume none: "found = None"
    show "hoare (\<lambda>s. ?P s \<and> found = None) (case found of Some receipt \<Rightarrow> abind file_replay (\<lambda>_. aret receipt) | None \<Rightarrow> file_publish fl pl js meta)
      (\<lambda>_ s. landed js rd l0 meta receipts0 m0 R (fs_files (snd s))) (\<lambda>s. unfinished js rd l0 meta receipts0 m0 R (fs_files (snd s)))"
      unfolding none option.case by (rule hoare_pre [OF _ file_publish_lands [OF lib part js fresh]]) blast
  qed
qed

lemma deliver_landed:
  assumes wf: "unit_wf l0 meta"
  shows "hoare (\<lambda>s. books rd held l0 R s \<and> landed js rd l0 meta receipts0 m0 R (fs_files (snd s))) (file_deliver fl pl js meta)
    (\<lambda>_ s. landed js rd l0 meta receipts0 m0 R (fs_files (snd s))) (\<lambda>s. landed js rd l0 meta receipts0 m0 R (fs_files (snd s)))"
proof -
  let ?L = "landed js rd l0 meta receipts0 m0 R"
  let ?P = "\<lambda>s. books rd held l0 R s \<and> ?L (fs_files (snd s))"
  let ?k = "(meta_load meta, meta_seq meta)"
  have "hoare ?P (file_existing_receipt js (meta_load meta) (meta_seq meta))
    (\<lambda>found s. ?P s \<and> found = (if ?k \<in> set (receipts0 @ [?k]) then Some ?k else None)) (\<lambda>s. ?L (fs_files (snd s)))"
    by (rule receipt_step [where scope = "fl_scope l0"]) (auto simp: landed_def dest: books_scope books_same_files)
  then have probe: "hoare ?P (file_existing_receipt js (meta_load meta) (meta_seq meta)) (\<lambda>found s. ?P s \<and> found = Some ?k) (\<lambda>s. ?L (fs_files (snd s)))"
    by (rule hoare_weaken) simp_all
  show ?thesis unfolding file_deliver_def
  proof (rule hoare_abind [OF probe], rule hoare_known)
    fix found :: "(string \<times> 64 word) option"
    show "found = Some ?k" if "?P s \<and> found = Some ?k" for s using that by blast
    assume some: "found = Some ?k"
    show "hoare (\<lambda>s. ?P s \<and> found = Some ?k) (case found of Some receipt \<Rightarrow> abind file_replay (\<lambda>_. aret receipt) | None \<Rightarrow> file_publish fl pl js meta)
      (\<lambda>_ s. ?L (fs_files (snd s))) (\<lambda>s. ?L (fs_files (snd s)))"
      unfolding some option.case
      by (rule hoare_abind [OF hoare_pre [OF _ replay_step [OF settled_landed [OF wf]]]]) (auto intro: hoare_aret)
  qed
qed

section \<open>Any number of attempts\<close>

lemma unit_load_opened:
  "foldl with_table \<lparr>fl_arm = ft_arm tg, fl_format = ft_format tg, fl_partition_by = ft_partition_by tg, fl_scope = ft_scope tg,
      fl_load = meta_load meta, fl_tables = [], fl_staged = [], fl_parts = parts, fl_open = [], fl_lease = Some lease\<rparr> tables_of
    = (unit_load tg tables_of meta)\<lparr>fl_parts := parts, fl_lease := Some lease\<rparr>"
  by (simp add: with_tables unit_load_def)

lemma books_start: "books rd held (unit_load tg tables_of meta) (\<lambda>_. {#}) ((unit_load tg tables_of meta)\<lparr>fl_parts := parts, fl_lease := lease\<rparr>, d)"
  by (simp add: books_def same_load_def unit_load_def staged_ok_def open_ok_def staged_rows_def open_rows_def)

lemma file_open_Inr:
  assumes "file_open fl arm f pb scope load parts lease d = (Inr l, d')"
  shows "l = \<lparr>fl_arm = arm, fl_format = f, fl_partition_by = pb, fl_scope = scope, fl_load = load, fl_tables = [],
        fl_staged = [], fl_parts = parts, fl_open = [], fl_lease = Some lease\<rparr>"
  using assms by (auto simp: file_open_def abind_Inr)

text \<open>What a delivery makes of \<open>X\<close> becomes of it over a whole attempt.\<close>

lemma file_attempt_step:
  fixes pl :: "('w, 's, 'r) part_lib" and tg :: file_target and tables_of and meta :: commit_meta
  defines "l0 \<equiv> unit_load tg tables_of meta :: ('w, 's) file_load"
  assumes lib: "fs_lib_ok fl" and part: "part_ok pl rd img held" and X: "settled X" and XE: "\<And>m. X m \<Longrightarrow> E m"
    and tabs: "\<forall>t \<in> fst ` set (ai_batches a). table_ok t" and R: "batch_rows img (ft_format tg) (ai_batches a) = R"
    and deliver: "hoare (\<lambda>s. books rd held l0 R s \<and> X (fs_files (snd s))) (file_deliver fl pl js meta) (\<lambda>_ s. L (fs_files (snd s))) (\<lambda>s. E (fs_files (snd s)))"
    and m: "X m" and run: "file_attempt fl pl js tg tables_of meta a m = (r, m')"
  shows "case r of Inl _ \<Rightarrow> E m' | Inr _ \<Rightarrow> L m'"
proof -
  obtain r1 d where op: "file_open fl (ft_arm tg) (ft_format tg) (ft_partition_by tg) (ft_scope tg) (meta_load meta) (ai_parts a) (ai_lease a)
      \<lparr>fs_files = m, fs_env = ai_env a, fs_at = 0\<rparr> = (r1 :: (dest_failure, ('w, 's) file_load) result, d)"
    by (metis surj_pair)
  have "(\<forall>n. \<not> staging_name n \<longrightarrow> fs_files d n = m n)" "dom (fs_files d) \<subseteq> dom m"
    using file_open_quiet [OF lib op] by (simp_all add: clears_def)
  then have Xd: "X (fs_files d)" using m X finite_subset unfolding settled_def by blast
  show ?thesis
  proof (cases r1)
    case (Inl e)
    with run op have "r = Inl e" "m' = fs_files d" by (auto simp: file_attempt_def)
    with XE [OF Xd] show ?thesis by simp
  next
    case (Inr l)
    obtain r2 s where ses: "file_session fl pl js tables_of meta (ai_batches a) (l, d) = (r2, s)" by (metis surj_pair)
    have res: "r = r2" "m' = fs_files (snd s)" using run op Inr ses by (auto simp: file_attempt_def)
    let ?E = "\<lambda>s. E (fs_files (snd s))"
    have f: "fl_format l0 = ft_format tg" by (simp add: l0_def unit_load_def)
    have l: "foldl with_table l tables_of = l0\<lparr>fl_parts := ai_parts a, fl_lease := Some (ai_lease a)\<rparr>"
      using file_open_Inr [OF op [unfolded Inr]] by (simp add: unit_load_opened l0_def)
    have 1: "hoare (mem l X) (aeach (\<lambda>(schema, mode). file_ensure_table schema mode) tables_of)
        (\<lambda>_ s. books rd held l0 (\<lambda>_. {#}) s \<and> X (fs_files (snd s))) ?E"
    proof (rule hoare_weaken [OF ensures_step])
      fix s assume "mem (foldl with_table l tables_of) X s"
      then show "books rd held l0 (\<lambda>_. {#}) s \<and> X (fs_files (snd s))"
        using books_start [of rd held tg tables_of meta "Some (ai_lease a)" "ai_parts a" "snd s"]
        by (cases s) (simp add: mem_def l, simp add: l0_def)
    qed (auto intro: XE)
    have 2: "hoare (\<lambda>s. books rd held l0 (\<lambda>_. {#}) s \<and> X (fs_files (snd s))) (aeach (\<lambda>(t, b). file_write pl t b) (ai_batches a))
        (\<lambda>_ s. books rd held l0 R s \<and> X (fs_files (snd s))) ?E"
      by (rule hoare_weaken [OF writes_step [OF part tabs X]]) (auto simp: f R intro: XE)
    have "hoare (mem l X) (file_session fl pl js tables_of meta (ai_batches a)) (\<lambda>_ s. L (fs_files (snd s))) ?E"
      unfolding file_session_def by (rule hoare_abind [OF 1], rule hoare_abind [OF 2], rule deliver)
    from hoareD [OF this _ ses] Xd res show ?thesis by (cases r2) (simp_all add: mem_def)
  qed
qed

lemma attempt_unfinished:
  fixes pl :: "('w, 's, 'r) part_lib" and tg :: file_target and tables_of and meta :: commit_meta
  defines "l0 \<equiv> unit_load tg tables_of meta :: ('w, 's) file_load"
  assumes lib: "fs_lib_ok fl" and part: "part_ok pl rd img held" and js: "doc_json_ok js" and fresh: "unit_fresh js l0 meta receipts0 m0"
    and tabs: "\<forall>t \<in> fst ` set (ai_batches a). table_ok t" and R: "batch_rows img (ft_format tg) (ai_batches a) = R"
    and m: "unfinished js rd l0 meta receipts0 m0 R m" and run: "file_attempt fl pl js tg tables_of meta a m = (r, m')"
  shows "unfinished js rd l0 meta receipts0 m0 R m'"
    "(\<exists>k. r = Inr k) \<or> landed js rd l0 meta receipts0 m0 R m \<Longrightarrow> landed js rd l0 meta receipts0 m0 R m'"
proof -
  let ?L = "landed js rd l0 meta receipts0 m0 R" and ?U = "unfinished js rd l0 meta receipts0 m0 R"
  have wf: "unit_wf l0 meta" using fresh by (simp add: unit_fresh_def)
  have land: "?L m'" if "?L m"
    using file_attempt_step [OF lib part settled_landed [OF wf, unfolded l0_def] _ tabs R deliver_landed [OF wf, unfolded l0_def] that [unfolded l0_def] run]
    by (cases r) (auto simp: l0_def)
  have rec: "case r of Inl _ \<Rightarrow> ?U m' | Inr _ \<Rightarrow> ?L m'" if "recorded js l0 meta receipts0 m0 m"
    using file_attempt_step [OF lib part settled_recorded _ tabs R deliver_recorded [OF lib part js fresh [unfolded l0_def]] that [unfolded l0_def] run]
    by (cases r) (auto simp: l0_def unfinished_def)
  show "?U m'" using m land rec by (cases r) (auto simp: unfinished_def)
  show "?L m'" if "(\<exists>k. r = Inr k) \<or> ?L m" using that m land rec by (auto simp: unfinished_def)
qed

text \<open>
  C8. A unit lands exactly once, however many sessions attempt it. Each attempt may lose the
  request or the reply of any call on the storage, may find its lease gone, may divide the rows
  into parts in its own way, and writes the unit's rows \<open>R\<close>. Whenever one of them has been given
  a receipt, the storage holds one more receipt than before the first, the files of the unit hold
  exactly \<open>R\<close>, table by table, what Replace had to clear is gone, and no other data is touched.
\<close>

theorem file_unit_lands_once:
  fixes pl :: "('w, 's, 'r) part_lib" and tg :: file_target and tables_of and meta :: commit_meta
  defines "l0 \<equiv> unit_load tg tables_of meta :: ('w, 's) file_load"
  assumes lib: "fs_lib_ok fl" and part: "part_ok pl rd img held" and js: "doc_json_ok js"
    and m0: "finite (dom m0)" and fresh: "unit_fresh js l0 meta receipts0 m0" and new: "\<And>names. \<not> manifest_for js (ft_scope tg) meta m0 names"
    and rows: "\<forall>a \<in> set as. (\<forall>t \<in> fst ` set (ai_batches a). table_ok t) \<and> batch_rows img (ft_format tg) (ai_batches a) = R"
    and run: "file_attempts fl pl js tg tables_of meta as m0 = (rs, m)" and ack: "Inr k \<in> set rs"
  shows "landed js rd l0 meta receipts0 m0 R m"
proof -
  let ?L = "landed js rd l0 meta receipts0 m0 R" and ?U = "unfinished js rd l0 meta receipts0 m0 R"
  have steps: "?U m2 \<and> (?L m1 \<or> Inr k \<in> set rs \<longrightarrow> ?L m2)"
    if "?U m1" "file_attempts fl pl js tg tables_of meta as m1 = (rs, m2)"
      "\<forall>a \<in> set as. (\<forall>t \<in> fst ` set (ai_batches a). table_ok t) \<and> batch_rows img (ft_format tg) (ai_batches a) = R" for m1 m2 rs as
    using that
  proof (induction as arbitrary: m1 rs)
    case (Cons a as)
    obtain r m' where one: "file_attempt fl pl js tg tables_of meta a m1 = (r, m')" by (metis surj_pair)
    obtain rs' m'' where rest: "file_attempts fl pl js tg tables_of meta as m' = (rs', m'')" by (metis surj_pair)
    have eq: "rs = r # rs'" "m2 = m''" using Cons.prems(2) one rest by auto
    have a: "\<forall>t \<in> fst ` set (ai_batches a). table_ok t" "batch_rows img (ft_format tg) (ai_batches a) = R"
      using Cons.prems(3) by auto
    note att = attempt_unfinished [OF lib part js fresh [unfolded l0_def] a Cons.prems(1) [unfolded l0_def] one, folded l0_def]
    have "?U m2 \<and> (?L m' \<or> Inr k \<in> set rs' \<longrightarrow> ?L m2)"
      using Cons.IH [OF att(1)] rest eq(2) Cons.prems(3) by simp
    with att(2) eq(1) show ?case by auto
  qed simp
  have scope: "fl_scope l0 = ft_scope tg" by (simp add: l0_def unit_load_def)
  have "recorded js l0 meta receipts0 m0 m0" unfolding recorded_def scope
    using new m0 by (auto simp: left_over_def intro!: exI [of _ "{}"])
  then have "?U m0" by (simp add: unfinished_def)
  from steps [OF this run rows] ack show ?thesis by blast
qed

section \<open>The memory ceiling\<close>

lemma close_part_open:
  "hoare (\<lambda>s. fl_open (fst s) = es) (close_part pl key) (\<lambda>_ s. fl_open (fst s) = filter (\<lambda>e. fst e \<noteq> key) es) (\<lambda>_. True)"
proof (rule hoareI)
  fix s r s' assume es: "fl_open (fst s) = es" and run: "close_part pl key s = (r, s')"
  obtain l d where s: "s = (l, d)" by (cases s)
  show "case r of Inl _ \<Rightarrow> True | Inr _ \<Rightarrow> fl_open (fst s') = filter (\<lambda>e. fst e \<noteq> key) es"
  proof (cases "map_of es key")
    case None
    then have "filter (\<lambda>e. fst e \<noteq> key) es = es" by (auto simp: filter_id_conv map_of_eq_None_iff)
    with None run s es show ?thesis by (auto simp: close_part_def on_load_def)
  next
    case (Some v)
    with run s es show ?thesis
      by (cases v) (auto simp: close_part_def on_load_def set_load_def abind_def on_fs_def Let_def split: sum.splits prod.splits if_splits)
  qed
qed

lemma largest_open_in: "largest_open pl es = Some (key, n) \<Longrightarrow> key \<in> fst ` set es"
  by (induction es arbitrary: key n) (auto split: option.splits if_splits)

lemma largest_open_None: "largest_open pl es = None \<longleftrightarrow> es = []"
  by (cases es) (auto split: option.splits)

lemma enforce_ceiling:
  fixes pl :: "('w, 's, 'r) part_lib"
  shows "hoare (\<lambda>s. length (fl_open (fst s)) < fuel) (enforce_open_budget pl fuel)
    (\<lambda>_ s. \<not> over_budget (fl_parts (fst s)) (open_bytes pl (fst s))) (\<lambda>_. True)"
proof (induction fuel)
  case (Suc fuel)
  show ?case unfolding enforce_open_budget.simps
  proof (rule hoare_on_load)
    fix l :: "('w, 's) file_load"
    let ?P = "\<lambda>s. length (fl_open (fst s)) < Suc fuel \<and> fst s = l"
    let ?Q = "\<lambda>_ s. \<not> over_budget (fl_parts (fst s)) (open_bytes pl (fst s))"
    show "hoare ?P (if \<not> over_budget (fl_parts l) (open_bytes pl l) then aret () else case largest_open pl (fl_open l) of
        None \<Rightarrow> aret () | Some (key, _) \<Rightarrow> abind (close_part pl key) (\<lambda>_. enforce_open_budget pl fuel)) ?Q (\<lambda>_. True)"
    proof (cases "over_budget (fl_parts l) (open_bytes pl l)")
      case False
      then show ?thesis by (auto simp: hoare_def)
    next
      case True
      then have "fl_open l \<noteq> []" by (auto simp: over_budget_def open_bytes_def split: option.splits)
      then obtain key n where k: "largest_open pl (fl_open l) = Some (key, n)"
        using largest_open_None [of pl "fl_open l"] by (cases "largest_open pl (fl_open l)") auto
      have "length (filter (\<lambda>e. fst e \<noteq> key) (fl_open l)) < length (fl_open l)"
        using largest_open_in [OF k] by (auto intro: length_filter_less)
      then have "hoare ?P (close_part pl key) (\<lambda>_ s. length (fl_open (fst s)) < fuel) (\<lambda>_. True)"
        by (rule_tac hoare_known [of _ "length (fl_open l) < Suc fuel"]) (auto intro: hoare_weaken [OF close_part_open [of "fl_open l"]])
      with True k show ?thesis by (simp add: hoare_abind [OF _ Suc.IH])
    qed
  qed
qed (simp add: hoare_def)

text \<open>
  C25. A write leaves no more than the memory ceiling open. After a write that succeeded, whatever
  was open before it and however many parts the batch touched, the encoded bytes of the open
  parts are within the session's ceiling: the closing loop does not stop early and its rounds
  suffice.
\<close>

theorem file_write_ceiling:
  fixes pl :: "('w, 's, 'r) part_lib"
  assumes "file_write pl t b s = (Inr (), s')"
  shows "\<not> over_budget (fl_parts (fst s')) (open_bytes pl (fst s'))"
proof -
  let ?T = "\<lambda>_ :: ('w, 's) file_load \<times> fs. True" and ?Q = "\<lambda>_ s. \<not> over_budget (fl_parts (fst s)) (open_bytes pl (fst s))"
  have any: "hoare ?T m (\<lambda>_. ?T) ?T" for m :: "('w, 's, 'z) file_action"
    by (rule hoareI) (simp split: sum.splits)
  have close: "hoare ?T (on_load (\<lambda>l. enforce_open_budget pl (Suc (length (fl_open l))))) ?Q ?T"
    by (rule hoare_on_load) (rule hoare_pre [OF _ enforce_ceiling], simp)
  have groups: "hoare ?T (abind (aeach (write_group pl t) gs) (\<lambda>_. on_load (\<lambda>l. enforce_open_budget pl (Suc (length (fl_open l)))))) ?Q ?T" for gs
    by (rule hoare_abind [OF any close])
  have split: "hoare ?T (abind (alift r) (\<lambda>gs. abind (aeach (write_group pl t) gs) (\<lambda>_. on_load (\<lambda>l. enforce_open_budget pl (Suc (length (fl_open l))))))) ?Q ?T" for r
    by (rule hoare_abind [OF any groups])
  have "hoare ?T (file_write pl t b) ?Q ?T"
    unfolding file_write_def by (rule hoare_abind [OF any], rule hoare_on_load, rule hoare_pre [OF _ split], rule TrueI)
  from hoareD [OF this _ assms] show ?thesis by simp
qed

end
