(* ===== verification/File_Attempts_Demo.thy ===== *)
theory File_Attempts_Demo
  imports File_Attempts
begin

text \<open>
  The file destination's theorems at a concrete storage: numbers for rows, one line of text for
  each, documents in a text of their own, and a unit whose first session divides its rows into
  two parts and loses the storage before the receipt, and whose second writes one part.
\<close>

section \<open>Documents\<close>

definition put_nat :: "nat \<Rightarrow> string" where
  "put_nat n = replicate n (CHR ''u'') @ ''e''"

fun get_nat :: "string \<Rightarrow> nat \<times> string" where
  "get_nat [] = (0, [])"
| "get_nat (c # s) = (if c = CHR ''u'' then (case get_nat s of (n, r) \<Rightarrow> (Suc n, r)) else (0, s))"

definition put_text :: "string \<Rightarrow> string" where
  "put_text s = concat (map (\<lambda>c. [CHR ''c'', c]) s) @ ''e''"

fun get_text :: "string \<Rightarrow> string \<times> string" where
  "get_text (k # c # s) = (if k = CHR ''c'' then (case get_text s of (t, r) \<Rightarrow> (c # t, r)) else ([], c # s))"
| "get_text s = ([], drop 1 s)"

definition put_list :: "('a \<Rightarrow> string) \<Rightarrow> 'a list \<Rightarrow> string" where
  "put_list f xs = concat (map (\<lambda>x. CHR ''l'' # f x) xs) @ ''e''"

fun get_list :: "(string \<Rightarrow> 'a \<times> string) \<Rightarrow> nat \<Rightarrow> string \<Rightarrow> 'a list \<times> string" where
  "get_list g (Suc n) (c # s) =
     (if c = CHR ''l'' then (case g s of (x, r) \<Rightarrow> case get_list g n r of (xs, r') \<Rightarrow> (x # xs, r')) else ([], s))"
| "get_list g n s = ([], s)"

definition put_receipt :: "string \<times> 64 word \<Rightarrow> string" where
  "put_receipt = (\<lambda>(load, seq). put_text load @ put_nat (unat seq))"

definition get_receipt :: "string \<Rightarrow> (string \<times> 64 word) \<times> string" where
  "get_receipt s = (case get_text s of (load, r) \<Rightarrow> case get_nat r of (n, r') \<Rightarrow> ((load, word_of_nat n), r'))"

definition put_log :: "commit_log \<Rightarrow> string" where
  "put_log l = put_nat (cl_format_version l) @ put_list put_receipt (cl_receipts l)"

definition get_log :: "string \<Rightarrow> commit_log" where
  "get_log s = (case get_nat s of (v, r) \<Rightarrow> \<lparr>cl_format_version = v, cl_receipts = fst (get_list get_receipt (length r) r)\<rparr>)"

definition put_manifest :: "manifest \<Rightarrow> string" where
  "put_manifest m = put_nat (mf_format_version m) @ put_text (mf_load m) @ put_nat (unat (mf_seq m)) @ put_list put_text (mf_names m)"

definition get_manifest :: "string \<Rightarrow> manifest" where
  "get_manifest s = (case get_nat s of (v, r) \<Rightarrow> case get_text r of (load, r) \<Rightarrow> case get_nat r of (n, r) \<Rightarrow>
     \<lparr>mf_format_version = v, mf_load = load, mf_seq = word_of_nat n, mf_names = fst (get_list get_text (length r) r)\<rparr>)"

definition unit_json :: doc_json where
  "unit_json = \<lparr>log_parse = (\<lambda>s. Inr (get_log s)), log_text = (\<lambda>l. Inr (put_log l)),
     manifest_parse = (\<lambda>s. Inr (get_manifest s)), manifest_text = (\<lambda>m. Inr (put_manifest m))\<rparr>"

lemma get_put_nat: "get_nat (put_nat n @ r) = (n, r)"
  by (induction n) (auto simp: put_nat_def)

lemma get_put_text: "get_text (put_text s @ r) = (s, r)"
proof (induction s)
  case Nil
  show ?case by (cases r) (simp_all add: put_text_def)
qed (simp add: put_text_def)

lemma get_put_list:
  assumes "\<And>x r. g (f x @ r) = (x, r)" and "length xs < n"
  shows "get_list g n (put_list f xs @ r) = (xs, r)"
  using assms(2)
proof (induction xs arbitrary: n)
  case Nil
  then show ?case by (cases n) (simp_all add: put_list_def)
next
  case (Cons x xs)
  then obtain k where k: "n = Suc k" "length xs < k" by (cases n) auto
  have "get_list g n (put_list f (x # xs) @ r) = (case g (f x @ put_list f xs @ r) of (x, q) \<Rightarrow> case get_list g k q of (xs, r') \<Rightarrow> (x # xs, r'))"
    by (simp add: k(1) put_list_def)
  also have "\<dots> = (x # xs, r)" using Cons.IH [OF k(2)] by (simp add: assms(1))
  finally show ?case .
qed

lemma length_put_list: "length xs < length (put_list f xs)"
  by (induction xs) (auto simp: put_list_def)

lemma get_put_receipt: "get_receipt (put_receipt k @ r) = (k, r)"
  by (cases k) (simp add: put_receipt_def get_receipt_def get_put_text get_put_nat)

lemma get_put_log: "get_log (put_log l) = l"
proof -
  have "get_list get_receipt (length (put_list put_receipt rs)) (put_list put_receipt rs) = (rs, [])" for rs
    using get_put_list [where g = get_receipt and f = put_receipt and xs = rs and r = "[]", OF get_put_receipt length_put_list] by simp
  then show ?thesis by (simp add: get_log_def put_log_def get_put_nat)
qed

lemma get_put_manifest: "get_manifest (put_manifest m) = m"
proof -
  have "get_list get_text (length (put_list put_text ns)) (put_list put_text ns) = (ns, [])" for ns
    using get_put_list [where g = get_text and f = put_text and xs = ns and r = "[]", OF get_put_text length_put_list] by simp
  then show ?thesis by (simp add: get_manifest_def put_manifest_def get_put_nat get_put_text)
qed

lemma unit_json_simps:
  "log_text unit_json l = Inr (put_log l)" "log_parse unit_json (put_log l) = Inr l"
  "manifest_text unit_json m = Inr (put_manifest m)" "manifest_parse unit_json (put_manifest m) = Inr m"
  by (simp_all add: unit_json_def get_put_log get_put_manifest)

lemma unit_json_ok: "doc_json_ok unit_json"
  by (simp add: doc_json_ok_def unit_json_simps)

section \<open>Rows and files\<close>

definition line_of :: "nat \<Rightarrow> string" where
  "line_of n = replicate n (CHR ''u'') @ [CHR 0x0A]"

fun lines_from :: "nat \<Rightarrow> string \<Rightarrow> nat list" where
  "lines_from n [] = []"
| "lines_from n (c # s) = (if c = CHR 0x0A then n # lines_from 0 s else lines_from (Suc n) s)"

definition demo_parts :: "(nat list, unit, nat) part_lib" where
  "demo_parts =
     \<lparr>column_names = (\<lambda>_. [''n'']), debug_names = (\<lambda>_. ''n''), formatter_new = (\<lambda>_ _. Inr ()),
      cell_text = (\<lambda>_ _ n. Inr (Some (show_nat n))), writer_new = (\<lambda>_. Inr []), writer_write = (\<lambda>w rows. Inr (w @ rows)),
      writer_len = length, writer_into = (\<lambda>w. Inr (concat (map line_of w))), json_lines = (\<lambda>_ rows. Inr (concat (map line_of rows)))\<rparr>"

lemma lines_from_line: "lines_from k (line_of n @ s) = (k + n) # lines_from 0 s"
  by (induction n arbitrary: k) (auto simp: line_of_def)

lemma lines_from_text: "lines_from 0 (concat (map line_of rows) @ s) = rows @ lines_from 0 s"
  by (induction rows) (simp_all add: lines_from_line)

lemma lines_from_append: "buffer \<noteq> [] \<Longrightarrow> last buffer = CHR 0x0A \<Longrightarrow> lines_from k (buffer @ s) = lines_from k buffer @ lines_from 0 s"
proof (induction buffer arbitrary: k)
  case (Cons c buffer)
  then show ?case by (cases "buffer = []") simp_all
qed simp

lemma whole_text: "whole_lines (concat (map line_of rows))"
  by (induction rows) (auto simp: whole_lines_def line_of_def)

lemma whole_append: "whole_lines b \<Longrightarrow> whole_lines c \<Longrightarrow> whole_lines (b @ c)"
  by (cases "c = []") (auto simp: whole_lines_def)

lemma demo_parts_ok: "part_ok demo_parts (\<lambda>_. lines_from 0) (\<lambda>_ n. n) id"
  unfolding part_ok_def
proof (intro conjI allI impI)
  fix s rows body buffer
  assume "json_lines demo_parts s rows = Inr body" and whole: "whole_lines buffer"
  then have body: "body = concat (map line_of rows)" by (simp add: demo_parts_def)
  show "whole_lines (buffer @ body)" unfolding body by (rule whole_append [OF whole whole_text])
  have "lines_from 0 (buffer @ body) = lines_from 0 buffer @ lines_from 0 body"
    using lines_from_append [of buffer 0 body] whole by (cases "buffer = []") (simp_all add: whole_lines_def)
  then show "lines_from 0 (buffer @ body) = lines_from 0 buffer @ map (\<lambda>n. n) rows"
    using lines_from_text [of rows "[]"] body by simp
qed (use lines_from_text [of _ "[]"] in \<open>auto simp: demo_parts_def\<close>)

section \<open>Listing\<close>

definition names_under :: "string docs \<Rightarrow> string \<Rightarrow> string set" where
  "names_under m dir = {n. m n \<noteq> None \<and> (\<exists>r. n = dir @ ''/'' @ r)}"

definition under_dir :: "string \<Rightarrow> string \<Rightarrow> bool" where
  "under_dir dir n \<longleftrightarrow> strip_prefix (dir @ ''/'') n \<noteq> None"

definition demo_fs :: fs_lib where
  "demo_fs = \<lparr>list_under = (\<lambda>m dir. sorted_list_of_set (names_under m dir)), missing_text = (\<lambda>n. n @ '' does not exist'')\<rparr>"

lemma demo_fs_ok: "fs_lib_ok demo_fs"
proof -
  have "set (list_under demo_fs m dir) \<subseteq> names_under m dir" for m dir
    by (cases "finite (names_under m dir)") (simp_all add: demo_fs_def)
  moreover have "names_under m dir \<subseteq> set (list_under demo_fs m dir)" if "finite (dom m)" for m dir
  proof -
    have "finite (names_under m dir)" using that by (rule rev_finite_subset) (auto simp: names_under_def)
    then show ?thesis by (simp add: demo_fs_def)
  qed
  ultimately show ?thesis unfolding fs_lib_ok_def names_under_def Let_def by blast
qed

lemma under_dir_iff: "under_dir dir n \<longleftrightarrow> (\<exists>r. n = dir @ ''/'' @ r)"
proof -
  have "under_dir dir n \<longleftrightarrow> (\<exists>r. strip_prefix (dir @ ''/'') n = Some r)" by (auto simp: under_dir_def)
  then show ?thesis by (simp add: strip_prefix_Some)
qed

lemma names_under_simps:
  "names_under Map.empty dir = {}"
  "names_under (m(x \<mapsto> y)) dir = (if under_dir dir x then insert x (names_under m dir) else names_under m dir)"
  "names_under (m(x := None)) dir = names_under m dir - {x}"
  unfolding under_dir_iff by (auto simp: names_under_def)

section \<open>Two attempts\<close>

definition demo_tick :: "io_fault \<Rightarrow> tick" where
  "demo_tick f = \<lparr>tk_fault = f, tk_clock = 0, tk_wall_ms = 1, tk_evidence = \<lparr>lost = False, last_ok_ms = 1\<rparr>\<rparr>"

definition demo_lease :: "string lease_wiring" where
  "demo_lease = \<lparr>lw_arm = S3Arm, lw_doc = ''lease'', lw_pipeline = ''p'', lw_owner = ''o'',
     lw_json = \<lparr>parse_json = (\<lambda>_. Inl []), to_json = (\<lambda>_. Inl [])\<rparr>\<rparr>"

definition demo_target :: file_target where
  "demo_target = \<lparr>ft_arm = S3Arm, ft_format = Jsonl, ft_partition_by = None, ft_scope = ''p''\<rparr>"

definition demo_unit :: commit_meta where
  "demo_unit = \<lparr>meta_load = ''x'', meta_seq = 0, meta_pipeline = ''p'', meta_doc = Inr ''s''\<rparr>"

definition demo_tables :: "(table_schema \<times> write_mode) list" where
  "demo_tables = [(\<lparr>sch_table = ''t'', sch_parent = None, sch_columns = []\<rparr>, Replace)]"

text \<open>An older load's part, which Replace clears.\<close>

definition demo_old :: string where "demo_old = ''t/part-w-0-0.jsonl''"

definition demo_before :: "string docs" where "demo_before = [demo_old \<mapsto> [CHR 0x0A]]"

definition demo_batches :: "(string \<times> (unit, nat) fbatch) list" where
  "demo_batches = [(''t'', \<lparr>fb_schema = (), fb_rows = [1, 0]\<rparr>), (''t'', \<lparr>fb_schema = (), fb_rows = [1]\<rparr>)]"

text \<open>The first attempt loses the storage at its call \<open>n\<close>.\<close>

definition demo_first :: "nat \<Rightarrow> (unit, nat) attempt_input" where
  "demo_first n = \<lparr>ai_env = (\<lambda>i. demo_tick (if i = n then LostRequest (TransientFailure ''gone'') else NoFault)),
     ai_parts = per_write, ai_lease = demo_lease, ai_batches = demo_batches\<rparr>"

definition demo_second :: "(unit, nat) attempt_input" where
  "demo_second = \<lparr>ai_env = (\<lambda>i. demo_tick NoFault), ai_parts = unbounded, ai_lease = demo_lease, ai_batches = demo_batches\<rparr>"

lemmas run_defs = file_attempt_def file_open_def prepare_staging_def list_files_def io_def faulty_def remove_if_present_def
  abind_def file_session_def file_ensure_table_def on_load_def set_load_def on_fs_def touch_def amap_err_def
  file_write_def check_lease_still_held_def tick_of_def check_still_held_def split_partitions_def write_group_def
  close_part_def part_begin_def part_append_def part_finish_def encoded_len_def should_roll_def rolls_on_time_def over_budget_def
  schema_differs_def stage_put_def put_file_def get_file_def Let_def is_staged_for_def
  file_deliver_def file_existing_receipt_def read_log_def file_replay_def file_publish_def publish_parts_def
  close_all_parts_def truncate_replaced_def truncate_table_def keys_of_table_def delete_table_file_def publish_staged_def publish_part_def copy_file_def
  sync_dir_def write_doc_def stale_names_def open_bytes_def SELF_EXPIRY_SECS_def log_decode_def manifest_decode_def
  demo_tick_def demo_lease_def demo_target_def demo_unit_def demo_tables_def demo_batches_def

text \<open>An action is unfolded once it is applied, its arguments not before.\<close>

lemma abind_late: "s = s' \<Longrightarrow> abind m k s = abind m k s'" by simp
lemma on_load_late: "s = s' \<Longrightarrow> on_load f s = on_load f s'" by simp
lemma on_fs_late: "s = s' \<Longrightarrow> on_fs m s = on_fs m s'" by simp
lemma aeach_late: "xs = ys \<Longrightarrow> s = s' \<Longrightarrow> aeach f xs s = aeach f ys s'" by simp
lemma amap_err_late: "s = s' \<Longrightarrow> amap_err g m s = amap_err g m s'" by simp

lemmas late = abind_late on_load_late on_fs_late aeach_late amap_err_late

lemmas names = staging_tail_def staged_name_def STAGING_DIR_def final_of_def final_tail_def part_name_def extension_def commits_file_def
  manifest_file_def state_file_def LAYOUT_FORMAT_VERSION_def staging_root_def

lemma digits: "show_nat 0 = ''0''" "show_nat (Suc 0) = ''1''" by code_simp+

lemma frozen: "frozen_plain_parquet l = (fl_arm l = LocalArm \<and> fl_format l = Parquet \<and> fl_partition_by l = None)"
  by (simp add: frozen_plain_parquet_def)

lemma ours:
  "truncated_tail False ''part-w-0-0.jsonl''" "truncated_tail False ''part-x-0-0.jsonl''" "truncated_tail False ''part-x-0-1.jsonl''"
  by code_simp+

lemmas demo_defs = names_under_simps names demo_old_def line_of_def digits frozen under_dir_def strip_prefix_def empty_log_def ours
  tail_under_root_def map_filter_simps version_gate_def btree_set_def unit_json_simps failure_of_def

definition demo_left :: "string docs" where
  "demo_left = [''_rdlt_manifest.p.json'' \<mapsto> put_manifest \<lparr>mf_format_version = 2, mf_load = ''x'', mf_seq = 0,
      mf_names = [''t/part-x-0-0.jsonl'', ''t/part-x-0-1.jsonl'']\<rparr>,
    ''t/part-x-0-0.jsonl'' \<mapsto> line_of 1 @ line_of 0, ''t/part-x-0-1.jsonl'' \<mapsto> line_of 1]"

definition demo_after :: "string docs" where
  "demo_after = [''_rdlt_manifest.p.json'' \<mapsto> put_manifest \<lparr>mf_format_version = 2, mf_load = ''x'', mf_seq = 0, mf_names = [''t/part-x-0-0.jsonl'']\<rparr>,
    ''t/part-x-0-0.jsonl'' \<mapsto> line_of 1 @ line_of 0 @ line_of 1, ''_rdlt_state.p.json'' \<mapsto> ''s'',
    ''_rdlt_commits.p.json'' \<mapsto> put_log \<lparr>cl_format_version = 2, cl_receipts = [(''x'', 0)]\<rparr>]"

lemma first_attempt:
  "file_attempt demo_fs demo_parts unit_json demo_target demo_tables demo_unit (demo_first 20) demo_before
    = (Inl (TransientFailure ''gone''), demo_left)"
  by (simp add: run_defs demo_first_def demo_before_def demo_fs_def demo_parts_def per_write_def demo_defs demo_left_def cong: late)

lemma second_attempt:
  "file_attempt demo_fs demo_parts unit_json demo_target demo_tables demo_unit demo_second demo_left = (Inr (''x'', 0), demo_after)"
  by (simp add: run_defs demo_second_def demo_fs_def demo_parts_def unbounded_def demo_defs demo_left_def demo_after_def cong: late)

lemma demo_not_unit: "demo_old \<notin> unit_names (unit_load demo_target demo_tables demo_unit) demo_unit"
proof
  assume "demo_old \<in> unit_names (unit_load demo_target demo_tables demo_unit) demo_unit"
  then obtain t i where t: "table_ok t" and eq: "demo_old = final_tail t None ''x'' 0 i ''jsonl''"
    by (auto simp: unit_names_def unit_files_def dir_ok_def unit_load_def demo_target_def demo_unit_def extension_def)
  then have split: "''t'' @ CHR ''/'' # ''part-w-0-0.jsonl'' = t @ CHR ''/'' # part_name ''x'' 0 i ''jsonl''"
    by (simp add: demo_old_def final_tail_def)
  have "CHR ''/'' \<notin> set t" using t by (simp add: table_ok_def)
  from append_split_first [OF split _ this] show False by (simp add: part_name_def)
qed

lemma demo_fresh: "unit_fresh unit_json (unit_load demo_target demo_tables demo_unit :: (nat list, unit) file_load) demo_unit [] demo_before"
proof -
  let ?l = "unit_load demo_target demo_tables demo_unit :: (nat list, unit) file_load"
  have "unit_wf ?l demo_unit"
    by (simp add: unit_wf_def unit_load_def demo_target_def demo_unit_def demo_tables_def table_ok_def STAGING_DIR_def)
  moreover have "log_decode unit_json (demo_before (commits_file (fl_scope ?l))) (commits_file (fl_scope ?l)) = Inr empty_log"
    by (simp add: demo_before_def demo_old_def commits_file_def log_decode_def)
  moreover have "demo_before n = None" if "n \<in> unit_names ?l demo_unit" for n
    using that demo_not_unit by (auto simp: demo_before_def)
  ultimately show ?thesis unfolding unit_fresh_def by (auto simp: empty_log_def)
qed

theorem file_unit_lands_once_witness:
  "\<exists>rs m. file_attempts demo_fs demo_parts unit_json demo_target demo_tables demo_unit [demo_first 20, demo_second] demo_before = (rs, m)
     \<and> rs = [Inl (TransientFailure ''gone''), Inr (''x'', 0)]
     \<and> landed unit_json (\<lambda>_. lines_from 0) (unit_load demo_target demo_tables demo_unit :: (nat list, unit) file_load) demo_unit []
         demo_before (batch_rows (\<lambda>_ n. n) Jsonl demo_batches) m"
proof -
  have run: "file_attempts demo_fs demo_parts unit_json demo_target demo_tables demo_unit [demo_first 20, demo_second] demo_before
      = ([Inl (TransientFailure ''gone''), Inr (''x'', 0)], demo_after)"
    by (simp add: first_attempt second_attempt)
  have rows: "\<forall>a \<in> set [demo_first 20, demo_second]. (\<forall>t \<in> fst ` set (ai_batches a). table_ok t)
      \<and> batch_rows (\<lambda>_ n. n) (ft_format demo_target) (ai_batches a) = batch_rows (\<lambda>_ n. n) Jsonl demo_batches"
    by (simp add: demo_first_def demo_second_def demo_target_def demo_batches_def table_ok_def STAGING_DIR_def)
  have new: "\<not> manifest_for unit_json (ft_scope demo_target) demo_unit demo_before names" for names
    by (simp add: manifest_for_def manifest_decode_def demo_before_def demo_old_def demo_target_def manifest_file_def)
  have "finite (dom demo_before)" by (simp add: demo_before_def)
  from file_unit_lands_once [OF demo_fs_ok demo_parts_ok unit_json_ok this demo_fresh new rows run, of "(''x'', 0)"] run
  show ?thesis by simp
qed

section \<open>A ceiling of one byte\<close>

definition demo_tight :: "(nat list, unit) file_load \<times> fs" where
  "demo_tight = ((unit_load demo_target demo_tables demo_unit)\<lparr>fl_parts := \<lparr>target_bytes = None, roll_after_seconds = None, max_open_bytes = Some 1\<rparr>,
     fl_lease := Some demo_lease\<rparr>, \<lparr>fs_files = Map.empty, fs_env = (\<lambda>_. demo_tick NoFault), fs_at = 0\<rparr>)"

theorem file_write_ceiling_witness:
  "\<exists>s'. file_write demo_parts ''t'' \<lparr>fb_schema = (), fb_rows = [1, 0]\<rparr> demo_tight = (Inr (), s')
     \<and> fs_files (snd s') ''.rdlt-staging/p/x/t/all-0.jsonl'' = Some (line_of 1 @ line_of 0)
     \<and> \<not> over_budget (fl_parts (fst s')) (open_bytes demo_parts (fst s'))"
proof -
  have "\<exists>s'. file_write demo_parts ''t'' \<lparr>fb_schema = (), fb_rows = [1, 0]\<rparr> demo_tight = (Inr (), s')
     \<and> fs_files (snd s') ''.rdlt-staging/p/x/t/all-0.jsonl'' = Some (line_of 1 @ line_of 0)"
    by (simp add: run_defs demo_tight_def unit_load_def demo_parts_def demo_defs cong: late)
  with file_write_ceiling [of demo_parts "''t''" "\<lparr>fb_schema = (), fb_rows = [1, 0]\<rparr>" demo_tight] show ?thesis by blast
qed

end
