(* ===== verification/Json.thy ===== *)
theory Json
  imports Prelude "HOL-Library.Word"
begin

text \<open>
  \<^verbatim>\<open>serde_json::Value\<close>, with the accessors the sources use. Objects keep insertion order
  (the workspace enables \<^verbatim>\<open>preserve_order\<close>). A float is its printed text, which determines
  it.
\<close>

datatype number = PosInt "64 word" | NegInt int | FloatNum string

datatype json =
    VNull
  | VBool bool
  | VNumber number
  | VString string
  | VArray "json list"
  | VObject "(string \<times> json) list"

definition show_int :: "int \<Rightarrow> string" where
  "show_int i = (if i < 0 then CHR ''-'' # show_nat (nat (- i)) else show_nat (nat i))"

definition number_text :: "number \<Rightarrow> string" where
  "number_text n = (case n of PosInt w \<Rightarrow> show_nat (unat w) | NegInt i \<Rightarrow> show_int i | FloatNum s \<Rightarrow> s)"

definition as_u64 :: "json \<Rightarrow> 64 word option" where
  "as_u64 v = (case v of VNumber (PosInt w) \<Rightarrow> Some w | _ \<Rightarrow> None)"

definition as_str :: "json \<Rightarrow> string option" where
  "as_str v = (case v of VString s \<Rightarrow> Some s | _ \<Rightarrow> None)"

text \<open>\<open>Value::get\<close> by name and by position.\<close>

definition get_field :: "string \<Rightarrow> json \<Rightarrow> json option" where
  "get_field k v = (case v of VObject m \<Rightarrow> map_of m k | _ \<Rightarrow> None)"

definition get_index :: "nat \<Rightarrow> json \<Rightarrow> json option" where
  "get_index n v = (case v of VArray xs \<Rightarrow> if n < length xs then Some (xs ! n) else None | _ \<Rightarrow> None)"

text \<open>\<open>Map::insert\<close>: in place when the key is there, at the end otherwise.\<close>

fun obj_insert :: "string \<Rightarrow> 'v \<Rightarrow> (string \<times> 'v) list \<Rightarrow> (string \<times> 'v) list" where
  "obj_insert k v [] = [(k, v)]"
| "obj_insert k v ((k', v') # m) = (if k' = k then (k, v) # m else (k', v') # obj_insert k v m)"

lemma obj_insert_lookup [simp]: "map_of (obj_insert k v m) = (map_of m)(k \<mapsto> v)"
  by (induction k v m rule: obj_insert.induct) (auto simp: fun_eq_iff)

lemma obj_insert_keys: "map fst (obj_insert k v m) = (if k \<in> fst ` set m then map fst m else map fst m @ [k])"
  by (induction k v m rule: obj_insert.induct) auto

lemma obj_insert_distinct: "distinct (map fst m) \<Longrightarrow> distinct (map fst (obj_insert k v m))"
  by (auto simp: obj_insert_keys)

text \<open>What the sources use of \<open>serde_json\<close>: reading a document and writing an array.\<close>

record serde =
  from_slice :: "string \<Rightarrow> (string, json) result"
  to_vec :: "json list \<Rightarrow> (string, string) result"

end
