(* ===== verification/Rest_Select.thy ===== *)
theory Rest_Select
  imports Json
begin

text \<open>
  \<^verbatim>\<open>crates/rdlt-connector-rest/src/source/select.rs\<close>: the selector language (dot paths,
  \<^verbatim>\<open>[*]\<close>, \<^verbatim>\<open>[N]\<close>), its parser and its evaluation on a document.
\<close>

datatype segment = Field string | Index nat | Wildcard

record selector =
  segments :: "segment list"
  raw :: string

definition usize_max :: nat where "usize_max = 2 ^ 64 - 1"

definition supported :: string where "supported = '' (supported: dot paths, [*], [N])''"

text \<open>The \<open>while !rest.is_empty()\<close> loop over a part's brackets.\<close>

function parse_brackets :: "string \<Rightarrow> string \<Rightarrow> (string, segment list) result" where
  "parse_brackets text rest =
     (if rest = [] then Inr []
      else case split_once (CHR '']'') rest of
        None \<Rightarrow> Inl (''selector `'' @ text @ ''`: unclosed `[`'' @ supported)
      | Some (upto_close, after) \<Rightarrow>
          (let inner = drop 1 upto_close in
           rbind (if inner = ''*'' then Inr Wildcard
                  else (case parse_unsigned usize_max inner of
                          Some n \<Rightarrow> Inr (Index n)
                        | None \<Rightarrow> Inl (''selector `'' @ text @ ''`: `['' @ inner @ '']` is neither `[*]` nor an index'' @ supported)))
             (\<lambda>seg. if after \<noteq> [] \<and> \<not> starts_with ''['' after
                then Inl (''selector `'' @ text @ ''`: unexpected `'' @ after @ ''` after `]`'')
                else rbind (parse_brackets text after) (\<lambda>segs. Inr (seg # segs)))))"
  by pat_completeness auto
termination
  by (relation "measure (\<lambda>(text, rest). length rest)") (auto dest: split_once_shorter)

declare parse_brackets.simps [simp del]

definition parse_part :: "string \<Rightarrow> string \<Rightarrow> (string, segment list) result" where
  "parse_part text part =
     (if part = [] then Inl (''selector `'' @ text @ ''`: empty segment'' @ supported)
      else let field = takeWhile (\<lambda>c. c \<noteq> CHR ''['') part; brackets = dropWhile (\<lambda>c. c \<noteq> CHR ''['') part in
        rbind (parse_brackets text brackets) (\<lambda>segs. Inr ((if field = [] then [] else [Field field]) @ segs)))"

definition parse_selector :: "string \<Rightarrow> (string, selector) result" where
  "parse_selector text =
     (if text = [] then Inl ''empty selector''
      else rbind (traverse (parse_part text) (split_on (CHR ''.'') text))
        (\<lambda>parts. Inr \<lparr>segments = concat parts, raw = text\<rparr>))"

definition segment_matches :: "segment \<Rightarrow> json \<Rightarrow> json list" where
  "segment_matches seg node =
     (case seg of
        Field name \<Rightarrow> (case get_field name node of Some v \<Rightarrow> [v] | None \<Rightarrow> [])
      | Index n \<Rightarrow> (case get_index n node of Some v \<Rightarrow> [v] | None \<Rightarrow> [])
      | Wildcard \<Rightarrow> (case node of VArray items \<Rightarrow> items | _ \<Rightarrow> []))"

fun select_from :: "segment list \<Rightarrow> json list \<Rightarrow> bool \<Rightarrow> json list \<times> bool" where
  "select_from [] nodes saw_empty = (nodes, saw_empty)"
| "select_from (seg # segs) nodes saw_empty =
     select_from segs (concat (map (segment_matches seg) nodes))
       (saw_empty \<or> seg = Wildcard \<and> VArray [] \<in> set nodes)"

definition select_tracking :: "selector \<Rightarrow> json \<Rightarrow> json list \<times> bool" where
  "select_tracking sel root = select_from (segments sel) [root] False"

definition select :: "selector \<Rightarrow> json \<Rightarrow> json list" where
  "select sel root = fst (select_tracking sel root)"

definition select_one :: "selector \<Rightarrow> json \<Rightarrow> json option" where
  "select_one sel root = (case select sel root of [] \<Rightarrow> None | v # _ \<Rightarrow> Some v)"

definition value_kind :: "json \<Rightarrow> string" where
  "value_kind v =
     (case v of VNull \<Rightarrow> ''null'' | VBool _ \<Rightarrow> ''a bool'' | VNumber _ \<Rightarrow> ''a number''
      | VString _ \<Rightarrow> ''a string'' | VArray _ \<Rightarrow> ''an array'' | VObject _ \<Rightarrow> ''an object'')"

section \<open>Evaluation\<close>

text \<open>The nodes a path reaches from one node, as a relation.\<close>

inductive reaches :: "segment list \<Rightarrow> json \<Rightarrow> json \<Rightarrow> bool" where
  here: "reaches [] v v"
| there: "w \<in> set (segment_matches seg v) \<Longrightarrow> reaches segs w u \<Longrightarrow> reaches (seg # segs) v u"

inductive_simps reaches_Nil [simp]: "reaches [] v u"
inductive_simps reaches_Cons: "reaches (seg # segs) v u"

lemma select_from_set: "set (fst (select_from segs nodes e)) = {u. \<exists>v \<in> set nodes. reaches segs v u}"
  by (induction segs nodes e rule: select_from.induct) (auto simp: reaches_Cons)

lemma select_from_saw: "snd (select_from segs nodes e) \<longleftrightarrow>
    e \<or> (\<exists>upto_close after v. segs = upto_close @ Wildcard # after \<and> v \<in> set nodes \<and> reaches upto_close v (VArray []))"
proof (induction segs nodes e rule: select_from.induct)
  case (2 seg segs nodes e)
  let ?P = "\<lambda>segs nodes. \<exists>upto_close after v. segs = upto_close @ Wildcard # after \<and> v \<in> set nodes \<and> reaches upto_close v (VArray [])"
  have "?P (seg # segs) nodes \<longleftrightarrow>
      seg = Wildcard \<and> VArray [] \<in> set nodes \<or> ?P segs (concat (map (segment_matches seg) nodes))"
    (is "_ = ?rhs")
  proof
    assume "?P (seg # segs) nodes"
    then obtain upto_close after v where *: "seg # segs = upto_close @ Wildcard # after" "v \<in> set nodes"
      "reaches upto_close v (VArray [])" by blast
    then show ?rhs
      by (cases upto_close) (auto simp: reaches_Cons)
  next
    assume ?rhs
    then show "?P (seg # segs) nodes"
    proof
      assume "seg = Wildcard \<and> VArray [] \<in> set nodes"
      then have "seg # segs = [] @ Wildcard # segs \<and> VArray [] \<in> set nodes \<and> reaches [] (VArray []) (VArray [])"
        by simp
      then show ?thesis by blast
    next
      assume "?P segs (concat (map (segment_matches seg) nodes))"
      then obtain upto_close after w v where "segs = upto_close @ Wildcard # after" "v \<in> set nodes"
        "w \<in> set (segment_matches seg v)" "reaches upto_close w (VArray [])" by auto
      then have "seg # segs = (seg # upto_close) @ Wildcard # after \<and> v \<in> set nodes \<and> reaches (seg # upto_close) v (VArray [])"
        by (auto intro: reaches.intros)
      then show ?thesis by blast
    qed
  qed
  with 2 show ?case by auto
qed simp

lemma select_iff_reaches: "v \<in> set (select sel root) \<longleftrightarrow> reaches (segments sel) root v"
  by (simp add: select_def select_tracking_def select_from_set)

lemma segment_matches_single: "seg \<noteq> Wildcard \<Longrightarrow> length (segment_matches seg v) \<le> 1"
  by (cases seg) (auto simp: segment_matches_def split: option.splits)

section \<open>The parser reads what a path is written as\<close>

text \<open>A path's text; \<open>start\<close> is whether a field needs no dot upto_close it.\<close>

fun path_text :: "bool \<Rightarrow> segment list \<Rightarrow> string" where
  "path_text start [] = []"
| "path_text start (Field f # segs) = (if start then [] else ''.'') @ f @ path_text False segs"
| "path_text start (Index n # segs) = ''['' @ show_nat n @ '']'' @ path_text False segs"
| "path_text start (Wildcard # segs) = ''[*]'' @ path_text False segs"

definition path_ok :: "segment list \<Rightarrow> bool" where
  "path_ok segs \<longleftrightarrow> segs \<noteq> [] \<and> (\<forall>f. Field f \<in> set segs \<longrightarrow> f \<noteq> [] \<and> CHR ''.'' \<notin> set f \<and> CHR ''['' \<notin> set f) \<and>
     (\<forall>n. Index n \<in> set segs \<longrightarrow> n \<le> usize_max)"

definition bracket :: "segment \<Rightarrow> string" where
  "bracket seg = (case seg of Index n \<Rightarrow> ''['' @ show_nat n @ '']'' | _ \<Rightarrow> ''[*]'')"

lemma bracket_simps:
  "bracket (Index n) = CHR ''['' # show_nat n @ '']''" "bracket Wildcard = ''[*]''"
  by (simp_all add: bracket_def)

definition bracket_ok :: "segment \<Rightarrow> bool" where
  "bracket_ok seg \<longleftrightarrow> (case seg of Field f \<Rightarrow> False | Index n \<Rightarrow> n \<le> usize_max | Wildcard \<Rightarrow> True)"

lemma show_nat_fresh: "\<not> digit c \<Longrightarrow> c \<notin> set (show_nat n)"
  using show_nat_digits by blast

lemma show_nat_not_star: "show_nat n \<noteq> ''*''"
proof
  assume "show_nat n = ''*''"
  then have "CHR ''*'' \<in> set (show_nat n)" by simp
  then show False using show_nat_fresh [of "CHR ''*''" n] by (simp add: digit_def)
qed

lemma parse_brackets_step:
  assumes "bracket_ok seg" and "rest = [] \<or> starts_with ''['' rest"
  shows "parse_brackets text (bracket seg @ rest) = rbind (parse_brackets text rest) (\<lambda>segs. Inr (seg # segs))"
proof (cases seg)
  case (Field f)
  with assms show ?thesis by (simp add: bracket_ok_def)
next
  case (Index n)
  have "CHR '']'' \<notin> set (''['' @ show_nat n)" using show_nat_fresh [of "CHR '']''" n] by (simp add: digit_def)
  from split_once_append [OF this]
  have "split_once (CHR '']'') (bracket seg @ rest) = Some (''['' @ show_nat n, rest)"
    using Index by (simp add: bracket_def)
  moreover have "parse_unsigned usize_max (show_nat n) = Some n"
    using assms Index by (simp add: bracket_ok_def parse_unsigned_show)
  moreover have "bracket seg @ rest \<noteq> []" using Index by (simp add: bracket_def)
  ultimately show ?thesis
    using assms(2) Index show_nat_not_star [of n] by (subst parse_brackets.simps) (auto simp: Let_def)
next
  case Wildcard
  then show ?thesis
    using assms by (subst parse_brackets.simps) (auto simp: bracket_def)
qed

lemma starts_bracket: "starts_with ''['' (bracket seg @ rest)"
  by (cases seg) (auto simp: starts_with_def bracket_def)

lemma parse_brackets_all:
  "list_all bracket_ok bs \<Longrightarrow> parse_brackets text (concat (map bracket bs)) = Inr bs"
proof (induction bs)
  case Nil
  then show ?case by (subst parse_brackets.simps) simp
next
  case (Cons b bs)
  have "concat (map bracket bs) = [] \<or> starts_with ''['' (concat (map bracket bs))"
    by (cases bs) (auto simp: starts_bracket)
  with Cons show ?case by (simp add: parse_brackets_step)
qed

lemma bracket_fresh: "CHR ''.'' \<notin> set (bracket seg)"
  using show_nat_fresh [of "CHR ''.''"] by (cases seg) (auto simp: bracket_def digit_def)

text \<open>A part: a field, or brackets only, and the brackets after it.\<close>

lemma field_brackets: "CHR ''['' \<notin> set f \<Longrightarrow> b = [] \<or> (\<exists>r. b = CHR ''['' # r) \<Longrightarrow>
    takeWhile (\<lambda>c. c \<noteq> CHR ''['') (f @ b) = f \<and> dropWhile (\<lambda>c. c \<noteq> CHR ''['') (f @ b) = b"
  by (induction f) auto

lemma parse_part_text:
  assumes "CHR ''['' \<notin> set f" "f \<noteq> [] \<or> bs \<noteq> []" "list_all bracket_ok bs"
  shows "parse_part text (f @ concat (map bracket bs)) = Inr ((if f = [] then [] else [Field f]) @ bs)"
proof -
  let ?b = "concat (map bracket bs)"
  have "?b = [] \<or> (\<exists>r. ?b = CHR ''['' # r)"
    by (cases bs) (auto simp: bracket_def split: segment.splits)
  moreover have "f @ ?b \<noteq> []"
    using assms(2) by (cases bs) (auto simp: bracket_def split: segment.splits)
  ultimately show ?thesis
    using parse_brackets_all [OF assms(3)] field_brackets [OF assms(1)] by (simp add: parse_part_def Let_def)
qed

lemma parse_parts_text:
  assumes "path_ok segs \<or> segs = []" "CHR ''['' \<notin> set f" "CHR ''.'' \<notin> set f" "f \<noteq> [] \<or> bs \<noteq> []" "list_all bracket_ok bs"
  shows "\<exists>parts. traverse (parse_part text) (split_on (CHR ''.'') (f @ concat (map bracket bs) @ path_text False segs)) = Inr parts \<and>
    concat parts = (if f = [] then [] else [Field f]) @ bs @ segs"
  using assms
proof (induction segs arbitrary: f bs)
  case Nil
  have "CHR ''.'' \<notin> set (f @ concat (map bracket bs))" using Nil bracket_fresh by auto
  with Nil show ?case by (simp add: split_on_fresh parse_part_text)
next
  case (Cons seg segs)
  have ok: "path_ok segs \<or> segs = []" using Cons.prems(1) by (auto simp: path_ok_def)
  show ?case
  proof (cases seg)
    case (Field g)
    with Cons.prems(1) have g: "CHR ''['' \<notin> set g" "CHR ''.'' \<notin> set g" "g \<noteq> []" by (auto simp: path_ok_def)
    obtain parts where parts: "traverse (parse_part text) (split_on (CHR ''.'') (g @ path_text False segs)) = Inr parts"
      "concat parts = Field g # segs"
      using Cons.IH [OF ok g(1,2), of "[]"] g(3) by auto
    have "CHR ''.'' \<notin> set (f @ concat (map bracket bs))" using Cons.prems bracket_fresh by auto
    from split_on_append [OF this, of "g @ path_text False segs"]
    show ?thesis
      using Field parts Cons.prems by (simp add: parse_part_text)
  next
    case (Index n)
    with Cons.prems(1) have "bracket_ok seg" by (simp add: bracket_ok_def path_ok_def)
    with Cons.prems(5) have "list_all bracket_ok (bs @ [seg])" by simp
    from Cons.IH [OF ok Cons.prems(2,3) _ this] show ?thesis
      using Index by (simp add: bracket_simps)
  next
    case Wildcard
    then have "bracket_ok seg" by (simp add: bracket_ok_def)
    with Cons.prems(5) have "list_all bracket_ok (bs @ [seg])" by simp
    from Cons.IH [OF ok Cons.prems(2,3) _ this] show ?thesis
      using Wildcard by (simp add: bracket_simps)
  qed
qed

text \<open>
  C28. Parsing the text of a path gives the path back: any list of segments whose fields are
  non-empty and free of dots and opening brackets.
\<close>

theorem selector_roundtrip:
  assumes "path_ok segs"
  shows "parse_selector (path_text True segs) = Inr \<lparr>segments = segs, raw = path_text True segs\<rparr>"
proof -
  let ?t = "path_text True segs"
  obtain seg rest where segs: "segs = seg # rest" using assms by (cases segs) (auto simp: path_ok_def)
  have rest: "path_ok rest \<or> rest = []" using assms segs by (auto simp: path_ok_def)
  have "?t \<noteq> [] \<and> (\<exists>parts. traverse (parse_part ?t) (split_on (CHR ''.'') ?t) = Inr parts \<and> concat parts = segs)"
  proof (cases seg)
    case (Field f)
    with assms segs have "CHR ''['' \<notin> set f" "CHR ''.'' \<notin> set f" "f \<noteq> []" by (auto simp: path_ok_def)
    from parse_parts_text [OF rest this(1,2), of "[]" ?t] this(3) show ?thesis using segs Field by simp
  next
    case (Index n)
    with assms segs have "list_all bracket_ok [seg]" by (auto simp: bracket_ok_def path_ok_def)
    from parse_parts_text [OF rest _ _ _ this, of "[]" ?t] show ?thesis using segs Index by (simp add: bracket_simps)
  next
    case Wildcard
    with assms segs have "list_all bracket_ok [seg]" by (auto simp: bracket_ok_def)
    from parse_parts_text [OF rest _ _ _ this, of "[]" ?t] show ?thesis using segs Wildcard by (simp add: bracket_simps)
  qed
  then show ?thesis by (auto simp: parse_selector_def)
qed

end
