(* ===== verification/Rest_Config.thy ===== *)
theory Rest_Config
  imports Rest_Select
begin

text \<open>
  The configuration of \<^verbatim>\<open>crates/rdlt-connector-rest/src/source/config\<close>: the vocabulary
  (\<^verbatim>\<open>vocabulary.rs\<close>) and its validation (\<^verbatim>\<open>validate.rs\<close>). Integers that are only compared
  are \<open>nat\<close>. The URL and HTTP libraries are the record \<open>web\<close>.
\<close>

section \<open>vocabulary.rs\<close>

datatype key_location = InHeader | InQuery

datatype auth =
    AuthNone
  | Bearer string
  | HeaderAuth string string
  | Basic string string
  | ApiKey string string key_location
  | OAuth2ClientCredentials (token_url: string) (client_id: string) (client_secret: string)
      (scopes: "string list") (audience: "string option") (expiry_margin_secs: nat)

datatype http_method = Get | Post

datatype pagination =
    PgNone
  | PgPage string "64 word" "string option" "string option"
  | PgOffset string string "64 word" "string option"
  | PgBodyCursor string string
  | PgHeaderCursor string string
  | PgNextUrl string
  | PgLinkHeader

record incremental =
  cursor_field :: string
  start_param :: "string option"
  end_param :: "string option"
  end_value :: "string option"
  initial_value :: "string option"

datatype action_kind = Ignore | EndStream | ErrorAction

record response_action =
  on_status :: "nat option"
  content_contains :: "string option"
  kind :: action_kind

record parent_link =
  p_stream :: string
  placeholders :: "(string \<times> string) list"
  include_fields :: "string list"

record stream =
  s_name :: string
  s_path :: string
  s_method :: http_method
  s_body :: "json option"
  s_params :: "(string \<times> string) list"
  s_headers :: "(string \<times> string) list"
  s_records_path :: "string option"
  s_pagination :: pagination
  s_incremental :: "incremental option"
  s_cursor_field :: "string option"
  s_cursor_param :: "string option"
  s_response_actions :: "response_action list"
  s_parent :: "parent_link option"

record config =
  base_url :: string
  auth_scheme :: auth
  c_headers :: "(string \<times> string) list"
  c_params :: "(string \<times> string) list"
  max_concurrency :: nat
  min_request_interval_ms :: nat
  retry_after_cap_secs :: nat
  request_timeout_secs :: nat
  max_pages :: nat
  c_streams :: "stream list"

definition effective_incremental :: "stream \<Rightarrow> incremental option" where
  "effective_incremental s =
     (case s_incremental s of
        Some i \<Rightarrow> Some i
      | None \<Rightarrow> map_option (\<lambda>field. \<lparr>cursor_field = field, start_param = s_cursor_param s,
          end_param = None, end_value = None, initial_value = None\<rparr>) (s_cursor_field s))"

definition selector_paths :: "pagination \<Rightarrow> (string \<times> string) list" where
  "selector_paths p =
     (case p of
        PgPage _ _ total_pages_path total_count_path \<Rightarrow>
          (case total_pages_path of Some path \<Rightarrow> [(''pagination.total_pages_path'', path)] | None \<Rightarrow> []) @
          (case total_count_path of Some path \<Rightarrow> [(''pagination.total_count_path'', path)] | None \<Rightarrow> [])
      | PgOffset _ _ _ total_count_path \<Rightarrow>
          (case total_count_path of Some path \<Rightarrow> [(''pagination.total_count_path'', path)] | None \<Rightarrow> [])
      | PgBodyCursor cursor_path _ \<Rightarrow> [(''pagination.cursor_path'', cursor_path)]
      | PgNextUrl next_url_path \<Rightarrow> [(''pagination.next_url_path'', next_url_path)]
      | _ \<Rightarrow> [])"

section \<open>validate.rs\<close>

record 'u web =
  url_parse :: "string \<Rightarrow> (string, 'u) result"
  url_scheme :: "'u \<Rightarrow> string"
  host_str :: "'u \<Rightarrow> string option"
  port_or_known_default :: "'u \<Rightarrow> nat option"
  url_text :: "'u \<Rightarrow> string"
  header_name_ok :: "string \<Rightarrow> bool"
  header_value_ok :: "string \<Rightarrow> bool"
  json_text :: "json \<Rightarrow> string"

definition RESERVED :: "string list" where
  "RESERVED = [''authorization'', ''proxy-authorization'', ''cookie'', ''x-api-key'', ''api-key'', ''apikey'',
     ''x-api-token'', ''x-auth-token'', ''x-access-token'', ''x-amz-security-token'', ''x-goog-api-key'',
     ''private-token'', ''x-functions-key'']"

definition credential_header_refusal :: "string \<Rightarrow> string option" where
  "credential_header_refusal name =
     (if to_ascii_lowercase name \<in> set RESERVED
      then Some (''header `'' @ name @ ''` carries a credential '' @ em_dash @ '' put it under `auth:` '' @
        ''(Secret-wrapped and masked), not in a plain `headers:` map that renders verbatim in Debug output'')
      else None)"

definition validate_header :: "'u web \<Rightarrow> string option \<Rightarrow> string \<times> string \<Rightarrow> (string, unit) result" where
  "validate_header lib stream h =
     (case h of (name, val) \<Rightarrow>
      rbind (refuse_if (stream = None \<and> \<not> header_name_ok lib name)
        (''header `'' @ name @ ''`: not a valid HTTP header name'')) (\<lambda>_.
      rbind (refuse_if (stream = None \<and> \<not> header_value_ok lib val)
        (''header `'' @ name @ ''`: value is not a valid HTTP header value'')) (\<lambda>_.
      (case credential_header_refusal name of
         None \<Rightarrow> Inr ()
       | Some message \<Rightarrow> Inl (case stream of Some s \<Rightarrow> ''stream `'' @ s @ ''`: '' @ message | None \<Rightarrow> message)))))"

definition carries_params :: "pagination \<Rightarrow> bool" where
  "carries_params p \<longleftrightarrow>
     (case p of PgPage _ _ _ _ \<Rightarrow> True | PgOffset _ _ _ _ \<Rightarrow> True | PgBodyCursor _ _ \<Rightarrow> True
      | PgHeaderCursor _ _ \<Rightarrow> True | _ \<Rightarrow> False)"

definition validate_post_body_pagination :: "stream \<Rightarrow> (string, unit) result" where
  "validate_post_body_pagination s =
     (case s_body s of
        Some body \<Rightarrow>
          (case body of
             VObject _ \<Rightarrow> Inr ()
           | _ \<Rightarrow> refuse_if (s_method s = Post \<and> carries_params (s_pagination s))
               (''stream `'' @ s_name s @ ''`: a paginated POST needs an object `body` '' @ em_dash @
                '' page parameters are merged into it, and a '' @
                (case body of VArray _ \<Rightarrow> ''list'' | VString _ \<Rightarrow> ''string'' | VNull \<Rightarrow> ''null'' | _ \<Rightarrow> ''scalar'') @
                '' body has nowhere to carry them, so every page would repeat the first request''))
      | None \<Rightarrow> Inr ())"

definition validate_cursor_spellings :: "stream \<Rightarrow> (string, unit) result" where
  "validate_cursor_spellings s =
     (let pre = ''stream `'' @ s_name s @ ''`: '' in
      rbind (refuse_if ((s_cursor_field s \<noteq> None) \<noteq> (s_cursor_param s \<noteq> None))
        (pre @ ''cursor_field and cursor_param must be set together'')) (\<lambda>_.
      rbind (refuse_if (s_incremental s \<noteq> None \<and> s_cursor_field s \<noteq> None)
        (pre @ ''use either the `incremental` block or the legacy cursor_field/cursor_param aliases, not both'')) (\<lambda>_.
      rbind (case s_incremental s of
          None \<Rightarrow> Inr ()
        | Some i \<Rightarrow>
            rbind (refuse_if ((end_param i \<noteq> None) \<noteq> (end_value i \<noteq> None))
              (pre @ ''incremental.end_param and end_value must be set together (closed windows take explicit values)'')) (\<lambda>_.
            refuse_if (is_blank (cursor_field i)) (pre @ ''incremental.cursor_field must not be empty''))) (\<lambda>_.
      refuse_if (s_body s \<noteq> None \<and> s_method s \<noteq> Post) (pre @ ''`body` requires `method: post`'')))))"

definition stream_selectors :: "stream \<Rightarrow> (string \<times> string) list" where
  "stream_selectors s =
     (case s_records_path s of Some p \<Rightarrow> [(''records_path'', p)] | None \<Rightarrow> []) @ selector_paths (s_pagination s)"

definition check_selector :: "string \<Rightarrow> string \<times> string \<Rightarrow> (string, unit) result" where
  "check_selector pre labelled =
     (case parse_selector (snd labelled) of Inl e \<Rightarrow> Inl (pre @ fst labelled @ '': '' @ e) | Inr _ \<Rightarrow> Inr ())"

definition validate_selectors :: "stream \<Rightarrow> (string, unit) result" where
  "validate_selectors s =
     (let pre = ''stream `'' @ s_name s @ ''`: '' in
      rbind (each (check_selector pre) (stream_selectors s)) (\<lambda>_.
      (case s_pagination s of
         PgPage _ _ (Some _) (Some _) \<Rightarrow>
           Inl (pre @ ''pagination declares both total_pages_path and total_count_path '' @ em_dash @ '' pick one stop condition'')
       | _ \<Rightarrow> Inr ())))"

definition en_dash :: string where "en_dash = [CHR 0xE2, CHR 0x80, CHR 0x93]"

definition validate_response_actions :: "stream \<Rightarrow> (string, unit) result" where
  "validate_response_actions s =
     each (\<lambda>(i, a).
       (let pre = ''stream `'' @ s_name s @ ''`: response_actions['' @ show_nat i @ '']'' in
        rbind (refuse_if (on_status a = None \<and> content_contains a = None)
          (pre @ '' needs `status` and/or `content_contains` '' @ em_dash @
           '' an unconditional action would swallow every response'')) (\<lambda>_.
        (case on_status a of
           Some status \<Rightarrow> refuse_if (\<not> (100 \<le> status \<and> status \<le> 599))
             (pre @ '': status '' @ show_nat status @ '' is not an HTTP status (100'' @ en_dash @ ''599)'')
         | None \<Rightarrow> Inr ()))))
       (enumerate 0 (s_response_actions s))"

definition find_stream :: "config \<Rightarrow> string \<Rightarrow> stream option" where
  "find_stream c name = find (\<lambda>s. s_name s = name) (c_streams c)"

definition token_referenced :: "'u web \<Rightarrow> stream \<Rightarrow> string \<Rightarrow> bool" where
  "token_referenced lib s token \<longleftrightarrow>
     (let t = ''{'' @ token @ ''}'' in
      contains t (s_path s) \<or> (\<exists>v \<in> set (map snd (s_params s)). contains t v) \<or>
      (case s_body s of Some b \<Rightarrow> contains t (json_text lib b) | None \<Rightarrow> False))"

definition validate_parent :: "'u web \<Rightarrow> config \<Rightarrow> stream \<Rightarrow> (string, unit) result" where
  "validate_parent lib c s =
     (let pre = ''stream `'' @ s_name s @ ''`: '' in
      case s_parent s of
        None \<Rightarrow> refuse_if (CHR ''{'' \<in> set (s_path s) \<and> CHR ''}'' \<in> set (s_path s))
          (pre @ ''path contains `{placeholder}` tokens but no `parent` block declares them'')
      | Some p \<Rightarrow>
          rbind (refuse_if (p_stream p = s_name s) (pre @ ''parent.stream is itself'')) (\<lambda>_.
          (case find_stream c (p_stream p) of
             None \<Rightarrow> Inl (pre @ ''parent.stream `'' @ p_stream p @ ''` is not a declared stream'')
           | Some decl \<Rightarrow>
               rbind (refuse_if (s_parent decl \<noteq> None)
                 (pre @ ''parent.stream `'' @ p_stream p @ ''` is itself a child '' @ em_dash @ '' one level of nesting is supported'')) (\<lambda>_.
               rbind (refuse_if (placeholders p = []) (pre @ ''parent.placeholders must not be empty'')) (\<lambda>_.
               each (\<lambda>token. refuse_if (\<not> token_referenced lib s token)
                   (pre @ ''placeholder `{'' @ token @ ''}` is declared but never used in path, params, or body''))
                 (map fst (placeholders p)))))))"

definition base_url_ok :: "'u web \<Rightarrow> string \<Rightarrow> bool" where
  "base_url_ok lib text \<longleftrightarrow>
     (case url_parse lib text of
        Inr u \<Rightarrow> (url_scheme lib u = ''http'' \<or> url_scheme lib u = ''https'') \<and> host_str lib u \<noteq> None
      | Inl _ \<Rightarrow> False)"

definition validate_stream :: "'u web \<Rightarrow> config \<Rightarrow> stream \<Rightarrow> (string, unit) result" where
  "validate_stream lib c s =
     rbind (validate_post_body_pagination s) (\<lambda>_.
     rbind (each (validate_header lib (Some (s_name s))) (s_headers s)) (\<lambda>_.
     rbind (validate_cursor_spellings s) (\<lambda>_.
     rbind (validate_selectors s) (\<lambda>_.
     rbind (validate_response_actions s) (\<lambda>_.
     validate_parent lib c s)))))"

definition validate_config :: "'u web \<Rightarrow> config \<Rightarrow> (string, unit) result" where
  "validate_config lib c =
     rbind (refuse_if (c_streams c = []) ''at least one stream is required'') (\<lambda>_.
     rbind (refuse_if (\<not> base_url_ok lib (base_url c))
       ''base_url must be an absolute http(s) URL with a host, e.g. https://api.example.com'') (\<lambda>_.
     rbind (refuse_if (max_concurrency c = 0) ''max_concurrency must be at least 1'') (\<lambda>_.
     rbind (refuse_if (request_timeout_secs c = 0)
       (''request_timeout_secs must be at least 1 '' @ em_dash @ '' a request without a deadline can stall '' @
        ''a stream forever; raise it rather than disabling it'')) (\<lambda>_.
     rbind (each (validate_header lib None) (c_headers c)) (\<lambda>_.
     each (validate_stream lib c) (c_streams c))))))"

section \<open>What an accepted configuration has\<close>

lemma accepted_stream: "validate_config lib c = Inr () \<Longrightarrow> s \<in> set (c_streams c) \<Longrightarrow> validate_stream lib c s = Inr ()"
  by (simp add: validate_config_def rbind_unit_eq_Inr each_eq_Inr)

lemma accepted_parts:
  assumes "validate_config lib c = Inr ()" "s \<in> set (c_streams c)"
  shows "validate_post_body_pagination s = Inr ()" "validate_cursor_spellings s = Inr ()"
    "validate_selectors s = Inr ()" "validate_response_actions s = Inr ()" "validate_parent lib c s = Inr ()"
  using accepted_stream [OF assms] by (simp_all add: validate_stream_def rbind_unit_eq_Inr)

lemma accepted_selector:
  assumes "validate_selectors s = Inr ()" and "(label, p) \<in> set (stream_selectors s)"
  shows "\<exists>sel. parse_selector p = Inr sel"
proof -
  have "\<forall>x \<in> set (stream_selectors s). check_selector (''stream `'' @ s_name s @ ''`: '') x = Inr ()"
    using assms(1) unfolding validate_selectors_def Let_def rbind_unit_eq_Inr each_eq_Inr by blast
  from bspec [OF this assms(2)] show ?thesis by (simp add: check_selector_def split: sum.splits)
qed

lemma accepted_records_path:
  "validate_selectors s = Inr () \<Longrightarrow> s_records_path s = Some p \<Longrightarrow> \<exists>sel. parse_selector p = Inr sel"
  by (erule accepted_selector [where label = "''records_path''"]) (simp add: stream_selectors_def)

lemma accepted_pagination_path:
  "validate_selectors s = Inr () \<Longrightarrow> (label, p) \<in> set (selector_paths (s_pagination s)) \<Longrightarrow> \<exists>sel. parse_selector p = Inr sel"
  by (erule accepted_selector [where label = label]) (simp add: stream_selectors_def)

lemma accepted_parent:
  "validate_parent lib c s = Inr () \<Longrightarrow> s_parent s = Some p \<Longrightarrow>
    \<exists>decl. find_stream c (p_stream p) = Some decl \<and> s_parent decl = None"
  by (auto simp: validate_parent_def Let_def rbind_unit_eq_Inr split: option.splits)

lemma find_stream_in: "find_stream c name = Some s \<Longrightarrow> s \<in> set (c_streams c) \<and> s_name s = name"
  by (auto simp: find_stream_def find_Some_iff)

text \<open>A body-less POST, or one with an object body, has somewhere to carry page parameters.\<close>

lemma accepted_post_body:
  "validate_post_body_pagination s = Inr () \<Longrightarrow> s_method s = Post \<Longrightarrow> carries_params (s_pagination s) \<Longrightarrow>
    s_body s = None \<or> (\<exists>m. s_body s = Some (VObject m))"
  by (auto simp: validate_post_body_pagination_def split: option.splits json.splits)

end
