(* ===== verification/Rest_Paginate.thy ===== *)
theory Rest_Paginate
  imports Rest_Config
begin

text \<open>
  \<^verbatim>\<open>crates/rdlt-connector-rest/src/source/read/paginate.rs\<close>: the seven paginators behind the
  trait \<open>Paginator\<close>, and the scan of an RFC 5988 \<^verbatim>\<open>Link\<close> header. Page and offset counters are
  64-bit words.
\<close>

record page_context =
  ctx_body :: "json option"
  header_text :: "string \<Rightarrow> string option"
  record_count :: nat
  total_records :: nat

datatype decision = Done | NextParams "(string \<times> string) list" | NextUrlAt string

datatype paginate_error = CursorNotScalar string string | NextUrlNotString string

definition paginate_error_text :: "paginate_error \<Rightarrow> string" where
  "paginate_error_text e =
     (case e of
        CursorNotScalar path what \<Rightarrow> ''cursor at `'' @ path @ ''` is '' @ what @ '' '' @ em_dash @ '' expected string or number''
      | NextUrlNotString path \<Rightarrow> ''next url at `'' @ path @ ''` is not a string'')"

datatype paginator =
    SinglePage
  | PageNumber string "64 word" "64 word" "selector option" "selector option"
  | OffsetLimit string string "64 word" "64 word" "selector option"
  | BodyCursor selector string
  | HeaderCursor string string
  | NextUrl selector
  | LinkHeader

definition parse_optional_selector :: "string option \<Rightarrow> (string, selector option) result" where
  "parse_optional_selector path =
     (case path of None \<Rightarrow> Inr None | Some p \<Rightarrow> rbind (parse_selector p) (\<lambda>sel. Inr (Some sel)))"

definition build_paginator :: "pagination \<Rightarrow> (string, paginator) result" where
  "build_paginator p =
     (case p of
        PgNone \<Rightarrow> Inr SinglePage
      | PgPage page_param start total_pages_path total_count_path \<Rightarrow>
          rbind (parse_optional_selector total_pages_path) (\<lambda>total_pages.
          rbind (parse_optional_selector total_count_path) (\<lambda>total_count.
          Inr (PageNumber page_param start start total_pages total_count)))
      | PgOffset offset_param limit_param page_size total_count_path \<Rightarrow>
          rbind (parse_optional_selector total_count_path) (\<lambda>total_count.
          Inr (OffsetLimit offset_param limit_param page_size 0 total_count))
      | PgBodyCursor cursor_path cursor_param \<Rightarrow>
          rbind (parse_selector cursor_path) (\<lambda>path. Inr (BodyCursor path cursor_param))
      | PgHeaderCursor header cursor_param \<Rightarrow> Inr (HeaderCursor header cursor_param)
      | PgNextUrl next_url_path \<Rightarrow> rbind (parse_selector next_url_path) (\<lambda>path. Inr (NextUrl path))
      | PgLinkHeader \<Rightarrow> Inr LinkHeader)"

definition select_total :: "selector option \<Rightarrow> json option \<Rightarrow> 64 word option" where
  "select_total sel body =
     (case (sel, body) of
        (Some sel, Some body) \<Rightarrow> Option.bind (select_one sel body) as_u64
      | _ \<Rightarrow> None)"

definition total_count_reached :: "selector option \<Rightarrow> page_context \<Rightarrow> bool" where
  "total_count_reached sel ctx \<longleftrightarrow>
     (case select_total sel (ctx_body ctx) of Some tot \<Rightarrow> total_records ctx \<ge> unat tot | None \<Rightarrow> False)"

definition u64_text :: "64 word \<Rightarrow> string" where
  "u64_text w = show_nat (unat w)"

definition offset_params :: "string \<Rightarrow> string \<Rightarrow> 64 word \<Rightarrow> 64 word \<Rightarrow> (string \<times> string) list" where
  "offset_params offset_param limit_param page_size offset =
     [(offset_param, u64_text offset), (limit_param, u64_text page_size)]"

definition initial_params :: "paginator \<Rightarrow> (string \<times> string) list" where
  "initial_params pg =
     (case pg of
        PageNumber param next _ _ _ \<Rightarrow> [(param, u64_text next)]
      | OffsetLimit offset_param limit_param page_size offset _ \<Rightarrow> offset_params offset_param limit_param page_size offset
      | _ \<Rightarrow> [])"

definition needs_body :: "paginator \<Rightarrow> bool" where
  "needs_body pg \<longleftrightarrow>
     (case pg of
        PageNumber _ _ _ total_pages total_count \<Rightarrow> total_pages \<noteq> None \<or> total_count \<noteq> None
      | OffsetLimit _ _ _ _ total_count \<Rightarrow> total_count \<noteq> None
      | BodyCursor _ _ \<Rightarrow> True
      | NextUrl _ \<Rightarrow> True
      | _ \<Rightarrow> False)"

text \<open>\<open>parse_link_next\<close>: members are found by their bracket pair, their parameters end at the next comma.\<close>

definition is_next_rel :: "string \<Rightarrow> bool" where
  "is_next_rel params \<longleftrightarrow>
     list_ex (\<lambda>param. eq_ignore_ascii_case (trim param) ''rel=next'' \<or>
       eq_ignore_ascii_case (trim param) (''rel='' @ [dquote] @ ''next'' @ [dquote])) (split_on (CHR '';'') params)"

function parse_link_next :: "string \<Rightarrow> string option" where
  "parse_link_next rest =
     (case split_once (CHR ''<'') rest of
        None \<Rightarrow> None
      | Some (_, tail) \<Rightarrow>
          (case split_once (CHR ''>'') tail of
             None \<Rightarrow> None
           | Some (url, after) \<Rightarrow>
               (case (case split_once (CHR '','') after of Some pn \<Rightarrow> pn | None \<Rightarrow> (after, [])) of
                  (params, next_members) \<Rightarrow>
                    if is_next_rel params then Some url
                    else if next_members = [] then None
                    else parse_link_next next_members)))"
  by pat_completeness auto
termination
  by (relation "measure length") (auto dest!: split_once_shorter split: option.splits)

declare parse_link_next.simps [simp del]

text \<open>\<open>decide\<close>: the decision and the paginator's next state.\<close>

definition decide_page :: "string \<Rightarrow> 64 word \<Rightarrow> 64 word \<Rightarrow> selector option \<Rightarrow> selector option \<Rightarrow> page_context \<Rightarrow> decision \<times> paginator" where
  "decide_page param current start total_pages total_count ctx =
     (let stop = (Done, PageNumber param current start total_pages total_count) in
      if record_count ctx = 0 then stop
      else if (case select_total total_pages (ctx_body ctx) of Some tot \<Rightarrow> current - start + 1 \<ge> tot | None \<Rightarrow> False) then stop
      else if total_count_reached total_count ctx then stop
      else (NextParams [(param, u64_text (current + 1))], PageNumber param (current + 1) start total_pages total_count))"

definition decide_offset :: "string \<Rightarrow> string \<Rightarrow> 64 word \<Rightarrow> 64 word \<Rightarrow> selector option \<Rightarrow> page_context \<Rightarrow> decision \<times> paginator" where
  "decide_offset offset_param limit_param page_size offset total_count ctx =
     (let stop = (Done, OffsetLimit offset_param limit_param page_size offset total_count) in
      if record_count ctx < unat page_size then stop
      else if total_count_reached total_count ctx then stop
      else (NextParams (offset_params offset_param limit_param page_size (offset + page_size)),
        OffsetLimit offset_param limit_param page_size (offset + page_size) total_count))"

definition decide_body_cursor :: "selector \<Rightarrow> string \<Rightarrow> page_context \<Rightarrow> (paginate_error, decision) result" where
  "decide_body_cursor path param ctx =
     (case ctx_body ctx of
        None \<Rightarrow> Inr Done
      | Some body \<Rightarrow>
          (case select_one path body of
             None \<Rightarrow> Inr Done
           | Some VNull \<Rightarrow> Inr Done
           | Some (VString s) \<Rightarrow> if s = [] then Inr Done else Inr (NextParams [(param, s)])
           | Some (VNumber n) \<Rightarrow> Inr (NextParams [(param, number_text n)])
           | Some other \<Rightarrow> Inl (CursorNotScalar (raw path) (value_kind other))))"

definition decide_next_url :: "selector \<Rightarrow> page_context \<Rightarrow> (paginate_error, decision) result" where
  "decide_next_url path ctx =
     (case ctx_body ctx of
        None \<Rightarrow> Inr Done
      | Some body \<Rightarrow>
          (case select_one path body of
             None \<Rightarrow> Inr Done
           | Some VNull \<Rightarrow> Inr Done
           | Some (VString url) \<Rightarrow> if url = [] then Inr Done else Inr (NextUrlAt url)
           | Some _ \<Rightarrow> Inl (NextUrlNotString (raw path))))"

definition decide :: "paginator \<Rightarrow> page_context \<Rightarrow> (paginate_error, decision \<times> paginator) result" where
  "decide pg ctx =
     (case pg of
        SinglePage \<Rightarrow> Inr (Done, pg)
      | PageNumber param next start total_pages total_count \<Rightarrow> Inr (decide_page param next start total_pages total_count ctx)
      | OffsetLimit offset_param limit_param page_size offset total_count \<Rightarrow>
          Inr (decide_offset offset_param limit_param page_size offset total_count ctx)
      | BodyCursor path param \<Rightarrow> rbind (decide_body_cursor path param ctx) (\<lambda>d. Inr (d, pg))
      | HeaderCursor header param \<Rightarrow>
          (case header_text ctx header of
             None \<Rightarrow> Inr (Done, pg)
           | Some v \<Rightarrow> if v = [] then Inr (Done, pg) else Inr (NextParams [(param, v)], pg))
      | NextUrl path \<Rightarrow> rbind (decide_next_url path ctx) (\<lambda>d. Inr (d, pg))
      | LinkHeader \<Rightarrow>
          (case header_text ctx ''link'' of
             None \<Rightarrow> Inr (Done, pg)
           | Some link \<Rightarrow> (case parse_link_next link of Some url \<Rightarrow> Inr (NextUrlAt url, pg) | None \<Rightarrow> Inr (Done, pg))))"

section \<open>An accepted configuration builds\<close>

lemma build_accepted:
  assumes "validate_selectors s = Inr ()"
  shows "\<exists>pg. build_paginator (s_pagination s) = Inr pg"
proof -
  have ok: "\<exists>sel. parse_selector p = Inr sel" if "(l, p) \<in> set (selector_paths (s_pagination s))" for l p
    using accepted_pagination_path [OF assms that] .
  have opt: "\<exists>sel. parse_optional_selector q = Inr sel"
    if "\<And>p. q = Some p \<Longrightarrow> \<exists>sel. parse_selector p = Inr sel" for q
    using that by (cases q) (fastforce simp: parse_optional_selector_def)+
  show ?thesis
  proof (cases "s_pagination s")
    case (PgPage a b c d)
    then have "\<exists>x. parse_optional_selector c = Inr x" "\<exists>x. parse_optional_selector d = Inr x"
      using ok by (auto intro!: opt simp: selector_paths_def split: option.splits)
    with PgPage show ?thesis by (auto simp: build_paginator_def)
  next
    case (PgOffset a b c d)
    then have "\<exists>x. parse_optional_selector d = Inr x"
      using ok by (auto intro!: opt simp: selector_paths_def split: option.splits)
    with PgOffset show ?thesis by (auto simp: build_paginator_def)
  next
    case (PgBodyCursor a b)
    with ok [of "''pagination.cursor_path''" a] show ?thesis
      by (auto simp: build_paginator_def selector_paths_def)
  next
    case (PgNextUrl a)
    with ok [of "''pagination.next_url_path''" a] show ?thesis
      by (auto simp: build_paginator_def selector_paths_def)
  qed (auto simp: build_paginator_def)
qed

section \<open>What a reader relies on\<close>

text \<open>
  The trait's contract with the reader: a paginator that does not ask for the body decides
  the same whether or not it is parsed, whether it asks never changes, and a paginator that
  names the next page by URL sends no parameters with the first.
\<close>

locale paginating =
  fixes dec :: "'p \<Rightarrow> page_context \<Rightarrow> ('e, decision \<times> 'p) result"
    and wants_body :: "'p \<Rightarrow> bool"
  assumes body_unread: "\<not> wants_body pg \<Longrightarrow> dec pg (ctx\<lparr>ctx_body := b\<rparr>) = dec pg ctx"
    and wants_stable: "dec pg ctx = Inr (d, pg') \<Longrightarrow> wants_body pg' = wants_body pg"
begin

text \<open>A run of decisions over the pages of a sequence, each with its parsed body or without.\<close>

fun decisions :: "'p \<Rightarrow> page_context list \<Rightarrow> ('e, decision) result list" where
  "decisions pg [] = []"
| "decisions pg (ctx # ctxs) =
     (case dec pg ctx of Inl e \<Rightarrow> [Inl e] | Inr (d, pg') \<Rightarrow> Inr d # decisions pg' ctxs)"

lemma decisions_unread:
  "\<not> wants_body pg \<Longrightarrow> decisions pg (map (\<lambda>ctx. ctx\<lparr>ctx_body := None\<rparr>) ctxs) = decisions pg ctxs"
proof (induction ctxs arbitrary: pg)
  case (Cons ctx ctxs)
  then show ?case
    by (auto simp: body_unread split: sum.splits dest: wants_stable)
qed simp

end

lemma body_unread_decide: "\<not> needs_body pg \<Longrightarrow> decide pg (ctx\<lparr>ctx_body := b\<rparr>) = decide pg ctx"
  by (cases pg) (auto simp: decide_def needs_body_def decide_page_def decide_offset_def select_total_def
      total_count_reached_def Let_def)

lemma needs_body_stable: "decide pg ctx = Inr (d, pg') \<Longrightarrow> needs_body pg' = needs_body pg"
  by (cases pg) (auto simp: decide_def needs_body_def decide_page_def decide_offset_def Let_def rbind_eq_Inr
      split: if_splits option.splits)

interpretation rest_paginators: paginating decide needs_body
  by unfold_locales (simp_all add: body_unread_decide needs_body_stable)

section \<open>The counters\<close>

lemma decide_page_advances:
  assumes "decide (PageNumber param n start tp tc) ctx = Inr (NextParams ps, pg)"
  shows "pg = PageNumber param (n + 1) start tp tc \<and> ps = [(param, u64_text (n + 1))] \<and> record_count ctx > 0"
  using assms by (auto simp: decide_def decide_page_def Let_def split: if_splits)

lemma decide_offset_advances:
  assumes "decide (OffsetLimit op lp sz n tc) ctx = Inr (NextParams ps, pg)"
  shows "pg = OffsetLimit op lp sz (n + sz) tc \<and> ps = offset_params op lp sz (n + sz) \<and> record_count ctx \<ge> unat sz"
  using assms by (auto simp: decide_def decide_offset_def Let_def split: if_splits)

section \<open>The Link header\<close>

text \<open>A header's text from its members: a target and its parameter text.\<close>

definition member_text :: "string \<times> string \<Rightarrow> string" where
  "member_text m = ''<'' @ fst m @ ''>'' @ snd m"

definition member_ok :: "string \<times> string \<Rightarrow> bool" where
  "member_ok m \<longleftrightarrow> CHR ''>'' \<notin> set (fst m) \<and> CHR '','' \<notin> set (snd m)"

lemma parse_link_next_space:
  "parse_link_next (CHR '' '' # CHR ''<'' # t) = parse_link_next (CHR ''<'' # t)"
  using parse_link_next.simps [of "CHR '' '' # CHR ''<'' # t"] parse_link_next.simps [of "CHR ''<'' # t"] by simp

text \<open>
  On any list of members whose targets have no closing bracket and whose parameters no
  comma, the scan returns the first member whose relation is \<^verbatim>\<open>next\<close>.
\<close>

theorem link_next_first:
  assumes "ms \<noteq> []" and "\<forall>m \<in> set ms. member_ok m"
  shows "parse_link_next (join '', '' (map member_text ms)) =
    map_option fst (find (\<lambda>m. is_next_rel (snd m)) ms)"
  using assms
proof (induction ms)
  case (Cons m ms)
  obtain url params where m: "m = (url, params)" by force
  have url: "CHR ''>'' \<notin> set url" and params: "CHR '','' \<notin> set params"
    using Cons.prems m by (auto simp: member_ok_def)
  have lt: "split_once (CHR ''<'') (p @ CHR ''<'' # t) = Some (p, t)" if "p = [] \<or> p = '' ''" for p t
    using that by (auto simp: split_once_append [of _ "[]", simplified])
  show ?case
  proof (cases ms)
    case Nil
    have "parse_link_next (member_text m) = (if is_next_rel params then Some url else None)"
      by (subst parse_link_next.simps)
        (use m params split_once_append [OF url] in \<open>auto simp: member_text_def split_once_None [THEN iffD2]\<close>)
    with Nil m show ?thesis by simp
  next
    case (Cons m' ms')
    let ?rest = "join '', '' (map member_text ms)"
    have "\<exists>t. ?rest = CHR ''<'' # t" using Cons by (cases ms') (auto simp: member_text_def)
    then have skip: "parse_link_next (CHR '' '' # ?rest) = parse_link_next ?rest"
      using parse_link_next_space by metis
    have "parse_link_next (join '', '' (map member_text (m # ms))) =
        (if is_next_rel params then Some url else parse_link_next (CHR '' '' # ?rest))"
      by (subst parse_link_next.simps)
        (use m Cons split_once_append [OF url] split_once_append [OF params] in \<open>auto simp: member_text_def\<close>)
    with skip Cons.IH Cons.prems Cons m show ?thesis by auto
  qed
qed simp

end
