(* ===== verification/Source_Core.thy ===== *)
theory Source_Core
  imports Json
begin

text \<open>
  What the source connectors share of the engine's SDK: the error type of a source, the
  feed a stream is read into, and the cursor a checkpoint carries.
\<close>

text \<open>A \<open>Duration\<close> or an instant is its number of nanoseconds.\<close>

type_synonym nanos = nat

definition from_secs :: "nat \<Rightarrow> nanos" where "from_secs s = s * 1000000000"
definition from_millis :: "nat \<Rightarrow> nanos" where "from_millis ms = ms * 1000000"

datatype source_error = STransient string | SRateLimited "nanos option" string | SFatal string

definition source_error_text :: "source_error \<Rightarrow> string" where
  "source_error_text e = (case e of STransient s \<Rightarrow> s | SRateLimited _ s \<Rightarrow> s | SFatal s \<Rightarrow> s)"

text \<open>
  The feed: what has been sent down the channel, oldest first. A send on a closed channel
  breaks; \<open>closed\<close> says after which prefix the receiver is gone.
\<close>

datatype event = RawJson string | Checkpoint json

type_synonym feed = "event list"

definition send :: "(feed \<Rightarrow> bool) \<Rightarrow> event \<Rightarrow> feed \<Rightarrow> bool \<times> feed" where
  "send closed ev out = (if closed out then (True, out) else (False, out @ [ev]))"

end
