(* ===== verification/Rest_Resolve.thy ===== *)
theory Rest_Resolve
  imports Rest_Config Source_Core
begin

text \<open>
  \<^verbatim>\<open>crates/rdlt-connector-rest/src/source/read/resolve.rs\<close>: the values a parent record gives
  its children, their substitution into paths, parameters and bodies, and the parent fields
  embedded in child records.
\<close>

record parent_values =
  pv_placeholders :: "(string \<times> string) list"
  pv_include :: "(string \<times> json) list"

section \<open>Substitution\<close>

function replace_tokens :: "string \<Rightarrow> (string \<times> string) list \<Rightarrow> string" where
  "replace_tokens rest values =
     (case split_once (CHR ''{'') rest of
        None \<Rightarrow> rest
      | Some (pre, after_brace) \<Rightarrow>
          (case split_once (CHR ''}'') after_brace of
             None \<Rightarrow> pre @ ''{'' @ replace_tokens after_brace values
           | Some (token, remainder) \<Rightarrow>
               (case map_of values token of
                  Some v \<Rightarrow> pre @ v @ replace_tokens remainder values
                | None \<Rightarrow> pre @ ''{'' @ replace_tokens after_brace values)))"
  by pat_completeness auto
termination
proof (relation "measure (\<lambda>(rest, values). length rest)")
  fix rest :: string and vs :: "(string \<times> string) list" and x pre aft y token remainder v
  assume "split_once (CHR ''{'') rest = Some x" "(pre, aft) = x" "split_once (CHR ''}'') aft = Some y" "(token, remainder) = y"
  then have "length remainder < length aft" "length aft < length rest"
    using split_once_shorter by force+
  then show "((remainder, vs), rest, vs) \<in> measure (\<lambda>(rest, values). length rest)" by simp
qed (auto dest: split_once_shorter)

declare replace_tokens.simps [simp del]

definition unreserved :: "char \<Rightarrow> bool" where
  "unreserved c \<longleftrightarrow>
     (let b = of_char c :: nat in
      65 \<le> b \<and> b \<le> 90 \<or> 97 \<le> b \<and> b \<le> 122 \<or> 48 \<le> b \<and> b \<le> 57 \<or>
      c \<in> set ''-._~'')"

definition encode_byte :: "char \<Rightarrow> string" where
  "encode_byte c = (if unreserved c then [c] else percent c)"

definition encode_path_value :: "string \<Rightarrow> string" where
  "encode_path_value v =
     (let encoded = concat (map encode_byte v) in
      if encoded = ''.'' \<or> encoded = ''..'' then replace_char (CHR ''.'') ''%2E'' encoded else encoded)"

definition substitute_path :: "string \<Rightarrow> (string \<times> string) list \<Rightarrow> string" where
  "substitute_path template values = replace_tokens template (map (apsnd encode_path_value) values)"

definition substitute :: "string \<Rightarrow> (string \<times> string) list \<Rightarrow> string" where
  "substitute template values = replace_tokens template values"

primrec substitute_body :: "json \<Rightarrow> (string \<times> string) list \<Rightarrow> json" where
  "substitute_body VNull values = VNull"
| "substitute_body (VBool b) values = VBool b"
| "substitute_body (VNumber n) values = VNumber n"
| "substitute_body (VString s) values = VString (substitute s values)"
| "substitute_body (VArray items) values = VArray (map (\<lambda>v. substitute_body v values) items)"
| "substitute_body (VObject m) values = VObject (map (map_prod id (\<lambda>v. substitute_body v values)) m)"

section \<open>Parents\<close>

definition render_placeholder :: "string \<Rightarrow> string \<Rightarrow> json \<Rightarrow> (source_error, string) result" where
  "render_placeholder field_path token v =
     (case v of
        VString s \<Rightarrow> Inr s
      | VNumber n \<Rightarrow> Inr (number_text n)
      | VBool b \<Rightarrow> Inr (if b then ''true'' else ''false'')
      | other \<Rightarrow> Inl (SFatal (''parent field `'' @ field_path @ ''` for placeholder `{'' @ token @ ''}` is '' @
          value_kind other @ '' '' @ em_dash @ '' placeholders take scalars'')))"

definition placeholder_value :: "json \<Rightarrow> string \<times> string \<Rightarrow> (source_error, string \<times> string) result" where
  "placeholder_value item p =
     (case p of (token, field_path) \<Rightarrow>
      (case parse_selector field_path of
         Inl e \<Rightarrow> Inl (SFatal (''parent placeholder `'' @ token @ ''`: '' @ e))
       | Inr sel \<Rightarrow>
           (case select_one sel item of
              None \<Rightarrow> Inl (SFatal (''parent record lacks field `'' @ field_path @ ''` for placeholder `{'' @ token @ ''}`''))
            | Some v \<Rightarrow> rbind (render_placeholder field_path token v) (\<lambda>text. Inr (token, text)))))"

definition parent_value :: "parent_link \<Rightarrow> json \<Rightarrow> (source_error, parent_values) result" where
  "parent_value parent item =
     rbind (traverse (placeholder_value item) (placeholders parent)) (\<lambda>kvs.
     Inr \<lparr>pv_placeholders = fold (\<lambda>(k, v) m. btree_insert k v m) kvs [],
          pv_include = map (\<lambda>field. (field, case get_field field item of Some v \<Rightarrow> v | None \<Rightarrow> VNull)) (include_fields parent)\<rparr>)"

definition collect_parent_values :: "json list \<Rightarrow> parent_link \<Rightarrow> (source_error, parent_values list) result" where
  "collect_parent_values items parent = traverse (parent_value parent) items"

definition describe_values :: "(string \<times> string) list \<Rightarrow> string" where
  "describe_values values = join '', '' (map (\<lambda>(token, v). token @ ''='' @ v) values)"

fun embed_fields :: "(string \<times> json) list \<Rightarrow> (string \<times> json) list \<Rightarrow> (source_error, (string \<times> json) list) result" where
  "embed_fields m [] = Inr m"
| "embed_fields m ((field, v) # rest) =
     (let key = ''_parent_'' @ field in
      if map_of m key \<noteq> None
      then Inl (SFatal (''child record already has a `'' @ key @ ''` field '' @ em_dash @ '' parent include collides''))
      else embed_fields (obj_insert key v m) rest)"

definition embed_item :: "(string \<times> json) list \<Rightarrow> json \<Rightarrow> (source_error, json) result" where
  "embed_item incl item =
     (case item of
        VObject m \<Rightarrow> rbind (embed_fields m incl) (\<lambda>m'. Inr (VObject m'))
      | _ \<Rightarrow> Inl (SFatal ''child records must be objects to embed parent fields''))"

definition embed :: "serde \<Rightarrow> json list \<Rightarrow> (string \<times> json) list \<Rightarrow> (source_error, string) result" where
  "embed sd items incl =
     rbind (traverse (embed_item incl) items) (\<lambda>items'.
     (case to_vec sd items' of Inl e \<Rightarrow> Inl (SFatal e) | Inr bytes \<Rightarrow> Inr bytes))"

section \<open>A substituted value is opaque\<close>

lemma unreserved_not_percent: "unreserved c \<Longrightarrow> c \<noteq> CHR ''%''"
  by (auto simp: unreserved_def)

lemma hex_digit_unreserved: "n < 16 \<Longrightarrow> unreserved (hex_digit n)"
  by (auto simp: hex_digit_def unreserved_def Let_def)

lemma decode_encode_byte: "percent_decode (encode_byte c @ s) = c # percent_decode s"
proof (cases "unreserved c")
  case True
  then show ?thesis using unreserved_not_percent [OF True] by (simp add: encode_byte_def)
next
  case False
  then show ?thesis using percent_decode_percent [of c s] by (simp add: encode_byte_def)
qed

lemma decode_encode: "percent_decode (concat (map encode_byte v)) = v"
  by (induction v) (simp_all add: decode_encode_byte)

lemma encode_byte_chars: "x \<in> set (encode_byte c) \<Longrightarrow> unreserved x \<or> x = CHR ''%''"
  using byte_halves [of c] by (auto simp: encode_byte_def percent_def hex_digit_unreserved split: if_splits)

lemma percent_unreserved_chars: "unreserved (CHR ''2'')" "unreserved (CHR ''E'')"
  by (simp_all add: unreserved_def Let_def)

lemma encode_path_value_chars: "x \<in> set (encode_path_value v) \<Longrightarrow> unreserved x \<or> x = CHR ''%''"
  by (auto simp: encode_path_value_def Let_def percent_unreserved_chars dest: encode_byte_chars split: if_splits)

text \<open>The dots of a whole-value \<^verbatim>\<open>.\<close> or \<^verbatim>\<open>..\<close> are escaped, and the value still reads back.\<close>

lemma char_46: "char_of (46 :: nat) = CHR ''.''"
  using char_of_char [where ?'a = nat, of "CHR ''.''"] by simp

lemma encode_path_value_decodes: "percent_decode (encode_path_value v) = v"
proof -
  let ?e = "concat (map encode_byte v)"
  have "v = percent_decode ?e" by (simp add: decode_encode)
  then show ?thesis by (auto simp: encode_path_value_def Let_def hex_value_def char_46)
qed

text \<open>
  Escaping the dots does not keep such a value from being a dot segment: the URL Standard
  counts \<^verbatim>\<open>%2e\<close> as a dot when it looks for them.
\<close>

lemma dotdot_path: "substitute_path ''/orgs/acme/users/{id}/keys'' [(''id'', ''..'')] = ''/orgs/acme/users/%2E%2E/keys''"
  by code_simp

text \<open>Nor is a segment made of two placeholders looked at as a whole.\<close>

lemma two_dots_path: "substitute_path ''/users/{a}{b}'' [(''a'', ''.''), (''b'', ''.'')] = ''/users/%2E%2E''"
  by code_simp

text \<open>Keys of a body are not substituted.\<close>

lemma key_token_kept: "substitute_body (VObject [(''{id}'', VBool True)]) [(''id'', ''7'')] = VObject [(''{id}'', VBool True)]"
  by simp

section \<open>Substitution keeps the template's structure\<close>

text \<open>Characters a value cannot bring into a path, and no placeholder name has.\<close>

lemma replace_Nil [simp]: "replace_tokens [] values = []"
  by (subst replace_tokens.simps) simp

lemma replace_other: "x \<noteq> CHR ''{'' \<Longrightarrow> replace_tokens (x # s) values = x # replace_tokens s values"
  by (subst (1 2) replace_tokens.simps) (auto split: option.splits)

lemma replace_open: "replace_tokens (CHR ''{'' # s) values =
    (case split_once (CHR ''}'') s of
       None \<Rightarrow> CHR ''{'' # replace_tokens s values
     | Some (token, remainder) \<Rightarrow>
         (case map_of values token of
            Some v \<Rightarrow> v @ replace_tokens remainder values
          | None \<Rightarrow> CHR ''{'' # replace_tokens s values))"
  by (subst replace_tokens.simps) (auto split: option.splits)

lemma split_once_two: "c \<notin> set xs \<Longrightarrow> split_once c (xs @ ys) = map_option (apfst ((@) xs)) (split_once c ys)"
  by (cases "split_once c ys") (induction xs, auto)+

lemma replace_tokens_split:
  assumes "d \<noteq> CHR ''{''" "d \<noteq> CHR ''}''" and keys: "\<And>k v. map_of values k = Some v \<Longrightarrow> d \<notin> set k"
  shows "replace_tokens (xs @ d # ys) values = replace_tokens xs values @ d # replace_tokens ys values"
proof (induction xs rule: length_induct)
  case (1 xs)
  then have IH: "replace_tokens (zs @ d # ys) values = replace_tokens zs values @ d # replace_tokens ys values"
    if "length zs < length xs" for zs using that by blast
  show ?case
  proof (cases xs)
    case Nil
    with assms(1) show ?thesis by (simp add: replace_other)
  next
    case (Cons x aft)
    show ?thesis
    proof (cases "x = CHR ''{''")
      case False
      with Cons IH [of aft] show ?thesis by (simp add: replace_other)
    next
      case True
      note aft = IH [of aft]
      show ?thesis
      proof (cases "split_once (CHR ''}'') aft")
        case None
        then have "CHR ''}'' \<notin> set (aft @ [d])" using assms(2) by (simp add: split_once_None)
        from split_once_two [OF this, of ys]
        have split: "split_once (CHR ''}'') (aft @ d # ys) = map_option (apfst ((@) (aft @ [d]))) (split_once (CHR ''}'') ys)"
          by simp
        have "map_of values ((aft @ [d]) @ a) = None" for a
          using keys [of "(aft @ [d]) @ a"] by (cases "map_of values ((aft @ [d]) @ a)") auto
        then have "replace_tokens (CHR ''{'' # aft @ d # ys) values = CHR ''{'' # replace_tokens (aft @ d # ys) values"
          unfolding replace_open split by (simp split: option.split prod.split)
        with Cons True None aft show ?thesis by (simp add: replace_open)
      next
        case (Some tr)
        then obtain token remainder where "aft = token @ CHR ''}'' # remainder" "CHR ''}'' \<notin> set token"
          using split_once_Some by (cases tr) blast
        with Cons True aft IH [of remainder] show ?thesis
          by (simp add: replace_open split_once_append split: option.split)
      qed
    qed
  qed
qed

lemma replace_tokens_fresh:
  assumes "\<And>k v. map_of values k = Some v \<Longrightarrow> d \<notin> set v"
  shows "d \<notin> set t \<Longrightarrow> d \<notin> set (replace_tokens t values)"
proof (induction t rule: length_induct)
  case (1 t)
  show ?case
  proof (cases t)
    case (Cons x aft)
    with 1 have aft: "d \<notin> set (replace_tokens aft values)" by simp
    have rem: "d \<notin> set (replace_tokens r values)" if "split_once (CHR ''}'') aft = Some (k, r)" for k r
      using that 1 Cons by (auto dest!: split_once_Some)
    show ?thesis
    proof (cases "x = CHR ''{''")
      case False
      with Cons aft 1 show ?thesis by (simp add: replace_other)
    next
      case True
      with Cons aft 1 rem assms show ?thesis by (auto simp: replace_open split: option.split)
    qed
  qed simp
qed

lemma map_of_encoded: "map_of (map (apsnd f) m) k = map_option f (map_of m k)"
  by (induction m) auto

text \<open>
  A segment the URL Standard's parser takes for a single-dot or double-dot segment: dots,
  each as it is or as \<^verbatim>\<open>%2e\<close> in either case.
\<close>

definition dot_segment :: "string \<Rightarrow> bool" where
  "dot_segment part \<longleftrightarrow> percent_decode part = ''.'' \<or> percent_decode part = ''..''"

lemma replace_tokens_placeholder:
  assumes "map_of values k = Some v" and "CHR ''}'' \<notin> set k"
  shows "replace_tokens (CHR ''{'' # k @ ''}'') values = v"
  using assms split_once_append [OF assms(2), of "[]"] by (simp add: replace_open)

lemma placeholder_segment:
  assumes "map_of values k = Some v" and "CHR ''}'' \<notin> set k"
  shows "percent_decode (substitute_path (CHR ''{'' # k @ ''}'') values) = v"
  using replace_tokens_placeholder [OF _ assms(2), of "map (apsnd encode_path_value) values"] assms(1)
  by (simp add: substitute_path_def map_of_encoded encode_path_value_decodes)

text \<open>
  C23. Where a parent's values can go in a child request's path. On any character a template may
  use as structure, the substituted path splits exactly where the template does, and each part is
  the substitution of the template's part. A part that is a single placeholder decodes to the
  parent's value, and it is a dot segment, which the URL parser removes, exactly when that value is
  \<^verbatim>\<open>.\<close> or \<^verbatim>\<open>..\<close>: those two values do change the path (\<open>dotdot_path\<close>). The tokens are assumed to be
  free of the structural character.
\<close>

theorem substitute_path_structure:
  assumes "\<not> unreserved d" "d \<noteq> CHR ''%''" "d \<noteq> CHR ''{''" "d \<noteq> CHR ''}''"
    and "\<forall>k \<in> set (map fst values). d \<notin> set k"
  shows "split_on d (substitute_path template values) = map (\<lambda>part. substitute_path part values) (split_on d template)
    \<and> (\<forall>k v. map_of values k = Some v \<and> CHR ''}'' \<notin> set k \<longrightarrow>
         percent_decode (substitute_path (CHR ''{'' # k @ ''}'') values) = v
         \<and> (dot_segment (substitute_path (CHR ''{'' # k @ ''}'') values) \<longleftrightarrow> v = ''.'' \<or> v = ''..''))"
proof -
  let ?vs = "map (apsnd encode_path_value) values"
  have keys: "d \<notin> set k" if "map_of ?vs k = Some v" for k v
    using that assms(5) by (auto simp: map_of_encoded dest!: map_of_SomeD)
  have vals: "d \<notin> set v" if "map_of ?vs k = Some v" for k v
    using that assms(1,2) encode_path_value_chars by (auto simp: map_of_encoded)
  have fresh: "d \<notin> set t \<Longrightarrow> d \<notin> set (replace_tokens t ?vs)" for t
    by (rule replace_tokens_fresh) (rule vals)
  have split: "replace_tokens (a @ d # b) ?vs = replace_tokens a ?vs @ d # replace_tokens b ?vs" for a b
    by (rule replace_tokens_split [OF assms(3,4)]) (rule keys)
  have "split_on d (replace_tokens t ?vs) = map (\<lambda>part. replace_tokens part ?vs) (split_on d t)" for t
  proof (induction "length t" arbitrary: t rule: less_induct)
    case less
    show ?case
    proof (cases "split_once d t")
      case None
      then have "d \<notin> set t" by (simp add: split_once_None)
      then show ?thesis using fresh by (simp add: split_on_fresh)
    next
      case (Some ab)
      then obtain a b where t: "t = a @ d # b" and a: "d \<notin> set a"
        using split_once_Some by (cases ab) blast
      then have "d \<notin> set (replace_tokens a ?vs)" using fresh by blast
      with t a less [of b] show ?thesis
        by (simp add: split split_on_append)
    qed
  qed
  then show ?thesis using placeholder_segment by (simp add: substitute_path_def dot_segment_def)
qed

end
