(* ===== verification/Rest_Page.thy ===== *)
theory Rest_Page
  imports Rest_Resolve
begin

text \<open>
  \<^verbatim>\<open>crates/rdlt-connector-rest/src/source/read/extract.rs\<close> (the records of one response) and
  \<^verbatim>\<open>cursor.rs\<close> (the greatest cursor value seen, in byte order).
\<close>

section \<open>extract.rs\<close>

record page =
  pg_records :: string
  pg_count :: nat
  pg_values :: "json list option"

definition empty_page :: page where
  "empty_page = \<lparr>pg_records = ''[]'', pg_count = 0, pg_values = Some []\<rparr>"

definition parse_body :: "serde \<Rightarrow> string \<Rightarrow> (source_error, json) result" where
  "parse_body sd body =
     (case from_slice sd body of Inl e \<Rightarrow> Inl (SFatal (''response is not valid JSON: '' @ e)) | Inr v \<Rightarrow> Inr v)"

definition top_level_keys :: "json \<Rightarrow> string" where
  "top_level_keys v =
     (case v of
        VObject m \<Rightarrow> ''object with keys ['' @ join '', '' (take 8 (map fst m)) @ '']''
      | VArray items \<Rightarrow> ''array of '' @ show_nat (length items) @ '' items''
      | VNull \<Rightarrow> ''null'' | VBool _ \<Rightarrow> ''bool'' | VNumber _ \<Rightarrow> ''number'' | VString _ \<Rightarrow> ''string'')"

definition page_items :: "selector \<Rightarrow> json list \<Rightarrow> (source_error, json list) result" where
  "page_items sel matches =
     (case matches of
        [m] \<Rightarrow>
          (case m of
             VArray items \<Rightarrow> Inr items
           | _ \<Rightarrow> Inl (SFatal (''records_path `'' @ raw sel @ ''` selected a non-array; append [*] to select elements'')))
      | _ \<Rightarrow> Inr matches)"

definition extract_page :: "serde \<Rightarrow> string \<Rightarrow> selector option \<Rightarrow> bool \<Rightarrow> (source_error, page) result" where
  "extract_page sd body sel needs_values =
     rbind (parse_body sd body) (\<lambda>v.
     (case sel of
        None \<Rightarrow>
          (case v of
             VArray items \<Rightarrow> Inr \<lparr>pg_records = body, pg_count = length items, pg_values = Some items\<rparr>
           | _ \<Rightarrow> Inl (SFatal ''response body is not a JSON array; set records_path''))
      | Some sel \<Rightarrow>
          (case select_tracking sel v of
             (matches, wildcard_saw_empty) \<Rightarrow>
               if matches = [] then
                 (if wildcard_saw_empty then Inr empty_page
                  else Inl (SFatal (''records_path `'' @ raw sel @ ''` matched nothing in the response (top-level: '' @
                    top_level_keys v @ '')'')))
               else rbind (page_items sel matches) (\<lambda>items.
                 (case to_vec sd items of
                    Inl e \<Rightarrow> Inl (SFatal e)
                  | Inr bytes \<Rightarrow> Inr \<lparr>pg_records = bytes, pg_count = length items,
                      pg_values = (if needs_values then Some items else None)\<rparr>)))))"

definition values_of :: "page \<Rightarrow> json list" where
  "values_of p = (case pg_values p of Some vs \<Rightarrow> vs | None \<Rightarrow> [])"

text \<open>A page that carries its values carries as many as it counts.\<close>

lemma extract_page_values:
  assumes "extract_page sd body sel True = Inr p"
  shows "\<exists>vs. pg_values p = Some vs \<and> length vs = pg_count p"
proof -
  obtain v where v: "parse_body sd body = Inr v" using assms by (auto simp: extract_page_def rbind_eq_Inr)
  show ?thesis
  proof (cases sel)
    case None
    with assms v show ?thesis by (auto simp: extract_page_def split: json.splits)
  next
    case (Some s)
    obtain matches saw where m: "select_tracking s v = (matches, saw)" by force
    show ?thesis
    proof (cases "matches = []")
      case True
      with assms v Some m show ?thesis by (auto simp: extract_page_def empty_page_def split: if_splits)
    next
      case False
      with assms v Some m obtain items where
        items: "(case to_vec sd items of Inl e \<Rightarrow> Inl (SFatal e)
          | Inr bytes \<Rightarrow> Inr \<lparr>pg_records = bytes, pg_count = length items, pg_values = (if True then Some items else None)\<rparr>) = Inr p"
        by (auto simp: extract_page_def rbind_eq_Inr)
      then show ?thesis by (cases "to_vec sd items") auto
    qed
  qed
qed

section \<open>cursor.rs\<close>

definition render_scalar :: "json \<Rightarrow> string option" where
  "render_scalar v = (case v of VString s \<Rightarrow> Some s | VNumber n \<Rightarrow> Some (number_text n) | _ \<Rightarrow> None)"

definition raise_max :: "string option \<Rightarrow> string \<Rightarrow> string option" where
  "raise_max best rendered =
     (case best of None \<Rightarrow> Some rendered | Some current \<Rightarrow> if rendered > current then Some rendered else best)"

fun observe :: "json list \<Rightarrow> string \<Rightarrow> string option \<Rightarrow> string option" where
  "observe [] field best = best"
| "observe (r # records) field best =
     (case Option.bind (get_field field r) render_scalar of
        None \<Rightarrow> observe records field best
      | Some rendered \<Rightarrow> observe records field (raise_max best rendered))"

fun merge_maxes :: "string option \<Rightarrow> string option list \<Rightarrow> string option" where
  "merge_maxes best [] = best"
| "merge_maxes best (None # maxes) = merge_maxes best maxes"
| "merge_maxes best (Some m # maxes) = merge_maxes (raise_max best m) maxes"

text \<open>The cursor values a list of records shows.\<close>

definition cursors :: "string \<Rightarrow> json list \<Rightarrow> string set" where
  "cursors field records = {c. \<exists>r \<in> set records. Option.bind (get_field field r) render_scalar = Some c}"

lemma cursors_simps [simp]:
  "cursors field [] = {}"
  "cursors field (r # rs) = set_option (Option.bind (get_field field r) render_scalar) \<union> cursors field rs"
  "cursors field (rs @ rs') = cursors field rs \<union> cursors field rs'"
  by (auto simp: cursors_def simp del: bind_eq_Some_conv set_bind_option)

text \<open>The greatest of a starting point and some values.\<close>

definition is_max :: "string option \<Rightarrow> string set \<Rightarrow> string option \<Rightarrow> bool" where
  "is_max start cs m \<longleftrightarrow>
     (case m of
        None \<Rightarrow> start = None \<and> cs = {}
      | Some x \<Rightarrow> x \<in> cs \<union> set_option start \<and> (\<forall>c \<in> cs \<union> set_option start. c \<le> x))"

lemma is_max_refl [simp]: "is_max m {} m"
  by (cases m) (auto simp: is_max_def)

lemma is_max_raise: "is_max start cs m \<Longrightarrow> is_max start (insert c cs) (raise_max m c)"
proof (cases m)
  case (Some a)
  assume m: "is_max start cs m"
  show ?thesis
  proof (cases "a < c")
    case True
    have "x \<le> c" if "x \<in> cs \<union> set_option start" for x
      using m Some that True by (auto simp: is_max_def intro: order_trans [OF _ less_imp_le])
    with True Some show ?thesis by (auto simp: is_max_def raise_max_def)
  next
    case False
    with m Some show ?thesis by (auto simp: is_max_def raise_max_def)
  qed
qed (auto simp: is_max_def raise_max_def)

lemma observe_is_max: "is_max start cs m \<Longrightarrow> is_max start (cs \<union> cursors field rs) (observe rs field m)"
proof (induction rs arbitrary: m cs)
  case (Cons r rs)
  show ?case
  proof (cases "Option.bind (get_field field r) render_scalar")
    case None
    with Cons show ?thesis by simp
  next
    case (Some c)
    with Cons.IH [OF is_max_raise [OF Cons.prems], of c] show ?thesis by (simp add: Un_commute)
  qed
qed simp

lemma merge_is_max: "is_max start cs m \<Longrightarrow> is_max start (cs \<union> {c. Some c \<in> set ms}) (merge_maxes m ms)"
proof (induction m ms arbitrary: cs rule: merge_maxes.induct)
  case (3 best m ms)
  have "{c. Some c \<in> set (Some m # ms)} = insert m {c. Some c \<in> set ms}" by auto
  with "3.IH" [OF is_max_raise [OF "3.prems"]] show ?case by simp
qed (simp_all add: Un_commute)

lemma is_max_above: "is_max start cs (Some x) \<Longrightarrow> start = Some s \<Longrightarrow> s \<le> x"
  by (simp add: is_max_def)

lemma is_max_trans: "is_max start cs m \<Longrightarrow> is_max m cs' m' \<Longrightarrow> is_max start (cs \<union> cs') m'"
  by (cases m; cases m') (auto simp: is_max_def intro: order_trans)

end
