(* ===== verification/Rest_Http.thy ===== *)
theory Rest_Http
  imports Rest_Config Source_Core
begin

text \<open>
  \<^verbatim>\<open>crates/rdlt-connector-rest/src/source/http\<close>: the client's bounded send
  (\<^verbatim>\<open>client.rs\<close>), the credentials it attaches (\<^verbatim>\<open>credentials.rs\<close>), error classification
  (\<^verbatim>\<open>classify.rs\<close>) and origins (\<^verbatim>\<open>origin.rs\<close>). The network, the clocks and the URL library
  are the record \<open>net\<close> on a world \<open>'w\<close>.
\<close>

section \<open>Requests and responses\<close>

datatype credential = BearerToken string | BasicPair string string

record http_request =
  rq_method :: http_method
  rq_url :: string
  rq_headers :: "(string \<times> string) list"
  rq_query :: "(string \<times> string) list"
  rq_json :: "json option"
  rq_credential :: "credential option"

text \<open>\<open>r_body\<close> is what reading the body yields: its bytes, or a transport error.\<close>

record response =
  r_status :: nat
  r_header :: "string \<Rightarrow> string option"
  r_body :: "(string, string) result"

record 'w net =
  execute :: "http_request \<Rightarrow> 'w \<Rightarrow> (string, response) result \<times> 'w"
  post_form :: "string \<Rightarrow> (string \<times> string) list \<Rightarrow> 'w \<Rightarrow> (string, response) result \<times> 'w"
  sleep :: "nanos \<Rightarrow> 'w \<Rightarrow> 'w"
  instant_now :: "'w \<Rightarrow> nanos"
  system_now :: "'w \<Rightarrow> nanos"
  parse_http_date :: "string \<Rightarrow> nanos option"
  url_pairs :: "string \<Rightarrow> (string \<times> string) list"
  status_text :: "nat \<Rightarrow> string"
  build_error :: "http_request \<Rightarrow> string option"
  token_json :: "string \<Rightarrow> (string, json) result"

section \<open>classify.rs and origin.rs\<close>

definition is_success :: "nat \<Rightarrow> bool" where "is_success s \<longleftrightarrow> 200 \<le> s \<and> s < 300"

definition is_server_error :: "nat \<Rightarrow> bool" where "is_server_error s \<longleftrightarrow> 500 \<le> s \<and> s < 600"

definition classify_status :: "(nat \<Rightarrow> string) \<Rightarrow> nat \<Rightarrow> nanos option \<Rightarrow> source_error" where
  "classify_status text status retry_after =
     (if status = 429 then SRateLimited retry_after ''HTTP 429 from API''
      else if is_server_error status then STransient (''HTTP '' @ text status)
      else SFatal (''HTTP '' @ text status))"

definition u64_max :: nat where "u64_max = 2 ^ 64 - 1"

definition server_retry_after :: "(string \<Rightarrow> nanos option) \<Rightarrow> nanos \<Rightarrow> response \<Rightarrow> nanos option" where
  "server_retry_after parse_date now resp =
     (case r_header resp ''retry-after'' of
        None \<Rightarrow> None
      | Some text \<Rightarrow>
          (case parse_unsigned u64_max (trim text) of
             Some seconds \<Rightarrow> Some (from_secs seconds)
           | None \<Rightarrow> map_option (\<lambda>at. at - now) (parse_date (trim text))))"

definition same_origin :: "'u web \<Rightarrow> 'u \<Rightarrow> 'u \<Rightarrow> bool" where
  "same_origin lib a b \<longleftrightarrow>
     url_scheme lib a = url_scheme lib b \<and> host_str lib a = host_str lib b \<and>
     port_or_known_default lib a = port_or_known_default lib b"

text \<open>The redirect policy installed in \<^verbatim>\<open>connector.rs\<close>: \<open>previous\<close> is the chain so far.\<close>

definition MAX_REDIRECTS :: nat where "MAX_REDIRECTS = 10"

definition follow_redirect :: "'u web \<Rightarrow> 'u list \<Rightarrow> 'u \<Rightarrow> bool" where
  "follow_redirect lib previous target \<longleftrightarrow>
     length previous < MAX_REDIRECTS \<and> previous \<noteq> [] \<and> same_origin lib (last previous) target"

section \<open>credentials.rs\<close>

record cached_token =
  access_token :: string
  expires_at :: "nanos option"

record 'w client =
  the_world :: 'w
  last_request_at :: "nanos option"
  generation :: "64 word"
  cached :: "cached_token option"

type_synonym ('w, 'a) client_action = "('w client, source_error, 'a) action"

definition token_form :: "auth \<Rightarrow> (string \<times> string) list" where
  "token_form a =
     [(''grant_type'', ''client_credentials''), (''client_id'', client_id a), (''client_secret'', client_secret a)] @
     (if scopes a = [] then [] else [(''scope'', join '' '' (scopes a))]) @
     (case audience a of Some x \<Rightarrow> [(''audience'', x)] | None \<Rightarrow> [])"

definition token_status_error :: "'w net \<Rightarrow> nanos \<Rightarrow> response \<Rightarrow> source_error" where
  "token_status_error net now resp =
     (let text = ''oauth2 token endpoint: HTTP '' @ status_text net (r_status resp) in
      if r_status resp = 429 then SRateLimited (server_retry_after (parse_http_date net) now resp) text
      else if is_server_error (r_status resp) then STransient text
      else SFatal (text @ '' '' @ em_dash @ '' check client credentials''))"

definition read_token :: "'w net \<Rightarrow> auth \<Rightarrow> nanos \<Rightarrow> response \<Rightarrow> (source_error, cached_token) result" where
  "read_token net a now resp =
     rbind (case r_body resp of
         Inl e \<Rightarrow> Inl (SFatal (''oauth2 token response: '' @ e))
       | Inr bytes \<Rightarrow> (case token_json net bytes of Inl e \<Rightarrow> Inl (SFatal (''oauth2 token response: '' @ e)) | Inr v \<Rightarrow> Inr v))
     (\<lambda>body.
     (case Option.bind (get_field ''access_token'' body) as_str of
        None \<Rightarrow> Inl (SFatal ''oauth2 token response: missing `access_token` field'')
      | Some t \<Rightarrow> Inr \<lparr>access_token = t,
          expires_at = map_option (\<lambda>secs. now + (from_secs (unat secs) - from_secs (expiry_margin_secs a)))
            (Option.bind (get_field ''expires_in'' body) as_u64)\<rparr>))"

definition fetch_token :: "'w net \<Rightarrow> auth \<Rightarrow> ('w, string \<times> 64 word) client_action" where
  "fetch_token net a st =
     (case post_form net (token_url a) (token_form a) (the_world st) of
        (Inl e, w) \<Rightarrow> (Inl (STransient e), st\<lparr>the_world := w\<rparr>)
      | (Inr resp, w) \<Rightarrow>
          (let st = st\<lparr>the_world := w\<rparr> in
           if \<not> is_success (r_status resp) then (Inl (token_status_error net (system_now net w) resp), st)
           else (case read_token net a (instant_now net w) resp of
               Inl e \<Rightarrow> (Inl e, st)
             | Inr t \<Rightarrow> (Inr (access_token t, generation st + 1), st\<lparr>cached := Some t, generation := generation st + 1\<rparr>))))"

definition current_token :: "'w net \<Rightarrow> auth \<Rightarrow> ('w, string \<times> 64 word) client_action" where
  "current_token net a st =
     (case cached st of
        Some t \<Rightarrow>
          (if (case expires_at t of None \<Rightarrow> True | Some at \<Rightarrow> instant_now net (the_world st) < at)
           then (Inr (access_token t, generation st), st)
           else fetch_token net a st)
      | None \<Rightarrow> fetch_token net a st)"

definition attach :: "'w net \<Rightarrow> auth \<Rightarrow> http_request \<Rightarrow> ('w, http_request \<times> 64 word option) client_action" where
  "attach net a rq =
     (case a of
        AuthNone \<Rightarrow> aret (rq, None)
      | Bearer token \<Rightarrow> aret (rq\<lparr>rq_credential := Some (BearerToken token)\<rparr>, None)
      | HeaderAuth name v \<Rightarrow> aret (rq\<lparr>rq_headers := rq_headers rq @ [(name, v)]\<rparr>, None)
      | Basic username password \<Rightarrow> aret (rq\<lparr>rq_credential := Some (BasicPair username password)\<rparr>, None)
      | ApiKey name key location \<Rightarrow>
          aret ((case location of
              InHeader \<Rightarrow> rq\<lparr>rq_headers := rq_headers rq @ [(name, key)]\<rparr>
            | InQuery \<Rightarrow> rq\<lparr>rq_query := rq_query rq @ [(name, key)]\<rparr>), None)
      | OAuth2ClientCredentials _ _ _ _ _ _ \<Rightarrow>
          abind (current_token net a) (\<lambda>(token, gen). aret (rq\<lparr>rq_credential := Some (BearerToken token)\<rparr>, Some gen)))"

definition is_oauth2 :: "auth \<Rightarrow> bool" where
  "is_oauth2 a \<longleftrightarrow> (case a of OAuth2ClientCredentials _ _ _ _ _ _ \<Rightarrow> True | _ \<Rightarrow> False)"

definition on_unauthorized :: "auth \<Rightarrow> 64 word option \<Rightarrow> ('w, bool) client_action" where
  "on_unauthorized a failed st =
     (if \<not> is_oauth2 a then (Inr False, st)
      else if (case failed of Some g \<Rightarrow> g \<noteq> generation st | None \<Rightarrow> False) then (Inr True, st)
      else if cached st = None then (Inr False, st)
      else (Inr True, st\<lparr>cached := None, generation := generation st + 1\<rparr>))"

section \<open>client.rs\<close>

definition pacing_floor :: "config \<Rightarrow> nanos" where
  "pacing_floor c = from_millis (min_request_interval_ms c)"

definition retry_after_cap :: "config \<Rightarrow> nanos" where
  "retry_after_cap c = from_secs (retry_after_cap_secs c)"

definition pace :: "'w net \<Rightarrow> config \<Rightarrow> ('w, unit) client_action" where
  "pace net c st =
     (if pacing_floor c = 0 then (Inr (), st)
      else
        (let w = (case last_request_at st of
             None \<Rightarrow> the_world st
           | Some at \<Rightarrow>
               (let elapsed = instant_now net (the_world st) - at in
                if elapsed < pacing_floor c then sleep net (pacing_floor c - elapsed) (the_world st) else the_world st)) in
         (Inr (), st\<lparr>the_world := w, last_request_at := Some (instant_now net w)\<rparr>)))"

definition has_header :: "string \<Rightarrow> http_request \<Rightarrow> bool" where
  "has_header name rq \<longleftrightarrow>
     (let n = to_ascii_lowercase name in
      n \<in> to_ascii_lowercase ` fst ` set (rq_headers rq) \<or>
      n = ''authorization'' \<and> rq_credential rq \<noteq> None \<or> n = ''content-type'' \<and> rq_json rq \<noteq> None)"

fun default_headers :: "(string \<times> string) list \<Rightarrow> http_request \<Rightarrow> http_request" where
  "default_headers [] rq = rq"
| "default_headers ((name, v) # hs) rq =
     default_headers hs (if has_header name rq then rq else rq\<lparr>rq_headers := rq_headers rq @ [(name, v)]\<rparr>)"

definition apply_defaults :: "'w net \<Rightarrow> config \<Rightarrow> http_request \<Rightarrow> http_request" where
  "apply_defaults net c rq =
     (let rq = default_headers (c_headers c) rq;
          existing = map fst (url_pairs net (rq_url rq) @ rq_query rq) in
      rq\<lparr>rq_query := rq_query rq @ filter (\<lambda>(name, _). name \<notin> set existing) (c_params c)\<rparr>)"

definition run_execute :: "'w net \<Rightarrow> http_request \<Rightarrow> ('w, response) client_action" where
  "run_execute net rq st =
     (case execute net rq (the_world st) of
        (Inl e, w) \<Rightarrow> (Inl (STransient e), st\<lparr>the_world := w\<rparr>)
      | (Inr resp, w) \<Rightarrow> (Inr resp, st\<lparr>the_world := w\<rparr>))"

text \<open>The two reasons to go round the loop again; \<open>again\<close> is the rest of the loop.\<close>

definition retry_rate_limit :: "'w net \<Rightarrow> config \<Rightarrow> bool \<Rightarrow> response \<Rightarrow> ('w, response) client_action \<Rightarrow> ('w, response) client_action" where
  "retry_rate_limit net c rate_limit_waited resp again st =
     (if \<not> rate_limit_waited \<and> (r_status resp = 429 \<or> r_status resp = 503) then
        (case server_retry_after (parse_http_date net) (system_now net (the_world st)) resp of
           Some wait \<Rightarrow>
             (if wait \<le> retry_after_cap c then again (st\<lparr>the_world := sleep net wait (the_world st)\<rparr>)
              else (Inr resp, st))
         | None \<Rightarrow> (Inr resp, st))
      else (Inr resp, st))"

definition retry_unauthorized :: "config \<Rightarrow> bool \<Rightarrow> 64 word option \<Rightarrow> response \<Rightarrow> ('w, response) client_action \<Rightarrow> ('w, response) client_action \<Rightarrow> ('w, response) client_action" where
  "retry_unauthorized c auth_retried gen resp again otherwise =
     (if r_status resp = 401 \<and> \<not> auth_retried
      then abind (on_unauthorized (auth_scheme c) gen) (\<lambda>retry. if retry then again else otherwise)
      else otherwise)"

lemma retry_rate_limit_cong [fundef_cong]:
  "net = net' \<Longrightarrow> c = c' \<Longrightarrow> waited = waited' \<Longrightarrow> resp = resp' \<Longrightarrow> (\<not> waited' \<Longrightarrow> again = again') \<Longrightarrow>
    retry_rate_limit net c waited resp again = retry_rate_limit net' c' waited' resp' again'"
  by (auto simp: retry_rate_limit_def fun_eq_iff split: option.splits)

lemma retry_unauthorized_cong [fundef_cong]:
  "c = c' \<Longrightarrow> retried = retried' \<Longrightarrow> gen = gen' \<Longrightarrow> resp = resp' \<Longrightarrow> (\<not> retried' \<Longrightarrow> again = again') \<Longrightarrow>
    otherwise = otherwise' \<Longrightarrow>
    retry_unauthorized c retried gen resp again otherwise = retry_unauthorized c' retried' gen' resp' again' otherwise'"
  by (auto simp: retry_unauthorized_def)

lemma abind_cong [fundef_cong]: "m = m' \<Longrightarrow> (\<And>a. k a = k' a) \<Longrightarrow> abind m k = abind m' k'"
  by (metis ext)

definition check_build :: "'w net \<Rightarrow> http_request \<Rightarrow> (source_error, unit) result" where
  "check_build net rq = (case build_error net rq of Some e \<Rightarrow> Inl (SFatal (''request build: '' @ e)) | None \<Rightarrow> Inr ())"

function send_loop :: "'w net \<Rightarrow> config \<Rightarrow> http_request \<Rightarrow> bool \<Rightarrow> bool \<Rightarrow> ('w, response) client_action" where
  "send_loop net c rq rate_limit_waited auth_retried =
     abind (pace net c) (\<lambda>_.
     abind (attach net (auth_scheme c) rq) (\<lambda>(request, gen).
     abind (alift (check_build net request)) (\<lambda>_.
     abind (run_execute net (apply_defaults net c request)) (\<lambda>resp.
     if is_success (r_status resp) then aret resp
     else retry_unauthorized c auth_retried gen resp (send_loop net c rq rate_limit_waited True)
       (retry_rate_limit net c rate_limit_waited resp (send_loop net c rq True auth_retried))))))"
  by pat_completeness auto
termination
  by (relation "measure (\<lambda>(net, c, rq, waited, retried). (if waited then 0 else 1) + (if retried then 0 else (1 :: nat)))") auto

declare send_loop.simps [simp del]

definition client_send :: "'w net \<Rightarrow> config \<Rightarrow> http_request \<Rightarrow> ('w, response) client_action" where
  "client_send net c rq = send_loop net c rq False False"

section \<open>What one send may do\<close>

text \<open>The traffic of a client: a network that also records what it was asked to do.\<close>

datatype traffic = Sent http_request | TokenPost | Slept nanos

definition logged :: "'w net \<Rightarrow> ('w \<times> traffic list) net" where
  "logged net = \<lparr>
     execute = (\<lambda>rq (w, l). case execute net rq w of (r, w') \<Rightarrow> (r, w', l @ [Sent rq])),
     post_form = (\<lambda>url form (w, l). case post_form net url form w of (r, w') \<Rightarrow> (r, w', l @ [TokenPost])),
     sleep = (\<lambda>d (w, l). (sleep net d w, l @ [Slept d])),
     instant_now = (\<lambda>(w, l). instant_now net w),
     system_now = (\<lambda>(w, l). system_now net w),
     parse_http_date = parse_http_date net,
     url_pairs = url_pairs net,
     status_text = status_text net,
     build_error = build_error net,
     token_json = token_json net\<rparr>"

definition sent_count :: "traffic list \<Rightarrow> nat" where
  "sent_count l = length (filter (\<lambda>t. case t of Sent _ \<Rightarrow> True | _ \<Rightarrow> False) l)"

definition token_count :: "traffic list \<Rightarrow> nat" where
  "token_count l = length (filter (\<lambda>t. t = TokenPost) l)"

definition slept_time :: "traffic list \<Rightarrow> nanos" where
  "slept_time l = sum_list (map (\<lambda>t. case t of Slept d \<Rightarrow> d | _ \<Rightarrow> 0) l)"

text \<open>The cost of an action: at most so many requests, token fetches and time asleep.\<close>

definition spends :: "nat \<Rightarrow> nat \<Rightarrow> nanos \<Rightarrow> ('w \<times> traffic list, 'a) client_action \<Rightarrow> bool" where
  "spends a b d m \<longleftrightarrow> (\<forall>st. \<exists>l. snd (the_world (snd (m st))) = snd (the_world st) @ l \<and>
     sent_count l \<le> a \<and> token_count l \<le> b \<and> slept_time l \<le> d)"

named_theorems spends_intros \<open>costs of client actions\<close>

lemma counts_simps [simp]:
  "sent_count [] = 0" "token_count [] = 0" "slept_time [] = 0"
  "sent_count (l @ l') = sent_count l + sent_count l'" "token_count (l @ l') = token_count l + token_count l'"
  "slept_time (l @ l') = slept_time l + slept_time l'"
  "sent_count [Sent rq] = 1" "sent_count [TokenPost] = 0" "sent_count [Slept t] = 0"
  "token_count [Sent rq] = 0" "token_count [TokenPost] = 1" "token_count [Slept t] = 0"
  "slept_time [Sent rq] = 0" "slept_time [TokenPost] = 0" "slept_time [Slept t] = t"
  by (simp_all add: sent_count_def token_count_def slept_time_def)

lemma counts_Cons:
  "sent_count (t # l) = sent_count [t] + sent_count l" "token_count (t # l) = token_count [t] + token_count l"
  "slept_time (t # l) = slept_time [t] + slept_time l"
  by (simp_all add: sent_count_def token_count_def slept_time_def)

lemma spendsI:
  "(\<And>st. \<exists>l. snd (the_world (snd (m st))) = snd (the_world st) @ l \<and> sent_count l \<le> a \<and> token_count l \<le> b \<and> slept_time l \<le> d) \<Longrightarrow>
    spends a b d m"
  by (simp add: spends_def)

lemma spends_quiet [spends_intros]: "spends a b d (aret x)" "spends a b d (afail e)" "spends a b d (alift r)"
  by (simp_all add: spends_def)

lemma spends_abind:
  assumes "spends a b d m" "\<And>x. spends a' b' d' (k x)"
  shows "spends (a + a') (b + b') (d + d') (abind m k)"
proof (rule spendsI)
  fix st
  obtain r st' where m: "m st = (r, st')" by force
  from assms(1) obtain l where l: "snd (the_world st') = snd (the_world st) @ l" "sent_count l \<le> a" "token_count l \<le> b" "slept_time l \<le> d"
    unfolding spends_def by (metis m snd_conv)
  show "\<exists>l. snd (the_world (snd (abind m k st))) = snd (the_world st) @ l \<and>
      sent_count l \<le> a + a' \<and> token_count l \<le> b + b' \<and> slept_time l \<le> d + d'"
  proof (cases r)
    case (Inl e)
    with l m show ?thesis by (intro exI [of _ l]) (auto simp: abind_def)
  next
    case (Inr x)
    from assms(2) [of x] obtain l' where "snd (the_world (snd (k x st'))) = snd (the_world st') @ l'"
      "sent_count l' \<le> a'" "token_count l' \<le> b'" "slept_time l' \<le> d'" unfolding spends_def by blast
    with l m Inr show ?thesis by (intro exI [of _ "l @ l'"]) (auto simp: abind_def)
  qed
qed

lemma spends_more: "spends a b d m \<Longrightarrow> a \<le> a' \<Longrightarrow> b \<le> b' \<Longrightarrow> d \<le> d' \<Longrightarrow> spends a' b' d' m"
  unfolding spends_def by (meson order_trans)

lemma spends_pace: "spends 0 0 (pacing_floor c) (pace (logged net) c)" for net :: "'w net"
proof (rule spendsI)
  fix st :: "('w \<times> traffic list) client"
  obtain w l where st: "the_world st = (w, l)" by force
  show "\<exists>l. snd (the_world (snd (pace (logged net) c st))) = snd (the_world st) @ l \<and>
      sent_count l \<le> 0 \<and> token_count l \<le> 0 \<and> slept_time l \<le> pacing_floor c"
    using st by (auto simp: pace_def logged_def Let_def split: option.splits)
qed

lemma fetch_token_log: "snd (the_world (snd (fetch_token (logged net) a st))) = snd (the_world st) @ [TokenPost]"
  by (cases "the_world st")
    (auto simp: fetch_token_def logged_def Let_def split: prod.splits sum.splits)

lemma spends_attach: "spends 0 1 0 (attach (logged net) a rq)" for net :: "'w net"
proof -
  have token: "spends 0 1 0 (current_token (logged net) a)"
  proof (rule spendsI)
    fix st :: "('w \<times> traffic list) client"
    show "\<exists>l. snd (the_world (snd (current_token (logged net) a st))) = snd (the_world st) @ l \<and>
        sent_count l \<le> 0 \<and> token_count l \<le> 1 \<and> slept_time l \<le> 0"
    proof (cases "snd (current_token (logged net) a st) = st")
      case False
      then have "current_token (logged net) a st = fetch_token (logged net) a st"
        by (auto simp: current_token_def split: option.splits if_splits)
      then show ?thesis using fetch_token_log [of net a st] by (intro exI [of _ "[TokenPost]"]) simp
    qed simp
  qed
  have "spends 0 0 0 (case tg of (token, gen) \<Rightarrow> aret (f token gen))" for tg f
    by (cases tg) (simp add: spends_quiet)
  from spends_abind [OF token this] show ?thesis
    by (cases a) (auto simp: attach_def spends_quiet split: key_location.splits)
qed

lemma spends_execute: "spends 1 0 0 (run_execute (logged net) rq)" for net :: "'w net"
proof (rule spendsI)
  fix st :: "('w \<times> traffic list) client"
  show "\<exists>l. snd (the_world (snd (run_execute (logged net) rq st))) = snd (the_world st) @ l \<and>
      sent_count l \<le> 1 \<and> token_count l \<le> 0 \<and> slept_time l \<le> 0"
    by (cases "the_world st") (auto simp: run_execute_def logged_def split: prod.splits sum.splits intro: exI [of _ "[Sent rq]"])
qed

lemma spends_unauthorized: "spends 0 0 0 (on_unauthorized a g)"
  by (simp add: spends_def on_unauthorized_def)

lemma spends_retry_unauthorized:
  assumes "\<not> retried \<Longrightarrow> spends a b d again" "spends a b d otherwise"
  shows "spends a b d (retry_unauthorized c retried gen resp again otherwise)"
  using assms spends_abind [OF spends_unauthorized, of a b d "\<lambda>retry. if retry then again else otherwise" "auth_scheme c" gen]
  by (auto simp: retry_unauthorized_def)

lemma logged_simps:
  "sleep (logged net) d (w, l) = (sleep net d w, l @ [Slept d])"
  "system_now (logged net) (w, l) = system_now net w"
  "parse_http_date (logged net) = parse_http_date net"
  by (simp_all add: logged_def)

lemma spends_retry_rate_limit:
  fixes net :: "'w net"
  assumes "\<not> waited \<Longrightarrow> spends a b d again"
  shows "spends a b (d + (if waited then 0 else retry_after_cap c)) (retry_rate_limit (logged net) c waited resp again)"
proof (rule spendsI)
  fix st :: "('w \<times> traffic list) client"
  obtain w l where st: "the_world st = (w, l)" by force
  let ?out = "retry_rate_limit (logged net) c waited resp again st"
  show "\<exists>l. snd (the_world (snd ?out)) = snd (the_world st) @ l \<and>
      sent_count l \<le> a \<and> token_count l \<le> b \<and> slept_time l \<le> d + (if waited then 0 else retry_after_cap c)"
  proof (cases "?out = (Inr resp, st)")
    case False
    then obtain wait where fresh: "\<not> waited" and le: "wait \<le> retry_after_cap c"
      and out: "?out = again (st\<lparr>the_world := (sleep net wait w, l @ [Slept wait])\<rparr>)" (is "_ = again ?st")
      using st by (auto simp: retry_rate_limit_def logged_simps split: if_splits option.splits)
    obtain l' where l': "snd (the_world (snd (again ?st))) = snd (the_world ?st) @ l'"
      and costs: "sent_count l' \<le> a" "token_count l' \<le> b" "slept_time l' \<le> d"
      using assms [OF fresh] unfolding spends_def by blast
    have "snd (the_world (snd ?out)) = snd (the_world st) @ Slept wait # l'"
      unfolding out l' using st by simp
    moreover have "sent_count (Slept wait # l') \<le> a" "token_count (Slept wait # l') \<le> b"
      "slept_time (Slept wait # l') \<le> d + retry_after_cap c"
      using costs le counts_Cons [of "Slept wait" l'] by simp_all
    ultimately show ?thesis using fresh by (intro exI [of _ "Slept wait # l'"]) simp
  qed simp
qed

text \<open>Iterations left, and what they may cost.\<close>

definition rounds :: "bool \<Rightarrow> bool \<Rightarrow> nat" where
  "rounds waited retried = 1 + (if waited then 0 else 1) + (if retried then 0 else 1)"

lemma rounds_fresh: "rounds False False = 3"
  by (simp add: rounds_def)

lemma spends_send_loop:
  fixes net :: "'w net"
  shows "spends (rounds waited retried) (rounds waited retried)
    (rounds waited retried * pacing_floor c + (if waited then 0 else retry_after_cap c))
    (send_loop (logged net) c rq waited retried)"
proof (induction "logged net" c rq waited retried rule: send_loop.induct)
  case (1 c rq waited retried)
  let ?n = "rounds waited retried - 1"
  let ?cap = "if waited then 0 else retry_after_cap c"
  have again: "spends ?n ?n (?n * pacing_floor c + ?cap)
      (retry_unauthorized c retried gen resp (send_loop (logged net) c rq waited True)
        (retry_rate_limit (logged net) c waited resp (send_loop (logged net) c rq True retried)))" if ns: "\<not> is_success (r_status resp)" for gen resp
  proof (rule spends_retry_unauthorized)
    show "spends ?n ?n (?n * pacing_floor c + ?cap) (send_loop (logged net) c rq waited True)" if "\<not> retried"
      using "1.hyps"(1) [OF refl ns that] that by (cases waited) (simp_all add: rounds_def)
    have "spends ?n ?n (?n * pacing_floor c) (send_loop (logged net) c rq True retried)" if "\<not> waited"
      using "1.hyps"(2) [OF refl ns that] that by (cases retried) (simp_all add: rounds_def)
    from spends_retry_rate_limit [OF this]
    show "spends ?n ?n (?n * pacing_floor c + ?cap)
        (retry_rate_limit (logged net) c waited resp (send_loop (logged net) c rq True retried))" .
  qed
  have body: "spends (1 + ?n) ?n (?n * pacing_floor c + ?cap)
      (abind (run_execute (logged net) (apply_defaults (logged net) c request)) (\<lambda>resp.
        if is_success (r_status resp) then aret resp
        else retry_unauthorized c retried gen resp (send_loop (logged net) c rq waited True)
          (retry_rate_limit (logged net) c waited resp (send_loop (logged net) c rq True retried))))" for request gen
  proof -
    have "spends (1 + ?n) (0 + ?n) (0 + (?n * pacing_floor c + ?cap))
      (abind (run_execute (logged net) (apply_defaults (logged net) c request)) (\<lambda>resp.
        if is_success (r_status resp) then aret resp
        else retry_unauthorized c retried gen resp (send_loop (logged net) c rq waited True)
          (retry_rate_limit (logged net) c waited resp (send_loop (logged net) c rq True retried))))"
    proof (rule spends_abind [OF spends_execute])
      fix resp
      show "spends ?n ?n (?n * pacing_floor c + ?cap)
        (if is_success (r_status resp) then aret resp
         else retry_unauthorized c retried gen resp (send_loop (logged net) c rq waited True)
           (retry_rate_limit (logged net) c waited resp (send_loop (logged net) c rq True retried)))"
        using again [of resp gen] by (cases "is_success (r_status resp)") (simp_all only: if_True if_False spends_quiet not_False_eq_True simp_thms)
    qed
    then show ?thesis by simp
  qed
  have step: "spends (0 + (1 + ?n)) (0 + ?n) (0 + (?n * pacing_floor c + ?cap))
      (case rg of (request, gen) \<Rightarrow> abind (alift (check_build (logged net) request)) (\<lambda>_.
        abind (run_execute (logged net) (apply_defaults (logged net) c request)) (\<lambda>resp.
        if is_success (r_status resp) then aret resp
        else retry_unauthorized c retried gen resp (send_loop (logged net) c rq waited True)
          (retry_rate_limit (logged net) c waited resp (send_loop (logged net) c rq True retried)))))" for rg
    by (cases rg, simp only: prod.case) (rule spends_abind [OF spends_quiet(3) body])
  have "spends (0 + (0 + (0 + (1 + ?n)))) (0 + (1 + (0 + ?n))) (pacing_floor c + (0 + (0 + (?n * pacing_floor c + ?cap))))
      (send_loop (logged net) c rq waited retried)"
    unfolding send_loop.simps [of "logged net" c rq waited retried]
    by (rule spends_abind [OF spends_pace spends_abind [OF spends_attach step]])
  moreover obtain k where "rounds waited retried = Suc k" by (simp add: rounds_def)
  ultimately show ?case by (auto elim!: spends_more simp: algebra_simps)
qed

text \<open>
  C24. One send makes at most three requests and three token fetches, and sleeps at most three
  pacing intervals and one capped \<^verbatim>\<open>Retry-After\<close>: the loop is never free.
\<close>

theorem send_bounded:
  "\<exists>l. snd (the_world (snd (client_send (logged net) c rq st))) = snd (the_world st) @ l \<and>
     sent_count l \<le> 3 \<and> token_count l \<le> 3 \<and> slept_time l \<le> 3 * pacing_floor c + retry_after_cap c"
proof -
  have "spends 3 3 (3 * pacing_floor c + retry_after_cap c) (client_send (logged net) c rq)"
    using spends_send_loop [of False False c net rq] by (simp add: client_send_def rounds_fresh)
  then show ?thesis unfolding spends_def by blast
qed

end
