(* ===== verification/Rest_Sequence.thy ===== *)
theory Rest_Sequence
  imports Rest_Paginate Rest_Page Rest_Http
begin

text \<open>
  \<^verbatim>\<open>crates/rdlt-connector-rest/src/source/read/sequence.rs\<close>: one paginated sequence of
  requests, with the repeated-request guard, the page bound and the origin pin, and the
  \<open>loop\<close> that \<^verbatim>\<open>delivery.rs\<close> and \<^verbatim>\<open>fanout.rs\<close> run over it. The HTTP client is the
  argument \<open>snd_rq\<close>, an action on a world \<open>'w\<close>; \<open>env\<close> holds the configuration and the
  libraries.
\<close>

section \<open>The sequence\<close>

type_synonym params = "(string \<times> string) list"

record ('u, 'w) env =
  conf :: config
  web :: "'u web"
  sd :: serde
  fingerprint :: "string \<times> params \<times> params \<Rightarrow> 64 word"
  debug_params :: "params \<Rightarrow> string"
  utf8_lossy :: "string \<Rightarrow> string"
  show_status :: "nat \<Rightarrow> string"
  http_date :: "string \<Rightarrow> nanos option"
  wall_clock :: "'w \<Rightarrow> nanos"

record sequence =
  sq_stream :: stream
  sq_pager :: paginator
  sq_parent :: "parent_values option"
  needs_values :: bool
  extra_params :: params
  page_params :: params
  url_override :: "string option"
  seen_requests :: "64 word set"
  pages :: nat
  sq_total_records :: nat
  last_body :: "json option"
  last_header :: "string \<Rightarrow> string option"
  ended :: bool

definition new_sequence :: "stream \<Rightarrow> paginator \<Rightarrow> bool \<Rightarrow> parent_values option \<Rightarrow> sequence" where
  "new_sequence s pg values parent = \<lparr>
     sq_stream = s, sq_pager = pg, sq_parent = parent, needs_values = values, extra_params = [],
     page_params = initial_params pg, url_override = None, seen_requests = {}, pages = 0,
     sq_total_records = 0, last_body = None, last_header = (\<lambda>_. None), ended = False\<rparr>"

definition bind_incremental :: "incremental option \<Rightarrow> string option \<Rightarrow> sequence \<Rightarrow> sequence" where
  "bind_incremental inc start_value sq =
     (case inc of
        None \<Rightarrow> sq
      | Some i \<Rightarrow>
          sq\<lparr>extra_params := extra_params sq @
            (case (start_param i, start_value) of (Some p, Some v) \<Rightarrow> [(p, v)] | _ \<Rightarrow> []) @
            (case (end_param i, end_value i) of (Some p, Some v) \<Rightarrow> [(p, v)] | _ \<Rightarrow> [])\<rparr>)"

definition trim_end_slashes :: "string \<Rightarrow> string" where
  "trim_end_slashes s = rev (dropWhile (\<lambda>c. c = CHR ''/'') (rev s))"

definition join_base_url :: "string \<Rightarrow> string \<Rightarrow> string" where
  "join_base_url base path = trim_end_slashes base @ ''/'' @ dropWhile (\<lambda>c. c = CHR ''/'') path"

definition pin_next_url :: "'u web \<Rightarrow> string \<Rightarrow> string \<Rightarrow> (string, string) result" where
  "pin_next_url lib base next_text =
     (case url_parse lib next_text of
        Inl e \<Rightarrow> Inl (''pagination next-url does not parse: '' @ e)
      | Inr next_url \<Rightarrow>
          (case url_parse lib base of
             Inl e \<Rightarrow> Inl (''base_url does not parse: '' @ e)
           | Inr b \<Rightarrow>
               if same_origin lib b next_url then Inr (url_text lib next_url)
               else Inl (''pagination next-url leaves the source origin ('' @
                 (case host_str lib next_url of Some h \<Rightarrow> h | None \<Rightarrow> ''<unparsed>'') @
                 ''): credentials are pinned to the configured base_url, so the host the response named is refused'')))"

definition sequence_url :: "('u, 'w) env \<Rightarrow> sequence \<Rightarrow> string" where
  "sequence_url env sq =
     (case url_override sq of
        Some url \<Rightarrow> url
      | None \<Rightarrow> join_base_url (base_url (conf env))
          (case sq_parent sq of
             Some v \<Rightarrow> substitute_path (s_path (sq_stream sq)) (pv_placeholders v)
           | None \<Rightarrow> s_path (sq_stream sq)))"

definition build_page_request :: "stream \<Rightarrow> string \<Rightarrow> params \<Rightarrow> params \<Rightarrow> params option \<Rightarrow> http_request" where
  "build_page_request s url page_ps extra_ps values =
     (let substituted = map (\<lambda>(name, v). (name, case values of Some vs \<Rightarrow> substitute v vs | None \<Rightarrow> v)) (s_params s);
          rq = \<lparr>rq_method = s_method s, rq_url = url, rq_headers = s_headers s,
                rq_query = substituted @ extra_ps, rq_json = None, rq_credential = None\<rparr> in
      case (s_method s, s_body s) of
        (Post, Some body) \<Rightarrow>
          (let body = (case values of Some vs \<Rightarrow> substitute_body body vs | None \<Rightarrow> body) in
           rq\<lparr>rq_json := Some (case body of
                VObject m \<Rightarrow> VObject (fold (\<lambda>(name, v) m. obj_insert name (VString v) m) page_ps m)
              | _ \<Rightarrow> body)\<rparr>)
      | _ \<Rightarrow> rq\<lparr>rq_query := rq_query rq @ page_ps\<rparr>)"

definition ACTION_WINDOW :: nat where "ACTION_WINDOW = 64 * 1024"

definition match_action :: "(string \<Rightarrow> string) \<Rightarrow> response_action list \<Rightarrow> nat \<Rightarrow> string \<Rightarrow> response_action option" where
  "match_action lossy actions status body =
     find (\<lambda>a. (case on_status a of None \<Rightarrow> True | Some declared \<Rightarrow> declared = status) \<and>
               (case content_contains a of None \<Rightarrow> True | Some needle \<Rightarrow> contains needle (lossy (take ACTION_WINDOW body))))
       actions"

definition stream_error :: "sequence \<Rightarrow> string \<Rightarrow> source_error" where
  "stream_error sq message = SFatal (''stream `'' @ s_name (sq_stream sq) @ ''`: '' @ message)"

definition apply_action :: "('u, 'w) env \<Rightarrow> action_kind \<Rightarrow> nat \<Rightarrow> string \<Rightarrow> sequence \<Rightarrow> (source_error, page option) result \<times> sequence" where
  "apply_action env k status body sq =
     (case k of
        ErrorAction \<Rightarrow> (Inl (stream_error sq (''declared error action matched (HTTP '' @ show_status env status @ '')'')), sq)
      | EndStream \<Rightarrow> (Inr None, sq\<lparr>ended := True\<rparr>)
      | Ignore \<Rightarrow>
          (Inr (Some empty_page),
           sq\<lparr>last_body := (if needs_body (sq_pager sq)
                then (case from_slice (sd env) body of Inr v \<Rightarrow> Some v | Inl _ \<Rightarrow> None) else None)\<rparr>))"

text \<open>What a response's body becomes, once it is read.\<close>

definition accept_response :: "('u, 'w) env \<Rightarrow> selector option \<Rightarrow> nanos \<Rightarrow> response \<Rightarrow> string \<Rightarrow> sequence \<Rightarrow> (source_error, page option) result \<times> sequence" where
  "accept_response env sel now resp body sq =
     (case match_action (utf8_lossy env) (s_response_actions (sq_stream sq)) (r_status resp) body of
        Some a \<Rightarrow> apply_action env (kind a) (r_status resp) body (sq\<lparr>last_header := r_header resp\<rparr>)
      | None \<Rightarrow>
          if \<not> is_success (r_status resp)
          then (Inl (classify_status (show_status env) (r_status resp) (server_retry_after (http_date env) now resp)), sq)
          else
            (case extract_page (sd env) body sel (needs_values sq) of
               Inl e \<Rightarrow> (Inl e, sq)
             | Inr p \<Rightarrow>
                 (let sq = sq\<lparr>sq_total_records := sq_total_records sq + pg_count p, last_header := r_header resp\<rparr> in
                  if needs_body (sq_pager sq) then
                    (case parse_body (sd env) body of
                       Inl e \<Rightarrow> (Inl e, sq)
                     | Inr v \<Rightarrow> (Inr (Some p), sq\<lparr>last_body := Some v\<rparr>))
                  else (Inr (Some p), sq\<lparr>last_body := None\<rparr>))))"

type_synonym 'w sender = "http_request \<Rightarrow> ('w, source_error, response) action"

definition request_key :: "('u, 'w) env \<Rightarrow> sequence \<Rightarrow> string \<times> params \<times> params" where
  "request_key env sq = (sequence_url env sq, page_params sq, extra_params sq)"

definition sequence_request :: "('u, 'w) env \<Rightarrow> sequence \<Rightarrow> http_request" where
  "sequence_request env sq =
     build_page_request (sq_stream sq) (sequence_url env sq) (page_params sq) (extra_params sq)
       (map_option pv_placeholders (sq_parent sq))"

text \<open>The two guards in front of a request.\<close>

definition admit_request :: "('u, 'w) env \<Rightarrow> sequence \<Rightarrow> (source_error, unit) result \<times> sequence" where
  "admit_request env sq =
     (let f = fingerprint env (request_key env sq) in
      if f \<in> seen_requests sq then
        (Inl (stream_error sq (''paginator produced the SAME request twice (page '' @ show_nat (pages sq) @
           '', params '' @ debug_params env (page_params sq) @ '') '' @ em_dash @
           '' the API is not advancing; check the pagination config'')), sq)
      else
        (let sq = sq\<lparr>seen_requests := insert f (seen_requests sq)\<rparr> in
         if pages sq \<ge> max_pages (conf env) then
           (Inl (stream_error sq (''exceeded max_pages ('' @ show_nat (max_pages (conf env)) @ '') '' @ em_dash @
              '' raise `max_pages` if the stream is genuinely this long'')), sq)
         else (Inr (), sq\<lparr>pages := pages sq + 1\<rparr>)))"

definition fetch_page :: "('u, 'w) env \<Rightarrow> 'w sender \<Rightarrow> selector option \<Rightarrow> ('w \<times> sequence, source_error, page option) action" where
  "fetch_page env snd_rq sel = (\<lambda>(w, sq).
     if ended sq then (Inr None, w, sq)
     else
       (case admit_request env sq of
          (Inl e, sq') \<Rightarrow> (Inl e, w, sq')
        | (Inr _, sq') \<Rightarrow>
            (case snd_rq (sequence_request env sq') w of
               (Inl e, w') \<Rightarrow> (Inl e, w', sq')
             | (Inr resp, w') \<Rightarrow>
                 (case r_body resp of
                    Inl e \<Rightarrow> (Inl (STransient e), w', sq')
                  | Inr body \<Rightarrow>
                      (case accept_response env sel (wall_clock env w') resp body sq' of
                         (r, sq'') \<Rightarrow> (r, w', sq''))))))"

definition starts_absolute :: "string \<Rightarrow> bool" where
  "starts_absolute url \<longleftrightarrow> starts_with ''http://'' url \<or> starts_with ''https://'' url"

definition advance :: "('u, 'w) env \<Rightarrow> page \<Rightarrow> sequence \<Rightarrow> (source_error, bool) result \<times> sequence" where
  "advance env p sq =
     (if ended sq then (Inr False, sq)
      else
        (case decide (sq_pager sq) \<lparr>ctx_body = last_body sq, header_text = last_header sq,
            record_count = pg_count p, total_records = sq_total_records sq\<rparr> of
           Inl e \<Rightarrow> (Inl (stream_error sq (paginate_error_text e)), sq)
         | Inr (d, pg) \<Rightarrow>
             (let sq = sq\<lparr>sq_pager := pg\<rparr> in
              case d of
                Done \<Rightarrow> (Inr False, sq\<lparr>ended := True\<rparr>)
              | NextParams ps \<Rightarrow> (Inr True, sq\<lparr>page_params := ps, url_override := None\<rparr>)
              | NextUrlAt url \<Rightarrow>
                  (case (if starts_absolute url then pin_next_url (web env) (base_url (conf env)) url
                         else Inr (join_base_url (base_url (conf env)) url)) of
                     Inl reason \<Rightarrow> (Inl (stream_error sq reason), sq)
                   | Inr absolute \<Rightarrow> (Inr True, sq\<lparr>url_override := Some absolute, page_params := []\<rparr>)))))"

text \<open>
  The loop over a sequence: fetch, work on the page, advance. \<open>work\<close> acts on the reader's
  own state and says whether to stop. The first argument bounds the iterations; \<open>None\<close> is
  running out of them.
\<close>

fun page_loop :: "nat \<Rightarrow> ('u, 'w) env \<Rightarrow> 'w sender \<Rightarrow> selector option \<Rightarrow> (page \<Rightarrow> ('x, source_error, bool) action) \<Rightarrow>
    'w \<Rightarrow> sequence \<Rightarrow> 'x \<Rightarrow> ((source_error, unit) result \<times> 'w \<times> sequence \<times> 'x) option" where
  "page_loop 0 env snd_rq sel work w sq x = None"
| "page_loop (Suc n) env snd_rq sel work w sq x =
     (case fetch_page env snd_rq sel (w, sq) of
        (Inl e, w, sq) \<Rightarrow> Some (Inl e, w, sq, x)
      | (Inr None, w, sq) \<Rightarrow> Some (Inr (), w, sq, x)
      | (Inr (Some p), w, sq) \<Rightarrow>
          (case work p x of
             (Inl e, x) \<Rightarrow> Some (Inl e, w, sq, x)
           | (Inr True, x) \<Rightarrow> Some (Inr (), w, sq, x)
           | (Inr False, x) \<Rightarrow>
               (case advance env p sq of
                  (Inl e, sq) \<Rightarrow> Some (Inl e, w, sq, x)
                | (Inr False, sq) \<Rightarrow> Some (Inr (), w, sq, x)
                | (Inr True, sq) \<Rightarrow> page_loop n env snd_rq sel work w sq x)))"

section \<open>What a step changes\<close>

lemma apply_action_fields:
  assumes "apply_action env k s b sq = (r, sq')"
  shows "pages sq' = pages sq" "seen_requests sq' = seen_requests sq" "sq_stream sq' = sq_stream sq"
    "url_override sq' = url_override sq" "page_params sq' = page_params sq" "extra_params sq' = extra_params sq"
    "sq_parent sq' = sq_parent sq"
  using assms by (auto simp: apply_action_def split: action_kind.splits)

lemma accept_response_fields:
  assumes "accept_response env sel now resp body sq = (r, sq')"
  shows "pages sq' = pages sq \<and> seen_requests sq' = seen_requests sq \<and> sq_stream sq' = sq_stream sq \<and>
    url_override sq' = url_override sq \<and> page_params sq' = page_params sq \<and> extra_params sq' = extra_params sq \<and>
    sq_parent sq' = sq_parent sq"
proof (cases "match_action (utf8_lossy env) (s_response_actions (sq_stream sq)) (r_status resp) body")
  case None
  with assms show ?thesis
    by (auto simp: accept_response_def Let_def split: if_splits sum.splits)
next
  case (Some a)
  with assms have "apply_action env (kind a) (r_status resp) body (sq\<lparr>last_header := r_header resp\<rparr>) = (r, sq')"
    by (simp add: accept_response_def)
  from apply_action_fields [OF this] show ?thesis by simp
qed

lemma admit_request_ok:
  assumes "admit_request env sq = (Inr u, sq')"
  shows "fingerprint env (request_key env sq) \<notin> seen_requests sq \<and> pages sq < max_pages (conf env) \<and>
    sq' = sq\<lparr>seen_requests := insert (fingerprint env (request_key env sq)) (seen_requests sq), pages := pages sq + 1\<rparr>"
  using assms by (auto simp: admit_request_def Let_def split: if_splits)

lemma request_unmarked [simp]:
  "sequence_request env (sq\<lparr>seen_requests := f, pages := n\<rparr>) = sequence_request env sq"
  "request_key env (sq\<lparr>seen_requests := f, pages := n\<rparr>) = request_key env sq"
  "sequence_url env (sq\<lparr>seen_requests := f, pages := n\<rparr>) = sequence_url env sq"
  by (simp_all add: sequence_request_def request_key_def sequence_url_def split: option.split)

text \<open>A fetched page: the request was new, within the bound, and is now marked.\<close>

lemma fetch_page_some:
  assumes "fetch_page env snd_rq sel (w, sq) = (Inr (Some p), w', sq')"
  shows "pages sq < max_pages (conf env)" "pages sq' = pages sq + 1"
  using assms
  by (auto simp: fetch_page_def split: if_splits prod.splits sum.splits
      dest!: admit_request_ok accept_response_fields)

lemma advance_fields:
  assumes "advance env p sq = (r, sq')"
  shows "pages sq' = pages sq \<and> seen_requests sq' = seen_requests sq \<and> sq_stream sq' = sq_stream sq \<and>
    extra_params sq' = extra_params sq \<and> sq_parent sq' = sq_parent sq"
  using assms by (auto simp: advance_def Let_def split: if_splits sum.splits prod.splits decision.splits)

section \<open>Paging ends\<close>

text \<open>
  Whatever the API answers, the loop returns within \<^verbatim>\<open>max_pages\<close> pages: one iteration more
  than the pages left always suffices.
\<close>

lemma page_loop_ends:
  "max_pages (conf env) - pages sq < n \<Longrightarrow> \<exists>out. page_loop n env snd_rq sel work w sq x = Some out"
proof (induction n arbitrary: w sq x)
  case (Suc n)
  obtain r w' sq' where fetch: "fetch_page env snd_rq sel (w, sq) = (r, w', sq')" by (metis prod_cases3)
  show ?case
  proof (cases r)
    case (Inr pg)
    show ?thesis
    proof (cases pg)
      case (Some p)
      note left = fetch_page_some [OF fetch [unfolded Inr Some]]
      obtain rw x' where work: "work p x = (rw, x')" by force
      obtain ra sq'' where adv: "advance env p sq' = (ra, sq'')" by force
      from Suc.prems left advance_fields [OF adv] have "max_pages (conf env) - pages sq'' < n" by auto
      from Suc.IH [OF this, of w' x'] show ?thesis
        using fetch Inr Some work adv by (cases rw; cases ra) (auto split: bool.splits)
    qed (use fetch Inr in simp)
  qed (use fetch in simp)
qed simp

section \<open>What a sequence asks for\<close>

text \<open>A client that also records the requests it was handed.\<close>

definition log_sends :: "'w sender \<Rightarrow> ('w \<times> http_request list) sender" where
  "log_sends snd_rq = (\<lambda>rq (w, l). case snd_rq rq w of (r, w') \<Rightarrow> (r, w', l @ [rq]))"

text \<open>A URL on the configured origin: below \<^verbatim>\<open>base_url\<close>, or pinned to it.\<close>

definition on_origin :: "('u, 'w) env \<Rightarrow> string \<Rightarrow> bool" where
  "on_origin env url \<longleftrightarrow> (\<exists>path. url = join_base_url (base_url (conf env)) path) \<or>
     (\<exists>b n. url_parse (web env) (base_url (conf env)) = Inr b \<and> same_origin (web env) b n \<and> url = url_text (web env) n)"

definition request_of :: "sequence \<Rightarrow> string \<times> params \<Rightarrow> http_request" where
  "request_of sq k = build_page_request (sq_stream sq) (fst k) (snd k) (extra_params sq) (map_option pv_placeholders (sq_parent sq))"

definition asked :: "('u, 'w) env \<Rightarrow> stream \<Rightarrow> sequence \<Rightarrow> (string \<times> params) list \<Rightarrow> bool" where
  "asked env s sq ks \<longleftrightarrow> sq_stream sq = s \<and> distinct ks \<and> length ks = pages sq \<and> pages sq \<le> max_pages (conf env) \<and>
     (\<forall>(u, ps) \<in> set ks. on_origin env u \<and> fingerprint env (u, ps, extra_params sq) \<in> seen_requests sq) \<and>
     (\<forall>u. url_override sq = Some u \<longrightarrow> on_origin env u)"

lemma sequence_url_on_origin: "(\<And>u. url_override sq = Some u \<Longrightarrow> on_origin env u) \<Longrightarrow> on_origin env (sequence_url env sq)"
  by (cases "url_override sq") (auto simp: sequence_url_def on_origin_def)

lemma sequence_request_of: "sequence_request env sq = request_of sq (sequence_url env sq, page_params sq)"
  by (simp add: sequence_request_def request_of_def)

lemma request_of_cong:
  "sq_stream sq' = sq_stream sq \<Longrightarrow> extra_params sq' = extra_params sq \<Longrightarrow> sq_parent sq' = sq_parent sq \<Longrightarrow>
    request_of sq' = request_of sq"
  by (simp add: request_of_def fun_eq_iff)

lemma admit_asked:
  assumes "admit_request env sq = (Inr u, sq')" "asked env s sq ks"
  shows "asked env s sq' (ks @ [(sequence_url env sq, page_params sq)])"
proof -
  let ?k = "(sequence_url env sq, page_params sq)"
  note ok = admit_request_ok [OF assms(1)]
  have "?k \<notin> set ks"
    using ok assms(2) by (auto simp: asked_def request_key_def)
  moreover have "on_origin env (sequence_url env sq)"
    using assms(2) by (intro sequence_url_on_origin) (auto simp: asked_def)
  ultimately show ?thesis
    using ok assms(2) by (auto simp: asked_def request_key_def)
qed

lemma admit_refused_asked:
  "admit_request env sq = (Inl e, sq') \<Longrightarrow> asked env s sq ks \<Longrightarrow> asked env s sq' ks \<and> request_of sq' = request_of sq"
  by (auto simp: admit_request_def Let_def asked_def request_of_def fun_eq_iff split: if_splits)

lemma asked_cong:
  "asked env s sq ks \<Longrightarrow> pages sq' = pages sq \<and> seen_requests sq' = seen_requests sq \<and> extra_params sq' = extra_params sq \<and>
    sq_stream sq' = sq_stream sq \<Longrightarrow>
    (\<And>u. url_override sq' = Some u \<Longrightarrow> on_origin env u) \<Longrightarrow> asked env s sq' ks"
  by (auto simp: asked_def)

lemma fetch_asked:
  assumes "fetch_page env (log_sends snd_rq) sel ((w, l), sq) = (r, (w', l'), sq')" "asked env s sq ks" "l = map (request_of sq) ks"
  shows "\<exists>ks'. asked env s sq' ks' \<and> l' = map (request_of sq') ks'"
proof (cases "ended sq")
  case True
  with assms show ?thesis by (auto simp: fetch_page_def)
next
  case False
  obtain a sq1 where admit: "admit_request env sq = (a, sq1)" by force
  show ?thesis
  proof (cases a)
    case (Inl e)
    with assms False admit admit_refused_asked [OF admit [unfolded Inl] assms(2)] show ?thesis
      by (auto simp: fetch_page_def)
  next
    case (Inr u)
    let ?ks = "ks @ [(sequence_url env sq, page_params sq)]"
    note asked1 = admit_asked [OF admit [unfolded Inr] assms(2)]
    have sq1: "request_of sq1 = request_of sq" "sequence_request env sq1 = request_of sq (sequence_url env sq, page_params sq)"
      using admit_request_ok [OF admit [unfolded Inr]] by (auto simp: request_of_def sequence_request_def fun_eq_iff)
    have l1: "l @ [sequence_request env sq1] = map (request_of sq1) ?ks"
      using assms(3) sq1 by simp
    obtain rr w1 where send: "snd_rq (sequence_request env sq1) w = (rr, w1)" by force
    show ?thesis
    proof (cases "\<exists>resp body. rr = Inr resp \<and> r_body resp = Inr body")
      case False
      with assms(1) \<open>\<not> ended sq\<close> admit Inr send have "sq' = sq1 \<and> l' = l @ [sequence_request env sq1]"
        by (auto simp: fetch_page_def log_sends_def split: sum.splits)
      with asked1 l1 show ?thesis by metis
    next
      case True
      then obtain resp body where resp: "rr = Inr resp" "r_body resp = Inr body" by blast
      obtain rq sq2 where acc: "accept_response env sel (wall_clock env (w1, l @ [sequence_request env sq1])) resp body sq1 = (rq, sq2)" by force
      with assms(1) False admit Inr send resp have out: "sq' = sq2 \<and> l' = l @ [sequence_request env sq1]"
        by (auto simp: fetch_page_def log_sends_def)
      note same = accept_response_fields [OF acc]
      have "asked env s sq2 ?ks"
        using asked1 by (rule asked_cong) (use same asked1 in \<open>auto simp: asked_def\<close>)
      moreover have "request_of sq2 = request_of sq1" using same by (intro request_of_cong) auto
      ultimately show ?thesis using out l1 by metis
    qed
  qed
qed

lemma advance_asked:
  assumes "advance env p sq = (r, sq')" "asked env s sq ks"
  shows "asked env s sq' ks \<and> request_of sq' = request_of sq"
proof
  note same = advance_fields [OF assms(1)]
  then show "request_of sq' = request_of sq" by (intro request_of_cong) auto
  have "on_origin env u" if "url_override sq' = Some u" for u
    using assms that
    by (auto simp: advance_def Let_def asked_def on_origin_def pin_next_url_def
        split: if_splits sum.splits prod.splits decision.splits)
  with same assms(2) show "asked env s sq' ks" by (intro asked_cong [OF assms(2)]) auto
qed

lemma page_loop_asked:
  assumes "page_loop n env (log_sends snd_rq) sel work (w, l) sq x = Some (r, (w', l'), sq', x')"
    and "asked env s sq ks" "l = map (request_of sq) ks"
  shows "\<exists>ks'. asked env s sq' ks' \<and> l' = map (request_of sq') ks'"
  using assms
proof (induction n arbitrary: w l sq x ks)
  case (Suc n)
  obtain rf w1 l1 sq1 where fetch: "fetch_page env (log_sends snd_rq) sel ((w, l), sq) = (rf, (w1, l1), sq1)"
    by (metis surj_pair)
  obtain ks1 where ks1: "asked env s sq1 ks1" "l1 = map (request_of sq1) ks1"
    using fetch_asked [OF fetch Suc.prems(2,3)] by blast
  show ?case
  proof (cases "\<exists>p. rf = Inr (Some p) \<and> (\<exists>x1. work p x = (Inr False, x1))")
    case False
    with Suc.prems(1) fetch ks1 show ?thesis
      by (auto split: sum.splits option.splits prod.splits bool.splits)
  next
    case True
    then obtain p x1 where p: "rf = Inr (Some p)" "work p x = (Inr False, x1)" by blast
    obtain ra sq2 where adv: "advance env p sq1 = (ra, sq2)" by force
    have ks2: "asked env s sq2 ks1" "l1 = map (request_of sq2) ks1"
      using advance_asked [OF adv ks1(1)] ks1(2) by simp_all
    show ?thesis
    proof (cases "ra = Inr True")
      case True
      with Suc.prems(1) fetch p adv have "page_loop n env (log_sends snd_rq) sel work (w1, l1) sq2 x1 = Some (r, (w', l'), sq', x')"
        by simp
      from Suc.IH [OF this ks2] show ?thesis .
    next
      case False
      with Suc.prems(1) fetch p adv ks2 show ?thesis
        by (auto split: sum.splits bool.splits)
    qed
  qed
qed simp

lemma request_injective:
  assumes "s_method (sq_stream sq) = Get \<or> s_body (sq_stream sq) = None"
  shows "inj (request_of sq)"
proof (rule injI)
  fix k k' assume same: "request_of sq k = request_of sq k'"
  have q: "rq_url (request_of sq j) = fst j \<and> (\<exists>pre. rq_query (request_of sq j) = pre @ snd j \<and>
      pre = map (\<lambda>(name, v). (name, case map_option pv_placeholders (sq_parent sq) of Some vs \<Rightarrow> substitute v vs | None \<Rightarrow> v))
        (s_params (sq_stream sq)) @ extra_params sq)" for j
    using assms by (auto simp: request_of_def build_page_request_def Let_def split: http_method.splits option.splits)
  from q [of k] q [of k'] same show "k = k'" by (auto simp: prod_eq_iff)
qed

lemma new_sequence_asked:
  "asked env s (bind_incremental inc start (new_sequence s pg nv parent)) []"
  by (auto simp: asked_def new_sequence_def bind_incremental_def split: option.split)

text \<open>
  C15. Whatever the API answers: a sequence sends at most \<^verbatim>\<open>max_pages\<close> requests, every one to the
  configured origin, and, where the page parameters ride in the query, no request twice.
\<close>

theorem paging_requests:
  assumes "page_loop n env (log_sends snd_rq) sel work (w, []) (bind_incremental inc start (new_sequence s pg nv parent)) x
    = Some (r, (w', l), sq', x')"
  shows "length l \<le> max_pages (conf env) \<and> (\<forall>rq \<in> set l. on_origin env (rq_url rq)) \<and>
    (s_method s = Get \<or> s_body s = None \<longrightarrow> distinct l)"
proof -
  obtain ks where ks: "asked env s sq' ks" "l = map (request_of sq') ks"
    using page_loop_asked [OF assms new_sequence_asked] by auto
  have "rq_url (request_of sq' k) = fst k" for k
    by (auto simp: request_of_def build_page_request_def Let_def split: http_method.splits option.splits)
  moreover have "distinct l" if "s_method s = Get \<or> s_body s = None"
    using ks that request_injective [of sq'] by (auto simp: asked_def distinct_map intro: inj_on_subset)
  ultimately show ?thesis using ks by (auto simp: asked_def)
qed

end
