(* ===== verification/Rest_Delivery.thy ===== *)
theory Rest_Delivery
  imports Rest_Sequence
begin

text \<open>
  \<^verbatim>\<open>crates/rdlt-connector-rest/src/source/read/delivery.rs\<close> (a parentless stream into the
  feed, with a checkpoint per page) and \<^verbatim>\<open>fanout.rs\<close> (the parent pass, and the children
  under bounded concurrency, with one checkpoint at the end).
\<close>

section \<open>delivery.rs\<close>

definition stream_selector :: "stream \<Rightarrow> (source_error, selector option) result" where
  "stream_selector s =
     (case s_records_path s of
        None \<Rightarrow> Inr None
      | Some path \<Rightarrow> (case parse_selector path of Inl e \<Rightarrow> Inl (SFatal e) | Inr sel \<Rightarrow> Inr (Some sel)))"

definition observe_page :: "incremental option \<Rightarrow> page \<Rightarrow> string option \<Rightarrow> string option" where
  "observe_page inc p best = (case inc of Some i \<Rightarrow> observe (values_of p) (cursor_field i) best | None \<Rightarrow> best)"

text \<open>The body of \<open>deliver_sequence\<close>'s loop, on the cursor so far and the feed.\<close>

definition deliver_page :: "(feed \<Rightarrow> bool) \<Rightarrow> incremental option \<Rightarrow> page \<Rightarrow> (string option \<times> feed, source_error, bool) action" where
  "deliver_page closed inc p = (\<lambda>(best, out).
     if pg_count p > 0 then
       (let best = observe_page inc p best in
        case send closed (RawJson (pg_records p)) out of
          (True, out) \<Rightarrow> (Inr True, best, out)
        | (False, out) \<Rightarrow>
            (case (inc, best) of
               (Some _, Some m) \<Rightarrow> (case send closed (Checkpoint (VString m)) out of (broken, out) \<Rightarrow> (Inr broken, best, out))
             | _ \<Rightarrow> (Inr False, best, out)))
     else (Inr False, best, out))"

type_synonym ('w, 'x) delivered = "((source_error, unit) result \<times> 'w \<times> 'x) option"

definition deliver_sequence :: "nat \<Rightarrow> ('u, 'w) env \<Rightarrow> 'w sender \<Rightarrow> (feed \<Rightarrow> bool) \<Rightarrow> stream \<Rightarrow> incremental option \<Rightarrow>
    'w \<Rightarrow> string option \<times> feed \<Rightarrow> ('w, string option \<times> feed) delivered" where
  "deliver_sequence n env snd_rq closed s inc w st =
     (case stream_selector s of
        Inl e \<Rightarrow> Some (Inl e, w, st)
      | Inr sel \<Rightarrow>
          (case build_paginator (s_pagination s) of
             Inl e \<Rightarrow> Some (Inl (SFatal e), w, st)
           | Inr pg \<Rightarrow>
               map_option (\<lambda>(r, w, sq, st). (r, w, st))
                 (page_loop n env snd_rq sel (deliver_page closed inc) w
                   (bind_incremental inc (fst st) (new_sequence s pg (inc \<noteq> None) None)) st)))"

text \<open>The resume point: the committed cursor, or the configured first value.\<close>

definition start_cursor :: "json option \<Rightarrow> incremental option \<Rightarrow> string option" where
  "start_cursor since inc =
     (case Option.bind since render_scalar of
        Some v \<Rightarrow> Some v
      | None \<Rightarrow> Option.bind inc initial_value)"

definition find_parent :: "config \<Rightarrow> stream \<Rightarrow> parent_link \<Rightarrow> (source_error, stream) result" where
  "find_parent c s link =
     (case find_stream c (p_stream link) of
        Some p \<Rightarrow> Inr p
      | None \<Rightarrow> Inl (SFatal (''stream `'' @ s_name s @ ''`: parent stream `'' @ p_stream link @ ''` is not declared'')))"

section \<open>fanout.rs\<close>

definition collect_page :: "parent_link \<Rightarrow> page \<Rightarrow> (parent_values list, source_error, bool) action" where
  "collect_page link p into =
     (case collect_parent_values (values_of p) link of
        Inl e \<Rightarrow> (Inl e, into)
      | Inr vs \<Rightarrow> (Inr False, into @ vs))"

definition collect_parents :: "nat \<Rightarrow> ('u, 'w) env \<Rightarrow> 'w sender \<Rightarrow> stream \<Rightarrow> parent_link \<Rightarrow> 'w \<Rightarrow> ('w, parent_values list) delivered" where
  "collect_parents n env snd_rq parent_stream link w =
     (case stream_selector parent_stream of
        Inl e \<Rightarrow> Some (Inl e, w, [])
      | Inr sel \<Rightarrow>
          (case build_paginator (s_pagination parent_stream) of
             Inl e \<Rightarrow> Some (Inl (SFatal e), w, [])
           | Inr pg \<Rightarrow>
               map_option (\<lambda>(r, w, sq, into). (r, w, into))
                 (page_loop n env snd_rq sel (collect_page link) w (new_sequence parent_stream pg True None) [])))"

definition with_parent_context :: "source_error \<Rightarrow> string \<Rightarrow> parent_values \<Rightarrow> source_error" where
  "with_parent_context e name pv =
     (let context = ''child stream `'' @ name @ ''` failed for parent ('' @ describe_values (pv_placeholders pv) @ '')'' in
      case e of
        STransient inner \<Rightarrow> STransient (context @ '': '' @ inner)
      | SRateLimited retry_after source \<Rightarrow> SRateLimited retry_after (context @ '': '' @ source)
      | SFatal inner \<Rightarrow> SFatal (context @ '': '' @ inner))"

record child =
  ch_parent :: parent_values
  ch_seq :: sequence
  local_max :: "string option"
  offering :: "(page \<times> string) option"

datatype child_outcome = Continue child | Finish "(source_error, string option) result"

definition new_child :: "stream \<Rightarrow> incremental option \<Rightarrow> string option \<Rightarrow> parent_values \<Rightarrow> child_outcome" where
  "new_child s inc start_value pv =
     (case build_paginator (s_pagination s) of
        Inl e \<Rightarrow> Finish (Inl (with_parent_context (SFatal e) (s_name s) pv))
      | Inr pg \<Rightarrow> Continue \<lparr>ch_parent = pv,
          ch_seq = bind_incremental inc start_value (new_sequence s pg (inc \<noteq> None \<or> pv_include pv \<noteq> []) (Some pv)),
          local_max = start_value, offering = None\<rparr>)"

text \<open>The rows of a child page, with the parent's fields in them.\<close>

definition child_rows :: "serde \<Rightarrow> parent_values \<Rightarrow> page \<Rightarrow> (source_error, string) result" where
  "child_rows s pv p = (if pv_include pv = [] then Inr (pg_records p) else embed s (values_of p) (pv_include pv))"

text \<open>
  A child's loop between two waits on the channel: \<open>child_turn\<close> fetches a page and, when it has
  records, offers its rows to the channel (\<open>offering\<close>); once they are taken, \<open>child_advance\<close> goes
  on to the next page. A send has no failing branch: \<^verbatim>\<open>rx\<close> is only borrowed by the forwarding
  block, so the channel keeps its receiver until the join of both blocks returns, and the branch
  \<^verbatim>\<open>tx.send(..).await.is_err()\<close> is not taken.
\<close>

definition child_advance :: "('u, 'w) env \<Rightarrow> page \<Rightarrow> child \<Rightarrow> child_outcome" where
  "child_advance env p ch =
     (case advance env p (ch_seq ch) of
        (Inl e, _) \<Rightarrow> Finish (Inl (with_parent_context e (s_name (sq_stream (ch_seq ch))) (ch_parent ch)))
      | (Inr False, _) \<Rightarrow> Finish (Inr (local_max ch))
      | (Inr True, sq) \<Rightarrow> Continue (ch\<lparr>ch_seq := sq\<rparr>))"

definition child_turn :: "('u, 'w) env \<Rightarrow> 'w sender \<Rightarrow> selector option \<Rightarrow> incremental option \<Rightarrow> 'w \<Rightarrow> child \<Rightarrow>
    child_outcome \<times> 'w \<times> page list" where
  "child_turn env snd_rq sel inc w ch =
     (let failed = (\<lambda>e. Finish (Inl (with_parent_context e (s_name (sq_stream (ch_seq ch))) (ch_parent ch)))) in
      case fetch_page env snd_rq sel (w, ch_seq ch) of
        (Inl e, w, sq) \<Rightarrow> (failed e, w, [])
      | (Inr None, w, sq) \<Rightarrow> (Finish (Inr (local_max ch)), w, [])
      | (Inr (Some p), w, sq) \<Rightarrow>
          if pg_count p > 0 then
            (let ch = ch\<lparr>ch_seq := sq, local_max := observe_page inc p (local_max ch)\<rparr> in
             case child_rows (sd env) (ch_parent ch) p of
               Inl e \<Rightarrow> (failed e, w, [p])
             | Inr rows \<Rightarrow> (Continue (ch\<lparr>offering := Some (p, rows)\<rparr>), w, [p]))
          else (child_advance env p (ch\<lparr>ch_seq := sq\<rparr>), w, [p]))"

text \<open>
  \<open>read_children\<close>: the driver's children (waiting, in flight, finished in the order they
  end), the channel's queue and the forwarder. The channel holds twice as many messages as children
  may run; a send waits for room. \<open>forwarding\<close> ends when the feed refuses a message, and then nothing
  takes messages from the channel any more.
\<close>

record 'w fan =
  f_world :: 'w
  waiting :: "parent_values list"
  active :: "child list"
  finished :: "(source_error, string option) result list"
  queue :: "string list"
  out_feed :: feed
  forwarding :: bool

definition fan_failed :: "'w fan \<Rightarrow> bool" where
  "fan_failed f \<longleftrightarrow> (\<exists>r \<in> set (finished f). \<exists>e. r = Inl e)"

definition settle_child :: "nat \<Rightarrow> child_outcome \<Rightarrow> 'w fan \<Rightarrow> 'w fan" where
  "settle_child i oc f =
     (case oc of
        Continue ch \<Rightarrow> f\<lparr>active := (active f)[i := ch]\<rparr>
      | Finish r \<Rightarrow> f\<lparr>active := take i (active f) @ drop (Suc i) (active f), finished := finished f @ [r]\<rparr>)"

definition start_child :: "child_outcome \<Rightarrow> 'w fan \<Rightarrow> 'w fan" where
  "start_child oc f =
     (case oc of
        Continue ch \<Rightarrow> f\<lparr>active := active f @ [ch]\<rparr>
      | Finish r \<Rightarrow> f\<lparr>finished := finished f @ [r]\<rparr>)"

definition channel_bound :: "('u, 'w) env \<Rightarrow> nat" where
  "channel_bound env = max_concurrency (conf env) * 2"

inductive fan_step :: "('u, 'w) env \<Rightarrow> 'w sender \<Rightarrow> (feed \<Rightarrow> bool) \<Rightarrow> stream \<Rightarrow> selector option \<Rightarrow> incremental option \<Rightarrow>
    string option \<Rightarrow> 'w fan \<Rightarrow> page list \<Rightarrow> 'w fan \<Rightarrow> bool"
  for env snd_rq closed s sel inc start_value where
  Start: "\<not> fan_failed f \<Longrightarrow> waiting f = pv # pvs \<Longrightarrow> length (active f) < max_concurrency (conf env) \<Longrightarrow>
    fan_step env snd_rq closed s sel inc start_value f []
      (start_child (new_child s inc start_value pv) (f\<lparr>waiting := pvs\<rparr>))"
| Turn: "\<not> fan_failed f \<Longrightarrow> i < length (active f) \<Longrightarrow> offering (active f ! i) = None \<Longrightarrow>
    child_turn env snd_rq sel inc (f_world f) (active f ! i) = (oc, w, fetched) \<Longrightarrow>
    fan_step env snd_rq closed s sel inc start_value f fetched (settle_child i oc (f\<lparr>f_world := w\<rparr>))"
| Hand: "\<not> fan_failed f \<Longrightarrow> i < length (active f) \<Longrightarrow> offering (active f ! i) = Some (p, rows) \<Longrightarrow>
    length (queue f) < channel_bound env \<Longrightarrow>
    fan_step env snd_rq closed s sel inc start_value f []
      (settle_child i (child_advance env p ((active f ! i)\<lparr>offering := None\<rparr>)) (f\<lparr>queue := queue f @ [rows]\<rparr>))"
| Forward: "forwarding f \<Longrightarrow> queue f = rows # rest \<Longrightarrow> send closed (RawJson rows) (out_feed f) = (broken, out) \<Longrightarrow>
    fan_step env snd_rq closed s sel inc start_value f []
      (f\<lparr>queue := rest, out_feed := out, forwarding := \<not> broken\<rparr>)"

inductive fan_run :: "('u, 'w) env \<Rightarrow> 'w sender \<Rightarrow> (feed \<Rightarrow> bool) \<Rightarrow> stream \<Rightarrow> selector option \<Rightarrow> incremental option \<Rightarrow>
    string option \<Rightarrow> 'w fan \<Rightarrow> page list \<Rightarrow> 'w fan \<Rightarrow> bool"
  for env snd_rq closed s sel inc start_value f where
  Nothing: "fan_run env snd_rq closed s sel inc start_value f [] f"
| More: "fan_run env snd_rq closed s sel inc start_value f ps f' \<Longrightarrow>
    fan_step env snd_rq closed s sel inc start_value f' ps' f'' \<Longrightarrow>
    fan_run env snd_rq closed s sel inc start_value f (ps @ ps') f''"

definition fan_start :: "'w \<Rightarrow> parent_values list \<Rightarrow> feed \<Rightarrow> 'w fan" where
  "fan_start w parents out =
     \<lparr>f_world = w, waiting = parents, active = [], finished = [], queue = [], out_feed = out, forwarding = True\<rparr>"

text \<open>The driver is through and the forwarder has drained the channel, or lost its feed.\<close>

definition fan_done :: "'w fan \<Rightarrow> bool" where
  "fan_done f \<longleftrightarrow> (fan_failed f \<or> waiting f = [] \<and> active f = []) \<and> (queue f = [] \<or> \<not> forwarding f)"

definition fan_result :: "string option \<Rightarrow> 'w fan \<Rightarrow> (source_error, string option) result" where
  "fan_result best f = rbind (traverse id (finished f)) (\<lambda>maxes. Inr (merge_maxes best maxes))"

text \<open>The checkpoint \<open>deliver\<close> makes once the children are through.\<close>

definition final_checkpoint :: "(feed \<Rightarrow> bool) \<Rightarrow> stream \<Rightarrow> incremental option \<Rightarrow> string option \<Rightarrow> feed \<Rightarrow> feed" where
  "final_checkpoint closed s inc best out =
     (case (s_parent s, inc, best) of
        (Some _, Some _, Some m) \<Rightarrow> snd (send closed (Checkpoint (VString m)) out)
      | _ \<Rightarrow> out)"

text \<open>\<open>deliver\<close>: what a read may return, and the feed it leaves.\<close>

inductive deliver :: "('u, 'w) env \<Rightarrow> 'w sender \<Rightarrow> (feed \<Rightarrow> bool) \<Rightarrow> stream \<Rightarrow> json option \<Rightarrow> 'w \<Rightarrow>
    (source_error, unit) result \<Rightarrow> feed \<Rightarrow> bool"
  for env snd_rq closed s since w where
  Parentless: "s_parent s = None \<Longrightarrow> inc = effective_incremental s \<Longrightarrow>
    deliver_sequence (Suc (max_pages (conf env))) env snd_rq closed s inc w (start_cursor since inc, []) = Some (r, w', best, out) \<Longrightarrow>
    deliver env snd_rq closed s since w r out"
| MissingParent: "s_parent s = Some link \<Longrightarrow> find_parent (conf env) s link = Inl e \<Longrightarrow>
    deliver env snd_rq closed s since w (Inl e) []"
| ParentFails: "s_parent s = Some link \<Longrightarrow> find_parent (conf env) s link = Inr p \<Longrightarrow>
    collect_parents (Suc (max_pages (conf env))) env snd_rq p link w = Some (Inl e, w', vs) \<Longrightarrow>
    deliver env snd_rq closed s since w (Inl e) []"
| BadSelector: "s_parent s = Some link \<Longrightarrow> find_parent (conf env) s link = Inr p \<Longrightarrow>
    collect_parents (Suc (max_pages (conf env))) env snd_rq p link w = Some (Inr (), w', vs) \<Longrightarrow>
    stream_selector s = Inl e \<Longrightarrow>
    deliver env snd_rq closed s since w (Inl e) []"
| ChildFails: "s_parent s = Some link \<Longrightarrow> find_parent (conf env) s link = Inr p \<Longrightarrow>
    collect_parents (Suc (max_pages (conf env))) env snd_rq p link w = Some (Inr (), w', vs) \<Longrightarrow>
    stream_selector s = Inr sel \<Longrightarrow> inc = effective_incremental s \<Longrightarrow>
    fan_run env snd_rq closed s sel inc (start_cursor since inc) (fan_start w' vs []) ps f \<Longrightarrow> fan_done f \<Longrightarrow>
    fan_result (start_cursor since inc) f = Inl e \<Longrightarrow>
    deliver env snd_rq closed s since w (Inl e) (out_feed f)"
| Children: "s_parent s = Some link \<Longrightarrow> find_parent (conf env) s link = Inr p \<Longrightarrow>
    collect_parents (Suc (max_pages (conf env))) env snd_rq p link w = Some (Inr (), w', vs) \<Longrightarrow>
    stream_selector s = Inr sel \<Longrightarrow> inc = effective_incremental s \<Longrightarrow>
    fan_run env snd_rq closed s sel inc (start_cursor since inc) (fan_start w' vs []) ps f \<Longrightarrow> fan_done f \<Longrightarrow>
    fan_result (start_cursor since inc) f = Inr best \<Longrightarrow>
    deliver env snd_rq closed s since w (Inr ()) (final_checkpoint closed s inc best (out_feed f))"

section \<open>A parentless stream's feed\<close>

text \<open>The feed a series of pages makes, when the receiver stays.\<close>

fun feed_of :: "incremental option \<Rightarrow> string option \<Rightarrow> page list \<Rightarrow> feed" where
  "feed_of inc best [] = []"
| "feed_of inc best (p # ps) =
     (if pg_count p > 0 then
        (let best = observe_page inc p best in
         RawJson (pg_records p) # (case (inc, best) of (Some _, Some m) \<Rightarrow> [Checkpoint (VString m)] | _ \<Rightarrow> []) @ feed_of inc best ps)
      else feed_of inc best ps)"

definition pages_max :: "incremental option \<Rightarrow> page list \<Rightarrow> string option \<Rightarrow> string option" where
  "pages_max inc ps best = fold (\<lambda>p best. if pg_count p > 0 then observe_page inc p best else best) ps best"

definition page_cursors :: "incremental option \<Rightarrow> page \<Rightarrow> string set" where
  "page_cursors inc p = (case inc of Some i \<Rightarrow> (if pg_count p > 0 then cursors (cursor_field i) (values_of p) else {}) | None \<Rightarrow> {})"

lemma observe_page_is_max:
  "is_max start cs best \<Longrightarrow> pg_count p > 0 \<Longrightarrow> is_max start (cs \<union> page_cursors inc p) (observe_page inc p best)"
  by (cases inc) (simp_all add: observe_page_def page_cursors_def observe_is_max)

lemma pages_max_simps [simp]:
  "pages_max inc [] best = best"
  "pages_max inc (ps @ [p]) best = (if pg_count p > 0 then observe_page inc p (pages_max inc ps best) else pages_max inc ps best)"
  by (simp_all add: pages_max_def)

lemma pages_max_is_max: "is_max start (\<Union> (page_cursors inc ` set ps)) (pages_max inc ps start)"
proof (induction ps rule: rev_induct)
  case (snoc p ps)
  show ?case
  proof (cases "pg_count p > 0")
    case True
    from observe_page_is_max [OF snoc True, of inc] True show ?thesis by (simp add: Un_commute)
  next
    case False
    then have "page_cursors inc p = {}" by (auto simp: page_cursors_def split: option.split)
    with snoc False show ?thesis by simp
  qed
qed simp

lemma feed_of_snoc: "feed_of inc best (ps @ [p]) =
    feed_of inc best ps @ feed_of inc (pages_max inc ps best) [p]"
proof (induction ps arbitrary: best)
  case (Cons q ps)
  have "pages_max inc (q # ps) best = pages_max inc ps (if pg_count q > 0 then observe_page inc q best else best)"
    by (simp add: pages_max_def)
  with Cons show ?case by (simp add: Let_def split: option.splits)
qed simp

text \<open>A loop's work that also keeps the pages it was given.\<close>

definition keeping :: "(page \<Rightarrow> ('x, source_error, bool) action) \<Rightarrow> page \<Rightarrow> ('x \<times> page list, source_error, bool) action" where
  "keeping work p = (\<lambda>(x, ps). case work p x of (r, x') \<Rightarrow> (r, x', ps @ [p]))"

lemma page_loop_keeping:
  "page_loop n env snd_rq sel work w sq x =
    map_option (\<lambda>(r, w, sq, x, ps). (r, w, sq, x)) (page_loop n env snd_rq sel (keeping work) w sq (x, ps))"
proof (induction n arbitrary: w sq x ps)
  case (Suc n)
  obtain r w' sq' where fetch: "fetch_page env snd_rq sel (w, sq) = (r, w', sq')" by (metis prod_cases3)
  show ?case
  proof (cases "\<exists>p x'. r = Inr (Some p) \<and> work p x = (Inr False, x')")
    case False
    with fetch show ?thesis
      by (auto simp: keeping_def split: sum.splits option.splits prod.splits bool.splits)
  next
    case True
    then obtain p x' where p: "r = Inr (Some p)" "work p x = (Inr False, x')" by blast
    obtain ra sq'' where adv: "advance env p sq' = (ra, sq'')" by force
    show ?thesis
      using fetch p adv Suc.IH [of w' sq'' x' "ps @ [p]"]
      by (cases ra) (auto simp: keeping_def split: bool.splits)
  qed
qed simp

lemma deliver_page_open:
  "deliver_page (\<lambda>_. False) inc p (best, out) =
    (Inr False, if pg_count p > 0 then observe_page inc p best else best, out @ feed_of inc best [p])"
  by (auto simp: deliver_page_def send_def Let_def split: option.splits)

lemma deliver_loop_feed:
  assumes "page_loop n env snd_rq sel (keeping (deliver_page (\<lambda>_. False) inc)) w sq
      ((pages_max inc ps b, out @ feed_of inc b ps), ps) = Some (r, w', sq', (b', out'), ps')"
  shows "b' = pages_max inc ps' b \<and> out' = out @ feed_of inc b ps'"
  using assms
proof (induction n arbitrary: w sq ps)
  case (Suc n)
  let ?x = "((pages_max inc ps b, out @ feed_of inc b ps), ps)"
  obtain rf w1 sq1 where fetch: "fetch_page env snd_rq sel (w, sq) = (rf, w1, sq1)" by (metis prod_cases3)
  show ?case
  proof (cases "\<exists>p. rf = Inr (Some p)")
    case False
    with Suc.prems fetch show ?thesis by (auto split: sum.splits option.splits)
  next
    case True
    then obtain p where p: "rf = Inr (Some p)" by blast
    have work: "keeping (deliver_page (\<lambda>_. False) inc) p ?x =
        (Inr False, (pages_max inc (ps @ [p]) b, out @ feed_of inc b (ps @ [p])), ps @ [p])"
      by (simp add: keeping_def deliver_page_open feed_of_snoc)
    obtain ra sq2 where adv: "advance env p sq1 = (ra, sq2)" by force
    show ?thesis
    proof (cases "ra = Inr True")
      case True
      with Suc.prems fetch p work adv have "page_loop n env snd_rq sel (keeping (deliver_page (\<lambda>_. False) inc)) w1 sq2
          ((pages_max inc (ps @ [p]) b, out @ feed_of inc b (ps @ [p])), ps @ [p]) = Some (r, w', sq', (b', out'), ps')"
        by simp
      from Suc.IH [OF this] show ?thesis .
    next
      case False
      with Suc.prems fetch p work adv show ?thesis
        by (auto simp del: pages_max_simps split: sum.splits bool.splits)
    qed
  qed
qed simp

text \<open>The pages a delivery fetched, in order.\<close>

definition delivered_pages :: "nat \<Rightarrow> ('u, 'w) env \<Rightarrow> 'w sender \<Rightarrow> (feed \<Rightarrow> bool) \<Rightarrow> stream \<Rightarrow> incremental option \<Rightarrow>
    'w \<Rightarrow> string option \<times> feed \<Rightarrow> page list" where
  "delivered_pages n env snd_rq closed s inc w st =
     (case (stream_selector s, build_paginator (s_pagination s)) of
        (Inr sel, Inr pg) \<Rightarrow>
          (case page_loop n env snd_rq sel (keeping (deliver_page closed inc)) w
              (bind_incremental inc (fst st) (new_sequence s pg (inc \<noteq> None) None)) (st, []) of
             Some (_, _, _, _, ps) \<Rightarrow> ps
           | None \<Rightarrow> [])
      | _ \<Rightarrow> [])"

text \<open>
  C21. With a receiver that stays, a parentless stream's feed is the rows of the fetched pages in
  order, each non-empty page followed by a checkpoint of the greatest of the resume point
  and the cursor values of all rows sent so far; and that is the cursor left at the end,
  whether the read ended well or not.
\<close>

theorem deliver_sequence_feed:
  assumes "deliver_sequence n env snd_rq (\<lambda>_. False) s inc w (start, out) = Some (r, w', best, out')"
  shows "let ps = delivered_pages n env snd_rq (\<lambda>_. False) s inc w (start, out) in
    out' = out @ feed_of inc start ps \<and> best = pages_max inc ps start \<and>
    is_max start (\<Union> (page_cursors inc ` set ps)) best"
proof (cases "stream_selector s")
  case (Inl e)
  with assms show ?thesis by (simp add: deliver_sequence_def delivered_pages_def)
next
  case (Inr sel)
  note sel = this
  show ?thesis
  proof (cases "build_paginator (s_pagination s)")
    case (Inl e)
    with assms sel show ?thesis by (simp add: deliver_sequence_def delivered_pages_def)
  next
    case (Inr pg)
    let ?sq = "bind_incremental inc start (new_sequence s pg (inc \<noteq> None) None)"
    from assms sel Inr obtain sq' where
      "page_loop n env snd_rq sel (deliver_page (\<lambda>_. False) inc) w ?sq (start, out) = Some (r, w', sq', best, out')"
      by (auto simp: deliver_sequence_def)
    with page_loop_keeping [of n env snd_rq sel "deliver_page (\<lambda>_. False) inc" w ?sq "(start, out)" "[]"]
    obtain ps where loop: "page_loop n env snd_rq sel (keeping (deliver_page (\<lambda>_. False) inc)) w ?sq ((start, out), []) =
        Some (r, w', sq', (best, out'), ps)" by auto
    have "best = pages_max inc ps start \<and> out' = out @ feed_of inc start ps"
      by (rule deliver_loop_feed [where ps = "[]"]) (use loop in simp)
    moreover have "delivered_pages n env snd_rq (\<lambda>_. False) s inc w (start, out) = ps"
      using loop sel Inr by (simp add: delivered_pages_def)
    ultimately show ?thesis using pages_max_is_max by simp
  qed
qed

section \<open>Reading ends\<close>

lemma page_loop_total [simp]: "page_loop (Suc (max_pages (conf env))) env snd_rq sel work w sq x \<noteq> None"
  using page_loop_ends [of env sq "Suc (max_pages (conf env))"] by fastforce

text \<open>
  C22. A read of a parentless stream and the pass over a parent stream return, whatever the API
  answers and whoever holds the feed: \<^verbatim>\<open>max_pages\<close> bounds both loops.
\<close>

theorem reading_ends:
  "deliver_sequence (Suc (max_pages (conf env))) env snd_rq closed s inc w st \<noteq> None \<and>
   collect_parents (Suc (max_pages (conf env))) env snd_rq s link w \<noteq> None"
  by (simp add: deliver_sequence_def collect_parents_def del: page_loop.simps not_None_eq split: sum.split)

section \<open>Resuming\<close>

text \<open>
  A checkpoint after every page is safe to resume from only when no later page shows a cursor
  value below it. An API that answers newest first does not give that: after the first page the
  checkpoint is past every row still to come, and a read resumed from it never asks for them.
\<close>

definition newest_first :: "page list" where
  "newest_first = map (\<lambda>d. \<lparr>pg_records = d, pg_count = 1, pg_values = Some [VObject [(''t'', VString d)]]\<rparr>)
     [''2026-03-02'', ''2026-03-01'']"

definition by_t :: incremental where
  "by_t = \<lparr>cursor_field = ''t'', start_param = Some ''since'', end_param = None, end_value = None, initial_value = None\<rparr>"

lemma newest_first_checkpoint:
  "feed_of (Some by_t) None newest_first =
    [RawJson ''2026-03-02'', Checkpoint (VString ''2026-03-02''), RawJson ''2026-03-01'', Checkpoint (VString ''2026-03-02'')]"
  by code_simp

section \<open>The fan-out's checkpoint\<close>

definition outcome_max :: "child_outcome \<Rightarrow> string option option" where
  "outcome_max oc = (case oc of Continue ch \<Rightarrow> Some (local_max ch) | Finish (Inr m) \<Rightarrow> Some m | Finish (Inl _) \<Rightarrow> None)"

lemma child_advance_max: "outcome_max (child_advance env p ch) = None \<or> outcome_max (child_advance env p ch) = Some (local_max ch)"
  by (auto simp: child_advance_def outcome_max_def split: prod.splits sum.splits bool.splits)

text \<open>A turn raises the child's cursor to cover the page it fetched.\<close>

lemma child_turn_max:
  assumes "child_turn env snd_rq sel inc w ch = (oc, w', fetched)" "outcome_max oc = Some m"
  shows "is_max (local_max ch) (\<Union> (page_cursors inc ` set fetched)) m"
proof -
  obtain r w1 sq where fetch: "fetch_page env snd_rq sel (w, ch_seq ch) = (r, w1, sq)" by (metis prod_cases3)
  show ?thesis
  proof (cases "\<exists>p. r = Inr (Some p)")
    case False
    with assms fetch show ?thesis
      by (auto simp: child_turn_def Let_def outcome_max_def split: sum.splits option.splits)
  next
    case True
    then obtain p where p: "r = Inr (Some p)" by blast
    show ?thesis
    proof (cases "pg_count p > 0")
      case True
      have "fetched = [p]" "m = observe_page inc p (local_max ch)"
        using assms fetch p True
        by (auto simp: child_turn_def Let_def outcome_max_def split: sum.splits if_splits)
      then show ?thesis using observe_page_is_max [OF is_max_refl True, of "local_max ch" inc] by simp
    next
      case False
      then have "fetched = [p]" "m = local_max ch" "page_cursors inc p = {}"
        using assms fetch p child_advance_max [of env p "ch\<lparr>ch_seq := sq\<rparr>"]
        by (auto simp: child_turn_def Let_def page_cursors_def split: option.split)
      then show ?thesis by simp
    qed
  qed
qed

definition fan_maxes :: "'w fan \<Rightarrow> string option set" where
  "fan_maxes f = local_max ` set (active f) \<union> {m. Inr m \<in> set (finished f)}"

text \<open>
  Unless a child failed: every cursor seen is covered by some child's, every child's was
  seen or is the common starting point, and none is below that point.
\<close>

definition fan_inv :: "string option \<Rightarrow> string set \<Rightarrow> 'w fan \<Rightarrow> bool" where
  "fan_inv start cs f \<longleftrightarrow> fan_failed f \<or>
     (\<forall>c \<in> cs. \<exists>x. Some x \<in> fan_maxes f \<and> c \<le> x) \<and>
     (\<forall>m \<in> fan_maxes f. \<exists>cs' \<subseteq> cs. is_max start cs' m)"

lemma active_split:
  assumes "i < length xs"
  shows "set xs = insert (xs ! i) (set (take i xs @ drop (Suc i) xs))"
    and "set (xs[i := y]) = insert y (set (take i xs @ drop (Suc i) xs))"
  by (subst id_take_nth_drop [OF assms], simp) (simp only: upd_conv_take_nth_drop [OF assms], auto)

lemma fan_inv_raise:
  assumes "fan_inv start cs f" "\<not> fan_failed f"
    and "fan_maxes f = insert m R" "fan_maxes f' = insert m' R" "is_max m cs' m'"
  shows "fan_inv start (cs \<union> cs') f'"
proof -
  have old: "\<forall>c \<in> cs. \<exists>x. Some x \<in> insert m R \<and> c \<le> x" "\<forall>k \<in> insert m R. \<exists>cs'' \<subseteq> cs. is_max start cs'' k"
    using assms(1,2,3) by (auto simp: fan_inv_def)
  have above: "\<exists>x. m' = Some x \<and> c \<le> x" if "c \<in> cs' \<union> set_option m" for c
    using assms(5) that by (cases m') (auto simp: is_max_def)
  have "\<exists>x. Some x \<in> insert m' R \<and> c \<le> x" if "c \<in> cs \<union> cs'" for c
  proof (cases "c \<in> cs'")
    case True
    then show ?thesis using above [of c] by auto
  next
    case False
    with that old(1) obtain x where x: "Some x \<in> insert m R" "c \<le> x" by blast
    show ?thesis
    proof (cases "Some x = m")
      case True
      then obtain y where "m' = Some y" "x \<le> y" using above [of x] by auto
      with x show ?thesis by (meson insertI1 order_trans)
    next
      case False
      with x show ?thesis by blast
    qed
  qed
  moreover have "\<exists>cs'' \<subseteq> cs \<union> cs'. is_max start cs'' k" if "k \<in> insert m' R" for k
  proof (cases "k = m'")
    case True
    obtain cs'' where "cs'' \<subseteq> cs" "is_max start cs'' m" using old(2) by blast
    with is_max_trans [OF this(2) assms(5)] True show ?thesis by (intro exI [of _ "cs'' \<union> cs'"]) auto
  next
    case False
    with that old(2) show ?thesis by (meson insertE insertI2 le_supI1)
  qed
  ultimately show ?thesis by (simp add: fan_inv_def assms(4))
qed

lemma settled_maxes:
  assumes "i < length (active f)" and "outcome_max oc = Some m"
  shows "fan_maxes (settle_child i oc f)
    = insert m (local_max ` set (take i (active f) @ drop (Suc i) (active f)) \<union> {m. Inr m \<in> set (finished f)})"
proof (cases oc)
  case (Continue ch)
  with assms(2) show ?thesis
    using active_split(2) [OF assms(1), of ch] by (auto simp: fan_maxes_def settle_child_def outcome_max_def)
next
  case (Finish r)
  with assms(2) show ?thesis
    by (cases r) (auto simp: fan_maxes_def settle_child_def outcome_max_def)
qed

lemma settled_inv:
  assumes "fan_inv start cs f" "\<not> fan_failed f" "i < length (active f)"
    and "active g = active f" "finished g = finished f"
    and "\<And>m. outcome_max oc = Some m \<Longrightarrow> is_max (local_max (active f ! i)) cs' m"
  shows "fan_inv start (cs \<union> cs') (settle_child i oc g)"
proof (cases "outcome_max oc")
  case None
  then have "fan_failed (settle_child i oc g)"
    by (auto simp: outcome_max_def settle_child_def fan_failed_def split: child_outcome.splits sum.splits)
  then show ?thesis by (simp add: fan_inv_def)
next
  case (Some m)
  let ?R = "local_max ` set (take i (active f) @ drop (Suc i) (active f)) \<union> {m. Inr m \<in> set (finished f)}"
  have "fan_maxes f = insert (local_max (active f ! i)) ?R"
    unfolding fan_maxes_def active_split(1) [OF assms(3)] by auto
  moreover have "fan_maxes (settle_child i oc g) = insert m ?R"
    using settled_maxes [of i g oc m] assms(3,4,5) Some by simp
  ultimately show ?thesis by (rule fan_inv_raise [OF assms(1,2) _ _ assms(6) [OF Some]])
qed

lemma fan_step_inv:
  assumes "fan_step env snd_rq closed s sel inc start f fetched f'" "fan_inv start cs f"
  shows "fan_inv start (cs \<union> \<Union> (page_cursors inc ` set fetched)) f'"
  using assms(1)
proof cases
  case (Start pv pvs)
  show ?thesis
  proof (cases "new_child s inc start pv")
    case (Continue ch)
    then have "local_max ch = start" by (auto simp: new_child_def split: sum.splits)
    with assms(2) Start Continue have "fan_maxes f' = insert start (fan_maxes f)"
      by (auto simp: start_child_def fan_maxes_def)
    moreover have "fan_failed f' \<longleftrightarrow> fan_failed f" using Start Continue by (simp add: start_child_def fan_failed_def)
    ultimately show ?thesis
      using assms(2) Start by (auto simp: fan_inv_def intro: exI [of _ "{}"])
  next
    case (Finish r)
    then obtain e where "r = Inl e" by (auto simp: new_child_def split: sum.splits)
    with Start Finish show ?thesis by (simp add: fan_inv_def fan_failed_def start_child_def)
  qed
next
  case (Turn i oc w)
  show ?thesis unfolding Turn(1)
    by (rule settled_inv [OF assms(2) Turn(2,3)]) (use child_turn_max [OF Turn(5)] in auto)
next
  case (Hand i p rows)
  let ?oc = "child_advance env p ((active f ! i)\<lparr>offering := None\<rparr>)"
  have "is_max (local_max (active f ! i)) {} m" if "outcome_max ?oc = Some m" for m
    using that child_advance_max [of env p "(active f ! i)\<lparr>offering := None\<rparr>"] by auto
  from settled_inv [OF assms(2) Hand(3,4) _ _ this, of "f\<lparr>queue := queue f @ [rows]\<rparr>"]
  show ?thesis using Hand(1,2) by simp
next
  case (Forward rows rest broken out)
  with assms(2) show ?thesis by (simp add: fan_inv_def fan_failed_def fan_maxes_def)
qed

lemma fan_run_inv:
  "fan_run env snd_rq closed s sel inc start (fan_start w parents out) ps f \<Longrightarrow>
    fan_inv start (\<Union> (page_cursors inc ` set ps)) f"
proof (induction rule: fan_run.induct)
  case Nothing
  then show ?case by (simp add: fan_inv_def fan_start_def fan_maxes_def)
next
  case (More ps f' ps' f'')
  from fan_step_inv [OF More(2,3)] show ?case by (simp add: Un_commute)
qed

lemma fan_run_rows:
  "fan_run env snd_rq closed s sel inc start (fan_start w parents out) ps f \<Longrightarrow>
    \<exists>rows. out_feed f = out @ map RawJson rows"
proof (induction rule: fan_run.induct)
  case Nothing
  then show ?case by (simp add: fan_start_def)
next
  case (More ps f' ps' f'')
  then obtain rows where rows: "out_feed f' = out @ map RawJson rows" by blast
  from More(2) show ?case
  proof cases
    case (Forward r rest broken out')
    with rows show ?thesis
      by (auto simp: send_def split: if_splits intro: exI [of _ "rows @ [r]"] exI [of _ rows])
  qed (use rows in \<open>auto simp: start_child_def settle_child_def split: child_outcome.split\<close>)
qed

lemma traverse_id_Inr: "traverse id rs = Inr ms \<Longrightarrow> rs = map Inr ms"
  by (induction rs arbitrary: ms) (auto simp: rbind_eq_Inr)

text \<open>
  C20. Under any interleaving of the children and the forwarder: nothing but rows reaches the
  feed while children run, and when all succeed the cursor left for the one checkpoint at
  the end is the greatest of the resume point and every cursor value any child fetched.
\<close>

theorem fan_out_checkpoint:
  assumes "fan_run env snd_rq closed s sel inc start (fan_start w parents out) ps f"
    and "fan_done f" and "fan_result start f = Inr best"
  shows "(\<exists>rows. out_feed f = out @ map RawJson rows) \<and> is_max start (\<Union> (page_cursors inc ` set ps)) best"
proof
  show "\<exists>rows. out_feed f = out @ map RawJson rows" using fan_run_rows [OF assms(1)] .
  let ?cs = "\<Union> (page_cursors inc ` set ps)"
  obtain ms where ms: "finished f = map Inr ms" and best: "best = merge_maxes start ms"
    using assms(3) traverse_id_Inr by (auto simp: fan_result_def rbind_eq_Inr)
  then have ok: "\<not> fan_failed f" by (auto simp: fan_failed_def)
  with assms(2) have "active f = []" by (simp add: fan_done_def)
  then have maxes: "fan_maxes f = set ms" using ms by (auto simp: fan_maxes_def)
  have inv: "\<forall>c \<in> ?cs. \<exists>x. Some x \<in> set ms \<and> c \<le> x" "\<forall>m \<in> set ms. \<exists>cs' \<subseteq> ?cs. is_max start cs' m"
    using fan_run_inv [OF assms(1)] ok maxes by (auto simp: fan_inv_def)
  have merged: "is_max start {c. Some c \<in> set ms} best"
    using merge_is_max [OF is_max_refl, of start ms] best by simp
  show "is_max start ?cs best"
  proof (cases best)
    case None
    with merged inv(1) show ?thesis by (auto simp: is_max_def)
  next
    case (Some x)
    have "x \<in> ?cs \<union> set_option start"
    proof (cases "Some x \<in> set ms")
      case True
      with inv(2) obtain cs' where "cs' \<subseteq> ?cs" "is_max start cs' (Some x)" by blast
      then show ?thesis by (auto simp: is_max_def)
    qed (use merged Some in \<open>simp add: is_max_def\<close>)
    moreover have "c \<le> x" if "c \<in> ?cs" for c
    proof -
      from that inv(1) obtain y where "Some y \<in> set ms" "c \<le> y" by blast
      with merged Some show ?thesis by (auto simp: is_max_def intro: order_trans)
    qed
    ultimately show ?thesis using merged Some by (auto simp: is_max_def)
  qed
qed

text \<open>
  C30. When a fan-out stalls. A fan-out that is not through has no step left exactly when the feed
  has refused a message, the channel is full, no child has failed, every child in flight has rows to
  send and no further child may start. As long as the feed accepts messages it never stalls.
\<close>

theorem fan_out_stalls_iff:
  assumes "0 < max_concurrency (conf env)"
  shows "(\<nexists>fetched f'. fan_step env snd_rq closed s sel inc start f fetched f') \<and> \<not> fan_done f
    \<longleftrightarrow> \<not> forwarding f \<and> channel_bound env \<le> length (queue f) \<and> \<not> fan_failed f
      \<and> active f \<noteq> [] \<and> (\<forall>ch \<in> set (active f). offering ch \<noteq> None)
      \<and> (waiting f = [] \<or> max_concurrency (conf env) \<le> length (active f))"
    (is "?stuck \<longleftrightarrow> ?stalled")
proof
  assume stuck: ?stuck
  then have none: "\<not> fan_step env snd_rq closed s sel inc start f fetched f'" for fetched f' by blast
  have idle: "\<not> (forwarding f \<and> queue f \<noteq> [])"
    using none Forward [of f _ _ closed] by (metis list.exhaust surj_pair)
  with stuck have busy: "\<not> fan_failed f" "waiting f \<noteq> [] \<or> active f \<noteq> []" by (auto simp: fan_done_def)
  have full: "waiting f = [] \<or> max_concurrency (conf env) \<le> length (active f)"
    using none Start [OF busy(1)] by (metis list.exhaust not_le)
  then have act: "active f \<noteq> []" using busy(2) assms by auto
  have offers: "offering ch \<noteq> None" if "ch \<in> set (active f)" for ch
    using none Turn [OF busy(1)] that by (metis in_set_conv_nth prod_cases3)
  moreover have room: "channel_bound env \<le> length (queue f)"
    using none Hand [OF busy(1), of 0] act offers [of "active f ! 0"]
    by (metis length_greater_0_conv not_le not_None_eq nth_mem surj_pair)
  moreover have "\<not> forwarding f" using idle room assms by (auto simp: channel_bound_def)
  ultimately show ?stalled using busy act full by blast
next
  assume stalled: ?stalled
  have offered: "offering (active f ! i) \<noteq> None" if "i < length (active f)" for i
    using stalled that nth_mem by blast
  have "\<not> fan_step env snd_rq closed s sel inc start f fetched f'" for fetched f'
  proof
    assume "fan_step env snd_rq closed s sel inc start f fetched f'"
    then show False
      by cases (use stalled offered in auto)
  qed
  then show ?stuck using stalled by (simp add: fan_done_def)
qed

lemma final_checkpoint_shape:
  "\<exists>cps. final_checkpoint closed s inc best out = out @ cps \<and> (cps = [] \<or> (\<exists>c. cps = [Checkpoint c]))"
  by (auto simp: final_checkpoint_def send_def split: option.splits)

text \<open>
  A child stream's feed is rows, then at most one checkpoint: nothing an interrupted
  fan-out has sent can be resumed from in part.
\<close>

theorem child_feed_checkpoints_last:
  assumes "deliver env snd_rq closed s since w r out" and "s_parent s \<noteq> None"
  shows "\<exists>rows cps. out = map RawJson rows @ cps \<and> (cps = [] \<or> r = Inr () \<and> (\<exists>c. cps = [Checkpoint c]))"
  using assms(1)
proof cases
  case (ChildFails link p w' vs sel inc ps f e)
  with fan_run_rows [OF ChildFails(8)] show ?thesis by fastforce
next
  case (Children link p w' vs sel inc ps f best)
  obtain rows where "out_feed f = map RawJson rows" using fan_run_rows [OF Children(8)] by auto
  moreover obtain cps where "out = out_feed f @ cps" "cps = [] \<or> (\<exists>c. cps = [Checkpoint c])"
    using final_checkpoint_shape [of closed s inc best "out_feed f"] Children(2) by auto
  ultimately show ?thesis using Children(1) by auto
qed (use assms(2) in auto)

section \<open>An accepted configuration can be read\<close>

text \<open>
  C29. What the validation gate secures for every stream of an accepted configuration: at least
  one child may run and requests have a deadline, the record path parses, the paginator builds (so
  its selectors parse), and a parent it names is declared and is not itself a child. The selectors
  of a parent's placeholders are not among it (\<open>Rest_Demo.unparsed_placeholder_accepted\<close>), nor
  the values of a stream's own headers.
\<close>

theorem accepted_stream_starts:
  assumes "validate_config lib c = Inr ()" and "s \<in> set (c_streams c)"
  shows "0 < max_concurrency c \<and> 0 < request_timeout_secs c \<and>
    (\<exists>sel. stream_selector s = Inr sel) \<and> (\<exists>pg. build_paginator (s_pagination s) = Inr pg) \<and>
    (case s_parent s of None \<Rightarrow> True
     | Some link \<Rightarrow> \<exists>p. find_parent c s link = Inr p \<and> s_parent p = None \<and> p \<in> set (c_streams c))"
proof (intro conjI)
  note ok = accepted_parts [OF assms]
  show "0 < max_concurrency c" "0 < request_timeout_secs c"
    using assms(1) by (simp_all add: validate_config_def rbind_unit_eq_Inr)
  show "\<exists>sel. stream_selector s = Inr sel"
    using accepted_records_path [OF ok(3)] by (cases "s_records_path s") (auto simp: stream_selector_def)
  show "\<exists>pg. build_paginator (s_pagination s) = Inr pg" using build_accepted [OF ok(3)] .
  show "case s_parent s of None \<Rightarrow> True
     | Some link \<Rightarrow> \<exists>p. find_parent c s link = Inr p \<and> s_parent p = None \<and> p \<in> set (c_streams c)"
  proof (cases "s_parent s")
    case (Some link)
    with accepted_parent [OF ok(5)] obtain p where "find_stream c (p_stream link) = Some p" "s_parent p = None" by blast
    with Some find_stream_in show ?thesis by (auto simp: find_parent_def)
  qed simp
qed

end
