(* ===== verification/Rest_Demo.thy ===== *)
theory Rest_Demo
  imports Rest_Delivery
begin

text \<open>
  A small API the REST theorems are applied to: two pages of one record, then an empty one,
  read by offset from \<^verbatim>\<open>https://api.example.com\<close>.
\<close>

definition demo_records :: "nat \<Rightarrow> json list" where
  "demo_records k = (if k < 2 then [VObject [(''id'', VString (show_nat k)), (''t'', VString (''2026-0'' @ show_nat (Suc k)))]] else [])"

definition demo_serde :: serde where
  "demo_serde = \<lparr>from_slice = (\<lambda>body. Inr (VArray (demo_records (length body)))), to_vec = (\<lambda>vs. Inr (replicate (length vs) (CHR ''r'')))\<rparr>"

definition demo_web :: "string web" where
  "demo_web = \<lparr>url_parse = Inr, url_scheme = (\<lambda>_. ''https''), host_str = Some, port_or_known_default = (\<lambda>_. Some 443),
     url_text = id, header_name_ok = (\<lambda>_. True), header_value_ok = (\<lambda>_. True), json_text = (\<lambda>_. [])\<rparr>"

definition demo_stream :: stream where
  "demo_stream = \<lparr>s_name = ''items'', s_path = ''/items'', s_method = Get, s_body = None, s_params = [], s_headers = [],
     s_records_path = None, s_pagination = PgOffset ''offset'' ''limit'' 1 None, s_incremental = Some by_t, s_cursor_field = None,
     s_cursor_param = None, s_response_actions = [], s_parent = None\<rparr>"

definition demo_child :: stream where
  "demo_child = demo_stream\<lparr>s_name := ''parts'', s_path := ''/items/{id}/parts'', s_pagination := PgNone,
     s_parent := Some \<lparr>p_stream = ''items'', placeholders = [(''id'', ''id'')], include_fields = []\<rparr>\<rparr>"

definition demo_config :: config where
  "demo_config = \<lparr>base_url = ''https://api.example.com'', auth_scheme = AuthNone, c_headers = [], c_params = [], max_concurrency = 2,
     min_request_interval_ms = 0, retry_after_cap_secs = 300, request_timeout_secs = 300, max_pages = 10,
     c_streams = [demo_stream, demo_child]\<rparr>"

definition demo_env :: "(string, nat \<times> http_request list) env" where
  "demo_env = \<lparr>conf = demo_config, web = demo_web, sd = demo_serde,
     fingerprint = (\<lambda>(u, ps, _). of_nat (length u + foldl (\<lambda>h c. 31 * h + of_char c) 0 (concat (map snd ps)))),
     debug_params = (\<lambda>_. []), utf8_lossy = id, show_status = show_nat, http_date = (\<lambda>_. None), wall_clock = (\<lambda>_. 0)\<rparr>"

text \<open>The world counts the requests; the body's length is the page's number.\<close>

definition demo_send :: "nat sender" where
  "demo_send rq k = (Inr \<lparr>r_status = 200, r_header = (\<lambda>_. None), r_body = Inr (replicate k (CHR ''x''))\<rparr>, Suc k)"

theorem paging_requests_witness:
  "\<exists>r w' l sq' x'.
     page_loop 11 demo_env (log_sends demo_send) None (\<lambda>p x. (Inr False, x)) (0, [])
       (bind_incremental (Some by_t) None (new_sequence demo_stream (OffsetLimit ''offset'' ''limit'' 1 0 None) True None)) ()
       = Some (r, (w', l), sq', x') \<and>
     length l \<le> 10 \<and> distinct l"
proof -
  let ?sq = "bind_incremental (Some by_t) None (new_sequence demo_stream (OffsetLimit ''offset'' ''limit'' 1 0 None) True None)"
  have "\<exists>out. page_loop 11 demo_env (log_sends demo_send) None (\<lambda>p x. (Inr False, x)) (0, []) ?sq () = Some out"
    by (rule page_loop_ends) (simp add: demo_env_def demo_config_def)
  then obtain r w' l sq' x' where loop:
    "page_loop 11 demo_env (log_sends demo_send) None (\<lambda>p x. (Inr False, x)) (0, []) ?sq () = Some (r, (w', l), sq', x')"
    by (metis surj_pair)
  moreover have "max_pages (conf demo_env) = 10" "s_method demo_stream = Get"
    by (simp_all add: demo_env_def demo_config_def demo_stream_def)
  ultimately show ?thesis using paging_requests [OF loop] by auto
qed

theorem deliver_sequence_feed_witness:
  "\<exists>r w' best out' ps.
     deliver_sequence 11 demo_env (log_sends demo_send) (\<lambda>_. False) demo_stream (Some by_t) (0, []) (Some ''2026'', [])
       = Some (r, w', best, out') \<and>
     out' = feed_of (Some by_t) (Some ''2026'') ps \<and> is_max (Some ''2026'') (\<Union> (page_cursors (Some by_t) ` set ps)) best"
proof -
  have eleven: "11 = Suc (max_pages (conf demo_env))" by (simp add: demo_env_def demo_config_def)
  have "deliver_sequence 11 demo_env (log_sends demo_send) (\<lambda>_. False) demo_stream (Some by_t) (0, []) (Some ''2026'', []) \<noteq> None"
    unfolding eleven by (simp add: deliver_sequence_def del: page_loop.simps not_None_eq split: sum.split)
  then obtain r w' best out' where run:
    "deliver_sequence 11 demo_env (log_sends demo_send) (\<lambda>_. False) demo_stream (Some by_t) (0, []) (Some ''2026'', []) = Some (r, w', best, out')"
    by (metis not_None_eq surj_pair)
  with deliver_sequence_feed [OF run] show ?thesis by (auto simp: Let_def)
qed

text \<open>One parent, one child page, one checkpoint at the end.\<close>

definition demo_pv :: parent_values where
  "demo_pv = \<lparr>pv_placeholders = [(''id'', ''7'')], pv_include = []\<rparr>"

definition demo_new :: child where
  "demo_new = \<lparr>ch_parent = demo_pv,
     ch_seq = bind_incremental (Some by_t) None (new_sequence demo_child SinglePage True (Some demo_pv)), local_max = None, offering = None\<rparr>"

lemma demo_new_child: "new_child demo_child (Some by_t) None demo_pv = Continue demo_new"
  by (simp add: new_child_def demo_child_def demo_new_def build_paginator_def)

lemmas demo_defs = demo_env_def demo_config_def demo_stream_def demo_child_def demo_serde_def demo_send_def demo_pv_def
  demo_records_def by_t_def

text \<open>The steps of a fan-out as functions; each is a step or nothing.\<close>

definition do_begin :: "('u, 'w) env \<Rightarrow> stream \<Rightarrow> incremental option \<Rightarrow> string option \<Rightarrow> 'w fan \<Rightarrow> 'w fan" where
  "do_begin env s inc start_value f =
     (case waiting f of
        [] \<Rightarrow> f
      | pv # pvs \<Rightarrow>
          if \<not> fan_failed f \<and> length (active f) < max_concurrency (conf env)
          then start_child (new_child s inc start_value pv) (f\<lparr>waiting := pvs\<rparr>) else f)"

definition do_turn :: "('u, 'w) env \<Rightarrow> 'w sender \<Rightarrow> selector option \<Rightarrow> incremental option \<Rightarrow> nat \<Rightarrow> 'w fan \<Rightarrow> 'w fan" where
  "do_turn env snd_rq sel inc i f =
     (if \<not> fan_failed f \<and> i < length (active f) \<and> offering (active f ! i) = None
      then (case child_turn env snd_rq sel inc (f_world f) (active f ! i) of
              (oc, w, fetched) \<Rightarrow> settle_child i oc (f\<lparr>f_world := w\<rparr>))
      else f)"

definition do_hand :: "('u, 'w) env \<Rightarrow> nat \<Rightarrow> 'w fan \<Rightarrow> 'w fan" where
  "do_hand env i f =
     (if \<not> fan_failed f \<and> i < length (active f) \<and> length (queue f) < channel_bound env
      then (case offering (active f ! i) of
              None \<Rightarrow> f
            | Some (p, rows) \<Rightarrow>
                settle_child i (child_advance env p ((active f ! i)\<lparr>offering := None\<rparr>)) (f\<lparr>queue := queue f @ [rows]\<rparr>))
      else f)"

definition do_forward :: "(feed \<Rightarrow> bool) \<Rightarrow> 'w fan \<Rightarrow> 'w fan" where
  "do_forward closed f =
     (if forwarding f then
        (case queue f of
           [] \<Rightarrow> f
         | rows # rest \<Rightarrow>
             (case send closed (RawJson rows) (out_feed f) of
                (broken, out) \<Rightarrow> f\<lparr>queue := rest, out_feed := out, forwarding := \<not> broken\<rparr>))
      else f)"

lemma run_begin: "\<exists>ps. fan_run env snd_rq closed s sel inc start f0 ps f \<Longrightarrow>
    \<exists>ps. fan_run env snd_rq closed s sel inc start f0 ps (do_begin env s inc start f)"
  by (cases "waiting f") (auto simp: do_begin_def intro: More Start)

lemma run_turn: "\<exists>ps. fan_run env snd_rq closed s sel inc start f0 ps f \<Longrightarrow>
    \<exists>ps. fan_run env snd_rq closed s sel inc start f0 ps (do_turn env snd_rq sel inc i f)"
  by (auto simp: do_turn_def split: prod.split intro: More Turn)

lemma run_hand: "\<exists>ps. fan_run env snd_rq closed s sel inc start f0 ps f \<Longrightarrow>
    \<exists>ps. fan_run env snd_rq closed s sel inc start f0 ps (do_hand env i f)"
  by (auto simp: do_hand_def split: option.split intro: More Hand)

lemma run_forward: "\<exists>ps. fan_run env snd_rq closed s sel inc start f0 ps f \<Longrightarrow>
    \<exists>ps. fan_run env snd_rq closed s sel inc start f0 ps (do_forward closed f)"
  by (auto simp: do_forward_def split: prod.split list.split intro: More Forward)

text \<open>One child, through to the end: it starts, fetches its page, hands its rows over and they are forwarded.\<close>

definition demo_fan :: "(nat \<times> http_request list) fan" where
  "demo_fan = do_forward (\<lambda>_. False) (do_hand demo_env 0 (do_turn demo_env (log_sends demo_send) None (Some by_t) 0
     (do_begin demo_env demo_child (Some by_t) None (fan_start (0, []) [demo_pv] []))))"

lemma demo_fan_run: "\<exists>ps. fan_run demo_env (log_sends demo_send) (\<lambda>_. False) demo_child None (Some by_t) None
    (fan_start (0, []) [demo_pv] []) ps demo_fan"
  unfolding demo_fan_def by (intro run_forward run_hand run_turn run_begin) (blast intro: Nothing)

lemma fan_failed_code [code]: "fan_failed f \<longleftrightarrow> list_ex isl (finished f)"
  by (auto simp: fan_failed_def list_ex_iff isl_def)

lemma demo_fan_done: "fan_done demo_fan" "\<not> isl (fan_result None demo_fan)"
  by code_simp+

theorem fan_out_checkpoint_witness:
  "\<exists>ps best rows. fan_result None demo_fan = Inr best \<and> out_feed demo_fan = map RawJson rows \<and>
     is_max None (\<Union> (page_cursors (Some by_t) ` set ps)) best"
proof -
  obtain ps where run: "fan_run demo_env (log_sends demo_send) (\<lambda>_. False) demo_child None (Some by_t) None
    (fan_start (0, []) [demo_pv] []) ps demo_fan" using demo_fan_run by blast
  obtain best where "fan_result None demo_fan = Inr best"
    using demo_fan_done(2) by (cases "fan_result None demo_fan") auto
  with fan_out_checkpoint [OF run demo_fan_done(1) this] show ?thesis by auto
qed

text \<open>
  A read that is cancelled: one child at a time, four parents, and a feed that refuses the first
  message. The next two children fill the channel and the fourth waits for room for ever.
\<close>

definition stall_env :: "(string, nat \<times> http_request list) env" where
  "stall_env = demo_env\<lparr>conf := demo_config\<lparr>max_concurrency := 1\<rparr>\<rparr>"

definition stall_send :: "nat sender" where
  "stall_send rq k = (Inr \<lparr>r_status = 200, r_header = (\<lambda>_. None), r_body = Inr []\<rparr>, Suc k)"

definition next_child :: "(nat \<times> http_request list) fan \<Rightarrow> (nat \<times> http_request list) fan" where
  "next_child f = do_hand stall_env 0 (do_turn stall_env (log_sends stall_send) None (Some by_t) 0
     (do_begin stall_env demo_child (Some by_t) None f))"

definition stalled_fan :: "(nat \<times> http_request list) fan" where
  "stalled_fan = next_child (next_child (next_child (do_forward (\<lambda>_. True) (next_child
     (fan_start (0, []) [demo_pv, demo_pv, demo_pv, demo_pv] [])))))"

lemma stalled_fan_run: "\<exists>ps. fan_run stall_env (log_sends stall_send) (\<lambda>_. True) demo_child None (Some by_t) None
    (fan_start (0, []) [demo_pv, demo_pv, demo_pv, demo_pv] []) ps stalled_fan"
  unfolding stalled_fan_def next_child_def
  by (intro run_hand run_turn run_begin run_forward) (blast intro: Nothing)

lemma stalled_fan_state: "\<not> forwarding stalled_fan" "channel_bound stall_env \<le> length (queue stalled_fan)"
  "\<not> fan_failed stalled_fan" "map (\<lambda>ch. offering ch = None) (active stalled_fan) = [False]" "waiting stalled_fan = []"
  by code_simp+

theorem fan_out_stalls_iff_witness:
  "(\<exists>ps. fan_run stall_env (log_sends stall_send) (\<lambda>_. True) demo_child None (Some by_t) None
      (fan_start (0, []) [demo_pv, demo_pv, demo_pv, demo_pv] []) ps stalled_fan)
    \<and> (\<nexists>fetched f'. fan_step stall_env (log_sends stall_send) (\<lambda>_. True) demo_child None (Some by_t) None stalled_fan fetched f')
    \<and> \<not> fan_done stalled_fan"
proof -
  have "0 < max_concurrency (conf stall_env)" by (simp add: stall_env_def demo_env_def)
  moreover have "active stalled_fan \<noteq> []" "\<forall>ch \<in> set (active stalled_fan). offering ch \<noteq> None"
    using stalled_fan_state(4) by (auto simp: map_eq_Cons_conv)
  ultimately show ?thesis
    using fan_out_stalls_iff stalled_fan_state(1,2,3,5) stalled_fan_run by metis
qed

theorem child_feed_checkpoints_last_witness:
  "\<exists>r out. deliver (demo_env\<lparr>conf := demo_config\<lparr>c_streams := []\<rparr>\<rparr>) (log_sends demo_send) (\<lambda>_. False) demo_child None (0, []) r out \<and>
     (\<exists>rows cps. out = map RawJson rows @ cps \<and> (cps = [] \<or> r = Inr () \<and> (\<exists>c. cps = [Checkpoint c])))"
proof -
  let ?env = "demo_env\<lparr>conf := demo_config\<lparr>c_streams := []\<rparr>\<rparr>"
  obtain link e where "s_parent demo_child = Some link" "find_parent (conf ?env) demo_child link = Inl e"
    by (auto simp: demo_child_def find_parent_def find_stream_def)
  from MissingParent [OF this]
  have run: "deliver ?env (log_sends demo_send) (\<lambda>_. False) demo_child None (0, []) (Inl e) []" .
  have "s_parent demo_child \<noteq> None" by (simp add: demo_child_def)
  from child_feed_checkpoints_last [OF run this] run show ?thesis by blast
qed

lemma demo_accepted: "validate_config demo_web demo_config = Inr ()"
  by code_simp

theorem accepted_stream_starts_witness:
  "0 < max_concurrency demo_config \<and> (\<exists>sel. stream_selector demo_child = Inr sel)
    \<and> (\<exists>pg. build_paginator (s_pagination demo_child) = Inr pg)"
  using accepted_stream_starts [OF demo_accepted, of demo_child] by (simp add: demo_config_def)

text \<open>
  The gate does not look at the selectors of a parent's placeholders: a malformed one is accepted,
  and every record of the parent then fails the read.
\<close>

definition unparsed_child :: stream where
  "unparsed_child = demo_child\<lparr>s_parent := Some \<lparr>p_stream = ''items'', placeholders = [(''id'', ''a..b'')], include_fields = []\<rparr>\<rparr>"

lemma unparsed_placeholder_accepted:
  "validate_config demo_web (demo_config\<lparr>c_streams := [demo_stream, unparsed_child]\<rparr>) = Inr ()"
  "isl (collect_parent_values [VObject [(''id'', VString ''7'')]]
      \<lparr>p_stream = ''items'', placeholders = [(''id'', ''a..b'')], include_fields = []\<rparr>)"
  by code_simp+

theorem substitute_path_structure_witness:
  "split_on (CHR ''/'') (substitute_path ''items/{id}'' [(''id'', ''a/b'')]) = [''items'', ''a%2Fb'']
    \<and> percent_decode (substitute_path ''{id}'' [(''id'', ''a/b'')]) = ''a/b''
    \<and> \<not> dot_segment (substitute_path ''{id}'' [(''id'', ''a/b'')])"
proof -
  have parts: "map (\<lambda>part. substitute_path part [(''id'', ''a/b'')]) (split_on (CHR ''/'') ''items/{id}'') = [''items'', ''a%2Fb'']"
    by code_simp
  note th = substitute_path_structure [of "CHR ''/''" "[(''id'', ''a/b'')]" "''items/{id}''"]
  have "unreserved CHR ''/'' = False" by (simp add: unreserved_def)
  note split = th [THEN conjunct1] and seg = th [THEN conjunct2, rule_format, of "''id''" "''a/b''"]
  show ?thesis
    using split seg parts by (simp add: unreserved_def del: percent_decode.simps)
qed

theorem selector_roundtrip_witness:
  "parse_selector ''data.items[*].payload[0]'' =
     Inr \<lparr>segments = [Field ''data'', Field ''items'', Wildcard, Field ''payload'', Index 0], raw = ''data.items[*].payload[0]''\<rparr>"
proof -
  have "path_text True [Field ''data'', Field ''items'', Wildcard, Field ''payload'', Index 0] = ''data.items[*].payload[0]''"
    by code_simp
  then show ?thesis
    using selector_roundtrip [of "[Field ''data'', Field ''items'', Wildcard, Field ''payload'', Index 0]"]
    by (simp add: path_ok_def)
qed

end
