(* ===== verification/Pg_Bytes.thy ===== *)
theory Pg_Bytes
  imports Source_Core
begin

text \<open>
  The bytes of the PostgreSQL wire formats. A byte slice is a \<open>char list\<close>, as a string is;
  a fixed-width integer on the wire is its big-endian bytes, read back as a natural number
  (\<open>from_be_bytes\<close> of an unsigned type) or as a two's complement integer.
\<close>

section \<open>Big-endian integers\<close>

definition from_be :: "string \<Rightarrow> nat" where
  "from_be bs = foldl (\<lambda>n c. n * 256 + of_char c) 0 bs"

fun to_be :: "nat \<Rightarrow> nat \<Rightarrow> string" where
  "to_be 0 n = []"
| "to_be (Suc k) n = to_be k (n div 256) @ [char_of n]"

lemma from_be_Nil [simp]: "from_be [] = 0"
  by (simp add: from_be_def)

lemma from_be_snoc [simp]: "from_be (bs @ [c]) = from_be bs * 256 + of_char c"
  by (simp add: from_be_def)

lemma to_be_length [simp]: "length (to_be k n) = k"
  by (induction k n rule: to_be.induct) auto

lemma from_be_less: "from_be bs < 256 ^ length bs"
proof (induction bs rule: rev_induct)
  case (snoc c bs)
  have "(of_char c :: nat) < 256" by (rule nat_of_char_less_256)
  then have "from_be bs * 256 + of_char c < (from_be bs + 1) * 256" by simp
  also have "\<dots> \<le> 256 ^ length bs * 256" using snoc by (intro mult_right_mono) auto
  finally show ?case by (simp add: mult.commute)
qed simp

lemma from_to_be: "from_be (to_be k n) = n mod 256 ^ k"
proof (induction k arbitrary: n)
  case (Suc k)
  show ?case by (simp add: Suc.IH mod_mult2_eq)
qed simp

lemma from_to_be_id [simp]: "n < 256 ^ k \<Longrightarrow> from_be (to_be k n) = n"
  by (simp add: from_to_be)

lemma to_from_be: "to_be (length bs) (from_be bs) = bs"
proof (induction bs rule: rev_induct)
  case (snoc c bs)
  have c: "(of_char c :: nat) < 256" by (rule nat_of_char_less_256)
  then have "(from_be bs * 256 + of_char c) div 256 = from_be bs" by simp
  moreover have "char_of (from_be bs * 256 + of_char c) = c"
    by (rule char_of_eq_iff [THEN iffD2]) (use c in \<open>auto simp: take_bit_eq_mod\<close>)
  ultimately show ?case using snoc by simp
qed simp

lemma from_be_eq_iff: "length bs = k \<Longrightarrow> from_be bs = n \<longleftrightarrow> n < 256 ^ k \<and> bs = to_be k n"
  using from_be_less [of bs] to_from_be [of bs] from_to_be_id [of n k] by metis

text \<open>Two's complement at a width of \<open>w\<close> bits.\<close>

definition signed_of :: "nat \<Rightarrow> nat \<Rightarrow> int" where
  "signed_of w n = (if n < 2 ^ (w - 1) then int n else int n - 2 ^ w)"

definition unsigned_of :: "nat \<Rightarrow> int \<Rightarrow> nat" where
  "unsigned_of w i = nat (i mod 2 ^ w)"

definition in_width :: "nat \<Rightarrow> int \<Rightarrow> bool" where
  "in_width w i \<longleftrightarrow> - (2 ^ (w - 1)) \<le> i \<and> i < 2 ^ (w - 1)"

lemma unsigned_less: "unsigned_of w i < 2 ^ w"
  by (simp add: unsigned_of_def nat_less_iff)

lemma signed_unsigned: "in_width w i \<Longrightarrow> 0 < w \<Longrightarrow> signed_of w (unsigned_of w i) = i"
proof -
  assume i: "in_width w i" and "0 < w"
  then have half: "(2 :: int) ^ w = 2 * 2 ^ (w - 1)" by (cases w) auto
  show ?thesis
  proof (cases "0 \<le> i")
    case True
    with i half have "i mod 2 ^ w = i" by (simp add: in_width_def)
    with True i show ?thesis by (simp add: signed_of_def unsigned_of_def in_width_def nat_less_iff)
  next
    case False
    with i half have "i mod 2 ^ w = i + 2 ^ w"
      using mod_add_self2 [of i "2 ^ w"] mod_pos_pos_trivial [of "i + 2 ^ w" "2 ^ w"]
      by (simp add: in_width_def)
    with False i half show ?thesis
      by (auto simp: signed_of_def unsigned_of_def in_width_def nat_less_iff)
  qed
qed

section \<open>UTF-8\<close>

text \<open>\<open>str::from_utf8\<close> accepts exactly the well-formed sequences of the Unicode standard.\<close>

definition cont_byte :: "nat \<Rightarrow> nat \<Rightarrow> char \<Rightarrow> bool" where
  "cont_byte lo hi c \<longleftrightarrow> lo \<le> of_char c \<and> of_char c \<le> hi"

abbreviation tail_byte :: "char \<Rightarrow> bool" where
  "tail_byte \<equiv> cont_byte 0x80 0xBF"

fun utf8_ok :: "string \<Rightarrow> bool" where
  "utf8_ok [] \<longleftrightarrow> True"
| "utf8_ok (a # s) \<longleftrightarrow>
     (let n = of_char a :: nat in
      if n < 0x80 then utf8_ok s
      else if 0xC2 \<le> n \<and> n \<le> 0xDF then
        (case s of b # s' \<Rightarrow> tail_byte b \<and> utf8_ok s' | _ \<Rightarrow> False)
      else if 0xE0 \<le> n \<and> n \<le> 0xEF then
        (case s of
           b # c # s' \<Rightarrow>
             cont_byte (if n = 0xE0 then 0xA0 else 0x80) (if n = 0xED then 0x9F else 0xBF) b
             \<and> tail_byte c \<and> utf8_ok s'
         | _ \<Rightarrow> False)
      else if 0xF0 \<le> n \<and> n \<le> 0xF4 then
        (case s of
           b # c # d # s' \<Rightarrow>
             cont_byte (if n = 0xF0 then 0x90 else 0x80) (if n = 0xF4 then 0x8F else 0xBF) b
             \<and> tail_byte c \<and> tail_byte d \<and> utf8_ok s'
         | _ \<Rightarrow> False)
      else False)"

definition from_utf8 :: "string \<Rightarrow> string option" where
  "from_utf8 bs = (if utf8_ok bs then Some bs else None)"

lemma utf8_ok_ascii: "(\<And>c. c \<in> set s \<Longrightarrow> of_char c < (128 :: nat)) \<Longrightarrow> utf8_ok s"
  by (induction s) auto

text \<open>\<open>{:#04x}\<close> of a byte.\<close>

definition byte_hex :: "char \<Rightarrow> string" where
  "byte_hex c = ''0x'' @ [hex_digit_lower (of_char c div 16), hex_digit_lower (of_char c mod 16)]"

end
