(* ===== verification/Pg_Value.thy ===== *)
theory Pg_Value
  imports Pg_Bytes Sql_Text
begin

text \<open>
  The PostgreSQL connector's value vocabulary: \<^verbatim>\<open>types/vocabulary.rs\<close> (kinds, scalars),
  \<^verbatim>\<open>types/text.rs\<close> (text to value), \<^verbatim>\<open>types/literal.rs\<close> (value to SQL literal), the text half
  of \<^verbatim>\<open>types/builder.rs\<close> and the errors of \<^verbatim>\<open>source/errors.rs\<close>. The \<open>chrono\<close> crate, the
  float parser, the decimal shape check of \<open>arrow\<close> and its refusal of a batch without columns are fields of \<open>pg_lib\<close>; an \<open>f64\<close> is
  its bits.
\<close>

section \<open>Kinds and values\<close>

datatype kind =
    KBool | KInt16 | KInt32 | KInt64 | KFloat32 | KFloat64
  | KDecimal nat nat
  | KText | KJsonb | KUuid | KBytea | KTimestampTz | KTimestampNaive | KDate | KTime

text \<open>The Arrow types the connector handles; \<open>DOther\<close> is any other type, by its text.\<close>

datatype data_type =
    DBoolean | DInt64 | DFloat64
  | DDecimal128 nat int
  | DUtf8 | DBinary
  | DTimestamp "string option"
  | DDate32 | DTime64
  | DOther string

definition kind_arrow :: "kind \<Rightarrow> data_type" where
  "kind_arrow k =
     (case k of
        KBool \<Rightarrow> DBoolean
      | KInt16 \<Rightarrow> DInt64 | KInt32 \<Rightarrow> DInt64 | KInt64 \<Rightarrow> DInt64
      | KFloat32 \<Rightarrow> DFloat64 | KFloat64 \<Rightarrow> DFloat64
      | KDecimal p s \<Rightarrow> DDecimal128 p (signed_of 8 s)
      | KText \<Rightarrow> DUtf8 | KJsonb \<Rightarrow> DUtf8 | KUuid \<Rightarrow> DUtf8
      | KBytea \<Rightarrow> DBinary
      | KTimestampTz \<Rightarrow> DTimestamp (Some ''UTC'')
      | KTimestampNaive \<Rightarrow> DTimestamp None
      | KDate \<Rightarrow> DDate32
      | KTime \<Rightarrow> DTime64)"

record pg_column =
  pc_name :: string
  pc_kind :: kind
  pc_not_null :: bool

text \<open>
  One cell of an Arrow array. The array's type tells a zoned from a naive timestamp; the cell
  carries the mark itself.
\<close>

datatype avalue =
    ANull
  | ABool bool
  | AInt int
  | AFloat "64 word"
  | ADecimal int
  | AText string
  | ABinary string
  | ATimestamp bool int
  | ADate int
  | ATime int

text \<open>A record batch: its fields (name, type, nullable) and its rows.\<close>

record record_batch =
  rb_fields :: "(string \<times> data_type \<times> bool) list"
  rb_rows :: "avalue list list"

datatype scalar =
    SInt int
  | SDecimal int nat
  | SText string
  | SUuid string
  | STimestampTz int
  | STimestampNaive int
  | SDate int
  | STime int

section \<open>Errors\<close>

datatype phase = PConnect | PReflect | PCopy | PDecode | PSlot

definition phase_text :: "phase \<Rightarrow> string" where
  "phase_text p = (case p of PConnect \<Rightarrow> ''connect'' | PReflect \<Rightarrow> ''reflect'' | PCopy \<Rightarrow> ''copy''
     | PDecode \<Rightarrow> ''decode'' | PSlot \<Rightarrow> ''cdc-slot'')"

definition pg_error_text :: "phase \<Rightarrow> string option \<Rightarrow> string \<Rightarrow> string" where
  "pg_error_text ph tab detail =
     ''postgres source, '' @ phase_text ph @ '' phase''
     @ (case tab of None \<Rightarrow> [] | Some t \<Rightarrow> '' (table `'' @ t @ ''`)'') @ '': '' @ detail"

definition pg_fatal :: "phase \<Rightarrow> string option \<Rightarrow> string \<Rightarrow> source_error" where
  "pg_fatal ph tab detail = SFatal (pg_error_text ph tab detail)"

definition pg_transient :: "phase \<Rightarrow> string option \<Rightarrow> string \<Rightarrow> source_error" where
  "pg_transient ph tab detail = STransient (pg_error_text ph tab detail)"

section \<open>Text to value\<close>

record pg_lib =
  parse_f64 :: "string \<Rightarrow> (string, 64 word) result"
  datetime_from_str :: "string \<Rightarrow> string \<Rightarrow> (string, int) result"
  naive_datetime_from_str :: "string \<Rightarrow> string \<Rightarrow> (string, int) result"
  datetime_rfc3339 :: "string \<Rightarrow> (string, int) result"
  naive_date_from_str :: "string \<Rightarrow> string \<Rightarrow> (string, int) result"
  naive_time_from_str :: "string \<Rightarrow> string \<Rightarrow> (string, nat \<times> nat) result"
  decimal_shape :: "nat \<Rightarrow> int \<Rightarrow> (string, unit) result"
  no_columns :: string

text \<open>
  \<open>str::parse\<close> of a signed integer type: an optional sign, then digits, each step checked
  against the type's range. The texts are those of \<open>ParseIntError\<close>.
\<close>

fun int_digits :: "int \<Rightarrow> int \<Rightarrow> int \<Rightarrow> int \<Rightarrow> string \<Rightarrow> (string, int) result" where
  "int_digits sg lo hi acc [] = Inr acc"
| "int_digits sg lo hi acc (c # cs) =
     (case digit_value c of
        None \<Rightarrow> Inl ''invalid digit found in string''
      | Some d \<Rightarrow>
          (let n = acc * 10 + sg * int d in
           if hi < n then Inl ''number too large to fit in target type''
           else if n < lo then Inl ''number too small to fit in target type''
           else int_digits sg lo hi n cs))"

definition parse_signed :: "nat \<Rightarrow> string \<Rightarrow> (string, int) result" where
  "parse_signed w s =
     (let lo = - (2 ^ (w - 1)); hi = 2 ^ (w - 1) - 1 in
      case s of
        [] \<Rightarrow> Inl ''cannot parse integer from empty string''
      | c # cs \<Rightarrow>
          if cs = [] \<and> (c = CHR ''+'' \<or> c = CHR ''-'') then Inl ''invalid digit found in string''
          else if c = CHR ''+'' then int_digits 1 lo hi 0 cs
          else if c = CHR ''-'' then int_digits (- 1) lo hi 0 cs
          else int_digits 1 lo hi 0 s)"

definition ticked :: "string \<Rightarrow> string" where
  "ticked s = ''`'' @ s @ ''`''"

definition parse_bool_text :: "string \<Rightarrow> (string, bool) result" where
  "parse_bool_text v =
     (if v = ''t'' then Inr True else if v = ''f'' then Inr False
      else Inl (ticked v @ '' is not a bool''))"

definition parse_int_text :: "string \<Rightarrow> (string, int) result" where
  "parse_int_text v = map_err (\<lambda>e. ticked v @ '' is not an integer: '' @ e) (parse_signed 64 v)"

definition parse_float_text :: "pg_lib \<Rightarrow> string \<Rightarrow> (string, 64 word) result" where
  "parse_float_text lib v = map_err (\<lambda>e. ticked v @ '' is not a float: '' @ e) (parse_f64 lib v)"

definition parse_decimal_scaled :: "string \<Rightarrow> nat \<Rightarrow> (string, int) result" where
  "parse_decimal_scaled v scale =
     (let (sg, body) = (case v of c # cs \<Rightarrow> if c = CHR ''-'' then (- 1, cs) else (1, v) | [] \<Rightarrow> (1 :: int, v));
          (whole, fraction) = (case split_once CHR ''.'' body of Some p \<Rightarrow> p | None \<Rightarrow> (body, [])) in
      if whole = [] \<and> fraction = [] \<or> \<not> list_all digit whole \<or> \<not> list_all digit fraction
      then Inl (ticked v @ '' is not a plain numeric literal'')
      else if length fraction > scale
      then Inl (ticked v @ '' carries more fractional digits than numeric scale '' @ show_nat scale)
      else
        let digits = whole @ fraction @ replicate (scale - length fraction) CHR ''0'' in
        map_err (\<lambda>e. ticked v @ '' overflows the numeric wire range: '' @ e)
          (rbind (parse_signed 128 digits) (\<lambda>scaled. Inr (sg * scaled))))"

text \<open>
  The hex pairs of a \<open>bytea\<close> text. \<open>from_str_radix\<close> takes a plus sign before one digit.
  A slice that would cut a UTF-8 sequence panics.
\<close>

definition hex_pair :: "char \<Rightarrow> char \<Rightarrow> char option" where
  "hex_pair h l =
     (case hex_value l of
        None \<Rightarrow> None
      | Some b \<Rightarrow>
          if h = CHR ''+'' then Some (char_of b)
          else map_option (\<lambda>a. char_of (16 * a + b)) (hex_value h))"

definition char_boundary :: "string \<Rightarrow> bool" where
  "char_boundary s \<longleftrightarrow> (case s of [] \<Rightarrow> True | c # _ \<Rightarrow> \<not> tail_byte c)"

fun hex_pairs :: "nat \<Rightarrow> string \<Rightarrow> (string, string) result" where
  "hex_pairs offset (h # l # rest) =
     (if \<not> char_boundary rest then Inl ''panic: byte index is not a char boundary''
      else
        case hex_pair h l of
          None \<Rightarrow> Inl (''bytea hex contains a non-hex pair at offset '' @ show_nat offset)
        | Some b \<Rightarrow> rbind (hex_pairs (offset + 2) rest) (\<lambda>bs. Inr (b # bs)))"
| "hex_pairs offset _ = Inr []"

definition parse_bytea_hex :: "string \<Rightarrow> (string, string) result" where
  "parse_bytea_hex v =
     (if take 2 v \<noteq> [CHR 0x5C, CHR ''x'']
      then Inl (''bytea text '' @ ticked v @ '' lacks the '' @ [CHR 0x5C] @ ''x prefix'')
      else if length (drop 2 v) mod 2 \<noteq> 0 then Inl ''bytea hex has odd length''
      else hex_pairs 0 (drop 2 v))"

definition i64_max :: int where "i64_max = 2 ^ 63 - 1"
definition i64_min :: int where "i64_min = - (2 ^ 63)"
definition i32_max :: int where "i32_max = 2 ^ 31 - 1"
definition i32_min :: int where "i32_min = - (2 ^ 31)"

definition parse_timestamp :: "pg_lib \<Rightarrow> string \<Rightarrow> bool \<Rightarrow> (string, int) result" where
  "parse_timestamp lib v with_zone =
     (if v = ''infinity'' then Inr i64_max
      else if v = ''-infinity'' then Inr i64_min
      else if with_zone
      then map_err (\<lambda>e. ticked v @ '' is not a timestamptz: '' @ e)
             (datetime_from_str lib v ''%Y-%m-%d %H:%M:%S%.f%#z'')
      else map_err (\<lambda>e. ticked v @ '' is not a timestamp: '' @ e)
             (naive_datetime_from_str lib v ''%Y-%m-%d %H:%M:%S%.f''))"

definition parse_date_days :: "pg_lib \<Rightarrow> string \<Rightarrow> (string, int) result" where
  "parse_date_days lib v =
     (if v = ''infinity'' then Inr i32_max
      else if v = ''-infinity'' then Inr i32_min
      else rbind (map_err (\<lambda>e. ticked v @ '' is not a date: '' @ e) (naive_date_from_str lib v ''%Y-%m-%d''))
        (\<lambda>days. if in_width 32 days then Inr days else Inl (''date '' @ ticked v @ '' out of range'')))"

definition time_micros :: "nat \<times> nat \<Rightarrow> int" where
  "time_micros t = int (fst t) * 1000000 + int (snd t div 1000)"

definition parse_time_microseconds :: "pg_lib \<Rightarrow> string \<Rightarrow> (string, int) result" where
  "parse_time_microseconds lib v =
     rbind (map_err (\<lambda>e. ticked v @ '' is not a time: '' @ e) (naive_time_from_str lib v ''%H:%M:%S%.f''))
       (\<lambda>t. Inr (time_micros t))"

definition parse_timestamp_flexible :: "pg_lib \<Rightarrow> string \<Rightarrow> int option" where
  "parse_timestamp_flexible lib v =
     (case datetime_rfc3339 lib v of
        Inr micros \<Rightarrow> Some micros
      | Inl _ \<Rightarrow>
          (case naive_datetime_from_str lib v ''%Y-%m-%d %H:%M:%S%.f'' of
             Inr micros \<Rightarrow> Some micros
           | Inl _ \<Rightarrow>
               (case naive_datetime_from_str lib v ''%Y-%m-%dT%H:%M:%S%.f'' of
                  Inr micros \<Rightarrow> Some micros
                | Inl _ \<Rightarrow> None)))"

definition ascii_lower :: "char \<Rightarrow> char" where
  "ascii_lower c = (let b = of_char c :: nat in if 65 \<le> b \<and> b \<le> 90 then char_of (b + 32) else c)"

text \<open>The ellipsis of the source's messages, in UTF-8.\<close>

definition ellipsis :: string where
  "ellipsis = [CHR 0xE2, CHR 0x80, CHR 0xA6]"

definition parse_scalar :: "pg_lib \<Rightarrow> kind \<Rightarrow> string \<Rightarrow> (string, scalar) result" where
  "parse_scalar lib k v =
     (let int_scalar = rbind (map_err (\<lambda>e. ''cursor literal '' @ ticked v @ '' is not an integer: '' @ e)
            (parse_signed 64 v)) (\<lambda>i. Inr (SInt i));
          stamp = (\<lambda>mk. case parse_timestamp_flexible lib v of
              Some micros \<Rightarrow> Inr (mk micros)
            | None \<Rightarrow> Inl (''cursor literal '' @ ticked v @ '' is not an RFC3339/ISO timestamp''));
          bad_date = ''cursor literal '' @ ticked v @ '' is not a YYYY-MM-DD date'' in
      case k of
        KInt16 \<Rightarrow> int_scalar | KInt32 \<Rightarrow> int_scalar | KInt64 \<Rightarrow> int_scalar
      | KDecimal _ scale \<Rightarrow>
          (case parse_decimal_scaled v scale of
             Inr scaled \<Rightarrow> Inr (SDecimal scaled scale)
           | Inl _ \<Rightarrow> Inl (''cursor literal '' @ ticked v @ '' is not a numeric('' @ ellipsis @ '','' @ show_nat scale @ '')''))
      | KText \<Rightarrow> Inr (SText v)
      | KUuid \<Rightarrow> Inr (SUuid (map ascii_lower v))
      | KTimestampTz \<Rightarrow> stamp STimestampTz
      | KTimestampNaive \<Rightarrow> stamp STimestampNaive
      | KDate \<Rightarrow>
          (if v = ''infinity'' \<or> v = ''-infinity'' then Inl bad_date
           else case parse_date_days lib v of Inr d \<Rightarrow> Inr (SDate d) | Inl _ \<Rightarrow> Inl bad_date)
      | KTime \<Rightarrow>
          (case (case naive_time_from_str lib v ''%H:%M:%S%.f'' of
                   Inr t \<Rightarrow> Inr t | Inl _ \<Rightarrow> naive_time_from_str lib v ''%H:%M'') of
             Inr t \<Rightarrow> Inr (STime (time_micros t))
           | Inl _ \<Rightarrow> Inl (''cursor literal '' @ ticked v @ '' is not a HH:MM[:SS[.ffffff]] time''))
      | _ \<Rightarrow> Inl ''cursor column type is not cursor-capable'')"

section \<open>Value to SQL literal\<close>

definition decimal_text :: "int \<Rightarrow> nat \<Rightarrow> string" where
  "decimal_text scaled scale =
     (let sign = (if scaled < 0 then ''-'' else []);
          digits = show_nat (nat \<bar>scaled\<bar>) in
      if scale = 0 then sign @ digits
      else
        let padded = replicate (scale + 1 - length digits) CHR ''0'' @ digits;
            cut = length padded - scale in
        sign @ take cut padded @ ''.'' @ drop cut padded)"

definition doubled_quotes :: "string \<Rightarrow> string" where
  "doubled_quotes = replace_char squote [squote, squote]"

definition render_literal :: "scalar \<Rightarrow> string" where
  "render_literal s =
     (case s of
        SInt i \<Rightarrow> show_int i @ ''::int8''
      | SDecimal scaled scale \<Rightarrow> [squote] @ decimal_text scaled scale @ [squote] @ ''::numeric''
      | SText v \<Rightarrow> [squote] @ doubled_quotes v @ [squote] @ ''::text''
      | SUuid v \<Rightarrow> [squote] @ doubled_quotes v @ [squote] @ ''::uuid''
      | STimestampTz m \<Rightarrow> ''(TIMESTAMPTZ '' @ [squote] @ ''epoch'' @ [squote] @ '' + '' @ show_int m
          @ ''::int8 * INTERVAL '' @ [squote] @ ''1 microsecond'' @ [squote] @ '')''
      | STimestampNaive m \<Rightarrow> ''(TIMESTAMP '' @ [squote] @ ''epoch'' @ [squote] @ '' + '' @ show_int m
          @ ''::int8 * INTERVAL '' @ [squote] @ ''1 microsecond'' @ [squote] @ '')''
      | SDate d \<Rightarrow> ''(DATE '' @ [squote] @ ''epoch'' @ [squote] @ '' + '' @ show_int d @ ''::int4)''
      | STime m \<Rightarrow> ''(TIME '' @ [squote] @ ''00:00'' @ [squote] @ '' + '' @ show_int m
          @ ''::int8 * INTERVAL '' @ [squote] @ ''1 microsecond'' @ [squote] @ '')'')"

section \<open>Appending text to a column\<close>

text \<open>A builder's backing is determined by its kind, so the mismatch arm is unreachable.\<close>

definition builder_new :: "pg_lib \<Rightarrow> kind \<Rightarrow> (string, unit) result" where
  "builder_new lib k =
     (case k of
        KDecimal p s \<Rightarrow>
          map_err (\<lambda>e. ''internal invalid decimal shape (precision '' @ show_nat p @ '', scale '' @ show_nat s
            @ ''): '' @ e) (decimal_shape lib p (signed_of 8 s))
      | _ \<Rightarrow> Inr ())"

definition append_text :: "pg_lib \<Rightarrow> kind \<Rightarrow> string \<Rightarrow> (string, avalue) result" where
  "append_text lib k v =
     (let as = (\<lambda>mk r. rbind r (\<lambda>x. Inr (mk x))) in
      case k of
        KBool \<Rightarrow> rbind (parse_bool_text v) (\<lambda>b. Inr (ABool b))
      | KInt16 \<Rightarrow> as AInt (parse_int_text v)
      | KInt32 \<Rightarrow> as AInt (parse_int_text v)
      | KInt64 \<Rightarrow> as AInt (parse_int_text v)
      | KFloat32 \<Rightarrow> rbind (parse_float_text lib v) (\<lambda>x. Inr (AFloat x))
      | KFloat64 \<Rightarrow> rbind (parse_float_text lib v) (\<lambda>x. Inr (AFloat x))
      | KDecimal _ scale \<Rightarrow> as ADecimal (parse_decimal_scaled v scale)
      | KText \<Rightarrow> Inr (AText v) | KJsonb \<Rightarrow> Inr (AText v) | KUuid \<Rightarrow> Inr (AText v)
      | KBytea \<Rightarrow> rbind (parse_bytea_hex v) (\<lambda>b. Inr (ABinary b))
      | KTimestampTz \<Rightarrow> as (ATimestamp True) (parse_timestamp lib v True)
      | KTimestampNaive \<Rightarrow> as (ATimestamp False) (parse_timestamp lib v False)
      | KDate \<Rightarrow> as ADate (parse_date_days lib v)
      | KTime \<Rightarrow> as ATime (parse_time_microseconds lib v))"

section \<open>Decimal literals read back\<close>

definition digits_value :: "string \<Rightarrow> nat" where
  "digits_value ds = foldl (\<lambda>n c. n * 10 + the (digit_value c)) 0 ds"

lemma digits_value_snoc [simp]: "digits_value (ds @ [c]) = digits_value ds * 10 + the (digit_value c)"
  by (simp add: digits_value_def)

lemma digit_value_digit: "digit c \<longleftrightarrow> (\<exists>d. digit_value c = Some d)"
  by (auto simp: digit_def digit_value_def Let_def)

lemma int_digits_append: "int_digits sg lo hi acc (xs @ ys) =
    rbind (int_digits sg lo hi acc xs) (\<lambda>a. int_digits sg lo hi a ys)"
  by (induction xs arbitrary: acc) (auto simp: Let_def split: option.splits)

lemma int_digits_value:
  "list_all digit ds \<Longrightarrow> lo \<le> 0 \<Longrightarrow> int (digits_value ds) \<le> hi
   \<Longrightarrow> int_digits 1 lo hi 0 ds = Inr (int (digits_value ds))"
proof (induction ds rule: rev_induct)
  case Nil
  then show ?case by (simp add: digits_value_def)
next
  case (snoc c ds)
  then obtain d where d: "digit_value c = Some d" by (auto simp: digit_value_digit)
  from snoc.prems d have "int_digits 1 lo hi 0 ds = Inr (int (digits_value ds))" by (intro snoc.IH) auto
  with d snoc.prems show ?case by (simp add: int_digits_append Let_def)
qed

lemma digits_value_show: "digits_value (show_nat n) = n"
proof (induction n rule: show_nat.induct)
  case (1 n)
  then show ?case
    using digit_char [of n] digit_char [of "n mod 10"]
    by (subst show_nat.simps) (auto simp: digits_value_def)
qed

lemma digits_value_zeros: "digits_value (replicate k CHR ''0'' @ ds) = digits_value ds"
proof -
  have "foldl (\<lambda>n c. n * 10 + the (digit_value c)) 0 (replicate k CHR ''0'') = 0"
    by (induction k) (auto simp: digit_value_def)
  then show ?thesis by (simp add: digits_value_def)
qed

lemma digit_not_sign: "digit c \<Longrightarrow> c \<noteq> CHR ''+'' \<and> c \<noteq> CHR ''-'' \<and> c \<noteq> CHR ''.''"
  by (auto simp: digit_def)

lemma parse_signed_digits:
  assumes "list_all digit ds" and "ds \<noteq> []" and "int (digits_value ds) < 2 ^ (w - 1)"
  shows "parse_signed w ds = Inr (int (digits_value ds))"
proof -
  have "int_digits 1 (- (2 ^ (w - 1))) (2 ^ (w - 1) - 1) 0 ds = Inr (int (digits_value ds))"
    by (rule int_digits_value) (use assms in auto)
  with assms(1,2) show ?thesis
    by (cases ds) (auto simp: parse_signed_def Let_def dest: digit_not_sign)
qed

lemma parse_decimal_parts:
  assumes "list_all digit whole" and "list_all digit fraction" and "whole \<noteq> []"
    and "length fraction \<le> scale" and "0 < length fraction \<Longrightarrow> body = whole @ CHR ''.'' # fraction"
    and "fraction = [] \<Longrightarrow> body = whole"
    and "int (digits_value (whole @ fraction @ replicate (scale - length fraction) CHR ''0'')) < 2 ^ 127"
  shows "parse_decimal_scaled (if neg then CHR ''-'' # body else body) scale
    = Inr ((if neg then - 1 else 1) * int (digits_value (whole @ fraction @ replicate (scale - length fraction) CHR ''0'')))"
proof -
  let ?ds = "whole @ fraction @ replicate (scale - length fraction) CHR ''0''"
  have dot: "CHR ''.'' \<notin> set whole" using assms(1) by (auto simp: list_all_iff dest: digit_not_sign)
  obtain c cs where w: "whole = c # cs" using assms(3) by (cases whole) auto
  then have c: "c \<noteq> CHR ''-''" using assms(1) by (auto dest: digit_not_sign)
  have split: "(case split_once CHR ''.'' body of Some p \<Rightarrow> p | None \<Rightarrow> (body, [])) = (whole, fraction)"
  proof (cases "fraction = []")
    case True
    with assms(6) dot show ?thesis by (simp add: split_once_None [THEN iffD2])
  next
    case False
    with assms(5) dot show ?thesis by (simp add: split_once_append)
  qed
  have body: "\<exists>bs. body = c # bs" using w assms(5,6) by (cases "fraction = []") auto
  have "digit CHR ''0''" by (simp add: digit_def)
  with assms have ds: "parse_signed 128 ?ds = Inr (int (digits_value ?ds))"
    by (intro parse_signed_digits) (auto simp: list_all_iff)
  from body c split ds assms(1-4) show ?thesis
    by (auto simp: parse_decimal_scaled_def Let_def)
qed

text \<open>
  C32. Rendering a decimal and parsing it back are inverse: the decimal text of every scaled value
  of fewer than 128 bits, at every scale, is read back by the decimal parser as exactly that
  value, without overflow and without losing a digit of the fraction.
\<close>

theorem decimal_text_roundtrip:
  assumes "\<bar>scaled\<bar> < 2 ^ 127"
  shows "parse_decimal_scaled (decimal_text scaled scale) scale = Inr scaled"
proof -
  define ds where "ds = show_nat (nat \<bar>scaled\<bar>)"
  define padded where "padded = replicate (scale + 1 - length ds) CHR ''0'' @ ds"
  define cut where "cut = length padded - scale"
  have digits: "list_all digit ds" "ds \<noteq> []" using show_nat_digits by (auto simp: ds_def list_all_iff)
  then have pd: "list_all digit padded" by (auto simp: padded_def list_all_iff digit_def)
  have worth: "digits_value padded = nat \<bar>scaled\<bar>"
    by (simp add: padded_def digits_value_zeros) (simp add: ds_def digits_value_show)
  have len: "scale + 1 \<le> length padded" by (simp add: padded_def)
  show ?thesis
  proof (cases "scale = 0")
    case True
    have "parse_decimal_scaled (if scaled < 0 then CHR ''-'' # ds else ds) scale
        = Inr ((if scaled < 0 then - 1 else 1) * int (digits_value (ds @ [] @ replicate (scale - length ([] :: string)) CHR ''0'')))"
      by (rule parse_decimal_parts) (use digits assms True in \<open>auto simp: ds_def digits_value_show\<close>)
    with True assms show ?thesis by (auto simp: decimal_text_def ds_def digits_value_show)
  next
    case False
    let ?w = "take cut padded" and ?f = "drop cut padded"
    have f: "length ?f = scale" using len by (simp add: cut_def)
    have "?w \<noteq> []" using len by (auto simp: cut_def)
    then have "parse_decimal_scaled (if scaled < 0 then CHR ''-'' # (?w @ CHR ''.'' # ?f) else ?w @ CHR ''.'' # ?f) scale
        = Inr ((if scaled < 0 then - 1 else 1) * int (digits_value (?w @ ?f @ replicate (scale - length ?f) CHR ''0'')))"
      using pd assms False f worth
      by (intro parse_decimal_parts) (auto simp: list_all_iff dest: in_set_takeD in_set_dropD)
    moreover have "decimal_text scaled scale
        = (if scaled < 0 then CHR ''-'' # (?w @ CHR ''.'' # ?f) else ?w @ CHR ''.'' # ?f)"
      using False by (simp only: decimal_text_def Let_def cut_def padded_def ds_def) simp
    moreover have "?w @ ?f @ replicate (scale - length ?f) CHR ''0'' = padded" using f by simp
    moreover have "(if scaled < 0 then - 1 else 1) * int (nat \<bar>scaled\<bar>) = scaled" by simp
    ultimately show ?thesis by (simp only: worth)
  qed
qed

theorem decimal_text_roundtrip_witness:
  "parse_decimal_scaled (decimal_text (- 5) 2) 2 = Inr (- 5) \<and> decimal_text (- 5) 2 = ''-0.05''"
proof (rule conjI, rule decimal_text_roundtrip)
  have "show_nat 5 = ''5''"
    using char_of_char [where ?'a = nat, of "CHR ''5''"] by (subst show_nat.simps) simp
  then show "decimal_text (- 5) 2 = ''-0.05''" by (simp add: decimal_text_def Let_def)
qed simp

end
