(* ===== verification/Pg_Cursor.thy ===== *)
theory Pg_Cursor
  imports Pg_Value "HOL-Library.Option_ord"
begin

text \<open>
  Incremental reads of the PostgreSQL source: \<^verbatim>\<open>source/cursor/state.rs\<close> (the persisted
  watermark), \<^verbatim>\<open>source/cursor/tracker.rs\<close> (what a read delivers and checkpoints) and
  \<^verbatim>\<open>source/cursor/prepare.rs\<close> with \<^verbatim>\<open>source/sql.rs\<close> (the query a read resumes with). A record
  batch is the list of its rows, a row the list of its cells.
\<close>

section \<open>The order of scalars\<close>

text \<open>The derived \<open>Ord\<close>: by variant, then by content; a decimal by \<open>scaled\<close> first.\<close>

fun scalar_rank :: "scalar \<Rightarrow> nat \<times> int \<times> nat \<times> string" where
  "scalar_rank (SInt i) = (0, i, 0, [])"
| "scalar_rank (SDecimal i n) = (1, i, n, [])"
| "scalar_rank (SText s) = (2, 0, 0, s)"
| "scalar_rank (SUuid s) = (3, 0, 0, s)"
| "scalar_rank (STimestampTz i) = (4, i, 0, [])"
| "scalar_rank (STimestampNaive i) = (5, i, 0, [])"
| "scalar_rank (SDate i) = (6, i, 0, [])"
| "scalar_rank (STime i) = (7, i, 0, [])"

fun rank_less :: "nat \<times> int \<times> nat \<times> string \<Rightarrow> nat \<times> int \<times> nat \<times> string \<Rightarrow> bool" where
  "rank_less (t, i, n, s) (t', i', n', s') \<longleftrightarrow>
     t < t' \<or> t = t' \<and> (i < i' \<or> i = i' \<and> (n < n' \<or> n = n' \<and> s < s'))"

lemma scalar_rank_inj: "scalar_rank a = scalar_rank b \<longleftrightarrow> a = b"
  by (cases a; cases b) auto

lemma rank_less_trans: "rank_less a b \<Longrightarrow> rank_less b c \<Longrightarrow> rank_less a c"
  by (cases a; cases b; cases c) auto

lemma rank_less_irrefl: "\<not> rank_less a a"
  by (cases a) auto

lemma rank_less_linear: "rank_less a b \<or> a = b \<or> rank_less b a"
  by (cases a; cases b) auto

instantiation scalar :: linorder
begin

definition less_scalar :: "scalar \<Rightarrow> scalar \<Rightarrow> bool" where
  "a < b \<longleftrightarrow> rank_less (scalar_rank a) (scalar_rank b)"

definition less_eq_scalar :: "scalar \<Rightarrow> scalar \<Rightarrow> bool" where
  "a \<le> b \<longleftrightarrow> a < b \<or> (a :: scalar) = b"

instance
proof
  fix a b c :: scalar
  show "a < b \<longleftrightarrow> a \<le> b \<and> \<not> b \<le> a"
    unfolding less_eq_scalar_def less_scalar_def using rank_less_trans rank_less_irrefl by blast
  show "a \<le> a" by (simp add: less_eq_scalar_def)
  show "a \<le> b \<Longrightarrow> b \<le> c \<Longrightarrow> a \<le> c"
    unfolding less_eq_scalar_def less_scalar_def using rank_less_trans by blast
  show "a \<le> b \<Longrightarrow> b \<le> a \<Longrightarrow> a = b"
    unfolding less_eq_scalar_def less_scalar_def using rank_less_trans rank_less_irrefl by blast
  show "a \<le> b \<or> b \<le> a"
    unfolding less_eq_scalar_def less_scalar_def using rank_less_linear scalar_rank_inj by blast
qed

end

section \<open>The persisted state\<close>

type_synonym row_key = "string option list"

record cursor_state =
  cs_watermark :: scalar
  cs_boundary_keys :: "row_key list"

definition cursor_format_version :: nat where "cursor_format_version = 2"

text \<open>What serde writes for \<open>Watermark\<close>: the variant under \<^verbatim>\<open>t\<close>, its content under \<^verbatim>\<open>v\<close>.\<close>

definition json_int :: "int \<Rightarrow> json" where
  "json_int i = VNumber (if 0 \<le> i then PosInt (word_of_int i) else NegInt i)"

definition watermark_json :: "scalar \<Rightarrow> json" where
  "watermark_json s =
     (let tagged = (\<lambda>t v. VObject [(''t'', VString t), (''v'', v)]) in
      case s of
        SInt i \<Rightarrow> tagged ''int'' (json_int i)
      | SDecimal scaled scale \<Rightarrow>
          tagged ''decimal'' (VObject [(''scaled'', VString (show_int scaled)), (''scale'', json_int (int scale))])
      | SText v \<Rightarrow> tagged ''text'' (VString v)
      | SUuid v \<Rightarrow> tagged ''uuid'' (VString v)
      | STimestampTz i \<Rightarrow> tagged ''timestamp_tz'' (json_int i)
      | STimestampNaive i \<Rightarrow> tagged ''timestamp_naive'' (json_int i)
      | SDate i \<Rightarrow> tagged ''date'' (json_int i)
      | STime i \<Rightarrow> tagged ''time'' (json_int i))"

definition row_key_json :: "row_key \<Rightarrow> json" where
  "row_key_json k = VArray (map (\<lambda>part. case part of None \<Rightarrow> VNull | Some s \<Rightarrow> VString s) k)"

definition encode_state :: "cursor_state \<Rightarrow> json" where
  "encode_state st = VObject
     [(''format_version'', json_int (int cursor_format_version)),
      (''watermark'', watermark_json (cs_watermark st)),
      (''boundary_keys'', VArray (map row_key_json (cs_boundary_keys st)))]"

text \<open>\<open>de\<close> is serde's reading of the \<open>Persisted\<close> document.\<close>

definition stored_version :: "json \<Rightarrow> nat" where
  "stored_version cursor =
     (case Option.bind (get_field ''format_version'' cursor) as_u64 of Some w \<Rightarrow> unat w | None \<Rightarrow> 1)"

definition decode_state :: "(json \<Rightarrow> (string, cursor_state) result) \<Rightarrow> json \<Rightarrow> string
    \<Rightarrow> (source_error, cursor_state) result" where
  "decode_state de cursor tab =
     (let version = stored_version cursor; ours = show_nat cursor_format_version in
      if version < cursor_format_version then Inl (pg_fatal PReflect (Some tab)
        (''stored cursor format v'' @ show_nat version @ '' predates this build (v'' @ ours
         @ ''): the row-key encoding changed; reset state or run a full refresh to re-sync''))
      else if version > cursor_format_version then Inl (pg_fatal PReflect (Some tab)
        (''stored cursor format v'' @ show_nat version @ '' is newer than this build supports (v'' @ ours
         @ ''); upgrade rdlt instead of clearing state''))
      else map_err (\<lambda>e. pg_fatal PReflect (Some tab)
        (''stored cursor state does not decode (state corruption?): '' @ e)) (de cursor))"

text \<open>The scalar of a cursor cell; a column of another array type has none.\<close>

definition scalar_at :: "kind \<Rightarrow> avalue \<Rightarrow> scalar option" where
  "scalar_at k v =
     (case k of
        KInt16 \<Rightarrow> (case v of AInt i \<Rightarrow> Some (SInt i) | _ \<Rightarrow> None)
      | KInt32 \<Rightarrow> (case v of AInt i \<Rightarrow> Some (SInt i) | _ \<Rightarrow> None)
      | KInt64 \<Rightarrow> (case v of AInt i \<Rightarrow> Some (SInt i) | _ \<Rightarrow> None)
      | KDecimal _ scale \<Rightarrow> (case v of ADecimal i \<Rightarrow> Some (SDecimal i scale) | _ \<Rightarrow> None)
      | KText \<Rightarrow> (case v of AText s \<Rightarrow> Some (SText s) | _ \<Rightarrow> None)
      | KUuid \<Rightarrow> (case v of AText s \<Rightarrow> Some (SUuid s) | _ \<Rightarrow> None)
      | KTimestampTz \<Rightarrow> (case v of ATimestamp _ i \<Rightarrow> Some (STimestampTz i) | _ \<Rightarrow> None)
      | KTimestampNaive \<Rightarrow> (case v of ATimestamp _ i \<Rightarrow> Some (STimestampNaive i) | _ \<Rightarrow> None)
      | KDate \<Rightarrow> (case v of ADate i \<Rightarrow> Some (SDate i) | _ \<Rightarrow> None)
      | KTime \<Rightarrow> (case v of ATime i \<Rightarrow> Some (STime i) | _ \<Rightarrow> None)
      | _ \<Rightarrow> None)"

section \<open>The tracker\<close>

type_synonym row = "avalue list"

text \<open>
  What the row keys use of \<open>arrow\<close> and \<open>blake3\<close>: stripping a timestamp's zone, the text of a
  cell, and the hex digest of the bytes hashed.
\<close>

record arrow_lib =
  strip_zone :: "avalue \<Rightarrow> (string, avalue) result"
  display :: "avalue \<Rightarrow> (string, string) result"
  blake3_hex :: "string \<Rightarrow> string"

record spec =
  sp_cursor_index :: nat
  sp_kind :: kind
  sp_direction_max :: bool
  sp_stored :: "cursor_state option"
  sp_key_columns :: "nat list option"
  sp_null_error :: "(string \<times> string) option"
  sp_stream :: string
  sp_cursor_column :: string

record tracker =
  tk_spec :: spec
  tk_in_boundary :: bool
  tk_last_value :: "scalar option"
  tk_run_keys :: "row_key list"
  tk_emitted :: "(scalar \<times> nat) option"
  tk_deduped_rows :: nat

definition new_tracker :: "spec \<Rightarrow> tracker" where
  "new_tracker sp = \<lparr>tk_spec = sp, tk_in_boundary = True, tk_last_value = None, tk_run_keys = [],
     tk_emitted = None, tk_deduped_rows = 0\<rparr>"

definition is_beyond :: "spec \<Rightarrow> scalar \<Rightarrow> scalar \<Rightarrow> bool" where
  "is_beyond sp candidate reference =
     (if sp_direction_max sp then candidate > reference else candidate < reference)"

definition render_cell :: "arrow_lib \<Rightarrow> spec \<Rightarrow> avalue \<Rightarrow> (source_error, string) result" where
  "render_cell lib sp v =
     (let fail = (\<lambda>what e. pg_fatal PCopy (Some (sp_stream sp))
            (''row key for cursor column `'' @ sp_cursor_column sp @ what @ e)) in
      rbind (case v of
          ATimestamp True _ \<Rightarrow> map_err (fail ''`: re-labeling zoned timestamp failed: '') (strip_zone lib v)
        | _ \<Rightarrow> Inr v) (\<lambda>v'.
      map_err (fail ''` could not be rendered to text: '') (display lib v')))"

fun hash_input :: "arrow_lib \<Rightarrow> spec \<Rightarrow> row \<Rightarrow> (source_error, string) result" where
  "hash_input lib sp [] = Inr []"
| "hash_input lib sp (v # vs) =
     rbind (if v = ANull then Inr [CHR 0xFF, CHR 0x00]
            else rbind (render_cell lib sp v) (\<lambda>s. Inr (s @ [CHR 0x00]))) (\<lambda>bs.
     rbind (hash_input lib sp vs) (\<lambda>rest. Inr (bs @ rest)))"

definition row_key :: "arrow_lib \<Rightarrow> spec \<Rightarrow> row \<Rightarrow> (source_error, row_key) result" where
  "row_key lib sp r =
     (case sp_key_columns sp of
        Some indices \<Rightarrow>
          traverse (\<lambda>i. if r ! i = ANull then Inr None
                       else rbind (render_cell lib sp (r ! i)) (\<lambda>s. Inr (Some s))) indices
      | None \<Rightarrow> rbind (hash_input lib sp r) (\<lambda>bs. Inr [Some (blake3_hex lib bs)]))"

definition cursor_of :: "spec \<Rightarrow> row \<Rightarrow> scalar option" where
  "cursor_of sp r = scalar_at (sp_kind sp) (r ! sp_cursor_index sp)"

text \<open>The boundary check of one row: the tracker, and whether the row is dropped.\<close>

definition boundary_check :: "arrow_lib \<Rightarrow> tracker \<Rightarrow> row \<Rightarrow> (source_error, tracker \<times> bool) result" where
  "boundary_check lib t r =
     (case (cursor_of (tk_spec t) r, sp_stored (tk_spec t)) of
        (Some v, Some stored) \<Rightarrow>
          if \<not> tk_in_boundary t then Inr (t, False)
          else if is_beyond (tk_spec t) v (cs_watermark stored) then Inr (t\<lparr>tk_in_boundary := False\<rparr>, False)
          else if v = cs_watermark stored
          then rbind (row_key lib (tk_spec t) r) (\<lambda>k. Inr (t, k \<in> set (cs_boundary_keys stored)))
          else Inr (t, False)
      | _ \<Rightarrow> Inr (t, False))"

fun scan_rows :: "arrow_lib \<Rightarrow> tracker \<Rightarrow> row list \<Rightarrow> (source_error, tracker \<times> row list) result" where
  "scan_rows lib t [] = Inr (t, [])"
| "scan_rows lib t (r # rs) =
     rbind (boundary_check lib t r) (\<lambda>(t, dropped).
       if dropped then scan_rows lib (t\<lparr>tk_deduped_rows := tk_deduped_rows t + 1\<rparr>) rs
       else rbind (scan_rows lib t rs) (\<lambda>(t, kept). Inr (t, r # kept)))"

definition track_row :: "arrow_lib \<Rightarrow> tracker \<Rightarrow> row \<Rightarrow> (source_error, tracker) result" where
  "track_row lib t r =
     (case cursor_of (tk_spec t) r of
        None \<Rightarrow> Inr t
      | Some v \<Rightarrow>
          (case tk_last_value t of
             Some prev \<Rightarrow>
               if prev = v
               then rbind (row_key lib (tk_spec t) r) (\<lambda>k. Inr (t\<lparr>tk_run_keys := tk_run_keys t @ [k]\<rparr>))
               else if \<not> is_beyond (tk_spec t) v prev
               then Inl (pg_fatal PCopy (Some (sp_stream (tk_spec t)))
                 (''cursor column `'' @ sp_cursor_column (tk_spec t) @ ''` produced an out-of-order row: the read ''
                  @ ''stream broke the ordering its resume watermark depends on''))
               else rbind (row_key lib (tk_spec t) r) (\<lambda>k. Inr (t\<lparr>tk_last_value := Some v, tk_run_keys := [k]\<rparr>))
           | None \<Rightarrow> rbind (row_key lib (tk_spec t) r) (\<lambda>k. Inr (t\<lparr>tk_last_value := Some v, tk_run_keys := [k]\<rparr>))))"

fun track_rows :: "arrow_lib \<Rightarrow> tracker \<Rightarrow> row list \<Rightarrow> (source_error, tracker) result" where
  "track_rows lib t [] = Inr t"
| "track_rows lib t (r # rs) = rbind (track_row lib t r) (\<lambda>t. track_rows lib t rs)"

definition current_state :: "tracker \<Rightarrow> cursor_state option" where
  "current_state t =
     (case tk_last_value t of
        None \<Rightarrow> None
      | Some prev \<Rightarrow>
          (case sp_stored (tk_spec t) of
             None \<Rightarrow> Some \<lparr>cs_watermark = prev, cs_boundary_keys = tk_run_keys t\<rparr>
           | Some stored \<Rightarrow>
               if \<not> is_beyond (tk_spec t) prev (cs_watermark stored) \<and> prev \<noteq> cs_watermark stored then None
               else if prev = cs_watermark stored then
                 if tk_run_keys t = [] then None
                 else Some \<lparr>cs_watermark = prev,
                        cs_boundary_keys = remdups_adj (sort (tk_run_keys t @ cs_boundary_keys stored))\<rparr>
               else Some \<lparr>cs_watermark = prev, cs_boundary_keys = tk_run_keys t\<rparr>))"

definition final_state :: "bool \<Rightarrow> tracker \<Rightarrow> cursor_state option" where
  "final_state keep_keys t =
     map_option (\<lambda>st. if keep_keys then st else st\<lparr>cs_boundary_keys := []\<rparr>) (current_state t)"

definition null_refused :: "spec \<Rightarrow> row list \<Rightarrow> source_error option" where
  "null_refused sp batch =
     (case sp_null_error sp of
        None \<Rightarrow> None
      | Some (stream, column) \<Rightarrow>
          if \<exists>r \<in> set batch. r ! sp_cursor_index sp = ANull
          then Some (pg_fatal PCopy (Some stream)
            (''cursor column `'' @ column @ ''` contains a NULL value and `nulls: error` is configured ''
             @ em_dash @ '' NULL cursors are a data-contract violation under this policy ''
             @ ''(exclude/include accept them)''))
          else None)"

definition checkpoint_of :: "tracker \<Rightarrow> tracker \<times> cursor_state option" where
  "checkpoint_of t =
     (case current_state t of
        None \<Rightarrow> (t, None)
      | Some st \<Rightarrow>
          (let signature = (cs_watermark st, length (cs_boundary_keys st)) in
           if tk_emitted t = Some signature then (t, None)
           else (t\<lparr>tk_emitted := Some signature\<rparr>, Some st)))"

definition process :: "arrow_lib \<Rightarrow> tracker \<Rightarrow> row list
    \<Rightarrow> (source_error, tracker \<times> row list option \<times> cursor_state option) result" where
  "process lib t batch =
     (case null_refused (tk_spec t) batch of
        Some e \<Rightarrow> Inl e
      | None \<Rightarrow>
          rbind (scan_rows lib t batch) (\<lambda>(t, kept).
          rbind (track_rows lib t kept) (\<lambda>t.
            let surviving = (if length kept < length batch then (if kept = [] then None else Some kept)
                             else Some batch);
                (t, checkpoint) = checkpoint_of t in
            Inr (t, surviving, checkpoint))))"

section \<open>A read over many batches\<close>

fun process_all :: "arrow_lib \<Rightarrow> tracker \<Rightarrow> row list list
    \<Rightarrow> (source_error, tracker \<times> (row list option \<times> cursor_state option) list) result" where
  "process_all lib t [] = Inr (t, [])"
| "process_all lib t (b # bs) =
     rbind (process lib t b) (\<lambda>(t, surviving, checkpoint).
     rbind (process_all lib t bs) (\<lambda>(t, outs). Inr (t, (surviving, checkpoint) # outs)))"

definition delivered :: "(row list option \<times> cursor_state option) list \<Rightarrow> row list" where
  "delivered outs = concat (map (\<lambda>(surviving, _). case surviving of None \<Rightarrow> [] | Some rs \<Rightarrow> rs) outs)"

text \<open>A row the stored state already accounts for, and a row past the stored watermark.\<close>

definition fresh :: "arrow_lib \<Rightarrow> spec \<Rightarrow> row \<Rightarrow> bool" where
  "fresh lib sp r \<longleftrightarrow>
     (case sp_stored sp of
        None \<Rightarrow> True
      | Some st \<Rightarrow> \<not> (cursor_of sp r = Some (cs_watermark st)
            \<and> row_key lib sp r \<in> Inr ` set (cs_boundary_keys st)))"

definition passes :: "spec \<Rightarrow> row \<Rightarrow> bool" where
  "passes sp r \<longleftrightarrow>
     (case (cursor_of sp r, sp_stored sp) of
        (Some v, Some st) \<Rightarrow> is_beyond sp v (cs_watermark st)
      | _ \<Rightarrow> False)"

lemma beyond_irrefl [simp]: "\<not> is_beyond sp v v"
  by (simp add: is_beyond_def)

lemma beyond_trans: "is_beyond sp c b \<Longrightarrow> is_beyond sp b a \<Longrightarrow> is_beyond sp c a"
  by (auto simp: is_beyond_def split: if_splits)

lemma beyond_asym: "is_beyond sp b a \<Longrightarrow> \<not> is_beyond sp a b"
  by (auto simp: is_beyond_def split: if_splits)

lemma beyond_total: "\<not> is_beyond sp a b \<Longrightarrow> a = b \<or> is_beyond sp b a"
  by (auto simp: is_beyond_def split: if_splits)

lemma passes_fresh: "passes sp r \<Longrightarrow> fresh lib sp r"
  by (auto simp: passes_def fresh_def split: option.splits)

text \<open>What a scan keeps, with the boundary still open or not.\<close>

fun kept_rows :: "arrow_lib \<Rightarrow> spec \<Rightarrow> bool \<Rightarrow> row list \<Rightarrow> row list" where
  "kept_rows lib sp opened [] = []"
| "kept_rows lib sp opened (r # rs) =
     (if opened \<and> \<not> fresh lib sp r then kept_rows lib sp opened rs
      else r # kept_rows lib sp (opened \<and> \<not> passes sp r) rs)"

lemma boundary_check_spec:
  assumes "boundary_check lib t r = Inr (t', dropped)"
  shows "t' = t\<lparr>tk_in_boundary := tk_in_boundary t \<and> \<not> passes (tk_spec t) r\<rparr>
    \<and> dropped = (tk_in_boundary t \<and> \<not> fresh lib (tk_spec t) r)"
  using assms
  by (auto simp: boundary_check_def passes_def fresh_def rbind_eq_Inr split: option.splits if_splits)

lemma scan_rows_spec:
  assumes "scan_rows lib t rows = Inr (t', kept)"
  shows "tk_spec t' = tk_spec t \<and> tk_last_value t' = tk_last_value t \<and> tk_run_keys t' = tk_run_keys t
    \<and> tk_in_boundary t' = (tk_in_boundary t \<and> (\<forall>r \<in> set rows. \<not> passes (tk_spec t) r))
    \<and> kept = kept_rows lib (tk_spec t) (tk_in_boundary t) rows"
  using assms
proof (induction rows arbitrary: t kept)
  case (Cons r rs)
  from Cons.prems obtain u dropped where u: "boundary_check lib t r = Inr (u, dropped)"
    and rest: "(if dropped then scan_rows lib (u\<lparr>tk_deduped_rows := tk_deduped_rows u + 1\<rparr>) rs
       else rbind (scan_rows lib u rs) (\<lambda>(t, kept). Inr (t, r # kept))) = Inr (t', kept)"
    by (auto simp: rbind_eq_Inr)
  note u' = boundary_check_spec [OF u]
  show ?case
  proof (cases dropped)
    case True
    with rest have "scan_rows lib (u\<lparr>tk_deduped_rows := tk_deduped_rows u + 1\<rparr>) rs = Inr (t', kept)" by simp
    note ih = Cons.IH [OF this]
    have "\<not> passes (tk_spec t) r" using u' True passes_fresh by blast
    with ih u' True show ?thesis by simp
  next
    case False
    with rest obtain ks where "scan_rows lib u rs = Inr (t', ks)" "kept = r # ks" by (auto simp: rbind_eq_Inr)
    with Cons.IH [OF this(1)] u' False show ?thesis by auto
  qed
qed simp

definition cursors :: "spec \<Rightarrow> row list \<Rightarrow> scalar list" where
  "cursors sp rows = List.map_filter (cursor_of sp) rows"

lemma cursor_list_simps [simp]:
  "cursors sp [] = []" "cursors sp (xs @ ys) = cursors sp xs @ cursors sp ys"
  "cursors sp (r # rows) = (case cursor_of sp r of None \<Rightarrow> cursors sp rows | Some v \<Rightarrow> v # cursors sp rows)"
  by (simp_all add: cursors_def List.map_filter_def split: option.splits)

lemma in_cursors: "v \<in> set (cursors sp rows) \<longleftrightarrow> (\<exists>r \<in> set rows. cursor_of sp r = Some v)"
  by (induction rows) (auto split: option.splits)

definition advancing :: "spec \<Rightarrow> scalar list \<Rightarrow> bool" where
  "advancing sp vs \<longleftrightarrow> sorted_wrt (\<lambda>a b. a = b \<or> is_beyond sp b a) vs"

text \<open>Once the kept rows are in order, the boundary flag makes no difference.\<close>

lemma kept_rows_fresh:
  assumes "advancing sp (cursors sp (earlier @ kept_rows lib sp opened rows))"
    and "\<not> opened \<Longrightarrow> \<exists>r \<in> set earlier. passes sp r"
  shows "kept_rows lib sp opened rows = filter (fresh lib sp) rows"
  using assms
proof (induction rows arbitrary: earlier opened)
  case (Cons r rs)
  show ?case
  proof (cases "opened \<and> \<not> fresh lib sp r")
    case True
    with Cons.prems show ?thesis by (auto intro!: Cons.IH)
  next
    case False
    have fr: "fresh lib sp r"
    proof (rule ccontr)
      assume stale: "\<not> fresh lib sp r"
      with False Cons.prems(2) obtain q where q: "q \<in> set earlier" "passes sp q" by blast
      from stale obtain st where st: "sp_stored sp = Some st" "cursor_of sp r = Some (cs_watermark st)"
        by (auto simp: fresh_def split: option.splits)
      with q obtain v where v: "v \<in> set (cursors sp earlier)" "is_beyond sp v (cs_watermark st)"
        by (auto simp: passes_def in_cursors split: option.splits)
      from Cons.prems(1) False st(2) have "advancing sp (cursors sp earlier @ cs_watermark st # cursors sp (kept_rows lib sp (opened \<and> \<not> passes sp r) rs))"
        by auto
      with v show False by (auto simp: advancing_def sorted_wrt_append dest: beyond_asym)
    qed
    have "kept_rows lib sp (opened \<and> \<not> passes sp r) rs = filter (fresh lib sp) rs"
    proof (rule Cons.IH [of "earlier @ [r]"])
      show "advancing sp (cursors sp ((earlier @ [r]) @ kept_rows lib sp (opened \<and> \<not> passes sp r) rs))"
        using Cons.prems(1) False by simp
    qed (use Cons.prems(2) in auto)
    with False fr show ?thesis by simp
  qed
qed simp

section \<open>What the tracker knows\<close>

definition keys_at :: "arrow_lib \<Rightarrow> spec \<Rightarrow> scalar \<Rightarrow> row list \<Rightarrow> row_key set" where
  "keys_at lib sp v rows = {k. \<exists>r \<in> set rows. cursor_of sp r = Some v \<and> row_key lib sp r = Inr k}"

lemma keys_at_append [simp]: "keys_at lib sp v (xs @ ys) = keys_at lib sp v xs \<union> keys_at lib sp v ys"
  by (auto simp: keys_at_def)

lemma keys_at_Cons: "keys_at lib sp v (r # rs) = keys_at lib sp v [r] \<union> keys_at lib sp v rs"
  using keys_at_append [of lib sp v "[r]" rs] by simp

lemma keys_at_absent: "v \<notin> set (cursors sp rows) \<Longrightarrow> keys_at lib sp v rows = {}"
  by (auto simp: keys_at_def in_cursors)

text \<open>After \<open>kept\<close>: the rows came in order, and value and keys are those of its last group.\<close>

definition tracked :: "arrow_lib \<Rightarrow> spec \<Rightarrow> row list \<Rightarrow> tracker \<Rightarrow> bool" where
  "tracked lib sp kept t \<longleftrightarrow>
     tk_spec t = sp \<and> advancing sp (cursors sp kept)
     \<and> (\<forall>r \<in> set kept. cursor_of sp r \<noteq> None \<longrightarrow> (\<exists>k. row_key lib sp r = Inr k))
     \<and> (case tk_last_value t of
          None \<Rightarrow> cursors sp kept = []
        | Some v \<Rightarrow> v \<in> set (cursors sp kept) \<and> (\<forall>u \<in> set (cursors sp kept). u = v \<or> is_beyond sp v u)
            \<and> set (tk_run_keys t) = keys_at lib sp v kept)"

lemma advancing_snoc: "advancing sp (vs @ [v]) \<longleftrightarrow> advancing sp vs \<and> (\<forall>u \<in> set vs. u = v \<or> is_beyond sp v u)"
  by (auto simp: advancing_def sorted_wrt_append)

lemma tracked_row:
  assumes "tracked lib sp kept t" and "track_row lib t r = Inr t'"
  shows "tracked lib sp (kept @ [r]) t'"
proof (cases "cursor_of sp r")
  case None
  with assms show ?thesis
    by (auto simp: tracked_def track_row_def keys_at_def split: option.splits)
next
  case (Some v)
  from assms(1) have sp: "tk_spec t = sp" by (simp add: tracked_def)
  obtain k where k: "row_key lib sp r = Inr k"
    using assms(2) Some sp by (auto simp: track_row_def rbind_eq_Inr split: option.splits if_splits)
  then have key: "keys_at lib sp v [r] = {k}" using Some by (auto simp: keys_at_def)
  show ?thesis
  proof (cases "tk_last_value t = Some v")
    case True
    with assms(2) Some sp k have "t' = t\<lparr>tk_run_keys := tk_run_keys t @ [k]\<rparr>"
      by (auto simp: track_row_def)
    with assms(1) True Some k key show ?thesis by (auto simp: tracked_def advancing_snoc)
  next
    case False
    with assms(2) Some sp k have t': "t' = t\<lparr>tk_last_value := Some v, tk_run_keys := [k]\<rparr>"
      by (auto simp: track_row_def split: option.splits if_splits)
    have behind: "is_beyond sp v u" if "u \<in> set (cursors sp kept)" for u
    proof (cases "tk_last_value t")
      case None
      with assms(1) that show ?thesis by (simp add: tracked_def)
    next
      case (Some w)
      with assms(1) that have "u = w \<or> is_beyond sp w u" by (auto simp: tracked_def)
      moreover have "is_beyond sp v w"
        using Some False assms(2) \<open>cursor_of sp r = Some v\<close> sp
        by (auto simp: track_row_def split: if_splits)
      ultimately show ?thesis using beyond_trans by blast
    qed
    moreover from this have "v \<notin> set (cursors sp kept)" by force
    moreover from this have "keys_at lib sp v kept = {}" by (rule keys_at_absent)
    ultimately show ?thesis using t' assms(1) Some k key
      by (auto simp: tracked_def advancing_snoc)
  qed
qed

lemma tracked_rows: "tracked lib sp kept t \<Longrightarrow> track_rows lib t rows = Inr t' \<Longrightarrow> tracked lib sp (kept @ rows) t'"
proof (induction rows arbitrary: kept t)
  case (Cons r rs)
  then obtain u where "track_row lib t r = Inr u" "track_rows lib u rs = Inr t'" by (auto simp: rbind_eq_Inr)
  with Cons.IH [OF tracked_row [OF Cons.prems(1)]] show ?case by simp
qed simp

lemma track_row_boundary: "track_row lib t r = Inr t' \<Longrightarrow> tk_in_boundary t' = tk_in_boundary t"
  by (auto simp: track_row_def rbind_eq_Inr split: option.splits if_splits)

lemma track_rows_boundary: "track_rows lib t rows = Inr t' \<Longrightarrow> tk_in_boundary t' = tk_in_boundary t"
  by (induction rows arbitrary: t) (auto simp: rbind_eq_Inr dest: track_row_boundary)

text \<open>The invariant of a read: after the rows \<open>seen\<close>, exactly the fresh ones were kept.\<close>

definition reading :: "arrow_lib \<Rightarrow> spec \<Rightarrow> row list \<Rightarrow> tracker \<Rightarrow> bool" where
  "reading lib sp seen t \<longleftrightarrow> tracked lib sp (filter (fresh lib sp) seen) t
     \<and> tk_in_boundary t = (\<forall>r \<in> set seen. \<not> passes sp r)"

lemma reading_new: "reading lib sp [] (new_tracker sp)"
  by (simp add: reading_def tracked_def new_tracker_def advancing_def)

lemma checkpoint_of_fields:
  "checkpoint_of t = (t', cp) \<Longrightarrow> \<exists>e. t' = t\<lparr>tk_emitted := e\<rparr>"
  "checkpoint_of t = (t', Some st) \<Longrightarrow> current_state t = Some st"
  by (auto simp: checkpoint_of_def Let_def split: option.splits if_splits intro: exI [of _ "tk_emitted t"])

lemma reading_emitted [simp]: "reading lib sp seen (t\<lparr>tk_emitted := e\<rparr>) = reading lib sp seen t"
  by (simp add: reading_def tracked_def split: option.split)

lemma current_state_emitted [simp]: "current_state (t\<lparr>tk_emitted := e\<rparr>) = current_state t"
  by (simp add: current_state_def split: option.split)

lemma process_reading:
  assumes "reading lib sp seen t" and "process lib t batch = Inr (t', surviving, cp)"
  shows "reading lib sp (seen @ batch) t'
    \<and> (case surviving of None \<Rightarrow> [] | Some rs \<Rightarrow> rs) = filter (fresh lib sp) batch
    \<and> (\<forall>st. cp = Some st \<longrightarrow> current_state t' = Some st)"
proof -
  from assms(1) have sp: "tk_spec t = sp" by (simp add: reading_def tracked_def)
  from assms(2) obtain u kept w where u: "scan_rows lib t batch = Inr (u, kept)"
    and w: "track_rows lib u kept = Inr w" and cp: "checkpoint_of w = (t', cp)"
    and surv: "surviving = (if length kept < length batch then (if kept = [] then None else Some kept) else Some batch)"
  proof -
    from assms(2) obtain u kept w where u: "scan_rows lib t batch = Inr (u, kept)"
      and w: "track_rows lib u kept = Inr w"
      and r: "(let surviving = (if length kept < length batch then (if kept = [] then None else Some kept)
                 else Some batch); (t, checkpoint) = checkpoint_of w in
               Inr (t, surviving, checkpoint) :: (source_error, _) result) = Inr (t', surviving, cp)"
      by (auto simp: process_def rbind_eq_Inr split: option.splits)
    obtain t'' c where "checkpoint_of w = (t'', c)" by fastforce
    with r show thesis by (intro that [OF u w]) (auto simp: Let_def)
  qed
  note s = scan_rows_spec [OF u, unfolded sp]
  have "tracked lib sp (filter (fresh lib sp) seen) u"
    using assms(1) s by (simp add: reading_def tracked_def split: option.splits)
  from tracked_rows [OF this w] have tr: "tracked lib sp (filter (fresh lib sp) seen @ kept) w" .
  have kept: "kept = filter (fresh lib sp) batch"
  proof -
    have "kept_rows lib sp (tk_in_boundary t) batch = filter (fresh lib sp) batch"
      by (rule kept_rows_fresh [where earlier = "filter (fresh lib sp) seen"])
        (use tr s assms(1) passes_fresh in \<open>auto simp: tracked_def reading_def\<close>)
    with s show ?thesis by simp
  qed
  from checkpoint_of_fields(1) [OF cp] obtain e where e: "t' = w\<lparr>tk_emitted := e\<rparr>" by blast
  have "reading lib sp (seen @ batch) w"
    using tr s track_rows_boundary [OF w] assms(1) by (auto simp: reading_def kept)
  moreover have "(case surviving of None \<Rightarrow> [] | Some rs \<Rightarrow> rs) = filter (fresh lib sp) batch"
  proof (cases "length kept < length batch")
    case False
    then have "length (filter (fresh lib sp) batch) = length batch"
      using length_filter_le [of "fresh lib sp" batch] by (simp add: kept)
    then have "filter (fresh lib sp) batch = batch"
      by (metis filter_True length_filter_less less_irrefl)
    with False surv show ?thesis by simp
  qed (simp add: surv kept)
  moreover have "current_state t' = Some st" if "cp = Some st" for st
    using checkpoint_of_fields(2) [of w t' st] cp that e by simp
  ultimately show ?thesis using e by simp
qed

lemma process_all_reading:
  assumes "reading lib sp seen t" and "process_all lib t batches = Inr (t', outs)"
  shows "reading lib sp (seen @ concat batches) t'
    \<and> delivered outs = filter (fresh lib sp) (concat batches)
    \<and> (\<forall>sv st. outs \<noteq> [] \<longrightarrow> last outs = (sv, Some st) \<longrightarrow> current_state t' = Some st)"
  using assms
proof (induction batches arbitrary: seen t outs)
  case Nil
  then show ?case by (simp add: delivered_def)
next
  case (Cons b bs)
  from Cons.prems(2) obtain u sv cp rest where b: "process lib t b = Inr (u, sv, cp)"
    and bs: "process_all lib u bs = Inr (t', rest)" and outs: "outs = (sv, cp) # rest"
    by (auto simp: rbind_eq_Inr)
  note pr = process_reading [OF Cons.prems(1) b]
  note ih = Cons.IH [OF pr [THEN conjunct1] bs]
  have "current_state t' = Some st" if "last outs = (sv', Some st)" for sv' st
  proof (cases rest)
    case Nil
    then have "bs = []" "t' = u" using bs by (cases bs; auto simp: rbind_eq_Inr)+
    with pr that outs Nil show ?thesis by simp
  next
    case (Cons x xs)
    with ih that outs show ?thesis by (cases sv') auto
  qed
  with pr ih outs show ?case by (simp add: delivered_def)
qed

section \<open>Runs that resume one another\<close>

text \<open>
  \<open>accounts\<close>: the rows delivered so far, by all runs, lie at or behind the watermark, and the
  state holds the keys of those at it, or no key at all (the final state of an exclusive boundary).
\<close>

definition accounts :: "arrow_lib \<Rightarrow> spec \<Rightarrow> row list \<Rightarrow> cursor_state option \<Rightarrow> bool" where
  "accounts lib sp history stored \<longleftrightarrow>
     (case stored of
        None \<Rightarrow> cursors sp history = []
      | Some st \<Rightarrow>
          (\<forall>v \<in> set (cursors sp history). v = cs_watermark st \<or> is_beyond sp (cs_watermark st) v)
          \<and> (cs_boundary_keys st = []
             \<or> set (cs_boundary_keys st) = keys_at lib sp (cs_watermark st) history))"

text \<open>
  The lower bound a resumed read queries with, the watermark and whether the bound is closed: it
  is when the stored state carries boundary keys. \<open>in_window\<close> says that the rows satisfy it, the
  bound being taken as it is: under the \<^verbatim>\<open>lag\<close> option the query reaches behind the watermark.
\<close>

definition resume_bound :: "spec \<Rightarrow> (scalar \<times> bool) option" where
  "resume_bound sp = map_option (\<lambda>st. (cs_watermark st, cs_boundary_keys st \<noteq> [])) (sp_stored sp)"

definition in_window :: "spec \<Rightarrow> row list \<Rightarrow> bool" where
  "in_window sp rows \<longleftrightarrow>
     (case resume_bound sp of
        None \<Rightarrow> True
      | Some (w, closed) \<Rightarrow>
          \<forall>v \<in> set (cursors sp rows). is_beyond sp v w \<or> closed \<and> v = w)"

text \<open>A row no row of the history equals in cursor and key.\<close>

definition undelivered :: "arrow_lib \<Rightarrow> spec \<Rightarrow> row list \<Rightarrow> row \<Rightarrow> bool" where
  "undelivered lib sp history r \<longleftrightarrow> cursor_of sp r = None
     \<or> (\<forall>h \<in> set history. cursor_of sp h = cursor_of sp r \<longrightarrow> row_key lib sp h \<noteq> row_key lib sp r)"

lemma cursors_filter: "set (cursors sp (filter P rows)) \<subseteq> set (cursors sp rows)"
  by (auto simp: in_cursors)

lemma in_window_filter: "in_window sp rows \<Longrightarrow> in_window sp (filter P rows)"
  using cursors_filter by (fastforce simp: in_window_def split: option.splits)

lemma in_window_append: "in_window sp (xs @ ys) \<longleftrightarrow> in_window sp xs \<and> in_window sp ys"
  by (auto simp: in_window_def split: option.splits)

lemma fresh_stale: "\<not> fresh lib sp r \<longleftrightarrow> (\<exists>st k. sp_stored sp = Some st \<and> cursor_of sp r = Some (cs_watermark st)
    \<and> row_key lib sp r = Inr k \<and> k \<in> set (cs_boundary_keys st))"
  by (auto simp: fresh_def split: option.splits)

lemma tracked_keys:
  assumes "tracked lib sp kept t" and "tk_last_value t = Some v"
  shows "set (tk_run_keys t) \<noteq> {}"
proof -
  from assms obtain r where r: "r \<in> set kept" "cursor_of sp r = Some v" by (auto simp: tracked_def in_cursors)
  with assms obtain k where "row_key lib sp r = Inr k" by (force simp: tracked_def)
  with assms r show ?thesis by (auto simp: tracked_def keys_at_def)
qed

lemma current_state_accounts:
  assumes tr: "tracked lib sp kept t" and win: "in_window sp kept"
    and acc: "accounts lib sp history (sp_stored sp)" and cur: "current_state t = Some st"
  shows "accounts lib sp (history @ kept) (Some st)"
proof -
  from tr have sp: "tk_spec t = sp" by (simp add: tracked_def)
  from cur obtain v where v: "tk_last_value t = Some v" by (auto simp: current_state_def split: option.splits)
  with tr have t: "v \<in> set (cursors sp kept)" "\<forall>u \<in> set (cursors sp kept). u = v \<or> is_beyond sp v u"
    "set (tk_run_keys t) = keys_at lib sp v kept" by (auto simp: tracked_def)
  show ?thesis
  proof (cases "sp_stored sp")
    case None
    with cur v sp have "st = \<lparr>cs_watermark = v, cs_boundary_keys = tk_run_keys t\<rparr>"
      by (simp add: current_state_def)
    with t acc None show ?thesis by (simp add: accounts_def keys_at_absent)
  next
    case (Some old)
    then have h: "\<forall>u \<in> set (cursors sp history). u = cs_watermark old \<or> is_beyond sp (cs_watermark old) u"
      using acc by (auto simp: accounts_def)
    show ?thesis
    proof (cases "v = cs_watermark old")
      case True
      with win t(1) Some have "cs_boundary_keys old \<noteq> []" by (auto simp: in_window_def resume_bound_def)
      with acc Some have "set (cs_boundary_keys old) = keys_at lib sp (cs_watermark old) history"
        by (auto simp: accounts_def)
      moreover from True cur v sp Some have "cs_watermark st = v"
        "set (cs_boundary_keys st) = set (tk_run_keys t) \<union> set (cs_boundary_keys old)"
        by (auto simp: current_state_def split: if_splits)
      ultimately show ?thesis using t h True by (auto simp: accounts_def)
    next
      case False
      with cur v sp Some have st: "st = \<lparr>cs_watermark = v, cs_boundary_keys = tk_run_keys t\<rparr>"
        and past: "is_beyond sp v (cs_watermark old)"
        by (auto simp: current_state_def split: if_splits)
      from h past have b: "is_beyond sp v u" if "u \<in> set (cursors sp history)" for u
        using that beyond_trans by metis
      then have "v \<notin> set (cursors sp history)" by force
      then have "keys_at lib sp v history = {}" by (rule keys_at_absent)
      with st t b show ?thesis by (auto simp: accounts_def)
    qed
  qed
qed

text \<open>No state to report means that no row with a cursor was delivered.\<close>

lemma current_state_none:
  assumes tr: "tracked lib sp kept t" and win: "in_window sp kept" and cur: "current_state t = None"
  shows "cursors sp kept = []"
proof (cases "tk_last_value t")
  case None
  with tr show ?thesis by (simp add: tracked_def)
next
  case (Some v)
  with tr win have "v \<in> set (cursors sp kept)" "tk_spec t = sp" by (auto simp: tracked_def)
  with win cur Some tracked_keys [OF tr Some] show ?thesis
    by (auto simp: current_state_def in_window_def resume_bound_def split: option.splits if_splits)
qed

lemma accounts_nothing_new:
  assumes "accounts lib sp history stored" and "cursors sp kept = []"
  shows "accounts lib sp (history @ kept) stored"
  using assms by (simp add: accounts_def keys_at_absent split: option.splits)

lemma process_all_take:
  assumes "process_all lib t batches = Inr (t', outs)"
  shows "length outs = length batches \<and> (\<exists>u. process_all lib t (take i batches) = Inr (u, take i outs))"
  using assms
proof (induction batches arbitrary: t i outs)
  case (Cons b bs)
  from Cons.prems obtain u sv cp rest where b: "process lib t b = Inr (u, sv, cp)"
    and bs: "process_all lib u bs = Inr (t', rest)" and outs: "outs = (sv, cp) # rest"
    by (auto simp: rbind_eq_Inr)
  show ?case
  proof (cases i)
    case 0
    with Cons.IH [OF bs] outs show ?thesis by simp
  next
    case (Suc j)
    with Cons.IH [OF bs, of j] b outs show ?thesis by auto
  qed
qed simp

lemma fresh_iff_undelivered:
  assumes acc: "accounts lib sp history (sp_stored sp)" and win: "in_window sp rows"
    and keys: "\<And>r. r \<in> set rows \<Longrightarrow> fresh lib sp r \<Longrightarrow> cursor_of sp r \<noteq> None \<Longrightarrow> \<exists>k. row_key lib sp r = Inr k"
    and r: "r \<in> set rows"
  shows "fresh lib sp r \<longleftrightarrow> undelivered lib sp history r"
proof
  assume fr: "fresh lib sp r"
  show "undelivered lib sp history r"
  proof (rule ccontr)
    assume "\<not> undelivered lib sp history r"
    then obtain h v k where h: "h \<in> set history" "cursor_of sp h = Some v" "row_key lib sp h = Inr k"
      "cursor_of sp r = Some v" "row_key lib sp r = Inr k"
      using keys [OF r fr] by (auto simp: undelivered_def)
    then have v: "v \<in> set (cursors sp history)" "v \<in> set (cursors sp rows)" using r by (auto simp: in_cursors)
    with acc obtain st where st: "sp_stored sp = Some st" by (auto simp: accounts_def split: option.splits)
    with v acc have "v = cs_watermark st \<or> is_beyond sp (cs_watermark st) v" by (simp add: accounts_def)
    moreover from v win st have "is_beyond sp v (cs_watermark st) \<or> cs_boundary_keys st \<noteq> [] \<and> v = cs_watermark st"
      by (simp add: in_window_def resume_bound_def)
    ultimately have "v = cs_watermark st" "cs_boundary_keys st \<noteq> []" using beyond_asym by auto
    with h acc st have "k \<in> set (cs_boundary_keys st)" by (auto simp: accounts_def keys_at_def)
    with fr st h \<open>v = cs_watermark st\<close> show False by (simp add: fresh_def)
  qed
next
  assume und: "undelivered lib sp history r"
  show "fresh lib sp r"
  proof (rule ccontr)
    assume "\<not> fresh lib sp r"
    then obtain st k where "sp_stored sp = Some st" "cursor_of sp r = Some (cs_watermark st)"
      "row_key lib sp r = Inr k" "k \<in> set (cs_boundary_keys st)" unfolding fresh_stale by blast
    with und acc show False by (auto simp: accounts_def keys_at_def undelivered_def)
  qed
qed

text \<open>What a run has delivered, and the state it stands at, after any of its batches.\<close>

lemma run_accounts:
  assumes history: "accounts lib sp history (sp_stored sp)"
    and run: "process_all lib (new_tracker sp) batches = Inr (t, outs)"
    and window: "in_window sp (concat batches)"
  shows "delivered outs = filter (undelivered lib sp history) (concat batches)"
    and "current_state t = Some st \<Longrightarrow> accounts lib sp (history @ delivered outs) (Some st)"
    and "current_state t = None \<Longrightarrow> accounts lib sp (history @ delivered outs) (sp_stored sp)"
    and "outs \<noteq> [] \<Longrightarrow> snd (last outs) = Some st \<Longrightarrow> current_state t = Some st"
proof -
  have rd: "tracked lib sp (filter (fresh lib sp) (concat batches)) t"
    and dl: "delivered outs = filter (fresh lib sp) (concat batches)"
    and cp: "\<forall>sv st. outs \<noteq> [] \<longrightarrow> last outs = (sv, Some st) \<longrightarrow> current_state t = Some st"
    using process_all_reading [OF reading_new run] by (auto simp: reading_def)
  have keys: "\<exists>k. row_key lib sp r = Inr k"
    if "r \<in> set (concat batches)" "fresh lib sp r" "cursor_of sp r \<noteq> None" for r
    using rd that by (auto simp: tracked_def)
  show "delivered outs = filter (undelivered lib sp history) (concat batches)"
    unfolding dl using fresh_iff_undelivered [OF history window keys] by (intro filter_cong) blast+
  have win: "in_window sp (delivered outs)" using window dl in_window_filter by simp
  from current_state_accounts [OF rd] win history dl
  show "current_state t = Some st \<Longrightarrow> accounts lib sp (history @ delivered outs) (Some st)" by simp
  from current_state_none [OF rd] accounts_nothing_new [OF history] win dl
  show "current_state t = None \<Longrightarrow> accounts lib sp (history @ delivered outs) (sp_stored sp)" by simp
  show "outs \<noteq> [] \<Longrightarrow> snd (last outs) = Some st \<Longrightarrow> current_state t = Some st"
    using cp by (cases "last outs") auto
qed

lemma accounts_final:
  assumes "\<And>st. current_state t = Some st \<Longrightarrow> accounts lib sp rows (Some st)"
    and "current_state t = None \<Longrightarrow> accounts lib sp rows stored"
  shows "accounts lib sp rows (case final_state keep t of None \<Rightarrow> stored | Some st \<Rightarrow> Some st)"
  using assms by (cases "current_state t") (auto simp: final_state_def accounts_def)

text \<open>
  C9. A resumed incremental read delivers each row once. Let the stored state account for the
  history (its watermark bounds the history's cursors, and its boundary keys, if it has any, are
  the keys at it), and let the query return rows at or after its lower bound, closed exactly when
  the state has boundary keys (so no \<^verbatim>\<open>lag\<close> is configured). A run that ends without an error
  delivers exactly the rows with no cursor and those whose key no history row with the same cursor
  has. Each checkpoint it emits between batches accounts for the history and what was delivered up
  to it, and the state that stands after the final checkpoint, or the stored one when there is
  nothing to report, accounts for the history and the whole delivery, under an inclusive boundary
  and under an exclusive one. So the argument repeats from wherever the run is resumed.
\<close>

theorem resumed_run_exactly_once:
  assumes history: "accounts lib sp history (sp_stored sp)"
    and run: "process_all lib (new_tracker sp) batches = Inr (t, outs)"
    and window: "in_window sp (concat batches)"
  shows "delivered outs = filter (undelivered lib sp history) (concat batches)
    \<and> (\<forall>i st. i < length outs \<and> snd (outs ! i) = Some st
         \<longrightarrow> accounts lib sp (history @ delivered (take (Suc i) outs)) (Some st))
    \<and> accounts lib sp (history @ delivered outs)
        (case final_state keep_keys t of None \<Rightarrow> sp_stored sp | Some st \<Rightarrow> Some st)"
proof (intro conjI allI impI)
  note whole = run_accounts [OF assms]
  show "delivered outs = filter (undelivered lib sp history) (concat batches)" by (rule whole(1))
  show "accounts lib sp (history @ delivered outs)
      (case final_state keep_keys t of None \<Rightarrow> sp_stored sp | Some st \<Rightarrow> Some st)"
    using whole(2,3) by (rule accounts_final)
next
  fix i st assume i: "i < length outs \<and> snd (outs ! i) = Some st"
  obtain u where u: "process_all lib (new_tracker sp) (take (Suc i) batches) = Inr (u, take (Suc i) outs)"
    using process_all_take [OF run] by blast
  have "in_window sp (concat (take (Suc i) batches))"
    using window by (metis append_take_drop_id concat_append in_window_append)
  note part = run_accounts [OF history u this]
  have "last (take (Suc i) outs) = outs ! i" "take (Suc i) outs \<noteq> []"
    using i by (auto simp: take_Suc_conv_app_nth)
  with i part(4) part(2) show "accounts lib sp (history @ delivered (take (Suc i) outs)) (Some st)" by simp
qed

text \<open>A resumed read over a boundary row already delivered, one that appeared since, and a later one.\<close>

definition demo_lib :: arrow_lib where
  "demo_lib = \<lparr>strip_zone = Inr, display = (\<lambda>v. case v of AText s \<Rightarrow> Inr s | _ \<Rightarrow> Inl ''no text''), blake3_hex = id\<rparr>"

definition demo_spec :: spec where
  "demo_spec = \<lparr>sp_cursor_index = 1, sp_kind = KInt64, sp_direction_max = True,
     sp_stored = Some \<lparr>cs_watermark = SInt 5, cs_boundary_keys = [[Some ''a'']]\<rparr>,
     sp_key_columns = Some [0], sp_null_error = None, sp_stream = ''t'', sp_cursor_column = ''n''\<rparr>"

definition demo_batches :: "row list list" where
  "demo_batches = [[[AText ''a'', AInt 5], [AText ''b'', AInt 5]], [[AText ''c'', AInt 6]]]"

lemma demo_run: "process_all demo_lib (new_tracker demo_spec) demo_batches
    = Inr (\<lparr>tk_spec = demo_spec, tk_in_boundary = False, tk_last_value = Some (SInt 6),
             tk_run_keys = [[Some ''c'']], tk_emitted = Some (SInt 6, 1), tk_deduped_rows = 1\<rparr>,
           [(Some [[AText ''b'', AInt 5]], Some \<lparr>cs_watermark = SInt 5, cs_boundary_keys = [[Some ''a''], [Some ''b'']]\<rparr>),
            (Some [[AText ''c'', AInt 6]], Some \<lparr>cs_watermark = SInt 6, cs_boundary_keys = [[Some ''c'']]\<rparr>)])"
  by code_simp

theorem resumed_run_exactly_once_witness:
  "\<exists>t outs. process_all demo_lib (new_tracker demo_spec) demo_batches = Inr (t, outs)
    \<and> delivered outs = [[AText ''b'', AInt 5], [AText ''c'', AInt 6]]
    \<and> delivered outs = filter (undelivered demo_lib demo_spec [[AText ''a'', AInt 5]]) (concat demo_batches)
    \<and> accounts demo_lib demo_spec ([[AText ''a'', AInt 5]] @ delivered outs)
        (case final_state False t of None \<Rightarrow> sp_stored demo_spec | Some st \<Rightarrow> Some st)"
proof -
  have "accounts demo_lib demo_spec [[AText ''a'', AInt 5]] (sp_stored demo_spec)"
    by (auto simp: accounts_def demo_spec_def demo_lib_def keys_at_def cursor_of_def scalar_at_def row_key_def
        render_cell_def)
  moreover have "in_window demo_spec (concat demo_batches)"
    by (auto simp: in_window_def resume_bound_def demo_spec_def demo_batches_def is_beyond_def cursor_of_def
        scalar_at_def less_scalar_def)
  ultimately show ?thesis
    using resumed_run_exactly_once [OF _ demo_run, of _ False] demo_run by (fastforce simp: delivered_def)
qed

end
