(* ===== verification/Pg_Copy.thy ===== *)
theory Pg_Copy
  imports Pg_Value "HOL-Library.Log_Nat"
begin

text \<open>
  \<^verbatim>\<open>types/binary.rs\<close> and the wire half of \<^verbatim>\<open>types/builder.rs\<close>: the values of binary fields
  and the decoder of a binary COPY stream that arrives in chunks. Where the code walks a
  position through its carry buffer and drains it at the end, the model's carry is the part
  from the position on.
\<close>

section \<open>Scalars\<close>

definition big_endian_i16 :: "string \<Rightarrow> (string, int) result" where
  "big_endian_i16 bs = (if length bs = 2 then Inr (signed_of 16 (from_be bs)) else Inl ''short i16'')"

definition big_endian_i32 :: "string \<Rightarrow> (string, int) result" where
  "big_endian_i32 bs = (if length bs = 4 then Inr (signed_of 32 (from_be bs)) else Inl ''short i32'')"

definition big_endian_i64 :: "string \<Rightarrow> (string, int) result" where
  "big_endian_i64 bs = (if length bs = 8 then Inr (signed_of 64 (from_be bs)) else Inl ''short i64'')"

definition exact :: "nat \<Rightarrow> string \<Rightarrow> string \<Rightarrow> (string, string) result" where
  "exact n field what =
     (if length field = n then Inr field
      else Inl (what @ '': expected '' @ show_nat n @ '' bytes, got '' @ show_nat (length field)))"

text \<open>\<open>checked_mul\<close> and \<open>checked_add\<close> on an \<open>i128\<close> that is not negative.\<close>

definition i128_checked :: "int \<Rightarrow> int option" where
  "i128_checked n = (if n < 2 ^ 127 then Some n else None)"

fun numeric_digits :: "int list \<Rightarrow> int \<Rightarrow> (string, int) result" where
  "numeric_digits [] acc = Inr acc"
| "numeric_digits (d # ds) acc =
     (if d \<ge> 10000 then Inl ''numeric: base-10000 digit out of range''
      else
        case Option.bind (i128_checked (acc * 10000)) (\<lambda>v. i128_checked (v + d)) of
          Some acc \<Rightarrow> numeric_digits ds acc
        | None \<Rightarrow> Inl ''numeric: overflow while accumulating digits'')"

fun scale_up :: "nat \<Rightarrow> int \<Rightarrow> (string, int) result" where
  "scale_up 0 v = Inr v"
| "scale_up (Suc n) v =
     (case i128_checked (v * 10) of
        Some v \<Rightarrow> scale_up n v
      | None \<Rightarrow> Inl ''numeric: overflow while rescaling'')"

fun scale_down :: "nat \<Rightarrow> int \<Rightarrow> (string, int) result" where
  "scale_down 0 v = Inr v"
| "scale_down (Suc n) v =
     (if v mod 10 \<noteq> 0
      then Inl ''numeric: more fractional digits on the wire than the declared scale (schema drift)''
      else scale_down n (v div 10))"

definition rescale :: "int \<Rightarrow> int \<Rightarrow> (string, int) result" where
  "rescale exponent v = (if exponent \<ge> 0 then scale_up (nat exponent) v else scale_down (nat (- exponent)) v)"

definition plus_minus :: string where
  "plus_minus = [CHR 0xC2, CHR 0xB1]"

definition sign_of_word :: "string \<Rightarrow> (string, bool) result" where
  "sign_of_word w =
     (let n = from_be w in
      if n = 0 then Inr False
      else if n = 0x4000 then Inr True
      else if n = 0xC000 then Inl ''numeric NaN is not representable as Decimal''
      else if n = 0xD000 \<or> n = 0xF000
      then Inl (''numeric '' @ plus_minus @ ''Infinity is not representable as Decimal'')
      else Inl (''numeric: unknown sign word 0x'' @ concat (map (\<lambda>c. drop 2 (byte_hex c)) w)))"

definition digit_at :: "string \<Rightarrow> nat \<Rightarrow> int" where
  "digit_at field i = int (from_be [field ! (8 + i * 2), field ! (9 + i * 2)])"

definition decode_numeric :: "string \<Rightarrow> nat \<Rightarrow> (string, int) result" where
  "decode_numeric field scale =
     (if length field < 8 then Inl ''numeric: header short''
      else
        rbind (big_endian_i16 (take 2 field)) (\<lambda>digit_count.
        rbind (big_endian_i16 (take 2 (drop 2 field))) (\<lambda>weight.
        rbind (sign_of_word (take 2 (drop 4 field))) (\<lambda>negative.
          if \<not> (0 \<le> digit_count \<and> digit_count \<le> 0x4000) \<or> length field < 8 + nat digit_count * 2
          then Inl ''numeric: digit count exceeds field''
          else
            rbind (numeric_digits (map (digit_at field) [0..<nat digit_count]) 0) (\<lambda>accumulated.
              rbind (rescale (4 * (weight - digit_count + 1) + int scale) accumulated) (\<lambda>v.
              Inr (if negative then - v else v)))))))"

definition PG_EPOCH_MICROSECONDS :: int where "PG_EPOCH_MICROSECONDS = 946684800000000"
definition PG_EPOCH_DAYS :: int where "PG_EPOCH_DAYS = 10957"

text \<open>\<open>checked_add\<close> of a positive number overflows at the top only.\<close>

definition rebase_timestamp :: "int \<Rightarrow> int" where
  "rebase_timestamp m =
     (if m = i64_max \<or> m = i64_min then m
      else if m + PG_EPOCH_MICROSECONDS \<le> i64_max then m + PG_EPOCH_MICROSECONDS
      else if m > 0 then i64_max else i64_min)"

definition rebase_date :: "int \<Rightarrow> int" where
  "rebase_date d =
     (if d = i32_max \<or> d = i32_min then d
      else if d + PG_EPOCH_DAYS \<le> i32_max then d + PG_EPOCH_DAYS
      else if d > 0 then i32_max else i32_min)"

definition uuid_text :: "string \<Rightarrow> string" where
  "uuid_text bs = concat (map (\<lambda>i.
     (if i \<in> {4, 6, 8, 10} then ''-'' else [])
     @ [hex_digit_lower (of_char (bs ! i) div 16), hex_digit_lower (of_char (bs ! i) mod 16)]) [0..<length bs])"

text \<open>\<open>f32 as f64\<close> on the bits: every single is a double; a NaN is made quiet.\<close>

definition widen_f32 :: "nat \<Rightarrow> nat" where
  "widen_f32 bits =
     (let s = bits div 2 ^ 31; e = bits div 2 ^ 23 mod 2 ^ 8; m = bits mod 2 ^ 23 in
      s * 2 ^ 63 +
      (if e = 255 then 2047 * 2 ^ 52 + (if m = 0 then 0 else 2 ^ 51 + m mod 2 ^ 22 * 2 ^ 29)
       else if e > 0 then (e + 896) * 2 ^ 52 + m * 2 ^ 29
       else if m = 0 then 0
       else let k = floorlog 2 m - 1 in (k + 874) * 2 ^ 52 + (m - 2 ^ k) * 2 ^ (52 - k)))"

text \<open>The value a field appends to the builder of a kind.\<close>

definition append_wire :: "kind \<Rightarrow> string \<Rightarrow> (string, avalue) result" where
  "append_wire k field =
     (case k of
        KBool \<Rightarrow> rbind (exact 1 field ''bool'') (\<lambda>b. Inr (ABool (b ! 0 \<noteq> CHR 0x00)))
      | KInt16 \<Rightarrow> rbind (big_endian_i16 field) (\<lambda>i. Inr (AInt i))
      | KInt32 \<Rightarrow> rbind (big_endian_i32 field) (\<lambda>i. Inr (AInt i))
      | KInt64 \<Rightarrow> rbind (big_endian_i64 field) (\<lambda>i. Inr (AInt i))
      | KFloat32 \<Rightarrow> rbind (exact 4 field ''float4'') (\<lambda>b. Inr (AFloat (of_nat (widen_f32 (from_be b)))))
      | KFloat64 \<Rightarrow> rbind (exact 8 field ''float8'') (\<lambda>b. Inr (AFloat (of_nat (from_be b))))
      | KDecimal _ scale \<Rightarrow> rbind (decode_numeric field scale) (\<lambda>v. Inr (ADecimal v))
      | KText \<Rightarrow> (case from_utf8 field of Some s \<Rightarrow> Inr (AText s) | None \<Rightarrow> Inl ''invalid UTF-8 in text field'')
      | KJsonb \<Rightarrow>
          (case field of
             [] \<Rightarrow> Inl ''empty jsonb field''
           | version # rest \<Rightarrow>
               if version \<noteq> CHR 0x01 then Inl (''unknown jsonb version '' @ show_nat (of_char version))
               else (case from_utf8 rest of Some s \<Rightarrow> Inr (AText s) | None \<Rightarrow> Inl ''invalid UTF-8 in jsonb''))
      | KUuid \<Rightarrow> rbind (exact 16 field ''uuid'') (\<lambda>b. Inr (AText (uuid_text b)))
      | KBytea \<Rightarrow> Inr (ABinary field)
      | KTimestampTz \<Rightarrow> rbind (big_endian_i64 field) (\<lambda>i. Inr (ATimestamp True (rebase_timestamp i)))
      | KTimestampNaive \<Rightarrow> rbind (big_endian_i64 field) (\<lambda>i. Inr (ATimestamp False (rebase_timestamp i)))
      | KDate \<Rightarrow> rbind (big_endian_i32 field) (\<lambda>i. Inr (ADate (rebase_date i)))
      | KTime \<Rightarrow> rbind (big_endian_i64 field) (\<lambda>i. Inr (ATime i)))"

section \<open>The stream decoder\<close>

datatype copy_state = Header | Tuples | Done

record decoder =
  dc_columns :: "pg_column list"
  dc_builders :: "avalue list list"
  dc_state :: copy_state
  dc_carry :: string
  dc_rows_in_batch :: nat
  dc_bytes_in_batch :: nat
  dc_rows_total :: nat
  dc_batch_target_bytes :: nat
  dc_batch_max_rows :: nat

definition copy_schema :: "pg_column list \<Rightarrow> (string \<times> data_type \<times> bool) list" where
  "copy_schema = map (\<lambda>c. (pc_name c, kind_arrow (pc_kind c), \<not> pc_not_null c))"

definition column_detail :: "pg_column \<Rightarrow> string \<Rightarrow> string" where
  "column_detail column detail = ''column '' @ ticked (pc_name column) @ '': '' @ detail"

definition decoder_new :: "pg_lib \<Rightarrow> pg_column list \<Rightarrow> nat \<Rightarrow> nat \<Rightarrow> (string, decoder) result" where
  "decoder_new lib columns target_bytes max_rows =
     rbind (traverse (\<lambda>c. map_err (column_detail c) (builder_new lib (pc_kind c))) columns) (\<lambda>_.
     Inr \<lparr>dc_columns = columns, dc_builders = replicate (length columns) [], dc_state = Header, dc_carry = [],
          dc_rows_in_batch = 0, dc_bytes_in_batch = 0, dc_rows_total = 0,
          dc_batch_target_bytes = max target_bytes 1, dc_batch_max_rows = max max_rows 1\<rparr>)"

definition empty_batch :: "decoder \<Rightarrow> record_batch" where
  "empty_batch d = \<lparr>rb_fields = copy_schema (dc_columns d), rb_rows = []\<rparr>"

text \<open>The builders' arrays are typed by their kinds and as long as each other.\<close>

definition cut_batch :: "pg_lib \<Rightarrow> decoder \<Rightarrow> (string, decoder \<times> record_batch) result" where
  "cut_batch lib d =
     (case dc_builders d of
        [] \<Rightarrow> Inl (''assembling RecordBatch: '' @ no_columns lib)
      | a # as \<Rightarrow>
          Inr (d\<lparr>dc_builders := map (\<lambda>_. []) (dc_builders d), dc_rows_in_batch := 0, dc_bytes_in_batch := 0\<rparr>,
            \<lparr>rb_fields = copy_schema (dc_columns d),
             rb_rows = map (\<lambda>i. map (\<lambda>b. b ! i) (dc_builders d)) [0..<length a]\<rparr>))"

definition header_signature :: string where
  "header_signature = ''PGCOPY'' @ [CHR 0x0A, CHR 0xFF, CHR 0x0D, CHR 0x0A, CHR 0x00]"

text \<open>The length of the header, once all of it is there.\<close>

definition try_consume_header :: "string \<Rightarrow> (string, nat option) result" where
  "try_consume_header window =
     (if length window < 19 then Inr None
      else if take 11 window \<noteq> header_signature then Inl ''bad COPY binary signature''
      else
        rbind (big_endian_i32 (take 4 (drop 15 window))) (\<lambda>extension_length.
          if extension_length < 0 then Inl ''negative header extension length''
          else
            let total = 19 + nat extension_length in
            if length window < total then Inr None else Inr (Some total)))"

text \<open>The fields of a tuple and what is left, \<open>None\<close> while a field is incomplete.\<close>

fun locate_fields :: "nat \<Rightarrow> string \<Rightarrow> (string, (string option list \<times> string) option) result" where
  "locate_fields 0 w = Inr (Some ([], w))"
| "locate_fields (Suc n) w =
     (if length w < 4 then Inr None
      else
        rbind (big_endian_i32 (take 4 w)) (\<lambda>len.
          let w = drop 4 w in
          if len = -1 then
            rbind (locate_fields n w) (\<lambda>r. Inr (map_option (\<lambda>(fs, w). (None # fs, w)) r))
          else if len < 0 then Inl (''negative field length '' @ show_int len)
          else if length w < nat len then Inr None
          else
            rbind (locate_fields n (drop (nat len) w)) (\<lambda>r.
              Inr (map_option (\<lambda>(fs, w'). (Some (take (nat len) w) # fs, w')) r))))"

fun append_fields :: "pg_column list \<Rightarrow> string option list \<Rightarrow> avalue list list \<Rightarrow> (string, avalue list list) result" where
  "append_fields (c # cs) (f # fs) (b # bs) =
     rbind (case f of
         None \<Rightarrow> if pc_not_null c then Inl (''NULL on NOT NULL column '' @ ticked (pc_name c) @ '' (schema drift)'')
                 else Inr (b @ [ANull])
       | Some field \<Rightarrow> rbind (map_err (column_detail c) (append_wire (pc_kind c) field)) (\<lambda>v. Inr (b @ [v]))) (\<lambda>b.
     rbind (append_fields cs fs bs) (\<lambda>bs. Inr (b # bs)))"
| "append_fields _ _ bs = Inr bs"

datatype consumed = NeedMore | Row decoder | Trailer string

definition try_consume_tuple :: "decoder \<Rightarrow> (string, consumed) result" where
  "try_consume_tuple d =
     (let w = dc_carry d in
      if length w < 2 then Inr NeedMore
      else
        rbind (big_endian_i16 (take 2 w)) (\<lambda>field_count.
          if field_count = -1 then Inr (Trailer (drop 2 w))
          else if field_count \<noteq> int (length (dc_columns d))
          then Inl (''tuple has '' @ show_int field_count @ '' fields, schema has ''
            @ show_nat (length (dc_columns d)) @ '' (drift)'')
          else
            rbind (locate_fields (length (dc_columns d)) (drop 2 w)) (\<lambda>r.
              case r of
                None \<Rightarrow> Inr NeedMore
              | Some (located, rest) \<Rightarrow>
                  rbind (append_fields (dc_columns d) located (dc_builders d)) (\<lambda>builders.
                    Inr (Row (d\<lparr>dc_builders := builders, dc_carry := rest,
                      dc_rows_in_batch := dc_rows_in_batch d + 1,
                      dc_bytes_in_batch := dc_bytes_in_batch d + (length w - length rest),
                      dc_rows_total := dc_rows_total d + 1\<rparr>))))))"

definition batch_full :: "decoder \<Rightarrow> bool" where
  "batch_full d \<longleftrightarrow> dc_batch_max_rows d \<le> dc_rows_in_batch d \<or> dc_batch_target_bytes d \<le> dc_bytes_in_batch d"

lemma locate_fields_rest: "locate_fields n w = Inr (Some (fs, w')) \<Longrightarrow> \<exists>u. w = u @ w' \<and> length fs = n"
proof (induction n w arbitrary: fs w' rule: locate_fields.induct)
  case (2 n w)
  let ?len = "signed_of 32 (from_be (take 4 w))"
  from 2(3) have four: "\<not> length w < 4" by (auto split: if_splits)
  then have be: "big_endian_i32 (take 4 w) = Inr ?len" by (simp add: big_endian_i32_def)
  have split: "w = take 4 w @ drop 4 w" by simp
  show ?case
  proof (cases "?len = -1")
    case True
    with 2(3) four be obtain gs where "locate_fields n (drop 4 w) = Inr (Some (gs, w'))" "fs = None # gs"
      by (auto simp: rbind_eq_Inr)
    from 2(1) [OF four refl True this(1)] this(2) split show ?thesis by (metis append_assoc length_Cons)
  next
    case False
    with 2(3) four be obtain gs where l: "\<not> ?len < 0" "\<not> length (drop 4 w) < nat ?len"
      and gs: "locate_fields n (drop (nat ?len) (drop 4 w)) = Inr (Some (gs, w'))" "length fs = Suc (length gs)"
      by (auto simp: rbind_eq_Inr Let_def split: if_splits)
    from 2(2) [OF four refl False l gs(1)] gs(2) obtain u where "drop (nat ?len) (drop 4 w) = u @ w'" "length gs = n"
      by blast
    then have "w = (take 4 w @ take (nat ?len) (drop 4 w) @ u) @ w'" by (metis append_assoc append_take_drop_id)
    with gs(2) \<open>length gs = n\<close> show ?thesis by metis
  qed
qed simp

lemma row_consumes:
  assumes "try_consume_tuple d = Inr (Row d')"
  shows "length (dc_carry d') < length (dc_carry d) \<and> dc_state d' = dc_state d"
proof -
  from assms obtain fs rest bs where f: "locate_fields (length (dc_columns d)) (drop 2 (dc_carry d)) = Inr (Some (fs, rest))"
    "dc_carry d' = rest" "dc_state d' = dc_state d" "\<not> length (dc_carry d) < 2"
    by (auto simp: try_consume_tuple_def Let_def rbind_eq_Inr split: if_splits option.splits prod.splits)
  from locate_fields_rest [OF f(1)] obtain u where "drop 2 (dc_carry d) = u @ rest" by blast
  then have "length (dc_carry d) - 2 = length u + length rest" by (metis length_append length_drop)
  with f show ?thesis by simp
qed

lemma cut_keeps: "cut_batch lib d = Inr (d', b) \<Longrightarrow> dc_carry d' = dc_carry d \<and> dc_state d' = dc_state d"
  by (auto simp: cut_batch_def split: list.splits)

function tuple_loop :: "pg_lib \<Rightarrow> decoder \<Rightarrow> (string, decoder \<times> record_batch list) result" where
  "tuple_loop lib d =
     (if dc_state d \<noteq> Tuples then Inr (d, [])
      else
        case try_consume_tuple d of
          Inl e \<Rightarrow> Inl e
        | Inr NeedMore \<Rightarrow> Inr (d, [])
        | Inr (Trailer rest) \<Rightarrow>
            if length rest > 0 then Inl ''data after COPY trailer''
            else tuple_loop lib (d\<lparr>dc_carry := rest, dc_state := Done\<rparr>)
        | Inr (Row d) \<Rightarrow>
            if batch_full d
            then
              (case cut_batch lib d of
                 Inl e \<Rightarrow> Inl e
               | Inr (d, b) \<Rightarrow> rbind (tuple_loop lib d) (\<lambda>(d, bs). Inr (d, b # bs)))
            else tuple_loop lib d)"
  by auto
termination
  by (relation "measure (\<lambda>(lib, d). if dc_state d = Tuples then Suc (length (dc_carry d)) else 0)")
    (auto dest!: row_consumes, metis cut_keeps)

declare tuple_loop.simps [simp del]

definition feed :: "pg_lib \<Rightarrow> decoder \<Rightarrow> string \<Rightarrow> (string, decoder \<times> record_batch list) result" where
  "feed lib d chunk =
     (if dc_state d = Done then
        if chunk = [] then Inr (d, []) else Inl ''data after COPY trailer''
      else
        let d = d\<lparr>dc_carry := dc_carry d @ chunk\<rparr> in
        if dc_state d = Header then
          rbind (try_consume_header (dc_carry d)) (\<lambda>r.
            case r of
              Some n \<Rightarrow> tuple_loop lib (d\<lparr>dc_carry := drop n (dc_carry d), dc_state := Tuples\<rparr>)
            | None \<Rightarrow> Inr (d, []))
        else tuple_loop lib d)"

definition finish_copy :: "pg_lib \<Rightarrow> decoder \<Rightarrow> (string, decoder \<times> record_batch option) result" where
  "finish_copy lib d =
     (if dc_state d \<noteq> Done then Inl ''COPY stream ended before the binary trailer (truncated stream)''
      else if dc_carry d \<noteq> [] then Inl ''trailing bytes after COPY trailer''
      else if dc_rows_in_batch d = 0 then Inr (d, None)
      else rbind (cut_batch lib d) (\<lambda>(d, b). Inr (d, Some b)))"

section \<open>A whole stream\<close>

text \<open>All the batches of a stream that arrives in the given chunks.\<close>

fun feed_all :: "pg_lib \<Rightarrow> decoder \<Rightarrow> string list \<Rightarrow> (string, decoder \<times> record_batch list) result" where
  "feed_all lib d [] = Inr (d, [])"
| "feed_all lib d (c # cs) =
     rbind (feed lib d c) (\<lambda>(d, bs). rbind (feed_all lib d cs) (\<lambda>(d, bs'). Inr (d, bs @ bs')))"

definition decode_chunks :: "pg_lib \<Rightarrow> decoder \<Rightarrow> string list \<Rightarrow> (string, record_batch list) result" where
  "decode_chunks lib d cs =
     rbind (feed_all lib d cs) (\<lambda>(d, bs). rbind (finish_copy lib d) (\<lambda>(d, tail). Inr (bs @ (case tail of None \<Rightarrow> [] | Some b \<Rightarrow> [b]))))"

section \<open>Chunks do not matter\<close>

definition extend :: "string \<Rightarrow> decoder \<Rightarrow> decoder" where
  "extend y d = d\<lparr>dc_carry := dc_carry d @ y\<rparr>"

lemma extend_simps [simp]:
  "dc_carry (extend y d) = dc_carry d @ y" "dc_state (extend y d) = dc_state d"
  "dc_columns (extend y d) = dc_columns d" "dc_builders (extend y d) = dc_builders d"
  "dc_rows_in_batch (extend y d) = dc_rows_in_batch d" "dc_bytes_in_batch (extend y d) = dc_bytes_in_batch d"
  "batch_full (extend y d) = batch_full d"
  by (simp_all add: extend_def batch_full_def)

lemma extend_state: "extend y (d\<lparr>dc_state := st\<rparr>) = (extend y d)\<lparr>dc_state := st\<rparr>"
  by (simp add: extend_def)

lemma be_prefix: "\<not> length w < 4 \<Longrightarrow> big_endian_i32 (take 4 (w @ y)) = big_endian_i32 (take 4 w)"
  by simp

lemma locate_fields_extend:
  "locate_fields n w = Inr (Some (fs, w')) \<Longrightarrow> locate_fields n (w @ y) = Inr (Some (fs, w' @ y))"
proof (induction n w arbitrary: fs w' rule: locate_fields.induct)
  case (2 n w)
  let ?len = "signed_of 32 (from_be (take 4 w))"
  from 2(3) have four: "\<not> length w < 4" by (auto split: if_splits)
  have be: "big_endian_i32 (take 4 w) = Inr ?len" using four by (simp add: big_endian_i32_def)
  note IH = 2(1) [OF four refl] 2(2) [OF four refl]
  show ?case using 2(3) four be IH by (auto simp: rbind_eq_Inr Let_def split: if_splits)
qed simp

lemma locate_fields_fail:
  "locate_fields n w = Inl e \<Longrightarrow> locate_fields n (w @ y) = Inl e"
proof (induction n w rule: locate_fields.induct)
  case (2 n w)
  let ?len = "signed_of 32 (from_be (take 4 w))"
  from 2(3) have four: "\<not> length w < 4" by (auto split: if_splits)
  have be: "big_endian_i32 (take 4 w) = Inr ?len" using four by (simp add: big_endian_i32_def)
  note IH = 2(1) [OF four refl] 2(2) [OF four refl]
  show ?case using 2(3) four be IH by (auto simp: rbind_eq_Inl rbind_eq_Inr Let_def split: if_splits)
qed simp

definition extend_step :: "string \<Rightarrow> consumed \<Rightarrow> consumed" where
  "extend_step y c = (case c of NeedMore \<Rightarrow> NeedMore | Row d \<Rightarrow> Row (extend y d) | Trailer rest \<Rightarrow> Trailer (rest @ y))"

lemma consume_extend:
  assumes "try_consume_tuple d = Inr c" and "c \<noteq> NeedMore"
  shows "try_consume_tuple (extend y d) = Inr (extend_step y c)"
proof -
  let ?w = "dc_carry d"
  from assms have two: "\<not> length ?w < 2" by (auto simp: try_consume_tuple_def)
  then have be: "big_endian_i16 (take 2 (?w @ y)) = big_endian_i16 (take 2 ?w)" by simp
  from assms two consider (trailer) "c = Trailer (drop 2 ?w)" "big_endian_i16 (take 2 ?w) = Inr (- 1)"
    | (row) fs rest builders where "big_endian_i16 (take 2 ?w) = Inr (int (length (dc_columns d)))"
      "locate_fields (length (dc_columns d)) (drop 2 ?w) = Inr (Some (fs, rest))"
      "append_fields (dc_columns d) fs (dc_builders d) = Inr builders"
      "c = Row (d\<lparr>dc_builders := builders, dc_carry := rest, dc_rows_in_batch := dc_rows_in_batch d + 1,
         dc_bytes_in_batch := dc_bytes_in_batch d + (length ?w - length rest), dc_rows_total := dc_rows_total d + 1\<rparr>)"
    by (auto simp: try_consume_tuple_def Let_def rbind_eq_Inr split: if_splits option.splits prod.splits)
  then show ?thesis
  proof cases
    case trailer
    with two be show ?thesis by (simp add: try_consume_tuple_def Let_def extend_step_def)
  next
    case row
    with two be locate_fields_extend [OF row(2), of y] show ?thesis
      by (simp add: try_consume_tuple_def Let_def extend_step_def) (simp add: extend_def)
  qed
qed

lemma consume_fail:
  assumes "try_consume_tuple d = Inl e"
  shows "try_consume_tuple (extend y d) = Inl e"
proof -
  let ?w = "dc_carry d"
  from assms have two: "\<not> length ?w < 2" by (auto simp: try_consume_tuple_def)
  then have be: "big_endian_i16 (take 2 (?w @ y)) = big_endian_i16 (take 2 ?w)" by simp
  have len: "big_endian_i16 (take 2 ?w) = Inr (signed_of 16 (from_be (take 2 ?w)))"
    using two by (simp add: big_endian_i16_def)
  show ?thesis
  proof (cases "locate_fields (length (dc_columns d)) (drop 2 ?w)")
    case (Inl e')
    from assms two len Inl locate_fields_fail [OF Inl, of y] show ?thesis
      by (auto simp: try_consume_tuple_def Let_def be split: if_splits)
  next
    case (Inr r)
    show ?thesis
    proof (cases r)
      case None
      with assms two len Inr show ?thesis by (auto simp: try_consume_tuple_def Let_def be split: if_splits)
    next
      case (Some p)
      obtain fs rest where p: "p = (fs, rest)" by (cases p)
      from assms two len Inr Some p locate_fields_extend [OF Inr [unfolded Some p], of y] show ?thesis
        by (auto simp: try_consume_tuple_def Let_def be rbind_eq_Inl split: if_splits)
    qed
  qed
qed

lemma cut_extend: "cut_batch lib (extend y d) = rbind (cut_batch lib d) (\<lambda>(d, b). Inr (extend y d, b))"
  by (auto simp: cut_batch_def extend_def split: list.split)

text \<open>More bytes later is more bytes now.\<close>

definition resume :: "pg_lib \<Rightarrow> string \<Rightarrow> decoder \<Rightarrow> (string, decoder \<times> record_batch list) result" where
  "resume lib y d =
     (if dc_state d = Done then if y = [] then Inr (d, []) else Inl ''data after COPY trailer''
      else tuple_loop lib (extend y d))"

lemma done_loop: "dc_state d = Done \<Longrightarrow> tuple_loop lib d = Inr (d, [])"
  by (simp add: tuple_loop.simps)

lemma extend_Nil [simp]: "extend [] d = d"
  by (simp add: extend_def)

lemma tuple_loop_extend:
  "dc_state d = Tuples \<Longrightarrow> tuple_loop lib (extend y d)
    = rbind (tuple_loop lib d) (\<lambda>(d1, bs). rbind (resume lib y d1) (\<lambda>(d2, bs'). Inr (d2, bs @ bs')))"
proof (induction lib d rule: tuple_loop.induct)
  case (1 lib d)
  show ?case
  proof (cases "try_consume_tuple d")
    case (Inl e)
    with 1(4) consume_fail [OF Inl] show ?thesis by (simp add: tuple_loop.simps)
  next
    case (Inr c)
    show ?thesis
    proof (cases c)
      case NeedMore
      with Inr 1(4) have "tuple_loop lib d = Inr (d, [])" by (simp add: tuple_loop.simps)
      with 1(4) show ?thesis by (simp add: resume_def split: prod.split)
    next
      case (Trailer rest)
      with Inr have c: "try_consume_tuple (extend y d) = Inr (Trailer (rest @ y))"
        using consume_extend [OF Inr] by (simp add: extend_step_def)
      show ?thesis
        using 1(4) Inr Trailer c done_loop by (cases "rest = []"; cases "y = []")
          (simp_all add: tuple_loop.simps [of lib d] tuple_loop.simps [of lib "extend y d"] resume_def)
    next
      case (Row d')
      with Inr have c: "try_consume_tuple (extend y d) = Inr (Row (extend y d'))"
        using consume_extend [OF Inr] by (simp add: extend_step_def)
      from row_consumes Inr Row 1(4) have st: "dc_state d' = Tuples" by auto
      show ?thesis
      proof (cases "batch_full d'")
        case False
        with 1(2) [of c d'] 1(4) Inr Row st have "tuple_loop lib (extend y d')
          = rbind (tuple_loop lib d') (\<lambda>(d1, bs). rbind (resume lib y d1) (\<lambda>(d2, bs'). Inr (d2, bs @ bs')))"
          by simp
        with False 1(4) Inr Row c show ?thesis
          by (simp add: tuple_loop.simps [of lib d] tuple_loop.simps [of lib "extend y d"])
      next
        case True
        show ?thesis
        proof (cases "cut_batch lib d'")
          case (Inl e)
          with True 1(4) Inr Row c show ?thesis
            by (simp add: tuple_loop.simps [of lib d] tuple_loop.simps [of lib "extend y d"] cut_extend)
        next
          case cut: (Inr r)
          obtain d2 b where r: "r = (d2, b)" by (cases r)
          from cut_keeps [OF cut [unfolded r]] st have st2: "dc_state d2 = Tuples" by simp
          have "\<not> dc_state d \<noteq> Tuples" using 1(4) by simp
          from 1(1) [OF this Inr Row True cut r [symmetric] st2]
          have "tuple_loop lib (extend y d2)
            = rbind (tuple_loop lib d2) (\<lambda>(d1, bs). rbind (resume lib y d1) (\<lambda>(d2, bs'). Inr (d2, bs @ bs')))" .
          moreover have "tuple_loop lib (extend y d) = rbind (tuple_loop lib (extend y d2)) (\<lambda>(d, bs). Inr (d, b # bs))"
            and "tuple_loop lib d = rbind (tuple_loop lib d2) (\<lambda>(d, bs). Inr (d, b # bs))"
            using True 1(4) Inr Row c cut r
            by (simp_all add: tuple_loop.simps [of lib d] tuple_loop.simps [of lib "extend y d"] cut_extend)
          ultimately show ?thesis
            by (cases "tuple_loop lib d2") (auto simp: rbind_def split: sum.splits prod.splits)
        qed
      qed
    qed
  qed
qed

lemma header_extend:
  assumes "try_consume_header w = r" and "r \<noteq> Inr None"
  shows "try_consume_header (w @ y) = r \<and> (\<forall>n. r = Inr (Some n) \<longrightarrow> n \<le> length w)"
proof -
  from assms have long: "\<not> length w < 19" by (auto simp: try_consume_header_def)
  then have "big_endian_i32 (take 4 (drop 15 w)) = Inr (signed_of 32 (from_be (take 4 (drop 15 w))))"
    by (simp add: big_endian_i32_def)
  with assms long show ?thesis by (auto simp: try_consume_header_def Let_def split: if_splits)
qed

lemma loop_state: "tuple_loop lib d = Inr (d', bs) \<Longrightarrow> dc_state d = Tuples \<Longrightarrow>
    dc_state d' \<noteq> Header \<and> (dc_state d' = Done \<longrightarrow> dc_carry d' = [])"
proof (induction lib d arbitrary: d' bs rule: tuple_loop.induct)
  case (1 lib d)
  show ?case
  proof (cases "try_consume_tuple d")
    case (Inr c)
    show ?thesis
    proof (cases c)
      case (Row d1)
      from row_consumes Inr Row 1(5) have st: "dc_state d1 = Tuples" by auto
      show ?thesis
      proof (cases "batch_full d1")
        case False
        with 1(2) [of c d1] 1(4,5) Inr Row st show ?thesis by (simp add: tuple_loop.simps [of lib d])
      next
        case True
        with 1(4,5) Inr Row obtain d2 b bs2 where cut: "cut_batch lib d1 = Inr (d2, b)"
          and l: "tuple_loop lib d2 = Inr (d', bs2)"
          by (auto simp: tuple_loop.simps [of lib d] rbind_eq_Inr split: sum.splits)
        from cut_keeps [OF cut] st have "dc_state d2 = Tuples" by simp
        with 1(1) [of c d1 "(d2, b)" d2 b] 1(5) Inr Row True cut l show ?thesis by simp
      qed
    qed (use 1(4,5) Inr in \<open>auto simp: tuple_loop.simps [of lib d] done_loop split: if_splits\<close>)
  qed (use 1(4,5) in \<open>simp add: tuple_loop.simps\<close>)
qed

definition settled_copy :: "decoder \<Rightarrow> bool" where
  "settled_copy d \<longleftrightarrow> dc_state d = Done \<longrightarrow> dc_carry d = []"

lemma feed_settled:
  assumes "feed lib d x = Inr (d', bs)" and "settled_copy d"
  shows "settled_copy d'"
proof (cases "dc_state d")
  case Header
  let ?w = "dc_carry d @ x"
  from assms(1) Header obtain r where r: "try_consume_header ?w = Inr r" by (auto simp: feed_def rbind_eq_Inr)
  show ?thesis
  proof (cases r)
    case None
    with assms Header r show ?thesis by (auto simp: feed_def settled_copy_def)
  next
    case (Some n)
    with assms(1) Header r have "tuple_loop lib (d\<lparr>dc_carry := drop n ?w, dc_state := Tuples\<rparr>) = Inr (d', bs)"
      by (simp add: feed_def)
    from loop_state [OF this] show ?thesis by (simp add: settled_copy_def)
  qed
next
  case Tuples
  with assms(1) have "tuple_loop lib (d\<lparr>dc_carry := dc_carry d @ x\<rparr>) = Inr (d', bs)" by (simp add: feed_def)
  from loop_state [OF this] Tuples show ?thesis by (simp add: settled_copy_def)
next
  case Done
  with assms show ?thesis by (auto simp: feed_def split: if_splits)
qed

lemma feed_append:
  assumes "settled_copy d"
  shows "feed lib d (x @ y)
    = rbind (feed lib d x) (\<lambda>(d1, bs). rbind (feed lib d1 y) (\<lambda>(d2, bs'). Inr (d2, bs @ bs')))"
proof -
  have again: "feed lib d1 y = resume lib y d1" if "dc_state d1 \<noteq> Header" for d1
    using that by (cases "dc_state d1") (simp_all add: feed_def resume_def extend_def)
  have loops: "rbind (tuple_loop lib d0) (\<lambda>(d1, bs). rbind (resume lib y d1) (\<lambda>(d2, bs'). Inr (d2, bs @ bs')))
      = rbind (tuple_loop lib d0) (\<lambda>(d1, bs). rbind (feed lib d1 y) (\<lambda>(d2, bs'). Inr (d2, bs @ bs')))"
    if "dc_state d0 = Tuples" for d0
    using loop_state [OF _ that, of lib] again by (cases "tuple_loop lib d0") auto
  show ?thesis
  proof (cases "dc_state d")
    case Done
    then show ?thesis by (auto simp: feed_def)
  next
    case Tuples
    then show ?thesis
      using tuple_loop_extend [of "extend x d" lib y] loops [of "extend x d"]
      by (simp add: feed_def extend_def)
  next
    case Header
    let ?w = "dc_carry d @ x"
    show ?thesis
    proof (cases "try_consume_header ?w")
      case (Inl e)
      with Header header_extend [OF Inl, of y] show ?thesis by (simp add: feed_def)
    next
      case (Inr r)
      show ?thesis
      proof (cases r)
        case None
        with Inr Header show ?thesis
          by (simp add: feed_def split: prod.split)
      next
        case (Some n)
        let ?d = "d\<lparr>dc_carry := drop n ?w, dc_state := Tuples\<rparr>"
        have "try_consume_header (dc_carry d @ x @ y) = Inr (Some n)" "n \<le> length ?w"
          using header_extend [OF Inr, of y] Some by simp_all
        moreover have "tuple_loop lib (extend y ?d)
            = rbind (tuple_loop lib ?d) (\<lambda>(d1, bs). rbind (feed lib d1 y) (\<lambda>(d2, bs'). Inr (d2, bs @ bs')))"
          using tuple_loop_extend [of ?d lib y] loops [of ?d] by simp
        moreover have "extend y ?d = d\<lparr>dc_carry := drop n (dc_carry d @ x @ y), dc_state := Tuples\<rparr>"
          using \<open>n \<le> length ?w\<close> by (simp add: extend_def)
        ultimately show ?thesis using Header Inr Some by (simp add: feed_def)
      qed
    qed
  qed
qed

lemma feed_all_once:
  assumes "settled_copy d" and "cs \<noteq> []"
  shows "feed_all lib d cs = feed lib d (concat cs)"
  using assms
proof (induction cs arbitrary: d)
  case (Cons c cs)
  show ?case
  proof (cases "cs = []")
    case True
    then show ?thesis by (cases "feed lib d c") auto
  next
    case False
    have "rbind (feed_all lib d1 cs) k = rbind (feed lib d1 (concat cs)) k" if "feed lib d c = Inr (d1, bs)" for d1 bs k
      using Cons.IH [OF feed_settled [OF that Cons.prems(1)] False] by simp
    then show ?thesis
      using feed_append [OF Cons.prems(1), of lib c "concat cs"] by (cases "feed lib d c") auto
  qed
qed simp

lemma decode_once:
  assumes d: "dc_state d = Header" "dc_carry d = []"
  shows "decode_chunks lib d cs = decode_chunks lib d [concat cs]"
proof -
  from d have st: "settled_copy d" by (simp add: settled_copy_def)
  show ?thesis
  proof (cases "cs = []")
    case True
    then have "feed lib d (concat cs) = Inr (d, [])" using d by (cases d) (simp add: feed_def try_consume_header_def)
    with True show ?thesis by (simp add: decode_chunks_def)
  next
    case False
    from feed_all_once [OF st False, of lib] feed_all_once [OF st, of "[concat cs]" lib]
    show ?thesis by (simp add: decode_chunks_def)
  qed
qed

lemma decoder_new_start: "decoder_new lib columns target_bytes max_rows = Inr d \<Longrightarrow> dc_state d = Header \<and> dc_carry d = []"
  by (auto simp: decoder_new_def rbind_eq_Inr)

text \<open>
  C17. The decoder does not depend on how the stream is cut: for every division of a binary COPY
  stream into chunks, empty ones included, decoding the chunks one by one gives the same batches
  or the same error as decoding the whole stream at once.
\<close>

theorem chunks_do_not_matter:
  assumes "decoder_new lib columns target_bytes max_rows = Inr d"
  shows "decode_chunks lib d cs = decode_chunks lib d [concat cs]"
  using decoder_new_start [OF assms] by (intro decode_once) simp_all

section \<open>Batches conform to their schema\<close>

text \<open>
  The values an array of a type can store: the width of its Rust type, UTF-8 for texts and the zone
  of its timestamps. The precision of a decimal and the range of a time of day are not part of it.
\<close>

definition typed :: "data_type \<Rightarrow> avalue \<Rightarrow> bool" where
  "typed t v =
     (case (t, v) of
        (DBoolean, ABool _) \<Rightarrow> True
      | (DInt64, AInt i) \<Rightarrow> in_width 64 i
      | (DFloat64, AFloat _) \<Rightarrow> True
      | (DDecimal128 _ _, ADecimal i) \<Rightarrow> in_width 128 i
      | (DUtf8, AText s) \<Rightarrow> utf8_ok s
      | (DBinary, ABinary _) \<Rightarrow> True
      | (DTimestamp zone, ATimestamp zoned i) \<Rightarrow> (zoned \<longleftrightarrow> zone \<noteq> None) \<and> in_width 64 i
      | (DDate32, ADate i) \<Rightarrow> in_width 32 i
      | (DTime64, ATime i) \<Rightarrow> in_width 64 i
      | _ \<Rightarrow> False)"

definition cell_ok :: "string \<times> data_type \<times> bool \<Rightarrow> avalue \<Rightarrow> bool" where
  "cell_ok = (\<lambda>(name, t, nullable) v. if v = ANull then nullable else typed t v)"

definition conforms :: "record_batch \<Rightarrow> bool" where
  "conforms b \<longleftrightarrow> list_all (list_all2 cell_ok (rb_fields b)) (rb_rows b)"

lemma signed_in_width: "n < 2 ^ w \<Longrightarrow> 0 < w \<Longrightarrow> in_width w (signed_of w n)"
proof -
  assume "n < 2 ^ w" "0 < w"
  then obtain m where m: "w = Suc m" "n < 2 * 2 ^ m" by (cases w) auto
  then have "int n < 2 * 2 ^ m" by (metis of_nat_less_iff of_nat_mult of_nat_numeral of_nat_power)
  moreover have "n < 2 ^ m \<longleftrightarrow> int n < 2 ^ m" by (metis of_nat_less_iff of_nat_numeral of_nat_power)
  moreover have "(0 :: int) < 2 ^ m" by simp
  ultimately show ?thesis using m(1) by (auto simp: in_width_def signed_of_def)
qed

lemma be_i16_range: "big_endian_i16 bs = Inr i \<Longrightarrow> in_width 16 i"
  using from_be_less [of bs] by (auto simp: big_endian_i16_def intro!: signed_in_width split: if_splits)

lemma be_i32_range: "big_endian_i32 bs = Inr i \<Longrightarrow> in_width 32 i"
  using from_be_less [of bs] by (auto simp: big_endian_i32_def intro!: signed_in_width split: if_splits)

lemma be_i64_range: "big_endian_i64 bs = Inr i \<Longrightarrow> in_width 64 i"
  using from_be_less [of bs] by (auto simp: big_endian_i64_def intro!: signed_in_width split: if_splits)

lemma in_width_mono: "in_width v i \<Longrightarrow> v \<le> w \<Longrightarrow> in_width w i"
proof -
  assume i: "in_width v i" and "v \<le> w"
  then have "(2 :: int) ^ (v - 1) \<le> 2 ^ (w - 1)" by (intro power_increasing) auto
  with i show ?thesis unfolding in_width_def by linarith
qed

lemma numeric_digits_range:
  "numeric_digits ds acc = Inr v \<Longrightarrow> 0 \<le> acc \<Longrightarrow> acc < 2 ^ 127 \<Longrightarrow> list_all (\<lambda>d. 0 \<le> d) ds \<Longrightarrow> 0 \<le> v \<and> v < 2 ^ 127"
proof (induction ds acc rule: numeric_digits.induct)
  case (2 d ds acc)
  from 2(2) have "\<not> 10000 \<le> d" "acc * 10000 + d < 2 ^ 127" "numeric_digits ds (acc * 10000 + d) = Inr v"
    by (auto simp: i128_checked_def bind_eq_Some_conv split: if_splits option.splits)
  with 2(1) [of "acc * 10000 + d"] 2(3,5) show ?case by (simp add: i128_checked_def bind_eq_Some_conv split: if_splits)
qed simp

lemma scale_up_range: "scale_up n v = Inr u \<Longrightarrow> 0 \<le> v \<Longrightarrow> v < 2 ^ 127 \<Longrightarrow> 0 \<le> u \<and> u < 2 ^ 127"
  by (induction n v rule: scale_up.induct) (auto simp: i128_checked_def split: if_splits)

lemma scale_down_range: "scale_down n v = Inr u \<Longrightarrow> 0 \<le> v \<Longrightarrow> v < 2 ^ 127 \<Longrightarrow> 0 \<le> u \<and> u < 2 ^ 127"
  by (induction n v rule: scale_down.induct) (auto split: if_splits)

lemma rescale_range: "rescale e v = Inr u \<Longrightarrow> 0 \<le> v \<Longrightarrow> v < 2 ^ 127 \<Longrightarrow> 0 \<le> u \<and> u < 2 ^ 127"
  using scale_up_range [of "nat e" v u] scale_down_range [of "nat (- e)" v u]
  by (auto simp: rescale_def split: if_splits)

lemma decode_numeric_range:
  assumes "decode_numeric field scale = Inr v"
  shows "in_width 128 v"
proof -
  have digits: "list_all (\<lambda>d. 0 \<le> d) (map (digit_at field) is)" for "is" by (simp add: list_all_iff digit_at_def)
  have bound: "- (2 ^ 127) \<le> (if neg then - u else u) \<and> (if neg then - u else u) < 2 ^ 127"
    if "numeric_digits (map (digit_at field) is) 0 = Inr acc" "rescale e acc = Inr u" for "is" acc e u neg
    using numeric_digits_range [OF that(1) _ _ digits] rescale_range [OF that(2)] by auto
  from assms show ?thesis
    unfolding in_width_def using bound by (fastforce simp: decode_numeric_def rbind_eq_Inr split: if_split_asm)
qed

lemma rebase_timestamp_range: "in_width 64 i \<Longrightarrow> in_width 64 (rebase_timestamp i)"
  by (auto simp: rebase_timestamp_def in_width_def i64_max_def i64_min_def PG_EPOCH_MICROSECONDS_def)

lemma rebase_date_range: "in_width 32 i \<Longrightarrow> in_width 32 (rebase_date i)"
  by (auto simp: rebase_date_def in_width_def i32_max_def i32_min_def PG_EPOCH_DAYS_def)

lemma hex_digit_ascii: "n < 16 \<Longrightarrow> of_char (hex_digit_lower n) < (128 :: nat)"
  by (simp add: hex_digit_lower_def)

lemma nibbles: "of_char c div 16 < (16 :: nat)" "of_char c mod 16 < (16 :: nat)"
  using nat_of_char_less_256 [of c] by (auto simp: less_mult_imp_div_less)

lemma uuid_text_utf8: "utf8_ok (uuid_text bs)"
  by (rule utf8_ok_ascii) (auto simp: uuid_text_def hex_digit_ascii nibbles split: if_splits)

lemma append_wire_typed:
  assumes "append_wire k field = Inr v"
  shows "v \<noteq> ANull \<and> typed (kind_arrow k) v"
proof (cases k)
  case KJsonb
  with assms show ?thesis
    by (auto simp: append_wire_def typed_def kind_arrow_def from_utf8_def split: list.splits if_splits)
qed (use assms in \<open>auto simp: append_wire_def typed_def kind_arrow_def from_utf8_def rbind_eq_Inr uuid_text_utf8
    in_width_mono [OF be_i16_range] in_width_mono [OF be_i32_range] be_i64_range decode_numeric_range
    rebase_timestamp_range rebase_date_range be_i32_range split: if_splits\<close>)

text \<open>The builders: one cell per row, each fit for its column; \<open>pending_rows\<close> is what they hold.\<close>

definition fits_column :: "pg_column \<Rightarrow> avalue \<Rightarrow> bool" where
  "fits_column c v \<longleftrightarrow> (if v = ANull then \<not> pc_not_null c else typed (kind_arrow (pc_kind c)) v)"

definition built :: "decoder \<Rightarrow> bool" where
  "built d \<longleftrightarrow> list_all2 (\<lambda>c cells. length cells = dc_rows_in_batch d \<and> list_all (fits_column c) cells)
     (dc_columns d) (dc_builders d)"

definition pending_rows :: "decoder \<Rightarrow> avalue list list" where
  "pending_rows d = map (\<lambda>i. map (\<lambda>b. b ! i) (dc_builders d)) [0..<dc_rows_in_batch d]"

lemma append_fields_spec:
  assumes "append_fields cs fs bs = Inr bs'" and "length fs = length cs"
    and "list_all2 (\<lambda>c cells. length cells = n \<and> list_all (fits_column c) cells) cs bs"
  shows "\<exists>row. bs' = map2 (\<lambda>b v. b @ [v]) bs row \<and> list_all2 fits_column cs row
    \<and> list_all2 (\<lambda>c cells. length cells = Suc n \<and> list_all (fits_column c) cells) cs bs'"
  using assms
proof (induction cs fs bs arbitrary: bs' rule: append_fields.induct)
  case (1 c cs f fs b bs)
  then obtain v rest where v: "bs' = (b @ [v]) # rest" "append_fields cs fs bs = Inr rest" "fits_column c v"
    by (auto simp: rbind_eq_Inr fits_column_def dest: append_wire_typed split: option.splits if_splits)
  from 1(3,4) have "length fs = length cs"
    "list_all2 (\<lambda>c cells. length cells = n \<and> list_all (fits_column c) cells) cs bs" by auto
  from 1(1) [OF v(2) this] obtain row where
    "rest = map2 (\<lambda>b v. b @ [v]) bs row" "list_all2 fits_column cs row"
    "list_all2 (\<lambda>c cells. length cells = Suc n \<and> list_all (fits_column c) cells) cs rest" by auto
  with v 1(4) show ?case by (intro exI [of _ "v # row"]) auto
qed auto

lemma nth_snoc_rows:
  assumes "list_all (\<lambda>b. length b = n) bs" and "length row = length bs"
  shows "map (\<lambda>i. map (\<lambda>b. b ! i) (map2 (\<lambda>b v. b @ [v]) bs row)) [0..<Suc n]
    = map (\<lambda>i. map (\<lambda>b. b ! i) bs) [0..<n] @ [row]"
proof -
  have "map (\<lambda>b. b ! i) (map2 (\<lambda>b v. b @ [v]) bs row) = map (\<lambda>b. b ! i) bs" if "i < n" for i
    using assms that by (intro nth_equalityI) (auto simp: list_all_length nth_append)
  moreover have "map (\<lambda>b. b ! n) (map2 (\<lambda>b v. b @ [v]) bs row) = row"
    using assms by (intro nth_equalityI) (auto simp: list_all_length nth_append)
  ultimately show ?thesis by simp
qed

lemma row_built:
  assumes row: "try_consume_tuple d = Inr (Row d')" and b: "built d"
  shows "\<exists>cells. pending_rows d' = pending_rows d @ [cells] \<and> list_all2 fits_column (dc_columns d) cells
    \<and> built d' \<and> dc_columns d' = dc_columns d \<and> dc_rows_in_batch d' = Suc (dc_rows_in_batch d)
    \<and> dc_batch_max_rows d' = dc_batch_max_rows d"
proof -
  from row obtain fs rest bs where l: "locate_fields (length (dc_columns d)) (drop 2 (dc_carry d)) = Inr (Some (fs, rest))"
    and a: "append_fields (dc_columns d) fs (dc_builders d) = Inr bs"
    and d': "dc_builders d' = bs" "dc_columns d' = dc_columns d" "dc_rows_in_batch d' = Suc (dc_rows_in_batch d)"
      "dc_batch_max_rows d' = dc_batch_max_rows d"
    by (auto simp: try_consume_tuple_def Let_def rbind_eq_Inr split: if_splits option.splits)
  from locate_fields_rest [OF l] have "length fs = length (dc_columns d)" by blast
  from append_fields_spec [OF a this b [unfolded built_def]] obtain cells where
    c: "bs = map2 (\<lambda>b v. b @ [v]) (dc_builders d) cells" "list_all2 fits_column (dc_columns d) cells"
    and b': "list_all2 (\<lambda>c cells. length cells = Suc (dc_rows_in_batch d) \<and> list_all (fits_column c) cells) (dc_columns d) bs"
    by blast
  have "list_all (\<lambda>b. length b = dc_rows_in_batch d) (dc_builders d)"
    using b by (auto simp: built_def list_all2_conv_all_nth list_all_length)
  moreover have "length cells = length (dc_builders d)"
    using list_all2_lengthD [OF b [unfolded built_def]] list_all2_lengthD [OF c(2)] by simp
  ultimately have "pending_rows d' = pending_rows d @ [cells]"
    unfolding pending_rows_def d' c(1) by (rule nth_snoc_rows)
  with c(2) b' d' show ?thesis by (auto simp: built_def)
qed

lemma cut_some:
  assumes "dc_builders d \<noteq> []"
  obtains d' b where "cut_batch lib d = Inr (d', b)"
  using assms by (cases "dc_builders d") (simp_all add: cut_batch_def)

lemma cut_built:
  assumes cut: "cut_batch lib d = Inr (d', b)" and bt: "built d"
  shows "rb_rows b = pending_rows d \<and> rb_fields b = copy_schema (dc_columns d) \<and> conforms b
    \<and> built d' \<and> pending_rows d' = [] \<and> dc_columns d' = dc_columns d \<and> dc_batch_max_rows d' = dc_batch_max_rows d
    \<and> dc_rows_in_batch d' = 0"
proof -
  from cut obtain a as where a: "dc_builders d = a # as"
    and d': "d' = d\<lparr>dc_builders := map (\<lambda>_. []) (dc_builders d), dc_rows_in_batch := 0, dc_bytes_in_batch := 0\<rparr>"
    and b: "rb_fields b = copy_schema (dc_columns d)"
      "rb_rows b = map (\<lambda>i. map (\<lambda>b. b ! i) (dc_builders d)) [0..<length a]"
    by (auto simp: cut_batch_def split: list.splits)
  from bt a have len: "length a = dc_rows_in_batch d" by (auto simp: built_def list_all2_Cons2)
  have "list_all2 cell_ok (copy_schema (dc_columns d)) (map (\<lambda>b. b ! i) (dc_builders d))" if "i < dc_rows_in_batch d" for i
    using bt that by (auto simp: built_def list_all2_conv_all_nth copy_schema_def cell_ok_def fits_column_def list_all_length)
  with b len have "conforms b" by (auto simp: conforms_def list_all_iff)
  moreover have "built d'" using bt d' by (auto simp: built_def list_all2_conv_all_nth)
  ultimately show ?thesis using b d' len by (auto simp: pending_rows_def)
qed

text \<open>What the loop, and with it a whole decoding, gives out.\<close>

definition batches_ok :: "decoder \<Rightarrow> record_batch list \<Rightarrow> bool" where
  "batches_ok d bs \<longleftrightarrow> list_all (\<lambda>b. rb_fields b = copy_schema (dc_columns d) \<and> conforms b
     \<and> rb_rows b \<noteq> [] \<and> length (rb_rows b) \<le> dc_batch_max_rows d) bs"

definition room :: "decoder \<Rightarrow> bool" where
  "room d \<longleftrightarrow> dc_rows_in_batch d < dc_batch_max_rows d"

lemma tuple_loop_built:
  "tuple_loop lib d = Inr (d', bs) \<Longrightarrow> built d \<Longrightarrow> room d \<Longrightarrow>
    built d' \<and> room d' \<and> batches_ok d bs \<and> dc_columns d' = dc_columns d \<and> dc_batch_max_rows d' = dc_batch_max_rows d"
proof (induction lib d arbitrary: d' bs rule: tuple_loop.induct)
  case (1 lib d)
  show ?case
  proof (cases "dc_state d = Tuples \<and> (\<exists>d1. try_consume_tuple d = Inr (Row d1))")
    case False
    with 1(4) have "bs = []" "dc_columns d' = dc_columns d" "dc_builders d' = dc_builders d"
      "dc_rows_in_batch d' = dc_rows_in_batch d" "dc_batch_max_rows d' = dc_batch_max_rows d"
      by (auto simp: tuple_loop.simps [of lib d] done_loop split: if_splits sum.splits consumed.splits)
    with 1(5,6) show ?thesis by (simp add: built_def room_def batches_ok_def)
  next
    case True
    then obtain d1 where st: "\<not> dc_state d \<noteq> Tuples" and row: "try_consume_tuple d = Inr (Row d1)" by blast
    from row_built [OF row 1(5)] obtain cells where r: "pending_rows d1 = pending_rows d @ [cells]" "built d1"
      "dc_columns d1 = dc_columns d" "dc_rows_in_batch d1 = Suc (dc_rows_in_batch d)"
      "dc_batch_max_rows d1 = dc_batch_max_rows d" by blast
    show ?thesis
    proof (cases "batch_full d1")
      case False
      then have "room d1" by (simp add: batch_full_def room_def)
      have "tuple_loop lib d1 = Inr (d', bs)"
        using 1(4) st row False by (simp add: tuple_loop.simps [of lib d])
      from 1(2) [OF st row refl False this r(2) \<open>room d1\<close>] r(3,5) show ?thesis
        by (simp add: batches_ok_def)
    next
      case True
      with 1(4) st row obtain d2 b bs2 where cut: "cut_batch lib d1 = Inr (d2, b)"
        and l: "tuple_loop lib d2 = Inr (d', bs2)" "bs = b # bs2"
        by (auto simp: tuple_loop.simps [of lib d] rbind_eq_Inr split: sum.splits)
      note c = cut_built [OF cut r(2)]
      have "room d2" using c r(4,5) 1(6) by (simp add: room_def)
      moreover have "built d2" using c by blast
      ultimately have "built d' \<and> room d' \<and> batches_ok d2 bs2 \<and> dc_columns d' = dc_columns d2 \<and> dc_batch_max_rows d' = dc_batch_max_rows d2"
        using 1(1) [OF st row refl True cut refl l(1)] by blast
      moreover have "rb_rows b \<noteq> []" "length (rb_rows b) \<le> dc_batch_max_rows d"
        using c r(1,4) 1(6) by (auto simp: room_def pending_rows_def)
      ultimately show ?thesis using c r l(2) by (simp add: batches_ok_def)
    qed
  qed
qed

lemma feed_built:
  assumes f: "feed lib d x = Inr (d', bs)" and b: "built d" "room d"
  shows "built d' \<and> room d' \<and> batches_ok d bs \<and> dc_columns d' = dc_columns d \<and> dc_batch_max_rows d' = dc_batch_max_rows d"
proof -
  have same: "built (d\<lparr>dc_carry := u\<rparr>) = built d" "room (d\<lparr>dc_carry := u\<rparr>) = room d"
    "batches_ok (d\<lparr>dc_carry := u\<rparr>) bs = batches_ok d bs"
    "built (d\<lparr>dc_carry := u, dc_state := st\<rparr>) = built d" "room (d\<lparr>dc_carry := u, dc_state := st\<rparr>) = room d"
    "batches_ok (d\<lparr>dc_carry := u, dc_state := st\<rparr>) bs = batches_ok d bs" for u st
    by (simp_all add: built_def room_def batches_ok_def)
  have none: "batches_ok d []" by (simp add: batches_ok_def)
  let ?w = "dc_carry d @ x"
  show ?thesis
  proof (cases "dc_state d")
    case Done
    with f have "d' = d" "bs = []" by (simp_all add: feed_def split: if_splits)
    with b none show ?thesis by simp
  next
    case Tuples
    with f have "tuple_loop lib (d\<lparr>dc_carry := ?w\<rparr>) = Inr (d', bs)" by (simp add: feed_def)
    from tuple_loop_built [OF this] b same show ?thesis by simp
  next
    case Header
    with f obtain r where r: "try_consume_header ?w = Inr r" by (auto simp: feed_def rbind_eq_Inr)
    show ?thesis
    proof (cases r)
      case None
      with f Header r have "d' = d\<lparr>dc_carry := ?w\<rparr>" "bs = []" by (simp_all add: feed_def)
      with b none same show ?thesis by simp
    next
      case (Some n)
      with f Header r have "tuple_loop lib (d\<lparr>dc_carry := drop n ?w, dc_state := Tuples\<rparr>) = Inr (d', bs)"
        by (simp add: feed_def)
      from tuple_loop_built [OF this] b same show ?thesis by simp
    qed
  qed
qed

lemma feed_all_built:
  "feed_all lib d cs = Inr (d', bs) \<Longrightarrow> built d \<Longrightarrow> room d \<Longrightarrow>
    built d' \<and> room d' \<and> batches_ok d bs \<and> dc_columns d' = dc_columns d \<and> dc_batch_max_rows d' = dc_batch_max_rows d"
proof (induction cs arbitrary: d bs)
  case (Cons c cs)
  then obtain d1 bs1 bs2 where f: "feed lib d c = Inr (d1, bs1)" "feed_all lib d1 cs = Inr (d', bs2)" "bs = bs1 @ bs2"
    by (auto simp: rbind_eq_Inr)
  note one = feed_built [OF f(1) Cons.prems(2,3)]
  with Cons.IH [OF f(2)] have "built d' \<and> room d' \<and> batches_ok d1 bs2 \<and> dc_columns d' = dc_columns d1
    \<and> dc_batch_max_rows d' = dc_batch_max_rows d1" by blast
  with one f(3) show ?case by (simp add: batches_ok_def)
qed (simp add: batches_ok_def)

lemma decoder_new_built: "decoder_new lib columns target_bytes max_rows = Inr d \<Longrightarrow>
    built d \<and> room d \<and> dc_columns d = columns \<and> dc_batch_max_rows d = max max_rows 1 \<and> dc_state d = Header
    \<and> dc_carry d = [] \<and> pending_rows d = []"
  by (auto simp: decoder_new_def rbind_eq_Inr built_def room_def pending_rows_def list_all2_conv_all_nth)

text \<open>
  C18. Every batch a COPY decoder gives out is built to its schema: whatever bytes arrive and
  however they are cut, the batch's fields are the planned columns in order, every row has one cell
  per field, every cell is a value of the Rust type behind its field's Arrow array (an i64 for an
  integer or a time, an i128 for a decimal, valid UTF-8 for a text, a timestamp zoned as the field
  says) or a null where the column allows nulls, and no batch is empty or longer than the configured
  maximum. The decoder does not check a decimal against the field's precision or a time against the
  length of a day; it leaves both to the server's column types.
\<close>

theorem decoded_batches_conform:
  assumes "decoder_new lib columns target_bytes max_rows = Inr d" and "decode_chunks lib d cs = Inr bs" and "b \<in> set bs"
  shows "rb_fields b = copy_schema columns \<and> conforms b \<and> rb_rows b \<noteq> [] \<and> length (rb_rows b) \<le> max max_rows 1"
proof -
  note new = decoder_new_built [OF assms(1)]
  from assms(2) obtain d1 bs1 d2 tail where f: "feed_all lib d cs = Inr (d1, bs1)" "finish_copy lib d1 = Inr (d2, tail)"
    "bs = bs1 @ (case tail of None \<Rightarrow> [] | Some b \<Rightarrow> [b])"
    by (auto simp: decode_chunks_def rbind_eq_Inr)
  note d1 = feed_all_built [OF f(1)]
  consider "b \<in> set bs1" | "tail = Some b" using assms(3) f(3) by (cases tail) auto
  then show ?thesis
  proof cases
    case 1
    with d1 new show ?thesis by (auto simp: batches_ok_def list_all_iff)
  next
    case 2
    with f(2) have cut: "cut_batch lib d1 = Inr (d2, b)" "dc_rows_in_batch d1 \<noteq> 0"
      by (auto simp: finish_copy_def rbind_eq_Inr split: if_splits)
    with cut_built [OF cut(1)] d1 new show ?thesis by (auto simp: room_def pending_rows_def)
  qed
qed

section \<open>Reading a written stream\<close>

text \<open>\<open>field_reads\<close> and \<open>tuple_reads\<close>: bytes that the decoder takes for a cell and for a row.\<close>

definition null_field :: string where
  "null_field = to_be 4 (2 ^ 32 - 1)"

definition field_reads :: "pg_column \<Rightarrow> string \<Rightarrow> avalue \<Rightarrow> bool" where
  "field_reads c w v \<longleftrightarrow>
     (if v = ANull then \<not> pc_not_null c \<and> w = null_field
      else \<exists>f. w = to_be 4 (length f) @ f \<and> length f < 2 ^ 31 \<and> append_wire (pc_kind c) f = Inr v)"

definition tuple_reads :: "pg_column list \<Rightarrow> string \<Rightarrow> avalue list \<Rightarrow> bool" where
  "tuple_reads cs w row \<longleftrightarrow>
     (\<exists>ws. w = to_be 2 (length cs) @ concat ws \<and> length ws = length cs \<and> length row = length cs
        \<and> (\<forall>i < length cs. field_reads (cs ! i) (ws ! i) (row ! i)))"

definition trailer :: string where
  "trailer = to_be 2 (2 ^ 16 - 1)"

lemma to_be_take [simp]: "take k (to_be k n @ w) = to_be k n" "drop k (to_be k n @ w) = w"
  by simp_all

lemma locate_one:
  assumes "field_reads c w v"
  shows "\<exists>f. (\<forall>rest. locate_fields (Suc n) (w @ rest) = rbind (locate_fields n rest) (\<lambda>r. Inr (map_option (\<lambda>(fs, w'). (f # fs, w')) r)))
    \<and> (if v = ANull then f = None \<and> \<not> pc_not_null c else \<exists>g. f = Some g \<and> append_wire (pc_kind c) g = Inr v)"
proof (cases "v = ANull")
  case True
  have "big_endian_i32 null_field = Inr (- 1)"
    by (simp add: big_endian_i32_def null_field_def signed_of_def)
  with True assms show ?thesis
    by (intro exI [of _ None]) (simp add: field_reads_def null_field_def)
next
  case False
  with assms obtain f where f: "w = to_be 4 (length f) @ f" "length f < 2 ^ 31" "append_wire (pc_kind c) f = Inr v"
    by (auto simp: field_reads_def)
  have "big_endian_i32 (to_be 4 (length f)) = Inr (int (length f))"
    using f(2) by (simp add: big_endian_i32_def signed_of_def)
  with False f show ?thesis
    by (intro exI [of _ "Some f"]) (simp add: Let_def)
qed

lemma locate_all:
  assumes "length ws = length cs" "length row = length cs" "\<forall>i < length cs. field_reads (cs ! i) (ws ! i) (row ! i)"
  shows "\<exists>fs. (\<forall>rest. locate_fields (length cs) (concat ws @ rest) = Inr (Some (fs, rest)))
    \<and> (\<forall>bs. length bs = length cs \<longrightarrow> append_fields cs fs bs = Inr (map2 (\<lambda>b v. b @ [v]) bs row))"
  using assms
proof (induction cs arbitrary: ws row)
  case Nil
  then show ?case by (intro exI [of _ "[]"]) auto
next
  case (Cons c cs)
  obtain w ws' where ws: "ws = w # ws'" using Cons.prems(1) by (cases ws) auto
  obtain v row' where row: "row = v # row'" using Cons.prems(2) by (cases row) auto
  have tail: "\<forall>i < length cs. field_reads (cs ! i) (ws' ! i) (row' ! i)"
    using Cons.prems(3) ws row by force
  have "field_reads c w v" using Cons.prems(3) ws row by force
  from locate_one [OF this, of "length cs"] obtain f where
    f: "\<And>rest. locate_fields (Suc (length cs)) (w @ rest)
        = rbind (locate_fields (length cs) rest) (\<lambda>r. Inr (map_option (\<lambda>(fs, w'). (f # fs, w')) r))"
    and v: "if v = ANull then f = None \<and> \<not> pc_not_null c else \<exists>g. f = Some g \<and> append_wire (pc_kind c) g = Inr v" by blast
  from Cons.IH [OF _ _ tail] Cons.prems(1,2) ws row obtain fs where
    fs: "\<And>rest. locate_fields (length cs) (concat ws' @ rest) = Inr (Some (fs, rest))"
      "\<And>bs. length bs = length cs \<Longrightarrow> append_fields cs fs bs = Inr (map2 (\<lambda>b v. b @ [v]) bs row')" by auto
  have "append_fields (c # cs) (f # fs) bs = Inr (map2 (\<lambda>b v. b @ [v]) bs row)" if "length bs = length (c # cs)" for bs
  proof -
    from that obtain b bs' where bs: "bs = b # bs'" "length bs' = length cs" by (cases bs) auto
    with fs(2) [OF bs(2)] v row show ?thesis by (auto split: if_splits)
  qed
  moreover have "locate_fields (length (c # cs)) (concat ws @ rest) = Inr (Some (f # fs, rest))" for rest
    using f [of "concat ws' @ rest"] fs(1) ws by (simp del: locate_fields.simps)
  ultimately show ?case by blast
qed

lemma consume_written:
  assumes "tuple_reads (dc_columns d) w row" and "dc_carry d = w @ rest" and "built d" and "length (dc_columns d) < 2 ^ 15"
  shows "\<exists>d'. try_consume_tuple d = Inr (Row d') \<and> dc_carry d' = rest \<and> pending_rows d' = pending_rows d @ [row]"
proof -
  let ?n = "length (dc_columns d)"
  from assms(1) obtain ws where w: "w = to_be 2 ?n @ concat ws" "length ws = ?n" "length row = ?n"
    "\<forall>i < ?n. field_reads (dc_columns d ! i) (ws ! i) (row ! i)" by (auto simp: tuple_reads_def)
  from locate_all [OF w(2-4)] obtain fs where
    l: "locate_fields ?n (concat ws @ rest) = Inr (Some (fs, rest))"
    and a: "\<And>bs. length bs = ?n \<Longrightarrow> append_fields (dc_columns d) fs bs = Inr (map2 (\<lambda>b v. b @ [v]) bs row)"
    by blast
  have count: "big_endian_i16 (to_be 2 ?n) = Inr (int ?n)"
    using assms(4) by (simp add: big_endian_i16_def signed_of_def)
  have len: "length (dc_builders d) = ?n" using assms(3) by (auto simp: built_def dest: list_all2_lengthD)
  have "drop 2 (dc_carry d) = concat ws @ rest" "take 2 (dc_carry d) = to_be 2 ?n"
    "\<not> length (dc_carry d) < 2" by (simp_all add: assms(2) w(1))
  then obtain d' where d': "try_consume_tuple d = Inr (Row d')" "dc_carry d' = rest"
      "dc_builders d' = map2 (\<lambda>b v. b @ [v]) (dc_builders d) row"
      "dc_rows_in_batch d' = Suc (dc_rows_in_batch d)"
    using count l a [OF len] by (simp add: try_consume_tuple_def Let_def)
  moreover have "pending_rows d' = pending_rows d @ [row]"
    unfolding pending_rows_def d'(3,4)
    by (rule nth_snoc_rows) (use assms(3) len w(3) in \<open>auto simp: built_def list_all2_conv_all_nth list_all_length\<close>)
  ultimately show ?thesis by blast
qed

lemma consume_trailer:
  "dc_carry d = trailer \<Longrightarrow> try_consume_tuple d = Inr (Trailer [])"
  by (simp add: try_consume_tuple_def trailer_def big_endian_i16_def signed_of_def)

lemma tuple_loop_written:
  assumes "dc_state d = Tuples" and "dc_carry d = concat ws @ trailer" and "list_all2 (tuple_reads (dc_columns d)) ws rows"
    and "built d" and "dc_columns d \<noteq> []" and "length (dc_columns d) < 2 ^ 15"
  shows "\<exists>d' bs. tuple_loop lib d = Inr (d', bs) \<and> dc_state d' = Done \<and> dc_carry d' = []
    \<and> concat (map rb_rows bs) @ pending_rows d' = pending_rows d @ rows \<and> built d' \<and> dc_columns d' = dc_columns d"
  using assms
proof (induction ws arbitrary: d rows)
  case Nil
  from Nil.prems(2) have "try_consume_tuple d = Inr (Trailer [])" by (intro consume_trailer) simp
  moreover from Nil.prems(3,4) have "rows = []" "built (d\<lparr>dc_carry := [], dc_state := Done\<rparr>)" by (simp_all add: built_def)
  ultimately show ?case using Nil.prems(1) by (simp add: tuple_loop.simps [of lib d] done_loop pending_rows_def)
next
  case (Cons w ws)
  from Cons.prems(3) obtain row rows' where rows: "rows = row # rows'" "tuple_reads (dc_columns d) w row"
    "list_all2 (tuple_reads (dc_columns d)) ws rows'" by (auto simp: list_all2_Cons1)
  have "dc_carry d = w @ (concat ws @ trailer)" using Cons.prems(2) by simp
  from consume_written [OF rows(2) this Cons.prems(4,6)] obtain d1 where
    d1: "try_consume_tuple d = Inr (Row d1)" "dc_carry d1 = concat ws @ trailer" "pending_rows d1 = pending_rows d @ [row]"
    by blast
  with row_built [OF d1(1) Cons.prems(4)] row_consumes [OF d1(1)] Cons.prems(1)
  have b1: "built d1" "dc_columns d1 = dc_columns d" "dc_state d1 = Tuples" by auto
  show ?case
  proof (cases "batch_full d1")
    case False
    with d1 Cons.prems(1) have same: "tuple_loop lib d = tuple_loop lib d1" by (simp add: tuple_loop.simps [of lib d])
    from Cons.IH [OF b1(3) d1(2), of rows'] b1(1,2) rows(3) Cons.prems(5,6) obtain d' bs where
      "tuple_loop lib d1 = Inr (d', bs)" "dc_state d' = Done" "dc_carry d' = []"
      "concat (map rb_rows bs) @ pending_rows d' = pending_rows d1 @ rows'" "built d'" "dc_columns d' = dc_columns d1" by auto
    with same d1(3) rows(1) b1(2) show ?thesis by auto
  next
    case True
    have "dc_builders d1 \<noteq> []" using b1(1,2) Cons.prems(5) by (auto simp: built_def)
    then obtain d2 b where cut: "cut_batch lib d1 = Inr (d2, b)" by (rule cut_some)
    note c = cut_built [OF cut b1(1)]
    from cut_keeps [OF cut] b1(3) d1(2) have st: "dc_state d2 = Tuples" "dc_carry d2 = concat ws @ trailer" by simp_all
    have eq: "tuple_loop lib d = rbind (tuple_loop lib d2) (\<lambda>(d, bs). Inr (d, b # bs))"
      using True d1 Cons.prems(1) cut by (simp add: tuple_loop.simps [of lib d])
    have cols: "dc_columns d2 = dc_columns d" "built d2" "pending_rows d2 = []" using c b1(2) by auto
    from Cons.IH [OF st, of rows'] cols rows(3) Cons.prems(5,6) obtain d' bs where
      l: "tuple_loop lib d2 = Inr (d', bs)" "dc_state d' = Done" "dc_carry d' = []"
      "concat (map rb_rows bs) @ pending_rows d' = rows'" "built d'" "dc_columns d' = dc_columns d2" by auto
    have "rb_rows b = pending_rows d @ [row]" using c d1(3) by simp
    with eq l cols rows(1) show ?thesis by (intro exI [of _ d'] exI [of _ "b # bs"]) simp
  qed
qed

definition copy_header :: string where
  "copy_header = header_signature @ to_be 4 0 @ to_be 4 0"

lemma header_written: "try_consume_header (copy_header @ w) = Inr (Some 19)" "length copy_header = 19"
proof -
  show len: "length copy_header = 19" by (simp add: copy_header_def header_signature_def)
  have "take 11 (copy_header @ w) = header_signature" "take 4 (drop 15 (copy_header @ w)) = to_be 4 0"
    by (simp_all add: copy_header_def header_signature_def)
  moreover have "big_endian_i32 (to_be 4 0) = Inr 0" by (simp add: big_endian_i32_def signed_of_def)
  ultimately show "try_consume_header (copy_header @ w) = Inr (Some 19)"
    using len by (simp add: try_consume_header_def)
qed

lemma decode_written:
  assumes d: "decoder_new lib columns target_bytes max_rows = Inr d"
    and ws: "list_all2 (tuple_reads columns) ws rows" and cols: "columns \<noteq> []" "length columns < 2 ^ 15"
  shows "\<exists>bs. decode_chunks lib d [copy_header @ concat ws @ trailer] = Inr bs \<and> concat (map rb_rows bs) = rows"
proof -
  note new = decoder_new_built [OF d]
  let ?d = "d\<lparr>dc_carry := concat ws @ trailer, dc_state := Tuples\<rparr>"
  have "built ?d = built d" "pending_rows ?d = pending_rows d" by (simp_all add: built_def pending_rows_def)
  then have "built ?d" "pending_rows ?d = []" using new by simp_all
  with tuple_loop_written [of ?d ws rows lib] ws cols new obtain d' bs where
    l: "tuple_loop lib ?d = Inr (d', bs)" "dc_state d' = Done" "dc_carry d' = []"
      "concat (map rb_rows bs) @ pending_rows d' = rows" "built d'" "dc_columns d' = columns" by auto
  have fd: "feed lib d (copy_header @ concat ws @ trailer) = Inr (d', bs)"
    using new l(1) header_written by (simp add: feed_def)
  show ?thesis
  proof (cases "dc_rows_in_batch d' = 0")
    case True
    then have "pending_rows d' = []" by (simp add: pending_rows_def)
    with fd l True show ?thesis by (intro exI [of _ bs]) (simp add: decode_chunks_def finish_copy_def)
  next
    case False
    have "dc_builders d' \<noteq> []" using l(5,6) cols(1) by (auto simp: built_def)
    then obtain d2 b where cut: "cut_batch lib d' = Inr (d2, b)" by (rule cut_some)
    from cut_built [OF cut l(5)] fd l False cut show ?thesis
      by (intro exI [of _ "bs @ [b]"]) (simp add: decode_chunks_def finish_copy_def)
  qed
qed

end
