(* ===== verification/Pg_Session.thy ===== *)
theory Pg_Session
  imports Pg_Write Sql_Arms
begin

text \<open>
  The PostgreSQL destination's load session: \<^verbatim>\<open>destination/catalog.rs\<close> (the DDL),
  \<^verbatim>\<open>unit.rs\<close> (the transaction of a commit unit), \<^verbatim>\<open>executor.rs\<close> (the steps of a publish),
  \<^verbatim>\<open>load.rs\<close> (the backend's calls), \<^verbatim>\<open>connector.rs\<close> (\<open>connect\<close>), and the statement half of
  \<^verbatim>\<open>session/classify.rs\<close>. The driver's connection is a parameter: a record of its calls on a
  server state \<open>'d\<close>.
\<close>

section \<open>Driver errors\<close>

text \<open>
  \<open>tokio_postgres::Error\<close>: an error of the server with its code, display, message and context,
  or one of the client with its display and those of its sources.
\<close>

datatype pg_error =
    DbError (pe_code: string) string string "string option"
  | ClientError string "string list"

definition pg_describe :: "pg_error \<Rightarrow> string" where
  "pg_describe e =
     (case e of
        DbError code display message where_ \<Rightarrow>
          display @ '': '' @ message @ '' (SQLSTATE '' @ code @ '')''
          @ (case where_ of Some w \<Rightarrow> '' ['' @ w @ '']'' | None \<Rightarrow> [])
      | ClientError display causes \<Rightarrow> display @ concat (map (\<lambda>c. '': '' @ c) causes))"

definition is_permanent_at_statement :: "string \<Rightarrow> bool" where
  "is_permanent_at_statement sqlstate \<longleftrightarrow> 2 \<le> length sqlstate \<and> take 2 sqlstate \<in> {''22'', ''23'', ''42''}"

definition driver_transient :: "dest_phase \<Rightarrow> pg_error \<Rightarrow> dest_error" where
  "driver_transient phase e = dest_transient phase (pg_describe e)"

definition classify_statement :: "dest_phase \<Rightarrow> pg_error \<Rightarrow> dest_error" where
  "classify_statement phase e =
     (case e of
        DbError code _ _ _ \<Rightarrow>
          if is_permanent_at_statement code then dest_fatal phase (pg_describe e)
          else dest_transient phase (pg_describe e)
      | ClientError _ _ \<Rightarrow> dest_transient phase (pg_describe e))"

text \<open>
  The connection. \<open>cn_copy_in sql chunks ended\<close> starts a COPY, feeds the chunks, and flushes and
  finishes it when \<open>ended\<close>; otherwise the sink is dropped after them.
\<close>

record 'd pg_conn =
  cn_batch :: "string \<Rightarrow> ('d, pg_error, unit) action"
  cn_execute :: "string \<Rightarrow> sql_value list \<Rightarrow> ('d, pg_error, unit) action"
  cn_count :: "string \<Rightarrow> sql_value list \<Rightarrow> ('d, pg_error, int) action"
  cn_exists :: "string \<Rightarrow> sql_value list \<Rightarrow> ('d, pg_error, bool) action"
  cn_text :: "string \<Rightarrow> sql_value list \<Rightarrow> ('d, pg_error, string option) action"
  cn_names :: "string \<Rightarrow> sql_value list \<Rightarrow> ('d, pg_error, string list) action"
  cn_copy_in :: "string \<Rightarrow> string list \<Rightarrow> bool \<Rightarrow> ('d, pg_error, unit) action"

section \<open>catalog.rs: names and types\<close>

definition stage_prefix :: "core_env \<Rightarrow> string \<Rightarrow> string" where
  "stage_prefix env pipeline = STAGE_PREFIX @ ident_hash env pipeline 8 @ ''_''"

primrec pg_scalar_type :: "logical_type \<Rightarrow> string" where
  "pg_scalar_type LBool = ''BOOLEAN''"
| "pg_scalar_type LInt64 = ''BIGINT''"
| "pg_scalar_type LFloat64 = ''DOUBLE PRECISION''"
| "pg_scalar_type LUtf8 = ''TEXT''"
| "pg_scalar_type LUuid = ''UUID''"
| "pg_scalar_type LJson = ''JSONB''"
| "pg_scalar_type LBinary = ''BYTEA''"
| "pg_scalar_type LTimestampTz = ''TIMESTAMPTZ''"
| "pg_scalar_type LTimestampNaive = ''TIMESTAMP''"
| "pg_scalar_type LDate = ''DATE''"
| "pg_scalar_type LTime = ''TIME''"
| "pg_scalar_type (LDecimal precision scale) = ''NUMERIC('' @ show_nat precision @ '','' @ show_nat scale @ '')''"

definition pg_sql_type :: "column_type \<Rightarrow> string" where
  "pg_sql_type t = (case t of Scalar s \<Rightarrow> pg_scalar_type s | Struct _ \<Rightarrow> ''TEXT'' | ScalarList _ \<Rightarrow> ''TEXT'')"

definition render_column_definition :: "column \<Rightarrow> bool \<Rightarrow> string" where
  "render_column_definition c for_target =
     quote_identifier (col_name c) @ '' '' @ pg_sql_type (col_type c)
     @ (if for_target \<and> \<not> nullable c then '' NOT NULL'' else [])"

definition pg_leg_name :: "core_env \<Rightarrow> string \<Rightarrow> table_schema \<Rightarrow> leg \<Rightarrow> string" where
  "pg_leg_name env pipeline schema l =
     (case l of Target \<Rightarrow> sch_table schema | Stage \<Rightarrow> stage_table env pipeline (sch_table schema))"

definition pg_create_table :: "string \<Rightarrow> table_schema \<Rightarrow> bool \<Rightarrow> string" where
  "pg_create_table name schema is_stage =
     (let columns = join '', '' (map (\<lambda>c. render_column_definition c (\<not> is_stage)) (sch_columns schema))
        @ (if is_stage
           then '', '' @ quote_identifier ARRIVAL_COL @ '' bigint GENERATED BY DEFAULT AS IDENTITY (CACHE 32)'' else []) in
      ''CREATE '' @ (if is_stage then ''UNLOGGED '' else []) @ ''TABLE IF NOT EXISTS '' @ quote_identifier name
      @ '' ('' @ columns @ '')'')"

fun pg_table_statement :: "core_env \<Rightarrow> string \<Rightarrow> table_schema \<Rightarrow> ensure_step \<Rightarrow> (ddl_error, string) result" where
  "pg_table_statement env pipeline schema (EnsureTable l) =
     Inr (pg_create_table (pg_leg_name env pipeline schema l) schema (l = Stage))"
| "pg_table_statement env pipeline schema (EnsureColumn l i) =
     rbind (index_column schema i) (\<lambda>c. Inr
       (''ALTER TABLE '' @ quote_identifier (pg_leg_name env pipeline schema l) @ '' ADD COLUMN IF NOT EXISTS ''
        @ quote_identifier (col_name c) @ '' '' @ pg_sql_type (col_type c)))"
| "pg_table_statement env pipeline schema (EnsureWiden l i) =
     rbind (index_column schema i) (\<lambda>c. Inr
       (''ALTER TABLE '' @ quote_identifier (pg_leg_name env pipeline schema l) @ '' ALTER COLUMN ''
        @ quote_identifier (col_name c) @ '' TYPE '' @ pg_sql_type (col_type c) @ '' USING ''
        @ quote_identifier (col_name c) @ ''::'' @ pg_sql_type (col_type c)))"
| "pg_table_statement env pipeline schema _ = Inl Panic"

definition table_ddl_statements ::
    "core_env \<Rightarrow> string \<Rightarrow> table_schema \<Rightarrow> write_mode \<Rightarrow> table_schema option \<Rightarrow> (ddl_error, string list) result" where
  "table_ddl_statements env pipeline schema mode previous =
     traverse (pg_table_statement env pipeline schema) (schema_steps env schema mode DirectToTarget previous)"

text \<open>A statement and, for a unique index, its columns.\<close>

fun pg_merge_statement ::
    "core_env \<Rightarrow> string \<Rightarrow> scd2_options \<Rightarrow> ensure_step \<Rightarrow> (ddl_error, string \<times> string list option) result" where
  "pg_merge_statement env t scd2 (EnsureValidity v) =
     (let (column, definition) = (case v of
          From \<Rightarrow> (valid_from scd2, ''TIMESTAMPTZ NOT NULL DEFAULT now()'')
        | To \<Rightarrow> (valid_to scd2, ''TIMESTAMPTZ'')) in
      Inr (''ALTER TABLE '' @ quote_identifier t @ '' ADD COLUMN IF NOT EXISTS '' @ quote_identifier column
        @ '' '' @ definition, None))"
| "pg_merge_statement env t scd2 (EnsureIndex spec) =
     Inr (create_index_sql env (unique spec) t (ix_columns spec) quote_identifier,
          if unique spec then Some (ix_columns spec) else None)"
| "pg_merge_statement env t scd2 _ = Inl Panic"

definition merge_ensure_statements ::
    "core_env \<Rightarrow> destination_options \<Rightarrow> table_schema \<Rightarrow> write_mode
      \<Rightarrow> (ddl_error, (string \<times> string list option) list) result" where
  "merge_ensure_statements env o' schema mode =
     (case merge_steps env o' schema mode of
        Inl e \<Rightarrow> Inl (Invalid e)
      | Inr ss \<Rightarrow> traverse (pg_merge_statement env (sch_table schema) (scd2_for o' (sch_table schema))) ss)"

section \<open>The session\<close>

record unit_open =
  op_load_committed_before :: bool
  op_cleared :: "string set"

record pg_load =
  pl_pipeline :: string
  pl_load :: string
  pl_tables :: "write_mode session_tables"
  pl_options :: destination_options
  pl_unit :: "unit_open option"
  pl_cleared :: "string set"
  pl_single_unit_done :: "string set"

type_synonym ('d, 'a) pg_action = "(pg_load \<times> 'd, dest_error, 'a) action"

definition on_conn :: "(pg_error \<Rightarrow> dest_error) \<Rightarrow> ('d, pg_error, 'a) action \<Rightarrow> ('d, 'a) pg_action" where
  "on_conn f m s = (case m (snd s) of (r, d) \<Rightarrow> (map_err f r, (fst s, d)))"

definition on_self :: "(pg_load \<Rightarrow> ('d, 'a) pg_action) \<Rightarrow> ('d, 'a) pg_action" where
  "on_self k s = k (fst s) s"

definition update_self :: "(pg_load \<Rightarrow> pg_load) \<Rightarrow> ('d, unit) pg_action" where
  "update_self f s = (Inr (), (f (fst s), snd s))"

section \<open>unit.rs\<close>

definition UNIT_BEGIN :: string where "UNIT_BEGIN = ''BEGIN ISOLATION LEVEL READ COMMITTED''"
definition UNIT_COMMIT :: string where "UNIT_COMMIT = ''COMMIT''"
definition UNIT_ROLLBACK :: string where "UNIT_ROLLBACK = ''ROLLBACK''"
definition UNIT_WORK_MEM :: string where "UNIT_WORK_MEM = ''SET LOCAL work_mem = '' @ [squote] @ ''64MB'' @ [squote]"

definition dollar :: "nat \<Rightarrow> string" where
  "dollar n = ''$'' @ show_nat n"

definition load_count_sql :: string where
  "load_count_sql = ''SELECT count(*) FROM '' @ COMMITS_TABLE @ '' WHERE load_id = $1''"

definition begin_if_closed :: "'d pg_conn \<Rightarrow> string \<Rightarrow> ('d, unit) pg_action" where
  "begin_if_closed cn load = on_self (\<lambda>l.
     if pl_unit l \<noteq> None then aret ()
     else
       abind (on_conn (driver_transient DCommit) (cn_batch cn UNIT_BEGIN)) (\<lambda>_.
       abind (on_conn (driver_transient DCommit) (cn_batch cn UNIT_WORK_MEM)) (\<lambda>_.
       abind (on_conn (driver_transient DCommit) (cn_count cn load_count_sql [VText load])) (\<lambda>n.
       update_self (\<lambda>l. l\<lparr>pl_unit := Some \<lparr>op_load_committed_before = (n > 0), op_cleared = {}\<rparr>\<rparr>)))))"

text \<open>\<open>expect\<close> panics.\<close>

definition unit_commit :: "'d pg_conn \<Rightarrow> ('d, unit_open) pg_action" where
  "unit_commit cn =
     abind (on_conn (driver_transient DCommit) (cn_batch cn UNIT_COMMIT)) (\<lambda>_.
     on_self (\<lambda>l.
       case pl_unit l of
         None \<Rightarrow> afail Panicked
       | Some u \<Rightarrow> abind (update_self (\<lambda>l. l\<lparr>pl_unit := None\<rparr>)) (\<lambda>_. aret u)))"

definition unit_rollback :: "'d pg_conn \<Rightarrow> pg_load \<times> 'd \<Rightarrow> pg_load \<times> 'd" where
  "unit_rollback cn s =
     (case s of (l, d) \<Rightarrow>
        if pl_unit l = None then s
        else (l\<lparr>pl_unit := None\<rparr>, snd (cn_batch cn UNIT_ROLLBACK d)))"

text \<open>Every call of the backend abandons its unit on an error; a panic unwinds instead.\<close>

definition or_rollback :: "'d pg_conn \<Rightarrow> ('d, 'a) pg_action \<Rightarrow> ('d, 'a) pg_action" where
  "or_rollback cn m s =
     (case m s of
        (Inl e, s') \<Rightarrow> (Inl e, if e = Panicked then s' else unit_rollback cn s')
      | (Inr a, s') \<Rightarrow> (Inr a, s'))"

section \<open>catalog.rs: ensure\<close>

definition pg_ddl_failure :: "ddl_error \<Rightarrow> dest_error" where
  "pg_ddl_failure e = (case e of Panic \<Rightarrow> Panicked | Invalid v \<Rightarrow> dest_fatal DEnsure (display_validate_error v))"

definition merge_ddl_error :: "string \<Rightarrow> string list option \<Rightarrow> pg_error \<Rightarrow> dest_error" where
  "merge_ddl_error t unique_columns e =
     (case (unique_columns, e) of
        (Some columns, DbError code _ _ _) \<Rightarrow>
          if code = ''23505'' then dest_fatal DEnsure (duplicate_merge_key_diagnosis t columns (pg_describe e))
          else classify_statement DEnsure e
      | _ \<Rightarrow> classify_statement DEnsure e)"

definition catalog_ensure :: "core_env \<Rightarrow> 'd pg_conn \<Rightarrow> table_schema \<Rightarrow> write_mode \<Rightarrow> ('d, unit) pg_action" where
  "catalog_ensure env cn schema mode = on_self (\<lambda>l.
     abind (alift (map_err pg_ddl_failure (table_ddl_statements env (pl_pipeline l) schema mode
         (map_option fst (map_of (pl_tables l) (sch_table schema)))))) (\<lambda>sqls.
     abind (aeach (\<lambda>sql. on_conn (classify_statement DEnsure) (cn_batch cn sql)) sqls) (\<lambda>_.
     abind (alift (map_err pg_ddl_failure (merge_ensure_statements env (pl_options l) schema mode))) (\<lambda>statements.
     abind (aeach (\<lambda>(sql, uix). on_conn (merge_ddl_error (sch_table schema) uix) (cn_batch cn sql)) statements) (\<lambda>_.
     update_self (\<lambda>l. l\<lparr>pl_tables := btree_insert (sch_table schema) (schema, mode) (pl_tables l)\<rparr>))))))"

section \<open>load.rs: writing\<close>

definition pg_commit_context :: "pg_load \<Rightarrow> bool \<Rightarrow> string set \<Rightarrow> string set \<Rightarrow> commit_context" where
  "pg_commit_context l rep staged cleared =
     \<lparr>replayed = rep,
      load_committed_before = (case pl_unit l of Some u \<Rightarrow> op_load_committed_before u | None \<Rightarrow> False),
      single_unit_done = pl_single_unit_done l, staged_nonempty = staged,
      full_load = DirectToTarget, cleared_targets = cleared\<rparr>"

definition cleared_union :: "pg_load \<Rightarrow> string set" where
  "cleared_union l = pl_cleared l \<union> (case pl_unit l of Some u \<Rightarrow> op_cleared u | None \<Rightarrow> {})"

definition cleared_sql :: string where
  "cleared_sql = ''SELECT EXISTS (SELECT 1 FROM '' @ CLEARED_TABLE @ '' WHERE load_id = $1 AND table_name = $2)''"

definition record_clear_sql :: string where
  "record_clear_sql = ''INSERT INTO '' @ CLEARED_TABLE @ '' VALUES ($1, $2) ON CONFLICT DO NOTHING''"

definition target_cleared_durably :: "'d pg_conn \<Rightarrow> string \<Rightarrow> string \<Rightarrow> ('d, bool) pg_action" where
  "target_cleared_durably cn load t =
     on_conn (driver_transient DWrite) (cn_exists cn cleared_sql [VText load, VText t])"

definition run_prepare_step :: "'d pg_conn \<Rightarrow> string \<Rightarrow> step \<Rightarrow> ('d, unit) pg_action" where
  "run_prepare_step cn load s =
     (case s of
        ClearTarget t \<Rightarrow>
          abind (on_conn (classify_statement DWrite) (cn_batch cn (clear_table postgres_dialect (quote_identifier t)))) (\<lambda>_.
          abind (on_conn (classify_statement DWrite) (cn_execute cn record_clear_sql [VText load, VText t])) (\<lambda>_.
          on_self (\<lambda>l.
            case pl_unit l of
              None \<Rightarrow> afail Panicked
            | Some u \<Rightarrow> update_self (\<lambda>l. l\<lparr>pl_unit := Some (u\<lparr>op_cleared := insert t (op_cleared u)\<rparr>)\<rparr>))))
      | _ \<Rightarrow> afail (dest_fatal DWrite ''internal: unexpected step planned before a direct write''))"

definition prepare_for_write :: "'d pg_conn \<Rightarrow> string \<Rightarrow> string \<Rightarrow> ('d, unit) pg_action" where
  "prepare_for_write cn t load =
     abind (begin_if_closed cn load) (\<lambda>_. on_self (\<lambda>l.
       if map_option snd (map_of (pl_tables l) t) \<noteq> Some Replace then aret ()
       else
         abind (if t \<in> cleared_union l then aret ()
                else abind (target_cleared_durably cn load t) (\<lambda>known.
                  if known then update_self (\<lambda>l. l\<lparr>pl_cleared := insert t (pl_cleared l)\<rparr>) else aret ())) (\<lambda>_.
         on_self (\<lambda>l. aeach (run_prepare_step cn load)
           (prepare_target (pl_tables l) (pg_commit_context l False {} (cleared_union l)) t)))))"

definition write_relation :: "core_env \<Rightarrow> pg_load \<Rightarrow> string \<Rightarrow> string" where
  "write_relation env l t =
     (case map_of (pl_tables l) t of
        Some (_, Merge _) \<Rightarrow> stage_table env (pl_pipeline l) t
      | _ \<Rightarrow> t)"

definition copy_batch ::
    "core_env \<Rightarrow> encode_lib \<Rightarrow> 'd pg_conn \<Rightarrow> string \<Rightarrow> table_schema option \<Rightarrow> record_batch \<Rightarrow> ('d, unit) pg_action" where
  "copy_batch env el cn relation schema b =
     abind (alift (copy_chunks env el schema b)) (\<lambda>(chunks, failed).
     abind (on_conn (classify_statement DWrite) (cn_copy_in cn (copy_statement relation b) chunks (failed = None))) (\<lambda>_.
     case failed of None \<Rightarrow> aret () | Some e \<Rightarrow> afail e))"

definition write_inner :: "core_env \<Rightarrow> encode_lib \<Rightarrow> 'd pg_conn \<Rightarrow> string \<Rightarrow> record_batch \<Rightarrow> ('d, unit) pg_action" where
  "write_inner env el cn t b = on_self (\<lambda>l.
     abind (prepare_for_write cn t (pl_load l)) (\<lambda>_. on_self (\<lambda>l.
     copy_batch env el cn (write_relation env l t) (map_option fst (map_of (pl_tables l) t)) b)))"

section \<open>load.rs: committing\<close>

text \<open>\<open>as i64\<close> on a \<open>u64\<close>.\<close>

definition seq_key :: "64 word \<Rightarrow> int" where
  "seq_key seq = sint seq"

definition existing_receipt_inner :: "'d pg_conn \<Rightarrow> string \<Rightarrow> 64 word \<Rightarrow> ('d, (string \<times> 64 word) option) pg_action" where
  "existing_receipt_inner cn load seq = on_self (\<lambda>l.
     if load \<noteq> pl_load l
     then afail (dest_fatal DCommit (''internal: session opened for load '' @ bq (pl_load l)
       @ '' asked to commit load '' @ bq load))
     else
       abind (begin_if_closed cn (pl_load l)) (\<lambda>_.
       abind (on_conn (driver_transient DCommit) (cn_count cn (receipt_exists_sql dollar) [VText load, VInt (seq_key seq)]))
         (\<lambda>n. aret (if n > 0 then Some (load, seq) else None))))"

fun pg_probe_stages :: "core_env \<Rightarrow> 'd pg_conn \<Rightarrow> string \<Rightarrow> string list \<Rightarrow> ('d, string set) pg_action" where
  "pg_probe_stages env cn pipeline [] = aret {}"
| "pg_probe_stages env cn pipeline (t # ts) =
     abind (on_conn (driver_transient DCommit)
       (cn_exists cn (stage_nonempty_sql (quote_identifier (stage_table env pipeline t))) [])) (\<lambda>staged.
     abind (pg_probe_stages env cn pipeline ts) (\<lambda>rest.
     aret (if staged then insert t rest else rest)))"

definition probe_staged_nonempty :: "core_env \<Rightarrow> 'd pg_conn \<Rightarrow> ('d, string set) pg_action" where
  "probe_staged_nonempty env cn = on_self (\<lambda>l.
     pg_probe_stages env cn (pl_pipeline l) (staged_probe_targets (pl_tables l) (pl_options l)))"

text \<open>The plan of a commit over the probed stages.\<close>

definition planned_script :: "core_env \<Rightarrow> 'd pg_conn \<Rightarrow> bool \<Rightarrow> ('d, commit_script) pg_action" where
  "planned_script env cn rep =
     abind (probe_staged_nonempty env cn) (\<lambda>staged. on_self (\<lambda>l.
     alift (map_err (\<lambda>e. dest_fatal DCommit (display_commit_error e))
       (plan_commit env (pl_tables l) (pl_options l) (pg_commit_context l rep staged (cleared_union l))))))"

definition replay_inner :: "core_env \<Rightarrow> 'd pg_conn \<Rightarrow> ('d, unit) pg_action" where
  "replay_inner env cn =
     abind (planned_script env cn True) (\<lambda>script.
     abind (\<lambda>s. (Inr (), unit_rollback cn s)) (\<lambda>_.
     update_self (\<lambda>l. l\<lparr>pl_single_unit_done := pl_single_unit_done l \<union> set (marks script)\<rparr>)))"

section \<open>executor.rs\<close>

definition pg_upsert_state_sql :: string where
  "pg_upsert_state_sql = ''INSERT INTO '' @ STATE_TABLE @ '' VALUES ($1, $2)'' @ [CHR 0x0A]
     @ ''             ON CONFLICT (pipeline) DO UPDATE SET doc = EXCLUDED.doc''"

definition pg_insert_receipt_sql :: string where
  "pg_insert_receipt_sql = ''INSERT INTO '' @ COMMITS_TABLE @ '' VALUES ($1, $2)''"

text \<open>The statements of a data step; \<open>roots\<close> and the schemas are indexed, which panics.\<close>

definition pg_merge_sql :: "core_env \<Rightarrow> pg_load \<Rightarrow> string \<Rightarrow> merge_arm \<Rightarrow> (dest_error, string list) result" where
  "pg_merge_sql env l t arm =
     (case map_of (pl_tables l) t of
        None \<Rightarrow> Inl Panicked
      | Some (schema, Merge key) \<Rightarrow>
          (let root = root_of (pl_tables l) t in
           Inr (render_arm env
             (build_merge_plan env postgres_dialect (pl_options l) t schema key (quote_identifier t)
               (quote_identifier (stage_table env (pl_pipeline l) t)) (column_list schema) root
               (quote_identifier (stage_table env (pl_pipeline l) root))
               (map_option fst (map_of (pl_tables l) root))) arm))
      | Some _ \<Rightarrow> Inl (dest_fatal DCommit (''internal: merge arm planned for non-merge table '' @ bq t)))"

fun pg_step_sql :: "core_env \<Rightarrow> pg_load \<Rightarrow> step \<Rightarrow> (dest_error, string list) result" where
  "pg_step_sql env l (ScopeReplace t scope) =
     Inr [scope_replace_sql postgres_dialect (quote_identifier t)
       (quote_identifier (stage_table env (pl_pipeline l) t)) scope]"
| "pg_step_sql env l (MergeArm t arm) = pg_merge_sql env l t arm"
| "pg_step_sql env l (TruncateStage t) =
     Inr [clear_table postgres_dialect (quote_identifier (stage_table env (pl_pipeline l) t))]"
| "pg_step_sql env l (ClearTarget t) =
     Inl (dest_fatal DCommit (''internal: staged publish step planned for '' @ bq t @ '', but this destination writes full loads directly''))"
| "pg_step_sql env l (InsertSelect t) =
     Inl (dest_fatal DCommit (''internal: staged publish step planned for '' @ bq t @ '', but this destination writes full loads directly''))"
| "pg_step_sql env l _ = Inr []"

fun pg_run_step :: "core_env \<Rightarrow> 'd pg_conn \<Rightarrow> commit_meta \<Rightarrow> step \<Rightarrow> ('d, unit) pg_action" where
  "pg_run_step env cn meta UpsertState =
     abind (alift (map_err (dest_fatal DCommit) (meta_doc meta))) (\<lambda>doc.
     on_conn (classify_statement DCommit) (cn_execute cn pg_upsert_state_sql [VText (meta_pipeline meta), VText doc]))"
| "pg_run_step env cn meta InsertReceipt =
     on_conn (classify_statement DCommit)
       (cn_execute cn pg_insert_receipt_sql [VText (meta_load meta), VInt (seq_key (meta_seq meta))])"
| "pg_run_step env cn meta s = on_self (\<lambda>l.
     abind (alift (pg_step_sql env l s)) (\<lambda>sqls.
     aeach (\<lambda>sql. on_conn (classify_statement DCommit) (cn_batch cn sql)) sqls))"

definition publish_inner :: "core_env \<Rightarrow> 'd pg_conn \<Rightarrow> commit_meta \<Rightarrow> ('d, string \<times> 64 word) pg_action" where
  "publish_inner env cn meta =
     abind (planned_script env cn False) (\<lambda>script.
     abind (aeach (pg_run_step env cn meta) (steps script)) (\<lambda>_.
     abind (unit_commit cn) (\<lambda>u.
     abind (update_self (\<lambda>l. l\<lparr>pl_cleared := pl_cleared l \<union> op_cleared u,
        pl_single_unit_done := pl_single_unit_done l \<union> set (marks script)\<rparr>)) (\<lambda>_.
     aret (meta_load meta, meta_seq meta)))))"

section \<open>load.rs: the backend\<close>

definition pg_ensure_table :: "core_env \<Rightarrow> 'd pg_conn \<Rightarrow> table_schema \<Rightarrow> write_mode \<Rightarrow> ('d, unit) pg_action" where
  "pg_ensure_table env cn schema mode = or_rollback cn (catalog_ensure env cn schema mode)"

definition pg_write :: "core_env \<Rightarrow> encode_lib \<Rightarrow> 'd pg_conn \<Rightarrow> string \<Rightarrow> record_batch \<Rightarrow> ('d, unit) pg_action" where
  "pg_write env el cn t b = or_rollback cn (write_inner env el cn t b)"

definition pg_existing_receipt :: "'d pg_conn \<Rightarrow> string \<Rightarrow> 64 word \<Rightarrow> ('d, (string \<times> 64 word) option) pg_action" where
  "pg_existing_receipt cn load seq = or_rollback cn (existing_receipt_inner cn load seq)"

definition pg_replay :: "core_env \<Rightarrow> 'd pg_conn \<Rightarrow> commit_meta \<Rightarrow> ('d, unit) pg_action" where
  "pg_replay env cn meta = or_rollback cn (replay_inner env cn)"

definition pg_publish :: "core_env \<Rightarrow> 'd pg_conn \<Rightarrow> commit_meta \<Rightarrow> ('d, string \<times> 64 word) pg_action" where
  "pg_publish env cn meta = or_rollback cn (publish_inner env cn meta)"

text \<open>\<open>serde_json::from_str\<close> is the argument \<open>parse\<close>.\<close>

definition pg_read_state ::
    "'d pg_conn \<Rightarrow> (string \<Rightarrow> (string, 's) result) \<Rightarrow> string \<Rightarrow> ('d, 's option) pg_action" where
  "pg_read_state cn parse pipeline =
     abind (on_conn (driver_transient DCommit)
       (cn_text cn (''SELECT doc FROM '' @ STATE_TABLE @ '' WHERE pipeline = $1'') [VText pipeline])) (\<lambda>row.
     case row of
       None \<Rightarrow> aret None
     | Some doc \<Rightarrow> abind (alift (map_err (dest_fatal DCommit) (parse doc))) (\<lambda>v. aret (Some v)))"

section \<open>connector.rs\<close>

definition connect_ddl :: "string \<Rightarrow> string" where
  "connect_ddl schema =
     (let gap = [CHR 0x0A] @ replicate 17 CHR '' '' in
      ''CREATE SCHEMA IF NOT EXISTS '' @ schema @ '';'' @ gap
      @ ''SET search_path TO '' @ schema @ '';'' @ gap
      @ ''CREATE TABLE IF NOT EXISTS '' @ STATE_TABLE @ '' (pipeline TEXT PRIMARY KEY, doc TEXT);'' @ gap
      @ ''CREATE TABLE IF NOT EXISTS '' @ COMMITS_TABLE @ '' ('' @ gap
      @ ''    load_id TEXT, commit_seq BIGINT, PRIMARY KEY (load_id, commit_seq));'' @ gap
      @ ''CREATE TABLE IF NOT EXISTS '' @ CLEARED_TABLE @ '' ('' @ gap
      @ ''    load_id TEXT, table_name TEXT, PRIMARY KEY (load_id, table_name));'')"

definition stale_sql :: string where
  "stale_sql = ''SELECT tablename FROM pg_tables'' @ [CHR 0x0A] @ replicate 18 CHR '' ''
     @ ''WHERE schemaname = $1 AND tablename LIKE $2''"

definition stale_pattern :: "core_env \<Rightarrow> string \<Rightarrow> string" where
  "stale_pattern env pipeline = replace_char CHR ''_'' [CHR 0x5C, CHR ''_''] (stage_prefix env pipeline) @ ''%''"

text \<open>
  \<open>established\<close> is what \<open>session::establish\<close> returns: a connection, or the detail of its failure
  and whether it is transient.
\<close>

definition pg_connect ::
    "core_env \<Rightarrow> 'd pg_conn \<Rightarrow> (bool \<times> string, unit) result \<Rightarrow> string \<Rightarrow> destination_options \<Rightarrow> string \<Rightarrow> string
      \<Rightarrow> ('d, dest_error, pg_load) action" where
  "pg_connect env cn established schema o' pipeline load =
     abind (alift (map_err (\<lambda>(transient, detail).
       if transient then dest_transient DConnect detail else dest_fatal DConnect detail) established)) (\<lambda>_.
     abind (amap_err (driver_transient DConnect) (cn_batch cn (connect_ddl (quote_identifier schema)))) (\<lambda>_.
     abind (amap_err (driver_transient DConnect)
       (cn_names cn stale_sql [VText schema, VText (stale_pattern env pipeline)])) (\<lambda>stale.
     abind (aeach (\<lambda>t. amap_err (driver_transient DConnect)
       (cn_batch cn (''TRUNCATE TABLE '' @ quote_identifier t))) stale) (\<lambda>_.
     aret \<lparr>pl_pipeline = pipeline, pl_load = load, pl_tables = [], pl_options = o', pl_unit = None,
           pl_cleared = {}, pl_single_unit_done = {}\<rparr>))))"

end
