(* ===== verification/Pg_Unit.thy ===== *)
theory Pg_Unit
  imports Pg_Session
begin

text \<open>
  What a PostgreSQL load session commits. The server is seen through the history of committed
  transactions, each the list of its statements and marked when it is the session's own; other
  sessions may commit at every statement. \<open>conn_ok\<close> states PostgreSQL's documented behaviour for
  one connection; the judgement \<open>triple\<close> carries what a run of an action adds to the history.
\<close>

section \<open>The server\<close>

datatype stmt = SBatch string | SExecute string "sql_value list" | SCopy string "string list"

datatype pg_tx = TxIdle | TxActive "stmt list" | TxAborted | TxLost

type_synonym history = "(bool \<times> stmt list) list"

record 'd pg_view =
  vw_tx :: "'d \<Rightarrow> pg_tx"
  vw_history :: "'d \<Rightarrow> history"

fun receipt_of :: "stmt \<Rightarrow> (string \<times> int) list" where
  "receipt_of (SExecute sql [VText load, VInt n]) = (if sql = pg_insert_receipt_sql then [(load, n)] else [])"
| "receipt_of _ = []"

definition receipts :: "stmt list \<Rightarrow> (string \<times> int) list" where
  "receipts ss = concat (map receipt_of ss)"

fun is_copy :: "stmt \<Rightarrow> bool" where
  "is_copy (SCopy _ _) = True"
| "is_copy _ = False"

definition copies :: "stmt list \<Rightarrow> stmt list" where
  "copies ss = filter is_copy ss"

definition ledger :: "history \<Rightarrow> (string \<times> int) set" where
  "ledger h = set (receipts (concat (map snd h)))"

definition plain :: "stmt \<Rightarrow> bool" where
  "plain s \<longleftrightarrow> receipt_of s = [] \<and> \<not> is_copy s"

lemma receipts_simps [simp]: "receipts [] = []" "receipts (s # ss) = receipt_of s @ receipts ss"
  "receipts (ss @ ss') = receipts ss @ receipts ss'"
  by (simp_all add: receipts_def)

lemma copies_simps [simp]: "copies [] = []" "copies (s # ss) = (if is_copy s then [s] else []) @ copies ss"
  "copies (ss @ ss') = copies ss @ copies ss'"
  by (simp_all add: copies_def)

lemma ledger_simps [simp]: "ledger [] = {}" "ledger (h @ h') = ledger h \<union> ledger h'"
  "ledger ((own, ss) # h) = set (receipts ss) \<union> ledger h"
  by (simp_all add: ledger_def)

definition tx_control :: "string set" where
  "tx_control = {UNIT_BEGIN, UNIT_COMMIT, UNIT_ROLLBACK}"

text \<open>
  A call by the session appends its own transactions \<open>own\<close>, and other sessions' around them; a
  receipt the session has inserted and not committed keeps others from inserting it.
\<close>

definition pending :: "pg_tx \<Rightarrow> (string \<times> int) set" where
  "pending t = (case t of TxActive ss \<Rightarrow> set (receipts ss) | _ \<Rightarrow> {})"

definition moves :: "'d pg_view \<Rightarrow> stmt list list \<Rightarrow> 'd \<Rightarrow> 'd \<Rightarrow> bool" where
  "moves w own d d' \<longleftrightarrow>
     (\<exists>e1 e2. vw_history w d' = vw_history w d @ map (Pair False) e1 @ map (Pair True) own @ map (Pair False) e2
        \<and> set (receipts (concat (e1 @ e2))) \<inter> pending (vw_tx w d) = {})"

text \<open>The transaction after a statement that returned (\<open>ok\<close>) or failed, and what it committed.\<close>

fun ran :: "stmt \<Rightarrow> bool \<Rightarrow> pg_tx \<Rightarrow> pg_tx \<Rightarrow> stmt list list \<Rightarrow> bool" where
  "ran s ok TxIdle t own \<longleftrightarrow>
     (if ok then t = TxIdle \<and> own = [[s]] else t \<in> {TxIdle, TxLost} \<and> own \<in> {[], [[s]]})"
| "ran s ok (TxActive ss) t own \<longleftrightarrow>
     own = [] \<and> (if ok then t = TxActive (ss @ [s]) else t \<in> {TxActive ss, TxActive (ss @ [s]), TxAborted, TxLost})"
| "ran s ok TxAborted t own \<longleftrightarrow> own = [] \<and> \<not> ok \<and> t \<in> {TxAborted, TxLost}"
| "ran s ok TxLost t own \<longleftrightarrow> own = [] \<and> \<not> ok \<and> t = TxLost"

fun asked :: "bool \<Rightarrow> pg_tx \<Rightarrow> pg_tx \<Rightarrow> bool" where
  "asked ok TxIdle t \<longleftrightarrow> t = TxIdle \<or> \<not> ok \<and> t = TxLost"
| "asked ok (TxActive ss) t \<longleftrightarrow> t = TxActive ss \<or> \<not> ok \<and> t \<in> {TxAborted, TxLost}"
| "asked ok TxAborted t \<longleftrightarrow> \<not> ok \<and> t \<in> {TxAborted, TxLost}"
| "asked ok TxLost t \<longleftrightarrow> \<not> ok \<and> t = TxLost"

fun began :: "bool \<Rightarrow> pg_tx \<Rightarrow> pg_tx \<Rightarrow> bool" where
  "began ok TxIdle t \<longleftrightarrow> (if ok then t = TxActive [] else t \<in> {TxIdle, TxLost})"
| "began ok t t' \<longleftrightarrow> asked ok t t'"

fun ended :: "bool \<Rightarrow> pg_tx \<Rightarrow> pg_tx \<Rightarrow> stmt list list \<Rightarrow> bool" where
  "ended ok (TxActive ss) t own \<longleftrightarrow>
     (if ok then t = TxIdle \<and> own = [ss] else t \<in> {TxIdle, TxAborted, TxLost} \<and> own \<in> {[], [ss]})"
| "ended ok TxLost t own \<longleftrightarrow> own = [] \<and> \<not> ok \<and> t = TxLost"
| "ended ok _ t own \<longleftrightarrow> own = [] \<and> (if ok then t = TxIdle else t \<in> {TxIdle, TxAborted, TxLost})"

definition runs :: "'d pg_view \<Rightarrow> ('d, pg_error, 'a) action \<Rightarrow> stmt \<Rightarrow> bool" where
  "runs w m s \<longleftrightarrow> (\<forall>d. case m d of (r, d') \<Rightarrow>
     \<exists>own. moves w own d d' \<and> ran s (\<not> isl r) (vw_tx w d) (vw_tx w d') own)"

definition asks :: "'d pg_view \<Rightarrow> ('d, pg_error, 'a) action \<Rightarrow> bool" where
  "asks w m \<longleftrightarrow> (\<forall>d. case m d of (r, d') \<Rightarrow> moves w [] d d' \<and> asked (\<not> isl r) (vw_tx w d) (vw_tx w d'))"

text \<open>A COPY whose sink is dropped leaves nothing behind.\<close>

definition drops :: "'d pg_view \<Rightarrow> ('d, pg_error, 'a) action \<Rightarrow> bool" where
  "drops w m \<longleftrightarrow> (\<forall>d. case m d of (r, d') \<Rightarrow> moves w [] d d' \<and> asked False (vw_tx w d) (vw_tx w d'))"

definition control_ok :: "'d pg_conn \<Rightarrow> 'd pg_view \<Rightarrow> bool" where
  "control_ok cn w \<longleftrightarrow> (\<forall>d.
     (case cn_batch cn UNIT_BEGIN d of (r, d') \<Rightarrow> moves w [] d d' \<and> began (\<not> isl r) (vw_tx w d) (vw_tx w d')) \<and>
     (case cn_batch cn UNIT_COMMIT d of (r, d') \<Rightarrow>
        \<exists>own. moves w own d d' \<and> ended (\<not> isl r) (vw_tx w d) (vw_tx w d') own) \<and>
     (case cn_batch cn UNIT_ROLLBACK d of (r, d') \<Rightarrow>
        moves w [] d d' \<and> vw_tx w d' \<in> {TxIdle, TxLost} \<and> (vw_tx w d = TxLost \<longrightarrow> vw_tx w d' = TxLost)))"

definition statements_ok :: "'d pg_conn \<Rightarrow> 'd pg_view \<Rightarrow> bool" where
  "statements_ok cn w \<longleftrightarrow>
     (\<forall>sql. sql \<notin> tx_control \<longrightarrow> runs w (cn_batch cn sql) (SBatch sql)) \<and>
     (\<forall>sql ps. runs w (cn_execute cn sql ps) (SExecute sql ps)) \<and>
     (\<forall>sql chunks. runs w (cn_copy_in cn sql chunks True) (SCopy sql chunks)) \<and>
     (\<forall>sql chunks. drops w (cn_copy_in cn sql chunks False)) \<and>
     (\<forall>sql ps. asks w (cn_count cn sql ps)) \<and> (\<forall>sql ps. asks w (cn_exists cn sql ps)) \<and>
     (\<forall>sql ps. asks w (cn_text cn sql ps))"

text \<open>The ledger: its primary key, and what its probe sees.\<close>

definition receipts_ok :: "'d pg_conn \<Rightarrow> 'd pg_view \<Rightarrow> bool" where
  "receipts_ok cn w \<longleftrightarrow> (\<forall>load n d d'.
     (\<forall>u. cn_execute cn pg_insert_receipt_sql [VText load, VInt n] d = (Inr u, d') \<longrightarrow> vw_tx w d \<noteq> TxIdle \<longrightarrow>
        (load, n) \<notin> ledger (vw_history w d')) \<and>
     (\<forall>count. cn_count cn (receipt_exists_sql dollar) [VText load, VInt n] d = (Inr count, d') \<longrightarrow> count > 0 \<longrightarrow>
        (load, n) \<in> ledger (vw_history w d') \<union> pending (vw_tx w d')))"

definition conn_ok :: "'d pg_conn \<Rightarrow> 'd pg_view \<Rightarrow> bool" where
  "conn_ok cn w \<longleftrightarrow> control_ok cn w \<and> statements_ok cn w \<and> receipts_ok cn w"

section \<open>What a session adds to the history\<close>

text \<open>
  \<open>owned A h tx\<close>: a transaction committed on top of \<open>h\<close> carries no rows and no receipt, or the rows
  and the receipt of an attempt in \<open>A\<close> whose receipt is not in \<open>h\<close>.
\<close>

type_synonym attempts = "((string \<times> int) \<times> stmt list) set"

definition owned :: "attempts \<Rightarrow> history \<Rightarrow> stmt list \<Rightarrow> bool" where
  "owned A h tx \<longleftrightarrow>
     receipts tx = [] \<and> copies tx = [] \<or> (\<exists>k. receipts tx = [k] \<and> (k, copies tx) \<in> A \<and> k \<notin> ledger h)"

fun accounted :: "attempts \<Rightarrow> history \<Rightarrow> history \<Rightarrow> bool" where
  "accounted A h [] \<longleftrightarrow> True"
| "accounted A h ((own, tx) # txs) \<longleftrightarrow> (own \<longrightarrow> owned A h tx) \<and> accounted A (h @ [(own, tx)]) txs"

lemma accounted_append: "accounted A h (xs @ ys) \<longleftrightarrow> accounted A h xs \<and> accounted A (h @ xs) ys"
  by (induction A h xs rule: accounted.induct) auto

lemma accounted_others [simp]: "accounted A h (map (Pair False) es)"
  by (induction es arbitrary: h) auto

lemma owned_mono: "owned A h tx \<Longrightarrow> A \<subseteq> B \<Longrightarrow> owned B h tx"
  by (auto simp: owned_def)

lemma accounted_mono: "accounted A h txs \<Longrightarrow> A \<subseteq> B \<Longrightarrow> accounted B h txs"
  by (induction A h txs rule: accounted.induct) (auto intro: owned_mono)

definition grows :: "'d pg_view \<Rightarrow> attempts \<Rightarrow> 'd \<Rightarrow> 'd \<Rightarrow> bool" where
  "grows w A d d' \<longleftrightarrow> (\<exists>txs. vw_history w d' = vw_history w d @ txs \<and> accounted A (vw_history w d) txs)"

lemma grows_refl [simp]: "grows w A d d"
  by (simp add: grows_def)

lemma grows_trans: "grows w A d d1 \<Longrightarrow> grows w A d1 d' \<Longrightarrow> grows w A d d'"
proof -
  assume "grows w A d d1" "grows w A d1 d'"
  then obtain xs ys where "vw_history w d1 = vw_history w d @ xs" "accounted A (vw_history w d) xs"
    "vw_history w d' = (vw_history w d @ xs) @ ys" "accounted A (vw_history w d @ xs) ys"
    by (auto simp: grows_def)
  then show ?thesis by (auto simp: grows_def accounted_append intro!: exI [of _ "xs @ ys"])
qed

lemma grows_mono: "grows w A d d' \<Longrightarrow> A \<subseteq> B \<Longrightarrow> grows w B d d'"
  by (auto simp: grows_def intro: accounted_mono)

lemma grows_ledger: "grows w A d d' \<Longrightarrow> ledger (vw_history w d) \<subseteq> ledger (vw_history w d')"
  by (auto simp: grows_def)

lemma moves_grows:
  assumes "moves w own d d'" and "own = [] \<or> (\<exists>tx. own = [tx] \<and>
      (receipts tx = [] \<and> copies tx = []
       \<or> (\<exists>k. receipts tx = [k] \<and> (k, copies tx) \<in> A \<and> k \<notin> ledger (vw_history w d) \<and> k \<in> pending (vw_tx w d))))"
  shows "grows w A d d'"
proof -
  obtain e1 e2 where h: "vw_history w d' = vw_history w d @ map (Pair False) e1 @ map (Pair True) own @ map (Pair False) e2"
    and fresh: "set (receipts (concat e1)) \<inter> pending (vw_tx w d) = {}"
    using assms(1) by (auto simp: moves_def)
  have "ledger (map (Pair False) e1) = set (receipts (concat e1))"
    by (simp add: ledger_def comp_def)
  then have "accounted A (vw_history w d) (map (Pair False) e1 @ map (Pair True) own @ map (Pair False) e2)"
    using assms(2) fresh by (auto simp: accounted_append owned_def)
  with h show ?thesis by (auto simp: grows_def)
qed

lemma moves_none: "moves w [] d d' \<Longrightarrow> grows w A d d'"
  by (erule moves_grows) simp

section \<open>Triples\<close>

definition triple ::
    "'d pg_view \<Rightarrow> attempts \<Rightarrow> (pg_load \<times> 'd \<Rightarrow> bool) \<Rightarrow> ('d, 'a) pg_action \<Rightarrow> ('a \<Rightarrow> pg_load \<times> 'd \<Rightarrow> bool)
      \<Rightarrow> (pg_load \<times> 'd \<Rightarrow> bool) \<Rightarrow> bool" where
  "triple w A P m Q E \<longleftrightarrow> (\<forall>s. P s \<longrightarrow>
     (case m s of (r, s') \<Rightarrow> grows w A (snd s) (snd s') \<and> (case r of Inl _ \<Rightarrow> E s' | Inr a \<Rightarrow> Q a s')))"

lemma tripleI:
  "(\<And>s r s'. P s \<Longrightarrow> m s = (r, s') \<Longrightarrow> grows w A (snd s) (snd s') \<and> (case r of Inl _ \<Rightarrow> E s' | Inr a \<Rightarrow> Q a s'))
    \<Longrightarrow> triple w A P m Q E"
  by (auto simp: triple_def split: prod.splits)

lemma tripleD:
  "triple w A P m Q E \<Longrightarrow> P s \<Longrightarrow> m s = (r, s') \<Longrightarrow> grows w A (snd s) (snd s') \<and> (case r of Inl _ \<Rightarrow> E s' | Inr a \<Rightarrow> Q a s')"
  unfolding triple_def by (metis (no_types, lifting) case_prod_conv)

named_theorems triple_intros \<open>rules of the judgement, for actions built from smaller ones\<close>

lemma triple_abind [triple_intros]:
  assumes "triple w A P m Q E" and "\<And>a. triple w A (Q a) (k a) R E"
  shows "triple w A P (abind m k) R E"
proof (rule tripleI)
  fix s r s' assume s: "P s" "abind m k s = (r, s')"
  obtain r1 s1 where m: "m s = (r1, s1)" by (cases "m s")
  note 1 = tripleD [OF assms(1) s(1) m]
  show "grows w A (snd s) (snd s') \<and> (case r of Inl _ \<Rightarrow> E s' | Inr a \<Rightarrow> R a s')"
  proof (cases r1)
    case (Inl e)
    with s(2) m 1 show ?thesis by (auto simp: abind_def)
  next
    case (Inr a)
    with s(2) m have k: "k a s1 = (r, s')" by (simp add: abind_def)
    from Inr 1 have "Q a s1" by simp
    from tripleD [OF assms(2) this k] 1 show ?thesis by (auto intro: grows_trans)
  qed
qed

lemma triple_on_self [triple_intros]:
  "(\<And>l. triple w A (\<lambda>s. P s \<and> fst s = l) (k l) Q E) \<Longrightarrow> triple w A P (on_self k) Q E"
  by (auto simp: triple_def on_self_def)

lemma triple_absurd: "(\<And>s. \<not> P s) \<Longrightarrow> triple w A P m Q E"
  by (simp add: triple_def)

lemma triple_aret: "(\<And>s. P s \<Longrightarrow> Q a s) \<Longrightarrow> triple w A P (aret a) Q E"
  by (auto simp: triple_def)

lemma triple_afail: "(\<And>s. P s \<Longrightarrow> E s) \<Longrightarrow> triple w A P (afail e) Q E"
  by (auto simp: triple_def)

lemma triple_alift: "(\<And>a s. P s \<Longrightarrow> r = Inr a \<Longrightarrow> Q a s) \<Longrightarrow> (\<And>s. P s \<Longrightarrow> E s) \<Longrightarrow> triple w A P (alift r) Q E"
  by (auto simp: triple_def split: sum.splits)

lemma triple_update: "(\<And>s. P s \<Longrightarrow> Q () (f (fst s), snd s)) \<Longrightarrow> triple w A P (update_self f) Q E"
  by (auto simp: triple_def update_self_def)

lemma triple_weaken:
  "triple w A P m Q E \<Longrightarrow> (\<And>s. P' s \<Longrightarrow> P s) \<Longrightarrow> (\<And>a s. Q a s \<Longrightarrow> Q' a s) \<Longrightarrow> (\<And>s. E s \<Longrightarrow> E' s)
    \<Longrightarrow> triple w A P' m Q' E'"
  by (fastforce simp: triple_def split: prod.splits sum.splits)

lemma triple_mono: "triple w A P m Q E \<Longrightarrow> A \<subseteq> B \<Longrightarrow> triple w B P m Q E"
  by (fastforce simp: triple_def intro: grows_mono split: prod.splits)

lemma triple_aeach: "(\<And>x. x \<in> set xs \<Longrightarrow> triple w A P (f x) (\<lambda>_. P) E) \<Longrightarrow> triple w A P (aeach f xs) (\<lambda>_. P) E"
proof (induction xs)
  case (Cons x xs)
  then show ?case unfolding aeach.simps by (intro triple_abind [where Q = "\<lambda>_. P"]) auto
qed (simp add: triple_aret)

section \<open>The session's invariant\<close>

text \<open>
  \<open>inv w pend s\<close>: between calls, where \<open>pend\<close> are the batches written since the unit began. A
  transaction that outlived its unit carries nothing.
\<close>

definition inv :: "'d pg_view \<Rightarrow> stmt list \<Rightarrow> pg_load \<times> 'd \<Rightarrow> bool" where
  "inv w pend s \<longleftrightarrow>
     (case vw_tx w (snd s) of
        TxIdle \<Rightarrow> pl_unit (fst s) = None \<and> pend = []
      | TxActive ss \<Rightarrow> receipts ss = [] \<and> copies ss = pend \<and> (pl_unit (fst s) = None \<longrightarrow> pend = [])
      | _ \<Rightarrow> True)"

definition abandoned :: "'d pg_view \<Rightarrow> pg_load \<times> 'd \<Rightarrow> bool" where
  "abandoned w s \<longleftrightarrow> (pl_unit (fst s) = None \<longrightarrow> inv w [] s)"

lemma inv_abandoned: "inv w pend s \<Longrightarrow> abandoned w s"
  by (auto simp: inv_def abandoned_def split: pg_tx.splits)

lemma triple_on_conn:
  assumes "\<And>l d r d'. P (l, d) \<Longrightarrow> m d = (r, d') \<Longrightarrow>
    grows w A d d' \<and> (case r of Inl _ \<Rightarrow> E (l, d') | Inr a \<Rightarrow> Q a (l, d'))"
  shows "triple w A P (on_conn f m) Q E"
proof (rule tripleI)
  fix s r s' assume s: "P s" "on_conn f m s = (r, s')"
  obtain l d where l: "s = (l, d)" by (cases s)
  obtain r1 d' where m: "m d = (r1, d')" by (cases "m d")
  from s(2) l m have "r = map_err f r1" "s' = (l, d')" by (simp_all add: on_conn_def)
  with assms [OF s(1) [unfolded l] m] l show "grows w A (snd s) (snd s') \<and> (case r of Inl _ \<Rightarrow> E s' | Inr a \<Rightarrow> Q a s')"
    by (cases r1) auto
qed

text \<open>A statement that carries no rows and no receipt, in or outside a transaction.\<close>

lemma runs_step:
  assumes "runs w m s" and "plain s" and "inv w pend (l, d)" and "m d = (r, d')"
  shows "grows w A d d' \<and> (case r of Inl _ \<Rightarrow> abandoned w (l, d') | Inr _ \<Rightarrow> inv w pend (l, d'))"
proof -
  obtain own where "moves w own d d'" and t: "ran s (\<not> isl r) (vw_tx w d) (vw_tx w d') own"
    using assms(1) [unfolded runs_def, THEN spec [of _ d]] unfolding assms(4) prod.case by blast
  then have "own = [] \<or> own = [[s]]" by (cases "vw_tx w d") (auto split: if_splits)
  with assms(2) have "grows w A d d'" by (intro moves_grows [OF \<open>moves w own d d'\<close>]) (auto simp: plain_def)
  with t assms(2,3) show ?thesis
    by (cases r; cases "vw_tx w d") (auto simp: inv_def abandoned_def plain_def)
qed

lemma asks_step:
  assumes "asks w m" and "inv w pend (l, d)" and "m d = (r, d')"
  shows "grows w A d d' \<and> (case r of Inl _ \<Rightarrow> abandoned w (l, d') | Inr _ \<Rightarrow> inv w pend (l, d'))"
proof -
  have "moves w [] d d'" and t: "asked (\<not> isl r) (vw_tx w d) (vw_tx w d')"
    using assms(1) [unfolded asks_def, THEN spec [of _ d]] unfolding assms(3) prod.case by blast+
  with assms(2) show ?thesis
    by (cases r; cases "vw_tx w d") (auto simp: inv_def abandoned_def intro: moves_none)
qed

lemma runs_triple:
  assumes "runs w m s" and "plain s"
  shows "triple w A (\<lambda>s. R (fst s) \<and> inv w pend s) (on_conn f m) (\<lambda>_ s. R (fst s) \<and> inv w pend s) (abandoned w)"
proof (rule triple_on_conn)
  fix l d r d' assume "R (fst (l, d)) \<and> inv w pend (l, d)" "m d = (r, d')"
  with runs_step [OF assms, of pend l d r d' A]
  show "grows w A d d' \<and> (case r of Inl _ \<Rightarrow> abandoned w (l, d') | Inr _ \<Rightarrow> R (fst (l, d')) \<and> inv w pend (l, d'))"
    by (cases r) auto
qed

lemma asks_triple:
  assumes "asks w m"
  shows "triple w A (\<lambda>s. R (fst s) \<and> inv w pend s) (on_conn f m) (\<lambda>_ s. R (fst s) \<and> inv w pend s) (abandoned w)"
proof (rule triple_on_conn)
  fix l d r d' assume "R (fst (l, d)) \<and> inv w pend (l, d)" "m d = (r, d')"
  with asks_step [OF assms, of pend l d r d' A]
  show "grows w A d d' \<and> (case r of Inl _ \<Rightarrow> abandoned w (l, d') | Inr _ \<Rightarrow> R (fst (l, d')) \<and> inv w pend (l, d'))"
    by (cases r) auto
qed

section \<open>The unit\<close>

lemma connD:
  assumes "conn_ok cn w"
  shows "sql \<notin> tx_control \<Longrightarrow> runs w (cn_batch cn sql) (SBatch sql)" "runs w (cn_execute cn sql ps) (SExecute sql ps)"
    "runs w (cn_copy_in cn sql chunks True) (SCopy sql chunks)" "drops w (cn_copy_in cn sql chunks False)"
    "asks w (cn_count cn sql ps)" "asks w (cn_exists cn sql ps)" "asks w (cn_text cn sql ps)"
    "cn_batch cn UNIT_BEGIN d = (r, d') \<Longrightarrow> moves w [] d d' \<and> began (\<not> isl r) (vw_tx w d) (vw_tx w d')"
    "cn_batch cn UNIT_COMMIT d = (r, d') \<Longrightarrow> \<exists>own. moves w own d d' \<and> ended (\<not> isl r) (vw_tx w d) (vw_tx w d') own"
    "cn_batch cn UNIT_ROLLBACK d = (r, d') \<Longrightarrow>
      moves w [] d d' \<and> vw_tx w d' \<in> {TxIdle, TxLost} \<and> (vw_tx w d = TxLost \<longrightarrow> vw_tx w d' = TxLost)"
proof -
  have s: "statements_ok cn w" and c: "control_ok cn w" using assms by (auto simp: conn_ok_def)
  show "sql \<notin> tx_control \<Longrightarrow> runs w (cn_batch cn sql) (SBatch sql)" "runs w (cn_execute cn sql ps) (SExecute sql ps)"
    "runs w (cn_copy_in cn sql chunks True) (SCopy sql chunks)" "drops w (cn_copy_in cn sql chunks False)"
    "asks w (cn_count cn sql ps)" "asks w (cn_exists cn sql ps)" "asks w (cn_text cn sql ps)"
    using s unfolding statements_ok_def by blast+
  note c = c [unfolded control_ok_def, THEN spec [of _ d]]
  show "cn_batch cn UNIT_BEGIN d = (r, d') \<Longrightarrow> moves w [] d d' \<and> began (\<not> isl r) (vw_tx w d) (vw_tx w d')"
    "cn_batch cn UNIT_COMMIT d = (r, d') \<Longrightarrow> \<exists>own. moves w own d d' \<and> ended (\<not> isl r) (vw_tx w d) (vw_tx w d') own"
    "cn_batch cn UNIT_ROLLBACK d = (r, d') \<Longrightarrow>
      moves w [] d d' \<and> vw_tx w d' \<in> {TxIdle, TxLost} \<and> (vw_tx w d = TxLost \<longrightarrow> vw_tx w d' = TxLost)"
    using c by auto
qed

lemma begin_step:
  assumes "conn_ok cn w" and "inv w pend (l, d)" and "cn_batch cn UNIT_BEGIN d = (r, d')"
  shows "grows w A d d' \<and> (case r of Inl _ \<Rightarrow> abandoned w (l, d') | Inr _ \<Rightarrow>
    (\<exists>ss. vw_tx w d' = TxActive ss \<and> receipts ss = [] \<and> copies ss = pend \<and> (pl_unit l = None \<longrightarrow> pend = [])))"
  using connD(8) [OF assms(1,3)] assms(2)
  by (cases r; cases "vw_tx w d") (auto simp: inv_def abandoned_def intro: moves_none)

text \<open>A unit is open, and its transaction active unless the server says otherwise.\<close>

definition begun :: "'d pg_view \<Rightarrow> stmt list \<Rightarrow> pg_load \<times> 'd \<Rightarrow> bool" where
  "begun w pend s \<longleftrightarrow> pl_unit (fst s) \<noteq> None \<and> inv w pend s"

lemma begin_triple:
  assumes "conn_ok cn w" and R: "\<And>l u. R (l\<lparr>pl_unit := u\<rparr>) \<longleftrightarrow> R l"
  shows "triple w A (\<lambda>s. R (fst s) \<and> inv w pend s) (begin_if_closed cn load)
    (\<lambda>_ s. R (fst s) \<and> begun w pend s) (abandoned w)"
  unfolding begin_if_closed_def
proof (rule triple_on_self)
  fix l
  let ?R = "\<lambda>l' :: pg_load. l' = l \<and> R l"
  show "triple w A (\<lambda>s. (R (fst s) \<and> inv w pend s) \<and> fst s = l)
     (if pl_unit l \<noteq> None then aret ()
      else abind (on_conn (driver_transient DCommit) (cn_batch cn UNIT_BEGIN)) (\<lambda>_.
        abind (on_conn (driver_transient DCommit) (cn_batch cn UNIT_WORK_MEM)) (\<lambda>_.
        abind (on_conn (driver_transient DCommit) (cn_count cn load_count_sql [VText load])) (\<lambda>n.
        update_self (\<lambda>l. l\<lparr>pl_unit := Some \<lparr>op_load_committed_before = n > 0, op_cleared = {}\<rparr>\<rparr>)))))
     (\<lambda>_ s. R (fst s) \<and> begun w pend s) (abandoned w)"
  proof (cases "pl_unit l = None")
    case False
    then show ?thesis by (auto simp: begun_def intro: triple_aret)
  next
    case True
    let ?act = "\<lambda>s. ?R (fst s) \<and> (\<exists>ss. vw_tx w (snd s) = TxActive ss \<and> receipts ss = [] \<and> copies ss = pend \<and> pend = [])"
    have mem: "runs w (cn_batch cn UNIT_WORK_MEM) (SBatch UNIT_WORK_MEM)"
      by (rule connD(1) [OF assms(1)]) (simp add: tx_control_def UNIT_WORK_MEM_def UNIT_BEGIN_def UNIT_COMMIT_def UNIT_ROLLBACK_def)
    have 1: "triple w A (\<lambda>s. ?R (fst s) \<and> inv w pend s) (on_conn f (cn_batch cn UNIT_BEGIN)) (\<lambda>_. ?act) (abandoned w)" for f
    proof (rule triple_on_conn)
      fix l' d r d' assume "?R (fst (l', d)) \<and> inv w pend (l', d)" "cn_batch cn UNIT_BEGIN d = (r, d')"
      with begin_step [OF assms(1), of pend l' d r d' A] True
      show "grows w A d d' \<and> (case r of Inl _ \<Rightarrow> abandoned w (l', d') | Inr _ \<Rightarrow> ?act (l', d'))"
        by (cases r) auto
    qed
    have 2: "triple w A ?act (on_conn f (cn_batch cn UNIT_WORK_MEM)) (\<lambda>_. ?act) (abandoned w)" for f
    proof (rule triple_on_conn)
      fix l' d r d' assume s: "?act (l', d)" "cn_batch cn UNIT_WORK_MEM d = (r, d')"
      obtain own where o: "moves w own d d'" "ran (SBatch UNIT_WORK_MEM) (\<not> isl r) (vw_tx w d) (vw_tx w d') own"
        using mem [unfolded runs_def, THEN spec [of _ d]] unfolding s(2) prod.case by blast
      with s(1) True show "grows w A d d' \<and> (case r of Inl _ \<Rightarrow> abandoned w (l', d') | Inr _ \<Rightarrow> ?act (l', d'))"
        by (cases r) (auto simp: abandoned_def inv_def intro: moves_none)
    qed
    have 3: "triple w A ?act (on_conn f (cn_count cn load_count_sql [VText load])) (\<lambda>_. ?act) (abandoned w)" for f
    proof (rule triple_on_conn)
      fix l' d r d' assume s: "?act (l', d)" "cn_count cn load_count_sql [VText load] d = (r, d')"
      have "moves w [] d d'" "asked (\<not> isl r) (vw_tx w d) (vw_tx w d')"
        using connD(5) [OF assms(1), of load_count_sql "[VText load]", unfolded asks_def, THEN spec [of _ d]]
        unfolding s(2) prod.case by blast+
      with s(1) True show "grows w A d d' \<and> (case r of Inl _ \<Rightarrow> abandoned w (l', d') | Inr _ \<Rightarrow> ?act (l', d'))"
        by (cases r) (auto simp: abandoned_def inv_def intro: moves_none)
    qed
    have 4: "triple w A ?act (update_self (\<lambda>l. l\<lparr>pl_unit := Some u\<rparr>))
        (\<lambda>_ s. R (fst s) \<and> begun w pend s) (abandoned w)" for u
      by (rule triple_update) (auto simp: begun_def inv_def R)
    show ?thesis using True
      by (simp only: simp_thms if_False not_True_eq_False not_False_eq_True if_True)
        (rule triple_weaken [OF triple_abind [OF 1 triple_abind [OF 2 triple_abind [OF 3 4]]]], auto)
  qed
qed

section \<open>Statements are not transaction control\<close>

lemmas control_texts = tx_control_def UNIT_BEGIN_def UNIT_COMMIT_def UNIT_ROLLBACK_def

lemma ddl_not_control:
  "pg_table_statement env pipeline schema st = Inr sql \<Longrightarrow> sql \<notin> tx_control"
  "pg_merge_statement env t scd2 st = Inr (sql, uix) \<Longrightarrow> sql \<notin> tx_control"
  by (cases st; auto simp: control_texts pg_create_table_def Let_def create_index_sql_def rbind_eq_Inr split: prod.splits)+

lemma traverse_in: "traverse f xs = Inr ys \<Longrightarrow> y \<in> set ys \<Longrightarrow> \<exists>x \<in> set xs. f x = Inr y"
  by (induction xs arbitrary: ys) (auto simp: rbind_eq_Inr)

lemma ddl_statements_not_control:
  "table_ddl_statements env pipeline schema mode previous = Inr sqls \<Longrightarrow> sql \<in> set sqls \<Longrightarrow> sql \<notin> tx_control"
  by (auto simp: table_ddl_statements_def dest!: traverse_in dest: ddl_not_control)

lemma merge_statements_not_control:
  "merge_ensure_statements env o' schema mode = Inr sts \<Longrightarrow> (sql, uix) \<in> set sts \<Longrightarrow> sql \<notin> tx_control"
  by (auto simp: merge_ensure_statements_def dest!: traverse_in dest: ddl_not_control split: sum.splits)

lemma merge_plan_dialect: "mp_dialect (build_merge_plan env D o' t schema key target stage cols rt root_stage root_schema) = D"
  by (simp add: build_merge_plan_def)

lemma step_sql_not_control:
  assumes "pg_step_sql env l st = Inr sqls" and "sql \<in> set sqls"
  shows "sql \<notin> tx_control"
proof (cases st)
  case (MergeArm t arm)
  have "\<exists>p. mp_dialect p = postgres_dialect \<and> sqls = render_arm env p arm" if "pg_merge_sql env l t arm = Inr sqls"
    using that by (auto simp: pg_merge_sql_def Let_def split: option.splits write_mode.splits)
      (rule exI, rule conjI, rule merge_plan_dialect, rule refl)
  with MergeArm assms obtain p where "mp_dialect p = postgres_dialect" "sql \<in> set (render_arm env p arm)" by auto
  then show ?thesis
    by (cases arm) (auto simp: render_arm_def keyed_delete_insert_sql_def keyed_upsert_sql_def identity_delete_insert_sql_def
      scd2_merge_sql_def dedup_once_def control_texts Let_def postgres_dialect_def default_dialect_def default_upsert_stmt_def
      split: prod.splits option.splits if_splits)
next
  case (ScopeReplace t scope)
  with assms show ?thesis by (auto simp: scope_replace_sql_def control_texts Let_def split: prod.splits)
next
  case (TruncateStage t)
  with assms show ?thesis by (auto simp: postgres_dialect_def default_dialect_def control_texts)
qed (use assms in auto)

section \<open>The calls\<close>

text \<open>What the calls of a session leave alone.\<close>

definition same :: "pg_load \<Rightarrow> pg_load \<Rightarrow> bool" where
  "same l0 l \<longleftrightarrow> pl_tables l = pl_tables l0 \<and> pl_pipeline l = pl_pipeline l0 \<and> pl_options l = pl_options l0 \<and> pl_load l = pl_load l0"

lemma same_simps [simp]: "same l l" "same l0 (l\<lparr>pl_unit := u\<rparr>) \<longleftrightarrow> same l0 l" "same l0 (l\<lparr>pl_cleared := c\<rparr>) \<longleftrightarrow> same l0 l"
  by (simp_all add: same_def)

definition working :: "'d pg_view \<Rightarrow> pg_load \<Rightarrow> stmt list \<Rightarrow> pg_load \<times> 'd \<Rightarrow> bool" where
  "working w l0 pend s \<longleftrightarrow> (same l0 (fst s) \<and> pl_unit (fst s) \<noteq> None) \<and> inv w pend s"

lemma begin_working:
  "conn_ok cn w \<Longrightarrow> triple w A (\<lambda>s. same l0 (fst s) \<and> inv w pend s) (begin_if_closed cn load) (\<lambda>_. working w l0 pend) (abandoned w)"
  by (rule triple_weaken [OF begin_triple [where R = "same l0"]]) (auto simp: working_def begun_def)

lemma batch_working:
  assumes "conn_ok cn w" and "sql \<notin> tx_control"
  shows "triple w A (working w l0 pend) (on_conn f (cn_batch cn sql)) (\<lambda>_. working w l0 pend) (abandoned w)"
  unfolding working_def by (rule runs_triple [OF connD(1) [OF assms]]) (simp add: plain_def)

lemma asks_working:
  assumes "asks w m"
  shows "triple w A (working w l0 pend) (on_conn f m) (\<lambda>_. working w l0 pend) (abandoned w)"
  unfolding working_def by (rule asks_triple [OF assms])

lemma execute_working:
  assumes "conn_ok cn w" and "receipt_of (SExecute sql ps) = []"
  shows "triple w A (working w l0 pend) (on_conn f (cn_execute cn sql ps)) (\<lambda>_. working w l0 pend) (abandoned w)"
  unfolding working_def by (rule runs_triple [OF connD(2) [OF assms(1)]]) (use assms(2) in \<open>simp add: plain_def\<close>)

lemma working_abandoned: "working w l0 pend s \<Longrightarrow> abandoned w s"
  by (auto simp: working_def abandoned_def)

lemma working_update: "(\<And>l. same l0 (f l) \<longleftrightarrow> same l0 l) \<Longrightarrow> (\<And>l. (pl_unit (f l) = None) = (pl_unit l = None)) \<Longrightarrow>
   working w l0 pend s \<Longrightarrow> working w l0 pend (f (fst s), snd s)"
  by (auto simp: working_def inv_def split: pg_tx.splits)

text \<open>The plan of a commit, and what it was made from.\<close>

definition planned :: "core_env \<Rightarrow> pg_load \<Rightarrow> bool \<Rightarrow> commit_script \<Rightarrow> bool" where
  "planned env l0 rep script \<longleftrightarrow> (\<exists>ctx. replayed ctx = rep \<and> full_load ctx = DirectToTarget
     \<and> plan_commit env (pl_tables l0) (pl_options l0) ctx = Inr script)"

text \<open>
  The statements a unit of a session issues besides the transaction control and its receipt: the
  clears of its targets, the statements of the scripts it can plan, the record of a clear, the
  state document, and the probes.
\<close>

definition pg_names :: "pg_load \<Rightarrow> string set" where
  "pg_names l = fst ` set (pl_tables l)"

definition work_batches :: "core_env \<Rightarrow> pg_load \<Rightarrow> string set" where
  "work_batches env l =
     {clear_table postgres_dialect (quote_identifier t) | t. t \<in> pg_names l} \<union>
     {sql. \<exists>script st sqls. planned env l False script \<and> st \<in> set (steps script) \<and> pg_step_sql env l st = Inr sqls
        \<and> sql \<in> set sqls}"

definition work_executes :: "(string \<times> sql_value list) set" where
  "work_executes =
     {(record_clear_sql, [VText load, VText t]) | load t. True} \<union>
     {(pg_upsert_state_sql, [VText pipeline, VText doc]) | pipeline doc. True}"

definition work_probes :: "core_env \<Rightarrow> pg_load \<Rightarrow> (string \<times> sql_value list) set" where
  "work_probes env l =
     {(cleared_sql, [VText load, VText t]) | load t. True} \<union>
     {(stage_nonempty_sql (quote_identifier (stage_table env (pl_pipeline l) t)), []) | t. t \<in> pg_names l}"

lemma work_not_control: "sql \<in> work_batches env l \<Longrightarrow> sql \<notin> tx_control"
  by (auto simp: work_batches_def postgres_dialect_def default_dialect_def control_texts dest: step_sql_not_control [unfolded control_texts])

lemma work_no_receipt: "(sql, ps) \<in> work_executes \<Longrightarrow> sql \<noteq> pg_insert_receipt_sql"
  by (auto simp: work_executes_def record_clear_sql_def pg_upsert_state_sql_def pg_insert_receipt_sql_def CLEARED_TABLE_def
      STATE_TABLE_def COMMITS_TABLE_def)

lemma same_step_sql:
  assumes "same l0 l"
  shows "pg_step_sql env l st = pg_step_sql env l0 st"
proof -
  have eq: "pl_tables l = pl_tables l0" "pl_pipeline l = pl_pipeline l0" "pl_options l = pl_options l0"
    using assms by (simp_all add: same_def)
  have "pg_merge_sql env l t arm = pg_merge_sql env l0 t arm" for t arm
    unfolding pg_merge_sql_def eq ..
  then show ?thesis by (cases st) (simp_all add: eq)
qed

text \<open>
  \<open>supports\<close>: a condition \<open>W\<close> on an open unit that every statement of the session keeps, failing
  into \<open>E\<close>. The work of a unit is proved once for any such condition.
\<close>

definition supports :: "core_env \<Rightarrow> 'd pg_view \<Rightarrow> 'd pg_conn \<Rightarrow> attempts \<Rightarrow> pg_load \<Rightarrow> (pg_load \<times> 'd \<Rightarrow> bool) \<Rightarrow> (pg_load \<times> 'd \<Rightarrow> bool) \<Rightarrow> bool" where
  "supports env w cn A l0 W E \<longleftrightarrow>
     (\<forall>f sql. sql \<in> work_batches env l0 \<longrightarrow> triple w A W (on_conn f (cn_batch cn sql)) (\<lambda>_. W) E) \<and>
     (\<forall>f sql ps. (sql, ps) \<in> work_executes \<longrightarrow> triple w A W (on_conn f (cn_execute cn sql ps)) (\<lambda>_. W) E) \<and>
     (\<forall>f sql ps. (sql, ps) \<in> work_probes env l0 \<longrightarrow> triple w A W (on_conn f (cn_exists cn sql ps)) (\<lambda>_. W) E) \<and>
     (\<forall>g s. W s \<longrightarrow> (\<forall>l. same l0 (g l) = same l0 l) \<longrightarrow> (\<forall>l. (pl_unit (g l) = None) = (pl_unit l = None)) \<longrightarrow> W (g (fst s), snd s)) \<and>
     (\<forall>s. W s \<longrightarrow> pl_unit (fst s) \<noteq> None \<and> same l0 (fst s))"

lemma supportsD:
  assumes "supports env w cn A l0 W E"
  shows "sql \<in> work_batches env l0 \<Longrightarrow> triple w A W (on_conn f (cn_batch cn sql)) (\<lambda>_. W) E"
    "(sql, ps) \<in> work_executes \<Longrightarrow> triple w A W (on_conn f (cn_execute cn sql ps)) (\<lambda>_. W) E"
    "(sql, ps) \<in> work_probes env l0 \<Longrightarrow> triple w A W (on_conn f (cn_exists cn sql ps)) (\<lambda>_. W) E"
    "W s \<Longrightarrow> (\<And>l. same l0 (g l) = same l0 l) \<Longrightarrow> (\<And>l. (pl_unit (g l) = None) = (pl_unit l = None)) \<Longrightarrow> W (g (fst s), snd s)"
    "W s \<Longrightarrow> pl_unit (fst s) \<noteq> None \<and> same l0 (fst s)"
  using assms unfolding supports_def by blast+

lemma working_supports: "conn_ok cn w \<Longrightarrow> supports env w cn A l0 (working w l0 pend) (abandoned w)"
  unfolding supports_def
proof (intro conjI allI impI)
  assume c: "conn_ok cn w"
  show "triple w A (working w l0 pend) (on_conn f (cn_batch cn sql)) (\<lambda>_. working w l0 pend) (abandoned w)"
    if "sql \<in> work_batches env l0" for f sql
    by (rule batch_working [OF c work_not_control [OF that]])
  show "triple w A (working w l0 pend) (on_conn f (cn_execute cn sql ps)) (\<lambda>_. working w l0 pend) (abandoned w)"
    if "(sql, ps) \<in> work_executes" for f sql ps
    by (rule execute_working [OF c]) (use work_no_receipt [OF that] in \<open>cases "SExecute sql ps" rule: receipt_of.cases; auto\<close>)
  show "triple w A (working w l0 pend) (on_conn f (cn_exists cn sql ps)) (\<lambda>_. working w l0 pend) (abandoned w)" for f sql ps
    by (rule asks_working [OF connD(6) [OF c]])
  show "working w l0 pend (g (fst s), snd s)"
    if "working w l0 pend s" "\<forall>l. same l0 (g l) = same l0 l" "\<forall>l. (pl_unit (g l) = None) = (pl_unit l = None)" for g s
    using that by (intro working_update) auto
qed (auto simp: working_def)

text \<open>A call ends in \<open>Q\<close>, in a panic, or with its unit closed and nothing pending.\<close>

lemma call_step:
  assumes "conn_ok cn w" and "triple w A P m Q (abandoned w)" and "P s" and "or_rollback cn m s = (r, s')"
  shows "grows w A (snd s) (snd s') \<and>
    (case r of Inr a \<Rightarrow> Q a s' | Inl e \<Rightarrow> e = Panicked \<or> pl_unit (fst s') = None \<and> inv w [] s')"
proof -
  obtain r1 l1 d1 where m: "m s = (r1, (l1, d1))" by (metis surj_pair)
  note step = tripleD [OF assms(2,3) m]
  show ?thesis
  proof (cases r1)
    case (Inr a)
    with assms(4) m step show ?thesis by (auto simp: or_rollback_def)
  next
    case (Inl e)
    with assms(4) m have r: "r = Inl e" "s' = (if e = Panicked then (l1, d1) else unit_rollback cn (l1, d1))"
      by (simp_all add: or_rollback_def)
    show ?thesis
    proof (cases "e = Panicked \<or> pl_unit l1 = None")
      case True
      with r step Inl show ?thesis by (auto simp: unit_rollback_def abandoned_def)
    next
      case False
      obtain r2 d2 where b: "cn_batch cn UNIT_ROLLBACK d1 = (r2, d2)" by force
      from connD(10) [OF assms(1) b] have "grows w A d1 d2" "vw_tx w d2 \<in> {TxIdle, TxLost}" by (auto intro: moves_none)
      moreover have "s' = (l1\<lparr>pl_unit := None\<rparr>, d2)" using r False b by (auto simp: unit_rollback_def)
      ultimately show ?thesis using r step Inl by (auto simp: inv_def intro: grows_trans)
    qed
  qed
qed

lemma ensure_triple:
  assumes "conn_ok cn w"
  shows "triple w A (inv w pend) (catalog_ensure env cn schema mode) (\<lambda>_. inv w pend) (abandoned w)"
proof -
  have batch: "triple w A (inv w pend) (on_conn f (cn_batch cn sql)) (\<lambda>_. inv w pend) (abandoned w)" if "sql \<notin> tx_control" for f sql
    using runs_triple [OF connD(1) [OF assms that], where R = "\<lambda>_. True"] by (simp add: plain_def)
  have pure: "triple w A (inv w pend) (alift r) (\<lambda>a s. inv w pend s \<and> r = Inr a) (abandoned w)" for r :: "(dest_error, 'x) result"
    by (rule triple_alift) (auto dest: inv_abandoned)
  show ?thesis
    unfolding catalog_ensure_def
  proof (rule triple_on_self, rule triple_weaken [where P = "inv w pend"])
    fix l :: pg_load
    let ?ddl = "table_ddl_statements env (pl_pipeline l) schema mode (map_option fst (map_of (pl_tables l) (sch_table schema)))"
    let ?merge = "merge_ensure_statements env (pl_options l) schema mode"
    have ddl: "sql \<notin> tx_control" if "map_err pg_ddl_failure ?ddl = Inr sqls" "sql \<in> set sqls" for sqls sql
      using that ddl_statements_not_control by simp
    have merge: "sql \<notin> tx_control" if "map_err pg_ddl_failure ?merge = Inr sts" "(sql, uix) \<in> set sts" for sts sql uix
      using that merge_statements_not_control by simp
    show "triple w A (inv w pend)
      (abind (alift (map_err pg_ddl_failure ?ddl)) (\<lambda>sqls.
       abind (aeach (\<lambda>sql. on_conn (classify_statement DEnsure) (cn_batch cn sql)) sqls) (\<lambda>_.
       abind (alift (map_err pg_ddl_failure ?merge)) (\<lambda>statements.
       abind (aeach (\<lambda>(sql, uix). on_conn (merge_ddl_error (sch_table schema) uix) (cn_batch cn sql)) statements) (\<lambda>_.
       update_self (\<lambda>l. l\<lparr>pl_tables := btree_insert (sch_table schema) (schema, mode) (pl_tables l)\<rparr>))))))
      (\<lambda>_. inv w pend) (abandoned w)"
    proof (rule triple_abind [OF pure], rule triple_abind [where Q = "\<lambda>_. inv w pend"], goal_cases)
      case (1 sqls)
      show ?case
      proof (cases "map_err pg_ddl_failure ?ddl = Inr sqls")
        case True
        with ddl batch show ?thesis by (intro triple_weaken [OF triple_aeach]) auto
      qed (simp add: triple_def)
    next
      case (2 sqls u)
      show ?case
      proof (rule triple_abind [OF pure], rule triple_abind [where Q = "\<lambda>_. inv w pend"], goal_cases)
        case (1 sts)
        show ?case
        proof (cases "map_err pg_ddl_failure ?merge = Inr sts")
          case True
          have "triple w A (inv w pend) (case x of (sql, uix) \<Rightarrow> on_conn (merge_ddl_error (sch_table schema) uix) (cn_batch cn sql))
            (\<lambda>_. inv w pend) (abandoned w)" if "x \<in> set sts" for x
          proof -
            obtain sql uix where x: "x = (sql, uix)" by (cases x)
            with merge [OF True, of sql uix] that have "sql \<notin> tx_control" by simp
            with batch x show ?thesis by simp
          qed
          then show ?thesis by (intro triple_weaken [OF triple_aeach]) auto
        qed (simp add: triple_def)
      next
        case (2 sts u)
        show ?case by (rule triple_update) (auto simp: inv_def split: pg_tx.splits)
      qed
    qed
  qed auto
qed

text \<open>The COPY a successful write leaves in the unit's transaction.\<close>

definition written :: "core_env \<Rightarrow> encode_lib \<Rightarrow> pg_load \<Rightarrow> string \<Rightarrow> record_batch \<Rightarrow> stmt list" where
  "written env el l t b =
     (case copy_chunks env el (map_option fst (map_of (pl_tables l) t)) b of
        Inr (chunks, None) \<Rightarrow> [SCopy (copy_statement (write_relation env l t) b) chunks]
      | _ \<Rightarrow> [])"

lemma prepare_triple:
  assumes sup: "supports env w cn A l0 W E" and "triple w A P (begin_if_closed cn load) (\<lambda>_. W) E"
  shows "triple w A P (prepare_for_write cn t load) (\<lambda>_. W) E"
  unfolding prepare_for_write_def
proof (rule triple_abind [OF assms(2)], rule triple_on_self, rule triple_weaken [where P = W])
  fix u l
  have known: "triple w A W (target_cleared_durably cn load t) (\<lambda>_. W) E"
    unfolding target_cleared_durably_def by (rule supportsD(3) [OF sup]) (auto simp: work_probes_def)
  have note_known: "triple w A W (if known then update_self (\<lambda>l. l\<lparr>pl_cleared := insert t (pl_cleared l)\<rparr>) else aret ())
      (\<lambda>_. W) E" for known
    by (auto intro!: triple_aret triple_update supportsD(4) [OF sup])
  have clear: "triple w A W (run_prepare_step cn load st) (\<lambda>_. W) E" if "\<exists>t' \<in> pg_names l0. st = ClearTarget t'" for st
    using that
  proof (cases st)
    case (ClearTarget t')
    with that have "clear_table postgres_dialect (quote_identifier t') \<in> work_batches env l0"
      by (auto simp: work_batches_def)
    note 1 = supportsD(1) [OF sup this]
    have 2: "triple w A W (on_conn f (cn_execute cn record_clear_sql [VText load, VText t'])) (\<lambda>_. W) E" for f
      by (rule supportsD(2) [OF sup]) (simp add: work_executes_def)
    have 3: "triple w A W (on_self (\<lambda>l. case pl_unit l of None \<Rightarrow> afail Panicked
       | Some u \<Rightarrow> update_self (\<lambda>l. l\<lparr>pl_unit := Some (u\<lparr>op_cleared := insert t' (op_cleared u)\<rparr>)\<rparr>))) (\<lambda>_. W) E"
    proof (rule triple_on_self)
      fix l :: pg_load
      show "triple w A (\<lambda>s. W s \<and> fst s = l) (case pl_unit l of None \<Rightarrow> afail Panicked
       | Some u \<Rightarrow> update_self (\<lambda>l. l\<lparr>pl_unit := Some (u\<lparr>op_cleared := insert t' (op_cleared u)\<rparr>)\<rparr>)) (\<lambda>_. W) E"
      proof (cases "pl_unit l")
        case None
        then have "\<not> (W s \<and> fst s = l)" for s using supportsD(5) [OF sup, of s] by auto
        then show ?thesis by (rule triple_absurd)
      next
        case (Some u)
        let ?g = "\<lambda>l :: pg_load. l\<lparr>pl_unit := Some (u\<lparr>op_cleared := insert t' (op_cleared u)\<rparr>)\<rparr>"
        show ?thesis unfolding Some option.case
        proof (rule triple_update)
          fix s assume s: "W s \<and> fst s = l"
          have "W (if pl_unit (fst s) = None then fst s else ?g (fst s), snd s)"
            using s by (intro supportsD(4) [OF sup]) auto
          with s Some show "W (?g (fst s), snd s)" by simp
        qed
      qed
    qed
    show ?thesis unfolding ClearTarget run_prepare_step_def step.case
      by (rule triple_abind [OF 1 triple_abind [OF 2 3]])
  qed auto
  have steps: "triple w A W (on_self (\<lambda>l. aeach (run_prepare_step cn load)
      (prepare_target (pl_tables l) (pg_commit_context l False {} (cleared_union l)) t))) (\<lambda>_. W) E"
  proof (rule triple_on_self)
    fix l :: pg_load
    let ?m = "aeach (run_prepare_step cn load) (prepare_target (pl_tables l) (pg_commit_context l False {} (cleared_union l)) t)"
    show "triple w A (\<lambda>s. W s \<and> fst s = l) ?m (\<lambda>_. W) E"
    proof (cases "same l0 l")
      case True
      have "triple w A W ?m (\<lambda>_. W) E"
      proof (rule triple_aeach [OF clear])
        fix st assume "st \<in> set (prepare_target (pl_tables l) (pg_commit_context l False {} (cleared_union l)) t)"
        then have "st = ClearTarget t" "map_of (pl_tables l) t \<noteq> None"
          by (cases "map_of (pl_tables l) t"; auto simp: prepare_target_def split: if_splits prod.splits)+
        then show "\<exists>t' \<in> pg_names l0. st = ClearTarget t'"
          using True by (auto simp: same_def pg_names_def map_of_eq_None_iff)
      qed
      then show ?thesis by (rule triple_weaken) auto
    next
      case False
      then have "\<not> (W s \<and> fst s = l)" for s using supportsD(5) [OF sup, of s] by auto
      then show ?thesis by (rule triple_absurd)
    qed
  qed
  have look: "triple w A W (if t \<in> cleared_union l then aret () else abind (target_cleared_durably cn load t)
      (\<lambda>known. if known then update_self (\<lambda>l. l\<lparr>pl_cleared := insert t (pl_cleared l)\<rparr>) else aret ())) (\<lambda>_. W) E"
  proof (cases "t \<in> cleared_union l")
    case False
    show ?thesis unfolding if_not_P [OF False] by (rule triple_abind [OF known note_known])
  qed (simp add: triple_aret)
  show "triple w A W (if map_option snd (map_of (pl_tables l) t) \<noteq> Some Replace then aret ()
       else abind (if t \<in> cleared_union l then aret () else abind (target_cleared_durably cn load t)
         (\<lambda>known. if known then update_self (\<lambda>l. l\<lparr>pl_cleared := insert t (pl_cleared l)\<rparr>) else aret ()))
        (\<lambda>_. on_self (\<lambda>l. aeach (run_prepare_step cn load)
          (prepare_target (pl_tables l) (pg_commit_context l False {} (cleared_union l)) t)))) (\<lambda>_. W) E"
  proof (cases "map_option snd (map_of (pl_tables l) t) \<noteq> Some Replace")
    case False
    show ?thesis unfolding if_not_P [OF False] by (rule triple_abind [OF look steps])
  next
    case True
    show ?thesis unfolding if_P [OF True] by (rule triple_aret)
  qed
qed auto

lemma written_same: "same l0 l \<Longrightarrow> written env el l0 t b = written env el l t b"
proof -
  assume "same l0 l"
  then have eq: "pl_tables l = pl_tables l0" "write_relation env l t = write_relation env l0 t"
    by (auto simp: same_def write_relation_def split: option.splits write_mode.splits)
  show ?thesis unfolding written_def eq ..
qed

lemma write_supports:
  assumes sup: "supports env w cn A l0 W E"
    and started: "\<And>l. same l0 l \<Longrightarrow> triple w A P (begin_if_closed cn (pl_load l)) (\<lambda>_. W) E" and P: "\<And>s. P s \<Longrightarrow> same l0 (fst s)"
    and copied: "\<And>f l sql chunks. written env el l t b = [SCopy sql chunks] \<Longrightarrow> same l0 l \<Longrightarrow>
      triple w A W (on_conn f (cn_copy_in cn sql chunks True)) (\<lambda>_. R) E"
    and broken: "written env el l0 t b \<noteq> [] \<or> (\<forall>f sql chunks. triple w A W (on_conn f (cn_copy_in cn sql chunks False)) (\<lambda>_. E) E)
      \<and> (\<forall>s. W s \<longrightarrow> E s)"
  shows "triple w A P (write_inner env el cn t b) (\<lambda>_. R) E"
  unfolding write_inner_def
proof (rule triple_on_self)
  let ?m = "\<lambda>l. abind (prepare_for_write cn t (pl_load l)) (\<lambda>_. on_self (\<lambda>l.
      copy_batch env el cn (write_relation env l t) (map_option fst (map_of (pl_tables l) t)) b))"
  have main: "triple w A P (?m l) (\<lambda>_. R) E" if "same l0 l" for l
  proof (rule triple_abind [OF prepare_triple [OF sup started [OF that]]], rule triple_on_self)
    fix u and l :: pg_load
    let ?chunks = "copy_chunks env el (map_option fst (map_of (pl_tables l) t)) b"
    let ?sql = "copy_statement (write_relation env l t) b"
    show "triple w A (\<lambda>s. W s \<and> fst s = l)
       (copy_batch env el cn (write_relation env l t) (map_option fst (map_of (pl_tables l) t)) b) (\<lambda>_. R) E"
    proof (cases "same l0 l")
      case same: True
      have pre: "triple w A (\<lambda>s. W s \<and> fst s = l) m Q E" if "triple w A W m Q E" for m :: "('a, 'x) pg_action" and Q
        by (rule triple_weaken [OF that]) auto
      show ?thesis
      proof (cases ?chunks)
        case (Inl e)
        then have "written env el l t b = []" by (simp add: written_def)
        with broken written_same [OF same] have "\<forall>s. W s \<longrightarrow> E s" by metis
        then show ?thesis unfolding copy_batch_def Inl by (auto simp: triple_def abind_def)
      next
        case (Inr r)
        obtain chunks failed where r: "r = (chunks, failed)" by (cases r)
        have run: "copy_batch env el cn (write_relation env l t) (map_option fst (map_of (pl_tables l) t)) b =
          abind (on_conn (classify_statement DWrite) (cn_copy_in cn ?sql chunks (failed = None)))
            (\<lambda>_. case failed of None \<Rightarrow> aret () | Some e \<Rightarrow> afail e)"
          by (simp add: copy_batch_def Inr r fun_eq_iff abind_def)
        show ?thesis
        proof (cases failed)
          case None
          then have "written env el l t b = [SCopy ?sql chunks]" using Inr r by (simp add: written_def)
          from copied [OF this same] show ?thesis unfolding run None
            by (intro pre triple_abind [where Q = "\<lambda>_. R"]) (simp_all add: triple_aret)
        next
          case (Some e)
          then have "written env el l t b = []" using Inr r by (simp add: written_def)
          with broken written_same [OF same] have "triple w A W (on_conn f (cn_copy_in cn ?sql chunks False)) (\<lambda>_. E) E" for f
            by metis
          then show ?thesis unfolding run Some
            by (intro pre triple_abind [where Q = "\<lambda>_. E"]) (simp_all add: triple_afail)
        qed
      qed
    next
      case False
      then have "\<not> (W s \<and> fst s = l)" for s using supportsD(5) [OF sup, of s] by auto
      then show ?thesis by (rule triple_absurd)
    qed
  qed
  fix l :: pg_load
  show "triple w A (\<lambda>s. P s \<and> fst s = l) (?m l) (\<lambda>_. R) E"
  proof (cases "same l0 l")
    case True
    from main [OF this] show ?thesis by (rule triple_weaken) auto
  next
    case False
    then have "\<not> (P s \<and> fst s = l)" for s using P [of s] by auto
    then show ?thesis by (rule triple_absurd)
  qed
qed

lemma write_triple:
  assumes "conn_ok cn w"
  shows "triple w A (\<lambda>s. fst s = l0 \<and> inv w pend s) (write_inner env el cn t b)
    (\<lambda>_. inv w (pend @ written env el l0 t b)) (abandoned w)"
proof (rule write_supports [OF working_supports [OF assms]])
  show "triple w A (\<lambda>s. fst s = l0 \<and> inv w pend s) (begin_if_closed cn (pl_load l)) (\<lambda>_. working w l0 pend) (abandoned w)" for l
    by (rule triple_weaken [OF begin_working [OF assms]]) auto
  show "same l0 (fst s)" if "fst s = l0 \<and> inv w pend s" for s using that by simp
  show "triple w A (working w l0 pend) (on_conn f (cn_copy_in cn sql chunks True)) (\<lambda>_. inv w (pend @ written env el l0 t b)) (abandoned w)"
    if wr: "written env el l t b = [SCopy sql chunks]" "same l0 l" for f l sql chunks
  proof (rule triple_on_conn)
    fix l' d r d' assume s: "working w l0 pend (l', d)" "cn_copy_in cn sql chunks True d = (r, d')"
    obtain own where o: "moves w own d d'" "ran (SCopy sql chunks) (\<not> isl r) (vw_tx w d) (vw_tx w d') own"
      using connD(3) [OF assms, of sql chunks, unfolded runs_def, THEN spec [of _ d]] unfolding s(2) prod.case by blast
    with s(1) wr(1) written_same [OF wr(2)]
    show "grows w A d d' \<and> (case r of Inl _ \<Rightarrow> abandoned w (l', d') | Inr _ \<Rightarrow> inv w (pend @ written env el l0 t b) (l', d'))"
      by (cases r; cases "vw_tx w d") (auto simp: working_def abandoned_def inv_def intro: moves_none)
  qed
  have "triple w A (working w l0 pend) (on_conn f (cn_copy_in cn sql chunks False)) (\<lambda>_. abandoned w) (abandoned w)" for f sql chunks
  proof (rule triple_on_conn)
    fix l' d r d' assume s: "working w l0 pend (l', d)" "cn_copy_in cn sql chunks False d = (r, d')"
    have "moves w [] d d'"
      using connD(4) [OF assms, of sql chunks, unfolded drops_def, THEN spec [of _ d]] unfolding s(2) prod.case by blast
    with s(1) show "grows w A d d' \<and> (case r of Inl _ \<Rightarrow> abandoned w (l', d') | Inr _ \<Rightarrow> abandoned w (l', d'))"
      by (cases r) (auto simp: working_def abandoned_def intro: moves_none)
  qed
  then show "written env el l0 t b \<noteq> [] \<or> (\<forall>f sql chunks. triple w A (working w l0 pend) (on_conn f (cn_copy_in cn sql chunks False))
      (\<lambda>_. abandoned w) (abandoned w)) \<and> (\<forall>s. working w l0 pend s \<longrightarrow> abandoned w s)"
    by (auto intro: working_abandoned)
qed

section \<open>The commit\<close>

lemma probe_supports:
  assumes "supports env w cn A l0 W E" and "set ts \<subseteq> pg_names l0"
  shows "triple w A W (pg_probe_stages env cn (pl_pipeline l0) ts) (\<lambda>_. W) E"
  using assms(2)
proof (induction ts)
  case Nil
  show ?case unfolding pg_probe_stages.simps by (rule triple_aret)
next
  case (Cons t ts)
  then have "(stage_nonempty_sql (quote_identifier (stage_table env (pl_pipeline l0) t)), []) \<in> work_probes env l0"
    by (auto simp: work_probes_def)
  note probe = supportsD(3) [OF assms(1) this]
  from Cons have rest: "triple w A W (pg_probe_stages env cn (pl_pipeline l0) ts) (\<lambda>_. W) E" by simp
  show ?case unfolding pg_probe_stages.simps
    by (rule triple_abind [OF probe triple_abind [OF rest triple_aret]])
qed

lemma plan_triple:
  assumes sup: "supports env w cn A l0 W E"
    and fails: "\<And>ctx e. full_load ctx = DirectToTarget \<Longrightarrow> plan_commit env (pl_tables l0) (pl_options l0) ctx = Inl e \<Longrightarrow> \<forall>s. W s \<longrightarrow> E s"
  shows "triple w A (W) (planned_script env cn rep)
    (\<lambda>script s. W s \<and> planned env l0 rep script) E"
  unfolding planned_script_def probe_staged_nonempty_def
proof (rule triple_abind [where Q = "\<lambda>_. W"], rule triple_on_self)
  fix l
  show "triple w A (\<lambda>s. W s \<and> fst s = l)
     (pg_probe_stages env cn (pl_pipeline l) (staged_probe_targets (pl_tables l) (pl_options l)))
     (\<lambda>_. W) E"
  proof (cases "same l0 l")
    case True
    then have eq: "pl_pipeline l = pl_pipeline l0" "pl_tables l = pl_tables l0" by (simp_all add: same_def)
    have "set (staged_probe_targets (pl_tables l0) (pl_options l)) \<subseteq> pg_names l0"
      by (auto simp: staged_probe_targets_def pg_names_def)
    from probe_supports [OF sup this] show ?thesis unfolding eq by (rule triple_weaken) auto
  next
    case False
    then have "\<not> (W s \<and> fst s = l)" for s using supportsD(5) [OF sup, of s] by auto
    then show ?thesis by (rule triple_absurd)
  qed
next
  fix staged
  show "triple w A (W) (on_self (\<lambda>l. alift (map_err (\<lambda>e. dest_fatal DCommit (display_commit_error e))
      (plan_commit env (pl_tables l) (pl_options l) (pg_commit_context l rep staged (cleared_union l))))))
     (\<lambda>script s. W s \<and> planned env l0 rep script) E"
  proof (rule triple_on_self)
    fix l
    let ?ctx = "pg_commit_context l rep staged (cleared_union l)"
    have ctx: "replayed ?ctx = rep" "full_load ?ctx = DirectToTarget" by (simp_all add: pg_commit_context_def)
    show "triple w A (\<lambda>s. W s \<and> fst s = l) (alift (map_err (\<lambda>e. dest_fatal DCommit (display_commit_error e))
        (plan_commit env (pl_tables l) (pl_options l) ?ctx))) (\<lambda>script s. W s \<and> planned env l0 rep script) E"
    proof (cases "same l0 l")
      case True
      then have eq: "pl_tables l = pl_tables l0" "pl_options l = pl_options l0" by (simp_all add: same_def)
      show ?thesis unfolding eq
      proof (cases "plan_commit env (pl_tables l0) (pl_options l0) ?ctx")
        case (Inl e)
        with fails [OF ctx(2) Inl] show "triple w A (\<lambda>s. W s \<and> fst s = l) (alift (map_err (\<lambda>e. dest_fatal DCommit (display_commit_error e))
          (plan_commit env (pl_tables l0) (pl_options l0) ?ctx))) (\<lambda>script s. W s \<and> planned env l0 rep script) E"
          by (auto simp: triple_def)
      next
        case (Inr script)
        with ctx have "planned env l0 rep script" unfolding planned_def by blast
        with Inr show "triple w A (\<lambda>s. W s \<and> fst s = l) (alift (map_err (\<lambda>e. dest_fatal DCommit (display_commit_error e))
          (plan_commit env (pl_tables l0) (pl_options l0) ?ctx))) (\<lambda>script s. W s \<and> planned env l0 rep script) E"
          by (auto simp: triple_def)
      qed
    next
      case False
      then have "\<not> (W s \<and> fst s = l)" for s using supportsD(5) [OF sup, of s] by auto
      then show ?thesis by (rule triple_absurd)
    qed
  qed
qed

text \<open>The unit's receipt is in its transaction, and nobody else's.\<close>

definition stamped :: "'d pg_view \<Rightarrow> string \<times> int \<Rightarrow> stmt list \<Rightarrow> pg_load \<times> 'd \<Rightarrow> bool" where
  "stamped w k pend s \<longleftrightarrow> pl_unit (fst s) \<noteq> None \<and> k \<notin> ledger (vw_history w (snd s))
     \<and> (\<exists>ss. vw_tx w (snd s) = TxActive ss \<and> receipts ss = [k] \<and> copies ss = pend)"

lemma receipt_triple:
  assumes "conn_ok cn w"
  shows "triple w A (working w l0 pend) (on_conn f (cn_execute cn pg_insert_receipt_sql [VText load, VInt n]))
    (\<lambda>_. stamped w (load, n) pend) (abandoned w)"
proof (rule triple_on_conn)
  fix l d r d' assume s: "working w l0 pend (l, d)" "cn_execute cn pg_insert_receipt_sql [VText load, VInt n] d = (r, d')"
  let ?s = "SExecute pg_insert_receipt_sql [VText load, VInt n]"
  obtain own where o: "moves w own d d'" "ran ?s (\<not> isl r) (vw_tx w d) (vw_tx w d') own"
    using connD(2) [OF assms, of pg_insert_receipt_sql "[VText load, VInt n]", unfolded runs_def, THEN spec [of _ d]]
    unfolding s(2) prod.case by blast
  have busy: "vw_tx w d \<noteq> TxIdle" "pl_unit l \<noteq> None" using s(1) by (auto simp: working_def inv_def)
  have fresh: "(load, n) \<notin> ledger (vw_history w d')" if "r = Inr u" for u
    using assms s(2) that busy(1) unfolding conn_ok_def receipts_ok_def by blast
  from busy o have "own = []" by (cases "vw_tx w d") auto
  with o have "grows w A d d'" by (simp add: moves_none)
  with o s(1) fresh show "grows w A d d' \<and> (case r of Inl _ \<Rightarrow> abandoned w (l, d') | Inr _ \<Rightarrow> stamped w (load, n) pend (l, d'))"
    by (cases r; cases "vw_tx w d") (auto simp: working_def inv_def abandoned_def stamped_def)
qed

lemma data_step_triple:
  assumes sup: "supports env w cn A l0 W E" and "st \<noteq> InsertReceipt"
    and script: "planned env l0 False script" "st \<in> set (steps script)"
    and fails: "\<And>l e. same l0 l \<Longrightarrow> pg_step_sql env l st = Inl e \<Longrightarrow> \<forall>s. W s \<longrightarrow> E s"
    and doc: "\<And>e. st = UpsertState \<Longrightarrow> meta_doc meta = Inl e \<Longrightarrow> \<forall>s. W s \<longrightarrow> E s"
  shows "triple w A W (pg_run_step env cn meta st) (\<lambda>_. W) E"
proof -
  have data: "triple w A W (on_self (\<lambda>l. abind (alift (pg_step_sql env l st)) (\<lambda>sqls.
       aeach (\<lambda>sql. on_conn (classify_statement DCommit) (cn_batch cn sql)) sqls))) (\<lambda>_. W) E"
  proof (rule triple_on_self)
    fix l
    show "triple w A (\<lambda>s. W s \<and> fst s = l) (abind (alift (pg_step_sql env l st)) (\<lambda>sqls.
       aeach (\<lambda>sql. on_conn (classify_statement DCommit) (cn_batch cn sql)) sqls)) (\<lambda>_. W) E"
    proof (cases "same l0 l")
      case True
      show ?thesis
      proof (cases "pg_step_sql env l st")
        case (Inl e)
        with fails [OF True Inl] show ?thesis by (auto simp: triple_def abind_def)
      next
        case (Inr sqls)
        have run: "abind (alift (pg_step_sql env l st)) (\<lambda>sqls. aeach (\<lambda>sql. on_conn (classify_statement DCommit) (cn_batch cn sql)) sqls)
            = aeach (\<lambda>sql. on_conn (classify_statement DCommit) (cn_batch cn sql)) sqls"
          by (simp add: Inr fun_eq_iff abind_def)
        have "sql \<in> work_batches env l0" if "sql \<in> set sqls" for sql
          using script Inr that same_step_sql [OF True, of env st] by (auto simp: work_batches_def)
        with supportsD(1) [OF sup]
        show ?thesis unfolding run by (intro triple_weaken [OF triple_aeach]) auto
      qed
    next
      case False
      then have "\<not> (W s \<and> fst s = l)" for s using supportsD(5) [OF sup, of s] by auto
      then show ?thesis by (rule triple_absurd)
    qed
  qed
  show ?thesis
  proof (cases st)
    case UpsertState
    have "triple w A W (alift (map_err (dest_fatal DCommit) (meta_doc meta))) (\<lambda>_. W) E"
      using doc [OF UpsertState] by (cases "meta_doc meta") (auto simp: triple_def)
    moreover have "(pg_upsert_state_sql, [VText (meta_pipeline meta), VText doc]) \<in> work_executes" for doc
      by (simp add: work_executes_def)
    ultimately show ?thesis unfolding UpsertState pg_run_step.simps
      by (intro triple_abind [where Q = "\<lambda>_. W"] supportsD(2) [OF sup])
  qed (use data assms(2) in simp_all)
qed

lemma commit_triple:
  assumes "conn_ok cn w" and "(k, pend) \<in> A"
  shows "triple w A (stamped w k pend) (unit_commit cn)
    (\<lambda>_ s. pl_unit (fst s) = None \<and> inv w [] s \<and> k \<in> ledger (vw_history w (snd s))) (abandoned w)"
  unfolding unit_commit_def
proof (rule triple_abind [where Q = "\<lambda>_ s. pl_unit (fst s) \<noteq> None \<and> vw_tx w (snd s) = TxIdle \<and> k \<in> ledger (vw_history w (snd s))"])
  show "triple w A (stamped w k pend) (on_conn (driver_transient DCommit) (cn_batch cn UNIT_COMMIT))
    (\<lambda>_ s. pl_unit (fst s) \<noteq> None \<and> vw_tx w (snd s) = TxIdle \<and> k \<in> ledger (vw_history w (snd s))) (abandoned w)"
  proof (rule triple_on_conn)
    fix l d r d' assume s: "stamped w k pend (l, d)" "cn_batch cn UNIT_COMMIT d = (r, d')"
    from connD(9) [OF assms(1) s(2)] obtain own where
      o: "moves w own d d'" "ended (\<not> isl r) (vw_tx w d) (vw_tx w d') own" by blast
    from s(1) obtain ss where ss: "vw_tx w d = TxActive ss" "receipts ss = [k]" "copies ss = pend"
      "k \<notin> ledger (vw_history w d)" "pl_unit l \<noteq> None" by (auto simp: stamped_def)
    with o(2) have own: "own = [] \<or> own = [ss]" "\<not> isl r \<Longrightarrow> own = [ss] \<and> vw_tx w d' = TxIdle" by (auto split: if_splits)
    have "k \<in> pending (vw_tx w d)" using ss by (simp add: pending_def)
    then have "grows w A d d'" by (intro moves_grows [OF o(1)]) (use own(1) ss assms(2) in blast)
    moreover have "k \<in> ledger (vw_history w d')" if "own = [ss]" using o(1) that ss(2) by (auto simp: moves_def)
    ultimately show "grows w A d d' \<and> (case r of Inl _ \<Rightarrow> abandoned w (l, d')
       | Inr _ \<Rightarrow> pl_unit (fst (l, d')) \<noteq> None \<and> vw_tx w (snd (l, d')) = TxIdle \<and> k \<in> ledger (vw_history w (snd (l, d'))))"
      using own(2) ss(5) by (cases r) (auto simp: abandoned_def)
  qed
  fix u
  show "triple w A (\<lambda>s. pl_unit (fst s) \<noteq> None \<and> vw_tx w (snd s) = TxIdle \<and> k \<in> ledger (vw_history w (snd s)))
     (on_self (\<lambda>l. case pl_unit l of None \<Rightarrow> afail Panicked
       | Some u \<Rightarrow> abind (update_self (\<lambda>l. l\<lparr>pl_unit := None\<rparr>)) (\<lambda>_. aret u)))
     (\<lambda>_ s. pl_unit (fst s) = None \<and> inv w [] s \<and> k \<in> ledger (vw_history w (snd s))) (abandoned w)"
    by (auto simp: triple_def on_self_def update_self_def abind_def inv_def split: option.splits)
qed

text \<open>The steps a planned unit may run.\<close>

lemma planned_steps:
  assumes "planned env l0 False script"
  obtains ss where "steps script = ss @ [InsertReceipt]" "InsertReceipt \<notin> set ss"
proof -
  from assms obtain ctx where "\<not> replayed ctx" "plan_commit env (pl_tables l0) (pl_options l0) ctx = Inr script"
    by (auto simp: planned_def)
  from fresh_shape [OF this] obtain pub where
    shape: "steps script = (pub @ truncate_steps ctx (pl_tables l0) @ [UpsertState]) @ [InsertReceipt]"
    and pub: "\<forall>s \<in> set pub. \<exists>t schema mode. step_target s = Some t" by fastforce
  have "InsertReceipt \<notin> set (pub @ truncate_steps ctx (pl_tables l0) @ [UpsertState])"
    using pub by (auto simp: truncate_steps_iff)
  with shape that show ?thesis by blast
qed

definition settled :: "'d pg_view \<Rightarrow> string \<times> int \<Rightarrow> pg_load \<times> 'd \<Rightarrow> bool" where
  "settled w k s \<longleftrightarrow> pl_unit (fst s) = None \<and> inv w [] s \<and> k \<in> ledger (vw_history w (snd s))"

lemma publish_supports:
  assumes sup: "supports env w cn A l0 W E"
    and fails: "\<And>ctx e. full_load ctx = DirectToTarget \<Longrightarrow> plan_commit env (pl_tables l0) (pl_options l0) ctx = Inl e \<Longrightarrow> \<forall>s. W s \<longrightarrow> E s"
    and stuck: "\<And>script st l e. planned env l0 False script \<Longrightarrow> st \<in> set (steps script) \<Longrightarrow> same l0 l \<Longrightarrow> pg_step_sql env l st = Inl e \<Longrightarrow> \<forall>s. W s \<longrightarrow> E s"
    and doc: "\<And>e. meta_doc meta = Inl e \<Longrightarrow> \<forall>s. W s \<longrightarrow> E s"
    and receipt: "\<And>f. triple w A W (on_conn f (cn_execute cn pg_insert_receipt_sql [VText (meta_load meta), VInt (seq_key (meta_seq meta))])) (\<lambda>_. S) E"
    and commit: "triple w A S (unit_commit cn) (\<lambda>_. settled w k) E"
  shows "triple w A W (publish_inner env cn meta) (\<lambda>_. settled w k) E"
proof -
  have steps: "triple w A W (aeach (pg_run_step env cn meta) (steps script)) (\<lambda>_. S) E"
    if planned: "planned env l0 False script" for script
  proof -
    obtain ss where ss: "steps script = ss @ [InsertReceipt]" "InsertReceipt \<notin> set ss" by (rule planned_steps [OF planned])
    have data: "triple w A W (aeach (pg_run_step env cn meta) ss) (\<lambda>_. W) E"
    proof (rule triple_aeach)
      fix st assume st: "st \<in> set ss"
      then have ne: "st \<noteq> InsertReceipt" using ss(2) by auto
      have "st \<in> set (steps script)" using st ss(1) by simp
      note st = this
      show "triple w A W (pg_run_step env cn meta st) (\<lambda>_. W) E"
        by (rule data_step_triple [OF sup ne planned st]) (blast intro: stuck [OF planned st, rule_format] doc [rule_format])+
    qed
    have last: "triple w A W (aeach (pg_run_step env cn meta) [InsertReceipt]) (\<lambda>_. S) E"
      unfolding aeach.simps pg_run_step.simps by (rule triple_abind [OF receipt triple_aret])
    show ?thesis unfolding ss(1) aeach_append [of _ ss] by (rule triple_abind [OF data last])
  qed
  have tail: "triple w A S (abind (unit_commit cn) (\<lambda>u.
      abind (update_self (\<lambda>l. l\<lparr>pl_cleared := pl_cleared l \<union> op_cleared u,
        pl_single_unit_done := pl_single_unit_done l \<union> set (marks script)\<rparr>)) (\<lambda>_. aret (meta_load meta, meta_seq meta))))
      (\<lambda>_. settled w k) E" for script
  proof (rule triple_abind [OF commit])
    fix u
    show "triple w A (settled w k) (abind (update_self (\<lambda>l. l\<lparr>pl_cleared := pl_cleared l \<union> op_cleared u,
        pl_single_unit_done := pl_single_unit_done l \<union> set (marks script)\<rparr>)) (\<lambda>_. aret (meta_load meta, meta_seq meta)))
      (\<lambda>_. settled w k) E"
      by (rule triple_abind [where Q = "\<lambda>_. settled w k"], rule triple_update)
        (auto simp: settled_def inv_def intro: triple_aret split: pg_tx.splits)
  qed
  show ?thesis unfolding publish_inner_def
  proof (rule triple_abind [OF plan_triple [OF sup fails]])
    fix script
    show "triple w A (\<lambda>s. W s \<and> planned env l0 False script)
       (abind (aeach (pg_run_step env cn meta) (steps script)) (\<lambda>_. abind (unit_commit cn) (\<lambda>u.
         abind (update_self (\<lambda>l. l\<lparr>pl_cleared := pl_cleared l \<union> op_cleared u,
           pl_single_unit_done := pl_single_unit_done l \<union> set (marks script)\<rparr>)) (\<lambda>_. aret (meta_load meta, meta_seq meta)))))
       (\<lambda>_. settled w k) E"
    proof (cases "planned env l0 False script")
      case True
      show ?thesis by (rule triple_weaken [OF triple_abind [OF steps [OF True] tail]]) auto
    qed (simp add: triple_def)
  qed
qed

lemma publish_triple:
  assumes "conn_ok cn w" and "((meta_load meta, seq_key (meta_seq meta)), pend) \<in> A"
  shows "triple w A (working w l0 pend) (publish_inner env cn meta)
    (\<lambda>_. settled w (meta_load meta, seq_key (meta_seq meta))) (abandoned w)"
proof (rule publish_supports [OF working_supports [OF assms(1)]])
  show "triple w A (stamped w (meta_load meta, seq_key (meta_seq meta)) pend) (unit_commit cn)
    (\<lambda>_. settled w (meta_load meta, seq_key (meta_seq meta))) (abandoned w)"
    unfolding settled_def by (rule commit_triple [OF assms])
qed (auto intro: working_abandoned receipt_triple [OF assms(1)])

lemma replay_triple:
  assumes "conn_ok cn w"
  shows "triple w A (\<lambda>s. working w l0 pend s \<and> k \<in> ledger (vw_history w (snd s))) (replay_inner env cn)
    (\<lambda>_ s. pl_unit (fst s) = None \<and> inv w [] s \<and> k \<in> ledger (vw_history w (snd s))) (abandoned w)"
proof (rule tripleI)
  fix s r s' assume s: "working w l0 pend s \<and> k \<in> ledger (vw_history w (snd s))" "replay_inner env cn s = (r, s')"
  obtain r1 l1 d1 where p: "planned_script env cn True s = (r1, (l1, d1))" by (metis surj_pair)
  have "\<forall>s. working w l0 pend s \<longrightarrow> abandoned w s" by (auto intro: working_abandoned)
  from tripleD [OF plan_triple [OF working_supports [OF assms] this] conjunct1 [OF s(1)] p] have
    1: "grows w A (snd s) d1" "case r1 of Inl _ \<Rightarrow> abandoned w (l1, d1) | Inr script \<Rightarrow> working w l0 pend (l1, d1)"
    by (auto split: sum.splits)
  show "grows w A (snd s) (snd s') \<and> (case r of Inl _ \<Rightarrow> abandoned w s'
     | Inr _ \<Rightarrow> pl_unit (fst s') = None \<and> inv w [] s' \<and> k \<in> ledger (vw_history w (snd s')))"
  proof (cases r1)
    case (Inl e)
    with s(2) p 1 show ?thesis by (auto simp: replay_inner_def abind_def)
  next
    case (Inr script)
    obtain r2 d2 where b: "cn_batch cn UNIT_ROLLBACK d1 = (r2, d2)" by force
    from connD(10) [OF assms b] have g: "grows w A d1 d2" "vw_tx w d2 \<in> {TxIdle, TxLost}" by (auto intro: moves_none)
    have "pl_unit l1 \<noteq> None" using 1(2) Inr by (simp add: working_def)
    with s(2) p Inr b have r: "r = Inr ()" "pl_unit (fst s') = None" "snd s' = d2"
      by (auto simp: replay_inner_def abind_def unit_rollback_def update_self_def)
    have "k \<in> ledger (vw_history w d2)" using s(1) grows_ledger [OF grows_trans [OF 1(1) g(1)]] by blast
    with r g 1 show ?thesis by (auto simp: inv_def intro: grows_trans)
  qed
qed

lemma receipt_probe_triple:
  assumes "conn_ok cn w"
  shows "triple w A (\<lambda>s. fst s = l0 \<and> inv w pend s) (existing_receipt_inner cn load seq)
    (\<lambda>found s. working w l0 pend s \<and> (found \<noteq> None \<longrightarrow> found = Some (load, seq) \<and> (load, seq_key seq) \<in> ledger (vw_history w (snd s))))
    (abandoned w)"
  unfolding existing_receipt_inner_def
proof (rule triple_on_self, rule triple_weaken [where P = "\<lambda>s. same l0 (fst s) \<and> inv w pend s"])
  fix l
  let ?Q = "\<lambda>found s. working w l0 pend s \<and> (found \<noteq> None \<longrightarrow> found = Some (load, seq) \<and> (load, seq_key seq) \<in> ledger (vw_history w (snd s)))"
  let ?probe = "\<lambda>f. on_conn f (cn_count cn (receipt_exists_sql dollar) [VText load, VInt (seq_key seq)])"
  let ?R = "\<lambda>n s. working w l0 pend s \<and> (n > 0 \<longrightarrow> (load, seq_key seq) \<in> ledger (vw_history w (snd s)))"
  have probe: "triple w A (working w l0 pend) (?probe f) ?R (abandoned w)" for f
  proof (rule triple_on_conn)
    fix l' d r d' assume s: "working w l0 pend (l', d)" "cn_count cn (receipt_exists_sql dollar) [VText load, VInt (seq_key seq)] d = (r, d')"
    have o: "moves w [] d d'" "asked (\<not> isl r) (vw_tx w d) (vw_tx w d')"
      using connD(5) [OF assms, of "receipt_exists_sql dollar" "[VText load, VInt (seq_key seq)]", unfolded asks_def, THEN spec [of _ d]]
      unfolding s(2) prod.case by blast+
    have law: "(load, seq_key seq) \<in> ledger (vw_history w d') \<union> pending (vw_tx w d')" if "r = Inr n" "n > 0" for n
      using assms s(2) that unfolding conn_ok_def receipts_ok_def by blast
    have "pending (vw_tx w d) = {}" using s(1) by (auto simp: working_def inv_def pending_def split: pg_tx.splits)
    then have "pending (vw_tx w d') = {}" if "r = Inr n" for n using o(2) that by (cases "vw_tx w d") (auto simp: pending_def)
    with law o s(1) show "grows w A d d' \<and> (case r of Inl _ \<Rightarrow> abandoned w (l', d') | Inr n \<Rightarrow> ?R n (l', d'))"
      by (cases r; cases "vw_tx w d") (auto simp: working_def inv_def abandoned_def intro: moves_none)
  qed
  show "triple w A (\<lambda>s. same l0 (fst s) \<and> inv w pend s)
    (if load \<noteq> pl_load l
     then afail (dest_fatal DCommit (''internal: session opened for load '' @ bq (pl_load l) @ '' asked to commit load '' @ bq load))
     else abind (begin_if_closed cn (pl_load l)) (\<lambda>_. abind (?probe (driver_transient DCommit))
       (\<lambda>n. aret (if n > 0 then Some (load, seq) else None)))) ?Q (abandoned w)"
  proof (cases "load = pl_load l")
    case True
    have ret: "triple w A (?R n) (aret (if n > 0 then Some (load, seq) else None)) ?Q (abandoned w)" for n :: int
      by (rule triple_aret) auto
    have "\<not> load \<noteq> pl_load l" using True by simp
    show ?thesis unfolding if_not_P [OF \<open>\<not> load \<noteq> pl_load l\<close>]
      by (rule triple_abind [OF begin_working [OF assms] triple_abind [OF probe ret]])
  qed (auto intro!: triple_afail inv_abandoned)
qed auto

end
