(* ===== verification/Pg_Deliver.thy ===== *)
theory Pg_Deliver
  imports Pg_Unit
begin

text \<open>
  Runs of a PostgreSQL load session: what any sequence of its calls commits, what becomes of a
  session whose unit failed to begin, and that a unit delivered again to a healthy server is
  committed.
\<close>

section \<open>A session's run\<close>

text \<open>
  The framework commits a unit by asking for its receipt first: a unit that has one is replayed,
  any other is published.
\<close>

definition pg_deliver :: "core_env \<Rightarrow> 'd pg_conn \<Rightarrow> commit_meta \<Rightarrow> ('d, string \<times> 64 word) pg_action" where
  "pg_deliver env cn meta =
     abind (pg_existing_receipt cn (meta_load meta) (meta_seq meta)) (\<lambda>found.
       case found of
         Some receipt \<Rightarrow> abind (pg_replay env cn meta) (\<lambda>_. aret receipt)
       | None \<Rightarrow> pg_publish env cn meta)"

datatype pg_call =
    CEnsure table_schema write_mode
  | CWrite string record_batch
  | CCommit commit_meta
  | CRead string

definition call_run ::
    "core_env \<Rightarrow> encode_lib \<Rightarrow> 'd pg_conn \<Rightarrow> (string \<Rightarrow> (string, unit) result) \<Rightarrow> pg_call
      \<Rightarrow> ('d, (string \<times> 64 word) option) pg_action" where
  "call_run env el cn parse c =
     (case c of
        CEnsure schema mode \<Rightarrow> abind (pg_ensure_table env cn schema mode) (\<lambda>_. aret None)
      | CWrite t b \<Rightarrow> abind (pg_write env el cn t b) (\<lambda>_. aret None)
      | CCommit meta \<Rightarrow> abind (pg_deliver env cn meta) (\<lambda>r. aret (Some r))
      | CRead pipeline \<Rightarrow> abind (pg_read_state cn parse pipeline) (\<lambda>_. aret None))"

text \<open>The batches pending after a call, and the delivery it attempts.\<close>

definition pend_after :: "core_env \<Rightarrow> encode_lib \<Rightarrow> pg_load \<Rightarrow> pg_call \<Rightarrow> bool \<Rightarrow> stmt list \<Rightarrow> stmt list" where
  "pend_after env el l c ok pend =
     (case c of
        CEnsure _ _ \<Rightarrow> if ok then pend else []
      | CWrite t b \<Rightarrow> if ok then pend @ written env el l t b else []
      | CCommit _ \<Rightarrow> []
      | CRead _ \<Rightarrow> pend)"

definition meta_key :: "commit_meta \<Rightarrow> string \<times> int" where
  "meta_key meta = (meta_load meta, seq_key (meta_seq meta))"

definition attempts_of :: "pg_call \<Rightarrow> stmt list \<Rightarrow> ((string \<times> int) \<times> stmt list) list" where
  "attempts_of c pend = (case c of CCommit meta \<Rightarrow> [(meta_key meta, pend)] | _ \<Rightarrow> [])"

definition ack_of :: "(dest_error, (string \<times> 64 word) option) result \<Rightarrow> (string \<times> int) list" where
  "ack_of r = (case r of Inr (Some (load, seq)) \<Rightarrow> [(load, seq_key seq)] | _ \<Rightarrow> [])"

text \<open>
  The deliveries attempted by a session's calls, each with the batches acknowledged since the unit
  began, the receipts returned, and where the session ends. A panic drops the session.
\<close>

fun session_run ::
    "core_env \<Rightarrow> encode_lib \<Rightarrow> 'd pg_conn \<Rightarrow> (string \<Rightarrow> (string, unit) result) \<Rightarrow> pg_call list \<Rightarrow> stmt list \<Rightarrow> pg_load \<times> 'd
      \<Rightarrow> ((string \<times> int) \<times> stmt list) list \<times> (string \<times> int) list \<times> pg_load \<times> 'd" where
  "session_run env el cn parse [] pend s = ([], [], s)"
| "session_run env el cn parse (c # cs) pend s =
     (case call_run env el cn parse c s of (r, s1) \<Rightarrow>
        if r = Inl Panicked then (attempts_of c pend, [], s1)
        else
          case session_run env el cn parse cs (pend_after env el (fst s) c (\<not> isl r) pend) s1 of (as, acks, s') \<Rightarrow>
            (attempts_of c pend @ as, ack_of r @ acks, s'))"

lemma deliver_step:
  assumes c: "conn_ok cn w" and "inv w pend s" and run: "pg_deliver env cn meta s = (r, s')"
    and A: "(meta_key meta, pend) \<in> A"
  shows "grows w A (snd s) (snd s') \<and>
    (case r of Inl e \<Rightarrow> e = Panicked \<or> inv w [] s'
     | Inr (load, seq) \<Rightarrow> inv w [] s' \<and> (load, seq_key seq) = meta_key meta \<and> meta_key meta \<in> ledger (vw_history w (snd s')))"
proof -
  obtain r1 s1 where e: "pg_existing_receipt cn (meta_load meta) (meta_seq meta) s = (r1, s1)"
    by (cases "pg_existing_receipt cn (meta_load meta) (meta_seq meta) s")
  note probe = call_step [OF c receipt_probe_triple [OF c, where A = A] conjI [OF refl assms(2)] e [unfolded pg_existing_receipt_def]]
  show ?thesis
  proof (cases r1)
    case (Inl e1)
    with run e probe show ?thesis by (auto simp: pg_deliver_def abind_def)
  next
    case (Inr found)
    with probe have g: "grows w A (snd s) (snd s1)" and work: "working w (fst s) pend s1"
      and known: "found \<noteq> None \<longrightarrow> found = Some (meta_load meta, meta_seq meta) \<and> meta_key meta \<in> ledger (vw_history w (snd s1))"
      by (auto simp: meta_key_def)
    show ?thesis
    proof (cases found)
      case None
      with run e Inr have p: "or_rollback cn (publish_inner env cn meta) s1 = (r, s')"
        by (simp add: pg_deliver_def abind_def pg_publish_def)
      have shape: "load = meta_load meta \<and> seq = meta_seq meta" if "r = Inr (load, seq)" for load seq
        using p that by (auto simp: or_rollback_def publish_inner_def abind_Inr split: prod.splits sum.splits)
      from call_step [OF c publish_triple [OF c A [unfolded meta_key_def]] work p] g
      show ?thesis by (cases r) (auto dest: shape simp: meta_key_def settled_def intro: grows_trans)
    next
      case (Some receipt)
      obtain r2 s2 where p: "or_rollback cn (replay_inner env cn) s1 = (r2, s2)"
        by (cases "or_rollback cn (replay_inner env cn) s1")
      have r: "r = (case r2 of Inl e \<Rightarrow> Inl e | Inr _ \<Rightarrow> Inr receipt)" "s' = s2"
        using run e Inr Some p by (auto simp: pg_deliver_def abind_def pg_replay_def split: sum.splits)
      from known Some have k: "meta_key meta \<in> ledger (vw_history w (snd s1))" "receipt = (meta_load meta, meta_seq meta)" by auto
      from call_step [OF c replay_triple [OF c] conjI [OF work k(1)] p] g r k(2)
      show ?thesis by (cases r2) (auto simp: meta_key_def intro: grows_trans)
    qed
  qed
qed

lemma read_step:
  assumes c: "conn_ok cn w" and "inv w pend s" and run: "pg_read_state cn parse pipeline s = (r, s')"
  shows "grows w A (snd s) (snd s') \<and> inv w pend s'"
proof -
  let ?sql = "''SELECT doc FROM '' @ STATE_TABLE @ '' WHERE pipeline = $1''"
  obtain r1 d1 where q: "cn_text cn ?sql [VText pipeline] (snd s) = (r1, d1)"
    by (cases "cn_text cn ?sql [VText pipeline] (snd s)")
  have o: "moves w [] (snd s) d1" "asked (\<not> isl r1) (vw_tx w (snd s)) (vw_tx w d1)"
    using connD(7) [OF c, of ?sql "[VText pipeline]", unfolded asks_def, THEN spec [of _ "snd s"]]
    unfolding q prod.case by blast+
  have "s' = (fst s, d1)"
    using run q by (auto simp: pg_read_state_def abind_def on_conn_def alift_def aret_def split: sum.splits option.splits)
  with o assms(2) show ?thesis by (cases "vw_tx w (snd s)") (auto simp: inv_def intro: moves_none)
qed

lemma call_run_step:
  assumes c: "conn_ok cn w" and "inv w pend s" and run: "call_run env el cn parse cl s = (r, s')" and A: "set (attempts_of cl pend) \<subseteq> A"
  shows "grows w A (snd s) (snd s') \<and>
    (r = Inl Panicked \<or> inv w (pend_after env el (fst s) cl (\<not> isl r) pend) s' \<and> set (ack_of r) \<subseteq> ledger (vw_history w (snd s')))"
proof (cases cl)
  case (CEnsure schema mode)
  obtain r1 s1 where p: "or_rollback cn (catalog_ensure env cn schema mode) s = (r1, s1)"
    by (cases "or_rollback cn (catalog_ensure env cn schema mode) s")
  with run CEnsure have "s' = s1" "r = (case r1 of Inl e \<Rightarrow> Inl e | Inr _ \<Rightarrow> Inr None)"
    by (auto simp: call_run_def pg_ensure_table_def abind_def split: sum.splits)
  with call_step [OF c ensure_triple [OF c] assms(2) p] CEnsure show ?thesis
    by (cases r1) (auto simp: pend_after_def ack_of_def)
next
  case (CWrite t b)
  obtain r1 s1 where p: "or_rollback cn (write_inner env el cn t b) s = (r1, s1)"
    by (cases "or_rollback cn (write_inner env el cn t b) s")
  with run CWrite have "s' = s1" "r = (case r1 of Inl e \<Rightarrow> Inl e | Inr _ \<Rightarrow> Inr None)"
    by (auto simp: call_run_def pg_write_def abind_def split: sum.splits)
  with call_step [OF c write_triple [OF c] conjI [OF refl assms(2)] p] CWrite show ?thesis
    by (cases r1) (auto simp: pend_after_def ack_of_def)
next
  case (CCommit meta)
  obtain r1 s1 where p: "pg_deliver env cn meta s = (r1, s1)" by (cases "pg_deliver env cn meta s")
  with run CCommit have "s' = s1" "r = (case r1 of Inl e \<Rightarrow> Inl e | Inr x \<Rightarrow> Inr (Some x))"
    by (auto simp: call_run_def abind_def split: sum.splits)
  moreover have "(meta_key meta, pend) \<in> A" using A CCommit by (simp add: attempts_of_def)
  ultimately show ?thesis using deliver_step [OF c assms(2) p] CCommit
    by (cases r1) (auto simp: pend_after_def ack_of_def)
next
  case (CRead pipeline)
  obtain r1 s1 where p: "pg_read_state cn parse pipeline s = (r1, s1)" by (cases "pg_read_state cn parse pipeline s")
  with run CRead have "s' = s1" "r = (case r1 of Inl e \<Rightarrow> Inl e | Inr _ \<Rightarrow> Inr None)"
    by (auto simp: call_run_def abind_def split: sum.splits)
  with read_step [OF c assms(2) p] CRead show ?thesis
    by (cases r1) (auto simp: pend_after_def ack_of_def)
qed

lemma session_run_grows:
  assumes c: "conn_ok cn w" and "inv w pend s" and "session_run env el cn parse cs pend s = (as, acks, s')"
  shows "grows w (set as) (snd s) (snd s') \<and> set acks \<subseteq> ledger (vw_history w (snd s'))"
  using assms(2,3)
proof (induction cs arbitrary: pend s as acks s')
  case (Cons cl cs)
  obtain r s1 where p: "call_run env el cn parse cl s = (r, s1)" by (cases "call_run env el cn parse cl s")
  show ?case
  proof (cases "r = Inl Panicked")
    case True
    with Cons.prems(2) p have "as = attempts_of cl pend" "acks = []" "s' = s1" by auto
    with call_run_step [OF c Cons.prems(1) p, of "set as"] show ?thesis by simp
  next
    case False
    obtain as1 acks1 s2 where rest: "session_run env el cn parse cs (pend_after env el (fst s) cl (\<not> isl r) pend) s1 = (as1, acks1, s2)"
      by (metis prod_cases3)
    with Cons.prems(2) p False have e: "as = attempts_of cl pend @ as1" "acks = ack_of r @ acks1" "s' = s2" by auto
    have step: "grows w (set as) (snd s) (snd s1)" "inv w (pend_after env el (fst s) cl (\<not> isl r) pend) s1"
      "set (ack_of r) \<subseteq> ledger (vw_history w (snd s1))"
      using call_run_step [OF c Cons.prems(1) p, of "set as"] e(1) False by auto
    from Cons.IH [OF step(2) rest] have g: "grows w (set as1) (snd s1) (snd s')" "set acks1 \<subseteq> ledger (vw_history w (snd s'))"
      using e(3) by auto
    from grows_mono [OF g(1), of "set as"] e(1) have "grows w (set as) (snd s1) (snd s')" by auto
    with step(1,3) g(2) e(2) grows_ledger [OF this] show ?thesis by (auto intro: grows_trans)
  qed
qed simp

text \<open>
  C5. A PostgreSQL session delivers exactly once, whatever statements fail, whenever the outcome of
  a COMMIT is lost, and whatever other sessions commit between any two of its statements: each
  transaction it commits either carries no rows and no receipt, or carries the receipt of a unit
  it was asked to commit, which no transaction before it has, with exactly the batches whose
  writes were acknowledged since that unit began, in their order; and every unit acknowledged to
  the engine has its receipt in the committed ledger.
\<close>

theorem session_exactly_once:
  assumes "conn_ok cn w" and "vw_tx w d = TxIdle" and "pl_unit l = None"
    and "session_run env el cn parse calls [] (l, d) = (attempted, acks, (l', d'))"
  shows "\<exists>txs. vw_history w d' = vw_history w d @ txs \<and> accounted (set attempted) (vw_history w d) txs
    \<and> set acks \<subseteq> ledger (vw_history w d')"
  using session_run_grows [OF assms(1) _ assms(4)] assms(2,3) by (auto simp: inv_def grows_def)

section \<open>A unit that failed to begin\<close>

text \<open>
  The server's transaction is aborted, or the connection gone, and the session holds no unit. Its
  error paths then send no \<^verbatim>\<open>ROLLBACK\<close>, and nothing but a \<^verbatim>\<open>ROLLBACK\<close> would help. \<open>idles\<close>: an
  action run there commits nothing and ends there.
\<close>

definition stuck :: "'d pg_view \<Rightarrow> pg_load \<times> 'd \<Rightarrow> bool" where
  "stuck w s \<longleftrightarrow> pl_unit (fst s) = None \<and> vw_tx w (snd s) \<in> {TxAborted, TxLost}"

definition calm :: "'d pg_view \<Rightarrow> 'd \<Rightarrow> 'd \<Rightarrow> bool" where
  "calm w d d' \<longleftrightarrow> (\<exists>es. vw_history w d' = vw_history w d @ map (Pair False) es)"

lemma calm_refl [simp]: "calm w d d"
  by (auto simp: calm_def intro: exI [of _ "[]"])

lemma calm_trans: "calm w d d1 \<Longrightarrow> calm w d1 d' \<Longrightarrow> calm w d d'"
  unfolding calm_def by (metis append_assoc map_append)

lemma moves_calm: "moves w [] d d' \<Longrightarrow> calm w d d'"
  by (auto simp: moves_def calm_def intro: exI [of _ "_ @ _"])

definition idles :: "'d pg_view \<Rightarrow> bool \<Rightarrow> ('d, 'a) pg_action \<Rightarrow> bool" where
  "idles w fails m \<longleftrightarrow> (\<forall>s. stuck w s \<longrightarrow>
     stuck w (snd (m s)) \<and> calm w (snd s) (snd (snd (m s))) \<and> (fails \<longrightarrow> isl (fst (m s))))"

lemma idlesD:
  assumes "idles w fails m" and "stuck w s" and "m s = (r, s')"
  shows "stuck w s' \<and> calm w (snd s) (snd s') \<and> (fails \<longrightarrow> isl r)"
  using assms(1) [unfolded idles_def, THEN spec [of _ s]] assms(2,3) by simp

lemma idlesI:
  "(\<And>s r s'. stuck w s \<Longrightarrow> m s = (r, s') \<Longrightarrow> stuck w s' \<and> calm w (snd s) (snd s') \<and> (fails \<longrightarrow> isl r)) \<Longrightarrow> idles w fails m"
  unfolding idles_def by (metis prod.collapse)

lemma idles_abind:
  assumes "idles w False m" and "\<And>a. idles w False (k a)"
  shows "idles w False (abind m k)"
proof (rule idlesI)
  fix s r s' assume s: "stuck w s" "abind m k s = (r, s')"
  obtain r1 s1 where m: "m s = (r1, s1)" by (cases "m s")
  note 1 = idlesD [OF assms(1) s(1) m]
  show "stuck w s' \<and> calm w (snd s) (snd s') \<and> (False \<longrightarrow> isl r)"
  proof (cases r1)
    case (Inr a)
    with s(2) m have "k a s1 = (r, s')" by (simp add: abind_def)
    with idlesD [OF assms(2) _ this] 1 show ?thesis by (auto intro: calm_trans)
  qed (use 1 s(2) m in \<open>auto simp: abind_def\<close>)
qed

lemma fails_abind:
  assumes "idles w True m"
  shows "idles w True (abind m k)"
proof (rule idlesI)
  fix s r s' assume s: "stuck w s" "abind m k s = (r, s')"
  obtain r1 s1 where m: "m s = (r1, s1)" by (cases "m s")
  from idlesD [OF assms s(1) m] s(2) m show "stuck w s' \<and> calm w (snd s) (snd s') \<and> (True \<longrightarrow> isl r)"
    by (cases r1) (auto simp: abind_def)
qed

lemma idles_weaken: "idles w True m \<Longrightarrow> idles w False m"
  by (simp add: idles_def)

lemma idles_on_self: "(\<And>l. pl_unit l = None \<Longrightarrow> idles w fails (k l)) \<Longrightarrow> idles w fails (on_self k)"
  unfolding idles_def on_self_def stuck_def by blast

lemma idles_pure [simp]: "idles w False (aret a)" "idles w fails (afail e)" "idles w False (alift r')"
  by (simp_all add: idles_def)

lemma fails_on_conn:
  assumes "\<And>d r d'. m d = (r, d') \<Longrightarrow> vw_tx w d \<in> {TxAborted, TxLost} \<Longrightarrow>
    isl r \<and> vw_tx w d' \<in> {TxAborted, TxLost} \<and> calm w d d'"
  shows "idles w True (on_conn f m)"
proof (rule idlesI)
  fix s r s' assume s: "stuck w s" "on_conn f m s = (r, s')"
  obtain r1 d1 where m: "m (snd s) = (r1, d1)" by (cases "m (snd s)")
  with assms [OF m] s show "stuck w s' \<and> calm w (snd s) (snd s') \<and> (True \<longrightarrow> isl r)"
    by (cases r1) (auto simp: on_conn_def stuck_def)
qed

lemma fails_runs: "runs w m s \<Longrightarrow> idles w True (on_conn f m)"
proof (rule fails_on_conn)
  fix d r d' assume a: "runs w m s" "m d = (r, d')" "vw_tx w d \<in> {TxAborted, TxLost}"
  obtain own where o: "moves w own d d'" "ran s (\<not> isl r) (vw_tx w d) (vw_tx w d') own"
    using a(1) [unfolded runs_def, THEN spec [of _ d]] unfolding a(2) prod.case by blast
  with a(3) have "own = []" by auto
  with o a(3) show "isl r \<and> vw_tx w d' \<in> {TxAborted, TxLost} \<and> calm w d d'" by (auto intro: moves_calm)
qed

lemma fails_asks: "asks w m \<Longrightarrow> idles w True (on_conn f m)"
proof (rule fails_on_conn)
  fix d r d' assume a: "asks w m" "m d = (r, d')" "vw_tx w d \<in> {TxAborted, TxLost}"
  have "moves w [] d d'" "asked (\<not> isl r) (vw_tx w d) (vw_tx w d')"
    using a(1) [unfolded asks_def, THEN spec [of _ d]] unfolding a(2) prod.case by blast+
  with a(3) show "isl r \<and> vw_tx w d' \<in> {TxAborted, TxLost} \<and> calm w d d'" by (auto intro: moves_calm)
qed

lemma fails_begin: "conn_ok cn w \<Longrightarrow> idles w True (on_conn f (cn_batch cn UNIT_BEGIN))"
proof (rule fails_on_conn)
  fix d r d' assume "conn_ok cn w" "cn_batch cn UNIT_BEGIN d = (r, d')" and t: "vw_tx w d \<in> {TxAborted, TxLost}"
  from connD(8) [OF this(1,2)] t show "isl r \<and> vw_tx w d' \<in> {TxAborted, TxLost} \<and> calm w d d'"
    by (auto intro: moves_calm)
qed

lemma fails_begin_if_closed: "conn_ok cn w \<Longrightarrow> idles w True (begin_if_closed cn load)"
  unfolding begin_if_closed_def by (rule idles_on_self) (simp add: fails_abind fails_begin)

lemma idles_or_rollback:
  assumes "idles w fails m"
  shows "idles w fails (or_rollback cn m)"
proof (rule idlesI)
  fix s r s' assume s: "stuck w s" "or_rollback cn m s = (r, s')"
  obtain r1 s1 where m: "m s = (r1, s1)" by (cases "m s")
  have 1: "stuck w s1 \<and> calm w (snd s) (snd s1) \<and> (fails \<longrightarrow> isl r1)" by (rule idlesD [OF assms s(1) m])
  then have "unit_rollback cn s1 = s1" by (cases s1) (simp add: unit_rollback_def stuck_def)
  with s(2) m 1 show "stuck w s' \<and> calm w (snd s) (snd s') \<and> (fails \<longrightarrow> isl r)"
    by (cases r1) (auto simp: or_rollback_def split: if_splits)
qed

lemma idles_aeach: "(\<And>x. x \<in> set xs \<Longrightarrow> idles w False (f x)) \<Longrightarrow> idles w False (aeach f xs)"
  by (induction xs) (auto intro: idles_abind)

lemma write_stuck: "conn_ok cn w \<Longrightarrow> idles w True (pg_write env el cn t b)"
  unfolding pg_write_def write_inner_def prepare_for_write_def
  by (intro idles_or_rollback idles_on_self fails_abind fails_begin_if_closed)

lemma deliver_stuck: "conn_ok cn w \<Longrightarrow> idles w True (pg_deliver env cn meta)"
  unfolding pg_deliver_def pg_existing_receipt_def existing_receipt_inner_def
  by (intro fails_abind idles_or_rollback idles_on_self) (simp add: fails_abind fails_begin_if_closed)

lemma read_stuck: "conn_ok cn w \<Longrightarrow> idles w True (pg_read_state cn parse pipeline)"
  unfolding pg_read_state_def by (intro fails_abind fails_asks connD(7))

lemma ensure_stuck:
  assumes "conn_ok cn w"
  shows "idles w False (pg_ensure_table env cn schema mode)"
  unfolding pg_ensure_table_def catalog_ensure_def
proof (intro idles_or_rollback idles_on_self)
  fix l :: pg_load
  let ?ddl = "table_ddl_statements env (pl_pipeline l) schema mode (map_option fst (map_of (pl_tables l) (sch_table schema)))"
  let ?merge = "merge_ensure_statements env (pl_options l) schema mode"
  have batch: "idles w False (on_conn f (cn_batch cn sql))" if "sql \<notin> tx_control" for f sql
    by (rule idles_weaken [OF fails_runs [OF connD(1) [OF assms that]]])
  have lift: "idles w False (abind (alift r) k)" if "\<And>a. r = Inr a \<Longrightarrow> idles w False (k a)"
    for r :: "(dest_error, 'x) result" and k :: "'x \<Rightarrow> ('a, unit) pg_action"
    using that by (cases r) (simp_all add: idles_def abind_def)
  show "idles w False (abind (alift (map_err pg_ddl_failure ?ddl)) (\<lambda>sqls.
       abind (aeach (\<lambda>sql. on_conn (classify_statement DEnsure) (cn_batch cn sql)) sqls) (\<lambda>_.
       abind (alift (map_err pg_ddl_failure ?merge)) (\<lambda>statements.
       abind (aeach (\<lambda>(sql, uix). on_conn (merge_ddl_error (sch_table schema) uix) (cn_batch cn sql)) statements) (\<lambda>_.
       update_self (\<lambda>l. l\<lparr>pl_tables := btree_insert (sch_table schema) (schema, mode) (pl_tables l)\<rparr>))))))"
  proof (rule lift, rule idles_abind, goal_cases)
    case (1 sqls)
    then show ?case by (intro idles_aeach batch) (auto dest: ddl_statements_not_control)
  next
    case (2 sqls u)
    show ?case
    proof (rule lift, rule idles_abind, goal_cases)
      case (1 sts)
      have "idles w False (case x of (sql, uix) \<Rightarrow> on_conn (merge_ddl_error (sch_table schema) uix) (cn_batch cn sql))"
        if "x \<in> set sts" for x
      proof -
        obtain sql uix where x: "x = (sql, uix)" by (cases x)
        have "sql \<notin> tx_control"
          by (rule merge_statements_not_control [of env "pl_options l" schema mode sts sql uix]) (use 1 that x in simp_all)
        with batch x show ?thesis by simp
      qed
      then show ?case by (intro idles_aeach)
    next
      case (2 sts u)
      show ?case by (simp add: idles_def update_self_def stuck_def)
    qed
  qed
qed

lemma call_stuck: "conn_ok cn w \<Longrightarrow> idles w False (call_run env el cn parse c)"
  unfolding call_run_def
  by (cases c) (simp_all, (intro idles_abind idles_pure ensure_stuck idles_weaken [OF write_stuck] idles_weaken [OF deliver_stuck]
    idles_weaken [OF read_stuck]; assumption)+)

lemma commit_stuck: "conn_ok cn w \<Longrightarrow> idles w True (call_run env el cn parse (CCommit meta))"
  by (simp add: call_run_def fails_abind deliver_stuck)

lemma stuck_ack:
  assumes "conn_ok cn w" and "stuck w s" and "call_run env el cn parse c s = (r, s')"
  shows "ack_of r = []"
proof (cases c)
  case (CCommit meta)
  from idlesD [OF commit_stuck [OF assms(1)] assms(2) assms(3) [unfolded CCommit]] show ?thesis
    by (auto simp: ack_of_def isl_def)
qed (use assms(3) in \<open>auto simp: call_run_def ack_of_def abind_def split: prod.splits sum.splits\<close>)

text \<open>
  C7. A unit that fails to begin after its \<^verbatim>\<open>BEGIN\<close> loses the session. When the statement after
  \<^verbatim>\<open>BEGIN\<close> fails, the server has aborted the transaction, and the session, which records a unit
  only at the end of \<open>begin_if_closed\<close>, sends no \<^verbatim>\<open>ROLLBACK\<close>: from then on, whatever it is asked,
  every commit fails, nothing of its own is ever committed, and it stays in that state.
\<close>

theorem failed_begin_wedges:
  assumes "conn_ok cn w" and "begin_if_closed cn (pl_load l) (l, d) = (Inl e, (l1, d1))" and "vw_tx w d1 = TxAborted"
    and "pl_unit l = None"
    and "session_run env el cn parse calls pend (unit_rollback cn (l1, d1)) = (attempted, acks, (l', d'))"
  shows "unit_rollback cn (l1, d1) = (l1, d1) \<and> acks = [] \<and> stuck w (l', d') \<and> calm w d1 d'"
proof -
  have "pl_unit l1 = None"
    using assms(2,4)
    by (auto simp: begin_if_closed_def on_self_def abind_def on_conn_def update_self_def split: prod.splits sum.splits)
  then have start: "unit_rollback cn (l1, d1) = (l1, d1)" "stuck w (l1, d1)"
    using assms(3) by (auto simp: unit_rollback_def stuck_def)
  have "acks = [] \<and> stuck w s' \<and> calm w (snd s) (snd s')"
    if "stuck w s" "session_run env el cn parse calls pend s = (as, acks, s')" for s s' as acks pend
    using that
  proof (induction calls arbitrary: pend s as acks s')
    case (Cons c calls)
    obtain r s1 where p: "call_run env el cn parse c s = (r, s1)" by (cases "call_run env el cn parse c s")
    have 1: "stuck w s1" "calm w (snd s) (snd s1)" "ack_of r = []"
      using idlesD [OF call_stuck [OF assms(1)] Cons.prems(1) p] stuck_ack [OF assms(1) Cons.prems(1) p] by auto
    show ?case
    proof (cases "r = Inl Panicked")
      case False
      obtain as1 acks1 s2 where rest: "session_run env el cn parse calls (pend_after env el (fst s) c (\<not> isl r) pend) s1 = (as1, acks1, s2)"
        by (metis prod_cases3)
      with Cons.prems(2) p False have "acks = ack_of r @ acks1" "s' = s2" by auto
      with Cons.IH [OF 1(1) rest] 1 show ?thesis by (auto intro: calm_trans)
    qed (use Cons.prems(2) p 1 in auto)
  qed simp
  from this [OF start(2)] assms(5) start(1) show ?thesis by auto
qed

section \<open>A unit delivered again\<close>

text \<open>
  \<open>serves up w m\<close>: in a state that satisfies \<open>up\<close> (the relations are there, the server is reachable)
  and whose transaction is not aborted, the call returns and leaves such a state.
\<close>

definition alive :: "pg_tx \<Rightarrow> bool" where
  "alive t \<longleftrightarrow> t = TxIdle \<or> (\<exists>ss. t = TxActive ss)"

definition serves :: "('d \<Rightarrow> bool) \<Rightarrow> 'd pg_view \<Rightarrow> ('d, pg_error, 'a) action \<Rightarrow> bool" where
  "serves up w m \<longleftrightarrow> (\<forall>d. up d \<and> alive (vw_tx w d) \<longrightarrow> (case m d of (r, d') \<Rightarrow> \<not> isl r \<and> up d'))"

lemma servesD: "serves up w m \<Longrightarrow> up d \<Longrightarrow> alive (vw_tx w d) \<Longrightarrow> m d = (r, d') \<Longrightarrow> (\<exists>a. r = Inr a) \<and> up d'"
  unfolding serves_def by (cases r) fastforce+

text \<open>
  A server that is healthy for a delivery: it serves the statements the session issues for these
  batches and this unit; it refuses the unit's receipt only if the ledger has it; and the probe for
  the receipt sees one that is committed.
\<close>

definition healthy ::
    "core_env \<Rightarrow> encode_lib \<Rightarrow> 'd pg_conn \<Rightarrow> 'd pg_view \<Rightarrow> ('d \<Rightarrow> bool) \<Rightarrow> pg_load \<Rightarrow> (string \<times> record_batch) list
      \<Rightarrow> commit_meta \<Rightarrow> bool" where
  "healthy env el cn w up l batches meta \<longleftrightarrow>
     (let receipt = [VText (meta_load meta), VInt (seq_key (meta_seq meta))] in
     (\<forall>sql \<in> {UNIT_BEGIN, UNIT_WORK_MEM, UNIT_COMMIT} \<union> work_batches env l. serves up w (cn_batch cn sql)) \<and>
     (\<forall>(sql, ps) \<in> work_executes. serves up w (cn_execute cn sql ps)) \<and>
     (\<forall>(sql, ps) \<in> work_probes env l. serves up w (cn_exists cn sql ps)) \<and>
     (\<forall>(t, b) \<in> set batches. \<forall>sql chunks. written env el l t b = [SCopy sql chunks] \<longrightarrow>
        serves up w (cn_copy_in cn sql chunks True)) \<and>
     serves up w (cn_count cn load_count_sql [VText (pl_load l)]) \<and>
     serves up w (cn_count cn (receipt_exists_sql dollar) receipt) \<and>
     (\<forall>d. up d \<and> alive (vw_tx w d) \<longrightarrow>
        (case cn_execute cn pg_insert_receipt_sql receipt d of (r, d') \<Rightarrow>
           if isl r then meta_key meta \<in> ledger (vw_history w d) \<union> pending (vw_tx w d) else up d') \<and>
        (\<forall>n d'. cn_count cn (receipt_exists_sql dollar) receipt d = (Inr n, d') \<longrightarrow>
           meta_key meta \<in> ledger (vw_history w d) \<longrightarrow> n > 0)))"

lemma healthyD:
  assumes "healthy env el cn w up l batches meta"
  shows "sql \<in> {UNIT_BEGIN, UNIT_WORK_MEM, UNIT_COMMIT} \<union> work_batches env l \<Longrightarrow> serves up w (cn_batch cn sql)"
    "(sql, ps) \<in> work_executes \<Longrightarrow> serves up w (cn_execute cn sql ps)"
    "(sql, ps) \<in> work_probes env l \<Longrightarrow> serves up w (cn_exists cn sql ps)"
    "(t, b) \<in> set batches \<Longrightarrow> written env el l t b = [SCopy sql chunks] \<Longrightarrow> serves up w (cn_copy_in cn sql chunks True)"
    "serves up w (cn_count cn load_count_sql [VText (pl_load l)])"
    "serves up w (cn_count cn (receipt_exists_sql dollar) [VText (meta_load meta), VInt (seq_key (meta_seq meta))])"
    "up d \<Longrightarrow> alive (vw_tx w d) \<Longrightarrow>
      cn_execute cn pg_insert_receipt_sql [VText (meta_load meta), VInt (seq_key (meta_seq meta))] d = (r, d') \<Longrightarrow>
      (if isl r then meta_key meta \<in> ledger (vw_history w d) \<union> pending (vw_tx w d) else up d')"
    "up d \<Longrightarrow> alive (vw_tx w d) \<Longrightarrow>
      cn_count cn (receipt_exists_sql dollar) [VText (meta_load meta), VInt (seq_key (meta_seq meta))] d = (Inr n, d') \<Longrightarrow>
      meta_key meta \<in> ledger (vw_history w d) \<Longrightarrow> n > 0"
  using assms unfolding healthy_def Let_def by (blast, blast, blast, blast, blast, blast, fastforce, blast)

text \<open>
  \<open>active\<close>: a session at work in an active transaction, with nothing of its own committed since the
  history \<open>h0\<close>. \<open>raced\<close>: since then another session has committed the receipt \<open>k\<close>.
\<close>

definition quiet_since :: "'d pg_view \<Rightarrow> history \<Rightarrow> 'd \<Rightarrow> bool" where
  "quiet_since w h0 d \<longleftrightarrow> (\<exists>es. vw_history w d = h0 @ map (Pair False) es)"

definition raced :: "'d pg_view \<Rightarrow> history \<Rightarrow> string \<times> int \<Rightarrow> 'd \<Rightarrow> bool" where
  "raced w h0 k d \<longleftrightarrow> (\<exists>txs tx. vw_history w d = h0 @ txs \<and> (False, tx) \<in> set txs \<and> k \<in> set (receipts tx))"

definition active :: "'d pg_view \<Rightarrow> ('d \<Rightarrow> bool) \<Rightarrow> history \<Rightarrow> pg_load \<Rightarrow> stmt list \<Rightarrow> pg_load \<times> 'd \<Rightarrow> bool" where
  "active w up h0 l0 pend s \<longleftrightarrow> working w l0 pend s \<and> (\<exists>ss. vw_tx w (snd s) = TxActive ss) \<and> up (snd s) \<and> quiet_since w h0 (snd s)"

definition ready :: "'d pg_view \<Rightarrow> ('d \<Rightarrow> bool) \<Rightarrow> history \<Rightarrow> pg_load \<Rightarrow> stmt list \<Rightarrow> pg_load \<times> 'd \<Rightarrow> bool" where
  "ready w up h0 l0 pend s \<longleftrightarrow> same l0 (fst s) \<and> inv w pend s \<and> alive (vw_tx w (snd s)) \<and> up (snd s) \<and> quiet_since w h0 (snd s)"

lemma active_alive: "active w up h0 l0 pend s \<Longrightarrow> alive (vw_tx w (snd s)) \<and> up (snd s)"
  by (auto simp: active_def alive_def)

lemma active_ready: "active w up h0 l0 pend s \<Longrightarrow> ready w up h0 l0 pend s"
  by (auto simp: active_def working_def ready_def alive_def)

lemma quiet_moves: "moves w [] d d' \<Longrightarrow> quiet_since w h0 d \<Longrightarrow> quiet_since w h0 d'"
  unfolding quiet_since_def by (drule moves_calm) (metis calm_def append_assoc map_append)

lemma raced_quiet: "quiet_since w h0 d \<Longrightarrow> k \<in> ledger (vw_history w d) \<Longrightarrow> k \<notin> ledger h0 \<Longrightarrow> raced w h0 k d"
  by (force simp: quiet_since_def raced_def ledger_def receipts_def)

lemma raced_grows: "grows w A d d' \<Longrightarrow> raced w h0 k d \<Longrightarrow> raced w h0 k d'"
  by (auto simp: grows_def raced_def)

lemma active_runs:
  assumes "runs w m st" and "plain st" and "serves up w m"
  shows "triple w A (active w up h0 l0 pend) (on_conn f m) (\<lambda>_. active w up h0 l0 pend) E"
proof (rule triple_on_conn)
  fix l d r d' assume s: "active w up h0 l0 pend (l, d)" "m d = (r, d')"
  obtain u where r: "r = Inr u" "up d'" using servesD [OF assms(3) _ _ s(2)] active_alive [OF s(1)] by auto
  obtain own where o: "moves w own d d'" "ran st (\<not> isl r) (vw_tx w d) (vw_tx w d') own"
    using assms(1) [unfolded runs_def, THEN spec [of _ d]] unfolding s(2) prod.case by blast
  have "own = []" using s(1) o(2) by (auto simp: active_def)
  with runs_step [OF assms(1,2) _ s(2), of pend l A] s(1) r o quiet_moves [of w d d' h0]
  show "grows w A d d' \<and> (case r of Inl _ \<Rightarrow> E (l, d') | Inr _ \<Rightarrow> active w up h0 l0 pend (l, d'))"
    by (auto simp: active_def working_def)
qed

lemma active_asks:
  assumes "asks w m" and "serves up w m"
  shows "triple w A (active w up h0 l0 pend) (on_conn f m) (\<lambda>_. active w up h0 l0 pend) E"
proof (rule triple_on_conn)
  fix l d r d' assume s: "active w up h0 l0 pend (l, d)" "m d = (r, d')"
  obtain u where r: "r = Inr u" "up d'" using servesD [OF assms(2) _ _ s(2)] active_alive [OF s(1)] by auto
  have o: "moves w [] d d'" "asked (\<not> isl r) (vw_tx w d) (vw_tx w d')"
    using assms(1) [unfolded asks_def, THEN spec [of _ d]] unfolding s(2) prod.case by blast+
  from asks_step [OF assms(1) _ s(2), of pend l A] s(1) r o quiet_moves [OF o(1), of h0]
  show "grows w A d d' \<and> (case r of Inl _ \<Rightarrow> E (l, d') | Inr _ \<Rightarrow> active w up h0 l0 pend (l, d'))"
    by (auto simp: active_def working_def)
qed

lemma active_begin:
  assumes c: "conn_ok cn w" and h: "healthy env el cn w up l0 batches meta"
  shows "triple w A (ready w up h0 l0 pend) (begin_if_closed cn (pl_load l0)) (\<lambda>_. active w up h0 l0 pend) E"
  unfolding begin_if_closed_def
proof (rule triple_on_self)
  fix l :: pg_load
  let ?P = "\<lambda>s. ready w up h0 l0 pend s \<and> fst s = l"
  let ?act = "\<lambda>s. fst s = l \<and> same l0 l \<and> up (snd s) \<and> quiet_since w h0 (snd s)
    \<and> (\<exists>ss. vw_tx w (snd s) = TxActive ss \<and> receipts ss = [] \<and> copies ss = pend)"
  show "triple w A ?P
     (if pl_unit l \<noteq> None then aret ()
      else abind (on_conn (driver_transient DCommit) (cn_batch cn UNIT_BEGIN)) (\<lambda>_.
        abind (on_conn (driver_transient DCommit) (cn_batch cn UNIT_WORK_MEM)) (\<lambda>_.
        abind (on_conn (driver_transient DCommit) (cn_count cn load_count_sql [VText (pl_load l0)])) (\<lambda>n.
        update_self (\<lambda>l. l\<lparr>pl_unit := Some \<lparr>op_load_committed_before = n > 0, op_cleared = {}\<rparr>\<rparr>)))))
     (\<lambda>_. active w up h0 l0 pend) E"
  proof (cases "pl_unit l = None")
    case False
    have "active w up h0 l0 pend s" if "?P s" for s
      using that False by (auto simp: active_def working_def ready_def inv_def alive_def)
    then have "triple w A ?P (aret ()) (\<lambda>_. active w up h0 l0 pend) E" by (intro triple_aret)
    with False show ?thesis by simp
  next
    case True
    have mem: "runs w (cn_batch cn UNIT_WORK_MEM) (SBatch UNIT_WORK_MEM)"
      by (rule connD(1) [OF c]) (simp add: control_texts UNIT_WORK_MEM_def)
    have 1: "triple w A ?P (on_conn f (cn_batch cn UNIT_BEGIN)) (\<lambda>_. ?act) E" for f
    proof (rule triple_on_conn)
      fix l' d r d' assume s: "?P (l', d)" "cn_batch cn UNIT_BEGIN d = (r, d')"
      have sv: "serves up w (cn_batch cn UNIT_BEGIN)" by (rule healthyD(1) [OF h]) simp
      obtain u where r: "r = Inr u" "up d'" using servesD [OF sv _ _ s(2)] s(1) by (auto simp: ready_def)
      have "quiet_since w h0 d'" using connD(8) [OF c s(2)] s(1) quiet_moves by (auto simp: ready_def)
      with begin_step [OF c _ s(2), of pend l' A] s(1) r
      show "grows w A d d' \<and> (case r of Inl _ \<Rightarrow> E (l', d') | Inr _ \<Rightarrow> ?act (l', d'))" by (auto simp: ready_def)
    qed
    have act_alive: "up (snd s) \<and> alive (vw_tx w (snd s))" if "?act s" for s using that by (auto simp: alive_def)
    have 2: "triple w A ?act (on_conn f (cn_batch cn UNIT_WORK_MEM)) (\<lambda>_. ?act) E" for f
    proof (rule triple_on_conn)
      fix l' d r d' assume s: "?act (l', d)" "cn_batch cn UNIT_WORK_MEM d = (r, d')"
      have sv: "serves up w (cn_batch cn UNIT_WORK_MEM)" by (rule healthyD(1) [OF h]) simp
      obtain u where r: "r = Inr u" "up d'" using servesD [OF sv _ _ s(2)] act_alive [OF s(1)] by auto
      obtain own where o: "moves w own d d'" "ran (SBatch UNIT_WORK_MEM) (\<not> isl r) (vw_tx w d) (vw_tx w d') own"
        using mem [unfolded runs_def, THEN spec [of _ d]] unfolding s(2) prod.case by blast
      have "own = []" using s(1) o(2) by auto
      with s(1) r o quiet_moves [of w d d' h0]
      show "grows w A d d' \<and> (case r of Inl _ \<Rightarrow> E (l', d') | Inr _ \<Rightarrow> ?act (l', d'))"
        by (auto intro: moves_none)
    qed
    have 3: "triple w A ?act (on_conn f (cn_count cn load_count_sql [VText (pl_load l0)])) (\<lambda>_. ?act) E" for f
    proof (rule triple_on_conn)
      fix l' d r d' assume s: "?act (l', d)" "cn_count cn load_count_sql [VText (pl_load l0)] d = (r, d')"
      obtain n where r: "r = Inr n" "up d'" using servesD [OF healthyD(5) [OF h] _ _ s(2)] act_alive [OF s(1)] by auto
      have o: "moves w [] d d'" "asked (\<not> isl r) (vw_tx w d) (vw_tx w d')"
        using connD(5) [OF c, of load_count_sql "[VText (pl_load l0)]", unfolded asks_def, THEN spec [of _ d]]
        unfolding s(2) prod.case by blast+
      with s(1) r quiet_moves [OF o(1), of h0]
      show "grows w A d d' \<and> (case r of Inl _ \<Rightarrow> E (l', d') | Inr _ \<Rightarrow> ?act (l', d'))"
        by (auto intro: moves_none)
    qed
    have 4: "triple w A ?act (update_self (\<lambda>l. l\<lparr>pl_unit := Some u\<rparr>)) (\<lambda>_. active w up h0 l0 pend) E" for u
      by (rule triple_update) (auto simp: active_def working_def inv_def)
    show ?thesis using True
      by (simp only: simp_thms if_False not_True_eq_False not_False_eq_True if_True)
        (rule triple_abind [OF 1 triple_abind [OF 2 triple_abind [OF 3 4]]])
  qed
qed

lemma active_supports:
  assumes c: "conn_ok cn w" and h: "healthy env el cn w up l0 batches meta"
  shows "supports env w cn A l0 (active w up h0 l0 pend) E"
  unfolding supports_def
proof (intro conjI allI impI)
  show "triple w A (active w up h0 l0 pend) (on_conn f (cn_batch cn sql)) (\<lambda>_. active w up h0 l0 pend) E"
    if "sql \<in> work_batches env l0" for f sql
    using that by (intro active_runs [OF connD(1) [OF c work_not_control [OF that]]] healthyD(1) [OF h]) (auto simp: plain_def)
  show "triple w A (active w up h0 l0 pend) (on_conn f (cn_execute cn sql ps)) (\<lambda>_. active w up h0 l0 pend) E"
    if "(sql, ps) \<in> work_executes" for f sql ps
  proof (rule active_runs [OF connD(2) [OF c] _ healthyD(2) [OF h that]])
    show "plain (SExecute sql ps)"
      using work_no_receipt [OF that] by (cases "SExecute sql ps" rule: receipt_of.cases) (auto simp: plain_def)
  qed
  show "triple w A (active w up h0 l0 pend) (on_conn f (cn_exists cn sql ps)) (\<lambda>_. active w up h0 l0 pend) E"
    if "(sql, ps) \<in> work_probes env l0" for f sql ps
    by (rule active_asks [OF connD(6) [OF c] healthyD(3) [OF h that]])
  show "active w up h0 l0 pend (g (fst s), snd s)"
    if "active w up h0 l0 pend s" "\<forall>l. same l0 (g l) = same l0 l" "\<forall>l. (pl_unit (g l) = None) = (pl_unit l = None)" for g s
    using that working_update [of l0 g w pend s] by (auto simp: active_def)
qed (auto simp: active_def working_def)

lemma active_receipt:
  assumes c: "conn_ok cn w" and h: "healthy env el cn w up l0 batches meta" and new: "meta_key meta \<notin> ledger h0"
  shows "triple w A (active w up h0 l0 pend)
    (on_conn f (cn_execute cn pg_insert_receipt_sql [VText (meta_load meta), VInt (seq_key (meta_seq meta))]))
    (\<lambda>_ s. stamped w (meta_key meta) pend s \<and> up (snd s)) (\<lambda>s. raced w h0 (meta_key meta) (snd s))"
proof (rule triple_on_conn)
  fix l d r d' assume s: "active w up h0 l0 pend (l, d)"
    "cn_execute cn pg_insert_receipt_sql [VText (meta_load meta), VInt (seq_key (meta_seq meta))] d = (r, d')"
  have step: "grows w A d d' \<and> (case r of Inl _ \<Rightarrow> True | Inr _ \<Rightarrow> stamped w (meta_key meta) pend (l, d'))"
    using tripleD [OF receipt_triple [OF c, of A l0 pend "\<lambda>_. Panicked" "meta_load meta" "seq_key (meta_seq meta)"], of "(l, d)"] s
    by (auto simp: active_def on_conn_def meta_key_def split: sum.splits)
  have law: "if isl r then meta_key meta \<in> ledger (vw_history w d) \<union> pending (vw_tx w d) else up d'"
    using healthyD(7) [OF h _ _ s(2)] active_alive [OF s(1)] by simp
  have "pending (vw_tx w d) = {}"
    using s(1) by (auto simp: active_def working_def inv_def pending_def split: pg_tx.splits)
  then have "raced w h0 (meta_key meta) d" if "isl r"
    using law that s(1) new by (intro raced_quiet) (auto simp: active_def)
  moreover have "raced w h0 (meta_key meta) d \<Longrightarrow> raced w h0 (meta_key meta) d'"
    using step by (intro raced_grows [of w A d d']) simp_all
  ultimately show "grows w A d d' \<and> (case r of Inl _ \<Rightarrow> raced w h0 (meta_key meta) (snd (l, d'))
     | Inr _ \<Rightarrow> stamped w (meta_key meta) pend (l, d') \<and> up (snd (l, d')))"
    using step law by (cases r) auto
qed

lemma active_commit:
  assumes c: "conn_ok cn w" and h: "healthy env el cn w up l0 batches meta" and "(k, pend) \<in> A"
  shows "triple w A (\<lambda>s. stamped w k pend s \<and> up (snd s)) (unit_commit cn) (\<lambda>_. settled w k) E"
proof (rule tripleI)
  fix s r s' assume s: "stamped w k pend s \<and> up (snd s)" "unit_commit cn s = (r, s')"
  have al: "alive (vw_tx w (snd s))" using s(1) by (auto simp: stamped_def alive_def)
  obtain rb d' where b: "cn_batch cn UNIT_COMMIT (snd s) = (rb, d')" by (cases "cn_batch cn UNIT_COMMIT (snd s)")
  have sv: "serves up w (cn_batch cn UNIT_COMMIT)" by (rule healthyD(1) [OF h]) simp
  obtain u where "rb = Inr u" using servesD [OF sv _ al b] s(1) by auto
  moreover have "pl_unit (fst s) \<noteq> None" using s(1) by (simp add: stamped_def)
  ultimately obtain v where "r = Inr v"
    using s(2) b by (auto simp: unit_commit_def abind_def on_conn_def on_self_def update_self_def)
  with tripleD [OF commit_triple [OF c assms(3)] conjunct1 [OF s(1)] s(2)]
  show "grows w A (snd s) (snd s') \<and> (case r of Inl _ \<Rightarrow> E s' | Inr _ \<Rightarrow> settled w k s')"
    by (simp add: settled_def)
qed

text \<open>In the direct mode of this destination a plan's steps always have their statements.\<close>

lemma direct_steps:
  assumes "planned env l0 False script" and "distinct (map fst (pl_tables l0))" and "same l0 l" and "st \<in> set (steps script)"
  shows "\<exists>sqls. pg_step_sql env l st = Inr sqls"
proof -
  from assms(1) obtain ctx where ctx: "\<not> replayed ctx" "full_load ctx = DirectToTarget"
    and plan: "plan_commit env (pl_tables l0) (pl_options l0) ctx = Inr script"
    by (auto simp: planned_def)
  from plan ctx obtain ss ms where loop: "publish_loop env (pl_options l0) ctx (pl_tables l0) = Inr (ss, ms)"
    and st: "steps script = ss @ truncate_steps ctx (pl_tables l0) @ [UpsertState, InsertReceipt]"
    by (auto simp: plan_commit_def rbind_eq_Inr)
  from assms(4) st consider "st \<in> set ss" | t where "st = TruncateStage t" | "st = UpsertState" | "st = InsertReceipt"
    by (auto simp: truncate_steps_iff)
  then show ?thesis
  proof cases
    case 1
    obtain t schema mode ss' ms' where e: "(t, schema, mode) \<in> set (pl_tables l0)"
      "publish_table env (pl_options l0) ctx (t, schema, mode) = Inr (ss', ms')" "st \<in> set ss'"
      by (rule publish_loop_step [OF loop 1])
    have m: "map_of (pl_tables l) t = Some (schema, mode)"
      using e(1) assms(2,3) by (simp add: same_def)
    obtain key where mode: "mode = Merge key"
      using e(2,3) ctx(2) by (cases mode) (auto simp: publish_table_def ctx_uses_stage_def uses_stage_def Let_def)
    with e(2) have "publish_merge (pl_options l0) ctx t (has_identity (facts_of env schema)) = Inr (ss', ms')"
      by (simp add: publish_table_def)
    from publish_merge_steps(1) [OF this] e(3) consider arm where "st = MergeArm t arm" | scope where "st = ScopeReplace t scope" by blast
    then show ?thesis using m mode by cases (simp_all add: pg_merge_sql_def Let_def)
  qed simp_all
qed

text \<open>
  The unit's batches, each with its table, as the engine writes them before the commit; every one
  encodes.
\<close>

definition encodes :: "core_env \<Rightarrow> encode_lib \<Rightarrow> pg_load \<Rightarrow> string \<times> record_batch \<Rightarrow> bool" where
  "encodes env el l = (\<lambda>(t, b). written env el l t b \<noteq> [])"

lemma live_write:
  assumes c: "conn_ok cn w" and h: "healthy env el cn w up l0 batches meta" and enc: "encodes env el l0 (t, b)"
    and tb: "(t, b) \<in> set batches"
  shows "triple w A (ready w up h0 l0 pend) (write_inner env el cn t b)
    (\<lambda>_. ready w up h0 l0 (pend @ written env el l0 t b)) (\<lambda>_. False)"
proof (rule write_supports [OF active_supports [OF c h]])
  show "triple w A (ready w up h0 l0 pend) (begin_if_closed cn (pl_load l)) (\<lambda>_. active w up h0 l0 pend) (\<lambda>_. False)"
    if "same l0 l" for l
    using active_begin [OF c h] that by (simp add: same_def)
  show "same l0 (fst s)" if "ready w up h0 l0 pend s" for s using that by (simp add: ready_def)
  show "triple w A (active w up h0 l0 pend) (on_conn f (cn_copy_in cn sql chunks True))
      (\<lambda>_. ready w up h0 l0 (pend @ written env el l0 t b)) (\<lambda>_. False)"
    if wr: "written env el l t b = [SCopy sql chunks]" "same l0 l" for f l sql chunks
  proof (rule triple_on_conn)
    fix l' d r d' assume s: "active w up h0 l0 pend (l', d)" "cn_copy_in cn sql chunks True d = (r, d')"
    have wr0: "written env el l0 t b = [SCopy sql chunks]" using wr written_same by metis
    obtain u where r: "r = Inr u" "up d'"
      using servesD [OF healthyD(4) [OF h tb wr0] _ _ s(2)] active_alive [OF s(1)] by auto
    obtain own where o: "moves w own d d'" "ran (SCopy sql chunks) (\<not> isl r) (vw_tx w d) (vw_tx w d') own"
      using connD(3) [OF c, of sql chunks, unfolded runs_def, THEN spec [of _ d]] unfolding s(2) prod.case by blast
    have "own = []" using s(1) o(2) by (auto simp: active_def)
    with s(1) r wr0 o quiet_moves [of w d d' h0]
    show "grows w A d d' \<and> (case r of Inl _ \<Rightarrow> False | Inr _ \<Rightarrow> ready w up h0 l0 (pend @ written env el l0 t b) (l', d'))"
      by (auto simp: active_def working_def ready_def inv_def alive_def intro: moves_none)
  qed
  show "written env el l0 t b \<noteq> [] \<or> (\<forall>f sql chunks. triple w A (active w up h0 l0 pend) (on_conn f (cn_copy_in cn sql chunks False))
      (\<lambda>_ _. False) (\<lambda>_. False)) \<and> (\<forall>s. active w up h0 l0 pend s \<longrightarrow> False)"
    using enc by (simp add: encodes_def)
qed

lemma rollback_grows:
  assumes "conn_ok cn w"
  shows "grows w A (snd s) (snd (unit_rollback cn s))"
proof -
  obtain r2 d2 where b: "cn_batch cn UNIT_ROLLBACK (snd s) = (r2, d2)" by (cases "cn_batch cn UNIT_ROLLBACK (snd s)")
  from connD(10) [OF assms b] b show ?thesis by (cases s) (auto simp: unit_rollback_def intro: moves_none)
qed

lemma live_call:
  assumes c: "conn_ok cn w" and t: "triple w A P m Q (\<lambda>s. B \<and> raced w h0 k (snd s))" and "P s" and "or_rollback cn m s = (r, s')"
  shows "grows w A (snd s) (snd s') \<and> (case r of Inl _ \<Rightarrow> B \<and> raced w h0 k (snd s') | Inr a \<Rightarrow> Q a s')"
proof -
  obtain r1 s1 where m: "m s = (r1, s1)" by (cases "m s")
  note step = tripleD [OF t assms(3) m]
  note undo = rollback_grows [OF c, of A s1]
  from step undo m assms(4) raced_grows [OF undo, of h0 k] show ?thesis
    by (cases r1) (auto simp: or_rollback_def intro: grows_trans)
qed

text \<open>
  What the engine and the session have settled before a unit is delivered: the unit is of the
  session's load, its document renders, and the tables, which are distinct, have a plan.
\<close>

definition deliverable :: "core_env \<Rightarrow> pg_load \<Rightarrow> commit_meta \<Rightarrow> bool" where
  "deliverable env l meta \<longleftrightarrow>
     meta_load meta = pl_load l \<and> \<not> isl (meta_doc meta) \<and> distinct (map fst (pl_tables l)) \<and>
     (\<forall>ctx. full_load ctx = DirectToTarget \<longrightarrow> \<not> isl (plan_commit env (pl_tables l) (pl_options l) ctx))"

lemma live_probe:
  assumes c: "conn_ok cn w" and h: "healthy env el cn w up l0 batches meta" and load: "meta_load meta = pl_load l0"
  shows "triple w A (ready w up h0 l0 pend) (existing_receipt_inner cn (meta_load meta) (meta_seq meta))
    (\<lambda>found s. active w up h0 l0 pend s \<and>
       (case found of None \<Rightarrow> meta_key meta \<notin> ledger h0
        | Some receipt \<Rightarrow> receipt = (meta_load meta, meta_seq meta) \<and> meta_key meta \<in> ledger (vw_history w (snd s)))) (\<lambda>_. False)"
  unfolding existing_receipt_inner_def
proof (rule triple_on_self)
  fix l :: pg_load
  let ?ps = "[VText (meta_load meta), VInt (seq_key (meta_seq meta))]"
  let ?R = "\<lambda>n s. active w up h0 l0 pend s \<and> (if n > 0 then meta_key meta \<in> ledger (vw_history w (snd s)) else meta_key meta \<notin> ledger h0)"
  have probe: "triple w A (active w up h0 l0 pend) (on_conn f (cn_count cn (receipt_exists_sql dollar) ?ps)) ?R (\<lambda>_. False)" for f
  proof (rule triple_on_conn)
    fix l' d r d' assume s: "active w up h0 l0 pend (l', d)" "cn_count cn (receipt_exists_sql dollar) ?ps d = (r, d')"
    have al: "up d" "alive (vw_tx w d)" using active_alive [OF s(1)] by auto
    obtain n where r: "r = Inr n" "up d'" using servesD [OF healthyD(6) [OF h] al s(2)] by auto
    have o: "moves w [] d d'" "asked (\<not> isl r) (vw_tx w d) (vw_tx w d')"
      using connD(5) [OF c, of "receipt_exists_sql dollar" ?ps, unfolded asks_def, THEN spec [of _ d]]
      unfolding s(2) prod.case by blast+
    have act: "active w up h0 l0 pend (l', d')"
      using s(1) r o quiet_moves [OF o(1), of h0] by (auto simp: active_def working_def inv_def)
    have seen: "meta_key meta \<in> ledger (vw_history w d') \<union> pending (vw_tx w d')" if "n > 0"
      using c s(2) r(1) that unfolding conn_ok_def receipts_ok_def meta_key_def by blast
    have none: "pending (vw_tx w d') = {}"
      using act by (auto simp: active_def working_def inv_def pending_def split: pg_tx.splits)
    have "meta_key meta \<notin> ledger (vw_history w d)" if "\<not> n > 0"
      using healthyD(8) [OF h al s(2) [unfolded r(1)]] that by blast
    moreover have "ledger h0 \<subseteq> ledger (vw_history w d)" using s(1) by (auto simp: active_def quiet_since_def)
    ultimately show "grows w A d d' \<and> (case r of Inl _ \<Rightarrow> False | Inr n \<Rightarrow> ?R n (l', d'))"
      using act seen none r(1) o(1) by (auto intro: moves_none)
  qed
  have ret: "triple w A (?R n) (aret (if n > 0 then Some (meta_load meta, meta_seq meta) else None))
      (\<lambda>found s. active w up h0 l0 pend s \<and>
         (case found of None \<Rightarrow> meta_key meta \<notin> ledger h0
          | Some receipt \<Rightarrow> receipt = (meta_load meta, meta_seq meta) \<and> meta_key meta \<in> ledger (vw_history w (snd s)))) (\<lambda>_. False)"
    for n :: int
    by (rule triple_aret) (auto split: if_splits)
  let ?run = "\<lambda>l. if meta_load meta \<noteq> pl_load l
       then afail (dest_fatal DCommit (''internal: session opened for load '' @ bq (pl_load l) @ '' asked to commit load '' @ bq (meta_load meta)))
       else abind (begin_if_closed cn (pl_load l)) (\<lambda>_.
        abind (on_conn (driver_transient DCommit) (cn_count cn (receipt_exists_sql dollar) ?ps))
         (\<lambda>n. aret (if n > 0 then Some (meta_load meta, meta_seq meta) else None)))"
  have run: "triple w A (ready w up h0 l0 pend) (?run l0)
      (\<lambda>found s. active w up h0 l0 pend s \<and>
         (case found of None \<Rightarrow> meta_key meta \<notin> ledger h0
          | Some receipt \<Rightarrow> receipt = (meta_load meta, meta_seq meta) \<and> meta_key meta \<in> ledger (vw_history w (snd s)))) (\<lambda>_. False)"
    using triple_abind [OF active_begin [OF c h] triple_abind [OF probe ret]] load by simp
  show "triple w A (\<lambda>s. ready w up h0 l0 pend s \<and> fst s = l) (?run l)
      (\<lambda>found s. active w up h0 l0 pend s \<and>
         (case found of None \<Rightarrow> meta_key meta \<notin> ledger h0
          | Some receipt \<Rightarrow> receipt = (meta_load meta, meta_seq meta) \<and> meta_key meta \<in> ledger (vw_history w (snd s)))) (\<lambda>_. False)"
  proof (cases "same l0 l")
    case True
    then have "pl_load l = pl_load l0" by (simp add: same_def)
    with run show ?thesis by (auto intro: triple_weaken)
  next
    case False
    then have "\<not> (ready w up h0 l0 pend s \<and> fst s = l)" for s by (auto simp: ready_def)
    then show ?thesis by (rule triple_absurd)
  qed
qed

lemma live_publish:
  assumes c: "conn_ok cn w" and h: "healthy env el cn w up l0 batches meta" and d: "deliverable env l0 meta"
    and "(meta_key meta, pend) \<in> A" and new: "meta_key meta \<notin> ledger h0"
  shows "triple w A (active w up h0 l0 pend) (publish_inner env cn meta) (\<lambda>_. settled w (meta_key meta))
    (\<lambda>s. raced w h0 (meta_key meta) (snd s))"
proof (rule publish_supports [OF active_supports [OF c h]])
  show "triple w A (active w up h0 l0 pend)
      (on_conn f (cn_execute cn pg_insert_receipt_sql [VText (meta_load meta), VInt (seq_key (meta_seq meta))]))
      (\<lambda>_ s. stamped w (meta_key meta) pend s \<and> up (snd s)) (\<lambda>s. raced w h0 (meta_key meta) (snd s))" for f
    by (rule active_receipt [OF c h new])
  show "triple w A (\<lambda>s. stamped w (meta_key meta) pend s \<and> up (snd s)) (unit_commit cn) (\<lambda>_. settled w (meta_key meta))
      (\<lambda>s. raced w h0 (meta_key meta) (snd s))"
    by (rule active_commit [OF c h assms(4)])
  have tables: "distinct (map fst (pl_tables l0))" using d by (simp add: deliverable_def)
  show "\<forall>s. active w up h0 l0 pend s \<longrightarrow> raced w h0 (meta_key meta) (snd s)"
    if "planned env l0 False script" "st \<in> set (steps script)" "same l0 l" "pg_step_sql env l st = Inl e" for script st l e
    using direct_steps [OF that(1) tables that(3,2)] that(4) by auto
qed (use d in \<open>fastforce simp: deliverable_def\<close>)+

lemma live_replay:
  assumes c: "conn_ok cn w" and h: "healthy env el cn w up l0 batches meta" and d: "deliverable env l0 meta"
    and s: "active w up h0 l0 pend s" "or_rollback cn (replay_inner env cn) s = (r, s')"
  shows "r = Inr ()"
proof -
  obtain r1 l1 d1 where p: "planned_script env cn True s = (r1, (l1, d1))" by (metis surj_pair)
  have fails: "\<forall>s. active w up h0 l0 pend s \<longrightarrow> False"
    if "full_load ctx = DirectToTarget" "plan_commit env (pl_tables l0) (pl_options l0) ctx = Inl e" for ctx e
    using d that by (fastforce simp: deliverable_def)
  have "triple w UNIV (active w up h0 l0 pend) (planned_script env cn True)
      (\<lambda>script s. active w up h0 l0 pend s \<and> planned env l0 True script) (\<lambda>_. False)"
    by (rule plan_triple [OF active_supports [OF c h]]) (rule fails)
  from tripleD [OF this s(1) p] obtain script where "r1 = Inr script" by (cases r1) auto
  with s(2) p show ?thesis by (auto simp: or_rollback_def replay_inner_def abind_def update_self_def split: prod.splits)
qed

lemma live_deliver:
  assumes c: "conn_ok cn w" and h: "healthy env el cn w up l0 batches meta" and d: "deliverable env l0 meta"
    and s: "ready w up h0 l0 pend s" "pg_deliver env cn meta s = (r, s')"
  shows "meta_key meta \<in> ledger (vw_history w (snd s')) \<and>
    (r = Inr (meta_load meta, meta_seq meta) \<or> raced w h0 (meta_key meta) (snd s'))"
proof -
  have load: "meta_load meta = pl_load l0" using d by (simp add: deliverable_def)
  let ?A = "{(meta_key meta, pend)}"
  have in_ledger: "meta_key meta \<in> ledger (vw_history w d)" if "raced w h0 (meta_key meta) d" for d
    using that by (force simp: raced_def ledger_def receipts_def)
  obtain r1 s1 where e: "or_rollback cn (existing_receipt_inner cn (meta_load meta) (meta_seq meta)) s = (r1, s1)"
    by (cases "or_rollback cn (existing_receipt_inner cn (meta_load meta) (meta_seq meta)) s")
  have "triple w ?A (ready w up h0 l0 pend) (existing_receipt_inner cn (meta_load meta) (meta_seq meta))
    (\<lambda>found s. active w up h0 l0 pend s \<and>
       (case found of None \<Rightarrow> meta_key meta \<notin> ledger h0
        | Some receipt \<Rightarrow> receipt = (meta_load meta, meta_seq meta) \<and> meta_key meta \<in> ledger (vw_history w (snd s))))
    (\<lambda>s. False \<and> raced w h0 (meta_key meta) (snd s))"
    by (rule triple_weaken [OF live_probe [OF c h load]]) auto
  note probe = live_call [OF c this s(1) e]
  then obtain found where r1: "r1 = Inr found" by (cases r1) auto
  with probe have work: "active w up h0 l0 pend s1"
    and found: "case found of None \<Rightarrow> meta_key meta \<notin> ledger h0
        | Some receipt \<Rightarrow> receipt = (meta_load meta, meta_seq meta) \<and> meta_key meta \<in> ledger (vw_history w (snd s1))" by auto
  show ?thesis
  proof (cases found)
    case None
    with s(2) e r1 have p: "or_rollback cn (publish_inner env cn meta) s1 = (r, s')"
      by (simp add: pg_deliver_def pg_existing_receipt_def abind_def pg_publish_def)
    have new: "meta_key meta \<notin> ledger h0" using found None by simp
    have "triple w ?A (active w up h0 l0 pend) (publish_inner env cn meta) (\<lambda>_. settled w (meta_key meta))
        (\<lambda>s. True \<and> raced w h0 (meta_key meta) (snd s))"
      using live_publish [OF c h d, of pend ?A h0] new by simp
    note step = live_call [OF c this work p]
    have "(load, seq) = (meta_load meta, meta_seq meta)" if "r = Inr (load, seq)" for load seq
      using p that by (auto simp: or_rollback_def publish_inner_def abind_Inr split: prod.splits sum.splits)
    with step in_ledger show ?thesis by (cases r) (auto simp: settled_def)
  next
    case (Some receipt)
    obtain r2 s2 where p: "or_rollback cn (replay_inner env cn) s1 = (r2, s2)" by (cases "or_rollback cn (replay_inner env cn) s1")
    have r2: "r2 = Inr ()" by (rule live_replay [OF c h d work p])
    then have "r = Inr receipt" "s' = s2" using s(2) e r1 Some p
      by (auto simp: pg_deliver_def pg_existing_receipt_def abind_def pg_replay_def)
    moreover have "working w l0 pend s1 \<and> meta_key meta \<in> ledger (vw_history w (snd s1))"
      using work found Some by (simp add: active_def)
    from call_step [OF c replay_triple [OF c] this p] r2 have "meta_key meta \<in> ledger (vw_history w (snd s2))" by simp
    ultimately show ?thesis using found Some by simp
  qed
qed

text \<open>The rows of a unit: one COPY per batch, in the order written.\<close>

definition unit_rows :: "core_env \<Rightarrow> encode_lib \<Rightarrow> pg_load \<Rightarrow> (string \<times> record_batch) list \<Rightarrow> stmt list" where
  "unit_rows env el l batches = concat (map (\<lambda>(t, b). written env el l t b) batches)"

lemma live_session:
  assumes c: "conn_ok cn w" and h: "healthy env el cn w up l0 batches meta" and d: "deliverable env l0 meta"
  shows "list_all (encodes env el l0) bs \<Longrightarrow> set bs \<subseteq> set batches \<Longrightarrow> ready w up h0 l0 pend s \<Longrightarrow>
    session_run env el cn parse (map (\<lambda>(t, b). CWrite t b) bs @ [CCommit meta]) pend s = (as, acks, s') \<Longrightarrow>
    as = [(meta_key meta, pend @ unit_rows env el l0 bs)] \<and> meta_key meta \<in> ledger (vw_history w (snd s')) \<and>
    (acks = [meta_key meta] \<or> raced w h0 (meta_key meta) (snd s'))"
proof (induction bs arbitrary: pend s as acks)
  case Nil
  obtain r s1 where p: "pg_deliver env cn meta s = (r, s1)" by (cases "pg_deliver env cn meta s")
  have "s' = s1" "as = [(meta_key meta, pend)]" "r = Inr (meta_load meta, meta_seq meta) \<longrightarrow> acks = [meta_key meta]"
    using Nil.prems(4) p
    by (auto simp: call_run_def abind_def attempts_of_def ack_of_def meta_key_def split: sum.splits if_splits prod.splits)
  with live_deliver [OF c h d Nil.prems(3) p] show ?case by (auto simp: unit_rows_def)
next
  case (Cons tb bs)
  obtain t b where tb: "tb = (t, b)" by (cases tb)
  obtain r1 s1 where p: "or_rollback cn (write_inner env el cn t b) s = (r1, s1)" by (cases "or_rollback cn (write_inner env el cn t b) s")
  have enc: "encodes env el l0 (t, b)" "list_all (encodes env el l0) bs" and tb_in: "(t, b) \<in> set batches" "set bs \<subseteq> set batches"
    using Cons.prems(1,2) tb by simp_all
  have "triple w UNIV (ready w up h0 l0 pend) (write_inner env el cn t b) (\<lambda>_. ready w up h0 l0 (pend @ written env el l0 t b))
      (\<lambda>s. False \<and> raced w h0 (meta_key meta) (snd s))"
    by (rule triple_weaken [OF live_write [OF c h enc(1) tb_in(1)]]) auto
  note step = live_call [OF c this Cons.prems(3) p]
  then obtain u where r1: "r1 = Inr u" by (cases r1) auto
  let ?cs = "map (\<lambda>(t, b). CWrite t b) bs @ [CCommit meta]"
  have run: "call_run env el cn parse (CWrite t b) s = (Inr None, s1)"
    using p r1 by (simp add: call_run_def pg_write_def abind_def)
  have same: "same l0 (fst s)" using Cons.prems(3) by (simp add: ready_def)
  have ready: "ready w up h0 l0 (pend @ written env el l0 t b) s1" using step r1 by simp
  have "session_run env el cn parse ?cs (pend @ written env el l0 t b) s1 = (as, acks, s')"
    using Cons.prems(4) tb run written_same [OF same, of env el t b]
    by (auto simp: attempts_of_def ack_of_def pend_after_def split: prod.splits)
  from Cons.IH [OF enc(2) tb_in(2) ready this] tb show ?case by (simp add: unit_rows_def)
qed

lemma accounted_own:
  "accounted A h txs \<Longrightarrow> (True, tx) \<in> set txs \<Longrightarrow>
    receipts tx = [] \<and> copies tx = [] \<or> (\<exists>k. receipts tx = [k] \<and> (k, copies tx) \<in> A \<and> k \<notin> ledger h)"
proof (induction A h txs rule: accounted.induct)
  case (2 A h own tx' txs)
  then show ?case by (auto simp: owned_def)
qed simp


end
