(* ===== verification/Pg_Output.thy ===== *)
theory Pg_Output
  imports Pg_Bytes
begin

text \<open>
  \<^verbatim>\<open>source/cdc/pgoutput.rs\<close>: the parser of logical replication messages, over a reader that
  keeps its position in the message. A \<open>usize\<close> is a natural number: no slice is as long as
  the address space, so the position never wraps.
\<close>

section \<open>Messages\<close>

datatype tuple_value = TNull | TUnchangedToast | TText string

type_synonym tuple_data = "tuple_value list"

record relation =
  r_id :: nat
  r_namespace :: string
  r_name :: string
  r_columns :: "string list"

datatype message =
    MBegin
  | MCommit
  | MRelation relation
  | MInsert nat tuple_data
  | MUpdate nat "tuple_data option" tuple_data
  | MDelete nat tuple_data
  | MTruncate "nat list"
  | MOrigin
  | MType

section \<open>The reader\<close>

record reader =
  bytes :: string
  position :: nat

type_synonym parse_error = string

type_synonym 'a parsed = "(parse_error, 'a \<times> reader) result"

definition take_bytes :: "nat \<Rightarrow> reader \<Rightarrow> string parsed" where
  "take_bytes count r =
     (let end = position r + count in
      if end \<le> length (bytes r)
      then Inr (take count (drop (position r) (bytes r)), r\<lparr>position := end\<rparr>)
      else Inl ''message truncated'')"

definition read_u8 :: "reader \<Rightarrow> char parsed" where
  "read_u8 r = rbind (take_bytes 1 r) (\<lambda>(w, r). Inr (w ! 0, r))"

definition read_u16 :: "reader \<Rightarrow> nat parsed" where
  "read_u16 r = rbind (take_bytes 2 r) (\<lambda>(w, r). Inr (from_be w, r))"

definition read_u32 :: "reader \<Rightarrow> nat parsed" where
  "read_u32 r = rbind (take_bytes 4 r) (\<lambda>(w, r). Inr (from_be w, r))"

definition read_i32 :: "reader \<Rightarrow> int parsed" where
  "read_i32 r = rbind (take_bytes 4 r) (\<lambda>(w, r). Inr (signed_of 32 (from_be w), r))"

definition read_u64 :: "reader \<Rightarrow> nat parsed" where
  "read_u64 r = rbind (take_bytes 8 r) (\<lambda>(w, r). Inr (from_be w, r))"

abbreviation nul :: char where "nul \<equiv> CHR 0x00"

definition c_string :: "reader \<Rightarrow> string parsed" where
  "c_string r =
     (let rest = drop (position r) (bytes r) in
      case split_once nul rest of
        None \<Rightarrow> Inl ''unterminated string''
      | Some (text, _) \<Rightarrow>
          (case from_utf8 text of
             None \<Rightarrow> Inl ''non-UTF8 identifier''
           | Some s \<Rightarrow> Inr (s, r\<lparr>position := position r + (length text + 1)\<rparr>)))"

definition is_done :: "reader \<Rightarrow> bool" where
  "is_done r \<longleftrightarrow> position r = length (bytes r)"

text \<open>\<open>for _ in 0..n { xs.push(item()?) }\<close>\<close>

fun repeated :: "(reader \<Rightarrow> 'a parsed) \<Rightarrow> nat \<Rightarrow> reader \<Rightarrow> 'a list parsed" where
  "repeated item 0 r = Inr ([], r)"
| "repeated item (Suc n) r =
     rbind (item r) (\<lambda>(x, r). rbind (repeated item n r) (\<lambda>(xs, r). Inr (x # xs, r)))"

section \<open>Parsing\<close>

definition tuple_value_of :: "reader \<Rightarrow> tuple_value parsed" where
  "tuple_value_of r = rbind (read_u8 r) (\<lambda>(kind, r).
     if kind = CHR ''n'' then Inr (TNull, r)
     else if kind = CHR ''u'' then Inr (TUnchangedToast, r)
     else if kind = CHR ''t'' then
       rbind (read_u32 r) (\<lambda>(len, r). rbind (take_bytes len r) (\<lambda>(w, r). Inr (TText w, r)))
     else if kind = CHR ''b'' then Inl ''binary tuple value (unrequested option)''
     else Inl (''unknown tuple value kind '' @ byte_hex kind))"

definition read_tuple :: "reader \<Rightarrow> tuple_data parsed" where
  "read_tuple r = rbind (read_u16 r) (\<lambda>(count, r).
     if count > length (bytes r) then Inl ''tuple column count exceeds message''
     else repeated tuple_value_of count r)"

definition relation_column :: "reader \<Rightarrow> string parsed" where
  "relation_column r =
     rbind (read_u8 r) (\<lambda>(_, r). rbind (c_string r) (\<lambda>(name, r).
     rbind (read_u32 r) (\<lambda>(_, r). rbind (read_i32 r) (\<lambda>(_, r). Inr (name, r)))))"

definition parse_begin :: "reader \<Rightarrow> message parsed" where
  "parse_begin r = rbind (read_u64 r) (\<lambda>(_, r). rbind (read_u64 r) (\<lambda>(_, r).
     rbind (read_u32 r) (\<lambda>(_, r). Inr (MBegin, r))))"

definition parse_commit :: "reader \<Rightarrow> message parsed" where
  "parse_commit r = rbind (read_u8 r) (\<lambda>(_, r). rbind (read_u64 r) (\<lambda>(_, r).
     rbind (read_u64 r) (\<lambda>(_, r). rbind (read_u64 r) (\<lambda>(_, r). Inr (MCommit, r)))))"

definition parse_origin :: "reader \<Rightarrow> message parsed" where
  "parse_origin r = rbind (read_u64 r) (\<lambda>(_, r). rbind (c_string r) (\<lambda>(_, r). Inr (MOrigin, r)))"

definition parse_relation :: "reader \<Rightarrow> message parsed" where
  "parse_relation r =
     rbind (read_u32 r) (\<lambda>(rid, r). rbind (c_string r) (\<lambda>(namespace, r).
     rbind (c_string r) (\<lambda>(name, r). rbind (read_u8 r) (\<lambda>(_, r). rbind (read_u16 r) (\<lambda>(count, r).
       if count > length (bytes r) then Inl ''relation column count exceeds message''
       else rbind (repeated relation_column count r) (\<lambda>(cols, r).
         Inr (MRelation \<lparr>r_id = rid, r_namespace = namespace, r_name = name, r_columns = cols\<rparr>, r)))))))"

definition parse_type :: "reader \<Rightarrow> message parsed" where
  "parse_type r = rbind (read_u32 r) (\<lambda>(_, r). rbind (c_string r) (\<lambda>(_, r).
     rbind (c_string r) (\<lambda>(_, r). Inr (MType, r))))"

definition parse_insert :: "reader \<Rightarrow> message parsed" where
  "parse_insert r = rbind (read_u32 r) (\<lambda>(rel, r). rbind (read_u8 r) (\<lambda>(marker, r).
     if marker = CHR ''N'' then rbind (read_tuple r) (\<lambda>(new, r). Inr (MInsert rel new, r))
     else Inl (''insert: expected 'N', got '' @ byte_hex marker)))"

definition parse_update :: "reader \<Rightarrow> message parsed" where
  "parse_update r = rbind (read_u32 r) (\<lambda>(rel, r). rbind (read_u8 r) (\<lambda>(marker, r).
     if marker = CHR ''K'' \<or> marker = CHR ''O'' then
       rbind (read_tuple r) (\<lambda>(old, r). rbind (read_u8 r) (\<lambda>(again, r).
         if again = CHR ''N'' then rbind (read_tuple r) (\<lambda>(new, r). Inr (MUpdate rel (Some old) new, r))
         else Inl (''update: expected 'N', got '' @ byte_hex again)))
     else if marker = CHR ''N'' then rbind (read_tuple r) (\<lambda>(new, r). Inr (MUpdate rel None new, r))
     else Inl (''update: unknown marker '' @ byte_hex marker)))"

definition parse_delete :: "reader \<Rightarrow> message parsed" where
  "parse_delete r = rbind (read_u32 r) (\<lambda>(rel, r). rbind (read_u8 r) (\<lambda>(marker, r).
     if marker = CHR ''K'' \<or> marker = CHR ''O''
     then rbind (read_tuple r) (\<lambda>(old, r). Inr (MDelete rel old, r))
     else Inl (''delete: unknown marker '' @ byte_hex marker)))"

definition parse_truncate :: "reader \<Rightarrow> message parsed" where
  "parse_truncate r = rbind (read_u32 r) (\<lambda>(count, r).
     if count > length (bytes r) then Inl ''truncate relation count exceeds message''
     else rbind (read_u8 r) (\<lambda>(_, r).
       rbind (repeated read_u32 count r) (\<lambda>(rels, r). Inr (MTruncate rels, r))))"

definition parse_body :: "char \<Rightarrow> reader \<Rightarrow> message parsed" where
  "parse_body tag r =
     (if tag = CHR ''B'' then parse_begin r
      else if tag = CHR ''C'' then parse_commit r
      else if tag = CHR ''O'' then parse_origin r
      else if tag = CHR ''R'' then parse_relation r
      else if tag = CHR ''Y'' then parse_type r
      else if tag = CHR ''I'' then parse_insert r
      else if tag = CHR ''U'' then parse_update r
      else if tag = CHR ''D'' then parse_delete r
      else if tag = CHR ''T'' then parse_truncate r
      else Inl (''unknown message tag '' @ byte_hex tag))"

definition parse_message :: "string \<Rightarrow> (parse_error, message) result" where
  "parse_message bs =
     rbind (read_u8 \<lparr>bytes = bs, position = 0\<rparr>) (\<lambda>(tag, r).
     rbind (parse_body tag r) (\<lambda>(m, r).
       if is_done r then Inr m else Inl ''trailing bytes after message''))"

section \<open>The wire grammar\<close>

text \<open>The message formats of the protocol, fields the parser skips left open.\<close>

definition fits :: "nat \<Rightarrow> nat \<Rightarrow> bool" where
  "fits k n \<longleftrightarrow> n < 256 ^ k"

definition ident :: "string \<Rightarrow> bool" where
  "ident s \<longleftrightarrow> utf8_ok s \<and> nul \<notin> set s"

fun value_bytes :: "tuple_value \<Rightarrow> string" where
  "value_bytes TNull = ''n''"
| "value_bytes TUnchangedToast = ''u''"
| "value_bytes (TText w) = ''t'' @ to_be 4 (length w) @ w"

fun value_fits :: "tuple_value \<Rightarrow> bool" where
  "value_fits (TText w) \<longleftrightarrow> fits 4 (length w)"
| "value_fits v \<longleftrightarrow> True"

definition tuple_bytes :: "tuple_data \<Rightarrow> string" where
  "tuple_bytes t = to_be 2 (length t) @ concat (map value_bytes t)"

definition tuple_fits :: "tuple_data \<Rightarrow> bool" where
  "tuple_fits t \<longleftrightarrow> fits 2 (length t) \<and> list_all value_fits t"

definition column_wire :: "string \<Rightarrow> string \<Rightarrow> bool" where
  "column_wire name w \<longleftrightarrow>
     (\<exists>flags types. ident name \<and> length types = 8 \<and> w = [flags] @ name @ [nul] @ types)"

definition old_marker :: "char \<Rightarrow> bool" where
  "old_marker c \<longleftrightarrow> c = CHR ''K'' \<or> c = CHR ''O''"

inductive message_wire :: "message \<Rightarrow> string \<Rightarrow> bool" where
  begin_wire: "length w = 20 \<Longrightarrow> message_wire MBegin (''B'' @ w)"
| commit_wire: "length w = 25 \<Longrightarrow> message_wire MCommit (''C'' @ w)"
| origin_wire: "length w = 8 \<Longrightarrow> ident name \<Longrightarrow> message_wire MOrigin (''O'' @ w @ name @ [nul])"
| relation_wire:
    "fits 4 (r_id rel) \<Longrightarrow> ident (r_namespace rel) \<Longrightarrow> ident (r_name rel)
     \<Longrightarrow> fits 2 (length (r_columns rel)) \<Longrightarrow> list_all2 column_wire (r_columns rel) ws
     \<Longrightarrow> message_wire (MRelation rel)
           (''R'' @ to_be 4 (r_id rel) @ (r_namespace rel @ [nul]) @ (r_name rel @ [nul]) @ [identity]
            @ to_be 2 (length (r_columns rel)) @ concat ws)"
| type_wire: "length w = 4 \<Longrightarrow> ident ns \<Longrightarrow> ident name
     \<Longrightarrow> message_wire MType (''Y'' @ w @ (ns @ [nul]) @ name @ [nul])"
| insert_wire: "fits 4 rel \<Longrightarrow> tuple_fits new
     \<Longrightarrow> message_wire (MInsert rel new) (''I'' @ to_be 4 rel @ ''N'' @ tuple_bytes new)"
| update_wire: "fits 4 rel \<Longrightarrow> tuple_fits new
     \<Longrightarrow> message_wire (MUpdate rel None new) (''U'' @ to_be 4 rel @ ''N'' @ tuple_bytes new)"
| update_old_wire: "fits 4 rel \<Longrightarrow> old_marker marker \<Longrightarrow> tuple_fits old \<Longrightarrow> tuple_fits new
     \<Longrightarrow> message_wire (MUpdate rel (Some old) new)
           (''U'' @ to_be 4 rel @ [marker] @ tuple_bytes old @ ''N'' @ tuple_bytes new)"
| delete_wire: "fits 4 rel \<Longrightarrow> old_marker marker \<Longrightarrow> tuple_fits old
     \<Longrightarrow> message_wire (MDelete rel old) (''D'' @ to_be 4 rel @ [marker] @ tuple_bytes old)"
| truncate_wire: "fits 4 (length rels) \<Longrightarrow> list_all (fits 4) rels
     \<Longrightarrow> message_wire (MTruncate rels)
           (''T'' @ to_be 4 (length rels) @ [flags] @ concat (map (to_be 4) rels))"

inductive_simps message_wire_simps:
  "message_wire MBegin bs" "message_wire MCommit bs" "message_wire MOrigin bs"
  "message_wire (MRelation rel) bs" "message_wire MType bs" "message_wire (MInsert rel new) bs"
  "message_wire (MUpdate rel old new) bs" "message_wire (MDelete rel old) bs"
  "message_wire (MTruncate rels) bs"

section \<open>A parser reads a grammar\<close>

text \<open>
  \<open>spans r w r'\<close>: from \<open>r\<close>, the next bytes are \<open>w\<close> and \<open>r'\<close> stands behind them.
  \<open>reads p E\<close>: \<open>p\<close> returns \<open>a\<close> exactly when it stands before bytes \<open>w\<close> with \<open>E a w\<close>,
  and it consumes them.
\<close>

definition inside :: "reader \<Rightarrow> bool" where
  "inside r \<longleftrightarrow> position r \<le> length (bytes r)"

definition spans :: "reader \<Rightarrow> string \<Rightarrow> reader \<Rightarrow> bool" where
  "spans r w r' \<longleftrightarrow> inside r \<and> r' = r\<lparr>position := position r + length w\<rparr>
     \<and> (\<exists>t. drop (position r) (bytes r) = w @ t)"

definition reads :: "(reader \<Rightarrow> 'a parsed) \<Rightarrow> ('a \<Rightarrow> string \<Rightarrow> bool) \<Rightarrow> bool" where
  "reads p E \<longleftrightarrow> (\<forall>r. inside r \<longrightarrow> (\<forall>a r'. p r = Inr (a, r') \<longleftrightarrow> (\<exists>w. E a w \<and> spans r w r')))"

named_theorems reads_intros \<open>what the parsers read\<close>

lemma readsI: "(\<And>r a r'. inside r \<Longrightarrow> p r = Inr (a, r') \<longleftrightarrow> (\<exists>w. E a w \<and> spans r w r')) \<Longrightarrow> reads p E"
  by (simp add: reads_def)

lemma readsD: "reads p E \<Longrightarrow> inside r \<Longrightarrow> p r = Inr (a, r') \<longleftrightarrow> (\<exists>w. E a w \<and> spans r w r')"
  by (simp add: reads_def)

lemma spans_inside: "spans r w r' \<Longrightarrow> inside r'"
proof -
  assume "spans r w r'"
  then obtain t where t: "drop (position r) (bytes r) = w @ t"
    and r': "inside r" "r' = r\<lparr>position := position r + length w\<rparr>" by (auto simp: spans_def)
  from arg_cong [OF t, of length] r' show ?thesis by (simp add: inside_def)
qed

lemma spans_append: "spans r (u @ v) r' \<longleftrightarrow> (\<exists>s. spans r u s \<and> spans s v r')"
proof
  assume a: "spans r (u @ v) r'"
  let ?s = "r\<lparr>position := position r + length u\<rparr>"
  from a obtain t where t: "drop (position r) (bytes r) = u @ v @ t" by (auto simp: spans_def)
  from a t have u: "spans r u ?s" by (auto simp: spans_def)
  from t have "drop (position ?s) (bytes ?s) = v @ t"
    by (simp add: add.commute flip: drop_drop)
  with a spans_inside [OF u] have "spans ?s v r'" by (auto simp: spans_def)
  with u show "\<exists>s. spans r u s \<and> spans s v r'" by blast
next
  assume "\<exists>s. spans r u s \<and> spans s v r'"
  then obtain s where u: "spans r u s" and v: "spans s v r'" by blast
  from u obtain t where t: "drop (position r) (bytes r) = u @ t" "s = r\<lparr>position := position r + length u\<rparr>"
    by (auto simp: spans_def)
  from v t obtain t' where "t = v @ t'"
    by (auto simp: spans_def add.commute simp flip: drop_drop)
  with u v t show "spans r (u @ v) r'" by (auto simp: spans_def)
qed

lemma spans_Nil [simp]: "inside r \<Longrightarrow> spans r [] r' \<longleftrightarrow> r' = r"
  by (auto simp: spans_def)

lemma spans_length: "spans r w r' \<Longrightarrow> length w \<le> length (bytes r)"
proof -
  assume "spans r w r'"
  then obtain t where "drop (position r) (bytes r) = w @ t" by (auto simp: spans_def)
  from arg_cong [OF this, of length] show ?thesis by simp
qed

lemma reads_return [reads_intros]: "reads (\<lambda>r. Inr (a, r)) (\<lambda>b w. b = a \<and> w = [])"
  by (rule readsI) auto

lemma reads_fail [reads_intros]: "reads (\<lambda>r. Inl e) (\<lambda>b w. False)"
  by (rule readsI) auto

lemma reads_bind [reads_intros]:
  assumes "reads p E" and "\<And>a. reads (k a) (F a)"
  shows "reads (\<lambda>r. rbind (p r) (\<lambda>(a, r). k a r)) (\<lambda>b w. \<exists>a u v. w = u @ v \<and> E a u \<and> F a b v)"
proof (rule readsI)
  fix r b r' assume r: "inside r"
  have p: "p r = Inr (a, s) \<longleftrightarrow> (\<exists>u. E a u \<and> spans r u s)" for a s
    using assms(1) r by (rule readsD)
  have k: "k a s = Inr (b, r') \<longleftrightarrow> (\<exists>v. F a b v \<and> spans s v r')" if "spans r u s" for a s u
    using assms(2) spans_inside [OF that] by (rule readsD)
  show "rbind (p r) (\<lambda>(a, r). k a r) = Inr (b, r')
      \<longleftrightarrow> (\<exists>w. (\<exists>a u v. w = u @ v \<and> E a u \<and> F a b v) \<and> spans r w r')"
  proof
    assume "rbind (p r) (\<lambda>(a, r). k a r) = Inr (b, r')"
    then obtain a s where "p r = Inr (a, s)" and k': "k a s = Inr (b, r')" by (auto simp: rbind_eq_Inr)
    then obtain u where u: "E a u" "spans r u s" using p by blast
    with k k' obtain v where "F a b v" "spans s v r'" by blast
    with u show "\<exists>w. (\<exists>a u v. w = u @ v \<and> E a u \<and> F a b v) \<and> spans r w r'"
      by (intro exI [of _ "u @ v"]) (auto simp: spans_append)
  next
    assume "\<exists>w. (\<exists>a u v. w = u @ v \<and> E a u \<and> F a b v) \<and> spans r w r'"
    then obtain a u v s where "E a u" "F a b v" and s: "spans r u s" "spans s v r'"
      by (auto simp: spans_append)
    with p k have "p r = Inr (a, s)" "k a s = Inr (b, r')" by blast+
    then show "rbind (p r) (\<lambda>(a, r). k a r) = Inr (b, r')" by simp
  qed
qed

lemma reads_if [reads_intros]:
  "(c \<Longrightarrow> reads p E) \<Longrightarrow> (\<not> c \<Longrightarrow> reads q F)
   \<Longrightarrow> reads (\<lambda>r. if c then p r else q r) (\<lambda>a w. if c then E a w else F a w)"
  by (cases c) auto

text \<open>The size checks never refuse what the rest of the parser would accept.\<close>

lemma reads_guard:
  assumes "reads p E" and "\<And>a w. E a w \<Longrightarrow> n \<le> length w"
  shows "reads (\<lambda>r. if n > length (bytes r) then Inl e else p r) E"
proof (rule readsI)
  fix r a r' assume "inside r"
  with assms(1) have "p r = Inr (a, r') \<longleftrightarrow> (\<exists>w. E a w \<and> spans r w r')" by (rule readsD)
  moreover have "n \<le> length (bytes r)" if "E a w" "spans r w r'" for w
    using assms(2) [OF that(1)] spans_length [OF that(2)] by simp
  ultimately show "(if n > length (bytes r) then Inl e else p r) = Inr (a, r') \<longleftrightarrow> (\<exists>w. E a w \<and> spans r w r')"
    by auto
qed

lemma reads_weaken: "reads p E \<Longrightarrow> (\<And>a w. E a w \<longleftrightarrow> F a w) \<Longrightarrow> reads p F"
  by (simp add: reads_def)

lemma reads_take: "reads (take_bytes n) (\<lambda>a w. a = w \<and> length w = n)"
proof (rule readsI)
  fix r a r' assume r: "inside r"
  show "take_bytes n r = Inr (a, r') \<longleftrightarrow> (\<exists>w. (a = w \<and> length w = n) \<and> spans r w r')"
  proof
    assume "take_bytes n r = Inr (a, r')"
    then have "position r + n \<le> length (bytes r)" "a = take n (drop (position r) (bytes r))"
      "r' = r\<lparr>position := position r + n\<rparr>" by (auto simp: take_bytes_def Let_def split: if_splits)
    with r show "\<exists>w. (a = w \<and> length w = n) \<and> spans r w r'"
      unfolding spans_def
      by (intro exI [of _ a] conjI exI [of _ "drop n (drop (position r) (bytes r))"])
        (simp_all only: append_take_drop_id length_take length_drop, simp_all)
  next
    assume "\<exists>w. (a = w \<and> length w = n) \<and> spans r w r'"
    then obtain t where t: "drop (position r) (bytes r) = a @ t" "length a = n"
      "r' = r\<lparr>position := position r + n\<rparr>" by (auto simp: spans_def)
    from arg_cong [OF t(1), of length] r t(2) have "position r + n \<le> length (bytes r)"
      by (simp add: inside_def)
    with t show "take_bytes n r = Inr (a, r')" by (simp add: take_bytes_def Let_def)
  qed
qed

lemma reads_map:
  assumes "reads p E"
  shows "reads (\<lambda>r. rbind (p r) (\<lambda>(w, r). Inr (f w, r))) (\<lambda>b w. \<exists>a. E a w \<and> b = f a)"
  by (rule reads_weaken [OF reads_bind [OF assms reads_return]]) auto

lemma reads_u8 [reads_intros]: "reads read_u8 (\<lambda>c w. w = [c])"
  unfolding read_u8_def [abs_def]
  by (rule reads_weaken [OF reads_map [OF reads_take]]) (auto simp: length_Suc_conv)

lemma reads_be: "reads (\<lambda>r. rbind (take_bytes k r) (\<lambda>(w, r). Inr (from_be w, r)))
    (\<lambda>n w. fits k n \<and> w = to_be k n)"
  by (rule reads_weaken [OF reads_map [OF reads_take]]) (metis fits_def from_be_eq_iff to_be_length)

lemma reads_u16 [reads_intros]: "reads read_u16 (\<lambda>n w. fits 2 n \<and> w = to_be 2 n)"
  unfolding read_u16_def [abs_def] by (rule reads_be)

lemma reads_u32 [reads_intros]: "reads read_u32 (\<lambda>n w. fits 4 n \<and> w = to_be 4 n)"
  unfolding read_u32_def [abs_def] by (rule reads_be)

lemma reads_u64 [reads_intros]: "reads read_u64 (\<lambda>n w. fits 8 n \<and> w = to_be 8 n)"
  unfolding read_u64_def [abs_def] by (rule reads_be)

lemma reads_i32 [reads_intros]: "reads read_i32 (\<lambda>i w. length w = 4 \<and> i = signed_of 32 (from_be w))"
  unfolding read_i32_def [abs_def] by (rule reads_weaken [OF reads_map [OF reads_take]]) auto

lemma reads_c_string [reads_intros]: "reads c_string (\<lambda>s w. ident s \<and> w = s @ [nul])"
proof (rule readsI)
  fix r s r' assume r: "inside r"
  show "c_string r = Inr (s, r') \<longleftrightarrow> (\<exists>w. (ident s \<and> w = s @ [nul]) \<and> spans r w r')"
  proof
    assume c: "c_string r = Inr (s, r')"
    then obtain t where "split_once nul (drop (position r) (bytes r)) = Some (s, t)"
      by (auto simp: c_string_def from_utf8_def Let_def split: option.splits if_splits)
    with c split_once_Some [OF this] r show "\<exists>w. (ident s \<and> w = s @ [nul]) \<and> spans r w r'"
      by (auto simp: c_string_def from_utf8_def ident_def spans_def Let_def split: if_splits)
  next
    assume "\<exists>w. (ident s \<and> w = s @ [nul]) \<and> spans r w r'"
    then show "c_string r = Inr (s, r')"
      by (auto simp: c_string_def ident_def from_utf8_def spans_def split_once_append Let_def)
  qed
qed

lemma concat_parts_Suc:
  "(length xs = Suc n \<and> (\<exists>ws. list_all2 E xs ws \<and> v = concat ws))
   \<longleftrightarrow> (\<exists>x ys u vs. xs = x # ys \<and> E x u \<and> length ys = n \<and> list_all2 E ys vs \<and> v = u @ concat vs)"
  (is "?l \<longleftrightarrow> ?r")
proof
  assume ?l
  then obtain ws where "length xs = Suc n" "list_all2 E xs ws" "v = concat ws" by blast
  then show ?r by (cases xs; cases ws) auto
next
  assume ?r
  then obtain x ys u vs where "xs = x # ys" "E x u" "length ys = n" "list_all2 E ys vs" "v = u @ concat vs"
    by blast
  then show ?l by (intro conjI exI [of _ "u # vs"]) auto
qed

lemma reads_repeated:
  assumes "reads p E"
  shows "reads (repeated p n) (\<lambda>xs w. length xs = n \<and> (\<exists>ws. list_all2 E xs ws \<and> w = concat ws))"
proof (induction n)
  case 0
  show ?case unfolding repeated.simps [abs_def]
    by (rule reads_weaken [OF reads_return]) auto
next
  case (Suc n)
  show ?case unfolding repeated.simps [abs_def] concat_parts_Suc
    by (rule reads_weaken [OF reads_bind [OF assms reads_bind [OF Suc.IH reads_return]]]) blast
qed

lemma list_all2_function: "list_all2 (\<lambda>a w. ok a \<and> w = f a) xs ws \<longleftrightarrow> list_all ok xs \<and> ws = map f xs"
  by (induction xs arbitrary: ws) (auto simp: list_all2_Cons1)

lemma reads_repeated_function:
  assumes "reads p (\<lambda>a w. ok a \<and> w = f a)"
  shows "reads (repeated p n) (\<lambda>xs w. length xs = n \<and> list_all ok xs \<and> w = concat (map f xs))"
  by (rule reads_weaken [OF reads_repeated [OF assms]]) (auto simp: list_all2_function)

lemma length_concat_ge: "list_all (\<lambda>w. w \<noteq> []) ws \<Longrightarrow> length ws \<le> length (concat ws)"
proof (induction ws)
  case (Cons w ws)
  then show ?case by (cases w) auto
qed simp

section \<open>The parser reads the grammar\<close>

lemma reads_tagged:
  assumes "\<And>c. reads (k c) (\<lambda>b v. E b (c # v))" and "\<And>b. \<not> E b []"
  shows "reads (\<lambda>r. rbind (read_u8 r) (\<lambda>(c, r). k c r)) E"
proof (rule reads_weaken [OF reads_bind [OF reads_u8 assms(1)]])
  fix b w
  show "(\<exists>c u v. w = u @ v \<and> u = [c] \<and> E b (c # v)) \<longleftrightarrow> E b w"
    using assms(2) by (cases w) auto
qed

lemma reads_cases:
  "(c \<Longrightarrow> reads p E) \<Longrightarrow> (\<not> c \<Longrightarrow> reads q E) \<Longrightarrow> reads (\<lambda>r. if c then p r else q r) E"
  by (cases c) auto

lemma value_of_n: "value_fits v \<and> CHR ''n'' # w = value_bytes v \<longleftrightarrow> v = TNull \<and> w = []"
  by (cases v) auto

lemma value_of_u: "value_fits v \<and> CHR ''u'' # w = value_bytes v \<longleftrightarrow> v = TUnchangedToast \<and> w = []"
  by (cases v) auto

lemma value_of_t: "value_fits v \<and> CHR ''t'' # w = value_bytes v
    \<longleftrightarrow> (\<exists>x. v = TText x \<and> fits 4 (length x) \<and> w = to_be 4 (length x) @ x)"
  by (cases v) auto

lemma value_of_other: "c \<notin> {CHR ''n'', CHR ''u'', CHR ''t''} \<Longrightarrow> \<not> (value_fits v \<and> c # w = value_bytes v)"
  by (cases v) auto

lemma reads_sized: "reads (\<lambda>r. rbind (read_u32 r) (\<lambda>(len, r). rbind (take_bytes len r) (\<lambda>(w, r). Inr (TText w, r))))
    (\<lambda>v w. \<exists>x. v = TText x \<and> fits 4 (length x) \<and> w = to_be 4 (length x) @ x)"
  by (rule reads_weaken [OF reads_bind [OF reads_u32 reads_map [OF reads_take]]]) auto

lemma reads_value: "reads tuple_value_of (\<lambda>v w. value_fits v \<and> w = value_bytes v)"
  unfolding tuple_value_of_def [abs_def]
proof (rule reads_tagged, intro reads_cases)
  fix c :: char
  show "reads (\<lambda>r. Inr (TNull, r)) (\<lambda>v w. value_fits v \<and> c # w = value_bytes v)" if "c = CHR ''n''"
    using that by (simp only: value_of_n reads_return)
  show "reads (\<lambda>r. Inr (TUnchangedToast, r)) (\<lambda>v w. value_fits v \<and> c # w = value_bytes v)" if "c = CHR ''u''"
    using that by (simp only: value_of_u reads_return)
  show "reads (\<lambda>r. rbind (read_u32 r) (\<lambda>(len, r). rbind (take_bytes len r) (\<lambda>(w, r). Inr (TText w, r))))
      (\<lambda>v w. value_fits v \<and> c # w = value_bytes v)" if "c = CHR ''t''"
    using that by (simp only: value_of_t reads_sized)
  show "reads (\<lambda>r. Inl ''binary tuple value (unrequested option)'')
      (\<lambda>v w. value_fits v \<and> c # w = value_bytes v)" if "c = CHR ''b''"
    by (rule reads_weaken [OF reads_fail]) (use that value_of_other [of c] in auto)
  show "reads (\<lambda>r. Inl (''unknown tuple value kind '' @ byte_hex c))
      (\<lambda>v w. value_fits v \<and> c # w = value_bytes v)"
    if "c \<noteq> CHR ''n''" "c \<noteq> CHR ''u''" "c \<noteq> CHR ''t''"
    by (rule reads_weaken [OF reads_fail]) (use that value_of_other in blast)
next
  fix v show "\<not> (value_fits v \<and> [] = value_bytes v)" by (cases v) auto
qed

lemma reads_tuple [reads_intros]: "reads read_tuple (\<lambda>t w. tuple_fits t \<and> w = tuple_bytes t)"
proof -
  have len: "n \<le> length w" if "length t = n \<and> list_all value_fits t \<and> w = concat (map value_bytes t)" for n t w
  proof -
    have "value_bytes v \<noteq> []" for v by (cases v) auto
    then have "list_all (\<lambda>w. w \<noteq> []) (map value_bytes t)" by (simp add: list_all_iff)
    from length_concat_ge [OF this] that show ?thesis by simp
  qed
  show ?thesis
    unfolding read_tuple_def [abs_def]
    by (rule reads_weaken [OF reads_bind [OF reads_u16 reads_guard [OF reads_repeated_function [OF reads_value] len]]])
      (auto simp: tuple_fits_def tuple_bytes_def)
qed

inductive_simps wire_inversion:
  "message_wire m (CHR ''B'' # w)" "message_wire m (CHR ''C'' # w)" "message_wire m (CHR ''O'' # w)"
  "message_wire m (CHR ''R'' # w)" "message_wire m (CHR ''Y'' # w)" "message_wire m (CHR ''I'' # w)"
  "message_wire m (CHR ''U'' # w)" "message_wire m (CHR ''D'' # w)" "message_wire m (CHR ''T'' # w)"

text \<open>A field that is read and dropped.\<close>

lemma reads_skip:
  assumes "reads p E" and "\<And>w. (\<exists>a. E a w) \<longleftrightarrow> length w = n" and "reads k F"
  shows "reads (\<lambda>r. rbind (p r) (\<lambda>(_, r). k r)) (\<lambda>b w. \<exists>u v. w = u @ v \<and> length u = n \<and> F b v)"
  by (rule reads_weaken [OF reads_bind [OF assms(1) assms(3)]]) (use assms(2) in blast)

lemma ex_prefix: "(\<exists>u v. w = u @ v \<and> length u = n \<and> P v) \<longleftrightarrow> n \<le> length w \<and> P (drop n w)"
  by (metis append_eq_conv_conj append_take_drop_id length_append le_add1 length_take min.absorb2)

lemma be_any: "(\<exists>a. fits k a \<and> w = to_be k a) \<longleftrightarrow> length w = k"
  using to_from_be [of w] from_be_less [of w] by (auto simp: fits_def)

lemmas skip_u8 = reads_skip [OF reads_u8, where n = 1]
lemmas skip_u32 = reads_skip [OF reads_u32 be_any]
lemmas skip_u64 = reads_skip [OF reads_u64 be_any]

lemma u8_any: "(\<exists>c. w = [c]) \<longleftrightarrow> length w = 1"
  by (auto simp: length_Suc_conv)

lemma reads_begin: "reads parse_begin (\<lambda>m w. message_wire m (CHR ''B'' # w))"
  unfolding parse_begin_def [abs_def] wire_inversion
  by (rule reads_weaken [OF skip_u64 [OF skip_u64 [OF skip_u32 [OF reads_return]]]])
    (auto simp: ex_prefix)

lemma reads_commit: "reads parse_commit (\<lambda>m w. message_wire m (CHR ''C'' # w))"
  unfolding parse_commit_def [abs_def] wire_inversion
  by (rule reads_weaken [OF skip_u8 [OF u8_any skip_u64 [OF skip_u64 [OF skip_u64 [OF reads_return]]]]])
    (auto simp: ex_prefix)

lemma reads_origin: "reads parse_origin (\<lambda>m w. message_wire m (CHR ''O'' # w))"
  unfolding parse_origin_def [abs_def] wire_inversion
  by (rule reads_weaken [OF skip_u64 [OF reads_bind [OF reads_c_string reads_return]]]) auto

lemma reads_type: "reads parse_type (\<lambda>m w. message_wire m (CHR ''Y'' # w))"
  unfolding parse_type_def [abs_def] wire_inversion
  by (rule reads_weaken [OF skip_u32 [OF reads_bind [OF reads_c_string reads_bind [OF reads_c_string reads_return]]]])
    (simp, blast)

lemma reads_truncate: "reads parse_truncate (\<lambda>m w. message_wire m (CHR ''T'' # w))"
proof -
  have len: "n \<le> length w" if "\<exists>u v. w = u @ v \<and> length u = 1 \<and>
      (\<exists>rels u' v'. v = u' @ v' \<and>
        (length rels = n \<and> list_all (fits 4) rels \<and> u' = concat (map (to_be 4) rels))
        \<and> m = MTruncate rels \<and> v' = [])" for n m w
  proof -
    have "length (concat (map (to_be 4) rels)) = 4 * length rels" for rels by (induction rels) auto
    with that show ?thesis by auto
  qed
  show ?thesis
    unfolding parse_truncate_def [abs_def] wire_inversion
    by (rule reads_weaken [OF reads_bind [OF reads_u32 reads_guard [OF skip_u8 [OF u8_any
          reads_bind [OF reads_repeated_function [OF reads_u32] reads_return]] len]]])
      (auto simp: length_Suc_conv)
qed

lemma reads_u32_then:
  assumes "\<And>n. reads (k n) (F n)"
  shows "reads (\<lambda>r. rbind (read_u32 r) (\<lambda>(n, r). k n r)) (\<lambda>b w. \<exists>n v. fits 4 n \<and> w = to_be 4 n @ v \<and> F n b v)"
  by (rule reads_weaken [OF reads_bind [OF reads_u32 assms]]) blast

lemma reads_u16_then:
  assumes "\<And>n. reads (k n) (F n)"
  shows "reads (\<lambda>r. rbind (read_u16 r) (\<lambda>(n, r). k n r)) (\<lambda>b w. \<exists>n v. fits 2 n \<and> w = to_be 2 n @ v \<and> F n b v)"
  by (rule reads_weaken [OF reads_bind [OF reads_u16 assms]]) blast

lemma reads_string_then:
  assumes "\<And>s. reads (k s) (F s)"
  shows "reads (\<lambda>r. rbind (c_string r) (\<lambda>(s, r). k s r)) (\<lambda>b w. \<exists>s v. ident s \<and> w = s @ nul # v \<and> F s b v)"
  by (rule reads_weaken [OF reads_bind [OF reads_c_string assms]]) force

lemma reads_u8_skipped:
  assumes "reads k F"
  shows "reads (\<lambda>r. rbind (read_u8 r) (\<lambda>(_, r). k r)) (\<lambda>b w. \<exists>c v. w = c # v \<and> F b v)"
  by (rule reads_weaken [OF reads_bind [OF reads_u8 assms]]) force

lemma reads_tuple_last: "reads (\<lambda>r. rbind (read_tuple r) (\<lambda>(t, r). Inr (f t, r)))
    (\<lambda>m w. \<exists>t. tuple_fits t \<and> w = tuple_bytes t \<and> m = f t)"
  by (rule reads_weaken [OF reads_bind [OF reads_tuple reads_return]]) auto

lemma reads_types: "reads (\<lambda>r. rbind (read_u32 r) (\<lambda>(_, r). rbind (read_i32 r) (\<lambda>(_, r). Inr (a, r))))
    (\<lambda>b w. b = a \<and> length w = 8)"
proof (rule reads_weaken [OF skip_u32 [OF reads_skip [OF reads_i32 _ reads_return]]])
  show "(\<exists>i. length w = 4 \<and> i = signed_of 32 (from_be w)) \<longleftrightarrow> length w = 4" for w by simp
qed (auto simp: ex_prefix)

lemma reads_column: "reads relation_column column_wire"
  unfolding relation_column_def [abs_def]
  by (rule reads_weaken [OF reads_u8_skipped [OF reads_string_then [OF reads_types]]])
    (force simp: column_wire_def)

lemma relation_inversion: "message_wire m (CHR ''R'' # w) \<longleftrightarrow>
    (\<exists>rid v. fits 4 rid \<and> w = to_be 4 rid @ v \<and>
      (\<exists>ns v1. ident ns \<and> v = ns @ nul # v1 \<and>
      (\<exists>name v2. ident name \<and> v1 = name @ nul # v2 \<and>
      (\<exists>i v3. v2 = i # v3 \<and>
      (\<exists>n v4. fits 2 n \<and> v3 = to_be 2 n @ v4 \<and>
      (\<exists>cols ws. length cols = n \<and> list_all2 column_wire cols ws
         \<and> m = MRelation \<lparr>r_id = rid, r_namespace = ns, r_name = name, r_columns = cols\<rparr>
         \<and> v4 = concat ws))))))"
  (is "_ \<longleftrightarrow> ?r")
proof
  assume "message_wire m (CHR ''R'' # w)"
  then obtain rel ws i where
    f: "fits 4 (r_id rel)" "ident (r_namespace rel)" "ident (r_name rel)" "fits 2 (length (r_columns rel))"
      "list_all2 column_wire (r_columns rel) ws" "m = MRelation rel"
      "w = to_be 4 (r_id rel) @ r_namespace rel @ nul # r_name rel @ nul # i
         # to_be 2 (length (r_columns rel)) @ concat ws"
    unfolding wire_inversion by auto
  have m: "m = MRelation \<lparr>r_id = r_id rel, r_namespace = r_namespace rel, r_name = r_name rel,
      r_columns = r_columns rel\<rparr>" using f(6) by simp
  show ?r
    by (intro exI conjI, rule f(1), rule f(7), rule f(2), rule refl, rule f(3), rule refl, rule refl,
        rule f(4), rule refl, rule refl, rule f(5), rule m, rule refl)
next
  assume ?r
  then show "message_wire m (CHR ''R'' # w)"
  proof (elim exE conjE)
    fix rid ns name i cols ws n and v v1 v2 v3 v4 :: string
    assume "fits 4 rid" "ident ns" "ident name" "fits 2 n" "length cols = n" "list_all2 column_wire cols ws"
      "m = MRelation \<lparr>r_id = rid, r_namespace = ns, r_name = name, r_columns = cols\<rparr>"
      "w = to_be 4 rid @ v" "v = ns @ nul # v1" "v1 = name @ nul # v2" "v2 = i # v3" "v3 = to_be 2 n @ v4"
      "v4 = concat ws"
    then show ?thesis
      using relation_wire [of "\<lparr>r_id = rid, r_namespace = ns, r_name = name, r_columns = cols\<rparr>" ws i] by simp
  qed
qed

lemma columns_long: "list_all2 column_wire cols ws \<Longrightarrow> length cols \<le> length (concat ws)"
proof -
  assume c: "list_all2 column_wire cols ws"
  then have "list_all (\<lambda>w. w \<noteq> []) ws"
    by (auto simp: list_all2_conv_all_nth list_all_length column_wire_def)
  from length_concat_ge [OF this] c show ?thesis by (simp add: list_all2_lengthD)
qed

lemma reads_columns: "reads
    (\<lambda>r. if n > length (bytes r) then Inl e
         else rbind (repeated relation_column n r) (\<lambda>(cols, r). Inr (M cols, r)))
    (\<lambda>m w. \<exists>cols ws. length cols = n \<and> list_all2 column_wire cols ws \<and> m = M cols \<and> w = concat ws)"
proof (rule reads_guard)
  show "reads (\<lambda>r. rbind (repeated relation_column n r) (\<lambda>(cols, r). Inr (M cols, r)))
    (\<lambda>m w. \<exists>cols ws. length cols = n \<and> list_all2 column_wire cols ws \<and> m = M cols \<and> w = concat ws)"
    by (rule reads_weaken [OF reads_bind [OF reads_repeated [OF reads_column] reads_return]]) auto
qed (use columns_long in blast)

lemma reads_relation: "reads parse_relation (\<lambda>m w. message_wire m (CHR ''R'' # w))"
  unfolding parse_relation_def [abs_def] relation_inversion
  by (rule reads_u32_then [OF reads_string_then [OF reads_string_then [OF
        reads_u8_skipped [OF reads_u16_then [OF reads_columns]]]]])

lemma reads_marked:
  "reads (\<lambda>r. rbind (read_u8 r) (\<lambda>(c, r). if P c then k r else Inl (e c)))
     (\<lambda>m w. \<exists>c v. P c \<and> w = c # v \<and> E m v)" if "reads k E"
  by (rule reads_tagged, rule reads_cases;
      (rule reads_weaken [OF that] reads_weaken [OF reads_fail])?) auto

lemma reads_marked_one:
  "reads (\<lambda>r. rbind (read_u8 r) (\<lambda>(c, r). if c = x then k r else Inl (e c)))
     (\<lambda>m w. \<exists>v. w = x # v \<and> E m v)" if "reads k E"
  using reads_marked [OF that, of "\<lambda>c. c = x" e] by simp

lemma reads_insert: "reads parse_insert (\<lambda>m w. message_wire m (CHR ''I'' # w))"
  unfolding parse_insert_def [abs_def] wire_inversion
  by (rule reads_weaken [OF reads_u32_then [OF reads_marked_one [OF reads_tuple_last]]]) auto

lemma reads_delete: "reads parse_delete (\<lambda>m w. message_wire m (CHR ''D'' # w))"
  unfolding parse_delete_def [abs_def] wire_inversion old_marker_def [symmetric]
  by (rule reads_weaken, rule reads_u32_then, rule reads_marked, rule reads_tuple_last, rule iffI;
      (elim exE conjE, hypsubst, intro exI conjI, (assumption | rule refl)+))

lemma reads_tuple_then:
  assumes "\<And>t. reads (k t) (F t)"
  shows "reads (\<lambda>r. rbind (read_tuple r) (\<lambda>(t, r). k t r))
    (\<lambda>b w. \<exists>t v. tuple_fits t \<and> w = tuple_bytes t @ v \<and> F t b v)"
  by (rule reads_weaken [OF reads_bind [OF reads_tuple assms]]) blast

lemma reads_two_ways:
  assumes "reads k E" and "reads k' E'" and "\<not> P z"
  shows "reads (\<lambda>r. rbind (read_u8 r) (\<lambda>(c, r). if P c then k r else if c = z then k' r else Inl (e c)))
     (\<lambda>m w. (\<exists>c v. P c \<and> w = c # v \<and> E m v) \<or> (\<exists>v. w = z # v \<and> E' m v))"
  by (rule reads_tagged, intro reads_cases;
      (rule reads_weaken [OF assms(1)] reads_weaken [OF assms(2)] reads_weaken [OF reads_fail])?)
    (use assms(3) in auto)

lemma reads_update: "reads parse_update (\<lambda>m w. message_wire m (CHR ''U'' # w))"
  unfolding parse_update_def [abs_def] wire_inversion old_marker_def [symmetric]
proof (rule reads_weaken, rule reads_u32_then, rule reads_two_ways, rule reads_tuple_then,
    rule reads_marked_one, rule reads_tuple_last, rule reads_tuple_last, goal_cases)
  case (2 m w)
  show ?case
    unfolding append_assoc append_Cons append_Nil
    by (rule iffI; elim exE conjE disjE; hypsubst;
        (rule disjI1, intro exI conjI, (assumption | rule refl)+
         | rule disjI2, intro exI conjI, (assumption | rule refl)+
         | intro exI conjI, assumption, rule refl, rule disjI1, intro exI conjI, (assumption | rule refl)+
         | intro exI conjI, assumption, rule refl, rule disjI2, intro exI conjI, (assumption | rule refl)+))
qed (simp add: old_marker_def)

section \<open>Exactness\<close>

lemma reads_body: "reads (parse_body tag) (\<lambda>m w. message_wire m (tag # w))"
  unfolding parse_body_def [abs_def]
  by (intro reads_cases;
      (simp only: reads_begin reads_commit reads_origin reads_relation reads_type reads_insert reads_update
        reads_delete reads_truncate)?)
    (rule reads_weaken [OF reads_fail], auto elim: message_wire.cases)

text \<open>Reading a whole message is being in the grammar, with nothing left.\<close>

lemma message_read: "rbind (read_u8 \<lparr>bytes = bs, position = 0\<rparr>) (\<lambda>(tag, r). parse_body tag r) = Inr (m, r') \<and> is_done r'
    \<longleftrightarrow> message_wire m bs \<and> r' = \<lparr>bytes = bs, position = length bs\<rparr>"
proof -
  have "reads (\<lambda>r. rbind (read_u8 r) (\<lambda>(tag, r). parse_body tag r)) message_wire"
    by (rule reads_tagged [OF reads_body]) (auto elim: message_wire.cases)
  then have "rbind (read_u8 \<lparr>bytes = bs, position = 0\<rparr>) (\<lambda>(tag, r). parse_body tag r) = Inr (m, r')
      \<longleftrightarrow> (\<exists>w. message_wire m w \<and> spans \<lparr>bytes = bs, position = 0\<rparr> w r')"
    by (rule readsD) (simp add: inside_def)
  moreover have "spans \<lparr>bytes = bs, position = 0\<rparr> w r' \<and> is_done r'
      \<longleftrightarrow> w = bs \<and> r' = \<lparr>bytes = bs, position = length bs\<rparr>" for w
    by (auto simp: spans_def inside_def is_done_def)
  ultimately show ?thesis by metis
qed

lemma parse_message_read: "parse_message bs = Inr m \<longleftrightarrow>
    (\<exists>r'. rbind (read_u8 \<lparr>bytes = bs, position = 0\<rparr>) (\<lambda>(tag, r). parse_body tag r) = Inr (m, r') \<and> is_done r')"
  by (auto simp: parse_message_def rbind_eq_Inr split: if_splits)

lemma parse_wire: "message_wire m bs \<Longrightarrow> parse_message bs = Inr m"
  unfolding parse_message_read message_read by simp

text \<open>
  C19. The parser of replication messages accepts exactly the protocol's grammar: it returns a
  message for a byte string if and only if the string is a wire form of that message, from its
  tag to its last byte, with every count and length the ones announced, identifiers in UTF-8 and
  nothing behind the message; everything else is an error, and no input makes it read out of
  bounds.
\<close>

theorem parse_accepts_grammar: "parse_message bs = Inr m \<longleftrightarrow> message_wire m bs"
  unfolding parse_message_read message_read by simp

end
