(* ===== verification/Pg_Apply.thy ===== *)
theory Pg_Apply
  imports Pg_Output Pg_Value
begin

text \<open>
  Change data capture: \<^verbatim>\<open>source/cdc/apply.rs\<close>, the per-stream machine that buffers change
  rows by transaction and emits batches and checkpoints, and the pass over a slot's changes
  of \<^verbatim>\<open>source/cdc/read.rs\<close>. A log position is a 64-bit word.
\<close>

type_synonym lsn = "64 word"

datatype cell = CNull | CText string

type_synonym change_row = "cell list \<times> bool"

record identity =
  id_key :: "string list"
  id_covers_all_columns :: bool

record cdc_context =
  cx_flag_column :: string
  cx_schema :: string
  cx_stream :: string
  cx_identity :: identity
  cx_columns :: "pg_column list"
  cx_batch_max_rows :: nat

datatype emit = EBatch record_batch | ECheckpoint lsn

section \<open>Assembling a change batch\<close>

text \<open>
  Column by column, as the builders are filled; the arrays all have one cell per row, so the
  final assembly cannot fail.
\<close>

definition column_err :: "pg_column \<Rightarrow> (string, 'a) result \<Rightarrow> (string, 'a) result" where
  "column_err column = map_err (\<lambda>detail. ''column '' @ ticked (pc_name column) @ '': '' @ detail)"

definition column_array :: "pg_lib \<Rightarrow> pg_column \<Rightarrow> cell list \<Rightarrow> (string, avalue list) result" where
  "column_array lib column cells =
     rbind (column_err column (builder_new lib (pc_kind column))) (\<lambda>_.
     column_err column
       (traverse (\<lambda>c. case c of CNull \<Rightarrow> Inr ANull | CText t \<Rightarrow> append_text lib (pc_kind column) t) cells))"

fun column_arrays :: "pg_lib \<Rightarrow> nat \<Rightarrow> pg_column list \<Rightarrow> cell list list \<Rightarrow> (string, avalue list list) result" where
  "column_arrays lib i [] rows = Inr []"
| "column_arrays lib i (column # columns) rows =
     rbind (column_array lib column (map (\<lambda>r. r ! i) rows)) (\<lambda>a.
     rbind (column_arrays lib (i + 1) columns rows) (\<lambda>as. Inr (a # as)))"

definition flag_value :: "bool \<Rightarrow> avalue" where
  "flag_value is_delete = (if is_delete then ABool True else ANull)"

definition batch_of :: "pg_lib \<Rightarrow> pg_column list \<Rightarrow> string \<Rightarrow> cell list list \<Rightarrow> bool list
    \<Rightarrow> (string, record_batch) result" where
  "batch_of lib columns flag_column rows deleted =
     rbind (column_arrays lib 0 columns rows) (\<lambda>arrays.
       Inr \<lparr>rb_fields = map (\<lambda>c. (pc_name c, kind_arrow (pc_kind c), True)) columns @ [(flag_column, DBoolean, True)],
            rb_rows = map (\<lambda>i. map (\<lambda>a. a ! i) arrays @ [flag_value (deleted ! i)]) [0..<length rows]\<rparr>)"

section \<open>The apply state\<close>

record apply_state =
  ap_since :: lsn
  ap_relation_maps :: "nat \<Rightarrow> nat list option option"
  ap_key_indices :: "nat list"
  ap_transaction_rows :: "change_row list"
  ap_ready_rows :: "change_row list"
  ap_last_commit :: "lsn option"
  ap_transaction_error :: "source_error option"

definition cdc_fatal :: "cdc_context \<Rightarrow> string \<Rightarrow> source_error" where
  "cdc_fatal cx detail = pg_fatal PDecode (Some (cx_stream cx)) detail"

fun index_where :: "('a \<Rightarrow> bool) \<Rightarrow> 'a list \<Rightarrow> nat option" where
  "index_where P [] = None"
| "index_where P (x # xs) = (if P x then Some 0 else map_option Suc (index_where P xs))"

definition key_indices :: "cdc_context \<Rightarrow> (source_error, nat list) result" where
  "key_indices cx =
     traverse (\<lambda>key.
       case index_where (\<lambda>c. pc_name c = key) (cx_columns cx) of
         Some i \<Rightarrow> Inr i
       | None \<Rightarrow> Inl (pg_fatal PSlot (Some (cx_stream cx))
           (''replica-identity key column '' @ ticked key @ '' is missing from the decode plan '' @ em_dash
            @ '' every key column must survive the column selection''))) (id_key (cx_identity cx))"

definition apply_new :: "cdc_context \<Rightarrow> lsn \<Rightarrow> (source_error, apply_state) result" where
  "apply_new cx since = rbind (key_indices cx) (\<lambda>keys.
     Inr \<lparr>ap_since = since, ap_relation_maps = Map.empty, ap_key_indices = keys, ap_transaction_rows = [],
          ap_ready_rows = [], ap_last_commit = None, ap_transaction_error = None\<rparr>)"

definition our_map :: "apply_state \<Rightarrow> nat \<Rightarrow> nat list option" where
  "our_map ap rel = Option.bind (ap_relation_maps ap rel) id"

definition plan_map :: "cdc_context \<Rightarrow> relation \<Rightarrow> (source_error, nat list) result" where
  "plan_map cx rel =
     traverse (\<lambda>column.
       case index_where (\<lambda>name. name = pc_name column) (r_columns rel) of
         Some i \<Rightarrow> Inr i
       | None \<Rightarrow> Inl (cdc_fatal cx (''column '' @ ticked (pc_name column)
           @ '' vanished from the replicated table (non-additive schema drift)''))) (cx_columns cx)"

text \<open>The decoder's own description of the bad byte is left out of the message.\<close>

definition text_cell :: "cdc_context \<Rightarrow> string \<Rightarrow> string \<Rightarrow> (source_error, cell) result" where
  "text_cell cx bs column =
     (case from_utf8 bs of
        Some s \<Rightarrow> Inr (CText s)
      | None \<Rightarrow> Inl (cdc_fatal cx (''column '' @ ticked column @ '': tuple text is not UTF-8'')))"

definition tuple_get :: "tuple_data \<Rightarrow> nat \<Rightarrow> tuple_value option" where
  "tuple_get t i = (if i < length t then Some (t ! i) else None)"

definition tuple_cell :: "cdc_context \<Rightarrow> tuple_data \<Rightarrow> tuple_data option \<Rightarrow> nat \<times> pg_column
    \<Rightarrow> (source_error, cell) result" where
  "tuple_cell cx t old = (\<lambda>(i, column).
     case tuple_get t i of
       None \<Rightarrow> Inl (cdc_fatal cx (''tuple lacks column '' @ ticked (pc_name column)))
     | Some TNull \<Rightarrow> Inr CNull
     | Some (TText bs) \<Rightarrow> text_cell cx bs (pc_name column)
     | Some TUnchangedToast \<Rightarrow>
         (case (Option.bind old (\<lambda>tup. tuple_get tup i), id_covers_all_columns (cx_identity cx)) of
            (Some (TText bs), True) \<Rightarrow> text_cell cx bs (pc_name column)
          | _ \<Rightarrow> Inl (cdc_fatal cx (''unchanged TOAST value in column '' @ ticked (pc_name column)
              @ '' and no old image to substitute from '' @ em_dash @ '' `ALTER TABLE '' @ cx_schema cx @ ''.''
              @ cx_stream cx @ '' REPLICA IDENTITY FULL` to retain TOAST values''))))"

definition tuple_row :: "cdc_context \<Rightarrow> nat list \<Rightarrow> tuple_data \<Rightarrow> tuple_data option
    \<Rightarrow> (source_error, cell list) result" where
  "tuple_row cx m t old = traverse (tuple_cell cx t old) (zip m (cx_columns cx))"

definition key_cell :: "cdc_context \<Rightarrow> nat list \<Rightarrow> tuple_data \<Rightarrow> nat \<Rightarrow> (source_error, cell) result" where
  "key_cell cx m t i =
     (case tuple_get t (m ! i) of
        None \<Rightarrow> Inr CNull
      | Some TNull \<Rightarrow> Inr CNull
      | Some (TText bs) \<Rightarrow> text_cell cx bs (pc_name (cx_columns cx ! i))
      | Some TUnchangedToast \<Rightarrow> Inl (cdc_fatal cx
          (''key column arrived as an unchanged-TOAST marker '' @ em_dash @ '' unusable key data'')))"

definition key_cells :: "cdc_context \<Rightarrow> nat list \<Rightarrow> nat list \<Rightarrow> tuple_data \<Rightarrow> (source_error, cell list) result" where
  "key_cells cx keys m t = traverse (key_cell cx m t) keys"

fun place_cells :: "(nat \<times> cell) list \<Rightarrow> cell list \<Rightarrow> cell list" where
  "place_cells [] row = row"
| "place_cells ((i, c) # cs) row = place_cells cs (row[i := c])"

definition delete_row :: "cdc_context \<Rightarrow> nat list \<Rightarrow> cell list \<Rightarrow> cell list" where
  "delete_row cx keys key = place_cells (zip keys key) (replicate (length (cx_columns cx)) CNull)"

text \<open>The rows of an update: a delete of the old key when the key changed, then the new row.\<close>

definition key_changed :: "cell list \<Rightarrow> cell list \<Rightarrow> bool" where
  "key_changed old new \<longleftrightarrow> (\<exists>(was, now) \<in> set (zip old new). was \<noteq> CNull \<and> was \<noteq> now)"

definition update_rows :: "cdc_context \<Rightarrow> nat list \<Rightarrow> nat list \<Rightarrow> tuple_data option \<Rightarrow> tuple_data
    \<Rightarrow> (source_error, change_row list) result" where
  "update_rows cx keys m old new =
     rbind (case old of None \<Rightarrow> Inr None | Some tup \<Rightarrow> rbind (key_cells cx keys m tup) (\<lambda>k. Inr (Some k))) (\<lambda>old_key.
     rbind (tuple_row cx m new old) (\<lambda>new_row.
       let new_key = map (\<lambda>i. new_row ! i) keys in
       Inr ((case old_key of
               Some key \<Rightarrow> if key_changed key new_key then [(delete_row cx keys key, True)] else []
             | None \<Rightarrow> []) @ [(new_row, False)])))"

section \<open>Messages\<close>

definition defer_error :: "source_error \<Rightarrow> apply_state \<Rightarrow> apply_state" where
  "defer_error e ap = (if ap_transaction_error ap = None then ap\<lparr>ap_transaction_error := Some e\<rparr> else ap)"

text \<open>Extends the transaction with the rows built, or records the first failure.\<close>

definition buffer :: "(source_error, change_row list) result \<Rightarrow> apply_state \<Rightarrow> apply_state" where
  "buffer built ap =
     (case built of
        Inr rows \<Rightarrow> ap\<lparr>ap_transaction_rows := ap_transaction_rows ap @ rows\<rparr>
      | Inl e \<Rightarrow> defer_error e ap)"

definition flush :: "pg_lib \<Rightarrow> cdc_context \<Rightarrow> bool \<Rightarrow> apply_state \<Rightarrow> (source_error, apply_state \<times> emit list) result" where
  "flush lib cx emit_checkpoint ap =
     (if ap_ready_rows ap = [] then Inr (ap, [])
      else
        rbind (map_err (cdc_fatal cx)
            (batch_of lib (cx_columns cx) (cx_flag_column cx) (map fst (ap_ready_rows ap)) (map snd (ap_ready_rows ap))))
          (\<lambda>batch. Inr (ap\<lparr>ap_ready_rows := []\<rparr>,
             EBatch batch # (case ap_last_commit ap of
                Some commit \<Rightarrow> if emit_checkpoint then [ECheckpoint commit] else []
              | None \<Rightarrow> []))))"

definition truncate_text :: string where
  "truncate_text = ''TRUNCATE arrived on this table '' @ em_dash
     @ '' truncation does not replicate as row deletes; reset the stream's pipeline state AND re-initialize ''
     @ ''the destination table (a fresh snapshot starts PAST the truncation but cannot remove rows the ''
     @ ''truncation deleted), or stop truncating published tables''"

definition keyless_text :: string where
  "keyless_text = ''delete record carries no usable key data '' @ em_dash
     @ '' the table's replica identity was weakened mid-stream; restore it''"

definition delete_rows :: "cdc_context \<Rightarrow> nat list \<Rightarrow> nat list \<Rightarrow> tuple_data
    \<Rightarrow> (source_error, change_row list) result" where
  "delete_rows cx keys m old =
     rbind (key_cells cx keys m old) (\<lambda>key.
       if CNull \<in> set key then Inl (cdc_fatal cx keyless_text)
       else Inr [(delete_row cx keys key, True)])"

fun on_message :: "pg_lib \<Rightarrow> cdc_context \<Rightarrow> lsn \<Rightarrow> message \<Rightarrow> apply_state
    \<Rightarrow> (source_error, apply_state \<times> emit list) result" where
  "on_message lib cx l MBegin ap = Inr (ap\<lparr>ap_transaction_rows := []\<rparr>, [])"
| "on_message lib cx l (MRelation rel) ap =
     rbind (if r_namespace rel = cx_schema cx \<and> r_name rel = cx_stream cx
            then rbind (plan_map cx rel) (\<lambda>m. Inr (Some m)) else Inr None) (\<lambda>m.
     Inr (ap\<lparr>ap_relation_maps := (ap_relation_maps ap)(r_id rel \<mapsto> m)\<rparr>, []))"
| "on_message lib cx l (MInsert rel new) ap =
     (case our_map ap rel of
        Some m \<Rightarrow> Inr (buffer (rbind (tuple_row cx m new None) (\<lambda>row. Inr [(row, False)])) ap, [])
      | None \<Rightarrow> Inr (ap, []))"
| "on_message lib cx l (MUpdate rel old new) ap =
     (case our_map ap rel of
        Some m \<Rightarrow> Inr (buffer (update_rows cx (ap_key_indices ap) m old new) ap, [])
      | None \<Rightarrow> Inr (ap, []))"
| "on_message lib cx l (MDelete rel old) ap =
     (case our_map ap rel of
        Some m \<Rightarrow> Inr (buffer (delete_rows cx (ap_key_indices ap) m old) ap, [])
      | None \<Rightarrow> Inr (ap, []))"
| "on_message lib cx l (MTruncate rels) ap =
     Inr (if \<exists>rel \<in> set rels. our_map ap rel \<noteq> None then defer_error (cdc_fatal cx truncate_text) ap else ap, [])"
| "on_message lib cx l MCommit ap =
     (let rows = ap_transaction_rows ap; error = ap_transaction_error ap;
          ap = ap\<lparr>ap_transaction_rows := [], ap_transaction_error := None\<rparr> in
      if l \<le> ap_since ap then Inr (ap, [])
      else
        case error of
          Some e \<Rightarrow> Inl e
        | None \<Rightarrow>
            (let ap = ap\<lparr>ap_ready_rows := ap_ready_rows ap @ rows, ap_last_commit := Some l\<rparr> in
             if cx_batch_max_rows cx \<le> length (ap_ready_rows ap) then flush lib cx True ap else Inr (ap, [])))"
| "on_message lib cx l MOrigin ap = Inr (ap, [])"
| "on_message lib cx l MType ap = Inr (ap, [])"

definition finish :: "pg_lib \<Rightarrow> cdc_context \<Rightarrow> lsn \<Rightarrow> apply_state \<Rightarrow> (source_error, apply_state \<times> emit list) result" where
  "finish lib cx target ap =
     rbind (flush lib cx False (ap\<lparr>ap_transaction_rows := [], ap_transaction_error := None\<rparr>)) (\<lambda>(ap, emits).
     Inr (ap, emits @ [ECheckpoint (max target (ap_since ap))]))"

section \<open>The pass over a slot's changes\<close>

text \<open>
  The feed of a structured stream: batches and checkpoints sent, oldest first. \<open>closed\<close> says
  after which prefix the receiver is gone.
\<close>

datatype pg_event = SentBatch record_batch | SentCheckpoint json

type_synonym pg_feed = "pg_event list"

definition encode_resume :: "lsn \<Rightarrow> json" where
  "encode_resume l = VObject [(''cdc_lsn'', VNumber (PosInt l))]"

definition event_of :: "emit \<Rightarrow> pg_event" where
  "event_of em = (case em of EBatch b \<Rightarrow> SentBatch b | ECheckpoint l \<Rightarrow> SentCheckpoint (encode_resume l))"

text \<open>\<open>deliver\<close>: whether everything was taken, and the feed.\<close>

fun deliver_emits :: "(pg_feed \<Rightarrow> bool) \<Rightarrow> emit list \<Rightarrow> pg_feed \<Rightarrow> bool \<times> pg_feed" where
  "deliver_emits closed [] feed = (True, feed)"
| "deliver_emits closed (em # ems) feed =
     (if closed feed then (False, feed) else deliver_emits closed ems (feed @ [event_of em]))"

datatype pass_outcome = Complete | Cancelled

text \<open>One item of the peek: a change's position and bytes, or the error of its row.\<close>

type_synonym change = "(source_error, lsn \<times> string) result"

fun apply_changes :: "pg_lib \<Rightarrow> cdc_context \<Rightarrow> (pg_feed \<Rightarrow> bool) \<Rightarrow> lsn \<Rightarrow> change list \<Rightarrow> apply_state
    \<Rightarrow> pg_feed \<Rightarrow> (source_error, pass_outcome) result \<times> pg_feed" where
  "apply_changes lib cx closed target [] ap feed =
     (case finish lib cx target ap of
        Inl e \<Rightarrow> (Inl e, feed)
      | Inr (ap, emits) \<Rightarrow>
          (case deliver_emits closed emits feed of
             (True, feed) \<Rightarrow> (Inr Complete, feed)
           | (False, feed) \<Rightarrow> (Inr Cancelled, feed)))"
| "apply_changes lib cx closed target (Inl e # changes) ap feed = (Inl e, feed)"
| "apply_changes lib cx closed target (Inr (l, bs) # changes) ap feed =
     (case map_err (\<lambda>e. pg_fatal PDecode (Some (cx_stream cx)) (''pgoutput: '' @ e)) (parse_message bs) of
        Inl e \<Rightarrow> (Inl e, feed)
      | Inr m \<Rightarrow>
          (case on_message lib cx l m ap of
             Inl e \<Rightarrow> (Inl e, feed)
           | Inr (ap, emits) \<Rightarrow>
               (case deliver_emits closed emits feed of
                  (True, feed) \<Rightarrow> apply_changes lib cx closed target changes ap feed
                | (False, feed) \<Rightarrow> (Inr Cancelled, feed))))"

text \<open>\<open>peek\<close> is the server's answer to the peek query, or its failure.\<close>

definition change_pass :: "pg_lib \<Rightarrow> cdc_context \<Rightarrow> (pg_feed \<Rightarrow> bool) \<Rightarrow> (lsn \<Rightarrow> (source_error, change list) result)
    \<Rightarrow> lsn \<Rightarrow> lsn \<Rightarrow> pg_feed \<Rightarrow> (source_error, pass_outcome) result \<times> pg_feed" where
  "change_pass lib cx closed peek since target feed =
     (case peek target of
        Inl e \<Rightarrow> (Inl e, feed)
      | Inr changes \<Rightarrow>
          (case apply_new cx since of
             Inl e \<Rightarrow> (Inl e, feed)
           | Inr ap \<Rightarrow> apply_changes lib cx closed target changes ap feed))"

section \<open>Committed transactions\<close>

text \<open>
  The specification: a slot's stream is a list of committed transactions, each a \<open>Begin\<close>, the
  changes and a \<open>Commit\<close> at its position. \<open>message_rows\<close> is what one change contributes.
\<close>

record txn =
  tx_begin :: lsn
  tx_body :: "(lsn \<times> message) list"
  tx_commit :: lsn

definition txn_messages :: "txn \<Rightarrow> (lsn \<times> message) list" where
  "txn_messages tx = (tx_begin tx, MBegin) # tx_body tx @ [(tx_commit tx, MCommit)]"

definition change_message :: "message \<Rightarrow> bool" where
  "change_message m \<longleftrightarrow> m \<noteq> MBegin \<and> m \<noteq> MCommit"

type_synonym relation_maps = "nat \<Rightarrow> nat list option option"

definition lookup_map :: "relation_maps \<Rightarrow> nat \<Rightarrow> nat list option" where
  "lookup_map maps rel = Option.bind (maps rel) id"

fun message_rows :: "cdc_context \<Rightarrow> nat list \<Rightarrow> relation_maps \<Rightarrow> message \<Rightarrow> (source_error, change_row list) result" where
  "message_rows cx keys maps (MInsert rel new) =
     (case lookup_map maps rel of
        Some m \<Rightarrow> rbind (tuple_row cx m new None) (\<lambda>row. Inr [(row, False)]) | None \<Rightarrow> Inr [])"
| "message_rows cx keys maps (MUpdate rel old new) =
     (case lookup_map maps rel of Some m \<Rightarrow> update_rows cx keys m old new | None \<Rightarrow> Inr [])"
| "message_rows cx keys maps (MDelete rel old) =
     (case lookup_map maps rel of Some m \<Rightarrow> delete_rows cx keys m old | None \<Rightarrow> Inr [])"
| "message_rows cx keys maps (MTruncate rels) =
     (if \<exists>rel \<in> set rels. lookup_map maps rel \<noteq> None then Inl (cdc_fatal cx truncate_text) else Inr [])"
| "message_rows cx keys maps m = Inr []"

fun learn :: "cdc_context \<Rightarrow> relation_maps \<Rightarrow> message \<Rightarrow> (source_error, relation_maps) result" where
  "learn cx maps (MRelation rel) =
     (if r_namespace rel = cx_schema cx \<and> r_name rel = cx_stream cx
      then rbind (plan_map cx rel) (\<lambda>m. Inr (maps(r_id rel \<mapsto> Some m)))
      else Inr (maps(r_id rel \<mapsto> None)))"
| "learn cx maps m = Inr maps"

text \<open>All rows of a transaction, or its first failure; relations are learned on the way.\<close>

fun body_rows :: "cdc_context \<Rightarrow> nat list \<Rightarrow> relation_maps \<Rightarrow> (lsn \<times> message) list
    \<Rightarrow> (source_error, relation_maps \<times> (source_error, change_row list) result) result" where
  "body_rows cx keys maps [] = Inr (maps, Inr [])"
| "body_rows cx keys maps ((l, m) # ms) =
     rbind (learn cx maps m) (\<lambda>maps'.
     rbind (body_rows cx keys maps' ms) (\<lambda>(maps'', rest).
     Inr (maps'', rbind (message_rows cx keys maps m) (\<lambda>rows. rbind rest (\<lambda>rows'. Inr (rows @ rows'))))))"

text \<open>The rows committed after \<open>since\<close> with their commit positions, up to the first failure.\<close>

fun committed :: "cdc_context \<Rightarrow> nat list \<Rightarrow> relation_maps \<Rightarrow> lsn \<Rightarrow> txn list
    \<Rightarrow> (lsn \<times> change_row list) list \<times> source_error option" where
  "committed cx keys maps since [] = ([], None)"
| "committed cx keys maps since (tx # txs) =
     (case body_rows cx keys maps (tx_body tx) of
        Inl e \<Rightarrow> ([], Some e)
      | Inr (maps', rows) \<Rightarrow>
          if tx_commit tx \<le> since then committed cx keys maps' since txs
          else
            (case rows of
               Inl e \<Rightarrow> ([], Some e)
             | Inr rows \<Rightarrow>
                 (let later = committed cx keys maps' since txs in ((tx_commit tx, rows) # fst later, snd later))))"

text \<open>What a change row becomes in a batch, and the rows of a list of emits.\<close>

definition row_out :: "pg_lib \<Rightarrow> cdc_context \<Rightarrow> change_row \<Rightarrow> (source_error, avalue list) result" where
  "row_out lib cx r =
     rbind (traverse (\<lambda>(column, c). case c of
         CNull \<Rightarrow> Inr ANull
       | CText t \<Rightarrow> map_err (cdc_fatal cx) (column_err column (append_text lib (pc_kind column) t)))
       (zip (cx_columns cx) (fst r))) (\<lambda>vs. Inr (vs @ [flag_value (snd r)]))"

definition emitted_rows :: "emit list \<Rightarrow> avalue list list" where
  "emitted_rows ems = concat (map (\<lambda>em. case em of EBatch b \<Rightarrow> rb_rows b | ECheckpoint _ \<Rightarrow> []) ems)"

lemma emitted_rows_simps [simp]:
  "emitted_rows [] = []" "emitted_rows (xs @ ys) = emitted_rows xs @ emitted_rows ys"
  "emitted_rows (EBatch b # ems) = rb_rows b @ emitted_rows ems"
  "emitted_rows (ECheckpoint l # ems) = emitted_rows ems"
  by (simp_all add: emitted_rows_def)

definition out_ok :: "pg_lib \<Rightarrow> cdc_context \<Rightarrow> change_row list \<Rightarrow> avalue list list \<Rightarrow> bool" where
  "out_ok lib cx rows vss \<longleftrightarrow> list_all2 (\<lambda>r vs. row_out lib cx r = Inr vs) rows vss"

lemma out_ok_append: "out_ok lib cx xs us \<Longrightarrow> out_ok lib cx ys vs \<Longrightarrow> out_ok lib cx (xs @ ys) (us @ vs)"
  by (simp add: out_ok_def list_all2_appendI)

lemma out_ok_Nil [simp]: "out_ok lib cx [] vss \<longleftrightarrow> vss = []"
  by (simp add: out_ok_def)

lemma traverse_Inr_iff: "traverse f xs = Inr ys \<longleftrightarrow> list_all2 (\<lambda>x y. f x = Inr y) xs ys"
  by (induction xs arbitrary: ys) (auto simp: rbind_eq_Inr list_all2_Cons1)

lemma map_err_eq_Inr: "map_err f r = Inr a \<longleftrightarrow> r = Inr a"
  by simp

lemma column_err_Inr [simp]: "column_err column r = Inr a \<longleftrightarrow> r = Inr a"
  by (simp add: column_err_def)

text \<open>Filling the columns one by one builds the rows one by one.\<close>

lemma column_arrays_cells:
  assumes "column_arrays lib k columns rows = Inr arrays" and "j < length rows"
  shows "list_all2 (\<lambda>(column, c) v. (case c of CNull \<Rightarrow> Inr ANull | CText t \<Rightarrow> append_text lib (pc_kind column) t) = Inr v)
    (zip columns (map (\<lambda>i. rows ! j ! i) [k..<k + length columns])) (map (\<lambda>a. a ! j) arrays)"
  using assms
proof (induction columns arbitrary: k arrays)
  case (Cons column columns)
  then obtain a as where a: "column_array lib column (map (\<lambda>r. r ! k) rows) = Inr a"
    and as: "column_arrays lib (Suc k) columns rows = Inr as" "arrays = a # as"
    by (auto simp: rbind_eq_Inr)
  from a have "list_all2 (\<lambda>c v. (case c of CNull \<Rightarrow> Inr ANull | CText t \<Rightarrow> append_text lib (pc_kind column) t) = Inr v)
      (map (\<lambda>r. r ! k) rows) a"
    by (simp add: column_array_def rbind_eq_Inr traverse_Inr_iff)
  moreover have "[k..<k + length (column # columns)] = k # [Suc k..<Suc k + length columns]"
    by (subst upt_conv_Cons) auto
  ultimately show ?case
    using list_all2_nthD [of _ "map (\<lambda>r. r ! k) rows" a j] Cons.prems(2) Cons.IH [OF as(1)] as(2)
    by (simp del: upt_Suc)
qed simp

lemma batch_of_rows:
  assumes b: "batch_of lib (cx_columns cx) flag (map fst rows) (map snd rows) = Inr b"
    and full: "\<And>r. r \<in> set rows \<Longrightarrow> length (fst r) = length (cx_columns cx)"
  shows "out_ok lib cx rows (rb_rows b)"
proof -
  from b obtain arrays where ar: "column_arrays lib 0 (cx_columns cx) (map fst rows) = Inr arrays"
    and rb: "rb_rows b = map (\<lambda>i. map (\<lambda>a. a ! i) arrays @ [flag_value (map snd rows ! i)]) [0..<length rows]"
    by (auto simp: batch_of_def rbind_eq_Inr)
  show ?thesis unfolding out_ok_def
  proof (rule list_all2_all_nthI)
    fix j assume j: "j < length rows"
    then have "map (\<lambda>i. map fst rows ! j ! i) [0..<length (cx_columns cx)] = fst (rows ! j)"
      using full [of "rows ! j"] by (auto intro: nth_equalityI)
    with column_arrays_cells [OF ar, of j] j
    have "list_all2 (\<lambda>(column, c) v. (case c of CNull \<Rightarrow> Inr ANull | CText t \<Rightarrow> append_text lib (pc_kind column) t) = Inr v)
      (zip (cx_columns cx) (fst (rows ! j))) (map (\<lambda>a. a ! j) arrays)" by simp
    then have "list_all2 (\<lambda>x v. (case x of (column, c) \<Rightarrow> case c of CNull \<Rightarrow> Inr ANull
        | CText t \<Rightarrow> map_err (cdc_fatal cx) (column_err column (append_text lib (pc_kind column) t))) = Inr v)
      (zip (cx_columns cx) (fst (rows ! j))) (map (\<lambda>a. a ! j) arrays)"
      by (rule list_all2_mono) (auto split: cell.splits)
    then show "row_out lib cx (rows ! j) = Inr (rb_rows b ! j)"
      using j by (simp add: row_out_def rb rbind_eq_Inr traverse_Inr_iff)
  qed (simp add: rb)
qed

section \<open>One change\<close>

definition maps_ok :: "cdc_context \<Rightarrow> relation_maps \<Rightarrow> bool" where
  "maps_ok cx maps \<longleftrightarrow> (\<forall>rel m. lookup_map maps rel = Some m \<longrightarrow> length m = length (cx_columns cx))"

definition full_rows :: "cdc_context \<Rightarrow> change_row list \<Rightarrow> bool" where
  "full_rows cx rows \<longleftrightarrow> (\<forall>r \<in> set rows. length (fst r) = length (cx_columns cx))"

lemma full_rows_append [simp]: "full_rows cx (xs @ ys) \<longleftrightarrow> full_rows cx xs \<and> full_rows cx ys"
  by (auto simp: full_rows_def)

lemma traverse_length: "traverse f xs = Inr ys \<Longrightarrow> length ys = length xs"
  by (simp add: traverse_Inr_iff list_all2_lengthD)

lemma place_cells_length [simp]: "length (place_cells cs row) = length row"
  by (induction cs row rule: place_cells.induct) auto

lemma delete_row_length [simp]: "length (delete_row cx keys key) = length (cx_columns cx)"
  by (simp add: delete_row_def)

lemma tuple_row_length:
  "tuple_row cx m t old = Inr row \<Longrightarrow> length m = length (cx_columns cx) \<Longrightarrow> length row = length (cx_columns cx)"
  unfolding tuple_row_def by (drule traverse_length) simp

lemma update_rows_full:
  assumes "update_rows cx keys m old new = Inr rows" and "length m = length (cx_columns cx)"
  shows "full_rows cx rows"
proof -
  from assms(1) obtain old_key row where "tuple_row cx m new old = Inr row"
    and "rows = (case old_key of
        Some key \<Rightarrow> if key_changed key (map (\<lambda>i. row ! i) keys) then [(delete_row cx keys key, True)] else []
      | None \<Rightarrow> []) @ [(row, False)]"
    unfolding update_rows_def rbind_eq_Inr Let_def by blast
  with tuple_row_length [OF this(1) assms(2)] show ?thesis by (auto simp: full_rows_def split: option.split)
qed

lemma message_rows_full:
  assumes "message_rows cx keys maps m = Inr rows" and "maps_ok cx maps"
  shows "full_rows cx rows"
  using assms
proof (cases m)
  case (MInsert rel new)
  with assms show ?thesis
    by (auto simp: maps_ok_def full_rows_def rbind_eq_Inr dest: tuple_row_length split: option.splits)
next
  case (MUpdate rel old new)
  with assms show ?thesis
    by (auto simp: maps_ok_def dest: update_rows_full split: option.splits) (simp add: full_rows_def)
next
  case (MDelete rel old)
  with assms show ?thesis
    by (auto simp: full_rows_def rbind_eq_Inr delete_rows_def split: option.splits if_splits)
qed (use assms in \<open>auto simp: full_rows_def split: if_splits\<close>)

lemma learn_maps_ok: "learn cx maps m = Inr maps' \<Longrightarrow> maps_ok cx maps \<Longrightarrow> maps_ok cx maps'"
  by (cases m)
    (auto simp: maps_ok_def lookup_map_def rbind_eq_Inr plan_map_def dest!: traverse_length split: if_splits)

text \<open>The transaction's rows so far, or its first failure.\<close>

definition pending :: "apply_state \<Rightarrow> (source_error, change_row list) result" where
  "pending ap = (case ap_transaction_error ap of Some e \<Rightarrow> Inl e | None \<Rightarrow> Inr (ap_transaction_rows ap))"

definition joined :: "(source_error, 'a list) result \<Rightarrow> (source_error, 'a list) result \<Rightarrow> (source_error, 'a list) result" where
  "joined r s = rbind r (\<lambda>xs. rbind s (\<lambda>ys. Inr (xs @ ys)))"

lemma joined_simps [simp]: "joined r (Inr []) = r" "joined (Inr []) r = r" "joined (joined r s) t = joined r (joined s t)"
  by (cases r; cases s; cases t; simp add: joined_def)+

lemma pending_buffer: "pending (buffer built ap) = joined (pending ap) built"
  by (auto simp: pending_def buffer_def joined_def defer_error_def split: sum.splits option.splits)

text \<open>Everything but the transaction under way.\<close>

definition settled :: "apply_state \<Rightarrow> lsn \<times> nat list \<times> change_row list \<times> lsn option" where
  "settled ap = (ap_since ap, ap_key_indices ap, ap_ready_rows ap, ap_last_commit ap)"

lemma settled_buffer [simp]: "settled (buffer built ap) = settled ap"
  "ap_relation_maps (buffer built ap) = ap_relation_maps ap"
  by (auto simp: settled_def buffer_def defer_error_def split: sum.splits)

lemma settled_maps [simp]: "settled (ap\<lparr>ap_relation_maps := x\<rparr>) = settled ap"
  "pending (ap\<lparr>ap_relation_maps := x\<rparr>) = pending ap"
  by (auto simp: settled_def pending_def split: option.split)

lemma our_map_lookup: "our_map ap = lookup_map (ap_relation_maps ap)"
  by (simp add: our_map_def lookup_map_def fun_eq_iff)

lemma on_change_message:
  assumes "change_message m"
  shows "on_message lib cx l m ap =
    rbind (learn cx (ap_relation_maps ap) m) (\<lambda>maps'.
      Inr ((buffer (message_rows cx (ap_key_indices ap) (ap_relation_maps ap) m) ap)\<lparr>ap_relation_maps := maps'\<rparr>, []))"
proof -
  have keep: "(buffer built ap)\<lparr>ap_relation_maps := ap_relation_maps ap\<rparr> = buffer built ap" for built
    by (auto simp: buffer_def defer_error_def split: sum.splits)
  have none: "buffer (Inr []) ap = ap" by (simp add: buffer_def)
  show ?thesis
    using assms keep none
    by (cases m)
      (auto simp: change_message_def our_map_lookup rbind_def buffer_def split: option.splits sum.splits)
qed

definition parses :: "change \<Rightarrow> lsn \<times> message \<Rightarrow> bool" where
  "parses c lm \<longleftrightarrow> (\<exists>bs. c = Inr (fst lm, bs) \<and> parse_message bs = Inr (snd lm))"

lemma parses_pair [simp]: "parses c (l, m) \<longleftrightarrow> (\<exists>bs. c = Inr (l, bs) \<and> parse_message bs = Inr m)"
  by (simp add: parses_def)

lemma apply_changes_body:
  assumes "list_all2 parses changes body" and "list_all (change_message \<circ> snd) body"
    and "maps_ok cx (ap_relation_maps ap)"
    and "body_rows cx (ap_key_indices ap) (ap_relation_maps ap) body = Inr (maps', rows)"
  shows "\<exists>ap'. apply_changes lib cx closed target (changes @ more_changes) ap feed
        = apply_changes lib cx closed target more_changes ap' feed
      \<and> ap_relation_maps ap' = maps' \<and> maps_ok cx maps' \<and> settled ap' = settled ap
      \<and> pending ap' = joined (pending ap) rows \<and> (\<forall>rs. rows = Inr rs \<longrightarrow> full_rows cx rs)"
  using assms
proof (induction body arbitrary: changes ap rows rule: list.induct)
  case Nil
  then show ?case by (intro exI [of _ ap]) (auto simp: full_rows_def)
next
  case (Cons lm body)
  obtain l m where lm: "lm = (l, m)" by (cases lm)
  from Cons.prems(1) lm obtain bs cs where cs: "changes = Inr (l, bs) # cs" "parse_message bs = Inr m"
    "list_all2 parses cs body" by (auto simp: list_all2_Cons2)
  from Cons.prems(4) lm obtain maps1 rest where
    lr: "learn cx (ap_relation_maps ap) m = Inr maps1"
    and br: "body_rows cx (ap_key_indices ap) maps1 body = Inr (maps', rest)"
    and rows: "rows = joined (message_rows cx (ap_key_indices ap) (ap_relation_maps ap) m) rest"
    by (auto simp: rbind_eq_Inr joined_def)
  let ?ap = "(buffer (message_rows cx (ap_key_indices ap) (ap_relation_maps ap) m) ap)\<lparr>ap_relation_maps := maps1\<rparr>"
  have k: "ap_key_indices ?ap = ap_key_indices ap"
    by (auto simp: buffer_def defer_error_def split: sum.splits)
  have "change_message m" using Cons.prems(2) lm by simp
  with lr have step: "on_message lib cx l m ap = Inr (?ap, [])" by (simp add: on_change_message)
  have "maps_ok cx maps1" using learn_maps_ok [OF lr Cons.prems(3)] .
  with Cons.IH [of cs ?ap rest] cs(3) Cons.prems(2) br k obtain ap' where ap':
    "apply_changes lib cx closed target (cs @ more_changes) ?ap feed
        = apply_changes lib cx closed target more_changes ap' feed"
    "ap_relation_maps ap' = maps'" "maps_ok cx maps'" "settled ap' = settled ?ap"
    "pending ap' = joined (pending ?ap) rest" "\<forall>rs. rest = Inr rs \<longrightarrow> full_rows cx rs" by auto
  have "full_rows cx rs" if "rows = Inr rs" for rs
    using that rows ap'(6) message_rows_full [OF _ Cons.prems(3)]
    by (auto simp: joined_def rbind_eq_Inr)
  with ap' step cs(1,2) rows show ?case
    by (intro exI [of _ ap']) (auto simp: pending_buffer)
qed

lemma apply_changes_body_fails:
  assumes "list_all2 parses changes body" and "list_all (change_message \<circ> snd) body"
    and "body_rows cx (ap_key_indices ap) (ap_relation_maps ap) body = Inl e"
  shows "apply_changes lib cx closed target (changes @ more_changes) ap feed = (Inl e, feed)"
  using assms
proof (induction body arbitrary: changes ap rule: list.induct)
  case (Cons lm body)
  obtain l m where lm: "lm = (l, m)" by (cases lm)
  from Cons.prems(1) lm obtain bs cs where cs: "changes = Inr (l, bs) # cs" "parse_message bs = Inr m"
    "list_all2 parses cs body" by (auto simp: list_all2_Cons2)
  have m: "change_message m" using Cons.prems(2) lm by simp
  show ?case
  proof (cases "learn cx (ap_relation_maps ap) m")
    case (Inl e')
    with Cons.prems(3) lm m cs show ?thesis by (simp add: on_change_message)
  next
    case (Inr maps1)
    let ?ap = "(buffer (message_rows cx (ap_key_indices ap) (ap_relation_maps ap) m) ap)\<lparr>ap_relation_maps := maps1\<rparr>"
    have "ap_key_indices ?ap = ap_key_indices ap"
      by (auto simp: buffer_def defer_error_def split: sum.splits)
    with Cons.IH [of cs ?ap] cs Cons.prems(2,3) Inr lm m show ?thesis
      by (simp add: on_change_message rbind_eq_Inl)
  qed
qed simp

section \<open>Checkpoints\<close>

text \<open>
  \<open>cp_ok\<close>: what was emitted before any checkpoint is exactly the rows of the transactions up
  to it.
\<close>

definition rows_upto :: "lsn \<Rightarrow> (lsn \<times> change_row list) list \<Rightarrow> change_row list" where
  "rows_upto l C = concat (map snd (filter (\<lambda>(c, _). c \<le> l) C))"

definition cp_ok :: "pg_lib \<Rightarrow> cdc_context \<Rightarrow> lsn \<Rightarrow> (lsn \<times> change_row list) list \<Rightarrow> emit list \<Rightarrow> bool" where
  "cp_ok lib cx since C ems \<longleftrightarrow>
     (\<forall>pre l post. ems = pre @ ECheckpoint l # post \<longrightarrow>
        since \<le> l \<and> out_ok lib cx (rows_upto l C) (emitted_rows pre))"

definition checkpoints :: "emit list \<Rightarrow> lsn set" where
  "checkpoints ems = {l. ECheckpoint l \<in> set ems}"

lemma rows_upto_append: "rows_upto l (C @ D) = rows_upto l C @ rows_upto l D"
  by (simp add: rows_upto_def)

lemma rows_upto_all: "(\<And>c rows. (c, rows) \<in> set C \<Longrightarrow> c \<le> l) \<Longrightarrow> rows_upto l C = concat (map snd C)"
  unfolding rows_upto_def by (subst filter_True) auto

lemma rows_upto_none: "(\<And>c rows. (c, rows) \<in> set C \<Longrightarrow> l < c) \<Longrightarrow> rows_upto l C = []"
  unfolding rows_upto_def by (subst filter_False) (fastforce simp: not_le)+

lemma cp_ok_Nil [simp]: "cp_ok lib cx since C []"
  by (simp add: cp_ok_def)

lemma cp_ok_prefix: "cp_ok lib cx since C (xs @ ys) \<Longrightarrow> cp_ok lib cx since C xs"
  unfolding cp_ok_def by (metis append_assoc append_Cons)

lemma cp_ok_extend:
  assumes "cp_ok lib cx since C ems" and "\<And>l c rows. l \<in> checkpoints ems \<Longrightarrow> (c, rows) \<in> set D \<Longrightarrow> l < c"
  shows "cp_ok lib cx since (C @ D) ems"
  unfolding cp_ok_def
proof (intro allI impI)
  fix pre l post assume e: "ems = pre @ ECheckpoint l # post"
  then have "rows_upto l D = []" using assms(2) by (intro rows_upto_none) (auto simp: checkpoints_def)
  with assms(1) e show "since \<le> l \<and> out_ok lib cx (rows_upto l (C @ D)) (emitted_rows pre)"
    by (auto simp: cp_ok_def rows_upto_append)
qed

lemma cp_ok_snoc:
  "cp_ok lib cx since C (ems @ [em]) \<longleftrightarrow> cp_ok lib cx since C ems \<and>
    (case em of EBatch _ \<Rightarrow> True | ECheckpoint l \<Rightarrow> since \<le> l \<and> out_ok lib cx (rows_upto l C) (emitted_rows ems))"
  (is "?l \<longleftrightarrow> ?r")
proof
  assume ?l
  then show ?r using cp_ok_prefix [of lib cx since C ems "[em]"] by (auto simp: cp_ok_def split: emit.split)
next
  assume r: ?r
  show ?l unfolding cp_ok_def
  proof (intro allI impI)
    fix pre l post assume e: "ems @ [em] = pre @ ECheckpoint l # post"
    show "since \<le> l \<and> out_ok lib cx (rows_upto l C) (emitted_rows pre)"
    proof (cases post rule: rev_cases)
      case Nil
      with e r show ?thesis by auto
    next
      case (snoc post' x)
      with e have "ems = pre @ ECheckpoint l # post'" by simp
      with r show ?thesis by (auto simp: cp_ok_def)
    qed
  qed
qed

lemma deliver_emits_prefix:
  "deliver_emits closed ems feed = (taken, feed') \<Longrightarrow>
    \<exists>xs ys. ems = xs @ ys \<and> feed' = feed @ map event_of xs \<and> (taken \<longrightarrow> ys = [])"
proof (induction closed ems feed rule: deliver_emits.induct)
  case (2 closed em ems feed)
  show ?case
  proof (cases "closed feed")
    case True
    with 2 show ?thesis by (intro exI [of _ "[]"] exI [of _ "em # ems"]) auto
  next
    case False
    with 2 obtain xs ys where "ems = xs @ ys" "feed' = (feed @ [event_of em]) @ map event_of xs" "taken \<longrightarrow> ys = []"
      by auto
    then show ?thesis by (intro exI [of _ "em # xs"] exI [of _ ys]) auto
  qed
qed auto

text \<open>The apply state between two transactions, after the commits \<open>C\<close> and the emits \<open>ems\<close>.\<close>

definition between :: "pg_lib \<Rightarrow> cdc_context \<Rightarrow> lsn \<Rightarrow> nat list \<Rightarrow> (lsn \<times> change_row list) list \<Rightarrow> emit list
    \<Rightarrow> apply_state \<Rightarrow> bool" where
  "between lib cx since keys C ems ap \<longleftrightarrow>
     ap_since ap = since \<and> ap_key_indices ap = keys \<and> ap_transaction_error ap = None
     \<and> maps_ok cx (ap_relation_maps ap) \<and> full_rows cx (ap_ready_rows ap)
     \<and> ap_last_commit ap = (if C = [] then None else Some (fst (last C)))
     \<and> (\<exists>sent. concat (map snd C) = sent @ ap_ready_rows ap \<and> out_ok lib cx sent (emitted_rows ems))
     \<and> cp_ok lib cx since C ems \<and> checkpoints ems \<subseteq> fst ` set C \<and> (\<forall>c \<in> fst ` set C. since < c)
     \<and> sorted_wrt (<) (map fst C)"

lemma flush_spec:
  assumes "flush lib cx ec ap = Inr (ap', emits)" and "full_rows cx (ap_ready_rows ap)"
  shows "ap' = ap\<lparr>ap_ready_rows := []\<rparr> \<and> out_ok lib cx (ap_ready_rows ap) (emitted_rows emits)
    \<and> (emits = [] \<or> (\<exists>b. emits = EBatch b # (case ap_last_commit ap of
          Some commit \<Rightarrow> if ec then [ECheckpoint commit] else [] | None \<Rightarrow> [])))"
proof (cases "ap_ready_rows ap = []")
  case True
  with assms show ?thesis by (cases ap) (auto simp: flush_def)
next
  case False
  with assms(1) obtain b where b: "batch_of lib (cx_columns cx) (cx_flag_column cx)
      (map fst (ap_ready_rows ap)) (map snd (ap_ready_rows ap)) = Inr b"
    and e: "ap' = ap\<lparr>ap_ready_rows := []\<rparr>" "emits = EBatch b # (case ap_last_commit ap of
          Some commit \<Rightarrow> if ec then [ECheckpoint commit] else [] | None \<Rightarrow> [])"
    by (auto simp: flush_def rbind_eq_Inr)
  from batch_of_rows [OF b] assms(2) have "out_ok lib cx (ap_ready_rows ap) (rb_rows b)"
    by (simp add: full_rows_def)
  with e show ?thesis by (auto split: option.split)
qed

text \<open>A commit: the transaction's rows become ready, and are flushed when a batch is full.\<close>

lemma between_commit:
  assumes bt: "between lib cx since keys C ems ap" and st: "settled ap' = settled ap"
    and maps: "maps_ok cx (ap_relation_maps ap')" and pend: "pending ap' = Inr rows" and full: "full_rows cx rows"
    and l: "since < l" "\<And>c. c \<in> fst ` set C \<Longrightarrow> c < l"
    and step: "on_message lib cx l MCommit ap' = Inr (ap'', emits)"
  shows "between lib cx since keys (C @ [(l, rows)]) (ems @ emits) ap''
    \<and> cp_ok lib cx since (C @ [(l, rows)]) ems \<and> ap_relation_maps ap'' = ap_relation_maps ap'"
proof -
  let ?C = "C @ [(l, rows)]"
  define ready where "ready = ap_ready_rows ap @ rows"
  define u where "u = ap'\<lparr>ap_transaction_rows := [], ap_transaction_error := None, ap_ready_rows := ready, ap_last_commit := Some l\<rparr>"
  from bt st have f: "ap_since ap' = since" "ap_key_indices ap' = keys" "ap_ready_rows ap' = ap_ready_rows ap"
    by (auto simp: settled_def between_def)
  from pend have "ap_transaction_error ap' = None" "ap_transaction_rows ap' = rows"
    by (auto simp: pending_def split: option.splits)
  moreover have "\<not> l \<le> since" using l(1) by (simp add: not_le)
  ultimately have run: "(if cx_batch_max_rows cx \<le> length ready then flush lib cx True u else Inr (u, [])) = Inr (ap'', emits)"
    using step f by (auto simp: Let_def u_def ready_def split: if_splits)
  from bt obtain sent where sent: "concat (map snd C) = sent @ ap_ready_rows ap" "out_ok lib cx sent (emitted_rows ems)"
    by (auto simp: between_def)
  have cps: "checkpoints ems \<subseteq> fst ` set C" and old: "cp_ok lib cx since C ems" using bt by (auto simp: between_def)
  have cp: "cp_ok lib cx since ?C ems"
    by (rule cp_ok_extend [OF old]) (use cps l(2) in auto)
  have fr: "full_rows cx ready" using bt full by (auto simp: between_def ready_def)
  have all: "rows_upto l ?C = concat (map snd ?C)"
    by (rule rows_upto_all) (use l(2) in \<open>force intro: less_imp_le\<close>)
  have base: "between lib cx since keys ?C ems u"
    using bt cp fr maps sent l f cps
    by (auto simp: between_def u_def ready_def sorted_wrt_append intro!: exI [of _ sent])
  show ?thesis
  proof (cases "cx_batch_max_rows cx \<le> length ready")
    case False
    with run base cp show ?thesis by (auto simp: u_def)
  next
    case True
    with run have "flush lib cx True u = Inr (ap'', emits)" by simp
    from flush_spec [OF this] fr have fl: "ap'' = u\<lparr>ap_ready_rows := []\<rparr>" "out_ok lib cx ready (emitted_rows emits)"
      "emits = [] \<or> (\<exists>b. emits = [EBatch b, ECheckpoint l])" by (auto simp: u_def)
    have out: "out_ok lib cx (concat (map snd ?C)) (emitted_rows ems @ emitted_rows emits)"
      using out_ok_append [OF sent(2) fl(2)] sent(1) by (simp add: ready_def)
    have "cp_ok lib cx since ?C (ems @ emits)"
    proof (cases "emits = []")
      case False
      with fl(3) obtain b where e: "emits = [EBatch b, ECheckpoint l]" by blast
      have "cp_ok lib cx since ?C ((ems @ [EBatch b]) @ [ECheckpoint l])"
        unfolding cp_ok_snoc using cp out e l(1) all by (simp add: cp_ok_snoc)
      with e show ?thesis by simp
    qed (simp add: cp)
    moreover have "checkpoints (ems @ emits) \<subseteq> fst ` set ?C" using cps fl(3) by (auto simp: checkpoints_def)
    ultimately show ?thesis
      using base cp fl(1) out by (auto simp: between_def u_def full_rows_def)
  qed
qed

definition ends_with :: "emit list \<Rightarrow> lsn \<Rightarrow> bool" where
  "ends_with ems l \<longleftrightarrow> (\<exists>es. ems = es @ [ECheckpoint l])"

text \<open>A checkpoint stands at a commit, or closes a pass that failed nowhere.\<close>

definition reaches :: "lsn \<Rightarrow> (lsn \<times> change_row list) list \<Rightarrow> bool \<Rightarrow> emit list \<Rightarrow> bool" where
  "reaches l C ok ems \<longleftrightarrow> (\<forall>c \<in> checkpoints ems. c \<in> fst ` set C \<or> c = l \<and> ok)"

lemma reaches_subset: "checkpoints ems \<subseteq> fst ` set C \<Longrightarrow> reaches l (C @ D) ok ems"
  by (auto simp: reaches_def)

lemma checkpoints_append [simp]: "checkpoints (xs @ ys) = checkpoints xs \<union> checkpoints ys"
  by (auto simp: checkpoints_def)

lemma apply_changes_end:
  assumes bt: "between lib cx since keys C ems ap" and upto: "\<And>c. c \<in> fst ` set C \<Longrightarrow> c \<le> target"
    and run: "apply_changes lib cx closed target [] ap feed = (res, feed')"
  shows "\<exists>ems'. feed' = feed @ map event_of ems' \<and> cp_ok lib cx since C (ems @ ems')
    \<and> reaches (max target since) C True (ems @ ems')
    \<and> (res = Inr Complete \<longrightarrow> ends_with (ems @ ems') (max target since))"
proof -
  let ?ap = "ap\<lparr>ap_transaction_rows := [], ap_transaction_error := None\<rparr>"
  from bt have cp: "cp_ok lib cx since C ems" and cps: "checkpoints ems \<subseteq> fst ` set C" and fr: "full_rows cx (ap_ready_rows ?ap)"
    by (auto simp: between_def)
  show ?thesis
  proof (cases "flush lib cx False ?ap")
    case (Inl e)
    with run cp cps show ?thesis by (intro exI [of _ "[]"]) (auto simp: finish_def reaches_def)
  next
    case (Inr r)
    obtain ap' es where r: "r = (ap', es)" by (cases r)
    have fl: "ap' = ?ap\<lparr>ap_ready_rows := []\<rparr>" "out_ok lib cx (ap_ready_rows ap) (emitted_rows es)"
      "es = [] \<or> (\<exists>b. es = [EBatch b])"
      using flush_spec [OF Inr [unfolded r] fr] by (auto split: option.splits)
    let ?l = "max target since"
    from bt obtain sent where sent: "concat (map snd C) = sent @ ap_ready_rows ap" "out_ok lib cx sent (emitted_rows ems)"
      by (auto simp: between_def)
    have "rows_upto ?l C = concat (map snd C)"
      by (rule rows_upto_all) (use upto in \<open>force simp: le_max_iff_disj\<close>)
    then have out: "out_ok lib cx (rows_upto ?l C) (emitted_rows (ems @ es))"
      using out_ok_append [OF sent(2) fl(2)] sent(1) by simp
    have "cp_ok lib cx since C (ems @ es)" using cp fl(3) by (auto simp: cp_ok_snoc)
    with out have fin: "cp_ok lib cx since C ((ems @ es) @ [ECheckpoint ?l])"
      unfolding cp_ok_snoc by simp
    have "finish lib cx target ap = Inr (ap', es @ [ECheckpoint ?l])"
      using Inr r fl(1) bt by (simp add: finish_def between_def)
    with run obtain taken where "deliver_emits closed (es @ [ECheckpoint ?l]) feed = (taken, feed')"
      and res: "res = Inr (if taken then Complete else Cancelled)" by (auto split: prod.splits bool.splits)
    from deliver_emits_prefix [OF this(1)] obtain xs ys where
      xs: "es @ [ECheckpoint ?l] = xs @ ys" "feed' = feed @ map event_of xs" "taken \<longrightarrow> ys = []" by blast
    have "cp_ok lib cx since C (ems @ xs)"
      using cp_ok_prefix [of lib cx since C "ems @ xs" ys] fin xs(1) by simp
    moreover have "ends_with (ems @ xs) ?l" if "res = Inr Complete"
      using that res xs(1,3) by (auto simp: ends_with_def split: if_splits)
    moreover have "reaches ?l C True (ems @ xs)"
    proof -
      have "checkpoints (es @ [ECheckpoint ?l]) \<subseteq> {?l}" using fl(3) by (auto simp: checkpoints_def)
      with xs(1) cps show ?thesis by (auto simp: reaches_def)
    qed
    ultimately show ?thesis using xs(2) by blast
  qed
qed

definition well_formed_txn :: "txn \<Rightarrow> bool" where
  "well_formed_txn tx \<longleftrightarrow> list_all (change_message \<circ> snd) (tx_body tx)"

lemma between_relations:
  assumes "between lib cx since keys C ems ap" and "settled ap' = settled ap"
    and "maps_ok cx (ap_relation_maps ap')" and "ap_transaction_error ap' = None"
  shows "between lib cx since keys C ems ap'"
  using assms by (auto simp: between_def settled_def)

lemma committed_after: "(c, rows) \<in> set (fst (committed cx keys maps since txs)) \<Longrightarrow> c \<in> tx_commit ` set txs"
proof (induction txs arbitrary: maps)
  case (Cons tx txs)
  from Cons.prems show ?case by (auto simp: Let_def split: sum.splits if_splits prod.splits dest: Cons.IH)
qed simp

lemma apply_changes_txns:
  assumes "between lib cx since keys C ems ap"
    and "list_all2 parses changes (concat (map txn_messages txs))"
    and "list_all well_formed_txn txs"
    and "sorted_wrt (<) (map tx_commit txs)"
    and "\<And>c tx. c \<in> fst ` set C \<Longrightarrow> tx \<in> set txs \<Longrightarrow> c < tx_commit tx"
    and "\<And>c. c \<in> fst ` set C \<union> tx_commit ` set txs \<Longrightarrow> c \<le> target"
    and "apply_changes lib cx closed target changes ap feed = (res, feed')"
  shows "\<exists>ems'. feed' = feed @ map event_of ems'
    \<and> cp_ok lib cx since (C @ fst (committed cx keys (ap_relation_maps ap) since txs)) (ems @ ems')
    \<and> reaches (max target since) (C @ fst (committed cx keys (ap_relation_maps ap) since txs))
        (snd (committed cx keys (ap_relation_maps ap) since txs) = None) (ems @ ems')
    \<and> (res = Inr Complete \<longrightarrow> snd (committed cx keys (ap_relation_maps ap) since txs) = None
         \<and> ends_with (ems @ ems') (max target since))"
  using assms
proof (induction txs arbitrary: C ems ap changes feed)
  case Nil
  then have "changes = []" by simp
  with Nil.prems apply_changes_end [OF Nil.prems(1), of target closed feed res feed'] show ?case by auto
next
  case (Cons tx txs)
  note bt = Cons.prems(1)
  from bt have keys: "ap_key_indices ap = keys" and cps: "checkpoints ems \<subseteq> fst ` set C"
    and old: "cp_ok lib cx since C ems" by (auto simp: between_def)
  let ?ap0 = "ap\<lparr>ap_transaction_rows := []\<rparr>"
  have "concat (map txn_messages (tx # txs))
      = (tx_begin tx, MBegin) # tx_body tx @ (tx_commit tx, MCommit) # concat (map txn_messages txs)"
    by (simp add: txn_messages_def)
  from Cons.prems(2) [unfolded this] obtain bs0 body bs1 rest where
    ch: "changes = Inr (tx_begin tx, bs0) # body @ Inr (tx_commit tx, bs1) # rest"
    and pm: "parse_message bs0 = Inr MBegin" "parse_message bs1 = Inr MCommit"
    and body: "list_all2 parses body (tx_body tx)"
    and rest: "list_all2 parses rest (concat (map txn_messages txs))"
    by (auto simp: list_all2_append2 list_all2_Cons2)
  have wf: "list_all (change_message \<circ> snd) (tx_body tx)" using Cons.prems(3) by (simp add: well_formed_txn_def)
  from Cons.prems(7) ch pm have run: "apply_changes lib cx closed target (body @ Inr (tx_commit tx, bs1) # rest) ?ap0 feed = (res, feed')"
    by simp
  have late: "l < c" if "l \<in> checkpoints ems" "c \<in> tx_commit ` set (tx # txs)" for l c
  proof -
    from that cps have "l \<in> fst ` set C" by (rule_tac subsetD)
    moreover from that(2) obtain t where "t \<in> set (tx # txs)" "c = tx_commit t" by (elim imageE)
    ultimately show ?thesis using Cons.prems(5) by simp
  qed
  have keep: "cp_ok lib cx since (C @ fst (committed cx keys (ap_relation_maps ap) since (tx # txs))) ems"
    by (rule cp_ok_extend [OF old]) (rule late, assumption, erule committed_after)
  show ?case
  proof (cases "body_rows cx keys (ap_relation_maps ap) (tx_body tx)")
    case (Inl e)
    then have br: "body_rows cx (ap_key_indices ?ap0) (ap_relation_maps ?ap0) (tx_body tx) = Inl e"
      using keys by simp
    note apply_changes_body_fails [OF body wf br, of lib closed target "Inr (tx_commit tx, bs1) # rest" feed]
    with run have "res = Inl e" "feed' = feed" by simp_all
    with keep cps show ?thesis by (intro exI [of _ "[]"]) (simp add: reaches_subset)
  next
    case (Inr mr)
    obtain maps' rows where mr: "mr = (maps', rows)" by (cases mr)
    have mo: "maps_ok cx (ap_relation_maps ?ap0)" and pend0: "pending ?ap0 = Inr []"
      using bt by (simp_all add: between_def pending_def)
    have br: "body_rows cx (ap_key_indices ?ap0) (ap_relation_maps ?ap0) (tx_body tx) = Inr (maps', rows)"
      using Inr mr keys by simp
    from apply_changes_body [OF body wf mo br, of lib closed target "Inr (tx_commit tx, bs1) # rest" feed]
    obtain ap' where ap': "apply_changes lib cx closed target (Inr (tx_commit tx, bs1) # rest) ap' feed = (res, feed')"
      "ap_relation_maps ap' = maps'" "maps_ok cx maps'" "settled ap' = settled ?ap0"
      "pending ap' = rows" "\<forall>rs. rows = Inr rs \<longrightarrow> full_rows cx rs"
      using run pend0 by fastforce
    have since: "ap_since ap' = since" and st: "settled ap' = settled ap"
      using ap'(4) bt by (auto simp: settled_def between_def)
    consider (applied) "tx_commit tx \<le> since"
      | (failed) e where "\<not> tx_commit tx \<le> since" "rows = Inl e"
      | (fresh) rs where "\<not> tx_commit tx \<le> since" "rows = Inr rs" by (cases rows) auto
    then show ?thesis
    proof cases
      case applied
      let ?ap1 = "ap'\<lparr>ap_transaction_rows := [], ap_transaction_error := None\<rparr>"
      from applied ap'(1) pm since have "apply_changes lib cx closed target rest ?ap1 feed = (res, feed')"
        by (simp add: Let_def)
      moreover have "between lib cx since keys C ems ?ap1"
        by (rule between_relations [OF bt]) (use st ap'(2,3) in \<open>auto simp: settled_def\<close>)
      ultimately obtain ems' where "feed' = feed @ map event_of ems'"
        "cp_ok lib cx since (C @ fst (committed cx keys maps' since txs)) (ems @ ems')"
        "reaches (max target since) (C @ fst (committed cx keys maps' since txs)) (snd (committed cx keys maps' since txs) = None) (ems @ ems')"
        "res = Inr Complete \<longrightarrow> snd (committed cx keys maps' since txs) = None \<and> ends_with (ems @ ems') (max target since)"
        using Cons.IH [of C ems ?ap1 rest feed] Cons.prems(3-6) rest ap'(2) by auto
      with applied Inr mr show ?thesis by auto
    next
      case failed
      with ap'(1,5) pm since have "res = Inl e" "feed' = feed"
        by (auto simp: pending_def Let_def split: option.splits)
      with keep cps show ?thesis by (intro exI [of _ "[]"]) (simp add: reaches_subset)
    next
      case fresh
      then have "since < tx_commit tx" by (simp add: not_le)
      let ?C = "C @ [(tx_commit tx, rs)]"
      have com: "committed cx keys (ap_relation_maps ap) since (tx # txs)
          = ((tx_commit tx, rs) # fst (committed cx keys maps' since txs), snd (committed cx keys maps' since txs))"
        using fresh Inr mr by (simp add: Let_def)
      show ?thesis
      proof (cases "on_message lib cx (tx_commit tx) MCommit ap'")
        case (Inl e)
        with ap'(1) pm have "res = Inl e" "feed' = feed" by simp_all
        with keep cps show ?thesis by (intro exI [of _ "[]"]) (simp add: reaches_subset)
      next
        case (Inr r)
        obtain ap2 emits where r: "r = (ap2, emits)" by (cases r)
        have nxt: "between lib cx since keys ?C (ems @ emits) ap2" "ap_relation_maps ap2 = maps'"
          using between_commit [OF bt st _ _ _ _ _ Inr [unfolded r], of rs] ap' fresh Cons.prems(5) \<open>since < tx_commit tx\<close>
          by auto
        obtain taken feed1 where dl: "deliver_emits closed emits feed = (taken, feed1)" by fastforce
        from deliver_emits_prefix [OF this] obtain xs ys where
          xs: "emits = xs @ ys" "feed1 = feed @ map event_of xs" "taken \<longrightarrow> ys = []" by blast
        show ?thesis
        proof (cases taken)
          case True
          with ap'(1) pm Inr r dl have "apply_changes lib cx closed target rest ap2 feed1 = (res, feed')" by simp
          note run2 = this
          have wf2: "list_all well_formed_txn txs" "sorted_wrt (<) (map tx_commit txs)"
            using Cons.prems(3,4) by simp_all
          have lt2: "c < tx_commit t" if "c \<in> fst ` set ?C" "t \<in> set txs" for c t
            using that Cons.prems(4,5) by auto
          have le2: "c \<le> target" if "c \<in> fst ` set ?C \<union> tx_commit ` set txs" for c
            using that Cons.prems(6) [of c] by auto
          from Cons.IH [OF nxt(1) rest wf2 lt2 le2 run2] nxt(2) obtain ems' where
            "feed' = feed1 @ map event_of ems'"
            "cp_ok lib cx since (?C @ fst (committed cx keys maps' since txs)) ((ems @ emits) @ ems')"
            "reaches (max target since) (?C @ fst (committed cx keys maps' since txs)) (snd (committed cx keys maps' since txs) = None) ((ems @ emits) @ ems')"
            "res = Inr Complete \<longrightarrow> snd (committed cx keys maps' since txs) = None
              \<and> ends_with ((ems @ emits) @ ems') (max target since)"
            by auto
          with True xs com show ?thesis by (intro exI [of _ "emits @ ems'"]) simp
        next
          case False
          with ap'(1) pm Inr r dl have res: "res = Inr Cancelled" "feed' = feed1" by simp_all
          have "cp_ok lib cx since (?C @ fst (committed cx keys maps' since txs)) (ems @ emits)"
          proof (rule cp_ok_extend)
            show "cp_ok lib cx since ?C (ems @ emits)" using nxt(1) by (simp add: between_def)
            fix l c rows' assume "l \<in> checkpoints (ems @ emits)" "(c, rows') \<in> set (fst (committed cx keys maps' since txs))"
            then have "l \<in> fst ` set ?C" "c \<in> tx_commit ` set txs" using nxt(1) committed_after by (auto simp: between_def)
            then show "l < c" using Cons.prems(4,5) by auto
          qed
          with xs(1) have "cp_ok lib cx since (?C @ fst (committed cx keys maps' since txs)) (ems @ xs)"
            using cp_ok_prefix [where ys = ys] by simp
          moreover have "checkpoints (ems @ xs) \<subseteq> fst ` set ?C"
          proof -
            have "checkpoints (ems @ emits) \<subseteq> fst ` set ?C" using nxt(1) by (simp only: between_def)
            then show ?thesis using xs(1) by simp
          qed
          from reaches_subset [OF this]
          have "reaches (max target since) (?C @ fst (committed cx keys maps' since txs)) (snd (committed cx keys maps' since txs) = None) (ems @ xs)" .
          ultimately show ?thesis using res xs(2) com by (intro exI [of _ xs]) simp
        qed
      qed
    qed
  qed
qed

text \<open>
  A relation message that lacks a planned column ends the pass at once, also inside a
  transaction that is applied already.
\<close>

lemma old_relation_fatal:
  assumes "parse_message bs = Inr (MRelation rel)" and "r_namespace rel = cx_schema cx" and "r_name rel = cx_stream cx"
    and "plan_map cx rel = Inl e"
  shows "apply_changes lib cx closed target (Inr (l, bs) # changes) ap feed = (Inl e, feed)"
  using assms by simp

section \<open>Resuming a pass\<close>

definition sent_rows :: "pg_feed \<Rightarrow> avalue list list" where
  "sent_rows feed = concat (map (\<lambda>ev. case ev of SentBatch b \<Rightarrow> rb_rows b | SentCheckpoint _ \<Rightarrow> []) feed)"

lemma sent_rows_events: "sent_rows (map event_of ems) = emitted_rows ems"
  by (induction ems) (auto simp: sent_rows_def emitted_rows_def event_of_def split: emit.split)

lemma event_of_checkpoint: "event_of em = SentCheckpoint (encode_resume l) \<longleftrightarrow> em = ECheckpoint l"
  by (auto simp: event_of_def encode_resume_def split: emit.splits)

definition upto_lsn :: "lsn \<Rightarrow> txn list \<Rightarrow> txn list" where
  "upto_lsn l txs = filter (\<lambda>tx. tx_commit tx \<le> l) txs"

text \<open>
  A peek up to \<open>target\<close> shows every transaction of the slot that committed up to it, in commit
  order, whole.
\<close>

definition slot_stream :: "(lsn \<Rightarrow> (source_error, change list) result) \<Rightarrow> txn list \<Rightarrow> bool" where
  "slot_stream peek txs \<longleftrightarrow> list_all well_formed_txn txs \<and> sorted_wrt (<) (map tx_commit txs)
     \<and> (\<forall>target. \<exists>changes. peek target = Inr changes
          \<and> list_all2 parses changes (concat (map txn_messages (upto_lsn target txs))))"

fun maps_after :: "cdc_context \<Rightarrow> nat list \<Rightarrow> relation_maps \<Rightarrow> txn list \<Rightarrow> relation_maps" where
  "maps_after cx keys maps [] = maps"
| "maps_after cx keys maps (tx # txs) =
     (case body_rows cx keys maps (tx_body tx) of Inl _ \<Rightarrow> maps | Inr (maps', _) \<Rightarrow> maps_after cx keys maps' txs)"

lemma committed_append: "committed cx keys maps since (ps @ qs) =
    (if snd (committed cx keys maps since ps) \<noteq> None then committed cx keys maps since ps
     else (fst (committed cx keys maps since ps) @ fst (committed cx keys (maps_after cx keys maps ps) since qs),
           snd (committed cx keys (maps_after cx keys maps ps) since qs)))"
  by (induction ps arbitrary: maps) (auto simp: Let_def split: sum.splits)

lemma committed_same:
  assumes "\<And>tx. tx \<in> set txs \<Longrightarrow> l < tx_commit tx" and "since \<le> l"
  shows "committed cx keys maps l txs = committed cx keys maps since txs"
  using assms
proof (induction txs arbitrary: maps)
  case (Cons tx txs)
  have "\<not> tx_commit tx \<le> l" "\<not> tx_commit tx \<le> since" using Cons.prems(1) [of tx] Cons.prems(2) by auto
  with Cons show ?case by (auto simp: Let_def split: sum.splits)
qed simp

lemma committed_skips:
  assumes "\<And>tx. tx \<in> set txs \<Longrightarrow> tx_commit tx \<le> l" and "snd (committed cx keys maps since txs) = None"
  shows "committed cx keys maps l txs = ([], None)"
  using assms
  by (induction txs arbitrary: maps) (auto simp: Let_def split: sum.splits if_splits)

text \<open>A checkpoint at the last position of a list of transactions means none of them failed.\<close>

lemma committed_reached:
  assumes "l \<in> fst ` set (fst (committed cx keys maps since txs))"
    and "sorted_wrt (<) (map tx_commit txs)" and "\<And>tx. tx \<in> set txs \<Longrightarrow> tx_commit tx \<le> l"
  shows "snd (committed cx keys maps since txs) = None"
  using assms
proof (induction txs arbitrary: maps)
  case (Cons tx txs)
  obtain maps' rows where b: "body_rows cx keys maps (tx_body tx) = Inr (maps', rows)"
    using Cons.prems(1) by (cases "body_rows cx keys maps (tx_body tx)") auto
  have sub: "sorted_wrt (<) (map tx_commit txs)" "\<And>t. t \<in> set txs \<Longrightarrow> tx_commit t \<le> l"
    using Cons.prems(2,3) by auto
  show ?case
  proof (cases "tx_commit tx \<le> since")
    case True
    with b Cons.IH [OF _ sub] Cons.prems(1) show ?thesis by simp
  next
    case False
    with b Cons.prems(1) obtain rs where rs: "rows = Inr rs" by (cases rows) auto
    show ?thesis
    proof (cases "l \<in> fst ` set (fst (committed cx keys maps' since txs))")
      case True
      from Cons.IH [OF this sub] b False rs show ?thesis by (simp add: Let_def)
    next
      case not_later: False
      with Cons.prems(1) b False rs have "l = tx_commit tx" by (auto simp: Let_def)
      with Cons.prems(2) sub(2) have "txs = []" by (cases txs) (fastforce dest: leD)+
      with b False rs show ?thesis by (simp add: Let_def)
    qed
  qed
qed simp

lemma upto_lsn_split:
  assumes "sorted_wrt (<) (map tx_commit txs)" and "l \<le> target"
  shows "\<exists>qs. upto_lsn target txs = upto_lsn l txs @ qs \<and> (\<forall>tx \<in> set qs. l < tx_commit tx)"
  using assms
proof (induction txs)
  case (Cons tx txs)
  from Cons obtain qs where qs: "upto_lsn target txs = upto_lsn l txs @ qs" "\<forall>t \<in> set qs. l < tx_commit t" by auto
  show ?case
  proof (cases "tx_commit tx \<le> l")
    case True
    with qs Cons.prems(2) show ?thesis by (auto simp: upto_lsn_def)
  next
    case False
    then have tx: "l < tx_commit tx" by (simp add: not_le)
    then have after: "l < tx_commit t" if "t \<in> set (tx # txs)" for t
      using that Cons.prems(1) by (auto intro: less_trans)
    then have "upto_lsn l txs = []" by (auto simp: upto_lsn_def filter_empty_conv not_le)
    with False have "upto_lsn l (tx # txs) = []" by (simp add: upto_lsn_def)
    moreover have "\<forall>t \<in> set (upto_lsn target (tx # txs)). l < tx_commit t"
      using after by (simp add: upto_lsn_def)
    ultimately show ?thesis by simp
  qed
qed (simp add: upto_lsn_def)

lemma upto_lsn_sorted: "sorted_wrt (<) (map tx_commit txs) \<Longrightarrow> sorted_wrt (<) (map tx_commit (upto_lsn l txs))"
  by (simp add: upto_lsn_def sorted_wrt_map sorted_wrt_filter)

lemma change_pass_spec:
  assumes keys: "key_indices cx = Inr keys" and slot: "slot_stream peek txs"
    and run: "change_pass lib cx closed peek since target [] = (res, feed)"
  shows "\<exists>ems. feed = map event_of ems
    \<and> cp_ok lib cx since (fst (committed cx keys Map.empty since (upto_lsn target txs))) ems
    \<and> reaches (max target since) (fst (committed cx keys Map.empty since (upto_lsn target txs)))
        (snd (committed cx keys Map.empty since (upto_lsn target txs)) = None) ems
    \<and> (res = Inr Complete \<longrightarrow> snd (committed cx keys Map.empty since (upto_lsn target txs)) = None
         \<and> ends_with ems (max target since))"
proof -
  from slot obtain changes where ch: "peek target = Inr changes"
    "list_all2 parses changes (concat (map txn_messages (upto_lsn target txs)))" by (auto simp: slot_stream_def)
  let ?ap = "\<lparr>ap_since = since, ap_relation_maps = Map.empty, ap_key_indices = keys, ap_transaction_rows = [],
          ap_ready_rows = [], ap_last_commit = None, ap_transaction_error = None\<rparr>"
  have bt: "between lib cx since keys [] [] ?ap"
    by (simp add: between_def maps_ok_def lookup_map_def full_rows_def checkpoints_def)
  have wf: "list_all well_formed_txn (upto_lsn target txs)"
    using slot by (auto simp: slot_stream_def upto_lsn_def list_all_iff)
  have srt: "sorted_wrt (<) (map tx_commit (upto_lsn target txs))"
    using slot by (intro upto_lsn_sorted) (simp add: slot_stream_def)
  have lt: "c < tx_commit t" if "c \<in> fst ` set []" "t \<in> set (upto_lsn target txs)" for c :: lsn and t
    using that by simp
  have le: "c \<le> target" if "c \<in> fst ` set [] \<union> tx_commit ` set (upto_lsn target txs)" for c
    using that by (auto simp: upto_lsn_def)
  have "apply_changes lib cx closed target changes ?ap [] = (res, feed)"
    using run ch(1) keys by (simp add: change_pass_def apply_new_def)
  from apply_changes_txns [OF bt ch(2) wf srt lt le this] obtain ems' where
    "feed = [] @ map event_of ems'"
    "cp_ok lib cx since ([] @ fst (committed cx keys Map.empty since (upto_lsn target txs))) ([] @ ems')"
    "reaches (max target since) ([] @ fst (committed cx keys Map.empty since (upto_lsn target txs)))
       (snd (committed cx keys Map.empty since (upto_lsn target txs)) = None) ([] @ ems')"
    "res = Inr Complete \<longrightarrow> snd (committed cx keys Map.empty since (upto_lsn target txs)) = None
       \<and> ends_with ([] @ ems') (max target since)"
    by auto
  then show ?thesis by (intro exI [of _ ems']) simp
qed

lemma committed_upto:
  assumes "\<And>tx. tx \<in> set txs \<Longrightarrow> tx_commit tx \<le> l"
  shows "fst (committed cx keys maps l txs) = []"
  using assms by (induction txs arbitrary: maps) (auto split: sum.splits)

text \<open>The rows before a checkpoint at \<open>l\<close> are those of the transactions up to \<open>l\<close>, none failed.\<close>

lemma committed_at_checkpoint:
  assumes srt: "sorted_wrt (<) (map tx_commit txs)" and "since \<le> l"
    and cp: "l \<in> fst ` set (fst (committed cx keys maps since (upto_lsn target txs)))
      \<or> l = max target since \<and> snd (committed cx keys maps since (upto_lsn target txs)) = None"
    and again: "snd (committed cx keys maps l (upto_lsn l txs)) = None"
  shows "snd (committed cx keys maps since (upto_lsn l txs)) = None
    \<and> concat (map snd (fst (committed cx keys maps since (upto_lsn l txs))))
      = rows_upto l (fst (committed cx keys maps since (upto_lsn target txs)))"
proof (cases "l \<le> target")
  case True
  from upto_lsn_split [OF srt this] obtain R where
    R: "upto_lsn target txs = upto_lsn l txs @ R" "\<forall>t \<in> set R. l < tx_commit t" by blast
  let ?P = "committed cx keys maps since (upto_lsn l txs)"
  let ?R = "committed cx keys (maps_after cx keys maps (upto_lsn l txs)) since R"
  have le: "tx_commit t \<le> l" if "t \<in> set (upto_lsn l txs)" for t using that by (simp add: upto_lsn_def)
  have none: "snd ?P = None"
  proof (rule ccontr)
    assume fails: "snd ?P \<noteq> None"
    then have same: "committed cx keys maps since (upto_lsn target txs) = ?P" by (simp add: R(1) committed_append)
    with cp fails have "l \<in> fst ` set (fst ?P)" by simp
    from committed_reached [OF this upto_lsn_sorted [OF srt] le] fails show False by simp
  qed
  then have all: "fst (committed cx keys maps since (upto_lsn target txs)) = fst ?P @ fst ?R"
    by (simp add: R(1) committed_append)
  have "rows_upto l (fst ?R) = []"
    by (rule rows_upto_none) (use R(2) committed_after in fastforce)
  moreover have "rows_upto l (fst ?P) = concat (map snd (fst ?P))"
    by (rule rows_upto_all) (use le committed_after in fastforce)
  ultimately show ?thesis using none by (simp add: all rows_upto_append)
next
  case False
  have C: "c \<le> target" if "c \<in> fst ` set (fst (committed cx keys maps since (upto_lsn target txs)))" for c
    using that committed_after by (fastforce simp: upto_lsn_def)
  with cp False have l: "l = since" by (auto simp: max_def split: if_splits)
  have "fst (committed cx keys maps since (upto_lsn target txs)) = []"
  proof (rule committed_upto)
    fix t assume "t \<in> set (upto_lsn target txs)"
    then have "tx_commit t \<le> target" by (simp add: upto_lsn_def)
    also have "target \<le> since" using False l by (simp add: not_le less_imp_le)
    finally show "tx_commit t \<le> since" .
  qed
  moreover have "fst (committed cx keys maps since (upto_lsn l txs)) = []"
    by (rule committed_upto) (simp add: upto_lsn_def l)
  ultimately show ?thesis using again l by (simp add: rows_upto_def)
qed

text \<open>
  C3. Change data capture resumes exactly once. A pass over a slot sent, in whatever way it ended
  (complete, cancelled, failed), a checkpoint at position \<open>l\<close>; a second pass over the same slot
  starts at \<open>l\<close> and completes. Then the rows sent before the checkpoint followed by the rows of
  the second pass are exactly the change rows of the transactions committed after the first
  start and up to the second target, in commit order, each once, none of which failed; and the
  second pass ends with a checkpoint at its target.
\<close>

theorem cdc_resume_exactly_once:
  assumes keys: "key_indices cx = Inr keys" and slot: "slot_stream peek txs"
    and run1: "change_pass lib cx closed peek since target [] = (res, feed)"
    and cp: "feed = pre @ SentCheckpoint (encode_resume l) # post"
    and run2: "change_pass lib cx closed' peek l target' [] = (Inr Complete, feed')" and "l \<le> target'"
  shows "snd (committed cx keys Map.empty since (upto_lsn target' txs)) = None
    \<and> out_ok lib cx (concat (map snd (fst (committed cx keys Map.empty since (upto_lsn target' txs)))))
        (sent_rows pre @ sent_rows feed')
    \<and> last feed' = SentCheckpoint (encode_resume target')"
proof -
  have srt: "sorted_wrt (<) (map tx_commit txs)" using slot by (simp add: slot_stream_def)
  let ?C1 = "committed cx keys Map.empty since (upto_lsn target txs)"
  from change_pass_spec [OF keys slot run1] obtain ems where e: "feed = map event_of ems"
    "cp_ok lib cx since (fst ?C1) ems" "reaches (max target since) (fst ?C1) (snd ?C1 = None) ems" by blast
  from e(1) cp have "map event_of ems = pre @ SentCheckpoint (encode_resume l) # post" by simp
  then obtain pre' em post' where split: "ems = pre' @ em # post'" "pre = map event_of pre'"
    and "event_of em = SentCheckpoint (encode_resume l)"
    by (auto simp: map_eq_append_conv map_eq_Cons_conv)
  then have pre: "ems = pre' @ ECheckpoint l # post'" "pre = map event_of pre'"
    by (simp_all add: event_of_checkpoint)
  with e(2) have since: "since \<le> l" and rows1: "out_ok lib cx (rows_upto l (fst ?C1)) (sent_rows pre)"
    by (auto simp: cp_ok_def sent_rows_events)
  from e(3) pre(1) have at: "l \<in> fst ` set (fst ?C1) \<or> l = max target since \<and> snd ?C1 = None"
    by (auto simp: reaches_def checkpoints_def)
  let ?C2 = "committed cx keys Map.empty l (upto_lsn target' txs)"
  have mx: "max target' l = target'" using \<open>l \<le> target'\<close> by simp
  from change_pass_spec [OF keys slot run2] mx obtain es where f: "feed' = map event_of (es @ [ECheckpoint target'])"
    "cp_ok lib cx l (fst ?C2) (es @ [ECheckpoint target'])" "snd ?C2 = None"
    by (auto simp: ends_with_def)
  have "rows_upto target' (fst ?C2) = concat (map snd (fst ?C2))"
    by (rule rows_upto_all) (use committed_after in \<open>fastforce simp: upto_lsn_def\<close>)
  with f(1,2) have rows2: "out_ok lib cx (concat (map snd (fst ?C2))) (sent_rows feed')"
    by (auto simp: cp_ok_snoc sent_rows_events simp del: map_append)
  from upto_lsn_split [OF srt \<open>l \<le> target'\<close>] obtain Q where
    Q: "upto_lsn target' txs = upto_lsn l txs @ Q" "\<forall>t \<in> set Q. l < tx_commit t" by blast
  let ?m = "maps_after cx keys Map.empty (upto_lsn l txs)"
  have again: "snd (committed cx keys Map.empty l (upto_lsn l txs)) = None"
    using f(3) by (auto simp: Q(1) committed_append split: if_splits)
  have "fst (committed cx keys Map.empty l (upto_lsn l txs)) = []"
    by (rule committed_upto) (simp add: upto_lsn_def)
  then have "fst ?C2 = fst (committed cx keys ?m l Q)" "snd (committed cx keys ?m l Q) = None"
    using again f(3) by (simp_all add: Q(1) committed_append)
  moreover have "committed cx keys ?m l Q = committed cx keys ?m since Q"
    using Q(2) since by (intro committed_same) auto
  moreover note committed_at_checkpoint [OF srt since at again]
  ultimately show ?thesis
    using out_ok_append [OF rows1 rows2] f(1) by (simp add: Q(1) committed_append event_of_def)
qed

end
