(* ===== verification/Pg_Demo.thy ===== *)
theory Pg_Demo
  imports Pg_Apply
begin

text \<open>
  A slot with two committed transactions, as the bytes of its messages, and the properties of
  the change pass applied to it.
\<close>

section \<open>The slot\<close>

abbreviation zeros :: "nat \<Rightarrow> string" where "zeros n \<equiv> replicate n nul"

definition demo_begin :: string where
  "demo_begin = ''B'' @ to_be 8 10 @ to_be 8 0 @ to_be 4 7"

definition demo_commit :: string where
  "demo_commit = ''C'' @ to_be 1 0 @ to_be 8 10 @ to_be 8 11 @ to_be 8 0"

definition demo_relation :: string where
  "demo_relation = ''R'' @ to_be 4 9 @ ''s'' @ [nul] @ ''t'' @ [nul] @ ''d'' @ to_be 2 1
     @ to_be 1 1 @ ''id'' @ [nul] @ to_be 4 25 @ to_be 4 0"

definition demo_insert :: "string \<Rightarrow> string" where
  "demo_insert v = ''I'' @ to_be 4 9 @ ''N'' @ to_be 2 1 @ ''t'' @ to_be 4 (length v) @ v"

definition demo_delete :: "string \<Rightarrow> string" where
  "demo_delete v = ''D'' @ to_be 4 9 @ ''K'' @ to_be 2 1 @ ''t'' @ to_be 4 (length v) @ v"

definition slot_cx :: cdc_context where
  "slot_cx = \<lparr>cx_flag_column = ''deleted'', cx_schema = ''s'', cx_stream = ''t'',
     cx_identity = \<lparr>id_key = [''id''], id_covers_all_columns = False\<rparr>,
     cx_columns = [\<lparr>pc_name = ''id'', pc_kind = KText, pc_not_null = True\<rparr>], cx_batch_max_rows = 1\<rparr>"

definition slot_lib :: pg_lib where
  "slot_lib = \<lparr>parse_f64 = \<lambda>_. Inl [], datetime_from_str = \<lambda>_ _. Inl [], naive_datetime_from_str = \<lambda>_ _. Inl [],
     datetime_rfc3339 = \<lambda>_. Inl [], naive_date_from_str = \<lambda>_ _. Inl [], naive_time_from_str = \<lambda>_ _. Inl [],
     decimal_shape = \<lambda>_ _. Inr (), no_columns = []\<rparr>"

definition demo_txns :: "txn list" where
  "demo_txns =
     [\<lparr>tx_begin = 8, tx_body = [(8, MRelation \<lparr>r_id = 9, r_namespace = ''s'', r_name = ''t'', r_columns = [''id'']\<rparr>),
         (9, MInsert 9 [TText ''a''])], tx_commit = 10\<rparr>,
      \<lparr>tx_begin = 15, tx_body = [(16, MDelete 9 [TText ''a''])], tx_commit = 20\<rparr>]"

definition demo_first :: "change list" where
  "demo_first = [Inr (8, demo_begin), Inr (8, demo_relation), Inr (9, demo_insert ''a''), Inr (10, demo_commit)]"

definition demo_second :: "change list" where
  "demo_second = [Inr (15, demo_begin), Inr (16, demo_delete ''a''), Inr (20, demo_commit)]"

definition demo_peek :: "lsn \<Rightarrow> (source_error, change list) result" where
  "demo_peek target = Inr ((if 10 \<le> target then demo_first else []) @ (if 20 \<le> target then demo_second else []))"

lemma demo_messages:
  "parse_message demo_begin = Inr MBegin"
  "parse_message demo_commit = Inr MCommit"
  "parse_message demo_relation = Inr (MRelation \<lparr>r_id = 9, r_namespace = ''s'', r_name = ''t'', r_columns = [''id'']\<rparr>)"
  "parse_message (demo_insert ''a'') = Inr (MInsert 9 [TText ''a''])"
  "parse_message (demo_delete ''a'') = Inr (MDelete 9 [TText ''a''])"
proof -
  have col: "list_all2 column_wire [''id''] [to_be 1 1 @ ''id'' @ [nul] @ to_be 4 25 @ to_be 4 0]"
    by (auto simp: column_wire_def ident_def intro!: exI [of _ "char_of (1::nat)"] exI [of _ "to_be 4 25 @ to_be 4 0"])
  show "parse_message demo_begin = Inr MBegin"
    by (rule parse_wire) (simp add: message_wire_simps demo_begin_def)
  show "parse_message demo_commit = Inr MCommit"
    by (rule parse_wire) (simp add: message_wire_simps demo_commit_def)
  show "parse_message demo_relation = Inr (MRelation \<lparr>r_id = 9, r_namespace = ''s'', r_name = ''t'', r_columns = [''id'']\<rparr>)"
    using relation_wire [of "\<lparr>r_id = 9, r_namespace = ''s'', r_name = ''t'', r_columns = [''id'']\<rparr>"
        "[to_be 1 1 @ ''id'' @ [nul] @ to_be 4 25 @ to_be 4 0]" "CHR ''d''"] col
    by (intro parse_wire) (simp add: demo_relation_def fits_def ident_def)
  show "parse_message (demo_insert ''a'') = Inr (MInsert 9 [TText ''a''])"
    by (rule parse_wire) (simp add: message_wire_simps demo_insert_def fits_def tuple_fits_def tuple_bytes_def)
  show "parse_message (demo_delete ''a'') = Inr (MDelete 9 [TText ''a''])"
    by (rule parse_wire) (simp add: message_wire_simps demo_delete_def fits_def tuple_fits_def tuple_bytes_def old_marker_def)
qed

lemma demo_slot: "slot_stream demo_peek demo_txns"
proof -
  have "(10::lsn) \<le> target \<or> \<not> 20 \<le> target" for target :: lsn
    by (rule disjCI) (auto intro: order.trans [of 10 20])
  then show ?thesis
    by (auto simp: slot_stream_def demo_txns_def demo_peek_def demo_first_def demo_second_def upto_lsn_def
        well_formed_txn_def change_message_def txn_messages_def demo_messages)
qed

definition demo_out :: "bool \<Rightarrow> pg_event" where
  "demo_out gone = SentBatch \<lparr>rb_fields = [(''id'', DUtf8, True), (''deleted'', DBoolean, True)],
     rb_rows = [[AText ''a'', if gone then ABool True else ANull]]\<rparr>"

lemmas slot_run = apply_new_def key_indices_def slot_cx_def plan_map_def our_map_def tuple_row_def tuple_cell_def
  tuple_get_def text_cell_def from_utf8_def buffer_def flush_def batch_of_def column_array_def builder_new_def
  append_text_def flag_value_def demo_out_def event_of_def finish_def delete_rows_def key_cells_def key_cell_def
  delete_row_def column_err_def kind_arrow_def

text \<open>The receiver goes away after the first checkpoint; the next pass starts there.\<close>

lemma demo_first_pass:
  "change_pass slot_lib slot_cx (\<lambda>feed. 2 \<le> length feed) demo_peek 0 20 []
     = (Inr Cancelled, [demo_out False, SentCheckpoint (encode_resume 10)])"
  by (simp add: change_pass_def demo_peek_def demo_first_def demo_second_def demo_messages slot_run)

lemma demo_second_pass:
  "change_pass slot_lib slot_cx (\<lambda>_. False) demo_peek 10 30 []
     = (Inr Complete, [demo_out True, SentCheckpoint (encode_resume 20), SentCheckpoint (encode_resume 30)])"
  by (simp add: change_pass_def demo_peek_def demo_first_def demo_second_def demo_messages slot_run)

theorem cdc_resume_exactly_once_witness:
  "snd (committed slot_cx [0] Map.empty 0 (upto_lsn 30 demo_txns)) = None
    \<and> out_ok slot_lib slot_cx (concat (map snd (fst (committed slot_cx [0] Map.empty 0 (upto_lsn 30 demo_txns)))))
        (sent_rows [demo_out False]
         @ sent_rows [demo_out True, SentCheckpoint (encode_resume 20), SentCheckpoint (encode_resume 30)])
    \<and> last [demo_out True, SentCheckpoint (encode_resume 20), SentCheckpoint (encode_resume 30)]
        = SentCheckpoint (encode_resume 30)"
proof -
  have keys: "key_indices slot_cx = Inr [0]" by (simp add: key_indices_def slot_cx_def)
  have cp: "[demo_out False, SentCheckpoint (encode_resume 10)] = [demo_out False] @ SentCheckpoint (encode_resume 10) # []"
    by simp
  show ?thesis by (rule cdc_resume_exactly_once [OF keys demo_slot demo_first_pass cp demo_second_pass]) simp
qed

end
