(* ===== verification/Pg_Copy_Demo.thy ===== *)
theory Pg_Copy_Demo
  imports Pg_Write Pg_Demo
begin

text \<open>The COPY codec at a concrete batch: two rows of a nullable integer column.\<close>

definition demo_batch :: record_batch where
  "demo_batch = \<lparr>rb_fields = [(''n'', DInt64, True)], rb_rows = [[AInt 7], [ANull]]\<rparr>"

definition copy_encode_lib :: encode_lib where
  "copy_encode_lib = \<lparr>text_sql = Inr, bytea_sql = Inr, from_timestamp_micros = \<lambda>_. None, timestamptz_sql = \<lambda>_. Inl [],
     timestamp_sql = \<lambda>_. Inl [], from_num_days_from_ce = \<lambda>_. None, date_sql = \<lambda>_. Inl [],
     from_num_seconds_from_midnight = \<lambda>_ _. None, time_sql = \<lambda>_. Inl []\<rparr>"

definition copy_columns :: "pg_column list" where
  "copy_columns = [\<lparr>pc_name = ''n'', pc_kind = KInt64, pc_not_null = False\<rparr>]"

definition copy_decoder :: decoder where
  "copy_decoder = \<lparr>dc_columns = copy_columns, dc_builders = [[]], dc_state = Header, dc_carry = [], dc_rows_in_batch = 0,
     dc_bytes_in_batch = 0, dc_rows_total = 0, dc_batch_target_bytes = 1, dc_batch_max_rows = 2\<rparr>"

definition copy_stream :: string where
  "copy_stream = copy_header @ (to_be 2 1 @ to_be 4 8 @ to_be 8 7) @ (to_be 2 1 @ null_field) @ trailer"

lemma copy_decoder_new: "decoder_new slot_lib copy_columns 0 2 = Inr copy_decoder"
  by (simp add: decoder_new_def copy_columns_def copy_decoder_def builder_new_def)

lemma copy_encode_lib_holds: "encode_lib_ok copy_encode_lib"
  by (simp add: encode_lib_ok_def copy_encode_lib_def)

lemma copy_batch_wires: "batch_wires demo_env None (rb_fields demo_batch) = Inr [WInt8]"
  by (simp add: batch_wires_def demo_batch_def wire_of_def)

lemma copy_batch_sent: "copy_chunks demo_env copy_encode_lib None demo_batch = Inr ([copy_stream], None)"
proof -
  have "length copy_header \<le> 100" by (simp add: copy_header_def header_signature_def del: to_be.simps)
  then have small: "\<not> FLUSH_AT \<le> length copy_header + 14" "\<not> FLUSH_AT \<le> length copy_header + 20"
    by (simp_all add: FLUSH_AT_def)
  show ?thesis
    using small
    by (simp add: copy_chunks_def copy_batch_wires demo_batch_def [THEN arg_cong [of _ _ rb_fields]] demo_batch_def
      batch_wires_def wire_of_def encoder_new_def tuple_bytes_of_def append_field_def append_value_def fixed_def unsigned_of_def
      null_field_def copy_stream_def Let_def del: to_be.simps)
qed

lemma copy_batch_conforms: "conforms demo_batch"
  by (simp add: conforms_def demo_batch_def cell_ok_def typed_def in_width_def)

theorem chunks_do_not_matter_witness:
  "decode_chunks slot_lib copy_decoder [take 5 copy_stream, [], drop 5 copy_stream]
    = decode_chunks slot_lib copy_decoder [copy_stream]"
  using chunks_do_not_matter [OF copy_decoder_new, of "[take 5 copy_stream, [], drop 5 copy_stream]"] by simp

theorem copy_roundtrip_witness:
  "\<exists>bs. decode_chunks slot_lib copy_decoder [take 5 copy_stream, drop 5 copy_stream] = Inr bs
    \<and> concat (map rb_rows bs) = [[AInt 7], [ANull]]"
proof -
  have "map2 reader_column (rb_fields demo_batch) [WInt8] = copy_columns"
    by (simp add: demo_batch_def reader_column_def copy_columns_def wire_kind_def)
  moreover have "list_all2 plain_value [WInt8] row" if "row \<in> set (rb_rows demo_batch)" for row
    using that by (auto simp: demo_batch_def plain_value_def)
  ultimately show ?thesis
    using copy_roundtrip [OF copy_encode_lib_holds copy_batch_conforms _ copy_batch_sent copy_batch_wires, of slot_lib 0 2 copy_decoder
        "[take 5 copy_stream, drop 5 copy_stream]"] copy_decoder_new
    by (simp add: demo_batch_def)
qed

lemma copy_stream_decoded: "\<exists>b bs. decode_chunks slot_lib copy_decoder [copy_stream] = Inr (b # bs)"
proof -
  have "tuple_reads copy_columns (to_be 2 1 @ to_be 4 8 @ to_be 8 7) [AInt 7]"
    by (auto simp: tuple_reads_def copy_columns_def field_reads_def append_wire_def big_endian_i64_def signed_of_def
      intro!: exI [of _ "[to_be 4 8 @ to_be 8 7]"] exI [of _ "to_be 8 7"] simp del: to_be.simps)
  moreover have "tuple_reads copy_columns (to_be 2 1 @ null_field) [ANull]"
    by (auto simp: tuple_reads_def copy_columns_def field_reads_def intro!: exI [of _ "[null_field]"] simp del: to_be.simps)
  ultimately have "list_all2 (tuple_reads copy_columns) [to_be 2 1 @ to_be 4 8 @ to_be 8 7, to_be 2 1 @ null_field] [[AInt 7], [ANull]]"
    by simp
  from decode_written [OF copy_decoder_new this] obtain bs where
    "decode_chunks slot_lib copy_decoder [copy_stream] = Inr bs" "concat (map rb_rows bs) = [[AInt 7], [ANull]]"
    by (auto simp: copy_columns_def copy_stream_def)
  then show ?thesis by (cases bs) auto
qed

theorem decoded_batches_conform_witness:
  "\<exists>b bs. decode_chunks slot_lib copy_decoder [copy_stream] = Inr (b # bs)
    \<and> rb_fields b = copy_schema copy_columns \<and> conforms b \<and> rb_rows b \<noteq> [] \<and> length (rb_rows b) \<le> 2"
proof -
  from copy_stream_decoded obtain b bs where "decode_chunks slot_lib copy_decoder [copy_stream] = Inr (b # bs)" by blast
  with decoded_batches_conform [OF copy_decoder_new this, of b] show ?thesis by auto
qed

end
