(* ===== verification/Pg_Deliver_Demo.thy ===== *)
theory Pg_Deliver_Demo
  imports Pg_Deliver Pg_Copy_Demo
begin

text \<open>
  The session's theorems at a concrete server: one connection to an empty database, which fails
  the statements a script of faults names (\<open>pg_server True\<close>) or none (\<open>pg_server False\<close>); the
  answer of a COMMIT that a fault hits is lost after the transaction was committed.
\<close>

record pg_srv =
  sv_tx :: pg_tx
  sv_history :: history
  sv_faults :: "bool list"

definition srv_view :: "pg_srv pg_view" where
  "srv_view = \<lparr>vw_tx = sv_tx, vw_history = sv_history\<rparr>"

definition srv_fails :: "bool \<Rightarrow> pg_srv \<Rightarrow> bool" where
  "srv_fails faulty d \<longleftrightarrow> faulty \<and> sv_faults d \<noteq> [] \<and> hd (sv_faults d)"

definition srv_error :: pg_error where
  "srv_error = ClientError ''connection closed'' []"

definition srv_next :: "pg_srv \<Rightarrow> pg_srv" where
  "srv_next d = d\<lparr>sv_faults := tl (sv_faults d)\<rparr>"

definition srv_run :: "bool \<Rightarrow> stmt \<Rightarrow> (pg_srv, pg_error, unit) action" where
  "srv_run faulty s d =
     (case sv_tx d of
        TxIdle \<Rightarrow>
          if srv_fails faulty d \<or> \<not> set (receipt_of s) \<inter> ledger (sv_history d) = {} then (Inl srv_error, srv_next d)
          else (Inr (), (srv_next d)\<lparr>sv_history := sv_history d @ [(True, [s])]\<rparr>)
      | TxActive ss \<Rightarrow>
          if srv_fails faulty d \<or> \<not> set (receipt_of s) \<inter> (ledger (sv_history d) \<union> set (receipts ss)) = {}
          then (Inl srv_error, (srv_next d)\<lparr>sv_tx := TxAborted\<rparr>)
          else (Inr (), (srv_next d)\<lparr>sv_tx := TxActive (ss @ [s])\<rparr>)
      | _ \<Rightarrow> (Inl srv_error, srv_next d))"

definition srv_ask :: "bool \<Rightarrow> (pg_srv \<Rightarrow> 'a) \<Rightarrow> (pg_srv, pg_error, 'a) action" where
  "srv_ask faulty answer d =
     (case sv_tx d of
        TxIdle \<Rightarrow> if srv_fails faulty d then (Inl srv_error, srv_next d) else (Inr (answer d), srv_next d)
      | TxActive ss \<Rightarrow>
          if srv_fails faulty d then (Inl srv_error, (srv_next d)\<lparr>sv_tx := TxAborted\<rparr>) else (Inr (answer d), srv_next d)
      | _ \<Rightarrow> (Inl srv_error, srv_next d))"

definition srv_begin :: "bool \<Rightarrow> (pg_srv, pg_error, unit) action" where
  "srv_begin faulty d =
     (case sv_tx d of
        TxIdle \<Rightarrow> if srv_fails faulty d then (Inl srv_error, srv_next d) else (Inr (), (srv_next d)\<lparr>sv_tx := TxActive []\<rparr>)
      | _ \<Rightarrow> srv_ask faulty (\<lambda>_. ()) d)"

definition srv_commit :: "bool \<Rightarrow> (pg_srv, pg_error, unit) action" where
  "srv_commit faulty d =
     (case sv_tx d of
        TxActive ss \<Rightarrow>
          (if srv_fails faulty d then Inl srv_error else Inr (),
           (srv_next d)\<lparr>sv_tx := TxIdle, sv_history := sv_history d @ [(True, ss)]\<rparr>)
      | TxLost \<Rightarrow> (Inl srv_error, srv_next d)
      | _ \<Rightarrow> (Inr (), (srv_next d)\<lparr>sv_tx := TxIdle\<rparr>))"

definition srv_rollback :: "(pg_srv, pg_error, unit) action" where
  "srv_rollback d =
     (case sv_tx d of
        TxLost \<Rightarrow> (Inl srv_error, srv_next d)
      | _ \<Rightarrow> (Inr (), (srv_next d)\<lparr>sv_tx := TxIdle\<rparr>))"

definition srv_count :: "string \<Rightarrow> sql_value list \<Rightarrow> pg_srv \<Rightarrow> int" where
  "srv_count sql ps d =
     (case ps of
        [VText load, VInt n] \<Rightarrow>
          if (load, n) \<in> ledger (sv_history d) \<union> Pg_Unit.pending (sv_tx d) then 1 else 0
      | _ \<Rightarrow> 0)"

definition srv_drop :: "(pg_srv, pg_error, unit) action" where
  "srv_drop d =
     (Inl srv_error, (srv_next d)\<lparr>sv_tx := (case sv_tx d of TxActive _ \<Rightarrow> TxAborted | t \<Rightarrow> t)\<rparr>)"

definition pg_server :: "bool \<Rightarrow> pg_srv pg_conn" where
  "pg_server faulty =
     \<lparr>cn_batch = \<lambda>sql.
        if sql = UNIT_BEGIN then srv_begin faulty
        else if sql = UNIT_COMMIT then srv_commit faulty
        else if sql = UNIT_ROLLBACK then srv_rollback
        else srv_run faulty (SBatch sql),
      cn_execute = \<lambda>sql ps. srv_run faulty (SExecute sql ps),
      cn_count = \<lambda>sql ps. srv_ask faulty (srv_count sql ps),
      cn_exists = \<lambda>_ _. srv_ask faulty (\<lambda>_. False),
      cn_text = \<lambda>_ _. srv_ask faulty (\<lambda>_. None),
      cn_names = \<lambda>_ _. srv_ask faulty (\<lambda>_. []),
      cn_copy_in = \<lambda>sql chunks ended. if ended then srv_run faulty (SCopy sql chunks) else srv_drop\<rparr>"

lemma srv_view_simps [simp]: "vw_tx srv_view = sv_tx" "vw_history srv_view = sv_history"
  by (simp_all add: srv_view_def)

lemma srv_next_simps [simp]: "sv_tx (srv_next d) = sv_tx d" "sv_history (srv_next d) = sv_history d"
  by (simp_all add: srv_next_def)

lemma srv_control: "UNIT_BEGIN \<noteq> UNIT_COMMIT" "UNIT_BEGIN \<noteq> UNIT_ROLLBACK" "UNIT_COMMIT \<noteq> UNIT_ROLLBACK"
  by (simp_all add: UNIT_BEGIN_def UNIT_COMMIT_def UNIT_ROLLBACK_def)

lemma srv_moves: "sv_history d' = sv_history d @ map (Pair True) own \<Longrightarrow> moves srv_view own d d'"
  by (auto simp: moves_def intro!: exI [of _ "[]"])

lemma srv_run_ok: "runs srv_view (srv_run faulty s) s"
proof -
  have "\<exists>own. moves srv_view own d (snd (srv_run faulty s d)) \<and> ran s (\<not> isl (fst (srv_run faulty s d))) (sv_tx d) (sv_tx (snd (srv_run faulty s d))) own" for d
  proof (cases "sv_tx d = TxIdle \<and> \<not> isl (fst (srv_run faulty s d))")
    case True
    then show ?thesis
      by (intro exI [of _ "[[s]]"] conjI srv_moves) (auto simp: srv_run_def split: if_splits)
  next
    case False
    then show ?thesis
      by (intro exI [of _ "[]"] conjI srv_moves) (auto simp: srv_run_def split: pg_tx.splits if_splits)
  qed
  then show ?thesis by (auto simp: runs_def split: prod.splits) (metis fst_conv snd_conv)
qed

lemma srv_ask_ok: "asks srv_view (srv_ask faulty answer)"
  by (auto simp: asks_def srv_ask_def split: pg_tx.splits if_splits intro!: srv_moves)

lemma srv_control_ok: "control_ok (pg_server faulty) srv_view"
proof -
  have commit: "\<exists>own. moves srv_view own d (snd (srv_commit faulty d)) \<and>
      ended (\<not> isl (fst (srv_commit faulty d))) (sv_tx d) (sv_tx (snd (srv_commit faulty d))) own" for d
  proof (cases "sv_tx d")
    case (TxActive ss)
    then show ?thesis
      by (intro exI [of _ "[ss]"] conjI srv_moves) (auto simp: srv_commit_def)
  qed (intro exI [of _ "[]"] conjI srv_moves, auto simp: srv_commit_def)+
  have begin': "moves srv_view [] d (snd (srv_begin faulty d)) \<and>
      began (\<not> isl (fst (srv_begin faulty d))) (sv_tx d) (sv_tx (snd (srv_begin faulty d)))" for d
    by (cases "sv_tx d") (auto simp: srv_begin_def srv_ask_def intro!: srv_moves)
  have rollback: "moves srv_view [] d (snd (srv_rollback d)) \<and> sv_tx (snd (srv_rollback d)) \<in> {TxIdle, TxLost}
      \<and> (sv_tx d = TxLost \<longrightarrow> sv_tx (snd (srv_rollback d)) = TxLost)" for d
    by (cases "sv_tx d") (auto simp: srv_rollback_def intro!: srv_moves)
  show ?thesis
    using commit begin' rollback srv_control
    by (auto simp: control_ok_def pg_server_def split_beta)
qed

lemma srv_conn_ok: "conn_ok (pg_server faulty) srv_view"
proof -
  have "statements_ok (pg_server faulty) srv_view"
    by (auto simp: srv_run_ok srv_ask_ok statements_ok_def pg_server_def tx_control_def drops_def srv_drop_def intro!: srv_moves split: pg_tx.splits)
  moreover have "receipts_ok (pg_server faulty) srv_view"
    by (auto simp: receipts_ok_def pg_server_def srv_run_def srv_ask_def srv_count_def split: pg_tx.splits if_splits)
  ultimately show ?thesis by (simp add: conn_ok_def srv_control_ok)
qed

text \<open>Without faults the server serves every call but a second insertion of a receipt.\<close>

lemma srv_serves:
  "receipt_of st = [] \<Longrightarrow> serves (\<lambda>_. True) srv_view (srv_run False st)"
  "serves (\<lambda>_. True) srv_view (srv_ask False answer)"
  "serves (\<lambda>_. True) srv_view (srv_begin False)"
  "serves (\<lambda>_. True) srv_view (srv_commit False)"
  "serves (\<lambda>_. True) srv_view srv_rollback"
  by (auto simp: serves_def alive_def srv_run_def srv_ask_def srv_begin_def srv_commit_def srv_rollback_def srv_fails_def)

lemma srv_healthy: "healthy env el (pg_server False) srv_view (\<lambda>_. True) l batches meta"
proof -
  have batch: "serves (\<lambda>_. True) srv_view (cn_batch (pg_server False) sql)" for sql
    by (simp add: pg_server_def srv_serves)
  have execute: "serves (\<lambda>_. True) srv_view (cn_execute (pg_server False) sql ps)" if "(sql, ps) \<in> work_executes" for sql ps
    using work_no_receipt [OF that] by (cases "SExecute sql ps" rule: receipt_of.cases) (auto simp: pg_server_def intro!: srv_serves)
  show ?thesis
    using batch execute
    by (auto simp: healthy_def Let_def pg_server_def srv_serves meta_key_def alive_def srv_run_def srv_ask_def srv_count_def
      srv_fails_def Pg_Unit.pending_def split: if_splits)
qed

section \<open>A session of one table\<close>

definition srv_schema :: table_schema where
  "srv_schema = \<lparr>sch_table = ''numbers'', sch_parent = None, sch_columns = [Column ''n'' (Scalar LInt64) True]\<rparr>"

definition srv_load :: pg_load where
  "srv_load = \<lparr>pl_pipeline = ''p'', pl_load = ''L1'', pl_tables = [(''numbers'', srv_schema, Append)],
     pl_options = options_default, pl_unit = None, pl_cleared = {}, pl_single_unit_done = {}\<rparr>"

definition srv_meta :: commit_meta where
  "srv_meta = \<lparr>meta_load = ''L1'', meta_seq = 7, meta_pipeline = ''p'', meta_doc = Inr ''{}''\<rparr>"

definition srv_start :: "bool list \<Rightarrow> pg_srv" where
  "srv_start faults = \<lparr>sv_tx = TxIdle, sv_history = [], sv_faults = faults\<rparr>"

definition srv_calls :: "pg_call list" where
  "srv_calls = [CWrite ''numbers'' demo_batch, CCommit srv_meta]"

definition srv_session :: "bool \<Rightarrow> pg_call list \<Rightarrow> bool list
    \<Rightarrow> ((string \<times> int) \<times> stmt list) list \<times> (string \<times> int) list \<times> pg_load \<times> pg_srv" where
  "srv_session faulty calls faults =
     session_run demo_env copy_encode_lib (pg_server faulty) (\<lambda>_. Inr ()) calls [] (srv_load, srv_start faults)"

lemma srv_deliverable: "deliverable demo_env srv_load srv_meta"
  by (simp add: deliverable_def srv_meta_def srv_load_def plan_commit_def publish_table_def ctx_uses_stage_def uses_stage_def
      rbind_def Let_def)

lemma srv_encodes: "encodes demo_env copy_encode_lib srv_load (''numbers'', demo_batch)"
proof -
  have "batch_wires demo_env (Some srv_schema) (rb_fields demo_batch) = batch_wires demo_env None (rb_fields demo_batch)"
    by (simp add: batch_wires_def demo_batch_def wire_of_def)
  then have "copy_chunks demo_env copy_encode_lib (Some srv_schema) demo_batch = copy_chunks demo_env copy_encode_lib None demo_batch"
    by (simp add: copy_chunks_def)
  then show ?thesis by (simp add: encodes_def written_def srv_load_def copy_batch_sent)
qed

text \<open>The answer of the COMMIT, the eighth statement, is lost, and the unit delivered again.\<close>

theorem session_exactly_once_witness:
  "case srv_session True (srv_calls @ srv_calls) (replicate 7 False @ [True]) of (attempted, acks, (l', d')) \<Rightarrow>
     accounted (set attempted) [] (sv_history d') \<and> set acks \<subseteq> ledger (sv_history d')"
proof -
  obtain attempted acks l' d' where run: "srv_session True (srv_calls @ srv_calls) (replicate 7 False @ [True]) = (attempted, acks, (l', d'))"
    by (cases "srv_session True (srv_calls @ srv_calls) (replicate 7 False @ [True])") auto
  have "vw_tx srv_view (srv_start (replicate 7 False @ [True])) = TxIdle" "pl_unit srv_load = None"
    by (simp_all add: srv_start_def srv_load_def)
  from session_exactly_once [OF srv_conn_ok this run [unfolded srv_session_def]] run show ?thesis
    by (simp add: srv_start_def)
qed

text \<open>The statement after BEGIN fails.\<close>

definition srv_aborted :: pg_srv where
  "srv_aborted = \<lparr>sv_tx = TxAborted, sv_history = [], sv_faults = []\<rparr>"

lemma srv_failed_begin:
  "begin_if_closed (pg_server True) (pl_load srv_load) (srv_load, srv_start [False, True])
    = (Inl (driver_transient DCommit srv_error), (srv_load, srv_aborted))"
  by (simp add: begin_if_closed_def on_self_def srv_load_def abind_def on_conn_def pg_server_def srv_begin_def srv_start_def
      srv_fails_def srv_next_def UNIT_WORK_MEM_def UNIT_BEGIN_def UNIT_COMMIT_def UNIT_ROLLBACK_def srv_run_def srv_aborted_def)

theorem failed_begin_wedges_witness:
  "case session_run demo_env copy_encode_lib (pg_server True) (\<lambda>_. Inr ()) srv_calls [] (unit_rollback (pg_server True) (srv_load, srv_aborted))
    of (_, acks, s') \<Rightarrow> acks = [] \<and> stuck srv_view s' \<and> calm srv_view srv_aborted (snd s')"
proof -
  obtain attempted acks l' d' where
    "session_run demo_env copy_encode_lib (pg_server True) (\<lambda>_. Inr ()) srv_calls [] (unit_rollback (pg_server True) (srv_load, srv_aborted))
      = (attempted, acks, (l', d'))"
    by (cases "session_run demo_env copy_encode_lib (pg_server True) (\<lambda>_. Inr ()) srv_calls [] (unit_rollback (pg_server True) (srv_load, srv_aborted))") auto
  moreover have "vw_tx srv_view srv_aborted = TxAborted" "pl_unit srv_load = None" by (simp_all add: srv_aborted_def srv_load_def)
  ultimately show ?thesis
    using failed_begin_wedges [OF srv_conn_ok srv_failed_begin, of demo_env copy_encode_lib] by simp
qed


end
