(* ===== verification/Spec2Isabelle.thy ===== *)
theory Spec2Isabelle
  imports Duck_Session File_Fleet File_Alone File_Attempts_Demo Rest_Demo Pg_Cursor Pg_Deliver_Demo
begin

text \<open>
  A verification library for \<^verbatim>\<open>rdlt-connectors\<close>, the source and destination
  connectors of the rdlt loader. A destination connector receives tables of rows in units,
  makes the target relations fit the schema (\<^verbatim>\<open>ensure\<close>), stages the rows, and publishes a
  unit together with its receipt and the pipeline's state (\<^verbatim>\<open>commit\<close>). SQL destinations
  share a pure planner crate, \<^verbatim>\<open>rdlt-connector-sqlcore\<close>; the file destination keeps its
  state in documents written by compare-and-swap, under a lease. Paths below are under
  \<^verbatim>\<open>src/crates/\<close>.

  \<^bold>\<open>Shared vocabulary.\<close> \<open>Prelude\<close>: results as sums with \<open>rbind\<close> for the \<open>?\<close> operator,
  loops that stop at the first error, the \<open>action\<close> state-and-result monad with the judgements
  \<open>always\<close> (what any run keeps) and \<open>on_ok\<close> (what a successful run establishes), Rust's
  string operations on byte lists, and \<open>BTreeMap\<close> as a sorted association list.

  \<^bold>\<open>The planner\<close> (\<^verbatim>\<open>rdlt-connector-sqlcore/src\<close>). \<open>Core_Types\<close>: the vocabulary of the
  engine's SDK the planner reads (schemas, keys, write modes). \<open>Sql_Options\<close>: \<^verbatim>\<open>options.rs\<close>,
  the option document, its lookups and its validation. \<open>Sql_Text\<close>: \<^verbatim>\<open>names.rs\<close> and
  \<^verbatim>\<open>dialect.rs\<close>, quoting, persisted names and the dialect trait as the record \<open>sql_dialect\<close>,
  with the three implementations; the locale \<open>quoting\<close> is the contract of an identifier
  quoter and is interpreted on each dialect. \<open>Sql_Plan\<close>: \<^verbatim>\<open>plan/table.rs\<close>,
  \<^verbatim>\<open>plan/index.rs\<close> and \<^verbatim>\<open>plan/validate.rs\<close>. \<open>Sql_Ensure\<close>: \<^verbatim>\<open>ensure.rs\<close>, the two ensure
  phases as lists of steps. \<open>Sql_Commit\<close>: \<^verbatim>\<open>protocol/script.rs\<close>, \<^verbatim>\<open>step.rs\<close> and
  \<^verbatim>\<open>unit.rs\<close>, a commit as a list of steps with the single-unit discipline. \<open>Sql_Arms\<close>:
  \<^verbatim>\<open>plan/arms.rs\<close> and \<^verbatim>\<open>protocol/render.rs\<close>, the SQL text of each merge arm.
  The lemmas show what validation accepts, that the ensure and commit planners agree on the
  stage relations, the order of a script (publish, truncate, state, receipt), that a replay
  publishes nothing, and that only the tables \<open>staged_probe_targets\<close> names need a probe. A child's
  identity arm reads its root's stage; \<open>rooted\<close> says that the root is a staged table of the session.

  \<^bold>\<open>The DuckDB destination\<close> (\<^verbatim>\<open>rdlt-connector-duckdb/src/destination\<close>). \<open>Duck_Schema\<close> and
  \<open>Duck_Catalog\<close>: \<^verbatim>\<open>schema.rs\<close> and \<^verbatim>\<open>catalog.rs\<close>, rendering column types, parsing them
  back from the catalog, the widening lattice and the prefilter that decides which columns a
  new run must rebuild. \<open>Duck_Session\<close>: \<^verbatim>\<open>client.rs\<close> and \<^verbatim>\<open>load.rs\<close>, the open registry and
  the load session over a record of the library's calls; \<open>txn_ok\<close> and \<open>session_ok\<close> state
  what the library promises of a transaction and of the statements the session itself plans, and a
  small database shows they can hold; the mutexes around the connection and the registry are taken
  not to be poisoned. \<open>session_run\<close> is any sequence of ensures, writes and commits of one session.
  The lemmas show that a commit is all or nothing, receipt and state document included, that no
  unit moves the data twice, that a session publishes a full-feed table once, and that rows reach the
  appender only in the column order of the schema last ensured.

  \<^bold>\<open>The file destination's session lease\<close> (\<^verbatim>\<open>rdlt-connector-file/src\<close>). \<open>File_Docs\<close>: the
  document verbs of \<^verbatim>\<open>location/kind.rs\<close> and \<^verbatim>\<open>location/s3.rs\<close> on a map from names to
  bytes, with a \<open>fault\<close> argument for a lost request or a lost reply. \<open>File_Lease\<close>:
  \<^verbatim>\<open>destination/lease.rs\<close> as state machines whose transitions are its awaits on the storage
  (\<open>acquire_step\<close>, \<open>renew_step\<close>, \<open>release_step\<close>). \<open>File_Fleet\<close>: any number of sessions, as
  the step relation \<open>lease_step\<close>; its invariant gives, on the S3 arm, for clocks within the
  30 second skew allowance and releases that delete while the session could still write, mutual
  exclusion and that a newer format is left alone. Without the last condition two writers are
  possible (\<open>late_release_two_writers\<close>). \<open>File_Alone\<close>: where \<open>acquire\<close> ends when
  nobody interferes; seven storage calls are enough on either arm.

  \<^bold>\<open>The file destination's load session\<close> (\<^verbatim>\<open>rdlt-connector-file/src/destination\<close>).
  \<open>File_Layout\<close>: \<^verbatim>\<open>layout.rs\<close>, \<^verbatim>\<open>truncate.rs\<close> and \<^verbatim>\<open>parts.rs\<close>, names, documents, the
  ownership rule and the thresholds. \<open>File_Load\<close>: \<^verbatim>\<open>load.rs\<close>, \<^verbatim>\<open>stage.rs\<close> and the storage
  verbs of \<^verbatim>\<open>location/kind.rs\<close>, actions on the session's record and a storage that maps names
  to bytes, each call of which may lose its request or its reply; \<open>part_lib\<close> stands for Arrow
  and Parquet, \<open>fs_lib\<close> for the order of a listing. \<open>File_Parts\<close>: the invariant \<open>books\<close>, by
  which the staged and open parts hold the rows written, and the judgement that a session changes
  nothing but staging before it publishes. \<open>File_Unit\<close>, \<open>File_Publish\<close>: the two conditions
  \<open>recorded\<close> (the manifest names all an attempt may have left) and \<open>landed\<close> (the receipt is
  written and the files hold the unit's rows), and Hoare triples over them for each phase of a
  publish. \<open>File_Attempts\<close>: any number of sessions attempting one unit, which lands once.
  \<open>File_Attempts_Demo\<close> evaluates an attempt that loses the storage and its successor.

  \<^bold>\<open>The REST source\<close> (\<^verbatim>\<open>rdlt-connector-rest/src/source\<close>). \<open>Json\<close> and \<open>Source_Core\<close>:
  JSON values and what a source uses of the SDK. \<open>Rest_Select\<close>, \<open>Rest_Config\<close>: \<^verbatim>\<open>select.rs\<close>
  and \<^verbatim>\<open>config/\<close>, the selector language and the validation. \<open>Rest_Http\<close>: \<^verbatim>\<open>http/\<close>, one
  send with pacing, retries and credentials, in the \<open>action\<close> monad over a log of requests,
  token fetches and sleeps. \<open>Rest_Paginate\<close>, \<open>Rest_Page\<close>, \<open>Rest_Resolve\<close>, \<open>Rest_Sequence\<close>,
  \<open>Rest_Delivery\<close>: \<^verbatim>\<open>read/\<close>, the paginators, the rows and cursors of a page, placeholders,
  the guarded sequence of requests, its delivery and the fan-out over parents as interleaved
  turns on a bounded channel, whose receiver lives as long as the fan-out does. \<open>Rest_Demo\<close> applies the properties to concrete answers. The lemmas show that a
  sequence ends, stays on its origin and repeats no request, what the feed of a stream is, and
  which cursor is checkpointed, and exactly when a fan-out stalls.

  \<^bold>\<open>The PostgreSQL source\<close> (\<^verbatim>\<open>rdlt-connector-postgres/src\<close>). \<open>Pg_Bytes\<close>: big-endian
  integers and UTF-8. \<open>Pg_Value\<close>: \<^verbatim>\<open>types/\<close>, kinds, scalars, the server's text forms and
  literals. \<open>Pg_Cursor\<close>: \<^verbatim>\<open>source/cursor/\<close>, the stored state and the tracker that drops the
  boundary rows of the run before; its queries are taken at their lower bound, without \<^verbatim>\<open>lag\<close>. \<open>Pg_Output\<close>: \<^verbatim>\<open>source/cdc/pgoutput.rs\<close>, the message
  parser, proved exact against the inductive grammar \<open>message_wire\<close> by the judgement \<open>reads\<close>,
  which composes as the parsers do. \<open>Pg_Apply\<close>: \<^verbatim>\<open>source/cdc/apply.rs\<close> and the change pass of
  \<^verbatim>\<open>read.rs\<close>, against the specification \<open>committed\<close>, the rows of a list of transactions;
  \<open>Pg_Demo\<close> is a slot of two transactions in bytes. The lemmas show that both kinds of read,
  resumed at any of their checkpoints, deliver each row exactly once.

  \<^bold>\<open>Binary COPY\<close> (\<^verbatim>\<open>rdlt-connector-postgres/src\<close>). \<open>Pg_Copy\<close>: \<^verbatim>\<open>types/binary.rs\<close> and the
  wire half of \<^verbatim>\<open>types/builder.rs\<close>, the source's streaming decoder; feeding a stream is shown to
  be a run of one resumable loop, so the division into chunks does not matter, and the
  invariant \<open>built\<close> types every cell of the columns under construction. \<open>Pg_Write\<close>:
  \<^verbatim>\<open>types/encode.rs\<close>, \<^verbatim>\<open>destination/write.rs\<close> and the phases of \<^verbatim>\<open>destination/errors.rs\<close>,
  the destination's encoder, with \<open>encode_lib\<close> for the driver and \<open>chrono\<close>. The two are proved
  inverse on a whole stream of \<open>plain_value\<close>s (canonical UUIDs, decimals within the decoder's
  accumulator); \<open>wide_numeric_refused\<close> is a legal NUMERIC of 38 digits the
  decoder refuses. \<open>Pg_Copy_Demo\<close> is a batch of two rows.

  \<^bold>\<open>The PostgreSQL destination\<close> (\<^verbatim>\<open>rdlt-connector-postgres/src/destination\<close>).
  \<open>Pg_Session\<close>: \<^verbatim>\<open>catalog.rs\<close> (DDL), \<^verbatim>\<open>unit.rs\<close> (the transaction of a commit unit),
  \<^verbatim>\<open>executor.rs\<close>, \<^verbatim>\<open>load.rs\<close> and \<^verbatim>\<open>connector.rs\<close>, actions on the session's record and a
  server behind the record \<open>pg_conn\<close>. \<open>Pg_Unit\<close>: the server as the history of committed
  transactions, each a list of statements; \<open>conn_ok\<close> is PostgreSQL's documented behaviour with
  any statement failing and any other session committing in between, and the judgement \<open>triple\<close>
  says what a run adds to the history. \<open>Pg_Deliver\<close>: runs of a session's calls; every
  transaction of its own is accounted for by one delivery, a server that is \<open>healthy\<close> for the
  statements of a delivery commits the unit or has it already, and a unit whose BEGIN half fails leaves the session unusable.
  \<open>Pg_Deliver_Demo\<close> is a server for which all this is evaluated.

  \<^bold>\<open>Bounds.\<close> \<open>root_of\<close> follows at most \<open>ROOT_DEPTH_BOUND\<close> = 64 parent links, as the code
  does. The catalog's type parser recurses on strictly shorter texts. \<open>acquire_run\<close> takes the
  number of storage calls as fuel and is proved to have ended after seven. The page loop takes
  \<open>max_pages\<close> + 1 rounds as fuel, and the guard of the code stops it before; the send loop has
  three rounds, one per retry the code allows and the first attempt. The loop that keeps the
  file session's open parts under their ceiling has a round per open part and one more.

  \<^bold>\<open>Not modelled.\<close> Code outside the repository enters as parameters: the rdlt SDK, serde, the
  DuckDB library, object storage beyond the conditional verbs, reqwest and the URL parser,
  chrono, Arrow's builders and text rendering, \<open>str::to_uppercase\<close>. Async scheduling appears
  only where awaits interleave (the lease, the fan-out); the feed is the list of what was
  sent and a predicate saying when its receiver is gone. Crash points, logging, CLI glue and
  configuration schema attributes are left out. The PostgreSQL queries and slots, the
  Snowflake and Iceberg destinations, and the file and Oracle sources are not modelled. The file
  destination's storage writes a name's bytes whole or not at all, and its clock and the lease's
  evidence are read as given at each call.
\<close>

end
